(* ===== verification/Prelude.thy ===== *)
theory Prelude
  imports Main "HOL-Library.Multiset"
begin

text \<open>
  Shared material of the development: the Rust arithmetic the crate relies on, the iterator
  and vector operations of the standard library that several components call, and the
  generic list lemmas their proofs share.

  Unsigned integers are modelled as \<^typ>\<open>nat\<close> with the width written out where the
  code depends on it. A plain \<open>+\<close> of the code is \<open>u64_add\<close>, which wraps at
  \<open>2 ^ 64\<close> as the release profile does (a debug build panics instead); the code's
  \<open>saturating_add\<close> and \<open>try_from(..).unwrap_or(MAX)\<close> are \<open>u64_sat_add\<close> and \<open>u64_of\<close>;
  \<open>saturating_sub\<close> is subtraction on \<^typ>\<open>nat\<close>. \<open>usize\<close> is 64 bits wide.

  A \<open>Duration\<close> is its number of nanoseconds and an \<open>Instant\<close> the nanoseconds since some
  fixed origin, so \<open>saturating_duration_since\<close> is subtraction on \<^typ>\<open>nat\<close>.
\<close>

named_theorems rust_arith "definitions of the machine arithmetic"

section \<open>Machine arithmetic\<close>

type_synonym instant = nat
type_synonym duration = nat

definition u64_max :: nat where
  [rust_arith]: "u64_max = 2 ^ 64 - 1"

definition u32_max :: nat where
  [rust_arith]: "u32_max = 2 ^ 32 - 1"

definition i64_max :: nat where
  [rust_arith]: "i64_max = 2 ^ 63 - 1"

definition u64_add :: "nat \<Rightarrow> nat \<Rightarrow> nat" where
  [rust_arith]: "u64_add a b = (a + b) mod 2 ^ 64"

definition u64_sat_add :: "nat \<Rightarrow> nat \<Rightarrow> nat" where
  [rust_arith]: "u64_sat_add a b = min (a + b) u64_max"

definition u64_of :: "nat \<Rightarrow> nat" where
  [rust_arith]: "u64_of n = min n u64_max"

definition u32_of :: "nat \<Rightarrow> nat" where
  [rust_arith]: "u32_of n = min n u32_max"

definition as_millis :: "duration \<Rightarrow> nat" where
  [rust_arith]: "as_millis d = d div 1000000"

definition millis :: "duration \<Rightarrow> nat" where
  [rust_arith]: "millis d = u64_of (as_millis d)"

definition from_secs :: "nat \<Rightarrow> duration" where
  [rust_arith]: "from_secs s = s * 1000000000"

definition from_millis :: "nat \<Rightarrow> duration" where
  [rust_arith]: "from_millis n = n * 1000000"

definition div_ceil :: "nat \<Rightarrow> nat \<Rightarrow> nat" where
  [rust_arith]: "div_ceil a b = (a + b - 1) div b"

lemma u64_add_less: "a + b < 2 ^ 64 \<Longrightarrow> u64_add a b = a + b"
  by (simp add: u64_add_def)

lemma u64_add_bound [simp]: "u64_add a b \<le> u64_max"
proof -
  have "(a + b) mod 2 ^ 64 < 2 ^ 64" by (rule mod_less_divisor) simp
  then show ?thesis by (simp add: u64_add_def u64_max_def)
qed

lemma u64_of_bound [simp]: "u64_of n \<le> u64_max"
  by (simp add: u64_of_def)

lemma u64_of_id: "n \<le> u64_max \<Longrightarrow> u64_of n = n"
  by (simp add: u64_of_def)

lemma u32_of_less_iff: "lv \<le> u32_max \<Longrightarrow> u32_of n < lv \<longleftrightarrow> n < lv"
  by (auto simp: u32_of_def)

lemma div_ceil_ge: "0 < b \<Longrightarrow> a \<le> div_ceil a b * b"
proof -
  assume b: "0 < b"
  have "a + b - 1 = (a + b - 1) div b * b + (a + b - 1) mod b" by simp
  moreover have "(a + b - 1) mod b < b" using b by simp
  ultimately have "a + b - 1 < (a + b - 1) div b * b + b" by linarith
  then show ?thesis using b by (simp add: div_ceil_def)
qed

lemma div_ceil_least: "0 < b \<Longrightarrow> a \<le> k * b \<Longrightarrow> div_ceil a b \<le> k"
proof -
  assume b: "0 < b" and k: "a \<le> k * b"
  then have "a + b - 1 < k * b + b" by simp
  then have "a + b - 1 < (k + 1) * b" by (simp add: algebra_simps)
  then have "(a + b - 1) div b < k + 1" using b by (simp add: less_mult_imp_div_less)
  then show ?thesis by (simp add: div_ceil_def)
qed

section \<open>Decimal formatting\<close>

fun show_nat :: "nat \<Rightarrow> string" where
  "show_nat n =
     (if n < 10 then [char_of (48 + n)] else show_nat (n div 10) @ [char_of (48 + n mod 10)])"

declare show_nat.simps [simp del]

section \<open>Vector and iterator operations\<close>

text \<open>\<open>Vec::remove\<close>, \<open>Iterator::position\<close> and \<open>Iterator::rposition\<close>.\<close>

definition remove_at :: "nat \<Rightarrow> 'a list \<Rightarrow> 'a list" where
  "remove_at i xs = take i xs @ drop (Suc i) xs"

fun position :: "('a \<Rightarrow> bool) \<Rightarrow> 'a list \<Rightarrow> nat option" where
  "position P [] = None"
| "position P (x # xs) = (if P x then Some 0 else map_option Suc (position P xs))"

definition rposition :: "('a \<Rightarrow> bool) \<Rightarrow> 'a list \<Rightarrow> nat option" where
  "rposition P xs = map_option (\<lambda>i. length xs - 1 - i) (position P (rev xs))"

text \<open>
  \<open>Iterator::max_by\<close> returns the last of several greatest elements and
  \<open>Iterator::min_by_key\<close> the first of several least ones; \<open>le a b\<close> says that the
  comparison of \<open>a\<close> with \<open>b\<close> is not \<open>Greater\<close>.
\<close>

fun max_from :: "('a \<Rightarrow> 'a \<Rightarrow> bool) \<Rightarrow> 'a \<Rightarrow> 'a list \<Rightarrow> 'a" where
  "max_from le a [] = a"
| "max_from le a (x # xs) = max_from le (if le a x then x else a) xs"

definition max_by :: "('a \<Rightarrow> 'a \<Rightarrow> bool) \<Rightarrow> 'a list \<Rightarrow> 'a option" where
  "max_by le xs = (case xs of [] \<Rightarrow> None | y # ys \<Rightarrow> Some (max_from le y ys))"

fun min_from :: "('a \<Rightarrow> 'b :: linorder) \<Rightarrow> 'a \<Rightarrow> 'a list \<Rightarrow> 'a" where
  "min_from f a [] = a"
| "min_from f a (x # xs) = min_from f (if f x < f a then x else a) xs"

definition min_by_key :: "('a \<Rightarrow> 'b :: linorder) \<Rightarrow> 'a list \<Rightarrow> 'a option" where
  "min_by_key f xs = (case xs of [] \<Rightarrow> None | y # ys \<Rightarrow> Some (min_from f y ys))"

text \<open>A stable sort by a comparison, as \<open>slice::sort_by\<close>.\<close>

fun insort_by :: "('a \<Rightarrow> 'a \<Rightarrow> bool) \<Rightarrow> 'a \<Rightarrow> 'a list \<Rightarrow> 'a list" where
  "insort_by le x [] = [x]"
| "insort_by le x (y # ys) = (if le x y then x # y # ys else y # insort_by le x ys)"

definition sort_by :: "('a \<Rightarrow> 'a \<Rightarrow> bool) \<Rightarrow> 'a list \<Rightarrow> 'a list" where
  "sort_by le xs = foldr (insort_by le) xs []"

text \<open>The bounded ring the code keeps its histories in.\<close>

definition push_capped :: "nat \<Rightarrow> 'a list \<Rightarrow> 'a \<Rightarrow> 'a list" where
  "push_capped cap xs x = (if length xs = cap then tl xs else xs) @ [x]"

lemma length_push_capped: "length xs \<le> cap \<Longrightarrow> 0 < cap \<Longrightarrow> length (push_capped cap xs x) \<le> cap"
  by (auto simp: push_capped_def)

lemma set_push_capped: "set (push_capped cap xs x) \<subseteq> insert x (set xs)"
  using list.set_sel(2) [of xs] by (cases xs) (auto simp: push_capped_def)



subsection \<open>Lemmas\<close>

lemma length_remove_at [simp]: "i < length xs \<Longrightarrow> length (remove_at i xs) = length xs - 1"
  by (auto simp: remove_at_def)

lemma mset_remove_at: "i < length xs \<Longrightarrow> mset xs = add_mset (xs ! i) (mset (remove_at i xs))"
proof -
  assume "i < length xs"
  then have "xs = take i xs @ xs ! i # drop (Suc i) xs" by (rule id_take_nth_drop)
  then have "mset xs = mset (take i xs @ xs ! i # drop (Suc i) xs)" by (rule arg_cong)
  then show ?thesis by (simp add: remove_at_def)
qed

lemma set_remove_at: "set (remove_at i xs) \<subseteq> set xs"
  by (auto simp: remove_at_def dest: in_set_takeD in_set_dropD)

lemma map_remove_at: "map f (remove_at i xs) = remove_at i (map f xs)"
  by (simp add: remove_at_def take_map drop_map)

lemma set_remove_at_eq:
  "i < length xs \<Longrightarrow> set xs = insert (xs ! i) (set (remove_at i xs))"
  using mset_remove_at [of i xs] by (metis set_mset_add_mset_insert set_mset_mset)

lemma distinct_remove_at:
  assumes "distinct xs" and "i < length xs"
  shows "distinct (remove_at i xs)" and "xs ! i \<notin> set (remove_at i xs)"
proof -
  have "xs = take i xs @ xs ! i # drop (Suc i) xs" using assms(2) by (rule id_take_nth_drop)
  with assms(1) have "distinct (take i xs @ xs ! i # drop (Suc i) xs)" by metis
  then show "distinct (remove_at i xs)" and "xs ! i \<notin> set (remove_at i xs)"
    by (auto simp: remove_at_def)
qed

lemma position_Some:
  "position P xs = Some i \<Longrightarrow> i < length xs \<and> P (xs ! i) \<and> (\<forall>j < i. \<not> P (xs ! j))"
proof (induction xs arbitrary: i)
  case Nil
  then show ?case by simp
next
  case (Cons x xs)
  show ?case
  proof (cases "P x")
    case True
    with Cons.prems show ?thesis by simp
  next
    case False
    with Cons.prems obtain k where k: "position P xs = Some k" "i = Suc k" by auto
    from Cons.IH [OF k(1)] False k(2) show ?thesis by (auto simp: nth_Cons split: nat.splits)
  qed
qed

lemma position_None: "position P xs = None \<longleftrightarrow> (\<forall>x \<in> set xs. \<not> P x)"
  by (induction xs) auto

lemma max_from_in: "max_from le a xs \<in> insert a (set xs)"
  by (induction xs arbitrary: a) (auto split: if_splits)

lemma max_by_None [simp]: "max_by le xs = None \<longleftrightarrow> xs = []"
  by (cases xs) (auto simp: max_by_def)

lemma max_by_in: "max_by le xs = Some m \<Longrightarrow> m \<in> set xs"
  using max_from_in [of le] by (cases xs) (auto simp: max_by_def)

lemma min_from_in: "min_from f a xs \<in> insert a (set xs)"
  by (induction xs arbitrary: a) (auto split: if_splits)

lemma min_from_le: "y \<in> insert a (set xs) \<Longrightarrow> f (min_from f a xs) \<le> f y"
proof (induction xs arbitrary: a y)
  case Nil
  then show ?case by simp
next
  case (Cons x xs)
  let ?b = "if f x < f a then x else a"
  have b: "f (min_from f ?b xs) \<le> f ?b" by (rule Cons.IH) blast
  from Cons.prems consider "y = a" | "y = x" | "y \<in> set xs" by auto
  then show ?case
  proof cases
    case 3
    then have "f (min_from f ?b xs) \<le> f y" by (intro Cons.IH) simp
    then show ?thesis by simp
  qed (use b in \<open>auto split: if_splits\<close>)
qed

lemma min_by_key_in: "min_by_key f xs = Some m \<Longrightarrow> m \<in> set xs"
  using min_from_in [of f] by (cases xs) (auto simp: min_by_key_def)

lemma min_by_key_le: "min_by_key f xs = Some m \<Longrightarrow> y \<in> set xs \<Longrightarrow> f m \<le> f y"
  using min_from_le [of y] by (cases xs) (auto simp: min_by_key_def)

lemma min_from_first:
  "(min_from f a xs = a \<and> (\<forall>y \<in> set xs. f a \<le> f y)) \<or>
     (\<exists>pre post. xs = pre @ min_from f a xs # post \<and> f (min_from f a xs) < f a \<and>
        (\<forall>y \<in> set pre. f (min_from f a xs) < f y) \<and> (\<forall>y \<in> set post. f (min_from f a xs) \<le> f y))"
proof (induction xs arbitrary: a)
  case Nil
  then show ?case by simp
next
  case (Cons x xs)
  let ?b = "if f x < f a then x else a" and ?m = "min_from f a (x # xs)"
  have m: "?m = min_from f ?b xs" by simp
  from Cons.IH [of ?b, folded m] show ?case
  proof
    assume "?m = ?b \<and> (\<forall>y \<in> set xs. f ?b \<le> f y)"
    then have b: "?m = ?b" "\<forall>y \<in> set xs. f ?b \<le> f y" by blast+
    show ?thesis
    proof (cases "f x < f a")
      case True
      with b show ?thesis by (intro disjI2 exI [of _ "[]"] exI [of _ xs]) simp
    next
      case False
      with b show ?thesis by simp
    qed
  next
    assume "\<exists>pre post. xs = pre @ ?m # post \<and> f ?m < f ?b \<and>
      (\<forall>y \<in> set pre. f ?m < f y) \<and> (\<forall>y \<in> set post. f ?m \<le> f y)"
    then obtain pre post where "xs = pre @ ?m # post" "f ?m < f ?b"
      "\<forall>y \<in> set pre. f ?m < f y" "\<forall>y \<in> set post. f ?m \<le> f y" by blast
    moreover from \<open>f ?m < f ?b\<close> have "f ?m < f a" "f ?m < f x" by (auto split: if_splits)
    ultimately show ?thesis
      by (intro disjI2 exI [of _ "x # pre"] exI [of _ post]) (simp del: min_from.simps)
  qed
qed

lemma min_by_key_first:
  assumes "min_by_key f xs = Some m"
  shows "\<exists>pre post. xs = pre @ m # post \<and> (\<forall>y \<in> set pre. f m < f y) \<and> (\<forall>y \<in> set post. f m \<le> f y)"
proof -
  from assms obtain y ys where xs: "xs = y # ys" and m: "m = min_from f y ys"
    by (cases xs) (auto simp: min_by_key_def)
  from min_from_first [of f y ys] show ?thesis
  proof
    assume "min_from f y ys = y \<and> (\<forall>z \<in> set ys. f y \<le> f z)"
    then show ?thesis using xs m by (intro exI [of _ "[]"] exI [of _ ys]) simp
  next
    assume "\<exists>pre post. ys = pre @ min_from f y ys # post \<and> f (min_from f y ys) < f y \<and>
      (\<forall>z \<in> set pre. f (min_from f y ys) < f z) \<and> (\<forall>z \<in> set post. f (min_from f y ys) \<le> f z)"
    then obtain pre post where "ys = pre @ m # post" "f m < f y" "\<forall>z \<in> set pre. f m < f z"
      "\<forall>z \<in> set post. f m \<le> f z" unfolding m by blast
    then show ?thesis using xs by (intro exI [of _ "y # pre"] exI [of _ post]) simp
  qed
qed

lemma min_by_key_None [simp]: "min_by_key f xs = None \<longleftrightarrow> xs = []"
  by (cases xs) (auto simp: min_by_key_def)

lemma mset_insort_by [simp]: "mset (insort_by le x ys) = add_mset x (mset ys)"
  by (induction ys) auto

lemma mset_sort_by [simp]: "mset (sort_by le xs) = mset xs"
  by (induction xs) (auto simp: sort_by_def)

lemma set_sort_by [simp]: "set (sort_by le xs) = set xs"
  by (metis mset_sort_by set_mset_mset)

lemma length_sort_by [simp]: "length (sort_by le xs) = length xs"
  by (metis mset_sort_by size_mset)

lemma find_Some_D: "List.find P xs = Some x \<Longrightarrow> x \<in> set xs \<and> P x"
  by (auto simp: find_Some_iff)

lemma find_None_D: "List.find P xs = None \<Longrightarrow> x \<in> set xs \<Longrightarrow> \<not> P x"
  by (auto simp: find_None_iff)

lemma find_upt_Some: "List.find P [a ..< b] = Some i \<Longrightarrow> a \<le> i \<and> i < b \<and> P i"
  by (auto dest: find_Some_D)

lemma ball_enumerate: "(\<forall>e \<in> set (List.enumerate n xs). P (snd e)) \<longleftrightarrow> (\<forall>x \<in> set xs. P x)"
proof -
  have "set xs = snd ` set (List.enumerate n xs)"
    by (metis list.set_map map_snd_enumerate)
  then show ?thesis by auto
qed

lemma length_filter_update:
  "i < length xs \<Longrightarrow> length (filter P (xs[i := y])) + of_bool (P (xs ! i)) =
     length (filter P xs) + of_bool (P y)"
proof (induction xs arbitrary: i)
  case (Cons x xs)
  then show ?case by (cases i) (auto simp: nth_Cons split: nat.splits)
qed simp

text \<open>A pigeonhole: fewer used slots than \<open>n\<close> leave one below \<open>n\<close> free.\<close>

lemma free_slot:
  assumes "length (xs :: nat list) < n"
  shows "\<exists>i < n. i \<notin> set xs"
proof (rule ccontr)
  assume "\<not> (\<exists>i < n. i \<notin> set xs)"
  then have "{..< n} \<subseteq> set xs" by auto
  then have "card {..< n} \<le> card (set xs)" by (intro card_mono) auto
  then show False using assms card_length [of xs] by simp
qed

section \<open>Preferences\<close>

text \<open>
  The code picks maxima with \<open>max_by\<close> and sorts with \<open>sort_by\<close> by comparisons of its
  own. What it relies on is that the comparison is a total preorder: the interface
  \<open>preference\<close>. Each component interprets it on its own comparison.
\<close>

locale preference =
  fixes le :: "'a \<Rightarrow> 'a \<Rightarrow> bool"
  assumes le_trans: "le x y \<Longrightarrow> le y z \<Longrightarrow> le x z"
    and le_total: "le x y \<or> le y x"
begin

lemma le_refl: "le x x"
  using le_total by blast

lemma max_from_ge: "y \<in> insert a (set xs) \<Longrightarrow> le y (max_from le a xs)"
proof (induction xs arbitrary: a y)
  case Nil
  then show ?case using le_refl by auto
next
  case (Cons x xs)
  let ?b = "if le a x then x else a"
  have up: "le a ?b" "le x ?b" using le_total le_refl by auto
  have b: "le ?b (max_from le ?b xs)" by (rule Cons.IH) blast
  from Cons.prems consider "y = a" | "y = x" | "y \<in> set xs" by auto
  then show ?case
  proof cases
    case 1
    then show ?thesis using le_trans [OF up(1) b] by simp
  next
    case 2
    then show ?thesis using le_trans [OF up(2) b] by simp
  next
    case 3
    then have "le y (max_from le ?b xs)" by (intro Cons.IH) simp
    then show ?thesis by simp
  qed
qed

lemma max_by_ge: "max_by le xs = Some m \<Longrightarrow> y \<in> set xs \<Longrightarrow> le y m"
  using max_from_ge by (cases xs) (auto simp: max_by_def)

lemma sorted_wrt_insort_by: "sorted_wrt le ys \<Longrightarrow> sorted_wrt le (insort_by le x ys)"
proof (induction ys)
  case Nil
  then show ?case by simp
next
  case (Cons y ys)
  have ins: "set (insort_by le x ys) = insert x (set ys)"
    by (metis mset_insort_by set_mset_add_mset_insert set_mset_mset)
  show ?case
  proof (cases "le x y")
    case True
    with Cons.prems le_trans show ?thesis by auto
  next
    case False
    with le_total have "le y x" by blast
    with False Cons ins show ?thesis by auto
  qed
qed

lemma sorted_wrt_sort_by: "sorted_wrt le (sort_by le xs)"
  using sorted_wrt_insort_by by (induction xs) (auto simp: sort_by_def)

end

text \<open>
  A component with operations is a step function over a type of events; the interface
  \<open>stepper\<close> says that every step keeps an invariant, and then every run does.
\<close>

locale stepper =
  fixes step :: "'s \<Rightarrow> 'e \<Rightarrow> 's"
    and inv :: "'s \<Rightarrow> bool"
  assumes step_inv: "inv s \<Longrightarrow> inv (step s e)"
begin

lemma run_inv: "inv s \<Longrightarrow> inv (foldl step s es)"
  by (induction es arbitrary: s) (auto intro: step_inv)

end

end
