(* ===== verification/Float64.thy ===== *)
theory Float64
  imports Complex_Main Prelude
begin

text \<open>
  The \<open>f64\<close> arithmetic the tuner uses: conversion of unsigned integers and durations,
  division, multiplication by a literal and comparison. Every value it meets is a
  non-negative finite number of normal range (a count below \<open>2 ^ 64\<close> divided by at least
  a millisecond and at most a \<open>u64\<close> of seconds), so a value is the rational it denotes
  and each operation is the exact one followed by rounding to 53 significant bits, ties to
  even, as IEEE 754 defines it.
\<close>

fun bit_length :: "nat \<Rightarrow> nat" where
  "bit_length n = (if n = 0 then 0 else Suc (bit_length (n div 2)))"

declare bit_length.simps [simp del]

lemma bit_length_bounds: "0 < n \<Longrightarrow> 2 ^ (bit_length n - 1) \<le> n \<and> n < 2 ^ bit_length n \<and> 0 < bit_length n"
proof (induction n rule: bit_length.induct)
  case (1 n)
  show ?case
  proof (cases "n = 1")
    case True
    then show ?thesis by (simp add: bit_length.simps)
  next
    case False
    with "1.prems" have "0 < n div 2" by simp
    with "1.IH" "1.prems" have IH: "2 ^ (bit_length (n div 2) - 1) \<le> n div 2"
      "n div 2 < 2 ^ bit_length (n div 2)" "0 < bit_length (n div 2)" by auto
    have b: "bit_length n = Suc (bit_length (n div 2))" using "1.prems" by (subst bit_length.simps) simp
    have "2 * 2 ^ (bit_length (n div 2) - 1) = (2::nat) ^ bit_length (n div 2)"
      using IH(3) by (metis Suc_diff_1 power_Suc)
    moreover have "2 * (n div 2) \<le> n" "n < 2 * (n div 2) + 2" by simp_all
    ultimately have "2 ^ bit_length (n div 2) \<le> n" "n < 2 * 2 ^ bit_length (n div 2)"
      using IH(1,2) by linarith+
    with b show ?thesis by simp
  qed
qed

definition scale2 :: "int \<Rightarrow> rat \<Rightarrow> rat" where
  "scale2 k q = (if 0 \<le> k then q * 2 ^ nat k else q / 2 ^ nat (- k))"

lemma scale2_powr: "scale2 k q = q * 2 powi k"
proof (cases "0 \<le> k")
  case False
  then have "(2 :: rat) powi k = inverse (2 ^ nat (- k))"
    by (simp only: power_int_def if_False power_inverse)
  with False show ?thesis by (simp only: scale2_def if_False divide_inverse)
qed (simp add: scale2_def power_int_def)

lemma scale2_inverse [simp]: "scale2 k (scale2 (- k) q) = q"
  by (simp add: scale2_powr power_int_minus mult.assoc)

lemma scale2_mono: "p \<le> q \<Longrightarrow> scale2 k p \<le> scale2 k q"
  by (simp add: scale2_powr)

text \<open>The exponent of the leading bit.\<close>

definition f64_exponent :: "rat \<Rightarrow> int" where
  "f64_exponent q =
     (let (n, d) = quotient_of q;
          e = int (bit_length (nat n)) - int (bit_length (nat d))
      in if scale2 e 1 \<le> q then e else e - 1)"

definition round_half_even :: "rat \<Rightarrow> int" where
  "round_half_even q =
     (let f = \<lfloor>q\<rfloor>; r = q - of_int f
      in if r < 1 / 2 then f else if r > 1 / 2 then f + 1 else if even f then f else f + 1)"

definition f64_round :: "rat \<Rightarrow> rat" where
  "f64_round q =
     (if q \<le> 0 then 0
      else let e = f64_exponent q
           in scale2 (e - 52) (of_int (round_half_even (scale2 (52 - e) q))))"

definition f64_of_nat :: "nat \<Rightarrow> rat" where
  "f64_of_nat n = f64_round (of_nat n)"

definition f64_div :: "rat \<Rightarrow> rat \<Rightarrow> rat" where
  "f64_div a b = f64_round (a / b)"

definition f64_mul :: "rat \<Rightarrow> rat \<Rightarrow> rat" where
  "f64_mul a b = f64_round (a * b)"

definition f64_add :: "rat \<Rightarrow> rat \<Rightarrow> rat" where
  "f64_add a b = f64_round (a + b)"

text \<open>\<open>Duration::as_secs_f64\<close>.\<close>

definition as_secs_f64 :: "duration \<Rightarrow> rat" where
  "as_secs_f64 d =
     f64_add (f64_of_nat (d div 1000000000))
       (f64_div (f64_of_nat (d mod 1000000000)) (f64_of_nat 1000000000))"

section \<open>Values that need not be finite\<close>

text \<open>
  An \<open>f32\<close> or \<open>f64\<close> value as the code stores it: the rational it denotes, or one of the values
  that are not finite. \<open>f32_round\<close> rounds to 24 significant bits.
\<close>

datatype f32 = F32 rat | F32_infinity | F32_neg_infinity | F32_nan

datatype f64 = F64 rat | F64_infinity | F64_neg_infinity | F64_nan

definition f32_round :: "rat \<Rightarrow> rat" where
  "f32_round q =
     (if q \<le> 0 then 0
      else let e = f64_exponent q
           in scale2 (e - 23) (of_int (round_half_even (scale2 (23 - e) q))))"

section \<open>Rounding error\<close>

lemma round_half_even_error: "\<bar>of_int (round_half_even q) - q\<bar> \<le> 1 / 2"
proof -
  have "of_int \<lfloor>q\<rfloor> \<le> q" "q < of_int \<lfloor>q\<rfloor> + 1" using floor_correct [of q] by simp_all
  then show ?thesis by (auto simp: round_half_even_def Let_def abs_le_iff)
qed

lemma f64_exponent_bound:
  assumes "0 < q"
  shows "scale2 (f64_exponent q) 1 \<le> q"
proof -
  obtain n d where nd: "quotient_of q = (n, d)" by (cases "quotient_of q")
  have d: "0 < d" using quotient_of_denom_pos [OF nd] .
  have q: "q = of_int n / of_int d" by (rule quotient_of_div [OF nd])
  with assms d have n: "0 < n" by (simp add: zero_less_divide_iff)
  let ?bn = "bit_length (nat n)" and ?bd = "bit_length (nat d)"
  have bn: "2 ^ (?bn - 1) \<le> nat n" "0 < ?bn" using bit_length_bounds [of "nat n"] n by auto
  have bd: "nat d < 2 ^ ?bd" using bit_length_bounds [of "nat d"] d by auto
  have "(of_nat (2 ^ (?bn - 1)) :: rat) \<le> of_nat (nat n)" using bn(1) by (rule of_nat_mono)
  then have rn: "(2 :: rat) ^ (?bn - 1) \<le> of_int n" using n by simp
  have "(of_nat (nat d) :: rat) \<le> of_nat (2 ^ ?bd)" using bd by (intro of_nat_mono) simp
  then have rd: "of_int d \<le> (2 :: rat) ^ ?bd" using d by simp
  have "2 powi (int ?bn - int ?bd - 1) = (2 :: rat) powi (int ?bn - 1) / 2 powi int ?bd"
    by (simp add: power_int_diff)
  also have "(2 :: rat) powi (int ?bn - 1) = 2 ^ (?bn - 1)"
    using bn(2) by (simp add: power_int_def nat_diff_distrib')
  finally have "2 powi (int ?bn - int ?bd - 1) = (2 :: rat) ^ (?bn - 1) / 2 ^ ?bd" by simp
  also have "\<dots> \<le> of_int n / of_int d"
    using rn rd d n by (intro frac_le) auto
  finally have "scale2 (int ?bn - int ?bd - 1) 1 \<le> q" by (simp add: scale2_powr q)
  then show ?thesis by (simp add: f64_exponent_def nd Let_def)
qed

lemma f64_round_error:
  assumes q: "0 \<le> q"
  shows "\<bar>f64_round q - q\<bar> \<le> q / 2 ^ 53"
proof -
  show ?thesis
  proof (cases "q = 0")
    case True
    then show ?thesis by (simp add: f64_round_def)
  next
    case False
    with q have pos: "0 < q" by simp
    let ?e = "f64_exponent q"
    let ?x = "scale2 (52 - ?e) q"
    have undo: "scale2 (?e - 52) ?x = q" using scale2_inverse [of "?e - 52" q] by simp
    have "f64_round q - q = scale2 (?e - 52) (of_int (round_half_even ?x) - ?x)"
      using pos undo by (simp add: f64_round_def Let_def scale2_powr left_diff_distrib)
    then have "\<bar>f64_round q - q\<bar> = scale2 (?e - 52) \<bar>of_int (round_half_even ?x) - ?x\<bar>"
      by (simp add: scale2_powr abs_mult)
    also have "\<dots> \<le> scale2 (?e - 52) (1 / 2)" by (intro scale2_mono round_half_even_error)
    also have "\<dots> = scale2 ?e 1 / 2 ^ 53"
      by (simp add: scale2_powr power_int_diff)
    also have "\<dots> \<le> q / 2 ^ 53" using f64_exponent_bound [OF pos] by (simp add: divide_right_mono)
    finally show ?thesis .
  qed
qed

lemma f64_round_lower:
  assumes "0 \<le> q"
  shows "q * (1 - 1 / 2 ^ 53) \<le> f64_round q"
proof -
  have "q - f64_round q \<le> \<bar>f64_round q - q\<bar>" by simp
  also have "\<dots> \<le> q / 2 ^ 53" by (rule f64_round_error [OF assms])
  finally have "q - q / 2 ^ 53 \<le> f64_round q" by linarith
  moreover have "q * (1 - 1 / 2 ^ 53) = q - q / 2 ^ 53" by (simp add: right_diff_distrib)
  ultimately show ?thesis by simp
qed

lemma f64_round_upper:
  assumes "0 \<le> q"
  shows "f64_round q \<le> 2 * q"
proof -
  have "f64_round q - q \<le> \<bar>f64_round q - q\<bar>" by simp
  also have "\<dots> \<le> q / 2 ^ 53" by (rule f64_round_error [OF assms])
  also have "\<dots> \<le> q" using assms by simp
  finally show ?thesis by simp
qed

end
