(* ===== verification/Call_Queue.thy ===== *)
theory Call_Queue
  imports Prelude "HOL-Library.Word"
begin

text \<open>
  The waiting and running calls of one scheduler and the dispatch rules over them:
  \<open>Priority\<close>, \<open>Lane\<close>, \<open>CallMeta\<close>, \<open>SchedulerConfig\<close>, \<open>SchedulerError\<close>,
  \<open>CallReport\<close> and \<open>Queue\<close> of \<open>src/services/scheduler/queue.rs\<close>.

  A waiting call is picked by value, then by id; \<open>q_dispatch\<close> is the loop that starts
  calls until the level is reached. The lemmas show what every queue operation keeps of
  \<open>queue_wf\<close> (ids never repeat, no two running calls share a bucket), which call is
  picked, which lane a bucket may serve, and that dispatch leaves no work undone.
\<close>

unbundle bit_operations_syntax

named_theorems queue_defs "definitions of the queue operations"

section \<open>Data\<close>

datatype priority = Low | Medium | High | Urgent

text \<open>The derived order of the enum: by position of the variant.\<close>

fun priority_rank :: "priority \<Rightarrow> nat" where
  "priority_rank Low = 0"
| "priority_rank Medium = 1"
| "priority_rank High = 2"
| "priority_rank Urgent = 3"

lemma priority_rank_inj: "priority_rank p = priority_rank q \<Longrightarrow> p = q"
  by (cases p; cases q) auto

instantiation priority :: linorder
begin

definition less_eq_priority :: "priority \<Rightarrow> priority \<Rightarrow> bool" where
  "less_eq_priority p q \<longleftrightarrow> priority_rank p \<le> priority_rank q"

definition less_priority :: "priority \<Rightarrow> priority \<Rightarrow> bool" where
  "less_priority p q \<longleftrightarrow> priority_rank p < priority_rank q"

instance
  by standard (auto simp: less_eq_priority_def less_priority_def intro: priority_rank_inj)

end

fun initial_value :: "priority \<Rightarrow> nat" where
  "initial_value Low = 1"
| "initial_value Medium = 10"
| "initial_value High = 100"
| "initial_value Urgent = 10000"

fun priority_as_str :: "priority \<Rightarrow> string" where
  "priority_as_str Low = ''low''"
| "priority_as_str Medium = ''medium''"
| "priority_as_str High = ''high''"
| "priority_as_str Urgent = ''urgent''"

datatype lane = Shared | Reserved

lemma not_Reserved [simp]: "l \<noteq> Reserved \<longleftrightarrow> l = Shared"
  by (cases l) auto

record call_meta =
  meta_kind :: string
  meta_priority :: priority
  meta_lane :: lane
  meta_subject :: string
  meta_reference :: "string option"
  meta_reruns :: nat
  meta_task :: "nat option"
  meta_allowed :: "64 word"

definition call_meta_new :: "string \<Rightarrow> priority \<Rightarrow> string \<Rightarrow> call_meta" where
  "call_meta_new kind prio subject =
     \<lparr>meta_kind = kind, meta_priority = prio, meta_lane = Shared, meta_subject = subject,
      meta_reference = None, meta_reruns = 0, meta_task = None, meta_allowed = - 1\<rparr>"

definition with_lane :: "lane \<Rightarrow> call_meta \<Rightarrow> call_meta" where
  "with_lane l m = m\<lparr>meta_lane := l\<rparr>"

definition with_reference :: "string \<Rightarrow> call_meta \<Rightarrow> call_meta" where
  "with_reference r m = m\<lparr>meta_reference := Some r\<rparr>"

definition with_task :: "nat \<Rightarrow> call_meta \<Rightarrow> call_meta" where
  "with_task t m = m\<lparr>meta_task := Some t\<rparr>"

definition with_reruns :: "nat \<Rightarrow> call_meta \<Rightarrow> call_meta" where
  "with_reruns n m = m\<lparr>meta_reruns := n\<rparr>"

definition effective_priority :: "call_meta \<Rightarrow> priority" where
  "effective_priority m = (if meta_reruns m > 0 then Urgent else meta_priority m)"

text \<open>
  The caller's \<open>DispatchGate\<close>: what it answers at the moment an operation asks. The gate
  is the caller's own object, so a state of it is an argument of every operation.
\<close>

record gate =
  gate_paused :: bool
  gate_stale :: "nat \<Rightarrow> bool"

definition open_gate :: gate where
  "open_gate = \<lparr>gate_paused = False, gate_stale = (\<lambda>_. False)\<rparr>"

definition meta_is_stale :: "gate \<Rightarrow> call_meta \<Rightarrow> bool" where
  "meta_is_stale g m = (case meta_task m of None \<Rightarrow> False | Some t \<Rightarrow> gate_stale g t)"

type_synonym backend_id = string

datatype scheduler_error =
    SchedConfig string
  | SchedQueueFull backend_id nat
  | SchedInputsChanged

fun scheduler_error_display :: "scheduler_error \<Rightarrow> string" where
  "scheduler_error_display (SchedConfig message) = ''scheduler config: '' @ message"
| "scheduler_error_display (SchedQueueFull backend n) =
     ''backend '' @ backend @ '' already has '' @ show_nat n @ '' calls waiting''"
| "scheduler_error_display SchedInputsChanged = ''the call's inputs changed while it waited''"

record scheduler_config =
  cfg_ceiling :: nat
  cfg_max_waiting :: nat
  cfg_reserved_from :: nat

definition max_ceiling :: nat where
  "max_ceiling = 64"

definition scheduler_config_validate :: "scheduler_config \<Rightarrow> scheduler_error + unit" where
  "scheduler_config_validate c =
     (if cfg_ceiling c = 0 \<or> cfg_ceiling c > max_ceiling
      then Inl (SchedConfig (''ceiling must be 1 to '' @ show_nat max_ceiling @ '', got ''
                  @ show_nat (cfg_ceiling c)))
      else if cfg_max_waiting c = 0
      then Inl (SchedConfig ''max_waiting must be at least 1'')
      else if cfg_reserved_from c = 0
      then Inl (SchedConfig ''reserved_lane_from_level must be at least 1'')
      else Inr ())"

definition scheduler_config_validated :: "scheduler_config \<Rightarrow> scheduler_error + scheduler_config" where
  "scheduler_config_validated c =
     (case scheduler_config_validate c of Inl e \<Rightarrow> Inl e | Inr _ \<Rightarrow> Inr c)"

definition scheduler_config_new :: "nat \<Rightarrow> scheduler_error + scheduler_config" where
  "scheduler_config_new ceiling =
     scheduler_config_validated
       \<lparr>cfg_ceiling = ceiling, cfg_max_waiting = 256, cfg_reserved_from = 4\<rparr>"

definition with_max_waiting :: "nat \<Rightarrow> scheduler_config \<Rightarrow> scheduler_error + scheduler_config" where
  "with_max_waiting n c = scheduler_config_validated (c\<lparr>cfg_max_waiting := n\<rparr>)"

datatype call_outcome = OutcomeOk | OutcomeFailed | OutcomeCancelled

record call_report =
  rep_outcome :: call_outcome
  rep_prompt_tokens :: "nat option"
  rep_completion_tokens :: "nat option"
  rep_output_chars :: nat

definition call_report_empty :: "call_outcome \<Rightarrow> call_report" where
  "call_report_empty oc =
     \<lparr>rep_outcome = oc, rep_prompt_tokens = None, rep_completion_tokens = None,
      rep_output_chars = 0\<rparr>"

section \<open>The queue\<close>

record waiter =
  w_id :: nat
  w_meta :: call_meta
  w_value :: nat
  w_arrived :: instant

record runner =
  r_id :: nat
  r_meta :: call_meta
  r_value :: nat
  r_waited :: duration
  r_started :: instant
  r_bucket :: nat
  r_level :: nat

record queue =
  q_waiting :: "waiter list"
  q_running :: "runner list"

definition queue_empty :: queue where
  "queue_empty = \<lparr>q_waiting = [], q_running = []\<rparr>"

text \<open>
  \<open>Queue::push\<close> draws the call id from the process-wide counter \<open>NEXT_WAITER\<close>; the
  counter is the first argument, and the result holds its next value.
\<close>

definition q_push :: "nat \<Rightarrow> call_meta \<Rightarrow> instant \<Rightarrow> queue \<Rightarrow> nat \<times> nat \<times> queue" where
  "q_push next_waiter m now q =
     (next_waiter, u64_add next_waiter 1,
      q\<lparr>q_waiting := q_waiting q @
          [\<lparr>w_id = next_waiter, w_meta = m,
            w_value = initial_value (effective_priority m), w_arrived = now\<rparr>]\<rparr>)"

definition q_is_waiting :: "nat \<Rightarrow> queue \<Rightarrow> bool" where
  "q_is_waiting i q \<longleftrightarrow> (\<exists>w \<in> set (q_waiting q). w_id w = i)"

definition waiter_le :: "waiter \<Rightarrow> waiter \<Rightarrow> bool" where
  "waiter_le a b \<longleftrightarrow> w_value a < w_value b \<or> (w_value a = w_value b \<and> w_id b \<le> w_id a)"

definition q_best :: "(waiter \<Rightarrow> bool) \<Rightarrow> queue \<Rightarrow> nat option" where
  "q_best eligible q =
     map_option fst
       (max_by (\<lambda>a b. waiter_le (snd a) (snd b))
         (filter (\<lambda>e. eligible (snd e)) (List.enumerate 0 (q_waiting q))))"

definition q_bucket_free :: "nat \<Rightarrow> queue \<Rightarrow> bool" where
  "q_bucket_free b q \<longleftrightarrow> \<not> (\<exists>r \<in> set (q_running q). r_bucket r = b)"

definition q_next_placement ::
    "nat \<Rightarrow> nat \<Rightarrow> (waiter \<Rightarrow> bool) \<Rightarrow> queue \<Rightarrow> (nat \<times> nat) option" where
  "q_next_placement level reserved_from eligible q =
     (if level < reserved_from then
        (case List.find (\<lambda>b. q_bucket_free b q) [0 ..< level] of
           None \<Rightarrow> None
         | Some bucket \<Rightarrow> map_option (\<lambda>i. (i, bucket)) (q_best eligible q))
      else
        (let reserved_free = q_bucket_free 0 q in
         case (if reserved_free
               then q_best (\<lambda>w. meta_lane (w_meta w) = Reserved \<and> eligible w) q else None) of
           Some i \<Rightarrow> Some (i, 0)
         | None \<Rightarrow>
             (case q_best (\<lambda>w. meta_lane (w_meta w) \<noteq> Reserved \<and> eligible w) q of
                None \<Rightarrow> None
              | Some i \<Rightarrow>
                  (case List.find (\<lambda>b. q_bucket_free b q) [1 ..< level] of
                     Some bucket \<Rightarrow> Some (i, bucket)
                   | None \<Rightarrow> if reserved_free then Some (i, 0) else None))))"

definition start_runner :: "waiter \<Rightarrow> nat \<Rightarrow> nat \<Rightarrow> instant \<Rightarrow> runner" where
  "start_runner w bucket level now =
     \<lparr>r_id = w_id w, r_meta = w_meta w, r_value = w_value w, r_waited = now - w_arrived w,
      r_started = now, r_bucket = bucket, r_level = level\<rparr>"

definition q_start :: "nat \<Rightarrow> instant \<Rightarrow> nat \<Rightarrow> nat \<Rightarrow> queue \<Rightarrow> queue" where
  "q_start level now i bucket q =
     q\<lparr>q_waiting := remove_at i (q_waiting q),
       q_running := q_running q @ [start_runner (q_waiting q ! i) bucket level now]\<rparr>"

lemma q_best_less: "q_best eligible q = Some i \<Longrightarrow> i < length (q_waiting q)"
  by (auto simp: q_best_def dest!: max_by_in simp: in_set_enumerate_eq)

lemma q_next_placement_less:
  "q_next_placement level reserved_from eligible q = Some (i, b) \<Longrightarrow> i < length (q_waiting q)"
  by (auto simp: q_next_placement_def Let_def q_best_less split: if_splits option.splits)

function q_dispatch ::
    "nat \<Rightarrow> nat \<Rightarrow> instant \<Rightarrow> (waiter \<Rightarrow> bool) \<Rightarrow> queue \<Rightarrow> nat list \<times> queue" where
  "q_dispatch level reserved_from now eligible q =
     (if u32_of (length (q_running q)) < level then
        (case q_next_placement level reserved_from eligible q of
           None \<Rightarrow> ([], q)
         | Some (i, bucket) \<Rightarrow>
             (let (started, q') = q_dispatch level reserved_from now eligible
                    (q_start level now i bucket q)
              in (w_id (q_waiting q ! i) # started, q')))
      else ([], q))"
  by pat_completeness auto
termination
  by (relation "measure (\<lambda>(lv, rf, now, el, q). length (q_waiting q))")
    (auto simp: q_start_def dest!: q_next_placement_less)

declare q_dispatch.simps [simp del]

definition age_waiter :: "waiter \<Rightarrow> waiter" where
  "age_waiter w = w\<lparr>w_value := u64_add (w_value w) 1\<rparr>"

definition q_complete :: "nat \<Rightarrow> queue \<Rightarrow> (runner \<times> queue) option" where
  "q_complete i q =
     (case position (\<lambda>r. r_id r = i) (q_running q) of
        None \<Rightarrow> None
      | Some k \<Rightarrow>
          Some (q_running q ! k,
                q\<lparr>q_running := remove_at k (q_running q),
                  q_waiting := map age_waiter (q_waiting q)\<rparr>))"

definition q_withdraw :: "nat \<Rightarrow> queue \<Rightarrow> bool \<times> queue" where
  "q_withdraw i q =
     (let kept = filter (\<lambda>w. w_id w \<noteq> i) (q_waiting q)
      in (length kept \<noteq> length (q_waiting q), q\<lparr>q_waiting := kept\<rparr>))"

definition q_is_running :: "nat \<Rightarrow> queue \<Rightarrow> bool" where
  "q_is_running i q \<longleftrightarrow> (\<exists>r \<in> set (q_running q). r_id r = i)"

definition q_running_level :: "nat \<Rightarrow> queue \<Rightarrow> nat option" where
  "q_running_level i q = map_option r_level (List.find (\<lambda>r. r_id r = i) (q_running q))"

section \<open>Which waiting call is picked\<close>

interpretation waiters: preference waiter_le
  by unfold_locales (auto simp: waiter_le_def)

interpretation entries: preference "\<lambda>a b :: nat \<times> waiter. waiter_le (snd a) (snd b)"
  by unfold_locales (use waiters.le_trans waiters.le_total in blast)+

lemma q_best_Some:
  assumes "q_best eligible q = Some i"
  shows "i < length (q_waiting q)" and "eligible (q_waiting q ! i)"
    and "\<And>w. w \<in> set (q_waiting q) \<Longrightarrow> eligible w \<Longrightarrow> waiter_le w (q_waiting q ! i)"
proof -
  let ?es = "filter (\<lambda>e. eligible (snd e)) (List.enumerate 0 (q_waiting q))"
  from assms obtain m where m: "max_by (\<lambda>a b. waiter_le (snd a) (snd b)) ?es = Some m"
    and i: "i = fst m"
    by (auto simp: q_best_def)
  from max_by_in [OF m] i show len: "i < length (q_waiting q)" and "eligible (q_waiting q ! i)"
    by (auto simp: in_set_enumerate_eq)
  from max_by_in [OF m] i have snd_m: "snd m = q_waiting q ! i"
    by (auto simp: in_set_enumerate_eq)
  show "waiter_le w (q_waiting q ! i)" if "w \<in> set (q_waiting q)" "eligible w" for w
  proof -
    from that(1) obtain j where "j < length (q_waiting q)" "w = q_waiting q ! j"
      by (auto simp: in_set_conv_nth)
    then have "(j, w) \<in> set ?es" using that(2) by (simp add: in_set_enumerate_eq)
    from entries.max_by_ge [OF m this] snd_m show ?thesis by simp
  qed
qed

lemma q_best_None: "q_best eligible q = None \<longleftrightarrow> (\<forall>w \<in> set (q_waiting q). \<not> eligible w)"
  using ball_enumerate [of 0 "q_waiting q" "\<lambda>w. \<not> eligible w"]
  by (simp add: q_best_def filter_empty_conv)

section \<open>Placement\<close>

lemma q_next_placement_Some:
  assumes "q_next_placement level reserved_from eligible q = Some (i, b)"
  shows "i < length (q_waiting q)" and "eligible (q_waiting q ! i)" and "q_bucket_free b q"
    and "0 < level \<Longrightarrow> b < level"
  using assms
  by (auto simp: q_next_placement_def Let_def q_best_Some
      split: if_splits option.splits dest!: q_best_Some find_Some_D)

lemma q_next_placement_ineligible:
  assumes "\<forall>w \<in> set (q_waiting q). \<not> eligible w"
  shows "q_next_placement level reserved_from eligible q = None"
proof (cases "q_next_placement level reserved_from eligible q")
  case (Some ib)
  then obtain i b where "q_next_placement level reserved_from eligible q = Some (i, b)" by (cases ib) simp
  from q_next_placement_Some(1,2) [OF this] assms show ?thesis by simp
qed

text \<open>Below the reserved level the picked call is the best eligible one.\<close>

lemma q_next_placement_shared_best:
  assumes "q_next_placement level reserved_from eligible q = Some (i, b)"
    and "level < reserved_from" and "w \<in> set (q_waiting q)" and "eligible w"
  shows "waiter_le w (q_waiting q ! i)"
  using assms
  by (auto simp: q_next_placement_def intro: q_best_Some split: option.splits)

text \<open>From the reserved level up, the lanes are kept apart.\<close>

lemma q_next_placement_lane:
  assumes "q_next_placement level reserved_from eligible q = Some (i, b)"
    and "reserved_from \<le> level"
  shows "meta_lane (w_meta (q_waiting q ! i)) = Reserved \<Longrightarrow> b = 0"
    and "meta_lane (w_meta (q_waiting q ! i)) = Shared \<Longrightarrow> b = 0 \<Longrightarrow>
      w \<in> set (q_waiting q) \<Longrightarrow> eligible w \<Longrightarrow> meta_lane (w_meta w) = Shared"
    and "meta_lane (w_meta (q_waiting q ! i)) = Shared \<Longrightarrow> b = 0 \<Longrightarrow>
      0 < c \<Longrightarrow> c < level \<Longrightarrow> \<not> q_bucket_free c q"
  using assms
  by (auto simp: q_next_placement_def Let_def q_best_None find_None_iff
      split: if_splits option.splits dest: q_best_Some(2) find_upt_Some)

lemma free_bucket_below:
  assumes "length (q_running q) < n"
  shows "\<exists>b < n. q_bucket_free b q"
proof -
  from assms have "length (map r_bucket (q_running q)) < n" by simp
  from free_slot [OF this] show ?thesis by (auto simp: q_bucket_free_def)
qed

lemma q_next_placement_None:
  assumes none: "q_next_placement level reserved_from eligible q = None"
    and room: "length (q_running q) < level"
    and w: "w \<in> set (q_waiting q)" "eligible w"
  shows "reserved_from \<le> level \<and> meta_lane (w_meta w) = Reserved \<and> \<not> q_bucket_free 0 q"
proof -
  obtain b where b: "b < level" "q_bucket_free b q" using free_bucket_below [OF room] by blast
  show ?thesis
  proof (cases "level < reserved_from")
    case True
    with none b w show ?thesis
      by (auto simp: q_next_placement_def q_best_None find_None_iff split: option.splits)
  next
    case False
    show ?thesis
    proof (cases "b = 0")
      case True
      with none b w False show ?thesis
        by (auto simp: q_next_placement_def Let_def q_best_None
            split: if_splits option.splits)
    next
      case nz: False
      with none b w False show ?thesis
        by (auto simp: q_next_placement_def Let_def q_best_None find_None_iff
            split: if_splits option.splits) (metis lane.exhaust)
    qed
  qed
qed

section \<open>The dispatch loop\<close>

lemma q_dispatch_stop:
  "\<not> u32_of (length (q_running q)) < level \<Longrightarrow> q_dispatch level reserved_from now eligible q = ([], q)"
  by (simp add: q_dispatch.simps)

lemma q_dispatch_none:
  "q_next_placement level reserved_from eligible q = None \<Longrightarrow>
     q_dispatch level reserved_from now eligible q = ([], q)"
  by (simp add: q_dispatch.simps)

lemma q_dispatch_start:
  "u32_of (length (q_running q)) < level \<Longrightarrow>
     q_next_placement level reserved_from eligible q = Some (i, b) \<Longrightarrow>
     q_dispatch level reserved_from now eligible q =
       (w_id (q_waiting q ! i)
          # fst (q_dispatch level reserved_from now eligible (q_start level now i b q)),
        snd (q_dispatch level reserved_from now eligible (q_start level now i b q)))"
  by (subst q_dispatch.simps) (simp split: prod.splits)

lemmas q_dispatch_cases = q_dispatch_stop q_dispatch_none q_dispatch_start

text \<open>
  Every fact about \<open>q_dispatch\<close> comes from this rule: what a single start keeps, the loop
  keeps.
\<close>

lemma q_dispatch_keeps:
  assumes "P q"
    and "\<And>q i b. P q \<Longrightarrow> u32_of (length (q_running q)) < level \<Longrightarrow>
      q_next_placement level reserved_from eligible q = Some (i, b) \<Longrightarrow>
      P (q_start level now i b q)"
  shows "P (snd (q_dispatch level reserved_from now eligible q))"
  using assms
proof (induction level reserved_from now eligible q rule: q_dispatch.induct)
  case (1 level reserved_from now eligible q)
  show ?case
  proof (cases "u32_of (length (q_running q)) < level")
    case False
    with 1 show ?thesis by (simp add: q_dispatch_cases)
  next
    case room: True
    show ?thesis
    proof (cases "q_next_placement level reserved_from eligible q")
      case None
      with 1 show ?thesis by (simp add: q_dispatch_cases)
    next
      case (Some ib)
      obtain i b where ib: "ib = (i, b)" by (cases ib)
      have "P (snd (q_dispatch level reserved_from now eligible (q_start level now i b q)))"
        by (rule "1.IH" [OF room Some ib [symmetric]]) (use 1 room Some ib in auto)
      with room Some ib show ?thesis by (simp add: q_dispatch_start)
    qed
  qed
qed

definition queue_ids :: "queue \<Rightarrow> nat list" where
  "queue_ids q = map w_id (q_waiting q) @ map r_id (q_running q)"

definition queue_wf :: "queue \<Rightarrow> bool" where
  "queue_wf q \<longleftrightarrow> distinct (queue_ids q) \<and> distinct (map r_bucket (q_running q))"

lemma start_runner_simps [simp]:
  "r_id (start_runner w b lv now) = w_id w" "r_bucket (start_runner w b lv now) = b"
  "r_level (start_runner w b lv now) = lv" "r_meta (start_runner w b lv now) = w_meta w"
  "r_value (start_runner w b lv now) = w_value w" "r_started (start_runner w b lv now) = now"
  "r_waited (start_runner w b lv now) = now - w_arrived w"
  by (simp_all add: start_runner_def)

lemma q_start_simps [simp]:
  "q_running (q_start lv now i b q) = q_running q @ [start_runner (q_waiting q ! i) b lv now]"
  "q_waiting (q_start lv now i b q) = remove_at i (q_waiting q)"
  by (simp_all add: q_start_def)

lemma mset_queue_ids_start:
  assumes "i < length (q_waiting q)"
  shows "mset (queue_ids (q_start level now i b q)) = mset (queue_ids q)"
proof -
  have "mset (map w_id (q_waiting q)) =
      add_mset (w_id (q_waiting q ! i)) (mset (map w_id (remove_at i (q_waiting q))))"
    using assms mset_remove_at [of i "map w_id (q_waiting q)"] by (simp add: map_remove_at)
  then show ?thesis by (simp add: queue_ids_def)
qed

lemma q_dispatch_ids:
  "mset (queue_ids (snd (q_dispatch level reserved_from now eligible q))) = mset (queue_ids q)"
  by (rule q_dispatch_keeps) (auto simp: mset_queue_ids_start dest: q_next_placement_Some(1))

lemma distinct_mset_eq: "mset xs = mset ys \<Longrightarrow> distinct xs \<longleftrightarrow> distinct ys"
  by (metis distinct_count_atmost_1 set_mset_mset)

lemma q_start_wf:
  assumes "queue_wf q" and "i < length (q_waiting q)" and "q_bucket_free b q"
  shows "queue_wf (q_start level now i b q)"
proof -
  have "distinct (queue_ids (q_start level now i b q))"
    using assms(1) distinct_mset_eq [OF mset_queue_ids_start [OF assms(2)]]
    by (simp add: queue_wf_def)
  then show ?thesis using assms(1,3) by (auto simp: queue_wf_def q_bucket_free_def)
qed

lemma q_dispatch_wf:
  "queue_wf q \<Longrightarrow> queue_wf (snd (q_dispatch level reserved_from now eligible q))"
  by (rule q_dispatch_keeps) (auto intro: q_start_wf dest: q_next_placement_Some)

text \<open>
  What one loop appends: runners started now, under this level, in a bucket below it, each
  for a call that was waiting and eligible; the answered ids are theirs, in order.
\<close>

definition started_by ::
    "nat \<Rightarrow> nat \<Rightarrow> instant \<Rightarrow> (waiter \<Rightarrow> bool) \<Rightarrow> queue \<Rightarrow> runner \<Rightarrow> bool" where
  "started_by level reserved_from now eligible q r \<longleftrightarrow>
     (\<exists>w \<in> set (q_waiting q). eligible w \<and> r = start_runner w (r_bucket r) level now) \<and>
     r_bucket r < level \<and>
     (reserved_from \<le> level \<and> meta_lane (r_meta r) = Reserved \<longrightarrow> r_bucket r = 0)"

lemma q_dispatch_appends:
  "\<exists>news. q_running (snd (q_dispatch level reserved_from now eligible q)) = q_running q @ news \<and>
     map r_id news = fst (q_dispatch level reserved_from now eligible q) \<and>
     (\<forall>r \<in> set news. started_by level reserved_from now eligible q r)"
proof (induction level reserved_from now eligible q rule: q_dispatch.induct)
  case (1 level reserved_from now eligible q)
  show ?case
  proof (cases "u32_of (length (q_running q)) < level")
    case False
    then show ?thesis by (simp add: q_dispatch_cases)
  next
    case room: True
    show ?thesis
    proof (cases "q_next_placement level reserved_from eligible q")
      case None
      then show ?thesis by (simp add: q_dispatch_cases)
    next
      case (Some ib)
      obtain i b where ib: "ib = (i, b)" by (cases ib)
      let ?r = "start_runner (q_waiting q ! i) b level now"
      note pl = Some [unfolded ib]
      obtain news where news:
        "q_running (snd (q_dispatch level reserved_from now eligible (q_start level now i b q)))
           = q_running (q_start level now i b q) @ news"
        "map r_id news = fst (q_dispatch level reserved_from now eligible (q_start level now i b q))"
        "\<forall>r \<in> set news. started_by level reserved_from now eligible (q_start level now i b q) r"
        using "1.IH" [OF room Some ib [symmetric]] by blast
      have head: "started_by level reserved_from now eligible q ?r"
        using q_next_placement_Some [OF pl] q_next_placement_lane(1) [OF pl] room
        by (auto simp: started_by_def)
      have rest: "started_by level reserved_from now eligible q r" if "r \<in> set news" for r
        using news(3) that set_remove_at [of i "q_waiting q"] by (auto simp: started_by_def)
      from pl news head rest room show ?thesis
        by (intro exI [of _ "?r # news"]) (auto simp: q_dispatch_start)
    qed
  qed
qed

lemma q_dispatch_level:
  assumes "level \<le> u32_max"
  shows "length (q_running (snd (q_dispatch level reserved_from now eligible q)))
    \<le> max (length (q_running q)) level"
proof (rule q_dispatch_keeps [where P = "\<lambda>q'. length (q_running q') \<le> max (length (q_running q)) level"])
  show "length (q_running q) \<le> max (length (q_running q)) level" by simp
qed (use assms in \<open>auto simp: u32_of_less_iff\<close>)

text \<open>Dispatch stops only where nothing more may start.\<close>

lemma q_dispatch_saturates:
  assumes "level \<le> u32_max"
  shows "let q' = snd (q_dispatch level reserved_from now eligible q) in
    level \<le> length (q_running q') \<or> q_next_placement level reserved_from eligible q' = None"
  using assms
proof (induction level reserved_from now eligible q rule: q_dispatch.induct)
  case (1 level reserved_from now eligible q)
  show ?case
  proof (cases "u32_of (length (q_running q)) < level")
    case False
    with "1.prems" show ?thesis by (simp add: q_dispatch_cases u32_of_less_iff)
  next
    case room: True
    show ?thesis
    proof (cases "q_next_placement level reserved_from eligible q")
      case None
      then show ?thesis by (simp add: q_dispatch_cases)
    next
      case (Some ib)
      obtain i b where ib: "ib = (i, b)" by (cases ib)
      from "1.IH" [OF room Some ib [symmetric] "1.prems"] room Some ib show ?thesis
        by (simp add: Let_def q_dispatch_start)
    qed
  qed
qed

section \<open>Completion, withdrawal and arrival\<close>

lemma queue_wf_empty: "queue_wf queue_empty"
  by (simp add: queue_wf_def queue_empty_def queue_ids_def)

lemma queue_ids_push:
  "q_push nx m now q = (i, nx', q') \<Longrightarrow>
     i = nx \<and> mset (queue_ids q') = add_mset nx (mset (queue_ids q)) \<and>
     q_running q' = q_running q"
  by (auto simp: q_push_def queue_ids_def)

lemma q_push_wf:
  assumes "queue_wf q" and "\<forall>i \<in> set (queue_ids q). i < nx" and "q_push nx m now q = (i, nx', q')"
  shows "queue_wf q'" and "i = nx"
proof -
  note push = queue_ids_push [OF assms(3)]
  then have "mset (queue_ids q') = mset (nx # queue_ids q)" by simp
  moreover have "distinct (nx # queue_ids q)" using assms(1,2) by (auto simp: queue_wf_def)
  ultimately have "distinct (queue_ids q')" by (metis distinct_mset_eq)
  with push assms(1) show "queue_wf q'" by (simp add: queue_wf_def)
  from push show "i = nx" by simp
qed

lemma age_waiter_id [simp]: "w_id (age_waiter w) = w_id w" "w_meta (age_waiter w) = w_meta w"
  by (simp_all add: age_waiter_def)

lemma map_age_id [simp]: "map (\<lambda>w. w_id (age_waiter w)) ws = map w_id ws"
  by simp

lemma q_complete_Some:
  assumes "q_complete i q = Some (r, q')"
  shows "r \<in> set (q_running q)" and "r_id r = i"
    and "mset (q_running q) = add_mset r (mset (q_running q'))"
    and "q_waiting q' = map age_waiter (q_waiting q)"
  using assms mset_remove_at [of _ "q_running q"]
  by (auto simp: q_complete_def split: option.splits dest!: position_Some)

lemma q_complete_wf:
  assumes wf: "queue_wf q" and c: "q_complete i q = Some (r, q')"
  shows "queue_wf q'" and "i \<notin> set (queue_ids q')"
proof -
  have run: "mset (map f (q_running q)) = add_mset (f r) (mset (map f (q_running q')))"
    for f :: "runner \<Rightarrow> nat"
    using q_complete_Some(3) [OF c] by simp
  have "mset (i # queue_ids q') = mset (queue_ids q)"
    using run [of r_id] q_complete_Some(2,4) [OF c] by (simp add: queue_ids_def comp_def)
  from distinct_mset_eq [OF this] wf have ids: "distinct (i # queue_ids q')"
    by (simp add: queue_wf_def)
  have "mset (r_bucket r # map r_bucket (q_running q')) = mset (map r_bucket (q_running q))"
    using run [of r_bucket] by simp
  from distinct_mset_eq [OF this] wf have "distinct (map r_bucket (q_running q'))"
    by (simp add: queue_wf_def)
  with ids show "queue_wf q'" and "i \<notin> set (queue_ids q')" by (auto simp: queue_wf_def)
qed

lemma q_complete_ids:
  assumes "q_complete i q = Some (r, q')"
  shows "set (queue_ids q') \<subseteq> set (queue_ids q)"
proof -
  have "set (q_running q) = insert r (set (q_running q'))"
    using arg_cong [OF q_complete_Some(3) [OF assms], of set_mset] by simp
  then show ?thesis using q_complete_Some(4) [OF assms] by (auto simp: queue_ids_def)
qed

lemma q_complete_None: "q_complete i q = None \<longleftrightarrow> \<not> q_is_running i q"
proof -
  have "q_complete i q = None \<longleftrightarrow> position (\<lambda>r. r_id r = i) (q_running q) = None"
    by (auto simp: q_complete_def split: option.splits)
  then show ?thesis by (auto simp: position_None q_is_running_def)
qed

lemma q_withdraw_wf: "queue_wf q \<Longrightarrow> queue_wf (snd (q_withdraw i q))"
  by (auto simp: q_withdraw_def queue_wf_def queue_ids_def Let_def distinct_map_filter)

lemma q_withdraw_iff: "fst (q_withdraw i q) \<longleftrightarrow> q_is_waiting i q"
proof (cases "q_is_waiting i q")
  case True
  then have "length (filter (\<lambda>w. w_id w \<noteq> i) (q_waiting q)) < length (q_waiting q)"
    by (auto simp: q_is_waiting_def intro: length_filter_less)
  with True show ?thesis by (simp add: q_withdraw_def)
next
  case False
  then have "filter (\<lambda>w. w_id w \<noteq> i) (q_waiting q) = q_waiting q"
    by (auto simp: q_is_waiting_def filter_id_conv)
  with False show ?thesis by (simp add: q_withdraw_def)
qed

lemma q_withdraw_gone: "\<not> q_is_waiting i (snd (q_withdraw i q))"
  by (auto simp: q_withdraw_def q_is_waiting_def Let_def)

lemma queue_wf_not_both:
  "queue_wf q \<Longrightarrow> q_is_waiting i q \<Longrightarrow> \<not> q_is_running i q"
  by (auto simp: queue_wf_def queue_ids_def q_is_waiting_def q_is_running_def)

section \<open>Aging\<close>

text \<open>
  Runs of queue operations, as the scheduler makes them: a call may also leave for another queue
  (\<open>EvWithdraw\<close>), come from another one (\<open>EvTake\<close>; ids are unique over all queues, so it is a call
  with an id drawn before that this queue does not hold), or another queue may draw an id
  (\<open>EvElsewhere\<close>). A run answers how many calls whose metadata satisfy \<open>K\<close> it started.
\<close>

datatype queue_event =
    EvPush call_meta instant
  | EvDispatch nat nat instant "waiter \<Rightarrow> bool"
  | EvComplete nat
  | EvWithdraw nat
  | EvTake waiter
  | EvElsewhere

definition waiting_of :: "(call_meta \<Rightarrow> bool) \<Rightarrow> queue \<Rightarrow> nat" where
  "waiting_of K q = length (filter (\<lambda>v. K (w_meta v)) (q_waiting q))"

fun queue_event_step ::
    "(call_meta \<Rightarrow> bool) \<Rightarrow> nat \<times> queue \<Rightarrow> queue_event \<Rightarrow> nat \<times> nat \<times> queue" where
  "queue_event_step K (nx, q) (EvPush m now) = (let (i, nx', q') = q_push nx m now q in (0, nx', q'))"
| "queue_event_step K (nx, q) (EvDispatch lv rf now el) =
     (let q' = snd (q_dispatch lv rf now el q) in (waiting_of K q - waiting_of K q', nx, q'))"
| "queue_event_step K (nx, q) (EvComplete i) =
     (case q_complete i q of None \<Rightarrow> (0, nx, q) | Some (r, q') \<Rightarrow> (0, nx, q'))"
| "queue_event_step K (nx, q) (EvWithdraw i) = (0, nx, snd (q_withdraw i q))"
| "queue_event_step K (nx, q) (EvTake v) =
     (0, nx, if w_id v < nx \<and> w_id v \<notin> set (queue_ids q) then q\<lparr>q_waiting := q_waiting q @ [v]\<rparr> else q)"
| "queue_event_step K (nx, q) EvElsewhere = (0, u64_add nx 1, q)"

fun run_queue :: "(call_meta \<Rightarrow> bool) \<Rightarrow> nat \<times> queue \<Rightarrow> queue_event list \<Rightarrow> nat \<times> nat \<times> queue" where
  "run_queue K s [] = (0, s)"
| "run_queue K s (e # es) =
     (let (k, s') = queue_event_step K s e; (n, s'') = run_queue K s' es in (k + n, s''))"

text \<open>The waiting calls that would be picked before \<open>w\<close>, and the calls that other queues hand over.\<close>

definition preferred :: "waiter \<Rightarrow> waiter \<Rightarrow> bool" where
  "preferred w v \<longleftrightarrow> waiter_le w v \<and> w_id v \<noteq> w_id w"

definition ahead_of :: "(call_meta \<Rightarrow> bool) \<Rightarrow> waiter \<Rightarrow> queue \<Rightarrow> nat" where
  "ahead_of K w q = length (filter (\<lambda>v. preferred w v \<and> K (w_meta v)) (q_waiting q))"

fun handed :: "queue_event list \<Rightarrow> waiter list" where
  "handed [] = []"
| "handed (EvTake v # es) = v # handed es"
| "handed (e # es) = handed es"

definition handed_of :: "(call_meta \<Rightarrow> bool) \<Rightarrow> queue_event list \<Rightarrow> nat" where
  "handed_of K es = length (filter (\<lambda>v. K (w_meta v)) (handed es))"

text \<open>
  The call \<open>i\<close> is eligible whenever the queue dispatches, nothing withdraws it and, once it has
  left, no other queue hands it back.
\<close>

fun fair_event :: "nat \<Rightarrow> queue_event \<Rightarrow> bool" where
  "fair_event i (EvDispatch lv rf now el) = (\<forall>w. w_id w = i \<longrightarrow> el w)"
| "fair_event i (EvWithdraw j) = (j \<noteq> i)"
| "fair_event i (EvTake v) = (w_id v \<noteq> i)"
| "fair_event i e = True"

fun below_reserved :: "queue_event \<Rightarrow> bool" where
  "below_reserved (EvDispatch lv rf now el) = (lv < rf)"
| "below_reserved e = True"

definition same_lane :: "waiter \<Rightarrow> call_meta \<Rightarrow> bool" where
  "same_lane w m \<longleftrightarrow> meta_lane m = meta_lane (w_meta w)"

text \<open>
  What is counted is either every call, while all dispatches are below the reserved level, or the
  calls of the lane of \<open>w\<close>.
\<close>

definition fair_count :: "(call_meta \<Rightarrow> bool) \<Rightarrow> lane \<Rightarrow> queue_event \<Rightarrow> bool" where
  "fair_count K l e \<longleftrightarrow> below_reserved e \<or> (\<forall>m. K m \<longrightarrow> meta_lane m = l)"

text \<open>The condition every event keeps: \<open>w\<close> waits with at least the largest entry value.\<close>

definition aged :: "nat \<Rightarrow> lane \<Rightarrow> nat \<Rightarrow> waiter \<Rightarrow> nat \<Rightarrow> queue \<Rightarrow> bool" where
  "aged i l B w nx q \<longleftrightarrow> queue_wf q \<and> (\<forall>j \<in> set (queue_ids q). j < nx) \<and>
     w \<in> set (q_waiting q) \<and> w_id w = i \<and> meta_lane (w_meta w) = l \<and> 10000 \<le> w_value w \<and>
     (\<forall>v \<in> set (q_waiting q). w_value v \<le> B)"

lemma initial_value_le: "initial_value p \<le> 10000"
  by (cases p) auto

lemma filter_start:
  assumes "k < length (q_waiting q)"
  shows "length (filter P (q_waiting q)) =
    length (filter P (q_waiting (q_start lv now k b q))) + (if P (q_waiting q ! k) then 1 else 0)"
proof -
  have "mset (filter P (q_waiting q)) =
      filter_mset P (add_mset (q_waiting q ! k) (mset (remove_at k (q_waiting q))))"
    using mset_remove_at [OF assms] by (simp add: mset_filter)
  then have "length (filter P (q_waiting q)) = size
      (filter_mset P (add_mset (q_waiting q ! k) (mset (remove_at k (q_waiting q)))))"
    by (metis size_mset)
  moreover have "size (filter_mset P (mset xs)) = length (filter P xs)" for xs :: "waiter list"
    by (metis mset_filter size_mset)
  ultimately show ?thesis by simp
qed

lemma ahead_start:
  "k < length (q_waiting q) \<Longrightarrow> ahead_of K w (q_start lv now k b q) \<le> ahead_of K w q"
  using filter_start [of k q "\<lambda>v. preferred w v \<and> K (w_meta v)"] by (simp add: ahead_of_def)

text \<open>At every level the call picked is the best eligible one of its lane.\<close>

lemma q_next_placement_lane_best:
  assumes "q_next_placement level reserved_from eligible q = Some (i, b)"
    and "level < reserved_from \<or> meta_lane (w_meta (q_waiting q ! i)) = meta_lane (w_meta w)"
    and "w \<in> set (q_waiting q)" and "eligible w"
  shows "waiter_le w (q_waiting q ! i)"
proof (cases "level < reserved_from")
  case True
  then show ?thesis using q_next_placement_shared_best assms by blast
next
  case False
  with assms(1) obtain l where best: "q_best (\<lambda>v. meta_lane (w_meta v) = l \<and> eligible v) q = Some i"
    by (auto simp: q_next_placement_def Let_def split: option.splits if_splits)
  with False assms(2) have "meta_lane (w_meta w) = l" using q_best_Some(2) [OF best] by simp
  with assms(3,4) show ?thesis using q_best_Some(3) [OF best] by simp
qed

lemma wf_waiter_unique:
  "queue_wf q \<Longrightarrow> w \<in> set (q_waiting q) \<Longrightarrow> v \<in> set (q_waiting q) \<Longrightarrow> w_id v = w_id w \<Longrightarrow> v = w"
  by (auto simp: queue_wf_def queue_ids_def distinct_map inj_on_def)

lemma dispatch_ahead:
  assumes "queue_wf q" and "w \<in> set (q_waiting q)"
    and "lv < rf \<or> (\<forall>m. K m \<longrightarrow> meta_lane m = meta_lane (w_meta w))" and "\<forall>v. w_id v = w_id w \<longrightarrow> el v"
    and "q_is_waiting (w_id w) (snd (q_dispatch lv rf now el q))"
  shows "w \<in> set (q_waiting (snd (q_dispatch lv rf now el q))) \<and>
    ahead_of K w (snd (q_dispatch lv rf now el q)) + waiting_of K q
      \<le> ahead_of K w q + waiting_of K (snd (q_dispatch lv rf now el q))"
  using assms
proof (induction lv rf now el q rule: q_dispatch.induct)
  case (1 lv rf now el q)
  show ?case
  proof (cases "u32_of (length (q_running q)) < lv \<and> q_next_placement lv rf el q \<noteq> None")
    case False
    then have "q_dispatch lv rf now el q = ([], q)"
      using q_dispatch_stop q_dispatch_none by blast
    with "1.prems" show ?thesis by simp
  next
    case True
    then obtain k b where room: "u32_of (length (q_running q)) < lv"
      and pl: "q_next_placement lv rf el q = Some (k, b)" by auto
    let ?q' = "q_start lv now k b q" and ?v = "q_waiting q ! k"
    note start = q_dispatch_start [OF room pl, of now]
    note place = q_next_placement_Some [OF pl]
    have wf': "queue_wf ?q'" using "1.prems"(1) place by (intro q_start_wf) auto
    have vin: "?v \<in> set (q_waiting q)" using place(1) by simp
    have ne: "w_id ?v \<noteq> w_id w"
    proof
      assume "w_id ?v = w_id w"
      then have "q_is_running (w_id w) ?q'" by (simp add: q_is_running_def)
      then have "q_is_running (w_id w) (snd (q_dispatch lv rf now el ?q'))"
        using q_dispatch_appends [of lv rf now el ?q'] by (auto simp: q_is_running_def)
      with queue_wf_not_both [OF q_dispatch_wf [OF wf']] "1.prems"(5) start show False by simp
    qed
    then have win: "w \<in> set (q_waiting ?q')"
      using "1.prems"(2) set_remove_at_eq [OF place(1)] by auto
    have pref: "preferred w ?v" if "K (w_meta ?v)"
      using q_next_placement_lane_best [OF pl _ "1.prems"(2)] "1.prems"(3,4) ne that
      by (auto simp: preferred_def)
    have counts: "ahead_of K w q = ahead_of K w ?q' + (if preferred w ?v \<and> K (w_meta ?v) then 1 else 0)"
      "waiting_of K q = waiting_of K ?q' + (if K (w_meta ?v) then 1 else 0)"
      unfolding ahead_of_def waiting_of_def
      using filter_start [OF place(1), of "\<lambda>v. preferred w v \<and> K (w_meta v)"]
        filter_start [OF place(1), of "\<lambda>v. K (w_meta v)"] by simp_all
    from "1.IH" [OF room pl refl wf' win "1.prems"(3,4)] "1.prems"(5) start
    show ?thesis using counts pref by auto
  qed
qed

lemma age_waiter_value: "w_value v < 2 ^ 64 - 1 \<Longrightarrow> w_value (age_waiter v) = w_value v + 1"
  by (simp add: age_waiter_def u64_add_less)

lemma queue_event_step_ids:
  assumes "queue_wf q" and "\<forall>j \<in> set (queue_ids q). j < nx" and "nx < 2 ^ 64 - 1"
    and "queue_event_step K (nx, q) e = (k, nx', q')"
  shows "queue_wf q' \<and> (\<forall>j \<in> set (queue_ids q'). j < nx') \<and> nx' \<le> nx + 1"
proof (cases e)
  case (EvPush m now)
  obtain i nx2 q2 where push: "q_push nx m now q = (i, nx2, q2)" by (metis prod_cases3)
  have nx2: "nx2 = nx + 1" using push assms(3) by (auto simp: q_push_def u64_add_less)
  have "set (queue_ids q2) = insert nx (set (queue_ids q))"
    using queue_ids_push [OF push] by (metis set_mset_add_mset_insert set_mset_mset)
  with push nx2 q_push_wf [OF assms(1,2) push] assms(2,4) EvPush show ?thesis by auto
next
  case (EvDispatch lv rf now el)
  have "set (queue_ids (snd (q_dispatch lv rf now el q))) = set (queue_ids q)"
    using q_dispatch_ids by (metis set_mset_mset)
  with q_dispatch_wf [OF assms(1)] assms EvDispatch show ?thesis by (auto simp: Let_def)
next
  case (EvComplete i)
  show ?thesis
  proof (cases "q_complete i q")
    case (Some rq)
    obtain r q2 where rq: "rq = (r, q2)" by (cases rq)
    note c = q_complete_Some [OF Some [unfolded rq]]
    have "set (q_running q2) \<subseteq> set (q_running q)"
      using c(3) by (metis set_mset_add_mset_insert set_mset_mset subset_insertI)
    then have "set (queue_ids q2) \<subseteq> set (queue_ids q)"
      using c(4) by (auto simp: queue_ids_def)
    with q_complete_wf [OF assms(1) Some [unfolded rq]] assms EvComplete Some rq show ?thesis by auto
  qed (use assms EvComplete in auto)
next
  case (EvWithdraw i)
  with q_withdraw_wf [OF assms(1), of i] assms show ?thesis
    by (auto simp: q_withdraw_def Let_def queue_ids_def)
next
  case (EvTake v)
  have "queue_wf (q\<lparr>q_waiting := q_waiting q @ [v]\<rparr>)" if "w_id v \<notin> set (queue_ids q)"
    using that assms(1) by (auto simp: queue_wf_def queue_ids_def)
  with EvTake assms show ?thesis by (auto simp: queue_ids_def split: if_splits)
next
  case EvElsewhere
  with assms show ?thesis by (auto simp: u64_add_less)
qed

lemma queue_event_step_aged:
  assumes aged: "aged i l B w nx q" and fair: "fair_event i e" "fair_count K l e" and nx: "nx < 2 ^ 64 - 1"
    and B: "10000 \<le> B" "B < 2 ^ 64 - 1" "\<forall>v \<in> set (handed [e]). w_value v \<le> B"
    and step: "queue_event_step K (nx, q) e = (k, nx', q')" and waits: "q_is_waiting i q'"
  shows "\<exists>w'. aged i l (B + 1) w' nx' q' \<and> ahead_of K w' q' + k \<le> ahead_of K w q + handed_of K [e]"
proof -
  from aged have a: "queue_wf q" "\<forall>j \<in> set (queue_ids q). j < nx" "w \<in> set (q_waiting q)"
    "w_id w = i" "meta_lane (w_meta w) = l" "10000 \<le> w_value w" "\<forall>v \<in> set (q_waiting q). w_value v \<le> B"
    by (simp_all add: aged_def)
  note ids = queue_event_step_ids [OF a(1,2) nx step]
  have keep: ?thesis if "w \<in> set (q_waiting q')" "ahead_of K w q' + k \<le> ahead_of K w q + handed_of K [e]"
    "\<forall>v \<in> set (q_waiting q'). w_value v \<le> B + 1"
    using that ids a by (auto simp: aged_def)
  show ?thesis
  proof (cases e)
    case (EvPush m now)
    have i: "i < nx" using a by (auto simp: queue_ids_def)
    from EvPush step i a(4-7) B(1) initial_value_le [of "effective_priority m"] show ?thesis
      by (intro keep) (auto simp: q_push_def ahead_of_def preferred_def waiter_le_def a(3)
          intro: order_trans [OF _ B(1)] le_SucI)
  next
    case (EvDispatch lv rf now el)
    with fair a(4,5) have f: "lv < rf \<or> (\<forall>m. K m \<longrightarrow> meta_lane m = meta_lane (w_meta w))"
      "\<forall>v. w_id v = w_id w \<longrightarrow> el v" by (auto simp: fair_count_def)
    from EvDispatch step have d: "q' = snd (q_dispatch lv rf now el q)"
      "k = waiting_of K q - waiting_of K (snd (q_dispatch lv rf now el q))"
      by (auto simp: Let_def)
    have sub: "set (q_waiting q') \<subseteq> set (q_waiting q)" unfolding d(1)
      by (rule q_dispatch_keeps) (use set_remove_at in \<open>fastforce+\<close>)
    note ah = dispatch_ahead [OF a(1,3) f, of now]
    show ?thesis
    proof (rule keep)
      show "w \<in> set (q_waiting q')" using ah waits a(4) by (simp add: d)
      have le: "ahead_of K w q' + waiting_of K q \<le> ahead_of K w q + waiting_of K q'" using ah waits a(4) by (simp add: d)
      have "ahead_of K w q' \<le> ahead_of K w q" unfolding d(1)
        by (rule q_dispatch_keeps [OF order_refl])
          (metis ahead_start order_trans q_next_placement_Some(1))
      with le show "ahead_of K w q' + k \<le> ahead_of K w q + handed_of K [e]" by (simp add: d)
      show "\<forall>v \<in> set (q_waiting q'). w_value v \<le> B + 1" using sub a(7) by (auto simp: le_SucI)
    qed
  next
    case (EvComplete j)
    show ?thesis
    proof (cases "q_complete j q")
      case None
      with EvComplete step a show ?thesis by (intro keep) (auto simp: le_SucI)
    next
      case (Some rq)
      obtain r q2 where rq: "rq = (r, q2)" by (cases rq)
      with EvComplete step Some have q': "q' = q2" "k = 0" by auto
      note wait = q_complete_Some(4) [OF Some [unfolded rq]]
      have val: "w_value (age_waiter v) = w_value v + 1" if "v \<in> set (q_waiting q)" for v
        using that a(7) B(2) by (intro age_waiter_value) auto
      have meta: "w_meta (age_waiter v) = w_meta v" for v by (simp add: age_waiter_def)
      have "filter (\<lambda>v. preferred (age_waiter w) v \<and> K (w_meta v)) (map age_waiter (q_waiting q))
          = map age_waiter (filter (\<lambda>v. preferred w v \<and> K (w_meta v)) (q_waiting q))"
        unfolding filter_map
        by (intro arg_cong [where f = "map age_waiter"] filter_cong)
          (auto simp: preferred_def waiter_le_def val a(3) meta)
      then have "ahead_of K (age_waiter w) q' = ahead_of K w q"
        by (simp add: ahead_of_def q' wait)
      moreover have "aged i l (B + 1) (age_waiter w) nx' q'"
        using a ids wait val by (auto simp: aged_def q' meta)
      ultimately show ?thesis using q'(2) by auto
    qed
  next
    case (EvWithdraw j)
    with step have q': "q_waiting q' = filter (\<lambda>v. w_id v \<noteq> j) (q_waiting q)" "k = 0"
      by (auto simp: q_withdraw_def Let_def)
    have "filter (\<lambda>v. preferred w v \<and> K (w_meta v)) (q_waiting q')
        = filter (\<lambda>v. w_id v \<noteq> j) (filter (\<lambda>v. preferred w v \<and> K (w_meta v)) (q_waiting q))"
      by (simp add: q'(1) conj_commute)
    then have "ahead_of K w q' \<le> ahead_of K w q" unfolding ahead_of_def by (metis length_filter_le)
    with q' a EvWithdraw fair show ?thesis by (intro keep) (auto simp: le_SucI)
  next
    case (EvTake v)
    with step have q': "q' = q \<or> q_waiting q' = q_waiting q @ [v]" "k = 0" by (auto split: if_splits)
    then show ?thesis
      using a B(3) EvTake by (intro keep) (auto simp: ahead_of_def handed_of_def le_SucI)
  next
    case EvElsewhere
    with step a show ?thesis by (intro keep) (auto simp: le_SucI)
  qed
qed

lemma queue_event_step_waits:
  assumes "\<forall>j \<in> set (queue_ids q). j < nx" and "i < nx" and "fair_event i e"
    and "queue_event_step K (nx, q) e = (k, nx', q')" and "q_is_waiting i q'"
  shows "q_is_waiting i q"
proof (cases e)
  case (EvPush m now)
  with assms show ?thesis by (auto simp: q_push_def q_is_waiting_def)
next
  case (EvDispatch lv rf now el)
  have "set (q_waiting (snd (q_dispatch lv rf now el q))) \<subseteq> set (q_waiting q)"
    by (rule q_dispatch_keeps) (use set_remove_at in \<open>fastforce+\<close>)
  with EvDispatch assms show ?thesis by (auto simp: q_is_waiting_def Let_def)
next
  case (EvComplete j)
  with assms show ?thesis
    by (cases "q_complete j q") (fastforce simp: q_is_waiting_def dest: q_complete_Some(4))+
next
  case (EvWithdraw j)
  with assms show ?thesis by (auto simp: q_withdraw_def q_is_waiting_def Let_def)
next
  case (EvTake v)
  with assms show ?thesis by (auto simp: q_is_waiting_def split: if_splits)
next
  case EvElsewhere
  with assms show ?thesis by simp
qed

lemma run_queue_waits:
  assumes "queue_wf q" and "\<forall>j \<in> set (queue_ids q). j < nx" and "i < nx"
    and "nx + length es < 2 ^ 64" and "\<forall>e \<in> set es. fair_event i e"
    and "q_is_waiting i (snd (snd (run_queue K (nx, q) es)))"
  shows "q_is_waiting i q"
  using assms
proof (induction es arbitrary: nx q)
  case Nil
  then show ?case by simp
next
  case (Cons e es)
  obtain k nx' q' where st: "queue_event_step K (nx, q) e = (k, nx', q')" by (metis prod_cases3)
  have "nx < 2 ^ 64 - 1" using Cons.prems(4) by simp
  note ids = queue_event_step_ids [OF Cons.prems(1,2) this st]
  have run: "snd (run_queue K (nx, q) (e # es)) = snd (run_queue K (nx', q') es)"
    using st by (simp split: prod.splits)
  have up: "nx \<le> nx'" using st Cons.prems(4)
    by (cases e) (auto simp: q_push_def u64_add_less Let_def split: prod.splits option.splits)
  have "q_is_waiting i q'"
  proof (rule Cons.IH)
    show "q_is_waiting i (snd (snd (run_queue K (nx', q') es)))" using Cons.prems(6) run by simp
  qed (use ids up Cons.prems(3-5) in auto)
  with queue_event_step_waits [OF Cons.prems(2,3) _ st] Cons.prems(5) show ?case by simp
qed

lemma handed_Cons: "handed (e # es) = handed [e] @ handed es"
  by (cases e) simp_all

lemma run_queue_ahead:
  assumes "aged i l B w nx q" and "\<forall>e \<in> set es. fair_event i e \<and> fair_count K l e"
    and "nx + length es < 2 ^ 64" and "10000 \<le> B" and "B + length es < 2 ^ 64"
    and "\<forall>v \<in> set (handed es). w_value v \<le> B"
    and "q_is_waiting i (snd (snd (run_queue K (nx, q) es)))"
  shows "fst (run_queue K (nx, q) es) \<le> ahead_of K w q + handed_of K es"
  using assms
proof (induction es arbitrary: nx q w B)
  case Nil
  then show ?case by simp
next
  case (Cons e es)
  obtain k nx' q' where st: "queue_event_step K (nx, q) e = (k, nx', q')" by (metis prod_cases3)
  have wf: "queue_wf q" "\<forall>j \<in> set (queue_ids q). j < nx" and i: "i < nx"
    using Cons.prems(1) by (auto simp: aged_def queue_ids_def)
  have nx: "nx < 2 ^ 64 - 1" using Cons.prems(3) by simp
  note ids = queue_event_step_ids [OF wf nx st]
  have run: "run_queue K (nx, q) (e # es)
      = (k + fst (run_queue K (nx', q') es), snd (run_queue K (nx', q') es))"
    using st by (simp split: prod.splits)
  have up: "nx \<le> nx'" using st Cons.prems(3)
    by (cases e) (auto simp: q_push_def u64_add_less Let_def split: prod.splits option.splits)
  have last: "q_is_waiting i (snd (snd (run_queue K (nx', q') es)))"
    using Cons.prems(7) run by simp
  have waits: "q_is_waiting i q'"
    by (rule run_queue_waits [OF _ _ _ _ _ last]) (use ids up i Cons.prems(2,3) in auto)
  have fair: "fair_event i e" "fair_count K l e" "B < 2 ^ 64 - 1" using Cons.prems(2,5) by auto
  have vals: "\<forall>v \<in> set (handed [e]). w_value v \<le> B" "\<forall>v \<in> set (handed es). w_value v \<le> B + 1"
    using Cons.prems(6) handed_Cons [of e es] by (auto simp: le_SucI)
  from queue_event_step_aged [OF Cons.prems(1) fair(1,2) nx Cons.prems(4) fair(3) vals(1) st waits]
  obtain w' where w': "aged i l (B + 1) w' nx' q'"
    "ahead_of K w' q' + k \<le> ahead_of K w q + handed_of K [e]" by blast
  have "fst (run_queue K (nx', q') es) \<le> ahead_of K w' q' + handed_of K es"
    by (rule Cons.IH [OF w'(1) _ _ _ _ vals(2) last]) (use Cons.prems(2-5) ids in auto)
  with w'(2) run handed_Cons [of e es] show ?case by (simp add: handed_of_def)
qed

lemma run_queue_wf:
  assumes "queue_wf q" and "\<forall>j \<in> set (queue_ids q). j < nx" and "nx + length es < 2 ^ 64"
    and "run_queue K (nx, q) es = (n, nx', q')"
  shows "queue_wf q' \<and> (\<forall>j \<in> set (queue_ids q'). j < nx')"
  using assms
proof (induction es arbitrary: nx q n)
  case Nil
  then show ?case by simp
next
  case (Cons e es)
  obtain k nx2 q2 where st: "queue_event_step K (nx, q) e = (k, nx2, q2)" by (metis prod_cases3)
  have "nx < 2 ^ 64 - 1" using Cons.prems(3) by simp
  note ids = queue_event_step_ids [OF Cons.prems(1,2) this st]
  obtain m where "run_queue K (nx2, q2) es = (m, nx', q')"
    using Cons.prems(4) st by (auto split: prod.splits)
  with Cons.IH [of q2 nx2 m] ids Cons.prems(3) show ?case by auto
qed

section \<open>Which calls a dispatch starts\<close>

text \<open>
  A started call outranks every eligible call left behind: a bigger value, or the same
  value and an earlier arrival.
\<close>

definition outranks :: "runner \<Rightarrow> waiter \<Rightarrow> bool" where
  "outranks r w \<longleftrightarrow> w_value w < r_value r \<or> (w_value w = r_value r \<and> r_id r \<le> w_id w)"

definition served_in_order :: "(waiter \<Rightarrow> bool) \<Rightarrow> queue \<Rightarrow> queue \<Rightarrow> bool" where
  "served_in_order eligible q q' \<longleftrightarrow>
     (\<forall>r \<in> set (q_running q') - set (q_running q). \<forall>w \<in> set (q_waiting q').
        eligible w \<longrightarrow> outranks r w)"

text \<open>
  The reserved lane: a reserved call starts only in bucket 0, and a shared call starts there
  only when no eligible reserved call waits and every other bucket is taken.
\<close>

definition lanes_respected :: "nat \<Rightarrow> (waiter \<Rightarrow> bool) \<Rightarrow> queue \<Rightarrow> queue \<Rightarrow> bool" where
  "lanes_respected level eligible q q' \<longleftrightarrow>
     (\<forall>r \<in> set (q_running q') - set (q_running q).
        (meta_lane (r_meta r) = Reserved \<longrightarrow> r_bucket r = 0) \<and>
        (meta_lane (r_meta r) = Shared \<and> r_bucket r = 0 \<longrightarrow>
          (\<forall>w \<in> set (q_waiting q'). eligible w \<longrightarrow> meta_lane (w_meta w) = Shared) \<and>
          (\<forall>c. 0 < c \<and> c < level \<longrightarrow> \<not> q_bucket_free c q')))"

lemma new_runner_cases:
  assumes "r \<in> set (q_running (q_start level now i b q')) - set (q_running q)"
  shows "r \<in> set (q_running q') - set (q_running q) \<or> r = start_runner (q_waiting q' ! i) b level now"
  using assms by auto

lemma q_dispatch_served_in_order:
  assumes "level < reserved_from"
  shows "served_in_order eligible q (snd (q_dispatch level reserved_from now eligible q))"
proof (rule q_dispatch_keeps [where P = "served_in_order eligible q"])
  show "served_in_order eligible q q" by (simp add: served_in_order_def)
next
  fix q' i b
  assume IH: "served_in_order eligible q q'"
    and pl: "q_next_placement level reserved_from eligible q' = Some (i, b)"
  show "served_in_order eligible q (q_start level now i b q')"
    unfolding served_in_order_def
  proof (intro ballI impI)
    fix r w
    assume r: "r \<in> set (q_running (q_start level now i b q')) - set (q_running q)"
      and w: "w \<in> set (q_waiting (q_start level now i b q'))" "eligible w"
    have win: "w \<in> set (q_waiting q')" using w(1) set_remove_at [of i "q_waiting q'"] by auto
    from new_runner_cases [OF r] show "outranks r w"
    proof
      assume "r \<in> set (q_running q') - set (q_running q)"
      with IH win w(2) show ?thesis by (simp add: served_in_order_def)
    next
      assume "r = start_runner (q_waiting q' ! i) b level now"
      with q_next_placement_shared_best [OF pl assms win w(2)] show ?thesis
        by (simp add: outranks_def waiter_le_def)
    qed
  qed
qed

lemma q_dispatch_lanes_respected:
  assumes "reserved_from \<le> level"
  shows "lanes_respected level eligible q (snd (q_dispatch level reserved_from now eligible q))"
proof (rule q_dispatch_keeps [where P = "lanes_respected level eligible q"])
  show "lanes_respected level eligible q q" by (simp add: lanes_respected_def)
next
  fix q' i b
  assume IH: "lanes_respected level eligible q q'"
    and pl: "q_next_placement level reserved_from eligible q' = Some (i, b)"
  note lane = q_next_placement_lane [OF pl assms]
  have free: "q_bucket_free c (q_start level now i b q') \<Longrightarrow> q_bucket_free c q'" for c
    by (auto simp: q_bucket_free_def)
  have sub: "w \<in> set (q_waiting (q_start level now i b q')) \<Longrightarrow> w \<in> set (q_waiting q')" for w
    using set_remove_at [of i "q_waiting q'"] by auto
  show "lanes_respected level eligible q (q_start level now i b q')"
    unfolding lanes_respected_def
  proof (rule ballI)
    fix r
    assume "r \<in> set (q_running (q_start level now i b q')) - set (q_running q)"
    from new_runner_cases [OF this]
    show "(meta_lane (r_meta r) = Reserved \<longrightarrow> r_bucket r = 0) \<and>
      (meta_lane (r_meta r) = Shared \<and> r_bucket r = 0 \<longrightarrow>
        (\<forall>w \<in> set (q_waiting (q_start level now i b q')).
           eligible w \<longrightarrow> meta_lane (w_meta w) = Shared) \<and>
        (\<forall>c. 0 < c \<and> c < level \<longrightarrow> \<not> q_bucket_free c (q_start level now i b q')))"
    proof
      assume "r \<in> set (q_running q') - set (q_running q)"
      with IH have "(meta_lane (r_meta r) = Reserved \<longrightarrow> r_bucket r = 0) \<and>
        (meta_lane (r_meta r) = Shared \<and> r_bucket r = 0 \<longrightarrow>
          (\<forall>w \<in> set (q_waiting q'). eligible w \<longrightarrow> meta_lane (w_meta w) = Shared) \<and>
          (\<forall>c. 0 < c \<and> c < level \<longrightarrow> \<not> q_bucket_free c q'))"
        unfolding lanes_respected_def by (rule bspec)
      then show ?thesis using free sub by blast
    next
      assume r: "r = start_runner (q_waiting q' ! i) b level now"
      show ?thesis using lane free sub unfolding r start_runner_simps by blast
    qed
  qed
qed

section \<open>Properties\<close>

text \<open>Concrete calls for the witnesses.\<close>

definition sample_waiter :: "nat \<Rightarrow> lane \<Rightarrow> nat \<Rightarrow> waiter" where
  "sample_waiter i l v =
     \<lparr>w_id = i, w_meta = with_lane l (call_meta_new ''chat'' Low ''s''), w_value = v,
      w_arrived = 0\<rparr>"

definition sample_queue :: "waiter list \<Rightarrow> queue" where
  "sample_queue ws = \<lparr>q_waiting = ws, q_running = []\<rparr>"

lemmas queue_eval = sample_waiter_def sample_queue_def with_lane_def call_meta_new_def
  with_reruns_def effective_priority_def q_dispatch.simps q_next_placement_def q_best_def
  q_bucket_free_def q_start_def start_runner_def remove_at_def max_by_def waiter_le_def
  u32_of_def u32_max_def u64_add_def q_push_def q_is_waiting_def q_complete_def queue_ids_def
  queue_wf_def ahead_of_def waiting_of_def handed_of_def preferred_def same_lane_def upt_rec

text \<open>
C1: Dispatch leaves no slot idle that a waiting call could use: after \<open>Queue::dispatch\<close> fewer
calls than the level run only if every eligible call still waiting is a reserved one, the
reserved lane is in force and its bucket 0 is taken.
\<close>

theorem dispatch_leaves_no_idle_slot:
  assumes "level \<le> u32_max"
    and "length (q_running (snd (q_dispatch level reserved_from now eligible q))) < level"
    and "w \<in> set (q_waiting (snd (q_dispatch level reserved_from now eligible q)))"
    and "eligible w"
  shows "reserved_from \<le> level \<and> meta_lane (w_meta w) = Reserved \<and>
    \<not> q_bucket_free 0 (snd (q_dispatch level reserved_from now eligible q))"
proof (rule q_next_placement_None [where eligible = eligible])
  show "q_next_placement level reserved_from eligible
      (snd (q_dispatch level reserved_from now eligible q)) = None"
    using q_dispatch_saturates [OF assms(1), of reserved_from now eligible q] assms(2)
    by (simp add: Let_def)
qed (use assms(2-4) in auto)

theorem dispatch_leaves_no_idle_slot_witness:
  "\<not> q_bucket_free 0 (snd (q_dispatch 2 1 7 (\<lambda>_. True)
      (sample_queue [sample_waiter 0 Reserved 1, sample_waiter 1 Reserved 1])))"
proof -
  let ?q = "snd (q_dispatch 2 1 7 (\<lambda>_. True)
      (sample_queue [sample_waiter 0 Reserved 1, sample_waiter 1 Reserved 1]))"
  have "(2::nat) \<le> u32_max" by (simp add: u32_max_def)
  moreover have "length (q_running ?q) < 2" by (simp add: queue_eval)
  moreover have "sample_waiter 1 Reserved 1 \<in> set (q_waiting ?q)" by (simp add: queue_eval)
  ultimately show ?thesis
    using dispatch_leaves_no_idle_slot [of 2 1 7 "\<lambda>_. True"] by blast
qed

text \<open>
C10: Below the reserved-lane level \<open>Queue::dispatch\<close> serves by value and then by arrival: every
call it starts has a bigger value than each eligible call it leaves waiting, or the same
value and the smaller id.
\<close>

theorem dispatch_serves_best_first:
  assumes "level < reserved_from"
    and "r \<in> set (q_running (snd (q_dispatch level reserved_from now eligible q)))"
    and "r \<notin> set (q_running q)"
    and "w \<in> set (q_waiting (snd (q_dispatch level reserved_from now eligible q)))"
    and "eligible w"
  shows "w_value w < r_value r \<or> (w_value w = r_value r \<and> r_id r \<le> w_id w)"
  using q_dispatch_served_in_order [OF assms(1), of eligible q now] assms(2-5)
  by (auto simp: served_in_order_def outranks_def)

theorem dispatch_serves_best_first_witness:
  "let w = sample_waiter 0 Shared 1; r = start_runner (sample_waiter 1 Shared 10) 0 1 7
   in w_value w < r_value r \<or> (w_value w = r_value r \<and> r_id r \<le> w_id w)"
proof -
  let ?q = "sample_queue [sample_waiter 0 Shared 1, sample_waiter 1 Shared 10]"
  have "start_runner (sample_waiter 1 Shared 10) 0 1 7
      \<in> set (q_running (snd (q_dispatch 1 4 7 (\<lambda>_. True) ?q)))" by (simp add: queue_eval)
  moreover have "start_runner (sample_waiter 1 Shared 10) 0 1 7 \<notin> set (q_running ?q)" by (simp add: queue_eval)
  moreover have "sample_waiter 0 Shared 1 \<in> set (q_waiting (snd (q_dispatch 1 4 7 (\<lambda>_. True) ?q)))"
    by (simp add: queue_eval)
  ultimately show ?thesis
    unfolding Let_def by (intro dispatch_serves_best_first [of 1 4 _ 7 "\<lambda>_. True" ?q]) simp_all
qed

text \<open>
From the reserved-lane level up \<open>Queue::dispatch\<close> keeps the lanes apart: a reserved call
starts only in bucket 0, and a shared call starts in bucket 0 only when no eligible reserved
call waits and every other bucket below the level is taken.
\<close>

theorem dispatch_keeps_lanes_apart:
  assumes "reserved_from \<le> level"
    and "r \<in> set (q_running (snd (q_dispatch level reserved_from now eligible q)))"
    and "r \<notin> set (q_running q)"
  shows "(meta_lane (r_meta r) = Reserved \<longrightarrow> r_bucket r = 0) \<and>
    (meta_lane (r_meta r) = Shared \<and> r_bucket r = 0 \<longrightarrow>
      (\<forall>w \<in> set (q_waiting (snd (q_dispatch level reserved_from now eligible q))).
         eligible w \<longrightarrow> meta_lane (w_meta w) = Shared) \<and>
      (\<forall>c. 0 < c \<and> c < level \<longrightarrow>
         \<not> q_bucket_free c (snd (q_dispatch level reserved_from now eligible q))))"
  using q_dispatch_lanes_respected [OF assms(1), of eligible q now] assms(2,3)
  unfolding lanes_respected_def by blast

theorem dispatch_keeps_lanes_apart_witness:
  "\<not> q_bucket_free 1 (snd (q_dispatch 2 2 7 (\<lambda>_. True)
      (sample_queue [sample_waiter 0 Shared 1, sample_waiter 1 Shared 1])))"
proof -
  let ?q = "sample_queue [sample_waiter 0 Shared 1, sample_waiter 1 Shared 1]"
  let ?r = "start_runner (sample_waiter 1 Shared 1) 0 2 7"
  have "?r \<in> set (q_running (snd (q_dispatch 2 2 7 (\<lambda>_. True) ?q)))" by (simp add: queue_eval)
  moreover have "?r \<notin> set (q_running ?q)" by (simp add: queue_eval)
  moreover have "meta_lane (r_meta ?r) = Shared \<and> r_bucket ?r = 0" by (simp add: queue_eval)
  ultimately show ?thesis
    using dispatch_keeps_lanes_apart [of 2 2 ?r 7 "\<lambda>_. True" ?q] by auto
qed

text \<open>
Whatever sequence of pushes, dispatches, completions, withdrawals and hand-overs a queue goes
through, no call id is ever held twice (waiting or running) and no two running calls share a
bucket, as long as the process-wide id counter has not wrapped.
\<close>

theorem queue_runs_keep_ids_and_buckets_distinct:
  assumes "nx + length es < 2 ^ 64" and "run_queue K (nx, queue_empty) es = (n, nx', q')"
  shows "distinct (map w_id (q_waiting q') @ map r_id (q_running q')) \<and>
    distinct (map r_bucket (q_running q')) \<and> (\<forall>i \<in> set (queue_ids q'). i < nx')"
  using run_queue_wf [OF queue_wf_empty _ assms]
  by (simp add: queue_wf_def queue_ids_def queue_empty_def)

theorem queue_runs_keep_ids_and_buckets_distinct_witness:
  "distinct (map r_bucket (q_running (snd (snd (run_queue (\<lambda>_. True) (0, queue_empty)
     [EvPush (call_meta_new ''a'' Low ''s'') 0, EvPush (call_meta_new ''b'' High ''s'') 1,
      EvDispatch 2 4 2 (\<lambda>_. True), EvComplete 1])))))"
proof -
  let ?es = "[EvPush (call_meta_new ''a'' Low ''s'') 0, EvPush (call_meta_new ''b'' High ''s'') 1,
      EvDispatch 2 4 2 (\<lambda>_. True), EvComplete 1]"
  obtain n nx' q' where run: "run_queue (\<lambda>_. True) (0, queue_empty) ?es = (n, nx', q')" by (metis prod_cases3)
  have "0 + length ?es < 2 ^ 64" by simp
  from queue_runs_keep_ids_and_buckets_distinct [OF this run] run show ?thesis by simp
qed

text \<open>
C5: Aging rules out starvation among the calls a dispatch can choose from. Take a waiting call
that has reached the value of an urgent arrival (10000), and any later sequence of arrivals,
completions, dispatches, withdrawals of other calls and calls handed over by other queues, at the
end of which it still waits and every dispatch of which found it eligible. At any level, the
queue starts before it at most as many calls of its own lane as were preferred to it at that
moment, plus the calls of that lane handed over; and if every dispatch is below the reserved
level, the same bound holds for calls of both lanes. So a later arrival never overtakes it, except
one of the other lane while the reserved lane is in force. The id counter and the values stay
below \<open>2 ^ 64\<close>.
\<close>

theorem aged_call_is_not_overtaken:
  assumes "queue_wf q" and "\<forall>j \<in> set (queue_ids q). j < nx"
    and "w \<in> set (q_waiting q)" and "10000 \<le> w_value w"
    and "\<forall>v \<in> set (q_waiting q) \<union> set (handed es). w_value v + length es < 2 ^ 64"
    and "nx + length es < 2 ^ 64" and "\<forall>e \<in> set es. fair_event (w_id w) e"
    and "q_is_waiting (w_id w) (snd (snd (run_queue K (nx, q) es)))"
    and "K = same_lane w \<or> (\<forall>e \<in> set es. below_reserved e)"
  shows "fst (run_queue K (nx, q) es) \<le> ahead_of K w q + handed_of K es"
proof -
  let ?B = "2 ^ 64 - 1 - length es"
  have vals: "\<forall>v \<in> set (q_waiting q) \<union> set (handed es). w_value v \<le> ?B"
  proof
    fix v assume "v \<in> set (q_waiting q) \<union> set (handed es)"
    with assms(5) have "w_value v + length es < 2 ^ 64" by simp
    then show "w_value v \<le> ?B" by simp
  qed
  with assms(1-4) have "aged (w_id w) (meta_lane (w_meta w)) ?B w nx q" by (simp add: aged_def)
  moreover have "w_value w + length es < 2 ^ 64" using assms(3,5) by simp
  then have "10000 \<le> ?B" "?B + length es < 2 ^ 64" using assms(4) by simp_all
  moreover have "\<forall>e \<in> set es. fair_count K (meta_lane (w_meta w)) e"
    using assms(9) by (auto simp: fair_count_def same_lane_def)
  moreover have "\<forall>v \<in> set (handed es). w_value v \<le> ?B" using vals by simp
  ultimately show ?thesis
    using \<open>10000 \<le> ?B\<close> run_queue_ahead [of "w_id w" "meta_lane (w_meta w)" ?B w nx q es K] assms(6-8) by blast
qed

text \<open>
The first run stays below the reserved level; in the second a reserved call handed over at the
reserved level starts first, and is not of the lane counted.
\<close>

theorem aged_call_is_not_overtaken_witness:
  "fst (run_queue (\<lambda>_. True) (2, sample_queue [sample_waiter 0 Shared 10000, sample_waiter 1 Shared 10001])
     [EvPush (with_reruns 1 (call_meta_new ''u'' Low ''s'')) 3, EvDispatch 1 4 4 (\<lambda>_. True)]) \<le> 1 \<and>
   fst (run_queue (same_lane (sample_waiter 0 Shared 10000)) (2, sample_queue [sample_waiter 0 Shared 10000])
     [EvTake (sample_waiter 1 Reserved 0), EvDispatch 1 1 4 (\<lambda>_. True)]) = 0"
proof
  let ?w = "sample_waiter 0 Shared 10000"
  let ?q = "sample_queue [?w, sample_waiter 1 Shared 10001]"
  let ?es = "[EvPush (with_reruns 1 (call_meta_new ''u'' Low ''s'')) 3,
    EvDispatch 1 4 4 (\<lambda>_. True)]"
  have "ahead_of (\<lambda>_. True) ?w ?q = 1" "handed_of (\<lambda>_. True) ?es = 0" by (simp_all add: queue_eval)
  moreover have "queue_wf ?q" by (simp add: queue_eval)
  moreover have "\<forall>j \<in> set (queue_ids ?q). j < 2" by (simp add: queue_eval)
  moreover have "?w \<in> set (q_waiting ?q)" "10000 \<le> w_value ?w" by (simp_all add: queue_eval)
  moreover have "\<forall>v \<in> set (q_waiting ?q) \<union> set (handed ?es). w_value v + length ?es < 2 ^ 64"
    by (simp add: queue_eval)
  moreover have "q_is_waiting (w_id ?w) (snd (snd (run_queue (\<lambda>_. True) (2, ?q) ?es)))"
    by (simp add: queue_eval)
  ultimately show "fst (run_queue (\<lambda>_. True) (2, ?q) ?es) \<le> 1"
    using aged_call_is_not_overtaken [of ?q 2 ?w ?es "\<lambda>_. True"] by simp
next
  let ?w = "sample_waiter 0 Shared 10000"
  let ?q = "sample_queue [?w]"
  let ?es = "[EvTake (sample_waiter 1 Reserved 0), EvDispatch 1 1 4 (\<lambda>_. True)]"
  have "ahead_of (same_lane ?w) ?w ?q = 0" "handed_of (same_lane ?w) ?es = 0"
    by (simp_all add: queue_eval)
  moreover have "queue_wf ?q" by (simp add: queue_eval)
  moreover have "\<forall>j \<in> set (queue_ids ?q). j < 2" by (simp add: queue_eval)
  moreover have "?w \<in> set (q_waiting ?q)" "10000 \<le> w_value ?w" by (simp_all add: queue_eval)
  moreover have "\<forall>v \<in> set (q_waiting ?q) \<union> set (handed ?es). w_value v + length ?es < 2 ^ 64"
    by (simp add: queue_eval)
  moreover have "q_is_waiting (w_id ?w) (snd (snd (run_queue (same_lane ?w) (2, ?q) ?es)))"
    by (simp add: queue_eval)
  ultimately show "fst (run_queue (same_lane ?w) (2, ?q) ?es) = 0"
    using aged_call_is_not_overtaken [of ?q 2 ?w ?es "same_lane ?w"]
    by (simp add: sample_waiter_def)
qed

end
