(* ===== verification/Tuner.thy ===== *)
theory Tuner
  imports Float64 Call_Queue
begin

text \<open>
  The parallelism tuner of one backend, \<open>src/services/scheduler/tuner.rs\<close>: a
  hill climber over the level in \<open>[1, ceiling]\<close>. \<open>tuner_poll\<close> starts a due trial,
  \<open>tuner_on_dispatch\<close> counts the calls of the trial, \<open>tuner_on_complete\<close> concludes it.
  Throughputs are \<open>f64\<close> values (theory \<open>Float64\<close>).

  The lemmas show the invariant \<open>tuner_wf\<close> of every operation, that a level moves by one
  step at a time, when a trial is kept and when it is reverted, and how the interval grows.
\<close>

section \<open>Data\<close>

definition first_experiment :: duration where
  "first_experiment = from_secs (15 * 60)"

definition experiment_cap :: duration where
  "experiment_cap = from_secs (24 * 60 * 60)"

definition gain_to_go_up :: rat where
  "gain_to_go_up = f64_round (110 / 100)"

definition loss_to_stay_down :: rat where
  "loss_to_stay_down = f64_round (95 / 100)"

definition sample_capacity :: nat where
  "sample_capacity = 128"

definition history_capacity :: nat where
  "history_capacity = 32"

definition min_interval_secs :: rat where
  "min_interval_secs = f64_round (1 / 1000)"

record sample =
  s_id :: nat
  s_level :: nat
  s_dispatched :: instant
  s_completed :: instant
  s_chars :: nat
  s_tokens :: "nat option"
  s_outcome :: call_outcome

datatype metric = CompletionTokensPerSecond | OutputCharsPerSecond

text \<open>Units (characters or tokens) a second over \<open>interval\<close>.\<close>

definition throughput :: "nat \<Rightarrow> duration \<Rightarrow> rat" where
  "throughput units interval =
     f64_div (f64_of_nat units) (max (as_secs_f64 interval) min_interval_secs)"

record units =
  u_chars :: nat
  u_tokens :: "nat option"

record rate =
  rt_chars :: rat
  rt_tokens :: "rat option"

definition units_none :: units where
  "units_none = \<lparr>u_chars = 0, u_tokens = Some 0\<rparr>"

definition units_add :: "units \<Rightarrow> sample \<Rightarrow> units" where
  "units_add u s =
     \<lparr>u_chars = u64_sat_add (u_chars u) (s_chars s),
      u_tokens = (case (u_tokens u, s_tokens s) of
         (Some acc, Some tokens) \<Rightarrow> Some (u64_sat_add acc tokens)
       | _ \<Rightarrow> None)\<rparr>"

definition units_per_second :: "units \<Rightarrow> duration \<Rightarrow> rate" where
  "units_per_second u interval =
     \<lparr>rt_chars = throughput (u_chars u) interval,
      rt_tokens = map_option (\<lambda>tokens. throughput tokens interval) (u_tokens u)\<rparr>"

definition rate_preferred :: "rate \<Rightarrow> metric \<times> rat" where
  "rate_preferred r =
     (case rt_tokens r of
        None \<Rightarrow> (OutputCharsPerSecond, rt_chars r)
      | Some tokens \<Rightarrow> (CompletionTokensPerSecond, tokens))"

definition rate_common :: "rate \<Rightarrow> rate \<Rightarrow> metric \<times> rat \<times> rat" where
  "rate_common baseline trial =
     (case (rt_tokens baseline, rt_tokens trial) of
        (Some b, Some t) \<Rightarrow> (CompletionTokensPerSecond, b, t)
      | _ \<Rightarrow> (OutputCharsPerSecond, rt_chars baseline, rt_chars trial))"

datatype direction = Up | Down

fun flipped :: "direction \<Rightarrow> direction" where
  "flipped Up = Down"
| "flipped Down = Up"

datatype change_reason = ReasonTrial | ReasonKept | ReasonRejected | ReasonFailed

record level_change =
  lc_at_ms :: nat
  lc_from :: nat
  lc_to :: nat
  lc_reason :: change_reason
  lc_baseline :: "rat option"
  lc_trial :: "rat option"
  lc_metric :: "metric option"

datatype tuner_phase = PhaseSteady | PhaseTrial

record trial =
  t_incumbent :: nat
  t_level :: nat
  t_began :: instant
  t_window :: nat
  t_dispatched :: "nat list"
  t_completed :: nat
  t_units :: units
  t_baseline :: rate

record tuner =
  tn_ceiling :: nat
  tn_level :: nat
  tn_direction :: direction
  tn_interval :: duration
  tn_next_due :: instant
  tn_started :: instant
  tn_trial :: "trial option"
  tn_samples :: "sample list"
  tn_history :: "level_change list"

section \<open>Operations\<close>

definition tuner_new :: "nat \<Rightarrow> instant \<Rightarrow> tuner" where
  "tuner_new cap started =
     \<lparr>tn_ceiling = max cap 1, tn_level = 1, tn_direction = Up,
      tn_interval = first_experiment, tn_next_due = started + first_experiment,
      tn_started = started, tn_trial = None, tn_samples = [], tn_history = []\<rparr>"

definition tuner_millis :: "tuner \<Rightarrow> instant \<Rightarrow> nat" where
  "tuner_millis tn instant = millis (instant - tn_started tn)"

definition tuner_change ::
    "instant \<Rightarrow> nat \<Rightarrow> change_reason \<Rightarrow> (metric \<times> rat) option \<Rightarrow> rat option \<Rightarrow> tuner \<Rightarrow> tuner" where
  "tuner_change now to reason baseline trial tn =
     tn\<lparr>tn_history := push_capped history_capacity (tn_history tn)
          \<lparr>lc_at_ms = tuner_millis tn now, lc_from = tn_level tn, lc_to = to, lc_reason = reason,
           lc_baseline = map_option snd baseline, lc_trial = trial,
           lc_metric = map_option fst baseline\<rparr>\<rparr>"

fun level_step :: "nat \<Rightarrow> direction \<Rightarrow> nat \<Rightarrow> nat option" where
  "level_step cap Up level = (if level + 1 \<le> u32_max \<and> level + 1 \<le> cap then Some (level + 1) else None)"
| "level_step cap Down level = (if 1 \<le> level \<and> 1 \<le> level - 1 then Some (level - 1) else None)"

definition tuner_target :: "tuner \<Rightarrow> nat \<times> tuner" where
  "tuner_target tn =
     (case level_step (tn_ceiling tn) (tn_direction tn) (tn_level tn) of
        Some next_level \<Rightarrow> (next_level, tn)
      | None \<Rightarrow>
          (let tn' = tn\<lparr>tn_direction := flipped (tn_direction tn)\<rparr>
           in (case level_step (tn_ceiling tn') (tn_direction tn') (tn_level tn') of
                 Some next_level \<Rightarrow> next_level | None \<Rightarrow> tn_level tn', tn')))"

definition tuner_baseline :: "nat \<Rightarrow> tuner \<Rightarrow> rate option" where
  "tuner_baseline window tn =
     (let recent = take window
            (filter (\<lambda>s. s_level s = tn_level tn \<and> s_outcome s = OutcomeOk) (rev (tn_samples tn)))
      in if length recent < window \<or> recent = [] then None
         else
           (let start = Min (set (map s_dispatched recent));
                finish = Max (set (map s_completed recent));
                units = foldl units_add units_none
                  (filter (\<lambda>s. s_outcome s = OutcomeOk \<and> s_completed s \<ge> start \<and>
                               s_completed s \<le> finish) (tn_samples tn))
            in Some (units_per_second units (finish - start))))"

definition tuner_poll :: "instant \<Rightarrow> nat \<Rightarrow> bool \<Rightarrow> tuner \<Rightarrow> tuner" where
  "tuner_poll now backlog paused tn =
     (if tn_trial tn \<noteq> None \<or> tn_ceiling tn \<le> 1 \<or> now < tn_next_due tn \<or> paused then tn
      else
        (let (target, tn1) = tuner_target tn
         in if backlog < target then tn1
            else
              (let window = max (target - 1) 1
               in case tuner_baseline window tn1 of
                    None \<Rightarrow> tn1
                  | Some baseline \<Rightarrow>
                      (let tn2 = tuner_change now target ReasonTrial None None tn1
                       in tn2\<lparr>tn_trial := Some
                            \<lparr>t_incumbent = tn_level tn2, t_level = target, t_began = now,
                             t_window = window, t_dispatched = [], t_completed = 0,
                             t_units = units_none, t_baseline = baseline\<rparr>,
                            tn_level := target\<rparr>))))"

definition tuner_on_dispatch :: "nat \<Rightarrow> tuner \<Rightarrow> tuner" where
  "tuner_on_dispatch i tn =
     (case tn_trial tn of
        None \<Rightarrow> tn
      | Some t \<Rightarrow>
          if length (t_dispatched t) < t_window t
          then tn\<lparr>tn_trial := Some (t\<lparr>t_dispatched := t_dispatched t @ [i]\<rparr>)\<rparr>
          else tn)"

definition tuner_conclude ::
    "instant \<Rightarrow> bool \<Rightarrow> (metric \<times> rat \<times> rat) option \<Rightarrow> change_reason \<Rightarrow> tuner \<Rightarrow> tuner" where
  "tuner_conclude now accepted measured reason tn =
     (case tn_trial tn of
        None \<Rightarrow> tn
      | Some t \<Rightarrow>
          (let tn1 = tn\<lparr>tn_trial := None\<rparr>;
               to = (if accepted then t_level t else t_incumbent t);
               (metric, baseline, got) =
                 (case measured of
                    None \<Rightarrow> (let (metric, baseline) = rate_preferred (t_baseline t)
                             in (metric, baseline, None))
                  | Some (metric, baseline, got) \<Rightarrow> (metric, baseline, Some got));
               tn2 = tuner_change now to reason (Some (metric, baseline)) got tn1;
               interval = min (tn_interval tn * 2) experiment_cap
           in tn2\<lparr>tn_level := to,
                 tn_direction := (if accepted then tn_direction tn else flipped (tn_direction tn)),
                 tn_interval := interval,
                 tn_next_due := now + interval\<rparr>))"

definition trial_accepted :: "trial \<Rightarrow> rat \<Rightarrow> rat \<Rightarrow> bool" where
  "trial_accepted t baseline measured =
     (if t_level t > t_incumbent t
      then measured \<ge> f64_mul baseline gain_to_go_up
      else measured \<ge> f64_mul baseline loss_to_stay_down)"

definition trial_note :: "sample \<Rightarrow> trial \<Rightarrow> trial" where
  "trial_note s t =
     (let t1 = (if s_outcome s = OutcomeOk then t\<lparr>t_units := units_add (t_units t) s\<rparr> else t)
      in if s_id s \<in> set (t_dispatched t1) then t1\<lparr>t_completed := t_completed t1 + 1\<rparr> else t1)"

definition tuner_on_complete :: "sample \<Rightarrow> tuner \<Rightarrow> tuner" where
  "tuner_on_complete s tn =
     (let tn1 = tn\<lparr>tn_samples := push_capped sample_capacity (tn_samples tn) s\<rparr>
      in case tn_trial tn1 of
           None \<Rightarrow> tn1
         | Some t \<Rightarrow>
             if s_outcome s = OutcomeFailed
             then tuner_conclude (s_completed s) False None ReasonFailed tn1
             else
               (let t' = trial_note s t; tn2 = tn1\<lparr>tn_trial := Some t'\<rparr>
                in if t_completed t' < t_window t' then tn2
                   else
                     (let (metric, baseline, measured) =
                            rate_common (t_baseline t')
                              (units_per_second (t_units t') (s_completed s - t_began t'));
                          accepted = trial_accepted t' baseline measured
                      in tuner_conclude (s_completed s) accepted
                           (Some (metric, baseline, measured))
                           (if accepted then ReasonKept else ReasonRejected) tn2)))"

record tuner_snapshot =
  ts_phase :: tuner_phase
  ts_level :: nat
  ts_incumbent :: nat
  ts_trial_level :: "nat option"
  ts_window :: "nat option"
  ts_trial_dispatched :: "nat option"
  ts_trial_completed :: "nat option"
  ts_baseline_throughput :: "rat option"
  ts_trial_throughput :: "rat option"
  ts_direction :: direction
  ts_next_experiment_at_ms :: "nat option"
  ts_interval_ms :: nat
  ts_metric :: "metric option"
  ts_history :: "level_change list"

definition tuner_snapshot_at :: "instant \<Rightarrow> tuner \<Rightarrow> tuner_snapshot" where
  "tuner_snapshot_at now tn =
     (let tr = tn_trial tn;
          compared = map_option (\<lambda>t. rate_common (t_baseline t)
                       (units_per_second (t_units t) (now - t_began t))) tr
      in \<lparr>ts_phase = (if tr \<noteq> None then PhaseTrial else PhaseSteady),
          ts_level = tn_level tn,
          ts_incumbent = (case tr of None \<Rightarrow> tn_level tn | Some t \<Rightarrow> t_incumbent t),
          ts_trial_level = map_option t_level tr,
          ts_window = map_option t_window tr,
          ts_trial_dispatched = map_option (\<lambda>t. u32_of (length (t_dispatched t))) tr,
          ts_trial_completed = map_option t_completed tr,
          ts_baseline_throughput = map_option (\<lambda>c. fst (snd c)) compared,
          ts_trial_throughput = map_option (\<lambda>c. snd (snd c)) compared,
          ts_direction = tn_direction tn,
          ts_next_experiment_at_ms =
            (if tn_ceiling tn > 1 then Some (tuner_millis tn (tn_next_due tn)) else None),
          ts_interval_ms = millis (tn_interval tn),
          ts_metric = map_option fst compared,
          ts_history = tn_history tn\<rparr>)"

section \<open>The invariant\<close>

definition adjacent_levels :: "nat \<Rightarrow> nat \<Rightarrow> bool" where
  "adjacent_levels a b \<longleftrightarrow> a = b + 1 \<or> b = a + 1"

definition trial_wf :: "nat \<Rightarrow> nat \<Rightarrow> trial \<Rightarrow> bool" where
  "trial_wf cap level t \<longleftrightarrow>
     t_level t = level \<and> 1 \<le> t_incumbent t \<and> t_incumbent t \<le> cap \<and>
     adjacent_levels (t_level t) (t_incumbent t) \<and> t_window t = max (t_level t - 1) 1 \<and>
     length (t_dispatched t) \<le> t_window t \<and> t_completed t < t_window t"

definition tuner_wf :: "tuner \<Rightarrow> bool" where
  "tuner_wf tn \<longleftrightarrow>
     1 \<le> tn_level tn \<and> tn_level tn \<le> tn_ceiling tn \<and> tn_ceiling tn \<le> u32_max \<and>
     first_experiment \<le> tn_interval tn \<and> tn_interval tn \<le> experiment_cap \<and>
     length (tn_samples tn) \<le> sample_capacity \<and> length (tn_history tn) \<le> history_capacity \<and>
     (\<forall>t. tn_trial tn = Some t \<longrightarrow> trial_wf (tn_ceiling tn) (tn_level tn) t)"

lemma first_experiment_le_cap: "first_experiment \<le> experiment_cap"
  by (simp add: first_experiment_def experiment_cap_def from_secs_def)

lemma tuner_new_wf: "cap \<le> u32_max \<Longrightarrow> tuner_wf (tuner_new cap started)"
  using first_experiment_le_cap by (auto simp: tuner_wf_def tuner_new_def u32_max_def)

lemma tuner_change_simps [simp]:
  "tn_ceiling (tuner_change now to r b m tn) = tn_ceiling tn"
  "tn_level (tuner_change now to r b m tn) = tn_level tn"
  "tn_direction (tuner_change now to r b m tn) = tn_direction tn"
  "tn_interval (tuner_change now to r b m tn) = tn_interval tn"
  "tn_next_due (tuner_change now to r b m tn) = tn_next_due tn"
  "tn_trial (tuner_change now to r b m tn) = tn_trial tn"
  "tn_samples (tuner_change now to r b m tn) = tn_samples tn"
  by (simp_all add: tuner_change_def)

lemma tuner_change_history:
  "length (tn_history tn) \<le> history_capacity \<Longrightarrow>
     length (tn_history (tuner_change now to r b m tn)) \<le> history_capacity"
  by (simp add: tuner_change_def length_push_capped history_capacity_def)

lemma tuner_target_direction:
  "tuner_target tn = (target, tn') \<Longrightarrow> \<exists>d. tn' = tn\<lparr>tn_direction := d\<rparr>"
  by (auto simp: tuner_target_def Let_def intro: exI [of _ "tn_direction tn"] split: option.splits)

lemma tuner_target_adjacent:
  assumes "tuner_wf tn" and "1 < tn_ceiling tn" and "tuner_target tn = (target, tn')"
  shows "1 \<le> target \<and> target \<le> tn_ceiling tn \<and> adjacent_levels target (tn_level tn)"
  using assms
  by (cases "tn_direction tn")
    (auto simp: tuner_target_def Let_def tuner_wf_def adjacent_levels_def
      split: option.splits if_splits)

text \<open>A poll either leaves everything but the direction alone, or starts a trial.\<close>

definition trial_start :: "instant \<Rightarrow> nat \<Rightarrow> rate \<Rightarrow> tuner \<Rightarrow> tuner" where
  "trial_start now target baseline tn =
     (tuner_change now target ReasonTrial None None tn)
       \<lparr>tn_trial := Some \<lparr>t_incumbent = tn_level tn, t_level = target, t_began = now,
          t_window = max (target - 1) 1, t_dispatched = [], t_completed = 0,
          t_units = units_none, t_baseline = baseline\<rparr>,
        tn_level := target\<rparr>"

lemma tuner_poll_cases:
  obtains (same) d where "tuner_poll now backlog paused tn = tn\<lparr>tn_direction := d\<rparr>"
  | (starts) target baseline d where
      "tn_trial tn = None" "1 < tn_ceiling tn" "tn_next_due tn \<le> now" "\<not> paused"
      "tuner_target tn = (target, tn\<lparr>tn_direction := d\<rparr>)" "target \<le> backlog"
      "tuner_baseline (max (target - 1) 1) (tn\<lparr>tn_direction := d\<rparr>) = Some baseline"
      "tuner_poll now backlog paused tn
        = trial_start now target baseline (tn\<lparr>tn_direction := d\<rparr>)"
proof (cases "tn_trial tn \<noteq> None \<or> tn_ceiling tn \<le> 1 \<or> now < tn_next_due tn \<or> paused")
  case True
  then have "tuner_poll now backlog paused tn = tn\<lparr>tn_direction := tn_direction tn\<rparr>"
    by (simp add: tuner_poll_def)
  then show ?thesis by (rule same)
next
  case False
  obtain target tn1 where tg: "tuner_target tn = (target, tn1)" by fastforce
  from tuner_target_direction [OF tg] obtain d where t1: "tn1 = tn\<lparr>tn_direction := d\<rparr>" by blast
  show ?thesis
  proof (cases "backlog < target \<or> tuner_baseline (max (target - 1) 1) tn1 = None")
    case True
    with False tg t1 same [of d] show ?thesis by (auto simp: tuner_poll_def Let_def)
  next
    case go: False
    then obtain baseline where b: "tuner_baseline (max (target - 1) 1) tn1 = Some baseline" by auto
    from go have le: "target \<le> backlog" by simp
    have lv: "tn_level tn1 = tn_level tn" by (simp add: t1)
    have eq: "tuner_poll now backlog paused tn = trial_start now target baseline tn1"
      using False le tg b by (simp add: tuner_poll_def Let_def trial_start_def)
    from False have pre: "tn_trial tn = None" "1 < tn_ceiling tn" "tn_next_due tn \<le> now"
      "\<not> paused" by simp_all
    show ?thesis
      by (rule starts [OF pre tg [unfolded t1] le b [unfolded t1] eq [unfolded t1]])
  qed
qed

lemma tuner_wf_direction: "tuner_wf (tn\<lparr>tn_direction := d\<rparr>) \<longleftrightarrow> tuner_wf tn"
  by (simp add: tuner_wf_def)

lemma trial_start_wf:
  assumes "tuner_wf tn" and "1 \<le> target" "target \<le> tn_ceiling tn"
    and "adjacent_levels target (tn_level tn)"
  shows "tuner_wf (trial_start now target baseline tn)"
  using assms tuner_change_history [of tn now target ReasonTrial None None]
  by (simp add: tuner_wf_def trial_wf_def trial_start_def)

lemma tuner_poll_wf:
  assumes wf: "tuner_wf tn"
  shows "tuner_wf (tuner_poll now backlog paused tn)"
proof (cases now backlog paused tn rule: tuner_poll_cases)
  case (same d)
  then show ?thesis using wf by (simp add: tuner_wf_direction)
next
  case (starts target baseline d)
  from tuner_target_adjacent [OF wf starts(2,5)] wf show ?thesis
    unfolding starts(8) by (intro trial_start_wf) (simp_all add: tuner_wf_direction)
qed

lemma tuner_wf_set_trial:
  "tuner_wf tn \<Longrightarrow> trial_wf (tn_ceiling tn) (tn_level tn) t \<Longrightarrow>
     tuner_wf (tn\<lparr>tn_trial := Some t\<rparr>)"
  by (simp add: tuner_wf_def)

lemma tuner_wf_trial:
  "tuner_wf tn \<Longrightarrow> tn_trial tn = Some t \<Longrightarrow> trial_wf (tn_ceiling tn) (tn_level tn) t"
  by (simp add: tuner_wf_def)

lemma tuner_on_dispatch_wf:
  assumes wf: "tuner_wf tn"
  shows "tuner_wf (tuner_on_dispatch i tn)"
proof (cases "tn_trial tn")
  case None
  with wf show ?thesis by (simp add: tuner_on_dispatch_def)
next
  case (Some t)
  show ?thesis
  proof (cases "length (t_dispatched t) < t_window t")
    case True
    from tuner_wf_trial [OF wf Some] True
    have "trial_wf (tn_ceiling tn) (tn_level tn) (t\<lparr>t_dispatched := t_dispatched t @ [i]\<rparr>)"
      unfolding trial_wf_def by clarsimp
    from tuner_wf_set_trial [OF wf this] Some True show ?thesis by (simp add: tuner_on_dispatch_def)
  next
    case False
    with wf Some show ?thesis by (simp add: tuner_on_dispatch_def)
  qed
qed

definition conclusion ::
    "trial \<Rightarrow> (metric \<times> rat \<times> rat) option \<Rightarrow> (metric \<times> rat) \<times> rat option" where
  "conclusion t measured =
     (case measured of
        None \<Rightarrow> (rate_preferred (t_baseline t), None)
      | Some (metric, baseline, got) \<Rightarrow> ((metric, baseline), Some got))"

lemma tuner_conclude_eq:
  assumes "tn_trial tn = Some t"
  shows "tuner_conclude now acc m r tn =
    (tuner_change now (if acc then t_level t else t_incumbent t) r
      (Some (fst (conclusion t m))) (snd (conclusion t m)) (tn\<lparr>tn_trial := None\<rparr>))
    \<lparr>tn_level := (if acc then t_level t else t_incumbent t),
      tn_direction := (if acc then tn_direction tn else flipped (tn_direction tn)),
      tn_interval := min (tn_interval tn * 2) experiment_cap,
      tn_next_due := now + min (tn_interval tn * 2) experiment_cap\<rparr>"
  using assms
  by (simp add: tuner_conclude_def Let_def conclusion_def split: prod.splits option.splits)

lemma tuner_conclude_Some:
  assumes "tn_trial tn = Some t"
  shows "tn_level (tuner_conclude now acc m r tn) = (if acc then t_level t else t_incumbent t)"
    and "tn_trial (tuner_conclude now acc m r tn) = None"
    and "tn_ceiling (tuner_conclude now acc m r tn) = tn_ceiling tn"
    and "tn_samples (tuner_conclude now acc m r tn) = tn_samples tn"
    and "tn_interval (tuner_conclude now acc m r tn) = min (tn_interval tn * 2) experiment_cap"
    and "tn_next_due (tuner_conclude now acc m r tn)
      = now + min (tn_interval tn * 2) experiment_cap"
    and "tn_direction (tuner_conclude now acc m r tn)
      = (if acc then tn_direction tn else flipped (tn_direction tn))"
  using assms by (simp_all add: tuner_conclude_eq)

lemma tuner_conclude_history:
  assumes "tn_trial tn = Some t"
  shows "length (tn_history tn) \<le> history_capacity \<Longrightarrow>
      length (tn_history (tuner_conclude now acc m r tn)) \<le> history_capacity"
    and "lc_reason (last (tn_history (tuner_conclude now acc m r tn))) = r"
proof -
  show "length (tn_history (tuner_conclude now acc m r tn)) \<le> history_capacity"
    if "length (tn_history tn) \<le> history_capacity"
    using that assms
    by (simp only: tuner_conclude_eq) (simp add: tuner_change_history)
  show "lc_reason (last (tn_history (tuner_conclude now acc m r tn))) = r"
    using assms by (simp add: tuner_conclude_eq tuner_change_def push_capped_def)
qed

lemma tuner_conclude_wf:
  assumes "tuner_wf (tn\<lparr>tn_trial := None\<rparr>)" and "tn_trial tn = Some t"
    and "1 \<le> t_level t" "t_level t \<le> tn_ceiling tn"
    and "1 \<le> t_incumbent t" "t_incumbent t \<le> tn_ceiling tn"
  shows "tuner_wf (tuner_conclude now acc m r tn)"
  using assms(1,3-) tuner_conclude_Some [OF assms(2)] tuner_conclude_history [OF assms(2)]
    first_experiment_le_cap
  by (simp add: tuner_wf_def)

lemma tuner_wf_no_trial: "tuner_wf tn \<Longrightarrow> tuner_wf (tn\<lparr>tn_trial := None\<rparr>)"
  by (simp add: tuner_wf_def)

lemma trial_note_simps [simp]:
  "t_level (trial_note s t) = t_level t" "t_incumbent (trial_note s t) = t_incumbent t"
  "t_window (trial_note s t) = t_window t" "t_dispatched (trial_note s t) = t_dispatched t"
  "t_began (trial_note s t) = t_began t" "t_baseline (trial_note s t) = t_baseline t"
  by (simp_all add: trial_note_def Let_def)

lemma adjacent_levels_swap: "adjacent_levels a b \<longleftrightarrow> adjacent_levels b a"
  by (auto simp: adjacent_levels_def)

text \<open>What a completion does: \<open>tuner_noted\<close> keeps the sample, and the trial, if there is one,
  fails, goes on or concludes.\<close>

definition tuner_noted :: "sample \<Rightarrow> tuner \<Rightarrow> tuner" where
  "tuner_noted s tn = tn\<lparr>tn_samples := push_capped sample_capacity (tn_samples tn) s\<rparr>"

lemma tuner_noted_simps [simp]:
  "tn_ceiling (tuner_noted s tn) = tn_ceiling tn" "tn_level (tuner_noted s tn) = tn_level tn"
  "tn_direction (tuner_noted s tn) = tn_direction tn"
  "tn_interval (tuner_noted s tn) = tn_interval tn"
  "tn_next_due (tuner_noted s tn) = tn_next_due tn" "tn_trial (tuner_noted s tn) = tn_trial tn"
  "tn_history (tuner_noted s tn) = tn_history tn" "tn_started (tuner_noted s tn) = tn_started tn"
  by (simp_all add: tuner_noted_def)

lemma tuner_noted_wf: "tuner_wf tn \<Longrightarrow> tuner_wf (tuner_noted s tn)"
  by (simp add: tuner_wf_def tuner_noted_def length_push_capped sample_capacity_def)

definition trial_measured :: "sample \<Rightarrow> trial \<Rightarrow> metric \<times> rat \<times> rat" where
  "trial_measured s t =
     rate_common (t_baseline t) (units_per_second (t_units t) (s_completed s - t_began t))"

definition trial_verdict :: "sample \<Rightarrow> trial \<Rightarrow> bool" where
  "trial_verdict s t =
     trial_accepted t (fst (snd (trial_measured s t))) (snd (snd (trial_measured s t)))"

lemma tuner_on_complete_steady:
  "tn_trial tn = None \<Longrightarrow> tuner_on_complete s tn = tuner_noted s tn"
  by (simp add: tuner_on_complete_def tuner_noted_def)

lemma tuner_on_complete_failed:
  "tn_trial tn = Some t \<Longrightarrow> s_outcome s = OutcomeFailed \<Longrightarrow>
     tuner_on_complete s tn
       = tuner_conclude (s_completed s) False None ReasonFailed (tuner_noted s tn)"
  by (simp add: tuner_on_complete_def tuner_noted_def Let_def)

lemma tuner_on_complete_goes_on:
  "tn_trial tn = Some t \<Longrightarrow> s_outcome s \<noteq> OutcomeFailed \<Longrightarrow>
     t_completed (trial_note s t) < t_window t \<Longrightarrow>
     tuner_on_complete s tn = (tuner_noted s tn)\<lparr>tn_trial := Some (trial_note s t)\<rparr>"
  by (simp add: tuner_on_complete_def tuner_noted_def Let_def)

lemma tuner_on_complete_concludes:
  "tn_trial tn = Some t \<Longrightarrow> s_outcome s \<noteq> OutcomeFailed \<Longrightarrow>
     \<not> t_completed (trial_note s t) < t_window t \<Longrightarrow>
     tuner_on_complete s tn =
       tuner_conclude (s_completed s) (trial_verdict s (trial_note s t))
         (Some (trial_measured s (trial_note s t)))
         (if trial_verdict s (trial_note s t) then ReasonKept else ReasonRejected)
         ((tuner_noted s tn)\<lparr>tn_trial := Some (trial_note s t)\<rparr>)"
  by (simp add: tuner_on_complete_def tuner_noted_def Let_def trial_verdict_def
      trial_measured_def split: prod.splits)

lemmas tuner_on_complete_simps = tuner_on_complete_steady tuner_on_complete_failed
  tuner_on_complete_goes_on tuner_on_complete_concludes

lemma trial_wf_levels:
  "trial_wf cap level t \<Longrightarrow> level \<le> cap \<Longrightarrow> 1 \<le> level \<Longrightarrow>
     1 \<le> t_level t \<and> t_level t \<le> cap \<and> 1 \<le> t_incumbent t \<and> t_incumbent t \<le> cap"
  by (simp add: trial_wf_def)

lemma tuner_on_complete_wf:
  assumes wf: "tuner_wf tn"
  shows "tuner_wf (tuner_on_complete s tn)"
proof (cases "tn_trial tn")
  case None
  with tuner_noted_wf [OF wf] show ?thesis by (simp add: tuner_on_complete_steady)
next
  case (Some t)
  note twf = tuner_wf_trial [OF wf Some]
  from trial_wf_levels [OF twf] wf
  have lv: "1 \<le> t_level t" "t_level t \<le> tn_ceiling tn" "1 \<le> t_incumbent t"
    "t_incumbent t \<le> tn_ceiling tn" by (simp_all add: tuner_wf_def)
  consider "s_outcome s = OutcomeFailed"
    | "s_outcome s \<noteq> OutcomeFailed" "t_completed (trial_note s t) < t_window t"
    | "s_outcome s \<noteq> OutcomeFailed" "\<not> t_completed (trial_note s t) < t_window t" by blast
  then show ?thesis
  proof cases
    case 1
    then show ?thesis unfolding tuner_on_complete_failed [OF Some 1]
      by (intro tuner_conclude_wf [where t = t] tuner_wf_no_trial tuner_noted_wf wf)
        (use lv in \<open>simp_all add: Some\<close>)
  next
    case 2
    have "trial_wf (tn_ceiling tn) (tn_level tn) (trial_note s t)"
      using twf 2(2) unfolding trial_wf_def by clarsimp
    with tuner_noted_wf [OF wf] show ?thesis
      unfolding tuner_on_complete_goes_on [OF Some 2] by (intro tuner_wf_set_trial) simp_all
  next
    case 3
    have "tuner_wf ((tuner_noted s tn)\<lparr>tn_trial := None\<rparr>)"
      by (rule tuner_wf_no_trial [OF tuner_noted_wf [OF wf]])
    then show ?thesis
      unfolding tuner_on_complete_concludes [OF Some 3]
      by (intro tuner_conclude_wf [where t = "trial_note s t"]) (use lv in simp_all)
  qed
qed

lemma tuner_poll_ceiling [simp]: "tn_ceiling (tuner_poll now backlog paused tn) = tn_ceiling tn"
proof (cases now backlog paused tn rule: tuner_poll_cases)
  case (starts target baseline d)
  then show ?thesis by (simp add: trial_start_def)
qed simp

lemma tuner_on_dispatch_ceiling [simp]: "tn_ceiling (tuner_on_dispatch i tn) = tn_ceiling tn"
  by (simp add: tuner_on_dispatch_def split: option.split)

lemma tuner_on_dispatch_level [simp]: "tn_level (tuner_on_dispatch i tn) = tn_level tn"
  by (simp add: tuner_on_dispatch_def split: option.split)

lemma tuner_on_complete_ceiling [simp]: "tn_ceiling (tuner_on_complete s tn) = tn_ceiling tn"
proof (cases "tn_trial tn")
  case (Some t)
  then show ?thesis
    by (cases "s_outcome s = OutcomeFailed"; cases "t_completed (trial_note s t) < t_window t")
      (simp_all add: tuner_on_complete_simps tuner_conclude_Some [where t = t]
        tuner_conclude_Some [where t = "trial_note s t"])
qed (simp add: tuner_on_complete_steady)

lemma tuner_dispatches [simp]:
  "tn_ceiling (fold tuner_on_dispatch is tn) = tn_ceiling tn"
  "tn_level (fold tuner_on_dispatch is tn) = tn_level tn"
  by (induction "is" arbitrary: tn) simp_all

lemma tuner_dispatches_wf: "tuner_wf tn \<Longrightarrow> tuner_wf (fold tuner_on_dispatch is tn)"
  by (induction "is" arbitrary: tn) (simp_all add: tuner_on_dispatch_wf)

section \<open>Runs\<close>

text \<open>The events a tuner sees, in the order its backend reports them.\<close>

datatype tuner_event =
    TnPoll instant nat bool
  | TnDispatch nat
  | TnComplete sample

fun tuner_step :: "tuner \<Rightarrow> tuner_event \<Rightarrow> tuner" where
  "tuner_step tn (TnPoll now backlog paused) = tuner_poll now backlog paused tn"
| "tuner_step tn (TnDispatch i) = tuner_on_dispatch i tn"
| "tuner_step tn (TnComplete s) = tuner_on_complete s tn"

interpretation tuner_run: stepper tuner_step tuner_wf
proof
  fix tn e
  assume "tuner_wf tn"
  then show "tuner_wf (tuner_step tn e)"
    by (cases e) (simp_all add: tuner_poll_wf tuner_on_dispatch_wf tuner_on_complete_wf)
qed

text \<open>Until the next experiment is due nothing moves the level of a tuner without a trial.\<close>

definition tuner_idle :: "instant \<Rightarrow> nat \<Rightarrow> tuner \<Rightarrow> bool" where
  "tuner_idle due level tn \<longleftrightarrow> tn_trial tn = None \<and> due \<le> tn_next_due tn \<and> tn_level tn = level"

fun polls_before :: "instant \<Rightarrow> tuner_event \<Rightarrow> bool" where
  "polls_before due (TnPoll now _ _) = (now < due)"
| "polls_before due (TnDispatch _) = True"
| "polls_before due (TnComplete _) = True"

lemma tuner_step_idle:
  assumes "tuner_idle due level tn" and "polls_before due e"
  shows "tuner_idle due level (tuner_step tn e)"
  using assms
  by (cases e) (simp_all add: tuner_idle_def tuner_poll_def tuner_on_dispatch_def
      tuner_on_complete_steady)

lemma tuner_run_idle:
  "tuner_idle due level tn \<Longrightarrow> \<forall>e \<in> set es. polls_before due e \<Longrightarrow>
     tuner_idle due level (foldl tuner_step tn es)"
  by (induction es arbitrary: tn) (simp_all add: tuner_step_idle)

section \<open>Throughput of a trial\<close>

lemma units_add_sum:
  "u_chars u \<le> u64_max \<Longrightarrow>
     u_chars (foldl units_add u ss) = min (u_chars u + (\<Sum>s\<leftarrow>ss. s_chars s)) u64_max"
proof (induction ss arbitrary: u)
  case Nil
  then show ?case by simp
next
  case (Cons s ss)
  have c: "u_chars (units_add u s) = min (u_chars u + s_chars s) u64_max"
    by (simp add: units_add_def u64_sat_add_def)
  then have "u_chars (units_add u s) \<le> u64_max" by simp
  from Cons.IH [OF this] c show ?case by (simp add: min_def)
qed

lemma units_sum_chars:
  "u_chars (foldl units_add units_none ss) = min (\<Sum>s\<leftarrow>ss. s_chars s) u64_max"
  using units_add_sum [of units_none ss] by (simp add: units_none_def)

lemma units_add_tokens_None:
  "u_tokens u = None \<Longrightarrow> u_tokens (foldl units_add u ss) = None"
  by (induction ss arbitrary: u) (simp_all add: units_add_def)

lemma units_add_tokens:
  assumes "u_tokens u = Some n" and "n \<le> u64_max"
  shows "u_tokens (foldl units_add u ss) =
    (if \<exists>s \<in> set ss. s_tokens s = None then None
     else Some (min (n + (\<Sum>s\<leftarrow>ss. the (s_tokens s))) u64_max))"
  using assms
proof (induction ss arbitrary: u n)
  case Nil
  then show ?case by simp
next
  case (Cons s ss)
  show ?case
  proof (cases "s_tokens s")
    case None
    then have "u_tokens (units_add u s) = None" by (simp add: units_add_def split: option.splits)
    from units_add_tokens_None [OF this] None show ?thesis by simp
  next
    case (Some k)
    with Cons.prems have "u_tokens (units_add u s) = Some (min (n + k) u64_max)"
      by (simp add: units_add_def u64_sat_add_def)
    from Cons.IH [OF this] Some show ?thesis by (auto simp: min_def)
  qed
qed

lemma f64_mul_lower: "b * g * (1 - 1 / 2 ^ 53) \<le> f64_mul b g" if "0 \<le> g"
proof (cases "0 \<le> b")
  case True
  with that have "0 \<le> b * g" by simp
  from f64_round_lower [OF this] show ?thesis by (simp only: f64_mul_def)
next
  case False
  with that have "b * g \<le> 0" by (simp add: mult_nonpos_nonneg)
  then have "b * g * (1 - 1 / 2 ^ 53) \<le> 0"
    by (rule mult_nonpos_nonneg) simp
  with \<open>b * g \<le> 0\<close> show ?thesis by (simp add: f64_mul_def f64_round_def)
qed

lemma failed_call_reverts:
  "tn_trial tn = Some t \<Longrightarrow> s_outcome s = OutcomeFailed \<Longrightarrow>
     tn_level (tuner_on_complete s tn) = t_incumbent t"
  by (simp add: tuner_on_complete_failed tuner_conclude_Some [where t = t])

lemma gain_bound: "110 / 100 * (1 - 1 / 2 ^ 53) \<le> gain_to_go_up"
  unfolding gain_to_go_up_def by (rule f64_round_lower) simp

lemma loss_bound: "95 / 100 * (1 - 1 / 2 ^ 53) \<le> loss_to_stay_down"
  unfolding loss_to_stay_down_def by (rule f64_round_lower) simp


lemma gain_product:
  assumes "0 \<le> b"
  shows "b * (110 / 100) * (1 - 1 / 2 ^ 52) \<le> f64_mul b gain_to_go_up"
proof -
  let ?e = "1 - 1 / 2 ^ 53 :: rat"
  have "1 - 1 / 2 ^ 52 \<le> ?e * ?e" by simp
  then have "b * (110 / 100) * (1 - 1 / 2 ^ 52) \<le> b * (110 / 100) * (?e * ?e)"
    using assms by (intro mult_left_mono) simp_all
  also have "\<dots> = b * (110 / 100 * ?e) * ?e" by (simp only: mult.assoc)
  also have "\<dots> \<le> b * gain_to_go_up * ?e"
    using assms gain_bound by (intro mult_right_mono mult_left_mono) simp_all
  also have "\<dots> \<le> f64_mul b gain_to_go_up"
  proof (rule f64_mul_lower)
    show "0 \<le> gain_to_go_up" by (rule order_trans [OF _ gain_bound]) simp
  qed
  finally show ?thesis .
qed

lemmas f64_round_eval = f64_round_def f64_exponent_def scale2_def bit_length.simps
  round_half_even_def Let_def

lemma f64_round_small:
  "f64_round 0 = 0" "f64_round 1 = 1" "f64_round 10 = 10"
  by (simp_all add: f64_round_eval)

lemma one_second: "as_secs_f64 1000000000 = 1"
  by (simp add: as_secs_f64_def f64_of_nat_def f64_div_def f64_add_def f64_round_small)

lemma min_interval_small: "max 1 min_interval_secs = 1"
  using f64_round_upper [of "1 / 1000"] by (simp add: min_interval_secs_def)

lemma gain_small: "f64_mul 1 gain_to_go_up \<le> 10"
proof -
  have "0 \<le> gain_to_go_up" by (rule order_trans [OF _ gain_bound]) simp
  then have "f64_mul 1 gain_to_go_up \<le> 2 * gain_to_go_up"
    using f64_round_upper [of gain_to_go_up] by (simp add: f64_mul_def)
  also have "gain_to_go_up \<le> 4"
    using f64_round_upper [of "110 / 100"] by (simp add: gain_to_go_up_def)
  finally show ?thesis by simp
qed

section \<open>Properties\<close>

definition sample_of :: "nat \<Rightarrow> nat \<Rightarrow> instant \<Rightarrow> call_outcome \<Rightarrow> sample" where
  "sample_of i level at_time outcome =
     \<lparr>s_id = i, s_level = level, s_dispatched = at_time, s_completed = at_time + 1000000000,
      s_chars = 10, s_tokens = Some 5, s_outcome = outcome\<rparr>"

definition started_tuner :: tuner where
  "started_tuner =
     (tuner_new 2 0)\<lparr>tn_level := 2,
       tn_trial := Some \<lparr>t_incumbent = 1, t_level = 2, t_began = 0, t_window = 1,
         t_dispatched = [7], t_completed = 0, t_units = units_none,
         t_baseline = \<lparr>rt_chars = 1, rt_tokens = None\<rparr>\<rparr>\<rparr>"

text \<open>
Whatever the tuner of a backend sees (polls at any time, dispatches and completions in any
order), its level stays in \<open>[1, ceiling]\<close>, a running trial is one step from the level it would
fall back to and has not yet completed its window, and the interval stays between 15 minutes
and 24 hours.
\<close>

theorem tuner_stays_in_range:
  assumes "cap \<le> u32_max" and "tn = foldl tuner_step (tuner_new cap started) es"
  shows "1 \<le> tn_level tn \<and> tn_level tn \<le> tn_ceiling tn \<and>
    first_experiment \<le> tn_interval tn \<and> tn_interval tn \<le> experiment_cap \<and>
    (\<forall>t. tn_trial tn = Some t \<longrightarrow>
       t_level t = tn_level tn \<and> 1 \<le> t_incumbent t \<and> t_incumbent t \<le> tn_ceiling tn \<and>
       adjacent_levels (t_level t) (t_incumbent t) \<and> t_completed t < t_window t)"
proof -
  have "tuner_wf tn" unfolding assms(2) by (rule tuner_run.run_inv [OF tuner_new_wf [OF assms(1)]])
  then show ?thesis unfolding tuner_wf_def trial_wf_def by blast
qed

theorem tuner_stays_in_range_witness:
  "1 \<le> tn_level (foldl tuner_step (tuner_new 2 0) [TnPoll 5 3 False, TnDispatch 1])"
proof -
  have "(2::nat) \<le> u32_max" by (simp add: u32_max_def)
  from tuner_stays_in_range [OF this refl, of 0 "[TnPoll 5 3 False, TnDispatch 1]"]
  show ?thesis by blast
qed

text \<open>
C11: A failed call during a trial ends the trial at once: the level goes back to the incumbent,
the direction flips, the interval doubles (at most to 24 hours), the next experiment is due that
long after the failure, and the history says the trial failed.
\<close>

theorem failed_call_reverts_trial:
  assumes "tn_trial tn = Some t" and "s_outcome s = OutcomeFailed"
  shows "tn_level (tuner_on_complete s tn) = t_incumbent t \<and>
    tn_trial (tuner_on_complete s tn) = None \<and>
    tn_direction (tuner_on_complete s tn) = flipped (tn_direction tn) \<and>
    tn_interval (tuner_on_complete s tn) = min (tn_interval tn * 2) experiment_cap \<and>
    tn_next_due (tuner_on_complete s tn)
      = s_completed s + min (tn_interval tn * 2) experiment_cap \<and>
    lc_reason (last (tn_history (tuner_on_complete s tn))) = ReasonFailed"
proof -
  have t: "tn_trial (tuner_noted s tn) = Some t" using assms(1) by simp
  show ?thesis
    unfolding tuner_on_complete_failed [OF assms] tuner_conclude_history(2) [OF t]
      tuner_conclude_Some [OF t] by simp
qed

theorem failed_call_reverts_trial_witness:
  "tn_level (tuner_on_complete (sample_of 7 2 0 OutcomeFailed) started_tuner) = 1"
proof -
  let ?t = "the (tn_trial started_tuner)"
  have "tn_trial started_tuner = Some ?t" by (simp add: started_tuner_def)
  moreover have "s_outcome (sample_of 7 2 0 OutcomeFailed) = OutcomeFailed"
    by (simp add: sample_of_def)
  ultimately have "tn_level (tuner_on_complete (sample_of 7 2 0 OutcomeFailed) started_tuner)
      = t_incumbent ?t"
    using failed_call_reverts_trial by blast
  then show ?thesis by (simp add: started_tuner_def)
qed

text \<open>
C8: A step up is kept only if it paid: when the completion of a call ends a trial of the level
above the incumbent and the level stays, the throughput measured over the trial (in the metric
common to the trial and its baseline) is at least 110% of the baseline's, up to a relative
rounding error of at most \<open>2 ^ -52\<close>.
\<close>

theorem kept_step_up_gained:
  assumes "tn_trial tn = Some t" and "t_incumbent t < t_level t"
    and "tn_trial (tuner_on_complete s tn) = None"
    and "tn_level (tuner_on_complete s tn) \<noteq> t_incumbent t"
    and "trial_measured s (trial_note s t) = (metric, baseline, measured)" and "0 \<le> baseline"
  shows "baseline * (110 / 100) * (1 - 1 / 2 ^ 52) \<le> measured"
proof -
  have nf: "s_outcome s \<noteq> OutcomeFailed"
    using failed_call_reverts assms(1,4) by blast
  have fin: "\<not> t_completed (trial_note s t) < t_window t"
    using tuner_on_complete_goes_on [OF assms(1) nf] assms(3) by auto
  have "trial_verdict s (trial_note s t)"
  proof (rule ccontr)
    assume "\<not> trial_verdict s (trial_note s t)"
    with assms(4) show False
      unfolding tuner_on_complete_concludes [OF assms(1) nf fin]
      by (simp add: tuner_conclude_Some [where t = "trial_note s t"])
  qed
  then have got: "f64_mul baseline gain_to_go_up \<le> measured"
    using assms(2,5) by (simp add: trial_verdict_def trial_accepted_def)
  show ?thesis by (rule order_trans [OF gain_product [OF assms(6)] got])
qed

theorem kept_step_up_gained_witness:
  "1 * (110 / 100) * (1 - 1 / 2 ^ 52) \<le> snd (snd (trial_measured (sample_of 7 2 0 OutcomeOk)
     (trial_note (sample_of 7 2 0 OutcomeOk) (the (tn_trial started_tuner)))))"
proof -
  let ?t = "the (tn_trial started_tuner)" and ?s = "sample_of 7 2 0 OutcomeOk"
  have t: "tn_trial started_tuner = Some ?t" by (simp add: started_tuner_def)
  have up: "t_incumbent ?t < t_level ?t" by (simp add: started_tuner_def)
  have m: "trial_measured ?s (trial_note ?s ?t) = (OutputCharsPerSecond, 1, 10)"
    by (simp add: started_tuner_def trial_measured_def trial_note_def sample_of_def rate_common_def
        units_per_second_def throughput_def units_add_def units_none_def u64_sat_add_def
        u64_max_def one_second min_interval_small f64_of_nat_def f64_div_def f64_round_small)
  have nf: "s_outcome ?s \<noteq> OutcomeFailed" by (simp add: sample_of_def)
  have fin: "\<not> t_completed (trial_note ?s ?t) < t_window ?t"
    by (simp add: started_tuner_def trial_note_def sample_of_def)
  have v: "trial_verdict ?s (trial_note ?s ?t)"
    using gain_small up by (simp add: trial_verdict_def trial_accepted_def m)
  note end_of = tuner_on_complete_concludes [OF t nf fin]
  have "tn_trial (tuner_on_complete ?s started_tuner) = None"
    unfolding end_of by (simp add: tuner_conclude_Some [where t = "trial_note ?s ?t"])
  moreover have "tn_level (tuner_on_complete ?s started_tuner) = t_level ?t"
    unfolding end_of using v by (simp add: tuner_conclude_Some [where t = "trial_note ?s ?t"])
  then have "tn_level (tuner_on_complete ?s started_tuner) \<noteq> t_incumbent ?t" using up by simp
  ultimately show ?thesis using kept_step_up_gained [OF t up _ _ m] m by simp
qed

text \<open>
  Until the next experiment is due, a tuner without a trial keeps its level, whatever calls
are dispatched and complete and however often it is polled; so a level that was just rejected or
kept is not touched for the whole (doubled) interval.
\<close>

theorem no_experiment_before_due:
  assumes "tn_trial tn = None" and "\<forall>e \<in> set es. polls_before (tn_next_due tn) e"
  shows "tn_level (foldl tuner_step tn es) = tn_level tn \<and> tn_trial (foldl tuner_step tn es) = None"
proof -
  have "tuner_idle (tn_next_due tn) (tn_level tn) tn" using assms(1) by (simp add: tuner_idle_def)
  from tuner_run_idle [OF this assms(2)] show ?thesis by (simp add: tuner_idle_def)
qed

theorem no_experiment_before_due_witness:
  "tn_level (foldl tuner_step (tuner_new 4 0) [TnPoll 899999999999 9 False, TnDispatch 1]) = 1"
proof -
  have "tn_trial (tuner_new 4 0) = None" by (simp add: tuner_new_def)
  moreover have "\<forall>e \<in> set [TnPoll 899999999999 9 False, TnDispatch 1].
      polls_before (tn_next_due (tuner_new 4 0)) e"
    by (simp add: tuner_new_def first_experiment_def from_secs_def)
  ultimately have "tn_level (foldl tuner_step (tuner_new 4 0)
      [TnPoll 899999999999 9 False, TnDispatch 1]) = tn_level (tuner_new 4 0)"
    using no_experiment_before_due by blast
  then show ?thesis by (simp add: tuner_new_def)
qed

text \<open>
  The output of a trial is the saturating sum of what its successful calls reported, and its
completion tokens are known only if every one of them reported them; so the tokens metric is
never computed from a part of the calls.
\<close>

theorem trial_units_sum:
  "foldl units_add units_none ss =
     \<lparr>u_chars = min (\<Sum>s\<leftarrow>ss. s_chars s) u64_max,
      u_tokens = (if \<exists>s \<in> set ss. s_tokens s = None then None
        else Some (min (\<Sum>s\<leftarrow>ss. the (s_tokens s)) u64_max))\<rparr>"
  using units_sum_chars [of ss] units_add_tokens [of units_none 0 ss]
  by (intro units.equality) (simp_all add: units_none_def)

end
