(* ===== verification/Scheduler.thy ===== *)
theory Scheduler
  imports Tuner
begin

text \<open>
  The scheduler of one backend, \<open>State\<close>, \<open>Load\<close>, \<open>Pace\<close>, \<open>Scheduler\<close> and the snapshot types
  of \<open>src/services/scheduler/queue.rs\<close>: the queue of theory \<open>Call_Queue\<close> and the tuner of theory
  \<open>Tuner\<close> under one lock. Each operation is the whole critical section of the method: it
  takes the clock's answer \<open>now\<close> and a state of the caller's gate, and returns its answer and the
  scheduler. \<open>sc_wakes\<close> counts the \<open>notify_waiters\<close> calls and \<open>sc_changes\<close> the announcements on
  the \<open>changes\<close> channel.

  The lemmas show the invariant \<open>sched_wf\<close> of every operation, what a step may start, the
  exactly-once accounting of a finished call and the moving mean of \<open>Pace\<close>.
\<close>

section \<open>Data\<close>

definition max_kinds :: nat where
  "max_kinds = 32"

definition other_kind :: string where
  "other_kind = ''other''"

definition recent_calls :: nat where
  "recent_calls = 64"

record completed_call =
  cc_kind :: string
  cc_subject :: string
  cc_reference :: "string option"
  cc_priority :: priority
  cc_level :: nat
  cc_bucket :: nat
  cc_waited_ms :: nat
  cc_run_ms :: nat
  cc_prompt_tokens :: "nat option"
  cc_completion_tokens :: "nat option"
  cc_output_chars :: nat
  cc_outcome :: call_outcome
  cc_reruns :: nat
  cc_completed_at_ms :: nat

record kind_totals =
  kt_calls :: nat
  kt_failed :: nat
  kt_prompt_tokens :: nat
  kt_completion_tokens :: nat
  kt_calls_without_usage :: nat
  kt_output_chars :: nat
  kt_run_ms :: nat
  kt_waited_ms :: nat

definition kind_totals_default :: kind_totals where
  "kind_totals_default = \<lparr>kt_calls = 0, kt_failed = 0, kt_prompt_tokens = 0,
     kt_completion_tokens = 0, kt_calls_without_usage = 0, kt_output_chars = 0, kt_run_ms = 0,
     kt_waited_ms = 0\<rparr>"

record scheduler =
  sc_backend :: backend_id
  sc_config :: scheduler_config
  sc_started :: instant
  sc_queue :: queue
  sc_tuner :: tuner
  sc_recent :: "completed_call list"
  sc_totals :: "(string \<times> kind_totals) list"
  sc_pace :: nat
  sc_hold :: "instant option"
  sc_wakes :: nat
  sc_changes :: nat

text \<open>\<open>State::totals_for\<close>: the index of the entry, and the list with the entry in it.\<close>

definition totals_for :: "string \<Rightarrow> (string \<times> kind_totals) list \<Rightarrow> nat \<times> (string \<times> kind_totals) list" where
  "totals_for kind totals =
     (case position (\<lambda>e. fst e = kind) totals of
        Some i \<Rightarrow> (i, totals)
      | None \<Rightarrow>
          if length totals < max_kinds
          then (length totals, totals @ [(kind, kind_totals_default)])
          else
            (case position (\<lambda>e. fst e = other_kind) totals of
               Some i \<Rightarrow> (i, totals)
             | None \<Rightarrow> (length totals, totals @ [(other_kind, kind_totals_default)])))"

section \<open>Load and pace\<close>

record load =
  ld_calls :: nat
  ld_waiting :: nat
  ld_level :: nat
  ld_pace_ms :: nat

definition u128_mul :: "nat \<Rightarrow> nat \<Rightarrow> nat" where
  [rust_arith]: "u128_mul a b = (a * b) mod 2 ^ 128"

definition load_start_ms :: "load \<Rightarrow> nat" where
  "load_start_ms l = u128_mul (ld_calls l) (ld_pace_ms l) div max (ld_level l) 1"

definition load_weigh :: "nat \<Rightarrow> nat \<Rightarrow> nat \<Rightarrow> nat" where
  "load_weigh calls pace_ms level = u128_mul (u128_mul calls pace_ms) (max level 1)"

definition is_lighter_than :: "load \<Rightarrow> load \<Rightarrow> bool" where
  "is_lighter_than l other =
     (if ld_calls l = 0 \<and> ld_calls other > 0 then True
      else if ld_calls l > 0 \<and> ld_calls other = 0 then False
      else load_weigh (ld_calls l) (ld_pace_ms l) (ld_level other)
         < load_weigh (ld_calls other) (ld_pace_ms other) (ld_level l))"

definition assumed_call_ms :: nat where
  "assumed_call_ms = 2000"

definition pace_shift :: nat where
  "pace_shift = 3"

definition i64_wrap :: "int \<Rightarrow> int" where
  [rust_arith]: "i64_wrap x = (x + 2 ^ 63) mod 2 ^ 64 - 2 ^ 63"

definition i64_of :: "nat \<Rightarrow> int" where
  [rust_arith]: "i64_of n = int (min n i64_max)"

definition pace_record :: "nat \<Rightarrow> nat \<Rightarrow> nat" where
  "pace_record run_ms mean_ms =
     (let gap = i64_wrap (i64_of run_ms - i64_of mean_ms);
          stride = i64_wrap (gap + 2 ^ (pace_shift - 1)) div 2 ^ pace_shift;
          next_mean = i64_wrap (i64_of mean_ms + stride)
      in max (if next_mean < 0 then 1 else nat next_mean) 1)"

section \<open>Operations\<close>

definition sched_new :: "backend_id \<Rightarrow> scheduler_config \<Rightarrow> instant \<Rightarrow> scheduler" where
  "sched_new backend config now =
     \<lparr>sc_backend = backend, sc_config = config, sc_started = now, sc_queue = queue_empty,
      sc_tuner = tuner_new (cfg_ceiling config) now, sc_recent = [], sc_totals = [],
      sc_pace = assumed_call_ms, sc_hold = None, sc_wakes = 0, sc_changes = 0\<rparr>"

definition sched_load :: "scheduler \<Rightarrow> load" where
  "sched_load s =
     \<lparr>ld_calls = length (q_waiting (sc_queue s)) + length (q_running (sc_queue s)),
      ld_waiting = length (q_waiting (sc_queue s)), ld_level = tn_level (sc_tuner s),
      ld_pace_ms = sc_pace s\<rparr>"

definition sched_changed :: "scheduler \<Rightarrow> scheduler" where
  "sched_changed s = s\<lparr>sc_changes := u64_add (sc_changes s) 1\<rparr>"

definition sched_notify :: "scheduler \<Rightarrow> scheduler" where
  "sched_notify s = s\<lparr>sc_wakes := sc_wakes s + 1\<rparr>"

definition dispatchable :: "gate \<Rightarrow> bool \<Rightarrow> waiter \<Rightarrow> bool" where
  "dispatchable g reserved_held w =
     (let urgent = (effective_priority (w_meta w) = Urgent)
      in if meta_lane (w_meta w) = Reserved \<and> reserved_held \<and> \<not> urgent then False
         else (\<not> gate_paused g \<or> urgent) \<and> \<not> meta_is_stale g (w_meta w))"

definition hold_active :: "instant \<Rightarrow> instant option \<Rightarrow> bool" where
  "hold_active now hold = (case hold of None \<Rightarrow> False | Some until \<Rightarrow> now < until)"

definition sched_step :: "gate \<Rightarrow> instant \<Rightarrow> scheduler \<Rightarrow> scheduler" where
  "sched_step g now s =
     (let q = sc_queue s;
          tn = tuner_poll now (length (q_waiting q) + length (q_running q)) (gate_paused g)
                 (sc_tuner s);
          held = hold_active now (sc_hold s);
          (started, q') = q_dispatch (tn_level tn) (cfg_reserved_from (sc_config s)) now
                 (dispatchable g held) q;
          s' = s\<lparr>sc_queue := q', sc_tuner := fold tuner_on_dispatch started tn,
                 sc_hold := (if held then sc_hold s else None)\<rparr>
      in if started \<noteq> [] then sched_notify s' else s')"

datatype member_placement = MemberRunning nat | MemberWaiting | MemberStale

definition sched_place :: "gate \<Rightarrow> instant \<Rightarrow> nat \<Rightarrow> scheduler \<Rightarrow> member_placement option \<times> scheduler" where
  "sched_place g now i s =
     (case q_running_level i (sc_queue s) of
        Some level \<Rightarrow> (Some (MemberRunning level), s)
      | None \<Rightarrow>
          if \<not> q_is_waiting i (sc_queue s) then (None, s)
          else if (case List.find (\<lambda>w. w_id w = i) (q_waiting (sc_queue s)) of
                     None \<Rightarrow> False | Some w \<Rightarrow> meta_is_stale g (w_meta w))
          then (Some MemberStale, s\<lparr>sc_queue := snd (q_withdraw i (sc_queue s))\<rparr>)
          else
            (let s' = sched_step g now s
             in (Some (case q_running_level i (sc_queue s') of
                         Some level \<Rightarrow> MemberRunning level
                       | None \<Rightarrow> MemberWaiting), s')))"

definition sched_enqueue ::
    "gate \<Rightarrow> instant \<Rightarrow> nat \<Rightarrow> call_meta \<Rightarrow> scheduler \<Rightarrow> (scheduler_error + nat) \<times> nat \<times> scheduler" where
  "sched_enqueue g now next_waiter m s =
     (if length (q_waiting (sc_queue s)) \<ge> cfg_max_waiting (sc_config s)
      then (Inl (SchedQueueFull (sc_backend s) (cfg_max_waiting (sc_config s))), next_waiter, s)
      else
        (let (i, next_waiter', q) = q_push next_waiter m now (sc_queue s);
             s' = sched_step g now (s\<lparr>sc_queue := q\<rparr>)
         in (Inr i, next_waiter', sched_changed s')))"

definition totals_add :: "call_report \<Rightarrow> nat \<Rightarrow> nat \<Rightarrow> kind_totals \<Rightarrow> kind_totals" where
  "totals_add report run_ms waited_ms t =
     \<lparr>kt_calls = u64_add (kt_calls t) 1,
      kt_failed = u64_add (kt_failed t) (if rep_outcome report = OutcomeFailed then 1 else 0),
      kt_prompt_tokens = u64_add (kt_prompt_tokens t)
        (case rep_prompt_tokens report of None \<Rightarrow> 0 | Some n \<Rightarrow> n),
      kt_completion_tokens = u64_add (kt_completion_tokens t)
        (case rep_completion_tokens report of None \<Rightarrow> 0 | Some n \<Rightarrow> n),
      kt_calls_without_usage = u64_add (kt_calls_without_usage t)
        (if rep_prompt_tokens report = None \<and> rep_completion_tokens report = None then 1 else 0),
      kt_output_chars = u64_add (kt_output_chars t) (rep_output_chars report),
      kt_run_ms = u64_add (kt_run_ms t) run_ms,
      kt_waited_ms = u64_add (kt_waited_ms t) waited_ms\<rparr>"

definition totals_record ::
    "string \<Rightarrow> call_report \<Rightarrow> nat \<Rightarrow> nat \<Rightarrow> (string \<times> kind_totals) list \<Rightarrow> (string \<times> kind_totals) list" where
  "totals_record kind report run_ms waited_ms totals =
     (let (i, totals') = totals_for kind totals
      in totals'[i := (fst (totals' ! i), totals_add report run_ms waited_ms (snd (totals' ! i)))])"

definition completed_of :: "runner \<Rightarrow> call_report \<Rightarrow> nat \<Rightarrow> nat \<Rightarrow> completed_call" where
  "completed_of r report run_ms completed_at_ms =
     \<lparr>cc_kind = meta_kind (r_meta r), cc_subject = meta_subject (r_meta r),
      cc_reference = meta_reference (r_meta r), cc_priority = effective_priority (r_meta r),
      cc_level = r_level r, cc_bucket = r_bucket r, cc_waited_ms = millis (r_waited r),
      cc_run_ms = run_ms, cc_prompt_tokens = rep_prompt_tokens report,
      cc_completion_tokens = rep_completion_tokens report,
      cc_output_chars = rep_output_chars report, cc_outcome = rep_outcome report,
      cc_reruns = meta_reruns (r_meta r), cc_completed_at_ms = completed_at_ms\<rparr>"

definition sample_of_call :: "nat \<Rightarrow> runner \<Rightarrow> call_report \<Rightarrow> instant \<Rightarrow> sample" where
  "sample_of_call i r report now =
     \<lparr>s_id = i, s_level = r_level r, s_dispatched = r_started r, s_completed = now,
      s_chars = rep_output_chars report, s_tokens = rep_completion_tokens report,
      s_outcome = rep_outcome report\<rparr>"

definition sched_finish :: "gate \<Rightarrow> instant \<Rightarrow> nat \<Rightarrow> call_report \<Rightarrow> scheduler \<Rightarrow> scheduler" where
  "sched_finish g now i report s =
     (case q_complete i (sc_queue s) of
        None \<Rightarrow> s
      | Some (r, q) \<Rightarrow>
          (let run_ms = millis (now - r_started r);
               s1 = s\<lparr>sc_queue := q,
                      sc_pace := (if rep_outcome report = OutcomeOk
                                  then pace_record run_ms (sc_pace s) else sc_pace s),
                      sc_tuner := tuner_on_complete (sample_of_call i r report now) (sc_tuner s),
                      sc_totals := totals_record (meta_kind (r_meta r)) report run_ms
                                     (millis (r_waited r)) (sc_totals s),
                      sc_recent := push_capped recent_calls (sc_recent s)
                        (completed_of r report run_ms (millis (now - sc_started s)))\<rparr>
           in sched_changed (sched_notify (sched_step g now s1))))"

definition sched_abandon :: "gate \<Rightarrow> instant \<Rightarrow> nat \<Rightarrow> scheduler \<Rightarrow> bool option \<times> scheduler" where
  "sched_abandon g now i s =
     (let (withdrawn, q) = q_withdraw i (sc_queue s); s1 = s\<lparr>sc_queue := q\<rparr>
      in if withdrawn then (Some False, s1)
         else if q_is_running i (sc_queue s1)
         then (Some True, sched_finish g now i (call_report_empty OutcomeCancelled) s1)
         else (None, s1))"

text \<open>The timer \<open>hold_reserved_for\<close> spawns only notifies: \<open>sched_notify\<close> when it fires.\<close>

definition sched_hold_reserved_for :: "instant \<Rightarrow> duration \<Rightarrow> scheduler \<Rightarrow> scheduler" where
  "sched_hold_reserved_for now d s = s\<lparr>sc_hold := Some (now + d)\<rparr>"

definition sched_clear_reserved_hold :: "gate \<Rightarrow> instant \<Rightarrow> scheduler \<Rightarrow> scheduler" where
  "sched_clear_reserved_hold g now s =
     (case sc_hold s of
        None \<Rightarrow> s
      | Some _ \<Rightarrow> sched_changed (sched_notify (sched_step g now (s\<lparr>sc_hold := None\<rparr>))))"

section \<open>The snapshot\<close>

record running_call =
  rc_kind :: string
  rc_subject :: string
  rc_reference :: "string option"
  rc_priority :: priority
  rc_value :: nat
  rc_waited_ms :: nat
  rc_elapsed_ms :: nat
  rc_reruns :: nat

record bucket_snapshot =
  bs_index :: nat
  bs_serves :: string
  bs_call :: "running_call option"

record waiting_call =
  wc_kind :: string
  wc_subject :: string
  wc_reference :: "string option"
  wc_priority :: priority
  wc_value :: nat
  wc_waited_ms :: nat
  wc_reruns :: nat

record scheduler_snapshot =
  ss_backend :: backend_id
  ss_ceiling :: nat
  ss_level :: nat
  ss_pace_ms :: nat
  ss_uptime_ms :: nat
  ss_buckets :: "bucket_snapshot list"
  ss_waiting :: "waiting_call list"
  ss_paused :: bool
  ss_tuner :: tuner_snapshot
  ss_recent :: "completed_call list"
  ss_totals :: "(string \<times> kind_totals) list"

definition running_call_of :: "instant \<Rightarrow> runner \<Rightarrow> running_call" where
  "running_call_of now r =
     \<lparr>rc_kind = meta_kind (r_meta r), rc_subject = meta_subject (r_meta r),
      rc_reference = meta_reference (r_meta r), rc_priority = effective_priority (r_meta r),
      rc_value = r_value r, rc_waited_ms = millis (r_waited r),
      rc_elapsed_ms = millis (now - r_started r), rc_reruns = meta_reruns (r_meta r)\<rparr>"

definition waiting_call_of :: "instant \<Rightarrow> waiter \<Rightarrow> waiting_call" where
  "waiting_call_of now w =
     \<lparr>wc_kind = meta_kind (w_meta w), wc_subject = meta_subject (w_meta w),
      wc_reference = meta_reference (w_meta w), wc_priority = effective_priority (w_meta w),
      wc_value = w_value w, wc_waited_ms = millis (now - w_arrived w),
      wc_reruns = meta_reruns (w_meta w)\<rparr>"

definition bucket_serves :: "nat \<Rightarrow> nat \<Rightarrow> nat \<Rightarrow> string" where
  "bucket_serves level reserved_from b =
     (if level < reserved_from then ''shared''
      else if b = 0 then ''reserved_first'' else ''shared_only'')"

definition sched_snapshot :: "gate \<Rightarrow> instant \<Rightarrow> scheduler \<Rightarrow> scheduler_snapshot" where
  "sched_snapshot g now s =
     (let level = tn_level (sc_tuner s);
          running = q_running (sc_queue s);
          shown = max (foldr max (map (\<lambda>r. r_bucket r + 1) running) 0) level
      in \<lparr>ss_backend = sc_backend s, ss_ceiling = cfg_ceiling (sc_config s), ss_level = level,
          ss_pace_ms = sc_pace s, ss_uptime_ms = millis (now - sc_started s),
          ss_buckets = map (\<lambda>b.
            \<lparr>bs_index = b, bs_serves = bucket_serves level (cfg_reserved_from (sc_config s)) b,
             bs_call = map_option (running_call_of now)
               (List.find (\<lambda>r. r_bucket r = b) running)\<rparr>) [0 ..< shown],
          ss_waiting = map (waiting_call_of now)
            (sort_by (\<lambda>a b. waiter_le b a) (q_waiting (sc_queue s))),
          ss_paused = gate_paused g, ss_tuner = tuner_snapshot_at now (sc_tuner s),
          ss_recent = rev (sc_recent s), ss_totals = sc_totals s\<rparr>)"

section \<open>The effect of a step\<close>

definition step_tuner :: "gate \<Rightarrow> instant \<Rightarrow> scheduler \<Rightarrow> tuner" where
  "step_tuner g now s =
     tuner_poll now (length (q_waiting (sc_queue s)) + length (q_running (sc_queue s)))
       (gate_paused g) (sc_tuner s)"

definition step_dispatch :: "gate \<Rightarrow> instant \<Rightarrow> scheduler \<Rightarrow> nat list \<times> queue" where
  "step_dispatch g now s =
     q_dispatch (tn_level (step_tuner g now s)) (cfg_reserved_from (sc_config s)) now
       (dispatchable g (hold_active now (sc_hold s))) (sc_queue s)"

lemma sched_notify_simps [simp]:
  "sc_backend (sched_notify s) = sc_backend s" "sc_config (sched_notify s) = sc_config s"
  "sc_queue (sched_notify s) = sc_queue s" "sc_tuner (sched_notify s) = sc_tuner s"
  "sc_recent (sched_notify s) = sc_recent s" "sc_totals (sched_notify s) = sc_totals s"
  "sc_pace (sched_notify s) = sc_pace s" "sc_hold (sched_notify s) = sc_hold s"
  "sc_started (sched_notify s) = sc_started s" "sc_changes (sched_notify s) = sc_changes s"
  by (simp_all add: sched_notify_def)

lemma sched_changed_simps [simp]:
  "sc_backend (sched_changed s) = sc_backend s" "sc_config (sched_changed s) = sc_config s"
  "sc_queue (sched_changed s) = sc_queue s" "sc_tuner (sched_changed s) = sc_tuner s"
  "sc_recent (sched_changed s) = sc_recent s" "sc_totals (sched_changed s) = sc_totals s"
  "sc_pace (sched_changed s) = sc_pace s" "sc_hold (sched_changed s) = sc_hold s"
  "sc_started (sched_changed s) = sc_started s" "sc_wakes (sched_changed s) = sc_wakes s"
  by (simp_all add: sched_changed_def)

lemma sched_step_simps [simp]:
  "sc_backend (sched_step g now s) = sc_backend s" "sc_config (sched_step g now s) = sc_config s"
  "sc_queue (sched_step g now s) = snd (step_dispatch g now s)"
  "sc_tuner (sched_step g now s)
    = fold tuner_on_dispatch (fst (step_dispatch g now s)) (step_tuner g now s)"
  "sc_recent (sched_step g now s) = sc_recent s" "sc_totals (sched_step g now s) = sc_totals s"
  "sc_pace (sched_step g now s) = sc_pace s" "sc_started (sched_step g now s) = sc_started s"
  by (simp_all add: sched_step_def step_dispatch_def step_tuner_def Let_def split: prod.splits)

lemma step_tuner_wf: "tuner_wf (sc_tuner s) \<Longrightarrow> tuner_wf (step_tuner g now s)"
  by (simp add: step_tuner_def tuner_poll_wf)

lemma step_tuner_ceiling [simp]: "tn_ceiling (step_tuner g now s) = tn_ceiling (sc_tuner s)"
  by (simp add: step_tuner_def)

lemma step_dispatch_ids:
  "mset (queue_ids (snd (step_dispatch g now s))) = mset (queue_ids (sc_queue s))"
  by (simp add: step_dispatch_def q_dispatch_ids)

lemma step_dispatch_wf:
  "queue_wf (sc_queue s) \<Longrightarrow> queue_wf (snd (step_dispatch g now s))"
  by (simp add: step_dispatch_def q_dispatch_wf)

lemma q_dispatch_waiting_length:
  "length (q_waiting (snd (q_dispatch level reserved_from now eligible q))) \<le> length (q_waiting q)"
  by (rule q_dispatch_keeps [where P = "\<lambda>q'. length (q_waiting q') \<le> length (q_waiting q)"])
    (auto dest: q_next_placement_Some(1))

section \<open>The invariant\<close>

text \<open>\<open>sched_ok\<close> bounds what a scheduler holds; \<open>sched_ids\<close> says that ids do not repeat.\<close>

definition totals_wf :: "(string \<times> kind_totals) list \<Rightarrow> bool" where
  "totals_wf totals \<longleftrightarrow> distinct (map fst totals) \<and>
     (length totals \<le> max_kinds \<or> length totals = max_kinds + 1 \<and> other_kind \<in> fst ` set totals)"

definition sched_ok :: "scheduler \<Rightarrow> bool" where
  "sched_ok s \<longleftrightarrow>
     1 \<le> cfg_ceiling (sc_config s) \<and> cfg_ceiling (sc_config s) \<le> max_ceiling \<and>
     tuner_wf (sc_tuner s) \<and> tn_ceiling (sc_tuner s) = cfg_ceiling (sc_config s) \<and>
     length (q_running (sc_queue s)) \<le> cfg_ceiling (sc_config s) \<and>
     length (sc_recent s) \<le> recent_calls \<and> totals_wf (sc_totals s) \<and> 1 \<le> sc_pace s"

text \<open>At most \<open>n\<close> calls wait beyond \<open>max_waiting\<close>; only a rebalance brings more than \<open>max_waiting\<close>.\<close>

definition waiting_capped :: "nat \<Rightarrow> scheduler \<Rightarrow> bool" where
  "waiting_capped n s \<longleftrightarrow> length (q_waiting (sc_queue s)) \<le> cfg_max_waiting (sc_config s) + n"

definition sched_ids :: "nat \<Rightarrow> scheduler \<Rightarrow> bool" where
  "sched_ids nx s \<longleftrightarrow> queue_wf (sc_queue s) \<and> (\<forall>i \<in> set (queue_ids (sc_queue s)). i < nx)"

lemma sched_ok_signals [simp]:
  "sched_ok (sched_notify s) = sched_ok s" "sched_ok (sched_changed s) = sched_ok s"
  "waiting_capped n (sched_notify s) = waiting_capped n s"
  "waiting_capped n (sched_changed s) = waiting_capped n s"
  "sched_ids nx (sched_notify s) = sched_ids nx s"
  "sched_ids nx (sched_changed s) = sched_ids nx s"
  by (simp_all add: sched_ok_def waiting_capped_def sched_ids_def)

lemma sched_ok_level:
  "sched_ok s \<Longrightarrow> tn_level (sc_tuner s) \<le> cfg_ceiling (sc_config s)"
  by (auto simp: sched_ok_def tuner_wf_def)

lemma sched_step_ok:
  assumes "sched_ok s"
  shows "sched_ok (sched_step g now s)"
proof -
  have wf: "tuner_wf (step_tuner g now s)" using assms by (simp add: sched_ok_def step_tuner_wf)
  then have lv: "tn_level (step_tuner g now s) \<le> cfg_ceiling (sc_config s)"
    using assms by (simp add: tuner_wf_def sched_ok_def)
  have "tn_level (step_tuner g now s) \<le> u32_max"
    using wf by (auto simp: tuner_wf_def)
  from q_dispatch_level [OF this] lv assms
  have "length (q_running (snd (step_dispatch g now s))) \<le> cfg_ceiling (sc_config s)"
    unfolding step_dispatch_def sched_ok_def by (meson max.boundedI order_trans)
  with assms wf show ?thesis by (simp add: sched_ok_def tuner_dispatches_wf)
qed

lemma sched_step_capped: "waiting_capped n s \<Longrightarrow> waiting_capped n (sched_step g now s)"
  by (simp add: waiting_capped_def step_dispatch_def order_trans [OF q_dispatch_waiting_length])

lemma sched_step_ids: "sched_ids nx s \<Longrightarrow> sched_ids nx (sched_step g now s)"
  using mset_eq_setD [OF step_dispatch_ids [of g now s]]
  by (simp add: sched_ids_def step_dispatch_wf)

lemma sched_new_ok:
  "scheduler_config_validate c = Inr () \<Longrightarrow> sched_ok (sched_new b c now)"
proof -
  assume v: "scheduler_config_validate c = Inr ()"
  then have c: "1 \<le> cfg_ceiling c" "cfg_ceiling c \<le> max_ceiling"
    by (auto simp: scheduler_config_validate_def split: if_splits)
  then have "cfg_ceiling c \<le> u32_max" by (simp add: max_ceiling_def u32_max_def)
  from tuner_new_wf [OF this] c show ?thesis
    by (simp add: sched_ok_def sched_new_def totals_wf_def assumed_call_ms_def queue_empty_def
        tuner_new_def)
qed

lemma sched_new_ids: "sched_ids nx (sched_new b c now)"
  by (simp add: sched_ids_def sched_new_def queue_wf_empty) (simp add: queue_ids_def queue_empty_def)

lemma sched_new_capped: "waiting_capped n (sched_new b c now)"
  by (simp add: waiting_capped_def sched_new_def queue_empty_def)

section \<open>Totals\<close>

lemma totals_for_wf:
  assumes "totals_wf totals" and "totals_for kind totals = (i, totals')"
  shows "totals_wf totals'" and "i < length totals'"
    and "fst (totals' ! i) = kind \<or> fst (totals' ! i) = other_kind"
    and "(\<Sum>e\<leftarrow>totals'. kt_calls (snd e)) = (\<Sum>e\<leftarrow>totals. kt_calls (snd e))"
  using assms
  by (auto simp: totals_for_def totals_wf_def position_None image_iff kind_totals_default_def
      nth_append split: option.splits if_splits dest!: position_Some) fastforce

lemma map_fst_totals_update: "i < length ts \<Longrightarrow> map fst (ts[i := (fst (ts ! i), x)]) = map fst ts"
  by (metis list_update_id map_update nth_map fst_conv)

lemma totals_record_wf:
  assumes "totals_wf totals"
  shows "totals_wf (totals_record kind report run_ms waited_ms totals)"
proof -
  obtain i totals' where t: "totals_for kind totals = (i, totals')" by fastforce
  note wf = totals_for_wf [OF assms t]
  have "fst ` set (totals'[i := (fst (totals' ! i), x)]) = fst ` set totals'" for x
    using map_fst_totals_update [OF wf(2)] by (metis list.set_map)
  with wf(1) map_fst_totals_update [OF wf(2)] show ?thesis
    by (simp add: totals_record_def t totals_wf_def)
qed

lemma sum_list_update_nat:
  "i < length xs \<Longrightarrow> f y = f (xs ! i) + k \<Longrightarrow>
     (\<Sum>x\<leftarrow>xs[i := y]. f x) = (\<Sum>x\<leftarrow>xs. f x) + (k :: nat)"
  by (induction xs arbitrary: i) (auto simp: nth_Cons split: nat.splits)

lemma nth_le_sum_list: "i < length xs \<Longrightarrow> (f (xs ! i) :: nat) \<le> (\<Sum>x\<leftarrow>xs. f x)"
  by (intro member_le_sum_list) simp_all

lemma totals_record_calls:
  assumes "totals_wf totals" and "(\<Sum>e\<leftarrow>totals. kt_calls (snd e)) + 1 < 2 ^ 64"
  shows "(\<Sum>e\<leftarrow>totals_record kind report run_ms waited_ms totals. kt_calls (snd e))
    = (\<Sum>e\<leftarrow>totals. kt_calls (snd e)) + 1"
proof -
  obtain i totals' where t: "totals_for kind totals = (i, totals')" by fastforce
  note wf = totals_for_wf [OF assms(1) t]
  have "kt_calls (snd (totals' ! i)) + 1 < 2 ^ 64"
    using nth_le_sum_list [OF wf(2), of "\<lambda>e. kt_calls (snd e)"] wf(4) assms(2) by linarith
  then have "kt_calls (totals_add report run_ms waited_ms (snd (totals' ! i)))
      = kt_calls (snd (totals' ! i)) + 1"
    by (simp add: totals_add_def u64_add_less)
  then show ?thesis
    unfolding totals_record_def t Let_def prod.case wf(4) [symmetric]
    by (intro sum_list_update_nat [OF wf(2)]) simp
qed

section \<open>The pace\<close>

lemma i64_wrap_id: "- (2 ^ 63) \<le> x \<Longrightarrow> x < 2 ^ 63 \<Longrightarrow> i64_wrap x = x"
  by (simp add: i64_wrap_def)

lemma max_one_nat: "max (if y < 0 then 1 else nat y) 1 = nat (max y 1)"
  by (auto simp: max_def)

lemma pace_record_eq:
  assumes "run < 2 ^ 62" and "mean < 2 ^ 62"
  shows "pace_record run mean
    = nat (max (int mean + (int run - int mean + 4) div 8) 1)"
proof -
  let ?gap = "int run - int mean"
  have of: "i64_of run = int run" "i64_of mean = int mean"
    using assms by (simp_all add: i64_of_def i64_max_def)
  have b: "- (2 ^ 62) < ?gap" "?gap < 2 ^ 62" using assms by auto
  have g: "i64_wrap ?gap = ?gap" using b by (intro i64_wrap_id) auto
  have g4: "i64_wrap (?gap + 4) = ?gap + 4" using b by (intro i64_wrap_id) auto
  have s: "- (2 ^ 62) \<le> (?gap + 4) div 8" "(?gap + 4) div 8 \<le> 2 ^ 62" using b by auto
  have n: "i64_wrap (int mean + (?gap + 4) div 8) = int mean + (?gap + 4) div 8"
    using s assms(2) by (intro i64_wrap_id) auto
  have "pace_record run mean =
      max (if int mean + (?gap + 4) div 8 < 0 then 1 else nat (int mean + (?gap + 4) div 8)) 1"
    using g4 n by (simp only: pace_record_def Let_def of g pace_shift_def) simp
  then show ?thesis by (simp only: max_one_nat)
qed

lemma pace_record_pos [simp]: "Suc 0 \<le> pace_record run mean"
  by (simp add: pace_record_def Let_def)

section \<open>Every operation keeps the invariant\<close>

text \<open>The state a finished call leaves before the step that ends \<open>finish\<close>.\<close>

definition finish_folded :: "instant \<Rightarrow> nat \<Rightarrow> call_report \<Rightarrow> runner \<Rightarrow> queue \<Rightarrow> scheduler \<Rightarrow> scheduler" where
  "finish_folded now i report r q s =
     s\<lparr>sc_queue := q,
       sc_pace := (if rep_outcome report = OutcomeOk
                   then pace_record (millis (now - r_started r)) (sc_pace s) else sc_pace s),
       sc_tuner := tuner_on_complete (sample_of_call i r report now) (sc_tuner s),
       sc_totals := totals_record (meta_kind (r_meta r)) report (millis (now - r_started r))
                      (millis (r_waited r)) (sc_totals s),
       sc_recent := push_capped recent_calls (sc_recent s)
         (completed_of r report (millis (now - r_started r)) (millis (now - sc_started s)))\<rparr>"

lemma sched_finish_complete:
  "q_complete i (sc_queue s) = Some (r, q) \<Longrightarrow>
     sched_finish g now i report s
       = sched_changed (sched_notify (sched_step g now (finish_folded now i report r q s)))"
  by (simp only: sched_finish_def finish_folded_def option.case prod.case Let_def)

lemma finish_folded_simps [simp]:
  "sc_queue (finish_folded now i report r q s) = q"
  "sc_config (finish_folded now i report r q s) = sc_config s"
  "sc_totals (finish_folded now i report r q s) = totals_record (meta_kind (r_meta r)) report
     (millis (now - r_started r)) (millis (r_waited r)) (sc_totals s)"
  by (simp_all add: finish_folded_def)

lemma finish_folded_ok:
  assumes "sched_ok s" and "length (q_running q) \<le> length (q_running (sc_queue s))"
  shows "sched_ok (finish_folded now i report r q s)"
  using assms totals_record_wf length_push_capped [of "sc_recent s" recent_calls]
  by (simp add: sched_ok_def finish_folded_def tuner_on_complete_wf recent_calls_def)

lemma sched_finish_absent:
  "\<not> q_is_running i (sc_queue s) \<Longrightarrow> sched_finish g now i report s = s"
  by (simp add: sched_finish_def flip: q_complete_None)

lemma sched_finish_keeps:
  shows "sched_ok s \<Longrightarrow> sched_ok (sched_finish g now i report s)"
    and "waiting_capped n s \<Longrightarrow> waiting_capped n (sched_finish g now i report s)"
    and "sched_ids nx s \<Longrightarrow> sched_ids nx (sched_finish g now i report s)"
proof -
  have "(sched_ok s \<longrightarrow> sched_ok (sched_finish g now i report s)) \<and>
    (waiting_capped n s \<longrightarrow> waiting_capped n (sched_finish g now i report s)) \<and>
    (sched_ids nx s \<longrightarrow> sched_ids nx (sched_finish g now i report s))"
  proof (cases "q_complete i (sc_queue s)")
    case None
    then show ?thesis by (simp add: sched_finish_def)
  next
    case (Some rq)
    obtain r q where rq: "rq = (r, q)" by (cases rq)
    note c = Some [unfolded rq]
    let ?s1 = "finish_folded now i report r q s"
    have len: "length (q_running (sc_queue s)) = Suc (length (q_running q))"
      "length (q_waiting q) = length (q_waiting (sc_queue s))"
      using arg_cong [OF q_complete_Some(3) [OF c], of size] q_complete_Some(4) [OF c] by simp_all
    have "sched_ok s \<Longrightarrow> sched_ok ?s1" using len by (intro finish_folded_ok) simp_all
    moreover have "waiting_capped n s \<Longrightarrow> waiting_capped n ?s1"
      using len by (simp add: waiting_capped_def)
    moreover have "sched_ids nx s \<Longrightarrow> sched_ids nx ?s1"
      using q_complete_wf(1) [OF _ c] q_complete_ids [OF c] by (auto simp: sched_ids_def)
    ultimately show ?thesis
      by (simp add: sched_finish_complete [OF c] sched_step_ok sched_step_capped sched_step_ids)
  qed
  then show "sched_ok s \<Longrightarrow> sched_ok (sched_finish g now i report s)"
    and "waiting_capped n s \<Longrightarrow> waiting_capped n (sched_finish g now i report s)"
    and "sched_ids nx s \<Longrightarrow> sched_ids nx (sched_finish g now i report s)" by blast+
qed

lemma q_push_eval:
  "q_push nx m now q = (nx, u64_add nx 1, q\<lparr>q_waiting := q_waiting q @
     [\<lparr>w_id = nx, w_meta = m, w_value = initial_value (effective_priority m), w_arrived = now\<rparr>]\<rparr>)"
  by (simp add: q_push_def)

lemma sched_enqueue_full:
  "cfg_max_waiting (sc_config s) \<le> length (q_waiting (sc_queue s)) \<Longrightarrow>
     sched_enqueue g now nx m s =
       (Inl (SchedQueueFull (sc_backend s) (cfg_max_waiting (sc_config s))), nx, s)"
  by (simp add: sched_enqueue_def)

lemma sched_enqueue_room:
  "\<not> cfg_max_waiting (sc_config s) \<le> length (q_waiting (sc_queue s)) \<Longrightarrow>
     sched_enqueue g now nx m s =
       (Inr nx, u64_add nx 1, sched_changed (sched_step g now
          (s\<lparr>sc_queue := snd (snd (q_push nx m now (sc_queue s)))\<rparr>)))"
  by (simp add: sched_enqueue_def q_push_eval)

lemma sched_enqueue_keeps:
  assumes "sched_enqueue g now nx m s = (answer, nx', s')"
  shows "sched_ok s \<Longrightarrow> sched_ok s'"
    and "waiting_capped n s \<Longrightarrow> waiting_capped n s'"
    and "sched_ids nx s \<Longrightarrow> nx + 1 < 2 ^ 64 \<Longrightarrow> sched_ids nx' s' \<and> nx' \<le> nx + 1"
proof -
  let ?s = "s\<lparr>sc_queue := snd (snd (q_push nx m now (sc_queue s)))\<rparr>"
  have "(sched_ok s \<longrightarrow> sched_ok s') \<and> (waiting_capped n s \<longrightarrow> waiting_capped n s') \<and>
    (sched_ids nx s \<longrightarrow> nx + 1 < 2 ^ 64 \<longrightarrow> sched_ids nx' s' \<and> nx' \<le> nx + 1)"
  proof (cases "cfg_max_waiting (sc_config s) \<le> length (q_waiting (sc_queue s))")
    case True
    with assms show ?thesis by (auto simp: sched_enqueue_full)
  next
    case False
    with assms have s': "s' = sched_changed (sched_step g now ?s)" and nx': "nx' = u64_add nx 1"
      by (auto simp: sched_enqueue_room)
    have "sched_ok s \<Longrightarrow> sched_ok ?s" by (simp add: sched_ok_def q_push_eval)
    moreover have "waiting_capped n ?s" using False by (simp add: waiting_capped_def q_push_eval)
    moreover have "sched_ids (nx + 1) ?s" if "sched_ids nx s"
      using that q_push_wf(1) [of "sc_queue s" nx m now] by (auto simp: sched_ids_def q_push_eval queue_ids_def ball_Un less_SucI)
    ultimately show ?thesis
      unfolding s' nx'
      by (simp add: sched_step_ok sched_step_capped sched_step_ids u64_add_less)
  qed
  then show "sched_ok s \<Longrightarrow> sched_ok s'" and "waiting_capped n s \<Longrightarrow> waiting_capped n s'"
    and "sched_ids nx s \<Longrightarrow> nx + 1 < 2 ^ 64 \<Longrightarrow> sched_ids nx' s' \<and> nx' \<le> nx + 1" by blast+
qed

lemma sched_withdraw_keeps:
  fixes s :: scheduler and i :: nat
  defines "s' \<equiv> s\<lparr>sc_queue := snd (q_withdraw i (sc_queue s))\<rparr>"
  shows "sched_ok s \<Longrightarrow> sched_ok s'" and "waiting_capped n s \<Longrightarrow> waiting_capped n s'"
    and "sched_ids nx s \<Longrightarrow> sched_ids nx s'"
proof -
  show "sched_ok s \<Longrightarrow> sched_ok s'" by (simp add: s'_def sched_ok_def q_withdraw_def Let_def)
  show "waiting_capped n s \<Longrightarrow> waiting_capped n s'"
    by (simp add: s'_def waiting_capped_def q_withdraw_def Let_def order_trans [OF length_filter_le])
  show "sched_ids nx s \<Longrightarrow> sched_ids nx s'"
    by (auto simp: s'_def sched_ids_def q_withdraw_wf) (auto simp: q_withdraw_def queue_ids_def Let_def)
qed

definition waits_stale :: "gate \<Rightarrow> nat \<Rightarrow> scheduler \<Rightarrow> bool" where
  "waits_stale g i s \<longleftrightarrow>
     (case List.find (\<lambda>w. w_id w = i) (q_waiting (sc_queue s)) of
        None \<Rightarrow> False | Some w \<Rightarrow> meta_is_stale g (w_meta w))"

text \<open>The four ways \<open>place\<close> ends.\<close>

lemma q_running_level_None: "q_running_level i q = None \<longleftrightarrow> \<not> q_is_running i q"
  by (auto simp: q_running_level_def q_is_running_def find_None_iff)

lemma sched_place_cases:
  obtains (running) level where "q_running_level i (sc_queue s) = Some level"
      "sched_place g now i s = (Some (MemberRunning level), s)"
  | (absent) "\<not> q_is_running i (sc_queue s)" "\<not> q_is_waiting i (sc_queue s)"
      "sched_place g now i s = (None, s)"
  | (stale) "\<not> q_is_running i (sc_queue s)" "q_is_waiting i (sc_queue s)" "waits_stale g i s"
      "sched_place g now i s
        = (Some MemberStale, s\<lparr>sc_queue := snd (q_withdraw i (sc_queue s))\<rparr>)"
  | (stepped) "\<not> q_is_running i (sc_queue s)" "q_is_waiting i (sc_queue s)"
      "\<not> waits_stale g i s"
      "sched_place g now i s =
        (Some (case q_running_level i (sc_queue (sched_step g now s)) of
                 Some level \<Rightarrow> MemberRunning level | None \<Rightarrow> MemberWaiting),
         sched_step g now s)"
proof (cases "q_running_level i (sc_queue s)")
  case (Some level)
  then show ?thesis by (intro running [of level]) (simp_all add: sched_place_def)
next
  case None
  note nr = None [unfolded q_running_level_None]
  show ?thesis
  proof (cases "q_is_waiting i (sc_queue s)")
    case False
    with None show ?thesis by (intro absent [OF nr]) (simp_all add: sched_place_def)
  next
    case w: True
    show ?thesis
    proof (cases "waits_stale g i s")
      case True
      with None w show ?thesis
        by (intro stale [OF nr w]) (simp_all only: sched_place_def waits_stale_def option.case if_True not_True_eq_False if_False)
    next
      case False
      with None w show ?thesis
        by (intro stepped [OF nr w]) (simp_all add: sched_place_def waits_stale_def Let_def)
    qed
  qed
qed

lemma sched_place_keeps:
  shows "sched_ok s \<Longrightarrow> sched_ok (snd (sched_place g now i s))"
    and "waiting_capped n s \<Longrightarrow> waiting_capped n (snd (sched_place g now i s))"
    and "sched_ids nx s \<Longrightarrow> sched_ids nx (snd (sched_place g now i s))"
  by (cases rule: sched_place_cases [of i s g now];
      simp add: sched_withdraw_keeps sched_step_ok sched_step_capped sched_step_ids
        del: sched_step_simps)+

lemma q_withdraw_same: "\<not> q_is_waiting i q \<Longrightarrow> snd (q_withdraw i q) = q"
  by (simp add: q_withdraw_def q_is_waiting_def filter_id_conv)

lemma sched_abandon_cases:
  obtains (withdrawn) "q_is_waiting i (sc_queue s)"
      "sched_abandon g now i s
        = (Some False, s\<lparr>sc_queue := snd (q_withdraw i (sc_queue s))\<rparr>)"
  | (cancelled) "\<not> q_is_waiting i (sc_queue s)" "q_is_running i (sc_queue s)"
      "sched_abandon g now i s
        = (Some True, sched_finish g now i (call_report_empty OutcomeCancelled) s)"
  | (absent) "\<not> q_is_waiting i (sc_queue s)" "\<not> q_is_running i (sc_queue s)"
      "sched_abandon g now i s = (None, s)"
proof (cases "q_is_waiting i (sc_queue s)")
  case True
  then show ?thesis
    using q_withdraw_iff [of i "sc_queue s"]
    by (cases "q_withdraw i (sc_queue s)")
      (intro withdrawn, simp_all add: sched_abandon_def Let_def)
next
  case False
  then have "q_withdraw i (sc_queue s) = (False, sc_queue s)"
    using q_withdraw_iff [of i "sc_queue s"] q_withdraw_same [of i "sc_queue s"]
    by (metis prod.collapse)
  then have "sched_abandon g now i s =
    (if q_is_running i (sc_queue s)
     then (Some True, sched_finish g now i (call_report_empty OutcomeCancelled) s)
     else (None, s))"
    by (simp add: sched_abandon_def)
  with False cancelled absent show ?thesis by (cases "q_is_running i (sc_queue s)") auto
qed

lemma sched_abandon_keeps:
  shows "sched_ok s \<Longrightarrow> sched_ok (snd (sched_abandon g now i s))"
    and "waiting_capped n s \<Longrightarrow> waiting_capped n (snd (sched_abandon g now i s))"
    and "sched_ids nx s \<Longrightarrow> sched_ids nx (snd (sched_abandon g now i s))"
  by (cases rule: sched_abandon_cases [of i s g now];
      simp add: sched_withdraw_keeps sched_finish_keeps)+

lemma sched_hold_keeps [simp]:
  "sched_ok (sched_hold_reserved_for now d s) = sched_ok s"
  "waiting_capped n (sched_hold_reserved_for now d s) = waiting_capped n s"
  "sched_ids nx (sched_hold_reserved_for now d s) = sched_ids nx s"
  by (simp_all add: sched_hold_reserved_for_def sched_ok_def waiting_capped_def sched_ids_def)

lemma sched_clear_keeps:
  shows "sched_ok s \<Longrightarrow> sched_ok (sched_clear_reserved_hold g now s)"
    and "waiting_capped n s \<Longrightarrow> waiting_capped n (sched_clear_reserved_hold g now s)"
    and "sched_ids nx s \<Longrightarrow> sched_ids nx (sched_clear_reserved_hold g now s)"
proof -
  have "sched_ok (s\<lparr>sc_hold := None\<rparr>) = sched_ok s"
    "waiting_capped n (s\<lparr>sc_hold := None\<rparr>) = waiting_capped n s"
    "sched_ids nx (s\<lparr>sc_hold := None\<rparr>) = sched_ids nx s"
    by (simp_all add: sched_ok_def waiting_capped_def sched_ids_def)
  then show "sched_ok s \<Longrightarrow> sched_ok (sched_clear_reserved_hold g now s)"
    and "waiting_capped n s \<Longrightarrow> waiting_capped n (sched_clear_reserved_hold g now s)"
    and "sched_ids nx s \<Longrightarrow> sched_ids nx (sched_clear_reserved_hold g now s)"
    by (simp_all add: sched_clear_reserved_hold_def sched_step_ok sched_step_capped sched_step_ids
        split: option.split)
qed

lemma sched_enqueue_keeps':
  shows "sched_ok s \<Longrightarrow> sched_ok (snd (snd (sched_enqueue g now nx m s)))"
    and "waiting_capped n s \<Longrightarrow> waiting_capped n (snd (snd (sched_enqueue g now nx m s)))"
    and "sched_ids nx s \<Longrightarrow> nx + 1 < 2 ^ 64 \<Longrightarrow>
      sched_ids (fst (snd (sched_enqueue g now nx m s))) (snd (snd (sched_enqueue g now nx m s))) \<and>
      fst (snd (sched_enqueue g now nx m s)) \<le> nx + 1"
  using sched_enqueue_keeps [of g now nx m s] by (metis prod.collapse)+

lemmas sched_keeps = sched_place_keeps sched_abandon_keeps sched_finish_keeps sched_clear_keeps
  sched_enqueue_keeps'

section \<open>The census of calls\<close>

text \<open>\<open>sched_census\<close> counts the calls waiting, running and completed by the per-kind totals.\<close>

definition sched_census :: "scheduler \<Rightarrow> nat" where
  "sched_census s = length (queue_ids (sc_queue s)) + (\<Sum>e\<leftarrow>sc_totals s. kt_calls (snd e))"

lemma queue_ids_length: "length (queue_ids q) = length (q_waiting q) + length (q_running q)"
  by (simp add: queue_ids_def)

lemma census_signals [simp]:
  "sched_census (sched_notify s) = sched_census s" "sched_census (sched_changed s) = sched_census s"
  by (simp_all add: sched_census_def)

lemma census_step [simp]: "sched_census (sched_step g now s) = sched_census s"
  using arg_cong [OF step_dispatch_ids [of g now s], of size] by (simp add: sched_census_def)

lemma filter_unique_key: "distinct (map f xs) \<Longrightarrow> x \<in> set xs \<Longrightarrow> filter (\<lambda>y. f y = f x) xs = [x]"
proof (induction xs)
  case (Cons y ys)
  show ?case
  proof (cases "x = y")
    case True
    with Cons.prems have "filter (\<lambda>v. f v = f x) ys = []" by (auto simp: filter_empty_conv image_iff)
    with True show ?thesis by simp
  next
    case False
    with Cons show ?thesis by auto
  qed
qed simp

lemma q_withdraw_length:
  assumes "queue_wf q" and "q_is_waiting i q"
  shows "length (queue_ids (snd (q_withdraw i q))) + 1 = length (queue_ids q)"
proof -
  from assms(2) obtain w where w: "w \<in> set (q_waiting q)" "w_id w = i"
    by (auto simp: q_is_waiting_def)
  have "distinct (map w_id (q_waiting q))" using assms(1) by (simp add: queue_wf_def queue_ids_def)
  from filter_unique_key [OF this w(1)] w(2)
  have "filter (\<lambda>v. w_id v = i) (q_waiting q) = [w]" by simp
  then show ?thesis
    using sum_length_filter_compl [of "\<lambda>v. w_id v = i" "q_waiting q"]
    by (simp add: queue_ids_length q_withdraw_def Let_def)
qed

lemma census_withdraw:
  assumes "queue_wf (sc_queue s)" and "q_is_waiting i (sc_queue s)"
  shows "sched_census (s\<lparr>sc_queue := snd (q_withdraw i (sc_queue s))\<rparr>) + 1 = sched_census s"
  using q_withdraw_length [OF assms] by (simp add: sched_census_def)

lemma census_finish:
  assumes "sched_ok s" and "sched_census s < 2 ^ 64"
  shows "sched_census (sched_finish g now i report s) = sched_census s"
proof (cases "q_complete i (sc_queue s)")
  case None
  then show ?thesis by (simp add: sched_finish_def)
next
  case (Some rq)
  obtain r q where rq: "rq = (r, q)" by (cases rq)
  note c = Some [unfolded rq]
  have len: "length (queue_ids (sc_queue s)) = Suc (length (queue_ids q))"
    using arg_cong [OF q_complete_Some(3) [OF c], of size] q_complete_Some(4) [OF c]
    by (simp add: queue_ids_length)
  have "(\<Sum>e\<leftarrow>sc_totals s. kt_calls (snd e)) + 1 < 2 ^ 64"
    using assms(2) len by (simp add: sched_census_def)
  moreover have "totals_wf (sc_totals s)" using assms(1) by (simp add: sched_ok_def)
  ultimately show ?thesis
    by (simp add: sched_finish_complete [OF c] len totals_record_calls)
      (simp add: sched_census_def totals_record_calls len)
qed

lemma census_enqueue:
  "sched_census (snd (snd (sched_enqueue g now nx m s))) =
     sched_census s + (case fst (sched_enqueue g now nx m s) of Inl _ \<Rightarrow> 0 | Inr _ \<Rightarrow> 1)"
  by (cases "cfg_max_waiting (sc_config s) \<le> length (q_waiting (sc_queue s))")
    (simp_all add: sched_enqueue_full sched_enqueue_room del: sched_step_simps,
      simp add: sched_census_def queue_ids_length q_push_eval)

lemma census_place:
  "queue_wf (sc_queue s) \<Longrightarrow> sched_census (snd (sched_place g now i s)) +
     (if fst (sched_place g now i s) = Some MemberStale then 1 else 0) = sched_census s"
  by (cases rule: sched_place_cases [of i s g now])
    (simp_all add: census_withdraw [simplified] del: sched_step_simps split: option.split)

lemma census_abandon:
  "queue_wf (sc_queue s) \<Longrightarrow> sched_ok s \<Longrightarrow> sched_census s < 2 ^ 64 \<Longrightarrow>
     sched_census (snd (sched_abandon g now i s)) +
     (if fst (sched_abandon g now i s) = Some False then 1 else 0) = sched_census s"
  by (cases rule: sched_abandon_cases [of i s g now])
    (simp_all add: census_withdraw [simplified] census_finish)

lemma census_hold: "sched_census (sched_hold_reserved_for now d s) = sched_census s"
  by (simp add: sched_hold_reserved_for_def sched_census_def)

lemma census_clear: "sched_census (sched_clear_reserved_hold g now s) = sched_census s"
proof -
  have "sched_census (s\<lparr>sc_hold := None\<rparr>) = sched_census s" by (simp add: sched_census_def)
  then show ?thesis
    by (simp add: sched_clear_reserved_hold_def del: sched_step_simps split: option.split)
qed

section \<open>What a step starts\<close>

lemma step_starts:
  assumes "r \<in> set (q_running (snd (step_dispatch g now s)))" and "r \<notin> set (q_running (sc_queue s))"
  shows "\<exists>w \<in> set (q_waiting (sc_queue s)). dispatchable g (hold_active now (sc_hold s)) w \<and>
    r = start_runner w (r_bucket r) (tn_level (step_tuner g now s)) now"
proof -
  obtain news where "q_running (snd (step_dispatch g now s)) = q_running (sc_queue s) @ news"
    "\<forall>r \<in> set news. started_by (tn_level (step_tuner g now s)) (cfg_reserved_from (sc_config s)) now
       (dispatchable g (hold_active now (sc_hold s))) (sc_queue s) r"
    unfolding step_dispatch_def using q_dispatch_appends by blast
  with assms show ?thesis unfolding started_by_def by auto
qed

lemma q_running_level_Some: "q_running_level i q = Some level \<Longrightarrow> \<exists>r \<in> set (q_running q). r_id r = i \<and> r_level r = level"
  by (auto simp: q_running_level_def dest!: find_Some_D)

lemma q_waiting_or_running: "i \<in> set (queue_ids q) \<longleftrightarrow> q_is_waiting i q \<or> q_is_running i q"
  by (auto simp: queue_ids_def q_is_waiting_def q_is_running_def)

lemma q_waiting_unique:
  assumes "queue_wf q" and "w \<in> set (q_waiting q)"
  shows "List.find (\<lambda>v. w_id v = w_id w) (q_waiting q) = Some w"
proof -
  have d: "distinct (map w_id (q_waiting q))" using assms(1) by (simp add: queue_wf_def queue_ids_def)
  obtain v where v: "List.find (\<lambda>v. w_id v = w_id w) (q_waiting q) = Some v"
    using assms(2) by (cases "List.find (\<lambda>v. w_id v = w_id w) (q_waiting q)") (auto simp: find_None_iff)
  from find_Some_D [OF v] have "v \<in> set (q_waiting q)" "w_id v = w_id w" by auto
  with d assms(2) have "v = w" by (simp add: distinct_map inj_on_def)
  with v show ?thesis by simp
qed

lemma sched_place_spec:
  assumes "queue_wf (sc_queue s)"
  shows "case fst (sched_place g now i s) of
      None \<Rightarrow> i \<notin> set (queue_ids (sc_queue s)) \<and> snd (sched_place g now i s) = s
    | Some (MemberRunning level) \<Rightarrow>
        (\<exists>r \<in> set (q_running (sc_queue (snd (sched_place g now i s)))).
           r_id r = i \<and> r_level r = level) \<and>
        (q_is_running i (sc_queue s) \<longrightarrow> snd (sched_place g now i s) = s)
    | Some MemberWaiting \<Rightarrow> q_is_waiting i (sc_queue (snd (sched_place g now i s)))
    | Some MemberStale \<Rightarrow>
        (\<exists>w \<in> set (q_waiting (sc_queue s)). w_id w = i \<and> meta_is_stale g (w_meta w)) \<and>
        i \<notin> set (queue_ids (sc_queue (snd (sched_place g now i s))))"
proof (cases rule: sched_place_cases [of i s g now])
  case (running level)
  then show ?thesis using q_running_level_Some [OF running(1)] by auto
next
  case absent
  then show ?thesis by (simp add: q_waiting_or_running)
next
  case stale
  from stale(3) have "\<exists>w \<in> set (q_waiting (sc_queue s)). w_id w = i \<and> meta_is_stale g (w_meta w)"
    by (auto simp: waits_stale_def split: option.splits dest!: find_Some_D)
  moreover have "\<not> q_is_running i (snd (q_withdraw i (sc_queue s)))"
    using stale(1) by (simp add: q_is_running_def q_withdraw_def Let_def)
  ultimately show ?thesis by (simp add: stale(4) q_waiting_or_running q_withdraw_gone)
next
  case stepped
  let ?q = "snd (step_dispatch g now s)"
  have "i \<in> set (queue_ids ?q)"
    using stepped(2) mset_eq_setD [OF step_dispatch_ids [of g now s]] by (simp add: q_waiting_or_running)
  then have either: "q_is_waiting i ?q \<or> q_is_running i ?q" by (simp add: q_waiting_or_running)
  show ?thesis
  proof (cases "q_running_level i ?q")
    case None
    then have "q_is_waiting i ?q" using either q_running_level_None by blast
    then show ?thesis by (simp add: stepped(4) None)
  next
    case (Some level)
    then show ?thesis using stepped(1) q_running_level_Some [OF Some] by (simp add: stepped(4))
  qed
qed

lemma step_keeps_or_starts:
  assumes "w \<in> set (q_waiting (sc_queue s))"
  shows "w \<in> set (q_waiting (snd (step_dispatch g now s))) \<or>
    q_is_running (w_id w) (snd (step_dispatch g now s))"
  unfolding step_dispatch_def
proof (rule q_dispatch_keeps [where P = "\<lambda>q. w \<in> set (q_waiting q) \<or> q_is_running (w_id w) q"])
  show "w \<in> set (q_waiting (sc_queue s)) \<or> q_is_running (w_id w) (sc_queue s)" using assms by simp
next
  fix q i b
  assume IH: "w \<in> set (q_waiting q) \<or> q_is_running (w_id w) q"
    and pl: "q_next_placement (tn_level (step_tuner g now s)) (cfg_reserved_from (sc_config s))
      (dispatchable g (hold_active now (sc_hold s))) q = Some (i, b)"
  from set_remove_at_eq [OF q_next_placement_Some(1) [OF pl]] IH
  show "w \<in> set (q_waiting (q_start (tn_level (step_tuner g now s)) now i b q)) \<or>
    q_is_running (w_id w) (q_start (tn_level (step_tuner g now s)) now i b q)"
    by (auto simp: q_is_running_def)
qed

section \<open>Properties\<close>

definition demo_config :: scheduler_config where
  "demo_config = \<lparr>cfg_ceiling = 2, cfg_max_waiting = 2, cfg_reserved_from = 4\<rparr>"

definition demo_call :: call_meta where
  "demo_call = call_meta_new ''chat'' Low ''s''"

text \<open>
C6: A step starts only what the gate allows: every call it starts was waiting, its task is not
stale, it is urgent if the gate is paused, it is urgent if it is a reserved call while the
reserved lane is held, and it starts now under the level in force.
\<close>

theorem step_starts_only_allowed_calls:
  assumes "r \<in> set (q_running (sc_queue (sched_step g now s)))"
    and "r \<notin> set (q_running (sc_queue s))"
  shows "(\<exists>w \<in> set (q_waiting (sc_queue s)). w_id w = r_id r \<and> w_meta w = r_meta r) \<and>
    \<not> meta_is_stale g (r_meta r) \<and>
    (gate_paused g \<longrightarrow> effective_priority (r_meta r) = Urgent) \<and>
    (meta_lane (r_meta r) = Reserved \<and> hold_active now (sc_hold s) \<longrightarrow>
       effective_priority (r_meta r) = Urgent) \<and>
    r_started r = now \<and> r_level r = tn_level (sc_tuner (sched_step g now s))"
proof -
  from step_starts [of r g now s] assms obtain w
    where w: "w \<in> set (q_waiting (sc_queue s))" "dispatchable g (hold_active now (sc_hold s)) w"
    and r: "r = start_runner w (r_bucket r) (tn_level (step_tuner g now s)) now" by auto
  have sel: "r_id r = w_id w" "r_meta r = w_meta w" "r_started r = now"
    "r_level r = tn_level (step_tuner g now s)" by (subst r, simp)+
  from w show ?thesis unfolding sel by (auto simp: dispatchable_def Let_def split: if_splits)
qed

theorem step_starts_only_allowed_calls_witness:
  "\<not> meta_is_stale open_gate demo_call"
proof -
  let ?w = "\<lparr>w_id = 0, w_meta = demo_call, w_value = 1, w_arrived = 0\<rparr>"
  let ?s = "(sched_new ''b'' demo_config 0)\<lparr>sc_queue := \<lparr>q_waiting = [?w], q_running = []\<rparr>\<rparr>"
  let ?r = "start_runner ?w 0 1 5"
  have "step_tuner open_gate 5 ?s = tuner_new 2 0"
    by (simp add: step_tuner_def sched_new_def demo_config_def tuner_poll_def tuner_new_def
        first_experiment_def from_secs_def)
  then have "q_running (sc_queue (sched_step open_gate 5 ?s)) = [?r]"
    by (simp add: step_dispatch_def sched_new_def demo_config_def tuner_new_def hold_active_def
        dispatchable_def open_gate_def meta_is_stale_def demo_call_def queue_eval)
  then show ?thesis
    using step_starts_only_allowed_calls [of ?r open_gate 5 ?s] by simp
qed


text \<open>
\<open>place\<close> decides a call's fate under one lock: a running call is answered as running and
nothing changes (it can no longer be withdrawn); a call that waits with a stale task is withdrawn
and is then nowhere in the scheduler; any other waiting call is answered as running or waiting
exactly as the step that follows leaves it; and a call the scheduler does not hold is answered
\<open>None\<close> and nothing changes.
\<close>

theorem place_decides_under_one_lock:
  assumes "queue_wf (sc_queue s)"
  shows "case fst (sched_place g now i s) of
      None \<Rightarrow> i \<notin> set (queue_ids (sc_queue s)) \<and> snd (sched_place g now i s) = s
    | Some (MemberRunning level) \<Rightarrow>
        (\<exists>r \<in> set (q_running (sc_queue (snd (sched_place g now i s)))).
           r_id r = i \<and> r_level r = level) \<and>
        (q_is_running i (sc_queue s) \<longrightarrow> snd (sched_place g now i s) = s)
    | Some MemberWaiting \<Rightarrow> q_is_waiting i (sc_queue (snd (sched_place g now i s)))
    | Some MemberStale \<Rightarrow>
        (\<exists>w \<in> set (q_waiting (sc_queue s)). w_id w = i \<and> meta_is_stale g (w_meta w)) \<and>
        i \<notin> set (queue_ids (sc_queue (snd (sched_place g now i s))))"
  using sched_place_spec [OF assms, of i g now] .

theorem place_decides_under_one_lock_witness:
  "4 \<notin> set (queue_ids (sc_queue (sched_new ''b'' demo_config 0)))"
proof -
  have "queue_wf (sc_queue (sched_new ''b'' demo_config 0))" by (simp add: sched_new_def queue_wf_empty)
  moreover have "fst (sched_place open_gate 5 4 (sched_new ''b'' demo_config 0)) = None"
    by (simp add: sched_place_def sched_new_def queue_empty_def q_running_level_def q_is_waiting_def)
  ultimately show ?thesis
    using place_decides_under_one_lock
      [where s = "sched_new ''b'' demo_config 0" and g = open_gate and now = 5 and i = 4] by simp
qed

text \<open>
  One finished call moves the pace an eighth of the way towards its duration and never past
  it: the new mean lies between the old mean and the duration (or is one millisecond). It stays
  where it is exactly when the duration is at most 4 ms below or 3 ms above it.
\<close>

theorem pace_moves_towards_the_call:
  assumes "run < 2 ^ 62" and "1 \<le> mean" "mean < 2 ^ 62"
  shows "min mean run \<le> pace_record run mean \<and> pace_record run mean \<le> max mean (max run 1) \<and>
    (pace_record run mean = mean \<longleftrightarrow> mean \<le> run + 4 \<and> run \<le> mean + 3)"
proof -
  let ?d = "(int run - int mean + 4) div 8"
  have d: "8 * ?d \<le> int run - int mean + 4" "int run - int mean + 4 < 8 * ?d + 8" by presburger+
  show ?thesis unfolding pace_record_eq [OF assms(1,3)] using d assms(2) by (auto simp: max_def min_def)
qed

theorem pace_moves_towards_the_call_witness: "pace_record 2003 2000 = 2000"
  using pace_moves_towards_the_call [of 2003 2000] by simp

end
