(* ===== verification/Sched_Pool.thy ===== *)
theory Sched_Pool
  imports Scheduler
begin

text \<open>
  The schedulers of one pool: \<open>SchedulerPool\<close>, \<open>Placement\<close>, \<open>move_waiting\<close>,
  \<open>lowers_the_worst\<close>, \<open>Scheduler::await_placement\<close>, \<open>PendingCall\<close> and \<open>CallSlot\<close> of
  \<open>src/services/scheduler/queue.rs\<close>.

  Schedulers are shared mutable objects, so they live in a store: a handle is an index of
  \<open>pl_store\<close>, and \<open>None\<close> there says that the last strong reference is gone (\<open>Weak::upgrade\<close>
  fails). \<open>pl_members\<close> lists the handles the pool was given and \<open>pl_next\<close> is the process-wide id
  counter.

  What the code does under one lock is one event (\<open>pool_event\<close>); a move holds two locks and is one
  event too. A poll of \<open>await_placement\<close> and the drop of a \<open>PendingCall\<close> take the lock of one member
  after the other: before each of their locks any events of the others may run (\<open>lock_turn\<close>).

  The lemmas show that over any interleaving a call id is held by at most one scheduler (\<open>pool_wf\<close>),
  what every scheduler accounts for when calls move, that a scan finds a call that no rebalance
  moves meanwhile, and that it can miss one that moves.
\<close>

unbundle bit_operations_syntax

section \<open>The pool\<close>

record pool =
  pl_store :: "scheduler option list"
  pl_members :: "nat list"
  pl_next :: nat

definition pool_get :: "pool \<Rightarrow> nat \<Rightarrow> scheduler option" where
  "pool_get p h = (if h < length (pl_store p) then pl_store p ! h else None)"

definition pool_put :: "nat \<Rightarrow> scheduler \<Rightarrow> pool \<Rightarrow> pool" where
  "pool_put h s p = p\<lparr>pl_store := (pl_store p)[h := Some s]\<rparr>"

definition pool_insert :: "nat \<Rightarrow> pool \<Rightarrow> nat option \<times> pool" where
  "pool_insert h p =
     (let i = u32_of (length (pl_members p))
      in (if i < 64 then Some i else None, p\<lparr>pl_members := pl_members p @ [h]\<rparr>))"

section \<open>Moving a waiting call\<close>

definition movable :: "gate \<Rightarrow> 64 word \<Rightarrow> waiter \<Rightarrow> bool" where
  "movable g target_bit w \<longleftrightarrow>
     meta_allowed (w_meta w) AND target_bit \<noteq> 0 \<and> \<not> meta_is_stale g (w_meta w)"

text \<open>
  \<open>move_waiting\<close> on the two schedulers; the code locks both, so they are different ones.
\<close>

definition move_waiting ::
    "gate \<Rightarrow> gate \<Rightarrow> instant \<Rightarrow> 64 word \<Rightarrow> scheduler \<Rightarrow> scheduler \<Rightarrow> bool \<times> scheduler \<times> scheduler" where
  "move_waiting source_gate target_gate now target_bit source target =
     (case q_best (movable source_gate target_bit) (sc_queue source) of
        None \<Rightarrow> (False, source, target)
      | Some i \<Rightarrow>
          (let w = q_waiting (sc_queue source) ! i;
               source' = source\<lparr>sc_queue := (sc_queue source)
                           \<lparr>q_waiting := remove_at i (q_waiting (sc_queue source))\<rparr>\<rparr>;
               target' = target\<lparr>sc_queue := (sc_queue target)
                           \<lparr>q_waiting := q_waiting (sc_queue target) @ [w]\<rparr>\<rparr>
           in (True, sched_changed source',
               sched_changed (sched_notify (sched_step target_gate now target')))))"

definition load_start_with :: "load \<Rightarrow> nat \<Rightarrow> nat" where
  "load_start_with l calls = u128_mul calls (ld_pace_ms l) div max (ld_level l) 1"

definition worst_start :: "nat list \<Rightarrow> nat" where
  "worst_start xs = foldr max xs 0"

definition calls_after_move :: "nat \<Rightarrow> nat \<Rightarrow> nat \<Rightarrow> load \<Rightarrow> nat" where
  "calls_after_move source target k l =
     (if k = source then ld_calls l - 1
      else if k = target then u64_sat_add (ld_calls l) 1 else ld_calls l)"

definition lowers_the_worst :: "load list \<Rightarrow> nat \<Rightarrow> nat \<Rightarrow> bool" where
  "lowers_the_worst loads source target =
     (if ld_calls (loads ! target) = 0 then ld_calls (loads ! source) > 0
      else
        (let worst_now = worst_start (map load_start_ms loads);
             worst_after = worst_start (map (\<lambda>(k, l).
               load_start_with l (calls_after_move source target k l)) (List.enumerate 0 loads))
         in worst_after < worst_now))"

section \<open>The future of a queued call, and its slot\<close>

record pending_call =
  pc_home :: nat
  pc_id :: nat
  pc_armed :: bool

record call_slot =
  cs_home :: nat
  cs_id :: nat
  cs_level :: nat
  cs_done :: bool

datatype poll_result =
    PollPending
  | PollReady "scheduler_error + call_slot"

definition pool_update :: "nat \<Rightarrow> (scheduler \<Rightarrow> scheduler) \<Rightarrow> pool \<Rightarrow> pool" where
  "pool_update h f p = (case pool_get p h of None \<Rightarrow> p | Some s \<Rightarrow> pool_put h (f s) p)"

definition slot_finish :: "(nat \<Rightarrow> gate) \<Rightarrow> instant \<Rightarrow> call_report \<Rightarrow> call_slot \<Rightarrow> pool \<Rightarrow> call_slot \<times> pool" where
  "slot_finish gt now report slot p =
     (slot\<lparr>cs_done := True\<rparr>,
      pool_update (cs_home slot) (sched_finish (gt (cs_home slot)) now (cs_id slot) report) p)"

definition slot_drop :: "(nat \<Rightarrow> gate) \<Rightarrow> instant \<Rightarrow> call_slot \<Rightarrow> pool \<Rightarrow> pool" where
  "slot_drop gt now slot p =
     (if cs_done slot then p
      else pool_update (cs_home slot)
        (sched_finish (gt (cs_home slot)) now (cs_id slot) (call_report_empty OutcomeCancelled)) p)"

section \<open>Events of a pool\<close>

text \<open>
  The critical sections of the calls and of the rebalancer, in the order the locks serialise them.
  A move between a scheduler and itself never returns in the code (it locks one mutex twice), so it
  is no step.
\<close>

datatype pool_event =
    PeEnqueue instant nat call_meta
  | PePlace instant nat nat
  | PeAbandon instant nat nat
  | PeChanged nat
  | PeFinish instant call_report call_slot
  | PeSlotDrop instant call_slot
  | PeMove instant nat nat "64 word"
  | PeHold nat instant duration
  | PeClear nat instant

definition pool_enqueue ::
    "(nat \<Rightarrow> gate) \<Rightarrow> instant \<Rightarrow> nat \<Rightarrow> call_meta \<Rightarrow> pool \<Rightarrow> (scheduler_error + nat) option \<times> pool" where
  "pool_enqueue gt now h m p =
     (case pool_get p h of
        None \<Rightarrow> (None, p)
      | Some s \<Rightarrow>
          (let (answer, nx, s') = sched_enqueue (gt h) now (pl_next p) m s
           in (Some answer, (pool_put h s' p)\<lparr>pl_next := nx\<rparr>)))"

definition pool_move ::
    "(nat \<Rightarrow> gate) \<Rightarrow> instant \<Rightarrow> nat \<Rightarrow> nat \<Rightarrow> 64 word \<Rightarrow> pool \<Rightarrow> bool \<times> pool" where
  "pool_move gt now source target target_bit p =
     (case (pool_get p source, pool_get p target) of
        (Some s, Some t) \<Rightarrow>
          (if source = target then (False, p)
           else
             (let (moved, s', t') = move_waiting (gt source) (gt target) now target_bit s t
              in (moved, pool_put target t' (pool_put source s' p))))
      | _ \<Rightarrow> (False, p))"

text \<open>Each event comes with what the schedulers' gates answer while it runs.\<close>

fun pool_step :: "pool \<Rightarrow> (nat \<Rightarrow> gate) \<times> pool_event \<Rightarrow> pool" where
  "pool_step p (gt, PeEnqueue now h m) = snd (pool_enqueue gt now h m p)"
| "pool_step p (gt, PePlace now h i) = pool_update h (\<lambda>s. snd (sched_place (gt h) now i s)) p"
| "pool_step p (gt, PeAbandon now h i) = pool_update h (\<lambda>s. snd (sched_abandon (gt h) now i s)) p"
| "pool_step p (gt, PeChanged h) = pool_update h sched_changed p"
| "pool_step p (gt, PeFinish now report slot) = snd (slot_finish gt now report slot p)"
| "pool_step p (gt, PeSlotDrop now slot) = slot_drop gt now slot p"
| "pool_step p (gt, PeMove now source target target_bit) = snd (pool_move gt now source target target_bit p)"
| "pool_step p (gt, PeHold h now d) = pool_update h (sched_hold_reserved_for now d) p"
| "pool_step p (gt, PeClear h now) = pool_update h (sched_clear_reserved_hold (gt h) now) p"

section \<open>Scans of the pool, lock by lock\<close>

text \<open>What the others do before a lock is taken, and what the gates answer and the clock says under it.\<close>

record lock_turn =
  lk_before :: "((nat \<Rightarrow> gate) \<times> pool_event) list"
  lk_gates :: "nat \<Rightarrow> gate"
  lk_now :: instant

definition before :: "lock_turn \<Rightarrow> pool \<Rightarrow> pool" where
  "before t p = foldl pool_step p (lk_before t)"

definition alone :: "(nat \<Rightarrow> gate) \<Rightarrow> instant \<Rightarrow> lock_turn" where
  "alone gt now = \<lparr>lk_before = [], lk_gates = gt, lk_now = now\<rparr>"

text \<open>\<open>SchedulerPool::members\<close>: the members that are alive, taken once before a scan.\<close>

definition live_members :: "pool \<Rightarrow> nat list" where
  "live_members p = filter (\<lambda>h. pool_get p h \<noteq> None) (pl_members p)"

datatype placement = PlRunning nat nat | PlWaiting | PlStale | PlGone

text \<open>The lock of the \<open>k\<close>-th turn is that of the next member.\<close>

fun place_scan :: "(nat \<Rightarrow> lock_turn) \<Rightarrow> nat \<Rightarrow> nat \<Rightarrow> nat list \<Rightarrow> pool \<Rightarrow> placement \<times> pool" where
  "place_scan lt k i [] p = (PlGone, p)"
| "place_scan lt k i (h # hs) p =
     (let q = before (lt k) p in
      case pool_get q h of
        None \<Rightarrow> place_scan lt (Suc k) i hs q
      | Some s \<Rightarrow>
          (case sched_place (lk_gates (lt k) h) (lk_now (lt k)) i s of
             (Some (MemberRunning level), s') \<Rightarrow> (PlRunning h level, pool_put h s' q)
           | (Some MemberWaiting, s') \<Rightarrow> (PlWaiting, pool_put h s' q)
           | (Some MemberStale, s') \<Rightarrow> (PlStale, pool_put h s' q)
           | (None, s') \<Rightarrow> place_scan lt (Suc k) i hs (pool_put h s' q)))"

definition pool_place :: "(nat \<Rightarrow> lock_turn) \<Rightarrow> nat \<Rightarrow> nat \<Rightarrow> pool \<Rightarrow> placement \<times> pool" where
  "pool_place lt k i p = place_scan lt k i (live_members p) p"

fun abandon_scan :: "(nat \<Rightarrow> lock_turn) \<Rightarrow> nat \<Rightarrow> nat \<Rightarrow> nat list \<Rightarrow> pool \<Rightarrow> bool \<times> pool" where
  "abandon_scan lt k i [] p = (False, p)"
| "abandon_scan lt k i (h # hs) p =
     (let q = before (lt k) p in
      case pool_get q h of
        None \<Rightarrow> abandon_scan lt (Suc k) i hs q
      | Some s \<Rightarrow>
          (case sched_abandon (lk_gates (lt k) h) (lk_now (lt k)) i s of
             (Some _, s') \<Rightarrow> (True, pool_put h s' q)
           | (None, s') \<Rightarrow> abandon_scan lt (Suc k) i hs (pool_put h s' q)))"

definition pool_abandon :: "(nat \<Rightarrow> lock_turn) \<Rightarrow> nat \<Rightarrow> nat \<Rightarrow> pool \<Rightarrow> bool \<times> pool" where
  "pool_abandon lt k i p = abandon_scan lt k i (live_members p) p"

text \<open>Where \<open>await_placement\<close> finds its call: at its own scheduler first, then in the pool.\<close>

definition pool_placement :: "(nat \<Rightarrow> lock_turn) \<Rightarrow> nat \<Rightarrow> nat \<Rightarrow> pool \<Rightarrow> placement \<times> pool" where
  "pool_placement lt home i p =
     (let q = before (lt 0) p in
      case pool_get q home of
        None \<Rightarrow> pool_place lt 1 i q
      | Some s \<Rightarrow>
          (case sched_place (lk_gates (lt 0) home) (lk_now (lt 0)) i s of
             (Some (MemberRunning level), s') \<Rightarrow> (PlRunning home level, pool_put home s' q)
           | (Some MemberWaiting, s') \<Rightarrow> (PlWaiting, pool_put home s' q)
           | (Some MemberStale, s') \<Rightarrow> (PlStale, pool_put home s' q)
           | (None, s') \<Rightarrow> pool_place lt 1 i (pool_put home s' q)))"

text \<open>One turn of the loop of \<open>await_placement\<close>.\<close>

definition poll_placement ::
    "(nat \<Rightarrow> lock_turn) \<Rightarrow> pending_call \<Rightarrow> pool \<Rightarrow> poll_result \<times> pending_call \<times> pool" where
  "poll_placement lt pc p =
     (case pool_placement lt (pc_home pc) (pc_id pc) p of
        (PlRunning home level, p') \<Rightarrow>
          (PollReady (Inr \<lparr>cs_home = home, cs_id = pc_id pc, cs_level = level, cs_done = False\<rparr>),
           pc\<lparr>pc_armed := False\<rparr>, p')
      | (PlStale, p') \<Rightarrow>
          (PollReady (Inl SchedInputsChanged), pc\<lparr>pc_armed := False\<rparr>,
           pool_update (pc_home pc) sched_changed p')
      | (_, p') \<Rightarrow> (PollPending, pc, p'))"

definition pending_drop :: "(nat \<Rightarrow> lock_turn) \<Rightarrow> pending_call \<Rightarrow> pool \<Rightarrow> pool" where
  "pending_drop lt pc p =
     (if \<not> pc_armed pc then p
      else
        (let q = before (lt 0) p;
             (here, p1) = (case pool_get q (pc_home pc) of
                 None \<Rightarrow> (False, q)
               | Some s \<Rightarrow>
                   (let (answer, s') = sched_abandon (lk_gates (lt 0) (pc_home pc)) (lk_now (lt 0)) (pc_id pc) s
                    in (answer \<noteq> None, pool_put (pc_home pc) s' q)));
             (abandoned, p2) = (if here then (True, p1) else pool_abandon lt 1 (pc_id pc) p1)
         in if abandoned then pool_update (pc_home pc) sched_changed p2 else p2))"

section \<open>Operations of one scheduler never invent an id\<close>

definition held_ids :: "scheduler option \<Rightarrow> nat list" where
  "held_ids so = (case so of None \<Rightarrow> [] | Some s \<Rightarrow> queue_ids (sc_queue s))"

definition sched_shrinks :: "scheduler \<Rightarrow> scheduler \<Rightarrow> bool" where
  "sched_shrinks s s' \<longleftrightarrow> mset (queue_ids (sc_queue s')) \<subseteq># mset (queue_ids (sc_queue s)) \<and>
     (queue_wf (sc_queue s) \<longrightarrow> queue_wf (sc_queue s')) \<and> (sched_ok s \<longrightarrow> sched_ok s')"

lemma queue_wf_ids: "queue_wf (sc_queue s) \<longleftrightarrow> (\<exists>nx. sched_ids nx s)"
proof
  assume "queue_wf (sc_queue s)"
  then have "sched_ids (Suc (sum_list (queue_ids (sc_queue s)))) s"
    by (auto simp: sched_ids_def le_imp_less_Suc member_le_sum_list)
  then show "\<exists>nx. sched_ids nx s" by blast
qed (auto simp: sched_ids_def)

lemma sched_shrinksI:
  assumes "mset (queue_ids (sc_queue s')) \<subseteq># mset (queue_ids (sc_queue s))"
    and "\<And>nx. sched_ids nx s \<Longrightarrow> sched_ids nx s'" and "sched_ok s \<Longrightarrow> sched_ok s'"
  shows "sched_shrinks s s'"
  using assms queue_wf_ids [of s] queue_wf_ids [of s'] by (auto simp: sched_shrinks_def)

lemma step_shrinks [simp]: "sched_shrinks s (sched_step g now s)"
  by (rule sched_shrinksI) (simp_all add: step_dispatch_ids sched_step_ids sched_step_ok
      del: sched_step_simps(4))

lemma withdraw_ids: "mset (queue_ids (snd (q_withdraw i q))) \<subseteq># mset (queue_ids q)"
  by (simp add: q_withdraw_def queue_ids_def Let_def multiset_filter_subset image_mset_subseteq_mono)

lemma withdraw_shrinks:
  "sched_shrinks s (s\<lparr>sc_queue := snd (q_withdraw i (sc_queue s))\<rparr>)"
  by (rule sched_shrinksI) (simp_all add: withdraw_ids sched_withdraw_keeps)

lemma complete_ids:
  assumes "q_complete i q = Some (r, q')"
  shows "mset (queue_ids q) = add_mset i (mset (queue_ids q'))"
  using q_complete_Some [OF assms] by (simp add: queue_ids_def comp_def)

lemma finish_shrinks: "sched_shrinks s (sched_finish g now i report s)"
proof (rule sched_shrinksI)
  show "mset (queue_ids (sc_queue (sched_finish g now i report s))) \<subseteq># mset (queue_ids (sc_queue s))"
  proof (cases "q_complete i (sc_queue s)")
    case None
    then show ?thesis by (simp add: sched_finish_def)
  next
    case (Some rq)
    obtain r q where rq: "rq = (r, q)" by (cases rq)
    note c = Some [unfolded rq]
    show ?thesis
      using step_dispatch_ids [of g now "finish_folded now i report r q s"] complete_ids [OF c]
      by (simp add: sched_finish_complete [OF c])
  qed
qed (simp_all add: sched_finish_keeps)

lemma place_shrinks: "sched_shrinks s (snd (sched_place g now i s))"
  by (cases rule: sched_place_cases [of i s g now])
    (simp_all add: withdraw_shrinks, simp_all add: sched_shrinks_def)

lemma abandon_shrinks: "sched_shrinks s (snd (sched_abandon g now i s))"
  by (cases rule: sched_abandon_cases [of i s g now])
    (simp_all add: withdraw_shrinks finish_shrinks, simp add: sched_shrinks_def)

lemma changed_shrinks: "sched_shrinks s (sched_changed s)"
  by (simp add: sched_shrinks_def)

lemma hold_shrinks: "sched_shrinks s (sched_hold_reserved_for now d s)"
  by (rule sched_shrinksI) (simp_all, simp add: sched_hold_reserved_for_def)

lemma clear_shrinks: "sched_shrinks s (sched_clear_reserved_hold g now s)"
proof (rule sched_shrinksI)
  show "mset (queue_ids (sc_queue (sched_clear_reserved_hold g now s)))
      \<subseteq># mset (queue_ids (sc_queue s))"
    by (simp add: sched_clear_reserved_hold_def step_dispatch_ids split: option.split)
qed (simp_all add: sched_clear_keeps)

lemmas op_shrinks = place_shrinks abandon_shrinks finish_shrinks changed_shrinks hold_shrinks
  clear_shrinks

section \<open>The invariant of a pool\<close>

definition pool_ids :: "pool \<Rightarrow> nat list" where
  "pool_ids p = concat (map held_ids (pl_store p))"

definition pool_all :: "(scheduler \<Rightarrow> bool) \<Rightarrow> pool \<Rightarrow> bool" where
  "pool_all P p \<longleftrightarrow> (\<forall>h s. pool_get p h = Some s \<longrightarrow> P s)"

definition pool_wf :: "pool \<Rightarrow> bool" where
  "pool_wf p \<longleftrightarrow> distinct (pool_ids p) \<and> (\<forall>i \<in> set (pool_ids p). i < pl_next p) \<and>
     pool_all (\<lambda>s. queue_wf (sc_queue s)) p"

definition pool_shrinks :: "pool \<Rightarrow> pool \<Rightarrow> bool" where
  "pool_shrinks p p' \<longleftrightarrow> pl_next p' = pl_next p \<and> mset (pool_ids p') \<subseteq># mset (pool_ids p) \<and>
     (pool_all (\<lambda>s. queue_wf (sc_queue s)) p \<longrightarrow> pool_all (\<lambda>s. queue_wf (sc_queue s)) p') \<and>
     (pool_all sched_ok p \<longrightarrow> pool_all sched_ok p')"

lemma pool_get_put:
  "pool_get (pool_put h s p) k = (if k = h \<and> h < length (pl_store p) then Some s else pool_get p k)"
  by (simp add: pool_get_def pool_put_def)

lemma pool_get_Some: "pool_get p h = Some s \<Longrightarrow> h < length (pl_store p) \<and> pl_store p ! h = Some s"
  by (simp add: pool_get_def split: if_splits)

lemma pool_all_put: "pool_all P p \<Longrightarrow> P s \<Longrightarrow> pool_all P (pool_put h s p)"
  by (simp add: pool_all_def pool_get_put)

lemma pool_put_same [simp]: "pool_get p h = Some s \<Longrightarrow> pool_put h s p = p"
  using pool_get_Some [of p h s] by (simp add: pool_put_def list_update_same_conv)

lemma pool_put_next [simp]: "pl_next (pool_put h s p) = pl_next p"
  "pl_members (pool_put h s p) = pl_members p"
  by (simp_all add: pool_put_def)

lemma mset_concat_update:
  "i < length xs \<Longrightarrow> mset (concat (map f (xs[i := y]))) + mset (f (xs ! i))
     = mset (concat (map f xs)) + mset (f y)"
  by (induction xs arbitrary: i) (auto simp: nth_Cons split: nat.splits)

lemma mset_pool_put:
  assumes "pool_get p h = Some s"
  shows "mset (pool_ids (pool_put h s' p)) + mset (queue_ids (sc_queue s))
    = mset (pool_ids p) + mset (queue_ids (sc_queue s'))"
  using mset_concat_update [of h "pl_store p" held_ids "Some s'"] pool_get_Some [OF assms]
  by (simp add: pool_ids_def pool_put_def held_ids_def)

lemma pool_ids_held:
  "pool_get p h = Some s \<Longrightarrow> mset (queue_ids (sc_queue s)) \<subseteq># mset (pool_ids p)"
proof -
  assume a: "pool_get p h = Some s"
  have "mset (pool_ids (pool_put h (s\<lparr>sc_queue := queue_empty\<rparr>) p)) + mset (queue_ids (sc_queue s))
      = mset (pool_ids p)"
    using mset_pool_put [OF a, of "s\<lparr>sc_queue := queue_empty\<rparr>"] by (simp add: queue_ids_def queue_empty_def)
  then show ?thesis by (metis mset_subset_eq_add_right)
qed

lemma pool_shrinks_refl [simp]: "pool_shrinks p p"
  by (simp add: pool_shrinks_def)

lemma pool_shrinks_trans: "pool_shrinks p q \<Longrightarrow> pool_shrinks q r \<Longrightarrow> pool_shrinks p r"
  by (auto simp: pool_shrinks_def intro: subset_mset.order_trans)

lemma pool_shrinks_put:
  assumes "pool_get p h = Some s" and "sched_shrinks s s'"
  shows "pool_shrinks p (pool_put h s' p)"
proof -
  have "mset (queue_ids (sc_queue s')) \<subseteq># mset (queue_ids (sc_queue s))"
    using assms(2) by (simp add: sched_shrinks_def)
  then have "mset (pool_ids (pool_put h s' p)) \<subseteq># mset (pool_ids p)"
    using mset_pool_put [OF assms(1), of s']
    by (metis mset_subset_eq_mono_add_right_cancel subset_mset.add_left_mono)
  moreover have "P s'" if "pool_all P p" "P s \<Longrightarrow> P s'" for P
    using that assms(1) by (auto simp: pool_all_def)
  ultimately show ?thesis
    using assms(2) by (auto simp: pool_shrinks_def sched_shrinks_def intro!: pool_all_put)
qed

lemma distinct_mset_mono: "mset xs \<subseteq># mset ys \<Longrightarrow> distinct ys \<Longrightarrow> distinct xs"
proof -
  assume sub: "mset xs \<subseteq># mset ys" and d: "distinct ys"
  obtain zs where "mset zs = mset ys - mset xs" using ex_mset by blast
  with sub have "mset (xs @ zs) = mset ys" by simp
  from distinct_mset_eq [OF this] d show ?thesis by simp
qed

lemma pool_shrinks_wf: "pool_shrinks p p' \<Longrightarrow> pool_wf p \<Longrightarrow> pool_wf p'"
proof -
  assume s: "pool_shrinks p p'" and wf: "pool_wf p"
  then have sub: "mset (pool_ids p') \<subseteq># mset (pool_ids p)" by (simp add: pool_shrinks_def)
  have "distinct (pool_ids p')"
    using wf distinct_mset_mono [OF sub] by (simp add: pool_wf_def)
  moreover have "set (pool_ids p') \<subseteq> set (pool_ids p)" using set_mset_mono [OF sub] by simp
  ultimately show ?thesis using s wf by (auto simp: pool_wf_def pool_shrinks_def)
qed

lemma pool_update_shrinks: "(\<And>s. sched_shrinks s (f s)) \<Longrightarrow> pool_shrinks p (pool_update h f p)"
  by (auto simp: pool_update_def intro: pool_shrinks_put split: option.split)

section \<open>Pool operations keep the invariant\<close>

lemma slot_shrinks:
  "pool_shrinks p (snd (slot_finish gt now report slot p))"
  "pool_shrinks p (slot_drop gt now slot p)"
  by (simp_all add: slot_finish_def slot_drop_def pool_update_shrinks finish_shrinks)

section \<open>A move\<close>

definition waiting_set :: "(waiter list \<Rightarrow> waiter list) \<Rightarrow> scheduler \<Rightarrow> scheduler" where
  "waiting_set f s = s\<lparr>sc_queue := (sc_queue s)\<lparr>q_waiting := f (q_waiting (sc_queue s))\<rparr>\<rparr>"

lemma waiting_set_simps [simp]:
  "q_waiting (sc_queue (waiting_set f s)) = f (q_waiting (sc_queue s))"
  "q_running (sc_queue (waiting_set f s)) = q_running (sc_queue s)"
  "sc_config (waiting_set f s) = sc_config s" "sc_tuner (waiting_set f s) = sc_tuner s"
  "sched_ok (waiting_set f s) = sched_ok s" "sc_hold (waiting_set f s) = sc_hold s"
  by (simp_all add: waiting_set_def sched_ok_def)

lemma move_waiting_None:
  "q_best (movable sg tb) (sc_queue s) = None \<Longrightarrow> move_waiting sg tg now tb s t = (False, s, t)"
  by (simp add: move_waiting_def)

lemma move_waiting_Some:
  "q_best (movable sg tb) (sc_queue s) = Some i \<Longrightarrow>
     move_waiting sg tg now tb s t =
       (True, sched_changed (waiting_set (remove_at i) s),
        sched_changed (sched_notify (sched_step tg now
          (waiting_set (\<lambda>ws. ws @ [q_waiting (sc_queue s) ! i]) t))))"
  by (simp add: move_waiting_def waiting_set_def Let_def)

lemma move_waiting_keeps:
  assumes mv: "move_waiting sg tg now tb s t = (moved, s', t')"
  shows "mset (queue_ids (sc_queue s')) + mset (queue_ids (sc_queue t'))
      = mset (queue_ids (sc_queue s)) + mset (queue_ids (sc_queue t))"
    and "queue_wf (sc_queue s) \<Longrightarrow> queue_wf (sc_queue t) \<Longrightarrow>
      distinct (queue_ids (sc_queue s) @ queue_ids (sc_queue t)) \<Longrightarrow>
      queue_wf (sc_queue s') \<and> queue_wf (sc_queue t')"
    and "sched_ok s \<Longrightarrow> sched_ok t \<Longrightarrow> sched_ok s' \<and> sched_ok t'"
proof -
  have "mset (queue_ids (sc_queue s')) + mset (queue_ids (sc_queue t'))
      = mset (queue_ids (sc_queue s)) + mset (queue_ids (sc_queue t)) \<and>
    (queue_wf (sc_queue s) \<longrightarrow> queue_wf (sc_queue t) \<longrightarrow>
      distinct (queue_ids (sc_queue s) @ queue_ids (sc_queue t)) \<longrightarrow>
      queue_wf (sc_queue s') \<and> queue_wf (sc_queue t')) \<and>
    (sched_ok s \<longrightarrow> sched_ok t \<longrightarrow> sched_ok s' \<and> sched_ok t')"
  proof (cases "q_best (movable sg tb) (sc_queue s)")
    case None
    with mv show ?thesis by (simp add: move_waiting_None)
  next
    case (Some i)
    let ?w = "q_waiting (sc_queue s) ! i"
    let ?s = "waiting_set (remove_at i) s" and ?t = "waiting_set (\<lambda>ws. ws @ [?w]) t"
    from mv Some have s': "s' = sched_changed ?s"
      and t': "t' = sched_changed (sched_notify (sched_step tg now ?t))"
      by (simp_all add: move_waiting_Some)
    note less = q_best_less [OF Some]
    have ids_s: "mset (queue_ids (sc_queue s)) = add_mset (w_id ?w) (mset (queue_ids (sc_queue ?s)))"
      using arg_cong [OF mset_remove_at [OF less], of "image_mset w_id"] by (simp add: queue_ids_def)
    have ids_t: "mset (queue_ids (sc_queue ?t)) = add_mset (w_id ?w) (mset (queue_ids (sc_queue t)))"
      by (simp add: queue_ids_def)
    have 1: "mset (queue_ids (sc_queue s')) + mset (queue_ids (sc_queue t'))
      = mset (queue_ids (sc_queue s)) + mset (queue_ids (sc_queue t))"
      by (simp add: s' t' step_dispatch_ids ids_s ids_t)
    have 2: "queue_wf (sc_queue s') \<and> queue_wf (sc_queue t')"
      if "queue_wf (sc_queue s)" "queue_wf (sc_queue t)"
        "distinct (queue_ids (sc_queue s) @ queue_ids (sc_queue t))"
    proof
      have "mset (w_id ?w # queue_ids (sc_queue ?s)) = mset (queue_ids (sc_queue s))" using ids_s by simp
      from distinct_mset_eq [OF this] that(1) show "queue_wf (sc_queue s')"
        by (simp add: s' queue_wf_def)
      have "w_id ?w \<in> set (queue_ids (sc_queue s))" using less by (simp add: queue_ids_def)
      then have "distinct (w_id ?w # queue_ids (sc_queue t))" using that(3) by auto
      moreover have "mset (queue_ids (sc_queue ?t)) = mset (w_id ?w # queue_ids (sc_queue t))"
        using ids_t by simp
      ultimately have "distinct (queue_ids (sc_queue ?t))" using distinct_mset_eq by metis
      then have "queue_wf (sc_queue ?t)" using that(2) by (simp add: queue_wf_def)
      then show "queue_wf (sc_queue t')" by (simp add: t' step_dispatch_wf)
    qed
    have 3: "sched_ok s' \<and> sched_ok t'" if "sched_ok s" "sched_ok t"
      using that by (simp add: s' t' sched_step_ok)
    show ?thesis using 1 2 3 by blast
  qed
  then show "mset (queue_ids (sc_queue s')) + mset (queue_ids (sc_queue t'))
      = mset (queue_ids (sc_queue s)) + mset (queue_ids (sc_queue t))"
    and "queue_wf (sc_queue s) \<Longrightarrow> queue_wf (sc_queue t) \<Longrightarrow>
      distinct (queue_ids (sc_queue s) @ queue_ids (sc_queue t)) \<Longrightarrow>
      queue_wf (sc_queue s') \<and> queue_wf (sc_queue t')"
    and "sched_ok s \<Longrightarrow> sched_ok t \<Longrightarrow> sched_ok s' \<and> sched_ok t'" by blast+
qed


lemma pool_move_eq:
  assumes "pool_get p source = Some s" "pool_get p target = Some t" "source \<noteq> target"
    and "move_waiting (gt source) (gt target) now tb s t = (moved, s', t')"
  shows "pool_move gt now source target tb p = (moved, pool_put target t' (pool_put source s' p))"
  using assms by (simp add: pool_move_def)

lemma pool_move_cases:
  obtains (none) "pool_move gt now source target tb p = (False, p)"
  | (both) s t moved s' t' where "pool_get p source = Some s" "pool_get p target = Some t"
      "source \<noteq> target" "move_waiting (gt source) (gt target) now tb s t = (moved, s', t')"
proof (cases "pool_get p source = None \<or> pool_get p target = None \<or> source = target")
  case True
  then show ?thesis by (intro none) (auto simp: pool_move_def split: option.split)
next
  case False
  then obtain s t where "pool_get p source = Some s" "pool_get p target = Some t" by auto
  moreover obtain moved s' t' where
    "move_waiting (gt source) (gt target) now tb s t = (moved, s', t')" by (metis prod_cases3)
  ultimately show ?thesis using False by (intro both) auto
qed

lemma pool_two_ids:
  assumes "pool_get p a = Some s" "pool_get p b = Some t" "a \<noteq> b"
  shows "mset (queue_ids (sc_queue s) @ queue_ids (sc_queue t)) \<subseteq># mset (pool_ids p)"
proof -
  let ?p = "pool_put a (s\<lparr>sc_queue := queue_empty\<rparr>) p"
  have "mset (pool_ids ?p) + mset (queue_ids (sc_queue s)) = mset (pool_ids p)"
    using mset_pool_put [OF assms(1), of "s\<lparr>sc_queue := queue_empty\<rparr>"]
    by (simp add: queue_ids_def queue_empty_def)
  moreover have "pool_get ?p b = Some t" using assms by (simp add: pool_get_put)
  then have "mset (queue_ids (sc_queue t)) \<subseteq># mset (pool_ids ?p)" by (rule pool_ids_held)
  ultimately show ?thesis by (metis add.commute mset_append subset_mset.add_left_mono)
qed

lemma mset_exchange:
  fixes m2 :: "'a multiset"
  assumes "m1 + s = p + s'" "m2 + t = m1 + t'" "s' + t' = s + t"
  shows "m2 = p"
proof (rule multiset_eqI)
  fix x
  have "count m1 x + count s x = count p x + count s' x"
    "count m2 x + count t x = count m1 x + count t' x" "count s' x + count t' x = count s x + count t x"
    by (metis assms(1) count_union, metis assms(2) count_union, metis assms(3) count_union)
  then show "count m2 x = count p x" by linarith
qed

lemma pool_move_keeps:
  shows "pool_wf p \<Longrightarrow> pool_wf (snd (pool_move gt now source target tb p))"
    and "pool_all sched_ok p \<Longrightarrow> pool_all sched_ok (snd (pool_move gt now source target tb p))"
    and "mset (pool_ids (snd (pool_move gt now source target tb p))) = mset (pool_ids p)"
    and "pl_next (snd (pool_move gt now source target tb p)) = pl_next p"
proof -
  have "(pool_wf p \<longrightarrow> pool_wf (snd (pool_move gt now source target tb p))) \<and>
    (pool_all sched_ok p \<longrightarrow> pool_all sched_ok (snd (pool_move gt now source target tb p))) \<and>
    mset (pool_ids (snd (pool_move gt now source target tb p))) = mset (pool_ids p) \<and>
    pl_next (snd (pool_move gt now source target tb p)) = pl_next p"
  proof (cases rule: pool_move_cases [of gt now source target tb p])
    case none
    then show ?thesis by simp
  next
    case (both s t moved s' t')
    let ?p1 = "pool_put source s' p" and ?p2 = "pool_put target t' (pool_put source s' p)"
    note eq = pool_move_eq [of p source s target t gt now tb moved s' t', OF both]
    have g: "pool_get ?p1 target = Some t" using both by (simp add: pool_get_put)
    have ids: "mset (pool_ids ?p2) = mset (pool_ids p)"
      by (rule mset_exchange [OF mset_pool_put [OF both(1)] mset_pool_put [OF g]
            move_waiting_keeps(1) [OF both(4)]])
    have wf: "pool_wf ?p2" if p: "pool_wf p"
    proof -
      have "distinct (queue_ids (sc_queue s) @ queue_ids (sc_queue t))"
        using distinct_mset_mono [OF pool_two_ids [OF both(1-3)]] p by (simp add: pool_wf_def)
      moreover have "queue_wf (sc_queue s)" "queue_wf (sc_queue t)"
        using p both(1,2) by (auto simp: pool_wf_def pool_all_def)
      ultimately have "queue_wf (sc_queue s')" "queue_wf (sc_queue t')"
        using move_waiting_keeps(2) [OF both(4)] by blast+
      then show ?thesis
        using p distinct_mset_eq [OF ids] mset_eq_setD [OF ids]
        by (simp add: pool_wf_def pool_all_put)
    qed
    have ok: "pool_all sched_ok ?p2" if p: "pool_all sched_ok p"
    proof -
      have "sched_ok s" "sched_ok t" using p both(1,2) by (auto simp: pool_all_def)
      then show ?thesis using p move_waiting_keeps(3) [OF both(4)] by (simp add: pool_all_put)
    qed
    show ?thesis using ids wf ok by (simp add: eq)
  qed
  then show "pool_wf p \<Longrightarrow> pool_wf (snd (pool_move gt now source target tb p))"
    and "pool_all sched_ok p \<Longrightarrow> pool_all sched_ok (snd (pool_move gt now source target tb p))"
    and "mset (pool_ids (snd (pool_move gt now source target tb p))) = mset (pool_ids p)"
    and "pl_next (snd (pool_move gt now source target tb p)) = pl_next p" by blast+
qed

lemma enqueue_ids:
  assumes "sched_enqueue g now nx m s = (answer, nx', s')"
  shows "(answer, nx', s') = (Inl (SchedQueueFull (sc_backend s) (cfg_max_waiting (sc_config s))), nx, s)
    \<or> answer = Inr nx \<and> nx' = u64_add nx 1 \<and>
      mset (queue_ids (sc_queue s')) = add_mset nx (mset (queue_ids (sc_queue s)))"
proof (cases "cfg_max_waiting (sc_config s) \<le> length (q_waiting (sc_queue s))")
  case True
  with assms show ?thesis by (auto simp: sched_enqueue_full)
next
  case False
  let ?s = "s\<lparr>sc_queue := snd (snd (q_push nx m now (sc_queue s)))\<rparr>"
  have "mset (queue_ids (sc_queue ?s)) = add_mset nx (mset (queue_ids (sc_queue s)))"
    by (simp add: q_push_eval queue_ids_def)
  with False assms show ?thesis by (auto simp: sched_enqueue_room step_dispatch_ids)
qed

lemma pool_enqueue_keeps:
  shows "pool_wf p \<Longrightarrow> pl_next p + 1 < 2 ^ 64 \<Longrightarrow>
      pool_wf (snd (pool_enqueue gt now h m p)) \<and>
      pl_next (snd (pool_enqueue gt now h m p)) \<le> pl_next p + 1"
    and "pool_all sched_ok p \<Longrightarrow> pool_all sched_ok (snd (pool_enqueue gt now h m p))"
proof -
  have "(pool_wf p \<longrightarrow> pl_next p + 1 < 2 ^ 64 \<longrightarrow>
      pool_wf (snd (pool_enqueue gt now h m p)) \<and>
      pl_next (snd (pool_enqueue gt now h m p)) \<le> pl_next p + 1) \<and>
    (pool_all sched_ok p \<longrightarrow> pool_all sched_ok (snd (pool_enqueue gt now h m p)))"
  proof (cases "pool_get p h")
    case None
    then show ?thesis by (simp add: pool_enqueue_def)
  next
    case (Some s)
    obtain answer nx s' where e: "sched_enqueue (gt h) now (pl_next p) m s = (answer, nx, s')"
      by (metis prod_cases3)
    let ?p = "(pool_put h s' p)\<lparr>pl_next := nx\<rparr>"
    have eq: "snd (pool_enqueue gt now h m p) = ?p" by (simp add: pool_enqueue_def Some e)
    have all: "pool_all P ?p = pool_all P (pool_put h s' p)" for P
      by (simp add: pool_all_def pool_get_def)
    have ids: "pool_ids (q\<lparr>pl_next := n\<rparr>) = pool_ids q" for q n by (simp add: pool_ids_def)
    have ok: "pool_all sched_ok ?p" if p: "pool_all sched_ok p"
    proof -
      have "sched_ok s" using p Some by (auto simp: pool_all_def)
      then show ?thesis using p sched_enqueue_keeps(1) [OF e] by (simp add: all pool_all_put)
    qed
    have wf: "pool_wf ?p \<and> nx \<le> pl_next p + 1" if p: "pool_wf p" and lim: "pl_next p + 1 < 2 ^ 64"
    proof -
      have qs: "queue_wf (sc_queue s)" using p Some by (auto simp: pool_wf_def pool_all_def)
      have "set (queue_ids (sc_queue s)) \<subseteq> set (pool_ids p)"
        using set_mset_mono [OF pool_ids_held [OF Some]] by simp
      then have si: "sched_ids (pl_next p) s" using p qs by (auto simp: sched_ids_def pool_wf_def)
      from sched_enqueue_keeps(3) [OF e si lim] have q': "queue_wf (sc_queue s')" "nx \<le> pl_next p + 1"
        by (simp_all add: sched_ids_def)
      from enqueue_ids [OF e] show ?thesis
      proof
        assume "(answer, nx, s') =
          (Inl (SchedQueueFull (sc_backend s) (cfg_max_waiting (sc_config s))), pl_next p, s)"
        then have "?p = p" using Some by simp
        with p q'(2) show ?thesis by simp
      next
        assume a: "answer = Inr (pl_next p) \<and> nx = u64_add (pl_next p) 1 \<and>
          mset (queue_ids (sc_queue s')) = add_mset (pl_next p) (mset (queue_ids (sc_queue s)))"
        then have nx: "nx = pl_next p + 1" using lim by (simp add: u64_add_less)
        have m: "mset (pool_ids ?p) = mset (pl_next p # pool_ids p)"
          using mset_pool_put [OF Some, of s'] a by (simp add: ids)
        have "distinct (pl_next p # pool_ids p)" using p by (auto simp: pool_wf_def)
        with distinct_mset_eq [OF m] have "distinct (pool_ids ?p)" by simp
        moreover have "\<forall>i \<in> set (pool_ids ?p). i < nx"
          using p mset_eq_setD [OF m] nx by (auto simp: pool_wf_def less_SucI)
        moreover have "pool_all (\<lambda>s. queue_wf (sc_queue s)) ?p"
          using p q'(1) by (simp add: all pool_all_put pool_wf_def)
        ultimately show ?thesis using nx by (simp add: pool_wf_def)
      qed
    qed
    show ?thesis using ok wf by (simp add: eq)
  qed
  then show "pool_wf p \<Longrightarrow> pl_next p + 1 < 2 ^ 64 \<Longrightarrow>
      pool_wf (snd (pool_enqueue gt now h m p)) \<and>
      pl_next (snd (pool_enqueue gt now h m p)) \<le> pl_next p + 1"
    and "pool_all sched_ok p \<Longrightarrow> pool_all sched_ok (snd (pool_enqueue gt now h m p))" by blast+
qed

lemma pool_step_wf:
  assumes "pool_wf p" and "pl_next p + 1 < 2 ^ 64"
  shows "pool_wf (pool_step p ge) \<and> pl_next (pool_step p ge) \<le> pl_next p + 1"
proof -
  obtain gt e where ge: "ge = (gt, e)" by (cases ge)
  have sh: "pool_wf p' \<and> pl_next p' \<le> Suc (pl_next p)" if "pool_shrinks p p'" for p'
    using pool_shrinks_wf [OF that assms(1)] that by (simp add: pool_shrinks_def)
  show ?thesis
    by (cases e) (simp_all add: ge sh pool_enqueue_keeps(1) [OF assms, simplified] slot_shrinks
        pool_move_keeps assms(1) pool_update_shrinks op_shrinks)
qed

interpretation pool_run: stepper pool_step "pool_all sched_ok"
proof
  fix p and ge :: "(nat \<Rightarrow> gate) \<times> pool_event"
  assume ok: "pool_all sched_ok p"
  obtain gt e where ge: "ge = (gt, e)" by (cases ge)
  have sh: "pool_all sched_ok p'" if "pool_shrinks p p'" for p'
    using that ok by (simp add: pool_shrinks_def)
  show "pool_all sched_ok (pool_step p ge)"
    by (cases e) (simp_all add: ge sh ok pool_enqueue_keeps(2) slot_shrinks pool_move_keeps
        pool_update_shrinks op_shrinks)
qed

lemma pool_run_wf:
  "pool_wf p \<Longrightarrow> pl_next p + length es < 2 ^ 64 \<Longrightarrow>
     pool_wf (foldl pool_step p es) \<and> pl_next (foldl pool_step p es) \<le> pl_next p + length es"
proof (induction es arbitrary: p)
  case Nil
  then show ?case by simp
next
  case (Cons e es)
  have "pl_next p + 1 < 2 ^ 64" using Cons.prems(2) by simp
  note step = pool_step_wf [OF Cons.prems(1) this, of e]
  then have "pool_wf (foldl pool_step (pool_step p e) es) \<and>
      pl_next (foldl pool_step (pool_step p e) es) \<le> pl_next (pool_step p e) + length es"
    using Cons.prems(2) by (intro Cons.IH) auto
  with step show ?case by simp
qed

text \<open>No event ends a scheduler or changes the list of members.\<close>

lemma pool_get_update:
  "pool_get (pool_update k f p) h = (if k = h then map_option f (pool_get p h) else pool_get p h)"
  by (auto simp: pool_update_def pool_get_put dest: pool_get_Some split: option.split)

lemma pool_step_alive [simp]: "pool_get (pool_step p e) h = None \<longleftrightarrow> pool_get p h = None"
proof -
  obtain gt ev where e: "e = (gt, ev)" by (cases e)
  have enq: "pool_get (snd (pool_enqueue gt now k m p)) h = None \<longleftrightarrow> pool_get p h = None" for now k m
    by (auto simp: pool_enqueue_def pool_get_put split: option.splits prod.split dest: pool_get_Some)
      (auto simp: pool_get_def pool_put_def nth_list_update split: if_splits)
  have mv: "pool_get (snd (pool_move gt now a b tb p)) h = None \<longleftrightarrow> pool_get p h = None" for now a b tb
    by (cases rule: pool_move_cases [of gt now a b tb p]) (auto simp: pool_move_eq pool_get_put)
  show ?thesis
    by (cases ev) (auto simp: e enq mv pool_get_update slot_finish_def slot_drop_def split: if_splits)
qed

lemma pool_step_members [simp]: "pl_members (pool_step p e) = pl_members p"
proof -
  obtain gt ev where e: "e = (gt, ev)" by (cases e)
  have upd: "pl_members (pool_update k f p) = pl_members p" for k f
    by (simp add: pool_update_def split: option.split)
  have mv: "pl_members (snd (pool_move gt now a b tb p)) = pl_members p" for now a b tb
    by (cases rule: pool_move_cases [of gt now a b tb p]) (auto simp: pool_move_eq)
  show ?thesis
    by (cases ev) (auto simp: e upd mv slot_finish_def slot_drop_def pool_enqueue_def split: option.split prod.split)
qed

lemma before_alive:
  "pool_get (before t p) h = None \<longleftrightarrow> pool_get p h = None" "pl_members (before t p) = pl_members p"
  "live_members (before t p) = live_members p"
proof -
  have run: "(pool_get (foldl pool_step p es) h = None \<longleftrightarrow> pool_get p h = None) \<and>
      pl_members (foldl pool_step p es) = pl_members p" for es h
    by (induction es arbitrary: p) simp_all
  show alive: "pool_get (before t p) h = None \<longleftrightarrow> pool_get p h = None" for h using run by (simp add: before_def)
  show mem: "pl_members (before t p) = pl_members p" using run by (simp add: before_def)
  show "live_members (before t p) = live_members p" by (simp add: live_members_def mem alive)
qed

lemmas before_members [simp] = before_alive(2,3)

section \<open>The accounts of a scheduler\<close>

text \<open>
  What an event does to the calls of scheduler \<open>h\<close>, read off the answers of the operations: a call
  accepted, one withdrawn unsent, one that a rebalance brings or takes away.
\<close>

fun pool_accepted :: "nat \<Rightarrow> pool \<Rightarrow> (nat \<Rightarrow> gate) \<times> pool_event \<Rightarrow> nat" where
  "pool_accepted h p (gt, PeEnqueue now k m) =
     (case fst (pool_enqueue gt now k m p) of Some (Inr _) \<Rightarrow> if k = h then 1 else 0 | _ \<Rightarrow> 0)"
| "pool_accepted h p _ = 0"

fun pool_withdrawn :: "nat \<Rightarrow> pool \<Rightarrow> (nat \<Rightarrow> gate) \<times> pool_event \<Rightarrow> nat" where
  "pool_withdrawn h p (gt, PePlace now k i) =
     (case pool_get p k of
        None \<Rightarrow> 0
      | Some s \<Rightarrow> if k = h \<and> fst (sched_place (gt k) now i s) = Some MemberStale then 1 else 0)"
| "pool_withdrawn h p (gt, PeAbandon now k i) =
     (case pool_get p k of
        None \<Rightarrow> 0
      | Some s \<Rightarrow> if k = h \<and> fst (sched_abandon (gt k) now i s) = Some False then 1 else 0)"
| "pool_withdrawn h p _ = 0"

fun pool_moved_in :: "nat \<Rightarrow> pool \<Rightarrow> (nat \<Rightarrow> gate) \<times> pool_event \<Rightarrow> nat" where
  "pool_moved_in h p (gt, PeMove now a b tb) = (if b = h \<and> fst (pool_move gt now a b tb p) then 1 else 0)"
| "pool_moved_in h p _ = 0"

fun pool_moved_out :: "nat \<Rightarrow> pool \<Rightarrow> (nat \<Rightarrow> gate) \<times> pool_event \<Rightarrow> nat" where
  "pool_moved_out h p (gt, PeMove now a b tb) = (if a = h \<and> fst (pool_move gt now a b tb p) then 1 else 0)"
| "pool_moved_out h p _ = 0"

fun tally :: "(pool \<Rightarrow> (nat \<Rightarrow> gate) \<times> pool_event \<Rightarrow> nat) \<Rightarrow> pool \<Rightarrow> ((nat \<Rightarrow> gate) \<times> pool_event) list \<Rightarrow> nat" where
  "tally f p [] = 0"
| "tally f p (e # es) = f p e + tally f (pool_step p e) es"

lemma census_waiting_set:
  "sched_census (waiting_set f s) + length (q_waiting (sc_queue s)) =
     sched_census s + length (f (q_waiting (sc_queue s)))"
  by (simp add: sched_census_def queue_ids_length waiting_set_def)

lemma census_move:
  assumes "move_waiting sg tg now tb s t = (moved, s', t')"
  shows "sched_census s' + (if moved then 1 else 0) = sched_census s"
    and "sched_census t' = sched_census t + (if moved then 1 else 0)"
    and "waiting_capped n s \<Longrightarrow> waiting_capped n s'"
    and "waiting_capped n t \<Longrightarrow> waiting_capped (n + (if moved then 1 else 0)) t'"
proof -
  have "sched_census s' + (if moved then 1 else 0) = sched_census s \<and>
    sched_census t' = sched_census t + (if moved then 1 else 0) \<and>
    (waiting_capped n s \<longrightarrow> waiting_capped n s') \<and>
    (waiting_capped n t \<longrightarrow> waiting_capped (n + (if moved then 1 else 0)) t')"
  proof (cases "q_best (movable sg tb) (sc_queue s)")
    case None
    with assms show ?thesis by (simp add: move_waiting_None)
  next
    case (Some i)
    let ?t = "waiting_set (\<lambda>ws. ws @ [q_waiting (sc_queue s) ! i]) t"
    have e: "moved" "s' = sched_changed (waiting_set (remove_at i) s)"
      "t' = sched_changed (sched_notify (sched_step tg now ?t))"
      using assms by (simp_all add: move_waiting_Some [OF Some])
    have "length (remove_at i (q_waiting (sc_queue s))) + 1 = length (q_waiting (sc_queue s))"
      using q_best_less [OF Some] by (simp add: remove_at_def)
    then have "sched_census s' + 1 = sched_census s" and "waiting_capped n s \<Longrightarrow> waiting_capped n s'"
      using census_waiting_set [of "remove_at i" s] by (simp_all add: e waiting_capped_def)
    moreover have "sched_census t' = sched_census t + 1"
      using census_waiting_set [of "\<lambda>ws. ws @ [q_waiting (sc_queue s) ! i]" t]
      by (simp add: e del: sched_step_simps)
    moreover have "waiting_capped (n + 1) ?t" if "waiting_capped n t" using that by (simp add: waiting_capped_def)
    then have "waiting_capped n t \<Longrightarrow> waiting_capped (n + 1) t'"
      using sched_step_capped [of "n + 1" ?t tg now] by (simp add: e del: sched_step_simps)
    ultimately show ?thesis using e(1) by simp
  qed
  then show "sched_census s' + (if moved then 1 else 0) = sched_census s"
    and "sched_census t' = sched_census t + (if moved then 1 else 0)"
    and "waiting_capped n s \<Longrightarrow> waiting_capped n s'"
    and "waiting_capped n t \<Longrightarrow> waiting_capped (n + (if moved then 1 else 0)) t'" by blast+
qed

text \<open>One event, seen from scheduler \<open>h\<close>.\<close>

lemma account_step:
  assumes "pool_wf p" "pool_all sched_ok p" "pool_get p h = Some s"
  shows "\<exists>s'. pool_get (pool_step p e) h = Some s' \<and>
    (sched_census s < 2 ^ 64 \<longrightarrow>
      sched_census s' + pool_withdrawn h p e + pool_moved_out h p e =
      sched_census s + pool_accepted h p e + pool_moved_in h p e) \<and>
    (waiting_capped n s \<longrightarrow> waiting_capped (n + pool_moved_in h p e) s')"
proof -
  obtain gt ev where e: "e = (gt, ev)" by (cases e)
  have s: "queue_wf (sc_queue s)" "sched_ok s" using assms by (auto simp: pool_wf_def pool_all_def)
  note upd = pool_get_update assms(3)
  show ?thesis
  proof (cases ev)
    case (PeEnqueue now k m)
    show ?thesis
    proof (cases "k = h")
      case True
      obtain answer nx s' where en: "sched_enqueue (gt h) now (pl_next p) m s = (answer, nx, s')" by (metis prod_cases3)
      have "pool_get (pool_step p e) h = Some s'"
        using True en pool_get_Some [OF assms(3)]
        by (simp add: e PeEnqueue pool_enqueue_def assms(3)) (simp add: pool_get_def pool_put_def)
      then show ?thesis
        using census_enqueue [of "gt h" now "pl_next p" m s] sched_enqueue_keeps(2) [OF en, of n] True en
        by (auto simp: e PeEnqueue pool_enqueue_def assms(3) split: sum.split)
    next
      case False
      then have "pool_get (pool_step p e) h = Some s"
        using assms(3) by (auto simp: e PeEnqueue pool_enqueue_def pool_get_def pool_put_def split: option.split prod.split if_splits)
      then show ?thesis using False by (auto simp: e PeEnqueue split: option.split sum.split)
    qed
  next
    case (PePlace now k i)
    then show ?thesis using census_place [OF s(1), of "gt k" now i] sched_place_keeps(2) [of n s "gt k" now i]
      by (cases "k = h") (auto simp: e upd split: option.split)
  next
    case (PeAbandon now k i)
    then show ?thesis using census_abandon [OF s, of "gt k" now i] sched_abandon_keeps(2) [of n s "gt k" now i]
      by (cases "k = h") (auto simp: e upd split: option.split)
  next
    case (PeFinish now report slot)
    then show ?thesis using census_finish [OF s(2)] sched_finish_keeps(2) [of n s]
      by (auto simp: e upd slot_finish_def)
  next
    case (PeSlotDrop now slot)
    then show ?thesis using census_finish [OF s(2)] sched_finish_keeps(2) [of n s]
      by (auto simp: e upd slot_drop_def)
  next
    case (PeMove now a b tb)
    show ?thesis
    proof (cases rule: pool_move_cases [of gt now a b tb p])
      case none
      then show ?thesis using assms(3) by (simp add: e PeMove)
    next
      case (both s1 t1 moved s2 t2)
      note eq = pool_move_eq [of p a s1 b t1 gt now tb moved s2 t2, OF both]
      note cm = census_move(1,2) [OF both(4)] census_move(3,4) [OF both(4), of n]
      have lens: "a < length (pl_store p)" "b < length (pl_store p)"
        using pool_get_Some [OF both(1)] pool_get_Some [OF both(2)] by auto
      have len1: "length (pl_store (pool_put a s2 p)) = length (pl_store p)" by (simp add: pool_put_def)
      have get: "pool_get (snd (pool_move gt now a b tb p)) k =
          (if k = b then Some t2 else if k = a then Some s2 else pool_get p k)" for k
        using lens len1 by (simp add: eq pool_get_put)
      have mv: "fst (pool_move gt now a b tb p) = moved" by (simp add: eq)
      consider "h = a" | "h = b" | "h \<noteq> a" "h \<noteq> b" by blast
      then show ?thesis
      proof cases
        case 1
        then have "s1 = s" using both(1) assms(3) by simp
        then show ?thesis using 1 both(3) cm by (simp add: e PeMove get mv)
      next
        case 2
        then have "t1 = s" using both(2) assms(3) by simp
        then show ?thesis using 2 both(3) cm by (simp add: e PeMove get mv)
      next
        case 3
        then show ?thesis using assms(3) by (simp add: e PeMove get)
      qed
    qed
  next
    case (PeHold k now d)
    then show ?thesis using census_hold sched_hold_keeps by (auto simp: e upd)
  next
    case (PeClear k now)
    then show ?thesis using census_clear sched_clear_keeps(2) [of n s] by (auto simp: e upd)
  qed (auto simp: e upd)
qed

lemma accepted_at_most_one: "pool_accepted h p e + pool_moved_in h p e \<le> 1"
  by (cases "(h, p, e)" rule: pool_accepted.cases) (auto split: option.split sum.split)

lemma account_run:
  assumes "pool_wf p" "pool_all sched_ok p" "pool_get p h = Some s" "pl_next p + length es < 2 ^ 64"
  shows "\<exists>s'. pool_get (foldl pool_step p es) h = Some s' \<and>
    (sched_census s + length es < 2 ^ 64 \<longrightarrow>
      sched_census s' + tally (pool_withdrawn h) p es + tally (pool_moved_out h) p es =
      sched_census s + tally (pool_accepted h) p es + tally (pool_moved_in h) p es) \<and>
    (waiting_capped n s \<longrightarrow> waiting_capped (n + tally (pool_moved_in h) p es) s')"
  using assms
proof (induction es arbitrary: p s n)
  case Nil
  then show ?case by simp
next
  case (Cons e es)
  let ?p = "pool_step p e"
  obtain s1 where s1: "pool_get ?p h = Some s1"
    "sched_census s < 2 ^ 64 \<Longrightarrow> sched_census s1 + pool_withdrawn h p e + pool_moved_out h p e =
      sched_census s + pool_accepted h p e + pool_moved_in h p e"
    "waiting_capped n s \<Longrightarrow> waiting_capped (n + pool_moved_in h p e) s1"
    using account_step [OF Cons.prems(1-3), of e n] by blast
  have lim: "pl_next p + 1 < 2 ^ 64" using Cons.prems(4) by simp
  note wf = pool_step_wf [OF Cons.prems(1) lim, of e]
  have ok: "pool_all sched_ok ?p" by (rule pool_run.step_inv [OF Cons.prems(2)])
  have next_small: "pl_next ?p + length es < 2 ^ 64" using wf Cons.prems(4) by simp
  obtain s2 where s2: "pool_get (foldl pool_step ?p es) h = Some s2"
    "sched_census s1 + length es < 2 ^ 64 \<Longrightarrow>
      sched_census s2 + tally (pool_withdrawn h) ?p es + tally (pool_moved_out h) ?p es =
      sched_census s1 + tally (pool_accepted h) ?p es + tally (pool_moved_in h) ?p es"
    "waiting_capped (n + pool_moved_in h p e) s1 \<Longrightarrow>
      waiting_capped (n + pool_moved_in h p e + tally (pool_moved_in h) ?p es) s2"
    using Cons.IH [OF _ ok s1(1) next_small] wf by blast
  have "sched_census s1 + length es < 2 ^ 64" if "sched_census s + length (e # es) < 2 ^ 64"
    using s1(2) that accepted_at_most_one [of h p e] by simp
  then show ?case using s1(2,3) s2 by (auto simp: add.assoc)
qed

section \<open>A call is found where it is\<close>

lemma pool_other_absent:
  assumes "pool_wf p" and "pool_get p h = Some s" and "i \<in> set (queue_ids (sc_queue s))"
    and "pool_get p k = Some t" and "k \<noteq> h"
  shows "\<not> q_is_waiting i (sc_queue t)" and "\<not> q_is_running i (sc_queue t)"
proof -
  have "distinct (queue_ids (sc_queue t) @ queue_ids (sc_queue s))"
    using distinct_mset_mono [OF pool_two_ids [OF assms(4,2,5)]] assms(1) by (simp add: pool_wf_def)
  with assms(3) have "i \<notin> set (queue_ids (sc_queue t))" by auto
  then show "\<not> q_is_waiting i (sc_queue t)" and "\<not> q_is_running i (sc_queue t)"
    by (simp_all add: q_waiting_or_running)
qed

fun placement_at :: "nat \<Rightarrow> member_placement option \<Rightarrow> placement" where
  "placement_at h None = PlGone"
| "placement_at h (Some (MemberRunning level)) = PlRunning h level"
| "placement_at h (Some MemberWaiting) = PlWaiting"
| "placement_at h (Some MemberStale) = PlStale"

lemma sched_place_held:
  "i \<in> set (queue_ids (sc_queue s)) \<Longrightarrow> fst (sched_place g now i s) \<noteq> None"
  by (cases rule: sched_place_cases [of i s g now]) (simp_all add: q_waiting_or_running)

lemma sched_place_absent:
  "\<not> q_is_waiting i (sc_queue s) \<Longrightarrow> \<not> q_is_running i (sc_queue s) \<Longrightarrow>
     sched_place g now i s = (None, s)"
  by (cases rule: sched_place_cases [of i s g now])
    (simp_all, metis option.distinct(1) q_running_level_None)

lemma sched_abandon_absent:
  "\<not> q_is_waiting i (sc_queue s) \<Longrightarrow> \<not> q_is_running i (sc_queue s) \<Longrightarrow>
     sched_abandon g now i s = (None, s)"
  by (cases rule: sched_abandon_cases [of i s g now]) simp_all

text \<open>
  The pools a scan sees under its locks as long as it finds nothing, and a call that stays with one
  member meanwhile.
\<close>

fun views :: "(nat \<Rightarrow> lock_turn) \<Rightarrow> nat \<Rightarrow> nat list \<Rightarrow> pool \<Rightarrow> pool list" where
  "views lt k [] p = []"
| "views lt k (h # hs) p = (let q = before (lt k) p in q # views lt (Suc k) hs q)"

definition held_by :: "nat \<Rightarrow> nat \<Rightarrow> pool \<Rightarrow> bool" where
  "held_by h i p = (case pool_get p h of None \<Rightarrow> False | Some s \<Rightarrow> i \<in> set (queue_ids (sc_queue s)))"

definition scanned :: "pending_call \<Rightarrow> pool \<Rightarrow> nat list" where
  "scanned pc p = pc_home pc # live_members p"

definition scan_views :: "(nat \<Rightarrow> lock_turn) \<Rightarrow> pending_call \<Rightarrow> pool \<Rightarrow> pool list" where
  "scan_views lt pc p = views lt 0 (scanned pc p) p"

text \<open>How many events of the others run during \<open>n\<close> turns.\<close>

definition others :: "(nat \<Rightarrow> lock_turn) \<Rightarrow> nat \<Rightarrow> nat \<Rightarrow> nat" where
  "others lt k n = (\<Sum>j<n. length (lk_before (lt (k + j))))"

lemma others_Suc: "others lt k (Suc n) = length (lk_before (lt k)) + others lt (Suc k) n"
  unfolding others_def by (subst sum.lessThan_Suc_shift) simp

lemma views_wf:
  "pool_wf p \<Longrightarrow> pl_next p + others lt k (length hs) < 2 ^ 64 \<Longrightarrow> q \<in> set (views lt k hs p) \<Longrightarrow> pool_wf q"
proof (induction hs arbitrary: k p)
  case (Cons h hs)
  let ?q = "before (lt k) p"
  have lim: "pl_next p + length (lk_before (lt k)) + others lt (Suc k) (length hs) < 2 ^ 64"
    using Cons.prems(2) by (simp add: others_Suc add.assoc)
  have "pool_wf ?q \<and> pl_next ?q \<le> pl_next p + length (lk_before (lt k))"
    unfolding before_def using Cons.prems(1) lim by (intro pool_run_wf) auto
  then show ?case using Cons.IH [of ?q "Suc k"] Cons.prems(3) lim by (auto simp: Let_def)
qed simp

lemma held_byE:
  assumes "held_by h i p"
  obtains s where "pool_get p h = Some s" "i \<in> set (queue_ids (sc_queue s))"
  using assms by (auto simp: held_by_def split: option.splits)

lemma place_scan_finds:
  assumes "\<forall>q \<in> set (views lt k hs p). pool_wf q \<and> held_by h i q" and "h \<in> set hs"
  shows "\<exists>q \<in> set (views lt k hs p). \<exists>s (t :: lock_turn). pool_get q h = Some s \<and>
    place_scan lt k i hs p =
      (placement_at h (fst (sched_place (lk_gates t h) (lk_now t) i s)),
       pool_put h (snd (sched_place (lk_gates t h) (lk_now t) i s)) q)"
  using assms
proof (induction hs arbitrary: k p)
  case (Cons m hs)
  let ?q = "before (lt k) p"
  have q: "pool_wf ?q" "held_by h i ?q" using Cons.prems(1) by (simp_all add: Let_def)
  obtain s where s: "pool_get ?q h = Some s" "i \<in> set (queue_ids (sc_queue s))" using held_byE [OF q(2)] by blast
  show ?case
  proof (cases "m = h")
    case True
    obtain a s' where pl: "sched_place (lk_gates (lt k) h) (lk_now (lt k)) i s = (Some a, s')"
      using sched_place_held [OF s(2)] by (metis option.exhaust prod.collapse)
    then have "place_scan lt k i (m # hs) p = (placement_at h (Some a), pool_put h s' ?q)"
      using True s(1) by (cases a) (simp_all add: Let_def)
    then have "place_scan lt k i (m # hs) p =
        (placement_at h (fst (sched_place (lk_gates (lt k) h) (lk_now (lt k)) i s)),
         pool_put h (snd (sched_place (lk_gates (lt k) h) (lk_now (lt k)) i s)) ?q)" by (simp only: pl fst_conv snd_conv)
    moreover have "?q \<in> set (views lt k (m # hs) p)" by (simp add: Let_def)
    ultimately show ?thesis using s(1) by blast
  next
    case False
    have "place_scan lt k i (m # hs) p = place_scan lt (Suc k) i hs ?q"
    proof (cases "pool_get ?q m")
      case (Some t)
      from sched_place_absent [OF pool_other_absent [OF q(1) s Some False]] Some
      show ?thesis by (simp add: Let_def)
    qed (simp add: Let_def)
    then show ?thesis using Cons.IH [of "Suc k" ?q] Cons.prems False by (auto simp: Let_def)
  qed
qed simp

lemma live_members_put: "pool_get q h = Some t \<Longrightarrow> live_members (pool_put h s q) = live_members q"
  by (auto simp: live_members_def pool_get_put intro!: filter_cong)

lemma views_alive: "q \<in> set (views lt k hs p) \<Longrightarrow> pool_get q h = None \<longleftrightarrow> pool_get p h = None"
proof (induction hs arbitrary: k p)
  case (Cons m hs)
  then consider "q = before (lt k) p" | "q \<in> set (views lt (Suc k) hs (before (lt k) p))" by (auto simp: Let_def)
  then show ?case
  proof cases
    case 2
    then show ?thesis using Cons.IH before_alive(1) by blast
  qed (simp add: before_alive(1))
qed simp

lemma pool_placement_scan:
  "pool_placement lt (pc_home pc) i p = place_scan lt 0 i (scanned pc p) p"
proof -
  show ?thesis
    by (auto simp: pool_placement_def scanned_def pool_place_def live_members_put Let_def
        split: option.split prod.split member_placement.split)
qed

lemma scanned_member:
  assumes "held_by h i q" "q \<in> set (scan_views lt pc p)" "h = pc_home pc \<or> h \<in> set (pl_members p)"
  shows "h \<in> set (scanned pc p)"
proof -
  have "pool_get p h \<noteq> None" using assms(1,2) views_alive unfolding scan_views_def held_by_def by (metis option.case(1))
  then show ?thesis using assms(3) by (auto simp: scanned_def live_members_def)
qed

lemma pool_placement_finds:
  assumes "\<forall>q \<in> set (scan_views lt pc p). pool_wf q \<and> held_by h i q"
    and "h = pc_home pc \<or> h \<in> set (pl_members p)"
  shows "\<exists>q s (t :: lock_turn). pool_wf q \<and> pool_get q h = Some s \<and> i \<in> set (queue_ids (sc_queue s)) \<and>
    pool_placement lt (pc_home pc) i p =
      (placement_at h (fst (sched_place (lk_gates t h) (lk_now t) i s)),
       pool_put h (snd (sched_place (lk_gates t h) (lk_now t) i s)) q)"
proof -
  have "before (lt 0) p \<in> set (scan_views lt pc p)" by (simp add: scan_views_def scanned_def Let_def)
  then have "h \<in> set (scanned pc p)" using scanned_member [OF _ _ assms(2)] assms(1) by blast
  from place_scan_finds [of lt 0 "scanned pc p" p h i, OF _ this] assms(1)
  obtain q s and t :: lock_turn where q: "q \<in> set (scan_views lt pc p)" "pool_get q h = Some s"
    "place_scan lt 0 i (scanned pc p) p =
      (placement_at h (fst (sched_place (lk_gates t h) (lk_now t) i s)),
       pool_put h (snd (sched_place (lk_gates t h) (lk_now t) i s)) q)"
    unfolding scan_views_def by blast
  moreover have "i \<in> set (queue_ids (sc_queue s))" "pool_wf q" using assms(1) q(1,2) by (auto simp: held_by_def)
  ultimately show ?thesis unfolding pool_placement_scan by blast
qed

lemma abandon_gone:
  assumes "queue_wf (sc_queue s)"
  shows "i \<notin> set (queue_ids (sc_queue (snd (sched_abandon g now i s))))"
proof (cases rule: sched_abandon_cases [of i s g now])
  case withdrawn
  then have "\<not> q_is_running i (snd (q_withdraw i (sc_queue s)))"
    using queue_wf_not_both [OF assms] by (simp add: q_is_running_def q_withdraw_def Let_def)
  with withdrawn show ?thesis by (simp add: q_waiting_or_running q_withdraw_gone)
next
  case cancelled
  then obtain r q where c: "q_complete i (sc_queue s) = Some (r, q)"
    using q_complete_None [of i "sc_queue s"] by (cases "q_complete i (sc_queue s)") auto
  have "set (queue_ids (sc_queue (sched_finish g now i report s))) = set (queue_ids q)" for report
    using mset_eq_setD [OF step_dispatch_ids [of g now "finish_folded now i report r q s"]]
    by (simp add: sched_finish_complete [OF c])
  then show ?thesis using q_complete_wf(2) [OF assms c] cancelled by simp
next
  case absent
  then show ?thesis by (simp add: q_waiting_or_running)
qed

lemma abandon_scan_finds:
  assumes "\<forall>q \<in> set (views lt k hs p). pool_wf q \<and> held_by h i q" and "h \<in> set hs"
  shows "\<exists>q \<in> set (views lt k hs p). \<exists>s (t :: lock_turn). pool_get q h = Some s \<and>
    abandon_scan lt k i hs p = (True, pool_put h (snd (sched_abandon (lk_gates t h) (lk_now t) i s)) q)"
  using assms
proof (induction hs arbitrary: k p)
  case (Cons m hs)
  let ?q = "before (lt k) p"
  have q: "pool_wf ?q" "held_by h i ?q" using Cons.prems(1) by (simp_all add: Let_def)
  obtain s where s: "pool_get ?q h = Some s" "i \<in> set (queue_ids (sc_queue s))" using held_byE [OF q(2)] by blast
  show ?case
  proof (cases "m = h")
    case True
    have "abandon_scan lt k i (m # hs) p =
        (True, pool_put h (snd (sched_abandon (lk_gates (lt k) h) (lk_now (lt k)) i s)) ?q)"
      by (cases rule: sched_abandon_cases [of i s "lk_gates (lt k) h" "lk_now (lt k)"])
        (use True s in \<open>simp_all add: q_waiting_or_running Let_def\<close>)
    moreover have "?q \<in> set (views lt k (m # hs) p)" by (simp add: Let_def)
    ultimately show ?thesis using s(1) by blast
  next
    case False
    have "abandon_scan lt k i (m # hs) p = abandon_scan lt (Suc k) i hs ?q"
    proof (cases "pool_get ?q m")
      case (Some t)
      from sched_abandon_absent [OF pool_other_absent [OF q(1) s Some False]] Some
      show ?thesis by (simp add: Let_def)
    qed (simp add: Let_def)
    then show ?thesis using Cons.IH [of "Suc k" ?q] Cons.prems False by (auto simp: Let_def)
  qed
qed simp

lemma pending_drop_scan:
  "pending_drop lt pc p =
     (if \<not> pc_armed pc then p
      else
        (let (abandoned, p') = abandon_scan lt 0 (pc_id pc) (scanned pc p) p
         in if abandoned then pool_update (pc_home pc) sched_changed p' else p'))"
  by (auto simp: pending_drop_def pool_abandon_def scanned_def live_members_put Let_def
      split: option.split prod.split)

lemma pool_put_gone:
  assumes "pool_wf p" and "pool_get p h = Some s" and "i \<in> set (queue_ids (sc_queue s))"
    and "i \<notin> set (queue_ids (sc_queue s'))"
  shows "i \<notin> set (pool_ids (pool_put h s' p))"
proof -
  have one: "count (mset (pool_ids p)) i \<le> 1" using assms(1)
    by (simp add: pool_wf_def distinct_count_atmost_1)
  have "count (mset (queue_ids (sc_queue s))) i \<ge> 1" using assms(3)
    by (simp add: Suc_le_eq)
  moreover have "count (mset (queue_ids (sc_queue s'))) i = 0"
    using assms(4) by (simp add: count_eq_zero_iff)
  moreover have "count (mset (pool_ids (pool_put h s' p))) i + count (mset (queue_ids (sc_queue s))) i
      = count (mset (pool_ids p)) i + count (mset (queue_ids (sc_queue s'))) i"
    by (metis count_union mset_pool_put [OF assms(2)])
  ultimately have "count (mset (pool_ids (pool_put h s' p))) i = 0" using one by linarith
  then show ?thesis by (metis count_mset_0_iff)
qed

lemma pool_update_changed_ids [simp]: "pool_ids (pool_update h sched_changed p) = pool_ids p"
proof (cases "pool_get p h")
  case (Some s)
  have "map held_ids ((pl_store p)[h := Some (sched_changed s)]) = map held_ids (pl_store p)"
    using pool_get_Some [OF Some] by (simp add: map_update held_ids_def list_update_same_conv)
  then show ?thesis by (simp add: pool_update_def Some pool_ids_def pool_put_def)
qed (simp add: pool_update_def)

section \<open>Moves and the longest start\<close>

definition moved_loads :: "nat \<Rightarrow> nat \<Rightarrow> load list \<Rightarrow> load list" where
  "moved_loads source target loads =
     map (\<lambda>(k, l). l\<lparr>ld_calls := calls_after_move source target k l\<rparr>) (List.enumerate 0 loads)"

text \<open>A sequence of moves, each one accepted and onto a backend that is not idle.\<close>

fun accepted_moves :: "load list \<Rightarrow> (nat \<times> nat) list \<Rightarrow> bool" where
  "accepted_moves loads [] = True"
| "accepted_moves loads ((source, target) # ms) =
     (lowers_the_worst loads source target \<and> ld_calls (loads ! target) \<noteq> 0 \<and>
      accepted_moves (moved_loads source target loads) ms)"

lemma moved_loads_start:
  "map load_start_ms (moved_loads source target loads) =
     map (\<lambda>(k, l). load_start_with l (calls_after_move source target k l)) (List.enumerate 0 loads)"
  by (auto simp: moved_loads_def load_start_ms_def load_start_with_def)

lemma accepted_moves_bound:
  "accepted_moves loads ms \<Longrightarrow> length ms \<le> worst_start (map load_start_ms loads)"
proof (induction ms arbitrary: loads)
  case Nil
  then show ?case by simp
next
  case (Cons m ms)
  obtain source target where m: "m = (source, target)" by (cases m)
  from Cons.prems m have "worst_start (map load_start_ms (moved_loads source target loads))
      < worst_start (map load_start_ms loads)"
    by (auto simp: lowers_the_worst_def Let_def moved_loads_start)
  with Cons.IH [of "moved_loads source target loads"] Cons.prems m show ?case by simp
qed

text \<open>A slot that a poll answers is one of the scheduler that holds the call.\<close>

lemma poll_finds_the_call_slot:
  assumes "\<forall>q \<in> set (scan_views lt pc p). pool_wf q \<and> held_by h (pc_id pc) q"
    and "h = pc_home pc \<or> h \<in> set (pl_members p)"
    and "poll_placement lt pc p = (PollReady (Inr slot), pc', p')"
  shows "cs_home slot = h"
proof -
  obtain q s and t :: lock_turn where f: "pc_id pc \<in> set (queue_ids (sc_queue s))"
    "pool_placement lt (pc_home pc) (pc_id pc) p =
      (placement_at h (fst (sched_place (lk_gates t h) (lk_now t) (pc_id pc) s)),
       pool_put h (snd (sched_place (lk_gates t h) (lk_now t) (pc_id pc) s)) q)"
    using pool_placement_finds [OF assms(1,2)] by blast
  obtain m where "fst (sched_place (lk_gates t h) (lk_now t) (pc_id pc) s) = Some m"
    using sched_place_held [OF f(1)] by blast
  with f(2) assms(3) show ?thesis by (cases m) (auto simp: poll_placement_def)
qed

section \<open>Properties\<close>

definition fresh_pool :: "(backend_id \<times> scheduler_config) list \<Rightarrow> nat list \<Rightarrow> nat \<Rightarrow> instant \<Rightarrow> pool" where
  "fresh_pool bs members nx now =
     \<lparr>pl_store = map (\<lambda>(b, c). Some (sched_new b c now)) bs, pl_members = members, pl_next = nx\<rparr>"

lemma fresh_pool_wf: "pool_wf (fresh_pool bs members nx now)"
proof -
  have "held_ids (Some (sched_new b c now)) = []" for b c
    by (simp add: held_ids_def sched_new_def queue_ids_def queue_empty_def)
  then have "pool_ids (fresh_pool bs members nx now) = []"
    by (auto simp: pool_ids_def fresh_pool_def)
  moreover have "pool_all (\<lambda>s. queue_wf (sc_queue s)) (fresh_pool bs members nx now)"
    by (auto simp: pool_all_def pool_get_def fresh_pool_def sched_new_def queue_wf_empty
        split: if_splits prod.splits)
  ultimately show ?thesis by (simp add: pool_wf_def)
qed

lemma fresh_pool_ok:
  assumes "\<forall>(b, c) \<in> set bs. scheduler_config_validate c = Inr ()"
  shows "pool_all sched_ok (fresh_pool bs members nx now)"
proof -
  have "sched_ok s" if "h < length bs" "s = sched_new (fst (bs ! h)) (snd (bs ! h)) now" for h s
  proof -
    have "bs ! h \<in> set bs" using that(1) by simp
    with assms have "scheduler_config_validate (snd (bs ! h)) = Inr ()" by auto
    then show ?thesis unfolding that(2) by (rule sched_new_ok)
  qed
  then show ?thesis
    by (auto simp: pool_all_def pool_get_def fresh_pool_def split: if_splits prod.splits)
      (metis fst_conv snd_conv)
qed

definition demo_pool :: pool where
  "demo_pool = fresh_pool [(''a'', demo_config), (''b'', demo_config)] [0, 1] 0 0"

definition held_waiter :: waiter where
  "held_waiter = \<lparr>w_id = 0, w_meta = demo_call, w_value = 1, w_arrived = 0\<rparr>"

definition held_sched :: scheduler where
  "held_sched = (sched_new ''b'' demo_config 0)
     \<lparr>sc_queue := \<lparr>q_waiting = [held_waiter], q_running = []\<rparr>\<rparr>"

definition held_pool :: pool where
  "held_pool = \<lparr>pl_store = [Some (sched_new ''a'' demo_config 0), Some held_sched],
     pl_members = [0, 1], pl_next = 1\<rparr>"

definition held_pending :: pending_call where
  "held_pending = \<lparr>pc_home = 0, pc_id = 0, pc_armed = True\<rparr>"

lemma held_pool_facts:
  "pool_wf held_pool" "pool_get held_pool 1 = Some held_sched"
  "pc_id held_pending \<in> set (queue_ids (sc_queue held_sched))"
  "1 = pc_home held_pending \<or> 1 \<in> set (pl_members held_pool)"
proof -
  have new: "sc_queue (sched_new b c t) = queue_empty" for b c t by (simp add: sched_new_def)
  have "sc_queue s = queue_empty \<or> sc_queue s = \<lparr>q_waiting = [held_waiter], q_running = []\<rparr>"
    if "pool_get held_pool h = Some s" for h s
    using that
    by (auto simp: pool_get_def held_pool_def held_sched_def new nth_Cons split: if_splits nat.splits)
  moreover have "queue_wf queue_empty" "queue_wf \<lparr>q_waiting = [held_waiter], q_running = []\<rparr>"
    by (simp_all add: queue_wf_empty) (simp add: queue_wf_def queue_ids_def)
  ultimately have "pool_all (\<lambda>s. queue_wf (sc_queue s)) held_pool"
    unfolding pool_all_def by metis
  then show "pool_wf held_pool"
    by (simp add: pool_wf_def pool_ids_def held_pool_def held_ids_def held_sched_def new
        queue_empty_def queue_ids_def held_waiter_def)
qed (simp_all add: held_pool_def pool_get_def held_pending_def held_sched_def queue_ids_def
    held_waiter_def)

lemma fresh_pool_alive:
  assumes "pool_get (foldl pool_step (fresh_pool bs members nx now) es) h = Some s"
  shows "\<exists>s0. pool_get (fresh_pool bs members nx now) h = Some s0 \<and> sched_census s0 = 0 \<and> waiting_capped 0 s0"
proof -
  have "pool_get (before \<lparr>lk_before = es, lk_gates = \<lambda>_. open_gate, lk_now = 0\<rparr> (fresh_pool bs members nx now)) h \<noteq> None"
    using assms by (simp add: before_def)
  then obtain s0 where s0: "pool_get (fresh_pool bs members nx now) h = Some s0" unfolding before_alive(1) by auto
  then have "\<exists>b c. s0 = sched_new b c now"
    by (auto simp: pool_get_def fresh_pool_def split: if_splits prod.splits)
  then show ?thesis using s0 by (auto simp: sched_census_def sched_new_def queue_ids_def queue_empty_def waiting_capped_def)
qed

text \<open>A run in which a rebalance brings a call to the second scheduler.\<close>

definition demo_events :: "((nat \<Rightarrow> gate) \<times> pool_event) list" where
  "demo_events = [(\<lambda>_. open_gate, PeEnqueue 1 0 demo_call), (\<lambda>_. open_gate, PeEnqueue 2 0 demo_call),
     (\<lambda>_. open_gate, PeMove 3 0 1 1), (\<lambda>_. open_gate, PePlace 4 1 1)]"

lemma demo_valid: "\<forall>(b, c) \<in> set [(''a'', demo_config), (''b'', demo_config)]. scheduler_config_validate c = Inr ()"
  by (simp add: scheduler_config_validate_def demo_config_def max_ceiling_def)

lemma demo_alive:
  obtains s where "pool_get (foldl pool_step demo_pool demo_events) 1 = Some s"
proof -
  have "pool_get demo_pool 1 \<noteq> None" by (simp add: demo_pool_def fresh_pool_def pool_get_def)
  then have "pool_get (before \<lparr>lk_before = demo_events, lk_gates = \<lambda>_. open_gate, lk_now = 0\<rparr> demo_pool) 1 \<noteq> None" by (simp only: before_alive(1) not_False_eq_True)
  then show ?thesis using that by (auto simp: before_def)
qed

text \<open>Others hold a lane between the locks of a poll.\<close>

definition busy_turns :: "nat \<Rightarrow> lock_turn" where
  "busy_turns k = \<lparr>lk_before = [(\<lambda>_. open_gate, PeHold 1 5 7)], lk_gates = (\<lambda>_. open_gate), lk_now = 5\<rparr>"

lemma hold_keeps_held: "held_by h i (pool_step p (gt, PeHold k now d)) = held_by h i p"
  by (simp add: held_by_def pool_get_update sched_hold_reserved_for_def split: option.split)

lemma busy_facts:
  "pl_next held_pool + others busy_turns 0 (length (scanned held_pending held_pool)) < 2 ^ 64"
  "\<forall>q \<in> set (scan_views busy_turns held_pending held_pool). held_by 1 (pc_id held_pending) q"
proof -
  have "length (scanned held_pending held_pool) \<le> 3" by (simp add: scanned_def live_members_def held_pool_def)
  then show "pl_next held_pool + others busy_turns 0 (length (scanned held_pending held_pool)) < 2 ^ 64"
    by (simp add: others_def busy_turns_def held_pool_def)
  have keep: "held_by 1 i (before (busy_turns k) p) = held_by 1 i p" for i k p
    by (simp only: before_def busy_turns_def lock_turn.select_convs foldl.simps hold_keeps_held)
  have "held_by 1 i q" if "held_by 1 i p" "q \<in> set (views busy_turns k hs p)" for i k hs p q
    using that
  proof (induction hs arbitrary: k p)
    case (Cons h hs)
    then show ?case using Cons.IH [of "before (busy_turns k) p" "Suc k"] keep by (auto simp only: views.simps Let_def set_simps insert_iff)
  qed simp
  moreover have "held_by 1 (pc_id held_pending) held_pool" using held_pool_facts(2,3) by (simp add: held_by_def)
  ultimately show "\<forall>q \<in> set (scan_views busy_turns held_pending held_pool). held_by 1 (pc_id held_pending) q"
    unfolding scan_views_def by blast
qed

text \<open>
C3: Over any interleaving of enqueues, the locks of polls and drops, completions, moves and holds on
the schedulers of a pool, no call id is ever held twice, in one scheduler or in two, and no scheduler
runs more calls than its ceiling.
\<close>

theorem pool_never_holds_a_call_twice:
  assumes "\<forall>(b, c) \<in> set bs. scheduler_config_validate c = Inr ()"
    and "nx + length es < 2 ^ 64" and "p = foldl pool_step (fresh_pool bs members nx now) es"
  shows "distinct (pool_ids p) \<and>
    (\<forall>h s. pool_get p h = Some s \<longrightarrow> length (q_running (sc_queue s)) \<le> cfg_ceiling (sc_config s))"
proof -
  have "pl_next (fresh_pool bs members nx now) + length es < 2 ^ 64"
    using assms(2) by (simp add: fresh_pool_def)
  then have "pool_wf p" unfolding assms(3) using pool_run_wf [OF fresh_pool_wf] by blast
  moreover have "pool_all sched_ok p"
    unfolding assms(3) by (rule pool_run.run_inv [OF fresh_pool_ok [OF assms(1)]])
  ultimately show ?thesis by (auto simp: pool_wf_def pool_all_def sched_ok_def)
qed

theorem pool_never_holds_a_call_twice_witness:
  "distinct (pool_ids (foldl pool_step demo_pool
     [(\<lambda>_. open_gate, PeEnqueue 1 0 demo_call), (\<lambda>_. open_gate, PeEnqueue 2 0 demo_call),
      (\<lambda>_. open_gate, PeMove 3 0 1 1)]))"
proof -
  let ?es = "[(\<lambda>_. open_gate, PeEnqueue 1 0 demo_call), (\<lambda>_. open_gate, PeEnqueue 2 0 demo_call),
      (\<lambda>_. open_gate, PeMove 3 0 1 1)]"
  have "\<forall>(b, c) \<in> set [(''a'', demo_config), (''b'', demo_config)].
      scheduler_config_validate c = Inr ()"
    by (simp add: scheduler_config_validate_def demo_config_def max_ceiling_def)
  moreover have "0 + length ?es < 2 ^ 64" by simp
  ultimately show ?thesis
    using pool_never_holds_a_call_twice [where es = ?es and nx = 0 and now = 0 and members = "[0, 1]"]
    unfolding demo_pool_def by blast
qed

text \<open>
C7: Whatever happens in a pool, a scheduler runs at most its ceiling of calls (at most 64), keeps at
most 64 completed calls and the totals of at most 33 kinds, its pace is at least a millisecond, and
at most \<open>max_waiting\<close> calls wait on it and as many more as rebalances brought: an enqueue never
exceeds \<open>max_waiting\<close>, a move does not ask.
\<close>

theorem scheduler_stays_bounded:
  assumes "\<forall>(b, c) \<in> set bs. scheduler_config_validate c = Inr ()"
    and "nx + length es < 2 ^ 64"
    and "pool_get (foldl pool_step (fresh_pool bs members nx now) es) h = Some s"
  shows "length (q_running (sc_queue s)) \<le> cfg_ceiling (sc_config s) \<and>
    cfg_ceiling (sc_config s) \<le> 64 \<and>
    length (q_waiting (sc_queue s)) \<le>
      cfg_max_waiting (sc_config s) + tally (pool_moved_in h) (fresh_pool bs members nx now) es \<and>
    length (sc_recent s) \<le> 64 \<and> length (sc_totals s) \<le> 33 \<and> 1 \<le> sc_pace s"
proof -
  obtain s0 where s0: "pool_get (fresh_pool bs members nx now) h = Some s0" "waiting_capped 0 s0"
    using fresh_pool_alive [OF assms(3)] by blast
  have lim: "pl_next (fresh_pool bs members nx now) + length es < 2 ^ 64" using assms(2) by (simp add: fresh_pool_def)
  have "waiting_capped (tally (pool_moved_in h) (fresh_pool bs members nx now) es) s"
    using account_run [OF fresh_pool_wf fresh_pool_ok [OF assms(1)] s0(1) lim, of 0] s0(2) assms(3) by simp
  moreover have "sched_ok s"
    using pool_run.run_inv [OF fresh_pool_ok [OF assms(1)], of members nx now es] assms(3) by (auto simp: pool_all_def)
  ultimately show ?thesis
    by (auto simp: sched_ok_def waiting_capped_def totals_wf_def max_ceiling_def max_kinds_def recent_calls_def)
qed

theorem scheduler_stays_bounded_witness:
  "\<exists>s. pool_get (foldl pool_step demo_pool demo_events) 1 = Some s \<and>
     length (q_waiting (sc_queue s)) \<le> cfg_max_waiting (sc_config s) + tally (pool_moved_in 1) demo_pool demo_events"
proof -
  obtain s where s: "pool_get (foldl pool_step demo_pool demo_events) 1 = Some s" by (rule demo_alive)
  show ?thesis
    using scheduler_stays_bounded [of "[(''a'', demo_config), (''b'', demo_config)]" 0 demo_events "[0, 1]" 0 1 s]
      s demo_valid by (auto simp: demo_pool_def demo_events_def)
qed

text \<open>
C2: No call is lost or counted twice: after any run of a pool, the calls a scheduler accepted and
those that rebalances brought to it are exactly those waiting on it, those it runs, those withdrawn
from it unsent (stale, or abandoned while they waited), those that rebalances took from it and
those its per-kind totals count as completed.
\<close>

theorem every_call_is_accounted_for:
  assumes "\<forall>(b, c) \<in> set bs. scheduler_config_validate c = Inr ()"
    and "nx + length es < 2 ^ 64" and "p0 = fresh_pool bs members nx now"
    and "pool_get (foldl pool_step p0 es) h = Some s"
  shows "tally (pool_accepted h) p0 es + tally (pool_moved_in h) p0 es =
    length (q_waiting (sc_queue s)) + length (q_running (sc_queue s)) +
    tally (pool_withdrawn h) p0 es + tally (pool_moved_out h) p0 es +
    (\<Sum>e\<leftarrow>sc_totals s. kt_calls (snd e))"
proof -
  obtain s0 where s0: "pool_get p0 h = Some s0" "sched_census s0 = 0"
    using fresh_pool_alive [OF assms(4) [unfolded assms(3)]] assms(3) by blast
  have lim: "pl_next p0 + length es < 2 ^ 64" using assms(2,3) by (simp add: fresh_pool_def)
  have "sched_census s + tally (pool_withdrawn h) p0 es + tally (pool_moved_out h) p0 es =
      tally (pool_accepted h) p0 es + tally (pool_moved_in h) p0 es"
    using account_run [of p0 h s0 es 0] fresh_pool_wf fresh_pool_ok [OF assms(1)] s0 lim assms(2-4) by simp
  then show ?thesis by (simp add: sched_census_def queue_ids_length)
qed

theorem every_call_is_accounted_for_witness:
  "\<exists>s. pool_get (foldl pool_step demo_pool demo_events) 1 = Some s \<and>
     tally (pool_accepted 1) demo_pool demo_events + tally (pool_moved_in 1) demo_pool demo_events =
       length (q_waiting (sc_queue s)) + length (q_running (sc_queue s)) +
       tally (pool_withdrawn 1) demo_pool demo_events + tally (pool_moved_out 1) demo_pool demo_events +
       (\<Sum>e\<leftarrow>sc_totals s. kt_calls (snd e))"
proof -
  obtain s where s: "pool_get (foldl pool_step demo_pool demo_events) 1 = Some s" by (rule demo_alive)
  have "0 + length demo_events < 2 ^ 64" by (simp add: demo_events_def)
  from every_call_is_accounted_for [OF demo_valid this demo_pool_def s] s show ?thesis by blast
qed

text \<open>
C4: The future of a queued call finds it wherever a rebalance put it: a poll looks at one member
after the other, the others run in between, and if no rebalance moves the call while it looks, a
call held by its home scheduler or by a live member is never lost. The poll stays pending only if
the call waits where it was, it answers exactly with a slot of the scheduler and id that then run
it, and it fails only by withdrawing the call, which nothing then holds.
\<close>

theorem poll_finds_the_call:
  assumes "pool_wf p" and "pl_next p + others lt 0 (length (scanned pc p)) < 2 ^ 64"
    and "h = pc_home pc \<or> h \<in> set (pl_members p)"
    and "\<forall>q \<in> set (scan_views lt pc p). held_by h (pc_id pc) q"
    and "poll_placement lt pc p = (answer, pc', p')"
  shows "case answer of
      PollPending \<Rightarrow> pc' = pc \<and>
        (\<exists>s'. pool_get p' h = Some s' \<and> q_is_waiting (pc_id pc) (sc_queue s'))
    | PollReady (Inr slot) \<Rightarrow> \<not> pc_armed pc' \<and> cs_home slot = h \<and> cs_id slot = pc_id pc \<and>
        (\<exists>s' r. pool_get p' h = Some s' \<and> r \<in> set (q_running (sc_queue s')) \<and>
           r_id r = pc_id pc \<and> r_level r = cs_level slot)
    | PollReady (Inl e) \<Rightarrow> \<not> pc_armed pc' \<and> e = SchedInputsChanged \<and>
        pc_id pc \<notin> set (pool_ids p')"
proof -
  have "\<forall>q \<in> set (scan_views lt pc p). pool_wf q \<and> held_by h (pc_id pc) q"
    using views_wf [OF assms(1,2)] assms(4) unfolding scan_views_def by blast
  from pool_placement_finds [OF this assms(3)] obtain q s and t :: lock_turn where
    q: "pool_wf q" "pool_get q h = Some s" "pc_id pc \<in> set (queue_ids (sc_queue s))"
    and f: "pool_placement lt (pc_home pc) (pc_id pc) p =
      (placement_at h (fst (sched_place (lk_gates t h) (lk_now t) (pc_id pc) s)),
       pool_put h (snd (sched_place (lk_gates t h) (lk_now t) (pc_id pc) s)) q)" by blast
  have wf: "queue_wf (sc_queue s)" using q(1,2) by (auto simp: pool_wf_def pool_all_def)
  obtain m s' where pl: "sched_place (lk_gates t h) (lk_now t) (pc_id pc) s = (Some m, s')"
    using sched_place_held [OF q(3)] by (metis option.exhaust prod.collapse)
  have h': "pool_get (pool_put h s' q) h = Some s'"
    using pool_get_Some [OF q(2)] by (simp add: pool_get_put)
  note spec = sched_place_spec [OF wf, of "pc_id pc" "lk_gates t h" "lk_now t", unfolded pl]
  show ?thesis
  proof (cases m)
    case (MemberRunning level)
    with f pl h' spec assms(5) show ?thesis by (auto simp: poll_placement_def)
  next
    case MemberWaiting
    with f pl h' spec assms(5) show ?thesis by (auto simp: poll_placement_def)
  next
    case MemberStale
    with spec have "pc_id pc \<notin> set (queue_ids (sc_queue s'))" by simp
    from pool_put_gone [OF q this] MemberStale f pl assms(5) show ?thesis
      by (auto simp: poll_placement_def)
  qed
qed

theorem poll_finds_the_call_witness:
  "case fst (poll_placement busy_turns held_pending held_pool) of
      PollPending \<Rightarrow> \<exists>s'. pool_get (snd (snd (poll_placement busy_turns held_pending
        held_pool))) 1 = Some s' \<and> q_is_waiting 0 (sc_queue s')
    | PollReady (Inr slot) \<Rightarrow> cs_home slot = 1 \<and> cs_id slot = 0
    | PollReady (Inl e) \<Rightarrow> e = SchedInputsChanged"
proof -
  obtain answer pc' p' where e: "poll_placement busy_turns held_pending held_pool = (answer, pc', p')"
    by (metis prod_cases3)
  have "pc_id held_pending = 0" by (simp add: held_pending_def)
  with poll_finds_the_call [OF held_pool_facts(1) busy_facts(1) held_pool_facts(4) busy_facts(2) e] show ?thesis
    by (auto simp: e split: poll_result.splits sum.splits)
qed

text \<open>
C9: Dropping the future of a queued call that was not yet answered takes the call out of the pool,
whichever scheduler holds it, if no rebalance moves it while the drop looks for it: afterwards no
scheduler has it waiting or running.
\<close>

theorem dropped_call_is_gone:
  assumes "pool_wf p" and "pl_next p + others lt 0 (length (scanned pc p)) < 2 ^ 64"
    and "h = pc_home pc \<or> h \<in> set (pl_members p)"
    and "\<forall>q \<in> set (scan_views lt pc p). held_by h (pc_id pc) q" and "pc_armed pc"
  shows "pc_id pc \<notin> set (pool_ids (pending_drop lt pc p))"
proof -
  have all: "\<forall>q \<in> set (scan_views lt pc p). pool_wf q \<and> held_by h (pc_id pc) q"
    using views_wf [OF assms(1,2)] assms(4) unfolding scan_views_def by blast
  have "before (lt 0) p \<in> set (scan_views lt pc p)" by (simp add: scan_views_def scanned_def Let_def)
  then have "h \<in> set (scanned pc p)" using scanned_member [OF _ _ assms(3)] all by blast
  then obtain q s and t :: lock_turn where q: "q \<in> set (scan_views lt pc p)" "pool_get q h = Some s"
    and scan: "abandon_scan lt 0 (pc_id pc) (scanned pc p) p =
      (True, pool_put h (snd (sched_abandon (lk_gates t h) (lk_now t) (pc_id pc) s)) q)"
    using abandon_scan_finds [of lt 0 "scanned pc p" p h "pc_id pc"] all unfolding scan_views_def by blast
  have wf: "pool_wf q" "pc_id pc \<in> set (queue_ids (sc_queue s))" using all q by (auto simp: held_by_def)
  then have "queue_wf (sc_queue s)" using q(2) by (auto simp: pool_wf_def pool_all_def)
  from pool_put_gone [OF wf(1) q(2) wf(2) abandon_gone [OF this]] scan assms(5) show ?thesis
    by (simp add: pending_drop_scan)
qed

theorem dropped_call_is_gone_witness:
  "0 \<notin> set (pool_ids (pending_drop busy_turns held_pending held_pool))"
proof -
  have "pc_armed held_pending" "pc_id held_pending = 0" by (simp_all add: held_pending_def)
  then show ?thesis
    using dropped_call_is_gone [OF held_pool_facts(1) busy_facts(1) held_pool_facts(4) busy_facts(2)] by metis
qed

text \<open>
  A rebalance hands over exactly one call: it was waiting on the source, its allowed set names
the target and its task is not stale, no other such call is preferred to it, the source keeps all
its other calls and everything it runs, and the target then holds the call, with the same value
and arrival if it still waits there.
\<close>

theorem move_hands_over_the_best_call:
  assumes "move_waiting sg tg now tb s t = (True, s', t')"
    and "queue_wf (sc_queue t)" and "distinct (queue_ids (sc_queue s) @ queue_ids (sc_queue t))"
  shows "\<exists>w \<in> set (q_waiting (sc_queue s)). movable sg tb w \<and>
    (\<forall>v \<in> set (q_waiting (sc_queue s)). movable sg tb v \<longrightarrow> waiter_le v w) \<and>
    mset (q_waiting (sc_queue s)) = add_mset w (mset (q_waiting (sc_queue s'))) \<and>
    q_running (sc_queue s') = q_running (sc_queue s) \<and>
    (q_is_running (w_id w) (sc_queue t') \<or> w \<in> set (q_waiting (sc_queue t')))"
proof -
  from assms(1) obtain i where i: "q_best (movable sg tb) (sc_queue s) = Some i"
    by (cases "q_best (movable sg tb) (sc_queue s)") (auto simp: move_waiting_None)
  let ?w = "q_waiting (sc_queue s) ! i"
  let ?t = "waiting_set (\<lambda>ws. ws @ [?w]) t"
  from assms(1) i have s': "s' = sched_changed (waiting_set (remove_at i) s)"
    and t': "t' = sched_changed (sched_notify (sched_step tg now ?t))"
    by (simp_all add: move_waiting_Some)
  note best = q_best_Some [OF i]
  have "?w \<in> set (q_waiting (sc_queue t')) \<or> q_is_running (w_id ?w) (sc_queue t')"
    using step_keeps_or_starts [of ?w ?t tg now] by (simp add: t')
  moreover have "mset (q_waiting (sc_queue s)) = add_mset ?w (mset (q_waiting (sc_queue s')))"
    using mset_remove_at [OF best(1)] by (simp add: s')
  ultimately show ?thesis using best by (intro bexI [of _ ?w]) (auto simp: s')
qed

theorem move_hands_over_the_best_call_witness:
  "\<exists>w \<in> set (q_waiting (sc_queue held_sched)). movable open_gate 1 w"
proof -
  have "q_best (movable open_gate 1) (sc_queue held_sched) = Some 0"
    by (simp add: held_sched_def held_waiter_def q_best_def movable_def demo_call_def
        call_meta_new_def meta_is_stale_def max_by_def)
  from move_waiting_Some [OF this, of open_gate 5 "sched_new ''a'' demo_config 0"]
  obtain s' t' where "move_waiting open_gate open_gate 5 1 held_sched (sched_new ''a'' demo_config 0)
      = (True, s', t')" by blast
  moreover have "queue_wf (sc_queue (sched_new ''a'' demo_config 0))"
    by (simp add: sched_new_def queue_wf_empty)
  moreover have "distinct (queue_ids (sc_queue held_sched)
      @ queue_ids (sc_queue (sched_new ''a'' demo_config 0)))"
    by (simp add: held_sched_def queue_ids_def sched_new_def queue_empty_def)
  ultimately show ?thesis using move_hands_over_the_best_call by blast
qed

text \<open>
Moves that \<open>lowers_the_worst\<close> accepts onto busy backends settle: at unchanged paces and
levels a sequence of them is no longer than the longest estimated start, in milliseconds, that the
backends had before it.
\<close>

theorem accepted_moves_settle:
  assumes "accepted_moves loads ms"
  shows "length ms \<le> worst_start (map load_start_ms loads)"
  by (rule accepted_moves_bound [OF assms])


theorem accepted_moves_settle_witness:
  "let loads = [\<lparr>ld_calls = 4, ld_waiting = 3, ld_level = 1, ld_pace_ms = 1000\<rparr>,
                \<lparr>ld_calls = 1, ld_waiting = 0, ld_level = 1, ld_pace_ms = 1000\<rparr>]
   in length [(0 :: nat, 1 :: nat)] \<le> worst_start (map load_start_ms loads)"
proof -
  let ?loads = "[\<lparr>ld_calls = 4, ld_waiting = 3, ld_level = 1, ld_pace_ms = 1000\<rparr>,
                \<lparr>ld_calls = 1, ld_waiting = 0, ld_level = 1, ld_pace_ms = 1000\<rparr>]"
  have "accepted_moves ?loads [(0, 1)]"
    by (simp add: lowers_the_worst_def Let_def worst_start_def load_start_ms_def u128_mul_def
        load_start_with_def calls_after_move_def u64_sat_add_def u64_max_def)
  from accepted_moves_settle [OF this] show ?thesis by (simp add: Let_def)
qed

section \<open>Where the code differs from its comments\<close>

text \<open>
  The \<open>Bounds\<close> section of \<open>src/services/scheduler/mod.rs\<close> says that \<open>max_waiting\<close> caps the calls
  waiting at one backend. \<open>move_waiting\<close> does not ask: a backend at its cap still takes a call.
\<close>

definition paused_gate :: gate where
  "paused_gate = \<lparr>gate_paused = True, gate_stale = (\<lambda>_. False)\<rparr>"

definition full_sched :: scheduler where
  "full_sched = (sched_new ''a'' \<lparr>cfg_ceiling = 1, cfg_max_waiting = 1, cfg_reserved_from = 4\<rparr> 0)
     \<lparr>sc_queue := \<lparr>q_waiting = [held_waiter\<lparr>w_id := 1\<rparr>], q_running = []\<rparr>\<rparr>"

lemma paused_step_waiting:
  assumes "\<forall>w \<in> set (q_waiting (sc_queue s)). effective_priority (w_meta w) \<noteq> Urgent"
    and "gate_paused g"
  shows "q_waiting (snd (step_dispatch g now s)) = q_waiting (sc_queue s)"
proof -
  have "\<not> dispatchable g h w" if "w \<in> set (q_waiting (sc_queue s))" for h w
    using assms that by (auto simp: dispatchable_def Let_def)
  then have "q_next_placement lv rf (dispatchable g h) (sc_queue s) = None" for lv rf h
    by (intro q_next_placement_ineligible) simp
  then show ?thesis by (simp add: step_dispatch_def q_dispatch_none)
qed

lemma held_best: "q_best (movable paused_gate tb) (sc_queue s) = Some 0"
  if "q_waiting (sc_queue s) = [held_waiter]" "tb = 1 \<or> tb = 2"
  using that by (auto simp: q_best_def movable_def held_waiter_def demo_call_def call_meta_new_def
      meta_is_stale_def max_by_def)

lemma held_not_urgent: "effective_priority (w_meta held_waiter) \<noteq> Urgent"
  by (simp add: held_waiter_def demo_call_def call_meta_new_def effective_priority_def)

lemma move_ignores_max_waiting:
  "waiting_capped 0 full_sched \<and> fst (move_waiting paused_gate paused_gate 5 1 held_sched full_sched) \<and>
   \<not> waiting_capped 0 (snd (snd (move_waiting paused_gate paused_gate 5 1 held_sched full_sched)))"
proof -
  have w: "q_waiting (sc_queue held_sched) = [held_waiter]" by (simp add: held_sched_def)
  let ?t = "waiting_set (\<lambda>ws. ws @ [held_waiter]) full_sched"
  have "q_waiting (snd (step_dispatch paused_gate 5 ?t)) = q_waiting (sc_queue ?t)"
    using held_not_urgent by (intro paused_step_waiting) (auto simp: full_sched_def paused_gate_def)
  then show ?thesis
    using move_waiting_Some [OF held_best [OF w, of 1], of paused_gate 5 full_sched]
    by (simp add: w waiting_capped_def full_sched_def sched_new_def)
qed

text \<open>
  \<open>PendingCall::drop\<close> and \<open>SchedulerPool::place\<close> look at one member after the other. A rebalance that
  moves the call from a member they have not reached to one they have passed hides it: the poll
  answers \<open>Gone\<close>, and the drop leaves the call in the pool. The comment on \<open>Placement::Gone\<close> names
  another cause, an instant in which no member holds the call; a move has none, it keeps the lock of
  the source until the target has the call. A call that a drop missed stays: its future is gone, so
  once it is dispatched nothing ever finishes it.
\<close>

definition race_turns :: "nat \<Rightarrow> lock_turn" where
  "race_turns k = \<lparr>lk_before = (if k = 2 then [(\<lambda>_. open_gate, PeMove 5 1 0 1)] else []),
     lk_gates = (\<lambda>_. open_gate), lk_now = 5\<rparr>"

lemma scan_misses:
  assumes "pool_get (before (lt k) p) h = Some s" "\<not> q_is_waiting i (sc_queue s)" "\<not> q_is_running i (sc_queue s)"
  shows "abandon_scan lt k i (h # hs) p = abandon_scan lt (Suc k) i hs (before (lt k) p)"
    and "place_scan lt k i (h # hs) p = place_scan lt (Suc k) i hs (before (lt k) p)"
  using assms(1) sched_abandon_absent [OF assms(2,3)] sched_place_absent [OF assms(2,3)] by (simp_all add: Let_def)

lemma dropped_call_can_stay:
  "held_by 0 (pc_id held_pending) (pending_drop race_turns held_pending held_pool)"
  "fst (poll_placement race_turns held_pending held_pool) = PollPending"
proof -
  let ?a = "sched_new ''a'' demo_config 0"
  have get: "pool_get held_pool 0 = Some ?a" "pool_get held_pool 1 = Some held_sched"
    by (simp_all add: held_pool_def pool_get_def)
  have w: "q_waiting (sc_queue held_sched) = [held_waiter]" by (simp add: held_sched_def)
  have best: "q_best (movable open_gate 1) (sc_queue held_sched) = Some 0"
    by (simp add: held_sched_def held_waiter_def q_best_def movable_def demo_call_def
        call_meta_new_def meta_is_stale_def max_by_def)
  let ?s = "sched_changed (waiting_set (remove_at 0) held_sched)"
  let ?t = "sched_changed (sched_notify (sched_step open_gate 5 (waiting_set (\<lambda>ws. ws @ [held_waiter]) ?a)))"
  let ?q = "pool_put 0 ?t (pool_put 1 ?s held_pool)"
  have mv: "before (race_turns 2) held_pool = ?q"
    using move_waiting_Some [OF best, of open_gate 5 ?a] get
    by (simp add: before_def race_turns_def pool_move_def w)
  have q: "pool_get ?q 0 = Some ?t" "pool_get ?q 1 = Some ?s"
    using get pool_get_Some [OF get(1)] pool_get_Some [OF get(2)] by (simp_all add: pool_get_put) (simp_all add: pool_put_def)
  have idle: "\<not> q_is_waiting 0 (sc_queue ?a)" "\<not> q_is_running 0 (sc_queue ?a)"
    "\<not> q_is_waiting 0 (sc_queue ?s)" "\<not> q_is_running 0 (sc_queue ?s)"
    by (simp_all add: q_is_waiting_def q_is_running_def sched_new_def queue_empty_def w remove_at_def)
      (simp add: held_sched_def)
  have quiet: "before (race_turns 0) p = p" "before (race_turns (Suc 0)) p = p" for p
    by (simp_all add: before_def race_turns_def)
  have mv': "before (race_turns (Suc (Suc 0))) held_pool = ?q" using mv by (simp only: numeral_2_eq_2)
  have "pl_members held_pool = [0, 1]" "pc_home held_pending = 0" by (simp_all add: held_pool_def held_pending_def)
  then have sc: "scanned held_pending held_pool = [0, 0, 1]" by (simp add: scanned_def live_members_def get get [simplified])
  have i: "pc_id held_pending = 0" "pc_armed held_pending" by (simp_all add: held_pending_def)
  note first = scan_misses [of race_turns 0 held_pool 0 ?a 0 "[0, 1]", unfolded quiet, OF get(1) idle(1,2)]
  note second = scan_misses [of race_turns "Suc 0" held_pool 0 ?a 0 "[1]", unfolded quiet, OF get(1) idle(1,2)]
  note third = scan_misses [of race_turns "Suc (Suc 0)" held_pool 1 ?s 0 "[]", unfolded mv', OF q(2) idle(3,4)]
  have ab: "abandon_scan race_turns 0 0 [0, 0, 1] held_pool = (False, ?q)"
    unfolding first(1) second(1) third(1) by (rule abandon_scan.simps(1))
  have "w_id held_waiter \<in> set (queue_ids (sc_queue ?t))"
    using mset_eq_setD [OF step_dispatch_ids [of open_gate 5 "waiting_set (\<lambda>ws. ws @ [held_waiter]) ?a"]]
    by (simp add: queue_ids_def)
  then have "held_by 0 0 ?q" using q(1) by (simp add: held_by_def held_waiter_def)
  then show "held_by 0 (pc_id held_pending) (pending_drop race_turns held_pending held_pool)"
    by (simp only: pending_drop_scan i sc ab Let_def prod.case if_True if_False not_True_eq_False)
  have "place_scan race_turns 0 0 [0, 0, 1] held_pool = (PlGone, ?q)"
    unfolding first(2) second(2) third(2) by (rule place_scan.simps(1))
  moreover have "pool_placement race_turns (pc_home held_pending) (pc_id held_pending) held_pool =
      place_scan race_turns 0 0 [0, 0, 1] held_pool"
    using pool_placement_scan [of race_turns held_pending "pc_id held_pending" held_pool] i sc by simp
  ultimately show "fst (poll_placement race_turns held_pending held_pool) = PollPending"
    by (simp only: poll_placement_def prod.case placement.case fst_conv)
qed

text \<open>
  The comment of \<open>lowers_the_worst\<close> says that a call moved onto an idle backend is dispatched there
  at once and so is not moved back. While the gate is paused it is not: the same call can be moved
  to and fro, every move accepted.
\<close>

lemma idle_move_can_be_undone:
  assumes "q_waiting (sc_queue s) = [held_waiter]" and "q_running (sc_queue s) = []"
    and "q_waiting (sc_queue t) = []" and "q_running (sc_queue t) = []"
    and "tb = 1 \<or> tb = 2" and "move_waiting paused_gate paused_gate now tb s t = (moved, s', t')"
  shows "lowers_the_worst [sched_load s, sched_load t] 0 1 \<and> moved \<and>
    q_waiting (sc_queue s') = [] \<and> q_running (sc_queue s') = [] \<and>
    q_waiting (sc_queue t') = [held_waiter] \<and> q_running (sc_queue t') = []"
proof -
  let ?t = "waiting_set (\<lambda>ws. ws @ [held_waiter]) t"
  have none: "q_next_placement lv rf (dispatchable paused_gate h) (sc_queue ?t) = None" for lv rf h
    using held_not_urgent assms(3)
    by (intro q_next_placement_ineligible) (simp add: dispatchable_def Let_def paused_gate_def)
  then have "snd (step_dispatch paused_gate now ?t) = sc_queue ?t"
    by (simp add: step_dispatch_def q_dispatch_none)
  then show ?thesis
    using move_waiting_Some [OF held_best [OF assms(1,5)], of paused_gate now t] assms
    by (simp add: lowers_the_worst_def sched_load_def remove_at_def)
qed

end
