(* ===== verification/Wire_Types.thy ===== *)
theory Wire_Types
  imports Prelude
begin

text \<open>
  The types every part of the crate shares: \<open>src/types.rs\<close> (endpoints, roles, content blocks,
  messages), \<open>src/error.rs\<close> (the two error enums and their texts) and \<open>TokenUsage\<close> of
  \<open>src/request.rs\<close>.

  Text whose length or characters the code looks at is a \<open>utext\<close>, the list of its Unicode scalar
  values; identifiers and messages the code only compares or prints are \<^typ>\<open>string\<close>. JSON values
  are the type parameter \<open>'j\<close>: the code passes them through.
\<close>

type_synonym utext = "nat list"

text \<open>\<open>char::is_whitespace\<close>: the code points with the Unicode property White_Space.\<close>

definition is_white_space :: "nat \<Rightarrow> bool" where
  "is_white_space c \<longleftrightarrow>
     (9 \<le> c \<and> c \<le> 13) \<or> (8192 \<le> c \<and> c \<le> 8202) \<or>
     c \<in> {32, 133, 160, 5760, 8232, 8233, 8239, 8287, 12288}"

definition trim :: "utext \<Rightarrow> utext" where
  "trim s = rev (dropWhile is_white_space (rev (dropWhile is_white_space s)))"

lemma trim_empty_iff: "trim s = [] \<longleftrightarrow> (\<forall>c \<in> set s. is_white_space c)"
proof -
  have "trim s = [] \<longleftrightarrow> (\<forall>c \<in> set (dropWhile is_white_space s). is_white_space c)"
    by (auto simp: trim_def)
  also have "\<dots> \<longleftrightarrow> (\<forall>c \<in> set s. is_white_space c)"
    by (induction s) auto
  finally show ?thesis .
qed

datatype provider_endpoint =
    LlamaCpp | Vllm | LmStudio | OpenAi | Anthropic | GoogleGemini | DeepSeek | LocalModel
  | CustomEndpoint string

definition provider_endpoint_default :: provider_endpoint where
  "provider_endpoint_default = OpenAi"

fun provider_endpoint_display :: "provider_endpoint \<Rightarrow> string" where
  "provider_endpoint_display LlamaCpp = ''llamacpp''"
| "provider_endpoint_display Vllm = ''vllm''"
| "provider_endpoint_display LmStudio = ''lmstudio''"
| "provider_endpoint_display OpenAi = ''openai''"
| "provider_endpoint_display Anthropic = ''anthropic''"
| "provider_endpoint_display GoogleGemini = ''gemini''"
| "provider_endpoint_display DeepSeek = ''deepseek''"
| "provider_endpoint_display LocalModel = ''local''"
| "provider_endpoint_display (CustomEndpoint inner) = inner"

datatype message_role = RoleSystem | RoleUser | RoleAssistant | RoleTool

datatype 'j content_block =
    TextBlock utext
  | ImageBase64 string string
  | ThinkingBlock utext "string option"
  | ToolCallBlock string string 'j
  | ToolResultBlock string utext

record 'j tool_definition =
  td_name :: string
  td_description :: string
  td_input_schema :: 'j

record 'j unified_message =
  um_role :: message_role
  um_content :: "'j content_block list"
  um_name :: "string option"
  um_tool_call_id :: "string option"

definition text_message :: "message_role \<Rightarrow> utext \<Rightarrow> 'j unified_message" where
  "text_message role t =
     \<lparr>um_role = role, um_content = [TextBlock t], um_name = None, um_tool_call_id = None\<rparr>"

definition message_system :: "utext \<Rightarrow> 'j unified_message" where
  "message_system = text_message RoleSystem"

definition message_user :: "utext \<Rightarrow> 'j unified_message" where
  "message_user = text_message RoleUser"

definition message_assistant :: "utext \<Rightarrow> 'j unified_message" where
  "message_assistant = text_message RoleAssistant"

record token_usage =
  tu_prompt :: nat
  tu_completion :: nat
  tu_reasoning :: "nat option"

datatype plugin_error =
    HookFailure string string string
  | PluginValidation string string
  | PluginNotSupported string
  | PluginIo string
  | PluginInternal string

datatype cuca_error =
    ErrTransport string
  | ErrHttp nat string
  | ErrSseParse string
  | ErrJson string
  | ErrProvider provider_endpoint string
  | ErrProviderNotEnabled string
  | ErrPlugin plugin_error
  | ErrConfig string
  | ErrIo string

fun plugin_error_display :: "plugin_error \<Rightarrow> string" where
  "plugin_error_display (HookFailure plugin stage message) =
     ''plugin '' @ plugin @ '' failed at stage '' @ stage @ '': '' @ message"
| "plugin_error_display (PluginValidation schema message) =
     ''validation failed for schema '' @ schema @ '': '' @ message"
| "plugin_error_display (PluginNotSupported msg) = ''not supported: '' @ msg"
| "plugin_error_display (PluginIo msg) = ''plugin I/O error: '' @ msg"
| "plugin_error_display (PluginInternal msg) = ''internal plugin error: '' @ msg"

fun cuca_error_display :: "cuca_error \<Rightarrow> string" where
  "cuca_error_display (ErrTransport message) = ''transport failure: '' @ message"
| "cuca_error_display (ErrHttp status body) =
     ''HTTP error '' @ show_nat status @ '': '' @ body"
| "cuca_error_display (ErrSseParse msg) = ''SSE parse failure: '' @ msg"
| "cuca_error_display (ErrJson message) = ''JSON error: '' @ message"
| "cuca_error_display (ErrProvider provider message) =
     ''provider '' @ provider_endpoint_display provider @ '' failed: '' @ message"
| "cuca_error_display (ErrProviderNotEnabled flag) = ''provider feature not enabled: '' @ flag"
| "cuca_error_display (ErrPlugin e) = ''plugin error: '' @ plugin_error_display e"
| "cuca_error_display (ErrConfig msg) = ''configuration error: '' @ msg"
| "cuca_error_display (ErrIo message) = ''I/O error: '' @ message"

text \<open>The source of an error chain: only a plugin error has one.\<close>

fun cuca_error_source :: "cuca_error \<Rightarrow> plugin_error option" where
  "cuca_error_source (ErrPlugin e) = Some e"
| "cuca_error_source _ = None"

end
