(* ===== verification/Dispatcher.thy ===== *)
theory Dispatcher
  imports Sched_Pool Wire_Types
begin

text \<open>
  The dispatcher over several backends, \<open>src/services/scheduler/dispatch.rs\<close>: the circuit
  breaker, the registry, placement (\<open>pick\<close>, \<open>reserve\<close>), one attempt of a call, the failover loop
  of \<open>Dispatcher::call\<close> and the rebalance.

  The backends of a registry are a store of their own: a handle is an index of \<open>wd_backends\<close>, and
  \<open>bk_sched\<close> is the handle of its scheduler in the pool. What a client answers (the outcome of a
  lazy build and the items of a stream) is an input of the operation that asks. \<open>Dispatcher::call\<close>
  is a state machine whose steps are the stretches between its \<open>await\<close> points.

  The lemmas show which backend is picked, that a call is tried at most once on each backend, that
  the breaker and the slot are settled on every branch, and what a rebalance keeps.
\<close>

unbundle bit_operations_syntax

section \<open>Errors\<close>

datatype dispatch_error =
    DispConfig string
  | DispQueueFull backend_id
  | DispUnreachable string
  | DispTimeout nat
  | DispEmpty
  | DispReasoningOnly nat
  | DispInputsChanged
  | DispCall cuca_error

fun dispatch_error_display :: "dispatch_error \<Rightarrow> string" where
  "dispatch_error_display (DispConfig message) = ''dispatcher configuration error: '' @ message"
| "dispatch_error_display (DispQueueFull backend) =
     ''the queue of backend '' @ backend @ '' is full''"
| "dispatch_error_display (DispUnreachable detail) = ''no backend is reachable: '' @ detail"
| "dispatch_error_display (DispTimeout seconds) =
     ''the call timed out after '' @ show_nat seconds @ ''s''"
| "dispatch_error_display DispEmpty = ''the backend returned no text''"
| "dispatch_error_display (DispReasoningOnly n) =
     ''the backend returned only reasoning ('' @ show_nat n @ '' characters) and no text''"
| "dispatch_error_display DispInputsChanged = ''the call's inputs changed while it waited''"
| "dispatch_error_display (DispCall e) = ''the backend call failed: '' @ cuca_error_display e"

fun dispatch_error_source :: "dispatch_error \<Rightarrow> cuca_error option" where
  "dispatch_error_source (DispCall e) = Some e"
| "dispatch_error_source _ = None"

fun dispatch_error_of :: "scheduler_error \<Rightarrow> dispatch_error" where
  "dispatch_error_of (SchedConfig message) = DispConfig message"
| "dispatch_error_of (SchedQueueFull backend _) = DispQueueFull backend"
| "dispatch_error_of SchedInputsChanged = DispInputsChanged"

section \<open>The breaker\<close>

type_synonym breaker = "instant option"

definition as_secs :: "duration \<Rightarrow> nat" where
  "as_secs d = d div 1000000000"

definition breaker_remaining :: "instant \<Rightarrow> breaker \<Rightarrow> duration option" where
  "breaker_remaining now b =
     (case b of None \<Rightarrow> None
      | Some until \<Rightarrow> (let left = until - now in if left = 0 then None else Some left))"

definition breaker_admit :: "instant \<Rightarrow> breaker \<Rightarrow> dispatch_error + unit" where
  "breaker_admit now b =
     (case breaker_remaining now b of
        Some left \<Rightarrow> Inl (DispUnreachable (''a connect was refused; next attempt in ''
                        @ show_nat (max (as_secs left) 1) @ ''s''))
      | None \<Rightarrow> Inr ())"

definition breaker_trip :: "instant \<Rightarrow> duration \<Rightarrow> breaker \<Rightarrow> bool \<times> breaker" where
  "breaker_trip now cooldown b = (b = None, Some (now + cooldown))"

definition breaker_close :: "breaker \<Rightarrow> bool \<times> breaker" where
  "breaker_close b = (b \<noteq> None, None)"

section \<open>Backends and the registry\<close>

datatype backend_client = ReadyClient | LazyClient

record 't backend_spec =
  sp_id :: backend_id
  sp_client :: backend_client
  sp_model :: "string option"
  sp_thinking :: "'t option"

record 't backend =
  bk_id :: backend_id
  bk_client :: backend_client
  bk_built :: bool
  bk_model :: "string option"
  bk_thinking :: "'t option"
  bk_sched :: nat
  bk_breaker :: breaker
  bk_bit :: "64 word"

record 't world =
  wd_pool :: pool
  wd_backends :: "'t backend list"

record joined =
  jn_backends :: "nat list"
  jn_mask :: "64 word"

definition has_client :: "'t backend \<Rightarrow> bool" where
  "has_client b \<longleftrightarrow> bk_client b = ReadyClient \<or> bk_built b"

definition update_backend :: "nat \<Rightarrow> ('t backend \<Rightarrow> 't backend) \<Rightarrow> 't world \<Rightarrow> 't world" where
  "update_backend h f w = w\<lparr>wd_backends := (wd_backends w)[h := f (wd_backends w ! h)]\<rparr>"

definition backend_trip :: "instant \<Rightarrow> duration \<Rightarrow> nat \<Rightarrow> 't world \<Rightarrow> 't world" where
  "backend_trip now cooldown h =
     update_backend h (\<lambda>b. b\<lparr>bk_breaker := snd (breaker_trip now cooldown (bk_breaker b))\<rparr>)"

definition backend_close :: "nat \<Rightarrow> 't world \<Rightarrow> 't world" where
  "backend_close h = update_backend h (\<lambda>b. b\<lparr>bk_breaker := snd (breaker_close (bk_breaker b))\<rparr>)"

fun first_duplicate :: "backend_id list \<Rightarrow> backend_id list \<Rightarrow> backend_id option" where
  "first_duplicate seen [] = None"
| "first_duplicate seen (i # is) =
     (if i \<in> set seen then Some i else first_duplicate (seen @ [i]) is)"

definition too_many :: dispatch_error where
  "too_many = DispConfig ''more than 64 backends''"

fun join_specs ::
    "scheduler_config \<Rightarrow> instant \<Rightarrow> 't backend_spec list \<Rightarrow> joined \<Rightarrow> 't world
      \<Rightarrow> (dispatch_error + joined) \<times> 't world" where
  "join_specs config now [] j w = (Inr j, w)"
| "join_specs config now (s # ss) j w =
     (case position (\<lambda>b. bk_id b = sp_id s) (wd_backends w) of
        Some h \<Rightarrow>
          join_specs config now ss
            \<lparr>jn_backends = jn_backends j @ [h], jn_mask = jn_mask j OR bk_bit (wd_backends w ! h)\<rparr> w
      | None \<Rightarrow>
          (let sh = length (pl_store (wd_pool w));
               p = (wd_pool w)\<lparr>pl_store :=
                     pl_store (wd_pool w) @ [Some (sched_new (sp_id s) config now)]\<rparr>
           in case pool_insert sh p of
                (None, p') \<Rightarrow>
                  (Inl too_many, w\<lparr>wd_pool := p'\<lparr>pl_store := (pl_store p')[sh := None]\<rparr>\<rparr>)
              | (Some i, p') \<Rightarrow>
                  (let b = \<lparr>bk_id = sp_id s, bk_client = sp_client s, bk_built = False,
                            bk_model = sp_model s, bk_thinking = sp_thinking s, bk_sched = sh,
                            bk_breaker = None, bk_bit = push_bit i 1\<rparr>;
                       w' = \<lparr>wd_pool = p', wd_backends = wd_backends w @ [b]\<rparr>
                   in join_specs config now ss
                        \<lparr>jn_backends = jn_backends j @ [length (wd_backends w)],
                         jn_mask = jn_mask j OR bk_bit b\<rparr> w')))"

definition registry_join ::
    "scheduler_config \<Rightarrow> instant \<Rightarrow> 't backend_spec list \<Rightarrow> 't world
      \<Rightarrow> (dispatch_error + joined) \<times> 't world" where
  "registry_join config now specs w =
     (case first_duplicate [] (map sp_id specs) of
        Some i \<Rightarrow> (Inl (DispConfig (''backend listed twice: '' @ i)), w)
      | None \<Rightarrow> join_specs config now specs \<lparr>jn_backends = [], jn_mask = 0\<rparr> w)"

record dispatcher_config =
  dc_scheduler :: scheduler_config
  dc_timeout :: "duration option"
  dc_cooldown :: duration

definition unreachable_cooldown :: duration where
  "unreachable_cooldown = from_secs 20"

definition dispatcher_config_new :: "scheduler_config \<Rightarrow> dispatcher_config" where
  "dispatcher_config_new c =
     \<lparr>dc_scheduler = c, dc_timeout = None, dc_cooldown = unreachable_cooldown\<rparr>"

definition with_timeout :: "duration option \<Rightarrow> dispatcher_config \<Rightarrow> dispatcher_config" where
  "with_timeout t c = c\<lparr>dc_timeout := t\<rparr>"

definition with_unreachable_cooldown ::
    "duration \<Rightarrow> dispatcher_config \<Rightarrow> dispatch_error + dispatcher_config" where
  "with_unreachable_cooldown d c =
     (if d = 0 then Inl (DispConfig ''the unreachable cooldown must be above zero'')
      else Inr (c\<lparr>dc_cooldown := d\<rparr>))"

record dispatcher =
  dp_joined :: joined
  dp_config :: dispatcher_config
  dp_last_rebalance :: "instant option"

definition dispatcher_new ::
    "dispatcher_config \<Rightarrow> instant \<Rightarrow> 't backend_spec list \<Rightarrow> 't world
      \<Rightarrow> (dispatch_error + dispatcher) \<times> 't world" where
  "dispatcher_new config now specs w =
     (case registry_join (dc_scheduler config) now specs w of
        (Inl e, w') \<Rightarrow> (Inl e, w')
      | (Inr j, w') \<Rightarrow>
          (Inr \<lparr>dp_joined = j, dp_config = config, dp_last_rebalance = None\<rparr>, w'))"

definition set_backends ::
    "instant \<Rightarrow> 't backend_spec list \<Rightarrow> dispatcher \<Rightarrow> 't world
      \<Rightarrow> (dispatch_error + unit) \<times> dispatcher \<times> 't world" where
  "set_backends now specs d w =
     (case registry_join (dc_scheduler (dp_config d)) now specs w of
        (Inl e, w') \<Rightarrow> (Inl e, d, w')
      | (Inr j, w') \<Rightarrow> (Inr (), d\<lparr>dp_joined := j\<rparr>, w'))"

definition backend_load :: "'t world \<Rightarrow> nat \<Rightarrow> load" where
  "backend_load w h = sched_load (the (pool_get (wd_pool w) (bk_sched (wd_backends w ! h))))"

definition dispatcher_ceiling :: "dispatcher \<Rightarrow> 't world \<Rightarrow> nat" where
  "dispatcher_ceiling d w =
     (\<Sum>h\<leftarrow>jn_backends (dp_joined d).
        cfg_ceiling (sc_config (the (pool_get (wd_pool w) (bk_sched (wd_backends w ! h))))))"

section \<open>Placement\<close>

definition admits :: "instant \<Rightarrow> 't world \<Rightarrow> nat \<Rightarrow> bool" where
  "admits now w h \<longleftrightarrow> breaker_remaining now (bk_breaker (wd_backends w ! h)) = None"

fun pick_from ::
    "instant \<Rightarrow> 't world \<Rightarrow> nat list \<Rightarrow> (nat \<times> nat) list \<Rightarrow> (nat \<times> load) option
      \<Rightarrow> (nat \<times> load) option" where
  "pick_from now w tried [] best = best"
| "pick_from now w tried ((i, h) # ihs) best =
     (if i \<in> set tried \<or> \<not> admits now w h then pick_from now w tried ihs best
      else
        (let l = backend_load w h
         in pick_from now w tried ihs
              (case best of
                 None \<Rightarrow> Some (i, l)
               | Some (_, lightest) \<Rightarrow> if is_lighter_than l lightest then Some (i, l) else best)))"

definition pick :: "instant \<Rightarrow> 't world \<Rightarrow> nat list \<Rightarrow> nat list \<Rightarrow> nat option" where
  "pick now w backends tried =
     map_option fst (pick_from now w tried (List.enumerate 0 backends) None)"

definition unreachable_error :: "instant \<Rightarrow> 't world \<Rightarrow> nat list \<Rightarrow> dispatch_error" where
  "unreachable_error now w backends =
     (let lefts = concat (map (\<lambda>h. case breaker_remaining now (bk_breaker (wd_backends w ! h)) of
                                  None \<Rightarrow> [] | Some left \<Rightarrow> [left]) backends)
      in DispUnreachable
           (case min_by_key (\<lambda>left. left) lefts of
              Some left \<Rightarrow> ''every backend refused a connect; next attempt in ''
                 @ show_nat (max (as_secs left) 1) @ ''s''
            | None \<Rightarrow> ''no backend is configured''))"

text \<open>
  \<open>reserve\<close> holds the placement lock, so no other placement comes between its pick and its
  enqueue. It answers the index, the backend's handle and the call id.
\<close>

definition reserve ::
    "(nat \<Rightarrow> gate) \<Rightarrow> instant \<Rightarrow> nat list \<Rightarrow> call_meta \<Rightarrow> nat list \<Rightarrow> 't world
      \<Rightarrow> (dispatch_error + (nat \<times> nat \<times> nat) option) \<times> 't world" where
  "reserve gt now backends m tried w =
     (case pick now w backends tried of
        None \<Rightarrow> (Inr None, w)
      | Some i \<Rightarrow>
          (let h = backends ! i
           in case pool_enqueue gt now (bk_sched (wd_backends w ! h)) m (wd_pool w) of
                (Some (Inr call), p) \<Rightarrow> (Inr (Some (i, h, call)), w\<lparr>wd_pool := p\<rparr>)
              | (Some (Inl e), p) \<Rightarrow> (Inl (dispatch_error_of e), w\<lparr>wd_pool := p\<rparr>)
              | (None, p) \<Rightarrow> (Inr None, w)))"

section \<open>One attempt\<close>

record ('t, 'r) request =
  rq_model :: string
  rq_thinking :: "'t option"
  rq_rest :: 'r

text \<open>
  What \<open>generate_stream_with_response\<close> does: it fails before a stream exists, or it yields items
  and, once drained, the response with the usage.
\<close>

type_synonym 'j stream_answer =
  "cuca_error + ((cuca_error + 'j content_block) list \<times> token_usage option)"

record streamed_reply =
  sr_text :: utext
  sr_reasoning_chars :: nat
  sr_usage :: "token_usage option"

fun drain_stream ::
    "(cuca_error + 'j content_block) list \<Rightarrow> streamed_reply \<Rightarrow> dispatch_error + streamed_reply" where
  "drain_stream [] r = Inr r"
| "drain_stream (Inl e # items) r = Inl (DispCall e)"
| "drain_stream (Inr (TextBlock t) # items) r = drain_stream items (r\<lparr>sr_text := sr_text r @ t\<rparr>)"
| "drain_stream (Inr (ThinkingBlock t sig) # items) r =
     drain_stream items (r\<lparr>sr_reasoning_chars := sr_reasoning_chars r + length t\<rparr>)"
| "drain_stream (Inr (ImageBase64 m d) # items) r = drain_stream items r"
| "drain_stream (Inr (ToolCallBlock i n a) # items) r = drain_stream items r"
| "drain_stream (Inr (ToolResultBlock i t) # items) r = drain_stream items r"

definition collect_stream :: "'j stream_answer \<Rightarrow> dispatch_error + streamed_reply" where
  "collect_stream answer =
     (case answer of
        Inl (ErrTransport message) \<Rightarrow> Inl (DispUnreachable message)
      | Inl other \<Rightarrow> Inl (DispCall other)
      | Inr (items, usage) \<Rightarrow>
          (case drain_stream items \<lparr>sr_text = [], sr_reasoning_chars = 0, sr_usage = None\<rparr> of
             Inl e \<Rightarrow> Inl e
           | Inr r \<Rightarrow> Inr (r\<lparr>sr_usage := usage\<rparr>)))"

text \<open>
  What an attempt finds: the time at its start, whether a lazy client builds and when that is
  settled, what the stream answers, whether the deadline passes first, and the time at the end.
\<close>

record 'j attempt_env =
  ae_now :: instant
  ae_build :: "cuca_error option"
  ae_started :: instant
  ae_answer :: "'j stream_answer"
  ae_times_out :: bool
  ae_end :: instant

record completion =
  cp_text :: utext
  cp_model :: string
  cp_backend :: backend_id
  cp_level :: nat
  cp_wait_ms :: nat
  cp_run_ms :: nat
  cp_output_chars :: nat
  cp_reasoning_chars :: nat
  cp_usage :: "token_usage option"

definition request_for :: "'t backend \<Rightarrow> ('t, 'r) request \<Rightarrow> ('t, 'r) request" where
  "request_for b rq =
     (let rq1 = (case bk_model b of None \<Rightarrow> rq | Some tag \<Rightarrow> rq\<lparr>rq_model := tag\<rparr>)
      in case bk_thinking b of None \<Rightarrow> rq1 | Some t \<Rightarrow> rq1\<lparr>rq_thinking := Some t\<rparr>)"

definition finish_slot ::
    "(nat \<Rightarrow> gate) \<Rightarrow> instant \<Rightarrow> call_report \<Rightarrow> call_slot \<Rightarrow> 't world \<Rightarrow> 't world" where
  "finish_slot gt now report slot w =
     w\<lparr>wd_pool := snd (slot_finish gt now report slot (wd_pool w))\<rparr>"

definition reply_report :: "streamed_reply \<Rightarrow> call_report" where
  "reply_report r =
     \<lparr>rep_outcome = (if trim (sr_text r) \<noteq> [] then OutcomeOk else OutcomeFailed),
      rep_prompt_tokens = map_option tu_prompt (sr_usage r),
      rep_completion_tokens = map_option tu_completion (sr_usage r),
      rep_output_chars = u64_of (length (sr_text r) + sr_reasoning_chars r)\<rparr>"

definition attempt_stream ::
    "dispatcher_config \<Rightarrow> 'j attempt_env \<Rightarrow> dispatch_error + streamed_reply" where
  "attempt_stream config env =
     (case dc_timeout config of
        Some deadline \<Rightarrow>
          if ae_times_out env then Inl (DispTimeout (as_secs deadline))
          else collect_stream (ae_answer env)
      | None \<Rightarrow> collect_stream (ae_answer env))"

text \<open>
  \<open>attempt\<close> up to the send: the breaker and the client. \<open>Some\<close> error means that it ends there, its
  slot finished. Other calls run between this part and the end of the stream.
\<close>

definition attempt_begin ::
    "dispatcher_config \<Rightarrow> (nat \<Rightarrow> gate) \<Rightarrow> 'j attempt_env \<Rightarrow> nat \<Rightarrow> call_slot \<Rightarrow> 't world
      \<Rightarrow> dispatch_error option \<times> 't world" where
  "attempt_begin config gt env h slot w =
     (let b = wd_backends w ! h; failed = call_report_empty OutcomeFailed
      in case breaker_admit (ae_now env) (bk_breaker b) of
           Inl e \<Rightarrow> (Some e, finish_slot gt (ae_now env) failed slot w)
         | Inr _ \<Rightarrow>
             (case (if has_client b then None else ae_build env) of
                Some e \<Rightarrow>
                  (Some (DispUnreachable (cuca_error_display e)),
                   finish_slot gt (ae_started env) failed slot
                     (backend_trip (ae_started env) (dc_cooldown config) h w))
              | None \<Rightarrow>
                  (None, update_backend h
                     (\<lambda>b. b\<lparr>bk_built := bk_built b \<or> bk_client b = LazyClient\<rparr>) w)))"

definition attempt_end ::
    "dispatcher_config \<Rightarrow> (nat \<Rightarrow> gate) \<Rightarrow> 'j attempt_env \<Rightarrow> nat \<Rightarrow> ('t, 'r) request \<Rightarrow> call_slot
      \<Rightarrow> nat \<Rightarrow> 't world \<Rightarrow> (dispatch_error + completion) \<times> 't world" where
  "attempt_end config gt env h rq slot wait_ms w =
     (let b = wd_backends w ! h
      in case attempt_stream config env of
           Inl e \<Rightarrow>
             (Inl e,
              finish_slot gt (ae_end env) (call_report_empty OutcomeFailed) slot
                (case e of
                   DispUnreachable _ \<Rightarrow> backend_trip (ae_end env) (dc_cooldown config) h w
                 | _ \<Rightarrow> w))
         | Inr r \<Rightarrow>
             (if trim (sr_text r) = []
              then Inl (if sr_reasoning_chars r > 0
                        then DispReasoningOnly (sr_reasoning_chars r) else DispEmpty)
              else Inr \<lparr>cp_text = sr_text r, cp_model = rq_model (request_for b rq),
                        cp_backend = bk_id b, cp_level = cs_level slot, cp_wait_ms = wait_ms,
                        cp_run_ms = millis (ae_end env - ae_started env),
                        cp_output_chars = rep_output_chars (reply_report r),
                        cp_reasoning_chars = sr_reasoning_chars r, cp_usage = sr_usage r\<rparr>,
              finish_slot gt (ae_end env) (reply_report r) slot (backend_close h w)))"

section \<open>A call\<close>

text \<open>\<open>build_lazy\<close>: \<open>build h\<close> is how the build of backend \<open>h\<close> ended, and when.\<close>

definition build_lazy ::
    "dispatcher_config \<Rightarrow> instant \<Rightarrow> (nat \<Rightarrow> cuca_error option \<times> instant) \<Rightarrow> nat list \<Rightarrow> 't world
      \<Rightarrow> 't world" where
  "build_lazy config now build backends w =
     fold (\<lambda>h w'. if has_client (wd_backends w ! h) \<or> \<not> admits now w h then w'
                  else case build h of
                    (None, _) \<Rightarrow> update_backend h (\<lambda>b. b\<lparr>bk_built := True\<rparr>) w'
                  | (Some _, at_end) \<Rightarrow> backend_trip at_end (dc_cooldown config) h w')
       backends w"

text \<open>
  The loop of \<open>Dispatcher::call\<close> between its awaits: it reserves, waits for its slot, runs the
  attempt and either ends or goes round again. \<open>ct_sent\<close> records which request was sent to which
  backend, and \<open>ct_pending\<close> is the code's \<open>pending\<close>, taken when no failover could follow.
\<close>

datatype ('t, 'r) call_phase =
    PhReserve
  | PhWait nat nat pending_call "('t, 'r) request" instant
  | PhRun nat nat "('t, 'r) request" call_slot nat
  | PhStream nat nat "('t, 'r) request" call_slot nat
  | PhDone "dispatch_error + completion"

record ('t, 'r) call_state =
  ct_backends :: "nat list"
  ct_pending :: "(('t, 'r) request \<times> call_meta) option"
  ct_tried :: "nat list"
  ct_refused :: "dispatch_error option"
  ct_phase :: "('t, 'r) call_phase"
  ct_sent :: "(nat \<times> ('t, 'r) request) list"

definition call_start :: "joined \<Rightarrow> ('t, 'r) request \<Rightarrow> call_meta \<Rightarrow> ('t, 'r) call_state" where
  "call_start j rq m =
     \<lparr>ct_backends = jn_backends j, ct_pending = Some (rq, m\<lparr>meta_allowed := jn_mask j\<rparr>),
      ct_tried = [], ct_refused = None, ct_phase = PhReserve, ct_sent = []\<rparr>"

definition call_refused :: "instant \<Rightarrow> ('t, 'r) call_state \<Rightarrow> 't world \<Rightarrow> dispatch_error" where
  "call_refused now st w =
     (case ct_refused st of Some e \<Rightarrow> e | None \<Rightarrow> unreachable_error now w (ct_backends st))"

definition call_reserve ::
    "(nat \<Rightarrow> gate) \<Rightarrow> instant \<Rightarrow> ('t, 'r) call_state \<Rightarrow> 't world \<Rightarrow> ('t, 'r) call_state \<times> 't world" where
  "call_reserve gt now st w =
     (if ct_phase st \<noteq> PhReserve then (st, w)
      else
      let again = length (ct_tried st) + 1 < length (ct_backends st);
          st' = (if again then st else st\<lparr>ct_pending := None\<rparr>)
      in case ct_pending st of
           None \<Rightarrow> (st'\<lparr>ct_phase := PhDone (Inl (call_refused now st w))\<rparr>, w)
         | Some (rq, m) \<Rightarrow>
             (case reserve gt now (ct_backends st) m (ct_tried st) w of
                (Inl e, w') \<Rightarrow> (st'\<lparr>ct_phase := PhDone (Inl e)\<rparr>, w')
              | (Inr None, w') \<Rightarrow> (st'\<lparr>ct_phase := PhDone (Inl (call_refused now st w))\<rparr>, w')
              | (Inr (Some (i, h, call)), w') \<Rightarrow>
                  (st'\<lparr>ct_phase := PhWait i h
                     \<lparr>pc_home = bk_sched (wd_backends w ! h), pc_id = call, pc_armed = True\<rparr> rq now\<rparr>,
                   w')))"

definition call_poll ::
    "(nat \<Rightarrow> lock_turn) \<Rightarrow> instant \<Rightarrow> ('t, 'r) call_state \<Rightarrow> 't world \<Rightarrow> ('t, 'r) call_state \<times> 't world" where
  "call_poll lt now st w =
     (case ct_phase st of
        PhWait i h pc rq queued \<Rightarrow>
          (case poll_placement lt pc (wd_pool w) of
             (PollPending, pc', p) \<Rightarrow> (st\<lparr>ct_phase := PhWait i h pc' rq queued\<rparr>, w\<lparr>wd_pool := p\<rparr>)
           | (PollReady (Inl e), _, p) \<Rightarrow>
               (st\<lparr>ct_phase := PhDone (Inl (dispatch_error_of e))\<rparr>, w\<lparr>wd_pool := p\<rparr>)
           | (PollReady (Inr slot), _, p) \<Rightarrow>
               (st\<lparr>ct_phase := PhRun i h rq slot (millis (now - queued))\<rparr>, w\<lparr>wd_pool := p\<rparr>))
      | _ \<Rightarrow> (st, w))"

definition call_settle ::
    "nat \<Rightarrow> dispatch_error + completion \<Rightarrow> ('t, 'r) call_state \<Rightarrow> ('t, 'r) call_state" where
  "call_settle i answer st =
     (case answer of
        Inl (DispUnreachable detail) \<Rightarrow>
          st\<lparr>ct_tried := ct_tried st @ [i], ct_refused := Some (DispUnreachable detail),
            ct_phase := PhReserve\<rparr>
      | other \<Rightarrow> st\<lparr>ct_phase := PhDone other\<rparr>)"

definition call_begin ::
    "dispatcher_config \<Rightarrow> (nat \<Rightarrow> gate) \<Rightarrow> 'j attempt_env \<Rightarrow> ('t, 'r) call_state \<Rightarrow> 't world
      \<Rightarrow> ('t, 'r) call_state \<times> 't world" where
  "call_begin config gt env st w =
     (case ct_phase st of
        PhRun i h rq slot wait_ms \<Rightarrow>
          (case attempt_begin config gt env h slot w of
             (Some e, w') \<Rightarrow> (call_settle i (Inl e) st, w')
           | (None, w') \<Rightarrow>
               (st\<lparr>ct_sent := ct_sent st @ [(h, request_for (wd_backends w ! h) rq)],
                  ct_phase := PhStream i h rq slot wait_ms\<rparr>, w'))
      | _ \<Rightarrow> (st, w))"

definition call_end ::
    "dispatcher_config \<Rightarrow> (nat \<Rightarrow> gate) \<Rightarrow> 'j attempt_env \<Rightarrow> ('t, 'r) call_state \<Rightarrow> 't world
      \<Rightarrow> ('t, 'r) call_state \<times> 't world" where
  "call_end config gt env st w =
     (case ct_phase st of
        PhStream i h rq slot wait_ms \<Rightarrow>
          (let (answer, w') = attempt_end config gt env h rq slot wait_ms w
           in (call_settle i answer st, w'))
      | _ \<Rightarrow> (st, w))"

section \<open>Rebalance\<close>

fun try_sources ::
    "(nat \<Rightarrow> gate) \<Rightarrow> instant \<Rightarrow> nat list \<Rightarrow> load list \<Rightarrow> nat \<Rightarrow> nat list \<Rightarrow> 't world
      \<Rightarrow> bool \<times> 't world" where
  "try_sources gt now live loads target [] w = (False, w)"
| "try_sources gt now live loads target (source # sources) w =
     (if \<not> lowers_the_worst loads source target
      then try_sources gt now live loads target sources w
      else
        (case pool_move gt now (bk_sched (wd_backends w ! (live ! source)))
                (bk_sched (wd_backends w ! (live ! target)))
                (bk_bit (wd_backends w ! (live ! target))) (wd_pool w) of
           (True, p) \<Rightarrow> (True, w\<lparr>wd_pool := p\<rparr>)
         | (False, p) \<Rightarrow> try_sources gt now live loads target sources (w\<lparr>wd_pool := p\<rparr>)))"

fun rebalance_moves ::
    "nat \<Rightarrow> (nat \<Rightarrow> gate) \<Rightarrow> instant \<Rightarrow> nat list \<Rightarrow> 't world \<Rightarrow> nat \<times> 't world" where
  "rebalance_moves 0 gt now live w = (0, w)"
| "rebalance_moves (Suc budget) gt now live w =
     (let loads = map (backend_load w) live
      in case min_by_key (\<lambda>i. load_start_ms (loads ! i)) [0 ..< length live] of
           None \<Rightarrow> (0, w)
         | Some target \<Rightarrow>
             (let sources = sort_by (\<lambda>a b. load_start_ms (loads ! b) \<le> load_start_ms (loads ! a))
                    (filter (\<lambda>i. i \<noteq> target) [0 ..< length live]);
                  (moved, w') = try_sources gt now live loads target sources w
              in if \<not> moved then (0, w')
                 else
                   (let (n, w'') = rebalance_moves budget gt now live w' in (Suc n, w''))))"

definition rebalance ::
    "(nat \<Rightarrow> gate) \<Rightarrow> instant \<Rightarrow> duration \<Rightarrow> dispatcher \<Rightarrow> 't world \<Rightarrow> nat \<times> dispatcher \<times> 't world" where
  "rebalance gt now interval d w =
     (if length (jn_backends (dp_joined d)) < 2 then (0, d, w)
      else if (case dp_last_rebalance d of None \<Rightarrow> False | Some t \<Rightarrow> now - t < interval)
      then (0, d, w)
      else
        (let d' = d\<lparr>dp_last_rebalance := Some now\<rparr>;
             live = filter (admits now w) (jn_backends (dp_joined d))
         in if length live < 2 then (0, d', w)
            else
              (let budget = (\<Sum>h\<leftarrow>live. ld_waiting (backend_load w h));
                   (n, w') = rebalance_moves budget gt now live w
               in (n, d', w'))))"

section \<open>Which backend is picked\<close>

text \<open>Loads whose products fit the code's 128 bits.\<close>

definition load_fits :: "load \<Rightarrow> bool" where
  "load_fits l \<longleftrightarrow> ld_calls l < 2 ^ 32 \<and> 1 \<le> ld_pace_ms l \<and> ld_pace_ms l < 2 ^ 64 \<and> ld_level l < 2 ^ 32"

definition load_weight :: "load \<Rightarrow> rat" where
  "load_weight l = of_nat (ld_calls l * ld_pace_ms l) / of_nat (max (ld_level l) 1)"

lemma load_weigh_exact:
  assumes "load_fits l" and "load_fits m"
  shows "load_weigh (ld_calls l) (ld_pace_ms l) (ld_level m)
    = ld_calls l * ld_pace_ms l * max (ld_level m) 1"
proof -
  have a: "ld_calls l * ld_pace_ms l < 2 ^ 32 * 2 ^ 64"
    using assms(1) unfolding load_fits_def by (intro mult_strict_mono) simp_all
  have "max (ld_level m) 1 \<le> 2 ^ 32" using assms(2) by (simp add: load_fits_def)
  then have "ld_calls l * ld_pace_ms l * max (ld_level m) 1 \<le> ld_calls l * ld_pace_ms l * 2 ^ 32"
    by (rule mult_le_mono2)
  also have "\<dots> < 2 ^ 32 * 2 ^ 64 * 2 ^ 32" using a by simp
  finally have b: "ld_calls l * ld_pace_ms l * max (ld_level m) 1 < 2 ^ 128" by simp
  have "ld_calls l * ld_pace_ms l < 2 ^ 128" using a by simp
  then show ?thesis using b by (simp add: load_weigh_def u128_mul_def)
qed

lemma is_lighter_iff_weight:
  assumes "load_fits l" and "load_fits m"
  shows "is_lighter_than l m \<longleftrightarrow> load_weight l < load_weight m"
proof -
  have "is_lighter_than l m \<longleftrightarrow>
      ld_calls l * ld_pace_ms l * max (ld_level m) 1 < ld_calls m * ld_pace_ms m * max (ld_level l) 1"
    using assms
    unfolding is_lighter_than_def load_weigh_exact [OF assms] load_weigh_exact [OF assms(2,1)]
    by (auto simp: load_fits_def)
  also have "\<dots> \<longleftrightarrow> load_weight l < load_weight m"
  proof -
    have pos: "(0 :: rat) < of_nat (max (ld_level l) 1)" "(0 :: rat) < of_nat (max (ld_level m) 1)"
      by simp_all
    have "load_weight l < load_weight m \<longleftrightarrow>
      (of_nat (ld_calls l * ld_pace_ms l) * of_nat (max (ld_level m) 1) :: rat)
        < of_nat (ld_calls m * ld_pace_ms m) * of_nat (max (ld_level l) 1)"
      unfolding load_weight_def using pos by (simp only: divide_less_eq less_divide_eq mult.commute mult.left_commute times_divide_eq_left times_divide_eq_right if_True)
    also have "\<dots> \<longleftrightarrow> (of_nat (ld_calls l * ld_pace_ms l * max (ld_level m) 1) :: rat)
        < of_nat (ld_calls m * ld_pace_ms m * max (ld_level l) 1)"
      by (simp only: of_nat_mult)
    finally show ?thesis by (simp only: of_nat_less_iff)
  qed
  finally show ?thesis .
qed

definition candidate :: "instant \<Rightarrow> 't world \<Rightarrow> nat list \<Rightarrow> nat \<times> nat \<Rightarrow> bool" where
  "candidate now w tried ih \<longleftrightarrow> fst ih \<notin> set tried \<and> admits now w (snd ih)"

text \<open>The loop of \<open>pick\<close> is a first minimum by weight over the candidates.\<close>

definition candidate_loads :: "instant \<Rightarrow> 't world \<Rightarrow> nat list \<Rightarrow> (nat \<times> nat) list \<Rightarrow> (nat \<times> load) list" where
  "candidate_loads now w tried ihs =
     map (\<lambda>ih. (fst ih, backend_load w (snd ih))) (filter (candidate now w tried) ihs)"

lemma pick_from_some:
  assumes "\<forall>ih \<in> set ihs. load_fits (backend_load w (snd ih))" and "load_fits (snd b)"
  shows "pick_from now w tried ihs (Some b) =
      Some (min_from (\<lambda>e. load_weight (snd e)) b (candidate_loads now w tried ihs))"
  using assms
proof (induction ihs arbitrary: b)
  case Nil
  then show ?case by (simp add: candidate_loads_def)
next
  case (Cons ih ihs)
  obtain i h where ih: "ih = (i, h)" by (cases ih)
  obtain j l where b: "b = (j, l)" by (cases b)
  have fit: "load_fits (backend_load w h)" using Cons.prems(1) ih by simp
  show ?case
  proof (cases "candidate now w tried ih")
    case False
    with Cons show ?thesis by (auto simp: ih candidate_def candidate_loads_def)
  next
    case True
    with Cons fit show ?thesis
      by (simp add: ih b candidate_def candidate_loads_def Let_def is_lighter_iff_weight)
  qed
qed

lemma pick_from_none:
  assumes "\<forall>ih \<in> set ihs. load_fits (backend_load w (snd ih))"
  shows "pick_from now w tried ihs None
    = min_by_key (\<lambda>e. load_weight (snd e)) (candidate_loads now w tried ihs)"
  using assms
proof (induction ihs)
  case Nil
  then show ?case by (simp add: candidate_loads_def min_by_key_def)
next
  case (Cons ih ihs)
  obtain i h where ih: "ih = (i, h)" by (cases ih)
  have fit: "load_fits (backend_load w h)" using Cons.prems ih by simp
  show ?case
  proof (cases "candidate now w tried ih")
    case False
    with Cons show ?thesis by (auto simp: ih candidate_def candidate_loads_def)
  next
    case True
    then show ?thesis using pick_from_some [of ihs w "(i, backend_load w h)" now tried] fit Cons.prems
      by (simp add: ih candidate_def candidate_loads_def Let_def min_by_key_def)
  qed
qed

section \<open>Runs of a call\<close>

text \<open>
  A call's own steps. Between two of them the world may change in any way, so a run gives each
  step the world it finds.
\<close>

datatype ('t, 'j) call_op =
    OpReserve instant
  | OpPoll "nat \<Rightarrow> lock_turn" instant
  | OpBegin "'j attempt_env"
  | OpEnd "'j attempt_env"

fun call_op_step ::
    "dispatcher_config \<Rightarrow> ('t, 'r) call_state \<Rightarrow> (nat \<Rightarrow> gate) \<times> ('t, 'j) call_op \<times> 't world
      \<Rightarrow> ('t, 'r) call_state" where
  "call_op_step config st (gt, OpReserve now, w) = fst (call_reserve gt now st w)"
| "call_op_step config st (gt, OpPoll lt now, w) = fst (call_poll lt now st w)"
| "call_op_step config st (gt, OpBegin env, w) = fst (call_begin config gt env st w)"
| "call_op_step config st (gt, OpEnd env, w) = fst (call_end config gt env st w)"

text \<open>Where a call is: the index of the backend it is trying, if it tries one.\<close>

fun trying :: "('t, 'r) call_phase \<Rightarrow> (nat \<times> nat) option" where
  "trying PhReserve = None"
| "trying (PhWait i h pc rq queued) = Some (i, h)"
| "trying (PhRun i h rq slot wait_ms) = Some (i, h)"
| "trying (PhStream i h rq slot wait_ms) = Some (i, h)"
| "trying (PhDone answer) = None"

fun streaming :: "('t, 'r) call_phase \<Rightarrow> bool" where
  "streaming (PhStream i h rq slot wait_ms) = True"
| "streaming _ = False"

definition sent_to :: "('t, 'r) call_state \<Rightarrow> nat list" where
  "sent_to st = map fst (ct_sent st)"

definition call_wf :: "('t, 'r) call_state \<Rightarrow> bool" where
  "call_wf st \<longleftrightarrow>
     distinct (ct_tried st) \<and> set (ct_tried st) \<subseteq> {..< length (ct_backends st)} \<and>
     distinct (sent_to st) \<and>
     (case trying (ct_phase st) of
        None \<Rightarrow> True
      | Some (i, h) \<Rightarrow>
          i < length (ct_backends st) \<and> i \<notin> set (ct_tried st) \<and> h = ct_backends st ! i) \<and>
     (case ct_phase st of
        PhDone _ \<Rightarrow> set (sent_to st) \<subseteq> set (ct_backends st)
      | PhStream i h _ _ _ \<Rightarrow>
          set (sent_to st) \<subseteq> insert h ((!) (ct_backends st) ` set (ct_tried st))
      | _ \<Rightarrow> set (sent_to st) \<subseteq> (!) (ct_backends st) ` set (ct_tried st))"

lemma pick_in:
  assumes "pick now w backends tried = Some i"
  shows "i < length backends \<and> i \<notin> set tried \<and> admits now w (backends ! i)"
proof -
  have "case pick_from now w tried ihs best of None \<Rightarrow> True
    | Some r \<Rightarrow> best = Some r \<or> (\<exists>h. (fst r, h) \<in> set ihs \<and> fst r \<notin> set tried \<and> admits now w h)"
    for ihs best
  proof (induction now w tried ihs best rule: pick_from.induct)
    case (1 now w tried best)
    then show ?case by (cases best) auto
  next
    case (2 now w tried i h ihs best)
    then show ?case
      by (auto simp: Let_def split: option.splits if_splits prod.splits)
  qed
  from this [of None "List.enumerate 0 backends"] assms show ?thesis
    by (auto simp: pick_def in_set_enumerate_eq split: option.splits)
qed

lemma reserve_Some:
  assumes "reserve gt now backends m tried w = (Inr (Some (i, h, call)), w')"
  shows "i < length backends \<and> i \<notin> set tried \<and> h = backends ! i"
proof -
  from assms obtain k where k: "pick now w backends tried = Some k"
    by (cases "pick now w backends tried") (simp_all add: reserve_def)
  with assms have "k = i \<and> h = backends ! i"
    by (auto simp: reserve_def Let_def split: prod.splits option.splits sum.splits)
  with pick_in [OF k] show ?thesis by simp
qed

lemma call_start_wf: "call_wf (call_start j rq m)"
  by (simp add: call_wf_def call_start_def sent_to_def)

lemma call_wf_pending [simp]: "call_wf (st\<lparr>ct_pending := x\<rparr>) = call_wf st"
  by (cases "ct_phase st") (simp_all add: call_wf_def sent_to_def)

lemma tried_backends:
  "set (ct_tried st) \<subseteq> {..< length (ct_backends st)} \<Longrightarrow>
     (!) (ct_backends st) ` set (ct_tried st) \<subseteq> set (ct_backends st)"
  by auto

lemma call_wf_sent: "call_wf st \<Longrightarrow> set (sent_to st) \<subseteq> set (ct_backends st)"
proof -
  assume wf: "call_wf st"
  then have sub: "(!) (ct_backends st) ` set (ct_tried st) \<subseteq> set (ct_backends st)"
    by (intro tried_backends) (simp add: call_wf_def)
  show ?thesis
  proof (cases "ct_phase st")
    case (PhStream i h rq slot wait_ms)
    then have "h \<in> set (ct_backends st)" using wf by (auto simp: call_wf_def)
    with PhStream wf sub show ?thesis unfolding call_wf_def by fastforce
  qed (use wf sub in \<open>auto simp: call_wf_def intro: order_trans\<close>)
qed

lemma call_wf_done: "call_wf st \<Longrightarrow> call_wf (st\<lparr>ct_phase := PhDone answer\<rparr>)"
  using call_wf_sent [of st] by (simp add: call_wf_def sent_to_def)

lemma call_reserve_wf:
  assumes wf: "call_wf st" and "distinct (ct_backends st)"
  shows "call_wf (fst (call_reserve gt now st w)) \<and>
    ct_backends (fst (call_reserve gt now st w)) = ct_backends st"
proof (cases "ct_phase st = PhReserve")
  case False
  with wf show ?thesis by (simp add: call_reserve_def)
next
  case True
  show ?thesis
  proof (cases "ct_pending st")
    case None
    with True call_wf_done [of "st\<lparr>ct_pending := None\<rparr>"] call_wf_done [OF wf] wf show ?thesis
      by (simp add: call_reserve_def Let_def)
  next
    case (Some rm)
    obtain rq m where rm: "rm = (rq, m)" by (cases rm)
    obtain answer w' where r: "reserve gt now (ct_backends st) m (ct_tried st) w = (answer, w')"
      by fastforce
    let ?st = "if length (ct_tried st) + 1 < length (ct_backends st) then st
      else st\<lparr>ct_pending := None\<rparr>"
    have wf': "call_wf ?st" using wf by simp
    have eq: "fst (call_reserve gt now st w) = (case answer of
        Inl e \<Rightarrow> ?st\<lparr>ct_phase := PhDone (Inl e)\<rparr>
      | Inr None \<Rightarrow> ?st\<lparr>ct_phase := PhDone (Inl (call_refused now st w))\<rparr>
      | Inr (Some (i, h, call)) \<Rightarrow> ?st\<lparr>ct_phase := PhWait i h
          \<lparr>pc_home = bk_sched (wd_backends w ! h), pc_id = call, pc_armed = True\<rparr> rq now\<rparr>)"
      using True Some rm r
      by (simp add: call_reserve_def Let_def split: sum.split option.split prod.split)
    show ?thesis
    proof (cases "\<exists>i h call. answer = Inr (Some (i, h, call))")
      case False
      with eq call_wf_done [OF wf'] show ?thesis
        by (auto split: sum.splits option.splits)
    next
      case found: True
      then obtain i h call where a: "answer = Inr (Some (i, h, call))" by blast
      from reserve_Some [OF r [unfolded a]] wf True show ?thesis
        by (simp add: eq a call_wf_def sent_to_def)
    qed
  qed
qed

lemma call_poll_wf:
  assumes wf: "call_wf st"
  shows "call_wf (fst (call_poll lt now st w)) \<and>
     ct_backends (fst (call_poll lt now st w)) = ct_backends st"
proof (cases "ct_phase st")
  case (PhWait i h pc rq queued)
  obtain answer pc' p where pl: "poll_placement lt pc (wd_pool w) = (answer, pc', p)"
    by (metis prod_cases3)
  show ?thesis
  proof (cases "\<exists>e. answer = PollReady (Inl e)")
    case True
    with PhWait pl call_wf_done [OF wf] show ?thesis by (auto simp: call_poll_def)
  next
    case False
    with PhWait pl wf show ?thesis
      by (auto simp: call_poll_def call_wf_def sent_to_def split: poll_result.split sum.split)
  qed
qed (use wf in \<open>simp_all add: call_poll_def\<close>)

lemma call_settle_wf:
  assumes "distinct (ct_tried st)" "set (ct_tried st) \<subseteq> {..< length (ct_backends st)}"
    and "distinct (sent_to st)" and "i < length (ct_backends st)" "i \<notin> set (ct_tried st)"
    and "set (sent_to st) \<subseteq> insert (ct_backends st ! i) ((!) (ct_backends st) ` set (ct_tried st))"
  shows "call_wf (call_settle i answer st) \<and> ct_backends (call_settle i answer st) = ct_backends st"
proof -
  have "ct_backends st ! i \<in> set (ct_backends st)" using assms(4) by simp
  with tried_backends [OF assms(2)] assms(6)
  have sub: "set (sent_to st) \<subseteq> set (ct_backends st)" by blast
  show ?thesis
  proof (cases "\<exists>detail. answer = Inl (DispUnreachable detail)")
    case True
    with assms show ?thesis by (auto simp: call_settle_def call_wf_def sent_to_def)
  next
    case False
    then have "call_settle i answer st = st\<lparr>ct_phase := PhDone answer\<rparr>"
      by (auto simp: call_settle_def split: sum.split dispatch_error.split)
    with assms sub show ?thesis by (simp add: call_wf_def sent_to_def)
  qed
qed

lemma call_begin_wf:
  assumes wf: "call_wf st" and d: "distinct (ct_backends st)"
  shows "call_wf (fst (call_begin config gt env st w)) \<and>
    ct_backends (fst (call_begin config gt env st w)) = ct_backends st"
proof (cases "ct_phase st")
  case (PhRun i h rq slot wait_ms)
  from wf PhRun have f: "distinct (ct_tried st)" "set (ct_tried st) \<subseteq> {..< length (ct_backends st)}"
    "distinct (sent_to st)" "i < length (ct_backends st)" "i \<notin> set (ct_tried st)"
    "h = ct_backends st ! i" "set (sent_to st) \<subseteq> (!) (ct_backends st) ` set (ct_tried st)"
    by (simp_all add: call_wf_def)
  obtain e w' where b: "attempt_begin config gt env h slot w = (e, w')" by fastforce
  show ?thesis
  proof (cases e)
    case (Some err)
    have "set (sent_to st) \<subseteq> insert (ct_backends st ! i) ((!) (ct_backends st) ` set (ct_tried st))"
      using f(7) by blast
    from call_settle_wf [OF f(1-5) this] Some b PhRun show ?thesis by (simp add: call_begin_def)
  next
    case None
    have "h \<notin> (!) (ct_backends st) ` set (ct_tried st)"
    proof
      assume "h \<in> (!) (ct_backends st) ` set (ct_tried st)"
      then obtain k where "k \<in> set (ct_tried st)" "ct_backends st ! k = ct_backends st ! i"
        using f(6) by auto
      moreover from this(1) f(2) have "k < length (ct_backends st)" by auto
      ultimately show False using f(4,5) d by (simp add: nth_eq_iff_index_eq)
    qed
    with f(7) have "h \<notin> set (sent_to st)" by blast
    with f None b PhRun show ?thesis
      by (auto simp: call_begin_def call_wf_def sent_to_def)
  qed
qed (use wf in \<open>simp_all add: call_begin_def\<close>)

lemma call_end_wf:
  assumes wf: "call_wf st"
  shows "call_wf (fst (call_end config gt env st w)) \<and>
    ct_backends (fst (call_end config gt env st w)) = ct_backends st"
proof (cases "ct_phase st")
  case (PhStream i h rq slot wait_ms)
  from wf PhStream have f: "distinct (ct_tried st)" "set (ct_tried st) \<subseteq> {..< length (ct_backends st)}"
    "distinct (sent_to st)" "i < length (ct_backends st)" "i \<notin> set (ct_tried st)"
    "set (sent_to st) \<subseteq> insert (ct_backends st ! i) ((!) (ct_backends st) ` set (ct_tried st))"
    by (auto simp: call_wf_def)
  from call_settle_wf [OF f] PhStream show ?thesis by (simp add: call_end_def split: prod.split)
qed (use wf in \<open>simp_all add: call_end_def\<close>)

interpretation call_run: stepper "call_op_step config"
  "\<lambda>st. call_wf st \<and> distinct (ct_backends st)"
proof
  fix st :: "('t, 'r) call_state" and e :: "(nat \<Rightarrow> gate) \<times> ('t, 'j) call_op \<times> 't world"
  assume st: "call_wf st \<and> distinct (ct_backends st)"
  obtain gt op w where e: "e = (gt, op, w)" by (metis prod_cases3)
  from st show "call_wf (call_op_step config st e) \<and> distinct (ct_backends (call_op_step config st e))"
    by (cases op) (simp_all add: e call_reserve_wf call_poll_wf call_begin_wf call_end_wf)
qed

lemma call_op_backends: "call_wf st \<Longrightarrow> distinct (ct_backends st) \<Longrightarrow>
    ct_backends (call_op_step config st e) = ct_backends st"
proof -
  assume st: "call_wf st" "distinct (ct_backends st)"
  obtain gt op w where e: "e = (gt, op, w)" by (metis prod_cases3)
  from st show ?thesis
    by (cases op) (simp_all add: e call_reserve_wf call_poll_wf call_begin_wf call_end_wf)
qed

lemma call_run_backends: "call_wf st \<Longrightarrow> distinct (ct_backends st) \<Longrightarrow>
    ct_backends (foldl (call_op_step config) st es) = ct_backends st"
proof (induction es arbitrary: st)
  case (Cons e es)
  have "call_wf (call_op_step config st e) \<and> distinct (ct_backends (call_op_step config st e))"
    using call_run.step_inv Cons.prems by blast
  with Cons show ?case by (simp add: call_op_backends)
qed simp

subsection \<open>The loop ends\<close>

text \<open>
  Each attempt takes at most four steps that change the call, and each one that goes round again
  leaves a backend less to try.
\<close>

fun phase_rank :: "('t, 'r) call_phase \<Rightarrow> nat" where
  "phase_rank PhReserve = 4"
| "phase_rank (PhWait i h pc rq queued) = 3"
| "phase_rank (PhRun i h rq slot wait_ms) = 2"
| "phase_rank (PhStream i h rq slot wait_ms) = 1"
| "phase_rank (PhDone answer) = 0"

definition call_left :: "('t, 'r) call_state \<Rightarrow> nat" where
  "call_left st = 4 * (length (ct_backends st) - length (ct_tried st)) + phase_rank (ct_phase st)"

fun changes ::
    "dispatcher_config \<Rightarrow> ('t, 'r) call_state \<Rightarrow> ((nat \<Rightarrow> gate) \<times> ('t, 'j) call_op \<times> 't world) list \<Rightarrow> nat" where
  "changes config st [] = 0"
| "changes config st (e # es) =
     (let st' = call_op_step config st e in (if st' = st then 0 else 1) + changes config st' es)"

lemma tried_fewer:
  assumes "call_wf st" "trying (ct_phase st) = Some (i, h)"
  shows "length (ct_tried st) < length (ct_backends st)"
proof -
  have t: "distinct (ct_tried st)" "set (ct_tried st) \<subseteq> {..< length (ct_backends st)}"
    "i < length (ct_backends st)" "i \<notin> set (ct_tried st)" using assms by (simp_all add: call_wf_def)
  then have "set (ct_tried st) \<subset> {..< length (ct_backends st)}" by auto
  then have "card (set (ct_tried st)) < card {..< length (ct_backends st)}" by (intro psubset_card_mono) simp_all
  then show ?thesis using t(1) by (simp add: distinct_card)
qed

lemma call_settle_left:
  assumes "length (ct_tried st) < length (ct_backends st)" "0 < phase_rank (ct_phase st)"
  shows "call_left (call_settle i answer st) < call_left st"
  using assms by (auto simp: call_settle_def call_left_def split: sum.split dispatch_error.split)

lemma call_reserve_left:
  assumes "ct_phase st = PhReserve"
  shows "call_left (fst (call_reserve gt now st w)) < call_left st"
  using assms by (simp add: call_reserve_def Let_def call_left_def split: option.split sum.split prod.split)

lemma call_begin_left:
  assumes "call_wf st" "ct_phase st = PhRun i h rq slot wait_ms"
  shows "call_left (fst (call_begin config gt env st w)) < call_left st"
proof -
  have f: "length (ct_tried st) < length (ct_backends st)" using tried_fewer [OF assms(1)] assms(2) by simp
  show ?thesis
  proof (cases "fst (attempt_begin config gt env h slot w)")
    case None
    then show ?thesis using assms(2) by (auto simp: call_begin_def call_left_def split: prod.split)
  next
    case (Some e)
    then show ?thesis using assms(2) call_settle_left [OF f, of i "Inl e"] by (auto simp: call_begin_def split: prod.split)
  qed
qed

lemma call_end_left:
  assumes "call_wf st" "ct_phase st = PhStream i h rq slot wait_ms"
  shows "call_left (fst (call_end config gt env st w)) < call_left st"
  using tried_fewer [OF assms(1)] assms(2) call_settle_left [of st i]
  by (simp add: call_end_def split: prod.split)

lemma poll_pending_keeps: "poll_placement lt pc p = (PollPending, pc', p') \<Longrightarrow> pc' = pc"
  by (auto simp: poll_placement_def split: prod.splits placement.splits)

lemma call_poll_left:
  assumes "ct_phase st = PhWait i h pc rq queued"
  shows "if fst (poll_placement lt pc (wd_pool w)) = PollPending then fst (call_poll lt now st w) = st
    else call_left (fst (call_poll lt now st w)) < call_left st"
proof -
  obtain answer pc' p where pl: "poll_placement lt pc (wd_pool w) = (answer, pc', p)" by (metis prod_cases3)
  show ?thesis
  proof (cases answer)
    case PollPending
    then show ?thesis using pl poll_pending_keeps [of lt pc "wd_pool w" pc' p] assms by (simp add: call_poll_def)
  next
    case (PollReady x)
    then show ?thesis using pl assms by (cases x) (simp_all add: call_poll_def call_left_def)
  qed
qed

lemma call_op_left:
  assumes "call_wf st"
  shows "call_op_step config st e = st \<or> call_left (call_op_step config st e) < call_left st"
proof -
  obtain gt op w where e: "e = (gt, op, w)" by (metis prod_cases3)
  show ?thesis
  proof (cases op)
    case (OpReserve now)
    then show ?thesis using call_reserve_left [of st gt now w] by (cases "ct_phase st = PhReserve") (simp_all add: e call_reserve_def)
  next
    case (OpPoll lt now)
    then show ?thesis
    proof (cases "ct_phase st")
      case (PhWait i h pc rq queued)
      then show ?thesis using call_poll_left [OF PhWait, of lt w now] OpPoll by (auto simp: e split: if_splits)
    qed (simp_all add: e call_poll_def)
  next
    case (OpBegin env)
    then show ?thesis
    proof (cases "ct_phase st")
      case (PhRun i h rq slot wait_ms)
      then show ?thesis using call_begin_left [OF assms PhRun, of config gt env w] OpBegin by (simp add: e)
    qed (simp_all add: e call_begin_def)
  next
    case (OpEnd env)
    then show ?thesis
    proof (cases "ct_phase st")
      case (PhStream i h rq slot wait_ms)
      then show ?thesis using call_end_left [OF assms PhStream, of config gt env w] OpEnd by (simp add: e)
    qed (simp_all add: e call_end_def)
  qed
qed

lemma changes_bounded:
  "call_wf st \<Longrightarrow> distinct (ct_backends st) \<Longrightarrow>
     changes config st es + call_left (foldl (call_op_step config) st es) \<le> call_left st"
proof (induction es arbitrary: st)
  case (Cons e es)
  have "call_wf (call_op_step config st e) \<and> distinct (ct_backends (call_op_step config st e))"
    using call_run.step_inv Cons.prems by blast
  then show ?case
    using Cons.IH [of "call_op_step config st e"] call_op_left [OF Cons.prems(1), of config e]
    by (auto simp: Let_def)
qed simp

section \<open>The slot of an attempt\<close>

lemma finish_gone:
  assumes "queue_wf (sc_queue s)"
  shows "\<not> q_is_running i (sc_queue (sched_finish g now i report s))"
proof (cases "q_complete i (sc_queue s)")
  case None
  then have nr: "\<not> q_is_running i (sc_queue s)" by (rule iffD1 [OF q_complete_None])
  show ?thesis unfolding sched_finish_absent [OF nr] by (rule nr)
next
  case (Some rq)
  obtain r q where rq: "rq = (r, q)" by (cases rq)
  note c = Some [unfolded rq]
  have "set (queue_ids (sc_queue (sched_finish g now i report s))) = set (queue_ids q)"
    using mset_eq_setD [OF step_dispatch_ids [of g now "finish_folded now i report r q s"]]
    by (simp add: sched_finish_complete [OF c])
  with q_complete_wf(2) [OF assms c]
  have "i \<notin> set (queue_ids (sc_queue (sched_finish g now i report s)))" by simp
  then show ?thesis unfolding q_waiting_or_running by blast
qed

lemma finish_slot_gone:
  assumes "pool_get (wd_pool w) (cs_home slot) = Some s" and "queue_wf (sc_queue s)"
  shows "\<exists>s'. pool_get (wd_pool (finish_slot gt now report slot w)) (cs_home slot) = Some s' \<and>
    \<not> q_is_running (cs_id slot) (sc_queue s') \<and>
    s' = sched_finish (gt (cs_home slot)) now (cs_id slot) report s"
  using assms finish_gone [OF assms(2)] pool_get_Some [OF assms(1)]
  by (simp add: finish_slot_def slot_finish_def pool_update_def pool_get_put)

lemma finish_records:
  assumes "q_is_running i (sc_queue s)"
  shows "cc_outcome (last (sc_recent (sched_finish g now i report s))) = rep_outcome report"
proof -
  obtain r q where "q_complete i (sc_queue s) = Some (r, q)"
    using assms q_complete_None [of i "sc_queue s"] by (cases "q_complete i (sc_queue s)") auto
  then show ?thesis
    by (simp add: sched_finish_complete finish_folded_def push_capped_def completed_of_def)
qed

lemma backend_updates_pool [simp]:
  "wd_pool (update_backend h f w) = wd_pool w"
  "wd_pool (backend_trip now cd h w) = wd_pool w"
  "wd_pool (backend_close h w) = wd_pool w"
  "length (wd_backends (update_backend h f w)) = length (wd_backends w)"
  by (simp_all add: update_backend_def backend_trip_def backend_close_def)

lemma finish_slot_backends [simp]: "wd_backends (finish_slot gt now report slot w) = wd_backends w"
  by (simp add: finish_slot_def)

lemma update_backend_nth:
  "h < length (wd_backends w) \<Longrightarrow>
     wd_backends (update_backend h f w) ! k
       = (if k = h then f (wd_backends w ! h) else wd_backends w ! k)"
  by (simp add: update_backend_def nth_list_update)

section \<open>Joining backends\<close>

lemma mask_bit_iff: "(m AND push_bit i 1 \<noteq> (0 :: 64 word)) \<longleftrightarrow> bit m i"
  by (simp add: push_bit_eq_mult and_exp_eq_0_iff_not_bit)

definition world_wf :: "'t world \<Rightarrow> bool" where
  "world_wf w \<longleftrightarrow>
     distinct (map bk_id (wd_backends w)) \<and> length (wd_backends w) \<le> 64 \<and>
     (length (pl_members (wd_pool w)) = length (wd_backends w) \<or>
      64 \<le> length (pl_members (wd_pool w))) \<and>
     (\<forall>k < length (wd_backends w). bk_bit (wd_backends w ! k) = push_bit k 1)"

definition joined_wf :: "'t world \<Rightarrow> joined \<Rightarrow> bool" where
  "joined_wf w j \<longleftrightarrow>
     (\<forall>h \<in> set (jn_backends j). h < length (wd_backends w)) \<and>
     (\<forall>k < 64. bit (jn_mask j) k \<longleftrightarrow> k \<in> set (jn_backends j))"

lemma pool_insert_eq:
  "pool_insert h p =
     (if length (pl_members p) < 64 then Some (length (pl_members p)) else None,
      p\<lparr>pl_members := pl_members p @ [h]\<rparr>)"
  by (auto simp: pool_insert_def Let_def u32_of_def u32_max_def)

lemma joined_wf_known:
  assumes w: "world_wf w" and j: "joined_wf w j" and h: "h < length (wd_backends w)"
  shows "joined_wf w \<lparr>jn_backends = jn_backends j @ [h],
    jn_mask = jn_mask j OR bk_bit (wd_backends w ! h)\<rparr>"
proof -
  have "bk_bit (wd_backends w ! h) = push_bit h 1" and "h < 64"
    using w h by (simp_all add: world_wf_def)
  then have "bit (jn_mask j OR bk_bit (wd_backends w ! h)) k \<longleftrightarrow> bit (jn_mask j) k \<or> k = h"
    if "k < 64" for k
    using that by (auto simp: bit_or_iff bit_exp_iff)
  with j h show ?thesis by (auto simp: joined_wf_def)
qed

lemma join_specs_wf:
  assumes "join_specs config now ss j w = (answer, w')" and "world_wf w" and "joined_wf w j"
  shows "world_wf w' \<and>
    (\<exists>new. wd_backends w' = wd_backends w @ new) \<and>
    (\<forall>j'. answer = Inr j' \<longrightarrow> joined_wf w' j' \<and>
       map (\<lambda>h. bk_id (wd_backends w' ! h)) (jn_backends j')
         = map (\<lambda>h. bk_id (wd_backends w ! h)) (jn_backends j) @ map sp_id ss)"
  using assms
proof (induction ss arbitrary: j w)
  case Nil
  then show ?case by auto
next
  case (Cons s ss)
  show ?case
  proof (cases "position (\<lambda>b. bk_id b = sp_id s) (wd_backends w)")
    case (Some h)
    let ?j = "\<lparr>jn_backends = jn_backends j @ [h], jn_mask = jn_mask j OR bk_bit (wd_backends w ! h)\<rparr>"
    from position_Some [OF Some] have h: "h < length (wd_backends w)"
      "bk_id (wd_backends w ! h) = sp_id s" by auto
    have "join_specs config now ss ?j w = (answer, w')" using Cons.prems(1) Some by simp
    from Cons.IH [OF this Cons.prems(2) joined_wf_known [OF Cons.prems(2,3) h(1)]] h(2)
    show ?thesis by simp
  next
    case None
    then have fresh: "sp_id s \<notin> bk_id ` set (wd_backends w)" by (auto simp: position_None)
    let ?sh = "length (pl_store (wd_pool w))"
    let ?p = "(wd_pool w)\<lparr>pl_store := pl_store (wd_pool w) @ [Some (sched_new (sp_id s) config now)]\<rparr>"
    let ?m = "length (pl_members (wd_pool w))"
    show ?thesis
    proof (cases "?m < 64")
      case False
      with Cons.prems None show ?thesis
        by (auto simp: pool_insert_eq world_wf_def)
    next
      case True
      let ?b = "\<lparr>bk_id = sp_id s, bk_client = sp_client s, bk_built = False, bk_model = sp_model s,
        bk_thinking = sp_thinking s, bk_sched = ?sh, bk_breaker = None, bk_bit = push_bit ?m 1\<rparr>"
      let ?w = "\<lparr>wd_pool = ?p\<lparr>pl_members := pl_members ?p @ [?sh]\<rparr>, wd_backends = wd_backends w @ [?b]\<rparr>"
      let ?j = "\<lparr>jn_backends = jn_backends j @ [length (wd_backends w)], jn_mask = jn_mask j OR bk_bit ?b\<rparr>"
      have m: "?m = length (wd_backends w)" using True Cons.prems(2) by (auto simp: world_wf_def)
      have ww: "world_wf ?w"
        using Cons.prems(2) True fresh m by (auto simp: world_wf_def nth_append less_Suc_eq)
      have "joined_wf ?w j" using Cons.prems(3) by (auto simp: joined_wf_def)
      from joined_wf_known [OF ww this, of "length (wd_backends w)"] have jj: "joined_wf ?w ?j" by simp
      have "join_specs config now ss ?j ?w = (answer, w')"
        using Cons.prems(1) None True by (simp add: pool_insert_eq Let_def)
      note IH = Cons.IH [OF this ww jj]
      have "map (\<lambda>h. bk_id ((wd_backends w @ [?b]) ! h)) (jn_backends j)
          = map (\<lambda>h. bk_id (wd_backends w ! h)) (jn_backends j)"
        using Cons.prems(3) by (auto simp: joined_wf_def nth_append)
      with IH show ?thesis by auto
    qed
  qed
qed

section \<open>What a rebalance keeps\<close>

lemma try_sources_keeps:
  "pool_wf (wd_pool w) \<Longrightarrow>
     pool_wf (wd_pool (snd (try_sources gt now live loads target sources w))) \<and>
     mset (pool_ids (wd_pool (snd (try_sources gt now live loads target sources w))))
       = mset (pool_ids (wd_pool w)) \<and>
     wd_backends (snd (try_sources gt now live loads target sources w)) = wd_backends w"
proof (induction gt now live loads target sources w rule: try_sources.induct)
  case (1 gt now live loads target w)
  then show ?case by simp
next
  case (2 gt now live loads target source sources w)
  show ?case
  proof (cases "lowers_the_worst loads source target")
    case False
    with 2 show ?thesis by simp
  next
    case True
    let ?mv = "pool_move gt now (bk_sched (wd_backends w ! (live ! source)))
      (bk_sched (wd_backends w ! (live ! target))) (bk_bit (wd_backends w ! (live ! target))) (wd_pool w)"
    obtain moved p where mv: "?mv = (moved, p)" by fastforce
    note keeps = pool_move_keeps(1,3) [where p = "wd_pool w" and gt = gt and now = now and
      source = "bk_sched (wd_backends w ! (live ! source))" and
      target = "bk_sched (wd_backends w ! (live ! target))" and
      tb = "bk_bit (wd_backends w ! (live ! target))", unfolded mv snd_conv]
    show ?thesis
    proof (cases moved)
      case True': True
      with True mv keeps "2.prems" show ?thesis by simp
    next
      case False
      have "pool_wf (wd_pool (w\<lparr>wd_pool := p\<rparr>))" using keeps(1) "2.prems" by simp
      from "2.IH"(2) [OF _ mv [symmetric] _ this] True False mv keeps show ?thesis by simp
    qed
  qed
qed

lemma rebalance_moves_keeps:
  "pool_wf (wd_pool w) \<Longrightarrow>
     pool_wf (wd_pool (snd (rebalance_moves budget gt now live w))) \<and>
     mset (pool_ids (wd_pool (snd (rebalance_moves budget gt now live w))))
       = mset (pool_ids (wd_pool w)) \<and>
     wd_backends (snd (rebalance_moves budget gt now live w)) = wd_backends w \<and>
     fst (rebalance_moves budget gt now live w) \<le> budget"
proof (induction budget arbitrary: w)
  case 0
  then show ?case by simp
next
  case (Suc budget)
  let ?loads = "map (backend_load w) live"
  show ?case
  proof (cases "min_by_key (\<lambda>i. load_start_ms (?loads ! i)) [0 ..< length live]")
    case None
    then have "rebalance_moves (Suc budget) gt now live w = (0, w)"
      by (simp only: rebalance_moves.simps Let_def None option.case)
    with Suc.prems show ?thesis by simp
  next
    case (Some target)
    let ?sources = "sort_by (\<lambda>a b. load_start_ms (?loads ! b) \<le> load_start_ms (?loads ! a))
      (filter (\<lambda>i. i \<noteq> target) [0 ..< length live])"
    obtain moved w' where t: "try_sources gt now live ?loads target ?sources w = (moved, w')" by fastforce
    note keep = try_sources_keeps [OF Suc.prems, of gt now live ?loads target ?sources, unfolded t snd_conv]
    obtain n w'' where r: "rebalance_moves budget gt now live w' = (n, w'')" by fastforce
    have eq: "rebalance_moves (Suc budget) gt now live w = (if \<not> moved then (0, w') else (Suc n, w''))"
      using Some t r by (simp add: Let_def)
    from Suc.IH [of w'] keep r show ?thesis unfolding eq by (cases moved) simp_all
  qed
qed

text \<open>Every branch of \<open>attempt_end\<close> finishes the slot, with \<open>Ok\<close> exactly if it returns \<open>Ok\<close>.\<close>

lemma attempt_end_cases:
  assumes "attempt_end config gt env h rq slot wait_ms w = (answer, w')"
  shows "\<exists>report w0. w' = finish_slot gt (ae_end env) report slot w0 \<and> wd_pool w0 = wd_pool w \<and>
    (rep_outcome report = OutcomeOk \<longleftrightarrow> (\<exists>c. answer = Inr c))"
proof (cases "attempt_stream config env")
  case (Inl e)
  let ?w0 = "case e of DispUnreachable _ \<Rightarrow> backend_trip (ae_end env) (dc_cooldown config) h w | _ \<Rightarrow> w"
  from assms Inl have "answer = Inl e"
    "w' = finish_slot gt (ae_end env) (call_report_empty OutcomeFailed) slot ?w0"
    by (simp_all add: attempt_end_def Let_def)
  moreover have "wd_pool ?w0 = wd_pool w" by (simp split: dispatch_error.split)
  ultimately show ?thesis
    by (intro exI [of _ "call_report_empty OutcomeFailed"] exI [of _ ?w0])
      (simp add: call_report_empty_def)
next
  case (Inr r)
  from assms Inr have "w' = finish_slot gt (ae_end env) (reply_report r) slot (backend_close h w)"
    "(\<exists>c. answer = Inr c) \<longleftrightarrow> trim (sr_text r) \<noteq> []"
    by (auto simp: attempt_end_def Let_def split: if_splits)
  then show ?thesis
    by (intro exI [of _ "reply_report r"] exI [of _ "backend_close h w"]) (simp add: reply_report_def)
qed

lemma candidate_loads_nth:
  assumes "e \<in> set (candidate_loads now w tried (List.enumerate 0 backends))"
  shows "fst e < length backends \<and> snd e = backend_load w (backends ! fst e) \<and>
    candidate now w tried (fst e, backends ! fst e)"
  using assms by (auto simp: candidate_loads_def in_set_enumerate_eq)

lemma candidate_loads_in:
  "k < length backends \<Longrightarrow> candidate now w tried (k, backends ! k) \<Longrightarrow>
     (k, backend_load w (backends ! k)) \<in> set (candidate_loads now w tried (List.enumerate 0 backends))"
  by (force simp: candidate_loads_def in_set_enumerate_eq)

lemma candidate_loads_sorted:
  "sorted_wrt (\<lambda>a b. fst a < fst b) (candidate_loads now w tried (List.enumerate 0 backends))"
proof -
  have "sorted_wrt (\<lambda>a b. fst a < fst b) (List.enumerate n backends)" for n
    by (induction backends arbitrary: n) (auto simp: in_set_enumerate_eq)
  then show ?thesis unfolding candidate_loads_def
    by (simp add: sorted_wrt_map sorted_wrt_filter)
qed

lemma picked_candidate:
  assumes "min_by_key (\<lambda>e. load_weight (snd e))
      (candidate_loads now w tried (List.enumerate 0 backends)) = Some m"
  shows "\<exists>i. i < length backends \<and> m = (i, backend_load w (backends ! i)) \<and>
    candidate now w tried (i, backends ! i) \<and>
    (\<forall>k < length backends. candidate now w tried (k, backends ! k) \<longrightarrow>
       load_weight (snd m) \<le> load_weight (backend_load w (backends ! k)) \<and>
       (k < i \<longrightarrow> load_weight (snd m) < load_weight (backend_load w (backends ! k))))"
proof -
  let ?cs = "candidate_loads now w tried (List.enumerate 0 backends)"
  obtain pre post where cs: "?cs = pre @ m # post"
    and pre: "\<forall>y \<in> set pre. load_weight (snd m) < load_weight (snd y)"
    and post: "\<forall>y \<in> set post. load_weight (snd m) \<le> load_weight (snd y)"
    using min_by_key_first [OF assms] by blast
  have m: "fst m < length backends" "snd m = backend_load w (backends ! fst m)"
    "candidate now w tried (fst m, backends ! fst m)"
    using candidate_loads_nth [of m now w tried backends] cs by auto
  have "load_weight (snd m) \<le> load_weight (backend_load w (backends ! k)) \<and>
      (k < fst m \<longrightarrow> load_weight (snd m) < load_weight (backend_load w (backends ! k)))"
    if k: "k < length backends" "candidate now w tried (k, backends ! k)" for k
  proof -
    have "(k, backend_load w (backends ! k)) \<in> set (pre @ m # post)"
      using candidate_loads_in [OF k] cs by simp
    then consider "(k, backend_load w (backends ! k)) \<in> set pre" | "(k, backend_load w (backends ! k)) = m"
      | "(k, backend_load w (backends ! k)) \<in> set post" by auto
    then show ?thesis
    proof cases
      case 1
      with pre show ?thesis by force
    next
      case 2
      then show ?thesis by auto
    next
      case 3
      have "sorted_wrt (\<lambda>a b. fst a < fst b) (pre @ m # post)"
        using candidate_loads_sorted [of now w tried backends] cs by simp
      with 3 have "fst m < k" by (auto simp: sorted_wrt_append)
      with 3 post show ?thesis by force
    qed
  qed
  with m show ?thesis by (intro exI [of _ "fst m"]) (auto simp: prod_eq_iff)
qed

section \<open>Properties\<close>

definition demo_backend :: "nat \<Rightarrow> unit backend" where
  "demo_backend k = \<lparr>bk_id = show_nat k, bk_client = ReadyClient, bk_built = False, bk_model = None,
     bk_thinking = None, bk_sched = k, bk_breaker = None, bk_bit = push_bit k 1\<rparr>"

definition demo_world :: "unit world" where
  "demo_world = \<lparr>wd_pool = held_pool, wd_backends = [demo_backend 0, demo_backend 1]\<rparr>"

lemma demo_loads:
  "backend_load demo_world 0 = \<lparr>ld_calls = 0, ld_waiting = 0, ld_level = 1, ld_pace_ms = 2000\<rparr>"
  "backend_load demo_world 1 = \<lparr>ld_calls = 1, ld_waiting = 1, ld_level = 1, ld_pace_ms = 2000\<rparr>"
  by (simp_all add: backend_load_def demo_world_def demo_backend_def pool_get_def held_pool_def
      sched_load_def sched_new_def held_sched_def queue_empty_def tuner_new_def assumed_call_ms_def)

lemmas demo_loads' = demo_loads demo_loads(2) [unfolded One_nat_def]

text \<open>
  \<open>pick\<close> takes the backend that would start the call soonest: the picked backend was not tried
and its breaker admits, no other such backend is lighter, and among equally light ones it is the
first listed. It picks none exactly if every backend was tried or refuses.
\<close>

theorem pick_takes_the_lightest:
  assumes "\<forall>h \<in> set backends. load_fits (backend_load w h)"
  shows "case pick now w backends tried of
      None \<Rightarrow> \<forall>k < length backends. k \<in> set tried \<or> \<not> admits now w (backends ! k)
    | Some i \<Rightarrow> i < length backends \<and> i \<notin> set tried \<and> admits now w (backends ! i) \<and>
        (\<forall>k < length backends. k \<notin> set tried \<and> admits now w (backends ! k) \<longrightarrow>
           \<not> is_lighter_than (backend_load w (backends ! k)) (backend_load w (backends ! i)) \<and>
           (k < i \<longrightarrow> is_lighter_than (backend_load w (backends ! i)) (backend_load w (backends ! k))))"
proof -
  let ?ihs = "List.enumerate 0 backends" and ?f = "\<lambda>e. load_weight (snd e)"
  let ?cs = "candidate_loads now w tried ?ihs"
  have fits: "\<forall>ih \<in> set ?ihs. load_fits (backend_load w (snd ih))"
    using assms by (simp add: ball_enumerate [where P = "\<lambda>h. load_fits (backend_load w h)"])
  have pick: "pick now w backends tried = map_option fst (min_by_key ?f ?cs)"
    by (simp add: pick_def pick_from_none [OF fits])
  have fit: "load_fits (backend_load w (backends ! k))" if "k < length backends" for k
    using assms that by simp
  show ?thesis
  proof (cases "min_by_key ?f ?cs")
    case None
    then have "filter (candidate now w tried) ?ihs = []" by (simp add: candidate_loads_def)
    then have "\<forall>k < length backends. \<not> candidate now w tried (k, backends ! k)"
      by (auto simp: filter_empty_conv in_set_enumerate_eq)
    then show ?thesis by (simp add: pick None candidate_def)
  next
    case (Some m)
    obtain i where i: "i < length backends" "m = (i, backend_load w (backends ! i))"
      "candidate now w tried (i, backends ! i)"
      and least: "\<And>k. k < length backends \<Longrightarrow> candidate now w tried (k, backends ! k) \<Longrightarrow>
        ?f m \<le> load_weight (backend_load w (backends ! k)) \<and>
        (k < i \<longrightarrow> ?f m < load_weight (backend_load w (backends ! k)))"
      using picked_candidate [OF Some] by metis
    show ?thesis
      using i least fit
      by (auto simp: pick Some candidate_def is_lighter_iff_weight not_less)
  qed
qed

theorem pick_takes_the_lightest_witness:
  "\<not> is_lighter_than (backend_load demo_world 1) (backend_load demo_world 0)"
proof -
  have fits: "\<forall>h \<in> set [0, 1]. load_fits (backend_load demo_world h)"
    by (simp add: demo_loads' load_fits_def)
  have p: "pick 5 demo_world [0, 1] [] = Some 0"
    by (simp add: pick_def admits_def breaker_remaining_def demo_world_def demo_backend_def Let_def
        demo_loads' [unfolded demo_world_def demo_backend_def, simplified] is_lighter_than_def)
  have "admits 5 demo_world 1" by (simp add: admits_def breaker_remaining_def demo_world_def demo_backend_def)
  then show ?thesis
    using pick_takes_the_lightest [OF fits, where now = 5 and tried = "[]"] unfolding p option.case
    by (metis One_nat_def empty_iff empty_set length_Cons lessI list.size(3) nth_Cons_0 nth_Cons_Suc)
qed

text \<open>
C12: The failover loop of \<open>Dispatcher::call\<close> sends a call at most once to each backend of its list
and ends. Whatever the world does between its steps, no backend is sent the call twice, none outside
the list is sent it, and none is tried twice. Over any run at most four steps per backend and four
more change the call, and until it is done the step of its phase does change it: a reserve, the
start of an attempt and its end always, a poll as soon as the scheduler answers anything but pending.
\<close>

theorem call_is_sent_once_per_backend:
  fixes rq :: "('t, 'r) request" and es :: "((nat \<Rightarrow> gate) \<times> ('t, 'j) call_op \<times> 't world) list"
  assumes "distinct (jn_backends j)" and "st = foldl (call_op_step config) (call_start j rq m) es"
  shows "distinct (sent_to st) \<and> set (sent_to st) \<subseteq> set (jn_backends j) \<and>
    length (sent_to st) \<le> length (jn_backends j) \<and>
    distinct (ct_tried st) \<and> length (ct_tried st) \<le> length (jn_backends j) \<and>
    changes config (call_start j rq m) es \<le> 4 * length (jn_backends j) + 4 \<and>
    (case ct_phase st of
       PhReserve \<Rightarrow> \<forall>gt now w. fst (call_reserve gt now st w) \<noteq> st
     | PhWait i h pc rq queued \<Rightarrow> \<forall>lt now w. fst (call_poll lt now st w) = st \<longleftrightarrow>
         fst (poll_placement lt pc (wd_pool w)) = PollPending
     | PhRun i h rq slot wait_ms \<Rightarrow>
         \<forall>gt (env :: 'j attempt_env) w. fst (call_begin config gt env st w) \<noteq> st
     | PhStream i h rq slot wait_ms \<Rightarrow>
         \<forall>gt (env :: 'j attempt_env) w. fst (call_end config gt env st w) \<noteq> st
     | PhDone answer \<Rightarrow> True)"
proof -
  have start: "call_wf (call_start j rq m) \<and> distinct (ct_backends (call_start j rq m))"
    using assms(1) by (simp add: call_start_wf) (simp add: call_start_def)
  have inv: "call_wf st \<and> distinct (ct_backends st)"
    unfolding assms(2) by (rule call_run.run_inv [OF start])
  have b: "ct_backends st = jn_backends j"
    unfolding assms(2) using call_run_backends [of "call_start j rq m" config es] start
    by (simp add: call_start_def)
  have sub: "set (sent_to st) \<subseteq> set (jn_backends j)" using call_wf_sent [of st] inv b by simp
  have d: "distinct (sent_to st)" "distinct (ct_tried st)"
    and t: "set (ct_tried st) \<subseteq> {..< length (jn_backends j)}"
    using inv b by (simp_all add: call_wf_def)
  have sent: "length (sent_to st) \<le> length (jn_backends j)"
    using card_mono [OF _ sub] d(1) assms(1) by (simp add: distinct_card)
  have tried: "length (ct_tried st) \<le> length (jn_backends j)"
    using card_mono [OF _ t] d(2) by (simp add: distinct_card)
  have few: "changes config (call_start j rq m) es \<le> 4 * length (jn_backends j) + 4"
    using changes_bounded [of "call_start j rq m" config es] start by (simp add: call_left_def call_start_def)
  have wf: "call_wf st" using inv by simp
  have go: "case ct_phase st of
       PhReserve \<Rightarrow> \<forall>gt now w. fst (call_reserve gt now st w) \<noteq> st
     | PhWait i h pc rq queued \<Rightarrow> \<forall>lt now w. fst (call_poll lt now st w) = st \<longleftrightarrow>
         fst (poll_placement lt pc (wd_pool w)) = PollPending
     | PhRun i h rq slot wait_ms \<Rightarrow>
         \<forall>gt (env :: 'j attempt_env) w. fst (call_begin config gt env st w) \<noteq> st
     | PhStream i h rq slot wait_ms \<Rightarrow>
         \<forall>gt (env :: 'j attempt_env) w. fst (call_end config gt env st w) \<noteq> st
     | PhDone answer \<Rightarrow> True"
  proof (cases "ct_phase st")
    case PhReserve
    have "fst (call_reserve gt now st w) \<noteq> st" for gt now w
      using call_reserve_left [OF PhReserve, of gt now w] by (metis less_irrefl)
    then show ?thesis using PhReserve by simp
  next
    case (PhWait i h pc rq queued)
    have "fst (call_poll lt now st w) = st \<longleftrightarrow> fst (poll_placement lt pc (wd_pool w)) = PollPending" for lt now w
      using call_poll_left [OF PhWait, of lt w now] by (metis less_irrefl)
    then show ?thesis using PhWait by simp
  next
    case (PhRun i h rq slot wait_ms)
    have "fst (call_begin config gt env st w) \<noteq> st" for gt and env :: "'j attempt_env" and w
      using call_begin_left [OF wf PhRun, of config gt env w] by (metis less_irrefl)
    then show ?thesis using PhRun by simp
  next
    case (PhStream i h rq slot wait_ms)
    have "fst (call_end config gt env st w) \<noteq> st" for gt and env :: "'j attempt_env" and w
      using call_end_left [OF wf PhStream, of config gt env w] by (metis less_irrefl)
    then show ?thesis using PhStream by simp
  qed simp
  show ?thesis by (intro conjI d sub sent tried few go)
qed

text \<open>A call that is sent to the first backend, which refuses the connection, and goes round again.\<close>

definition running_pool :: pool where
  "running_pool = \<lparr>pl_store = [Some ((sched_new ''a'' demo_config 0)\<lparr>sc_queue :=
       \<lparr>q_waiting = [], q_running = [\<lparr>r_id = 1, r_meta = demo_call, r_value = 1, r_waited = 0,
          r_started = 5, r_bucket = 0, r_level = 1\<rparr>]\<rparr>\<rparr>)],
     pl_members = [0], pl_next = 2\<rparr>"

definition failing_env :: "unit attempt_env" where
  "failing_env = \<lparr>ae_now = 6, ae_build = None, ae_started = 6, ae_answer = Inl (ErrTransport ''x''),
     ae_times_out = False, ae_end = 9\<rparr>"

definition failing_run :: "((nat \<Rightarrow> gate) \<times> (unit, unit) call_op \<times> unit world) list" where
  "failing_run = [(\<lambda>_. open_gate, OpReserve 5, demo_world),
     (\<lambda>_. open_gate, OpPoll (\<lambda>_. alone (\<lambda>_. open_gate) 6) 6, demo_world\<lparr>wd_pool := running_pool\<rparr>),
     (\<lambda>_. open_gate, OpBegin failing_env, demo_world), (\<lambda>_. open_gate, OpEnd failing_env, demo_world)]"

lemma failing_run_sends:
  "sent_to (foldl (call_op_step (dispatcher_config_new demo_config))
     (call_start \<lparr>jn_backends = [0, 1], jn_mask = 3\<rparr>
       \<lparr>rq_model = ''m'', rq_thinking = None, rq_rest = ()\<rparr> demo_call) failing_run) = [0]"
proof -
  let ?rq = "\<lparr>rq_model = ''m'', rq_thinking = None, rq_rest = ()\<rparr>" and ?m = "demo_call\<lparr>meta_allowed := 3\<rparr>"
  let ?c = "dispatcher_config_new demo_config" and ?gt = "\<lambda>_ :: nat. open_gate"
  define st0 :: "(unit, unit) call_state" where "st0 = call_start \<lparr>jn_backends = [0, 1], jn_mask = 3\<rparr> ?rq demo_call"
  let ?pc = "\<lparr>pc_home = 0, pc_id = 1, pc_armed = True\<rparr>"
  let ?slot = "\<lparr>cs_home = 0, cs_id = 1, cs_level = 1, cs_done = False\<rparr>"
  have st: "ct_phase st0 = PhReserve" "ct_tried st0 = []" "ct_backends st0 = [0, 1]" "ct_pending st0 = Some (?rq, ?m)"
    by (simp_all add: st0_def call_start_def)
  have sent: "ct_sent st0 = []" by (simp add: st0_def call_start_def)
  have pk: "pick 5 demo_world [0, Suc 0] [] = Some 0"
    by (simp add: pick_def admits_def demo_loads' is_lighter_than_def load_weigh_def u128_mul_def)
      (simp add: demo_world_def demo_backend_def breaker_remaining_def)
  have enq: "fst (pool_enqueue ?gt 5 0 ?m held_pool) = Some (Inr 1)"
    by (simp add: pool_enqueue_def pool_get_def held_pool_def sched_enqueue_room sched_new_def queue_empty_def
        demo_config_def split: prod.split)
  obtain p where p: "pool_enqueue ?gt 5 0 ?m held_pool = (Some (Inr 1), p)" using enq by (metis prod.collapse)
  have s0: "bk_sched (wd_backends demo_world ! 0) = 0" "wd_pool demo_world = held_pool"
    by (simp_all add: demo_world_def demo_backend_def)
  have 1: "fst (call_reserve ?gt 5 st0 demo_world) = st0\<lparr>ct_phase := PhWait 0 0 ?pc ?rq 5\<rparr>"
    by (simp add: call_reserve_def st reserve_def pk p s0)
  have get: "pool_get running_pool 0 \<noteq> None" by (simp add: running_pool_def pool_get_def)
  have place: "sched_place open_gate 6 1 s = (Some (MemberRunning 1), s)" if "pool_get running_pool 0 = Some s" for s
    using that by (auto simp: running_pool_def pool_get_def sched_place_def q_running_level_def)
  have poll: "fst (poll_placement (\<lambda>_. alone ?gt 6) ?pc running_pool) = PollReady (Inr ?slot)"
    using get place
    by (auto simp: poll_placement_def pool_placement_def before_def alone_def Let_def)
  have 2: "fst (call_poll (\<lambda>_. alone ?gt 6) 6 (st0\<lparr>ct_phase := PhWait 0 0 ?pc ?rq 5\<rparr>) (demo_world\<lparr>wd_pool := running_pool\<rparr>))
      = st0\<lparr>ct_phase := PhRun 0 0 ?rq ?slot (millis 1)\<rparr>"
    using poll by (auto simp: call_poll_def split: prod.split poll_result.split sum.split)
  have 3: "fst (call_begin ?c ?gt failing_env (st0\<lparr>ct_phase := PhRun 0 0 ?rq ?slot (millis 1)\<rparr>) demo_world)
      = st0\<lparr>ct_sent := [(0, ?rq)], ct_phase := PhStream 0 0 ?rq ?slot (millis 1)\<rparr>"
    by (simp add: call_begin_def attempt_begin_def demo_world_def demo_backend_def breaker_admit_def breaker_remaining_def
        has_client_def failing_env_def request_for_def sent)
  have 4: "sent_to (fst (call_end ?c ?gt failing_env
      (st0\<lparr>ct_sent := [(0, ?rq)], ct_phase := PhStream 0 0 ?rq ?slot (millis 1)\<rparr>) demo_world)) = [0]"
    by (simp add: call_end_def sent_to_def call_settle_def split: prod.split sum.split dispatch_error.split)
  show ?thesis unfolding st0_def [symmetric] by (simp only: failing_run_def foldl.simps call_op_step.simps 1 2 3 4)
qed

theorem call_is_sent_once_per_backend_witness:
  "\<exists>st. st = foldl (call_op_step (dispatcher_config_new demo_config))
     (call_start \<lparr>jn_backends = [0, 1], jn_mask = 3\<rparr>
       \<lparr>rq_model = ''m'', rq_thinking = None, rq_rest = ()\<rparr> demo_call) failing_run \<and>
     sent_to st = [0] \<and> length (ct_tried st) \<le> 2 \<and>
     changes (dispatcher_config_new demo_config)
       (call_start \<lparr>jn_backends = [0, 1], jn_mask = 3\<rparr>
         \<lparr>rq_model = ''m'', rq_thinking = None, rq_rest = ()\<rparr> demo_call) failing_run \<le> 12"
proof -
  have "distinct (jn_backends \<lparr>jn_backends = [0, 1], jn_mask = 3\<rparr>)" by simp
  from call_is_sent_once_per_backend [OF this refl, of "dispatcher_config_new demo_config"
      "\<lparr>rq_model = ''m'', rq_thinking = None, rq_rest = ()\<rparr>" demo_call failing_run] failing_run_sends
  show ?thesis by auto
qed

text \<open>
Every end of an attempt gives the slot back: after it the call no longer runs in the
scheduler that gave the slot, and if it did run there the scheduler's last completed call is
recorded as Ok exactly if the call returns \<open>Ok\<close>, so a reply without text counts as a failure.
\<close>

theorem attempt_end_settles_the_slot:
  assumes "pool_get (wd_pool w) (cs_home slot) = Some s" and "queue_wf (sc_queue s)"
    and "attempt_end config gt env h rq slot wait_ms w = (answer, w')"
  shows "\<exists>s'. pool_get (wd_pool w') (cs_home slot) = Some s' \<and>
    \<not> q_is_running (cs_id slot) (sc_queue s') \<and>
    (q_is_running (cs_id slot) (sc_queue s) \<longrightarrow>
      (cc_outcome (last (sc_recent s')) = OutcomeOk \<longleftrightarrow> (\<exists>c. answer = Inr c)))"
proof -
  obtain report w0 where w': "w' = finish_slot gt (ae_end env) report slot w0"
    and pool: "wd_pool w0 = wd_pool w"
    and ok: "rep_outcome report = OutcomeOk \<longleftrightarrow> (\<exists>c. answer = Inr c)"
    using attempt_end_cases [OF assms(3)] by blast
  from finish_slot_gone [of w0 slot s gt "ae_end env" report] assms(1,2) pool
  obtain s' where s': "pool_get (wd_pool w') (cs_home slot) = Some s'"
    "\<not> q_is_running (cs_id slot) (sc_queue s')"
    "s' = sched_finish (gt (cs_home slot)) (ae_end env) (cs_id slot) report s"
    by (auto simp: w')
  with ok finish_records show ?thesis by (intro exI [of _ s']) (auto simp: s'(3))
qed

theorem attempt_end_settles_the_slot_witness:
  "let w' = snd (attempt_end (dispatcher_config_new demo_config) (\<lambda>_. open_gate)
       \<lparr>ae_now = 1, ae_build = None, ae_started = 1, ae_answer = Inl (ErrTransport ''x'') :: unit stream_answer,
        ae_times_out = False, ae_end = 2\<rparr> 1
       \<lparr>rq_model = ''m'', rq_thinking = None, rq_rest = ()\<rparr>
       \<lparr>cs_home = 1, cs_id = 0, cs_level = 1, cs_done = False\<rparr> 0 demo_world)
   in \<exists>s'. pool_get (wd_pool w') 1 = Some s' \<and> \<not> q_is_running 0 (sc_queue s')"
proof -
  let ?slot = "\<lparr>cs_home = 1, cs_id = 0, cs_level = 1, cs_done = False\<rparr>"
  have p: "pool_get (wd_pool demo_world) (cs_home ?slot) = Some held_sched"
    using held_pool_facts(2) by (simp add: demo_world_def)
  have q: "queue_wf (sc_queue held_sched)" by (simp add: held_sched_def queue_wf_def queue_ids_def)
  let ?env = "\<lparr>ae_now = 1, ae_build = None, ae_started = 1,
    ae_answer = Inl (ErrTransport ''x'') :: unit stream_answer, ae_times_out = False, ae_end = 2\<rparr>"
  obtain answer w' where e: "attempt_end (dispatcher_config_new demo_config) (\<lambda>_. open_gate) ?env 1
      \<lparr>rq_model = ''m'', rq_thinking = None, rq_rest = ()\<rparr> ?slot 0 demo_world = (answer, w')"
    by fastforce
  from attempt_end_settles_the_slot [OF p q e]
  show ?thesis unfolding e Let_def snd_conv by auto
qed

text \<open>
  The breaker: once tripped at \<open>t\<close> it refuses every call before \<open>t + cooldown\<close> and admits every
call from then on, with no half-open state; closed, it admits every call.
\<close>

theorem breaker_refuses_until_cooldown:
  "(breaker_admit now (snd (breaker_trip t cooldown b)) = Inr () \<longleftrightarrow> t + cooldown \<le> now) \<and>
   breaker_admit now (snd (breaker_close b)) = Inr () \<and>
   (fst (breaker_trip t cooldown b) \<longleftrightarrow> b = None)"
  by (auto simp: breaker_admit_def breaker_remaining_def breaker_trip_def breaker_close_def Let_def)

text \<open>
  The bits a call is stamped with name exactly the backends of its dispatcher's list: whatever
lists a registry joined before, after a join the mask has a backend's bit exactly if the list
names it (so a rebalance, which asks for that bit, never moves a call to a backend its dispatcher
does not list), and the joined backends have the listed ids, in order.
\<close>

theorem join_masks_exactly_the_listed_backends:
  assumes "world_wf w" and "registry_join config now specs w = (Inr j, w')"
  shows "world_wf w' \<and> map (\<lambda>h. bk_id (wd_backends w' ! h)) (jn_backends j) = map sp_id specs \<and>
    (\<forall>h < length (wd_backends w').
       jn_mask j AND bk_bit (wd_backends w' ! h) \<noteq> 0 \<longleftrightarrow> h \<in> set (jn_backends j))"
proof -
  let ?j = "\<lparr>jn_backends = [], jn_mask = 0\<rparr>"
  from assms(2) have "join_specs config now specs ?j w = (Inr j, w')"
    by (simp add: registry_join_def split: option.splits)
  moreover have "joined_wf w ?j" by (simp add: joined_wf_def)
  ultimately have r: "world_wf w'" "joined_wf w' j"
    "map (\<lambda>h. bk_id (wd_backends w' ! h)) (jn_backends j) = map sp_id specs"
    using join_specs_wf [OF _ assms(1)] by fastforce+
  have "jn_mask j AND bk_bit (wd_backends w' ! h) \<noteq> 0 \<longleftrightarrow> h \<in> set (jn_backends j)"
    if h: "h < length (wd_backends w')" for h
  proof -
    have "bk_bit (wd_backends w' ! h) = push_bit h 1" "h < 64" using r(1) h by (simp_all add: world_wf_def)
    then show ?thesis using mask_bit_iff [of "jn_mask j" h] r(2) by (simp add: joined_wf_def)
  qed
  with r show ?thesis by blast
qed

theorem join_masks_exactly_the_listed_backends_witness:
  "let (answer, w') = registry_join demo_config 0
       [\<lparr>sp_id = ''a'', sp_client = ReadyClient, sp_model = None, sp_thinking = None :: unit option\<rparr>]
       \<lparr>wd_pool = \<lparr>pl_store = [], pl_members = [], pl_next = 0\<rparr>, wd_backends = []\<rparr>
   in map (\<lambda>h. bk_id (wd_backends w' ! h)) (jn_backends (projr answer)) = [''a'']"
proof -
  let ?w = "\<lparr>wd_pool = \<lparr>pl_store = [], pl_members = [], pl_next = 0\<rparr>, wd_backends = []\<rparr> :: unit world"
  let ?ss = "[\<lparr>sp_id = ''a'', sp_client = ReadyClient, sp_model = None, sp_thinking = None\<rparr>]"
  have w: "world_wf ?w" by (simp add: world_wf_def)
  obtain j w' where r: "registry_join demo_config 0 ?ss ?w = (Inr j, w')"
    by (simp add: registry_join_def pool_insert_eq Let_def)
  from join_masks_exactly_the_listed_backends [OF w r] show ?thesis by (simp add: r)
qed

text \<open>
C13: A rebalance only moves calls: it loses and duplicates none, keeps every invariant of the pool
and every backend's breaker, and makes at most as many moves as calls wait on the backends that
admit.
\<close>

theorem rebalance_only_moves_calls:
  assumes "pool_wf (wd_pool w)" and "rebalance gt now interval d w = (n, d', w')"
  shows "pool_wf (wd_pool w') \<and> mset (pool_ids (wd_pool w')) = mset (pool_ids (wd_pool w)) \<and>
    wd_backends w' = wd_backends w \<and>
    n \<le> (\<Sum>h\<leftarrow>filter (admits now w) (jn_backends (dp_joined d)). ld_waiting (backend_load w h))"
proof -
  let ?live = "filter (admits now w) (jn_backends (dp_joined d))"
  let ?budget = "\<Sum>h\<leftarrow>?live. ld_waiting (backend_load w h)"
  have "(n, w') = (0, w) \<or> (n, w') = rebalance_moves ?budget gt now ?live w"
    using assms(2) by (auto simp: rebalance_def Let_def split: if_splits prod.splits)
  then show ?thesis
  proof
    assume "(n, w') = (0, w)"
    then show ?thesis using assms(1) by simp
  next
    assume "(n, w') = rebalance_moves ?budget gt now ?live w"
    then show ?thesis using rebalance_moves_keeps [OF assms(1), of ?budget gt now ?live]
      by (metis fst_conv snd_conv)
  qed
qed


theorem rebalance_only_moves_calls_witness:
  "mset (pool_ids (wd_pool (snd (snd (rebalance (\<lambda>_. open_gate) 5 0
      \<lparr>dp_joined = \<lparr>jn_backends = [0, 1], jn_mask = 3\<rparr>, dp_config = dispatcher_config_new demo_config,
       dp_last_rebalance = None\<rparr> demo_world)))))
   = mset (pool_ids held_pool)"
proof -
  let ?d = "\<lparr>dp_joined = \<lparr>jn_backends = [0, 1], jn_mask = 3\<rparr>,
    dp_config = dispatcher_config_new demo_config, dp_last_rebalance = None\<rparr>"
  have wf: "pool_wf (wd_pool demo_world)" using held_pool_facts(1) by (simp add: demo_world_def)
  obtain n d' w' where r: "rebalance (\<lambda>_. open_gate) 5 0 ?d demo_world = (n, d', w')"
    by (metis prod_cases3)
  have "mset (pool_ids (wd_pool w')) = mset (pool_ids (wd_pool demo_world))"
    using rebalance_only_moves_calls [OF wf r] by blast
  then show ?thesis unfolding r snd_conv by (simp add: demo_world_def)
qed

section \<open>Where the code differs from its comments\<close>

text \<open>
  The module header promises that a waiting call that \<open>rebalance\<close> moves runs on the backend that
  took it. The slot does: it is a slot of the scheduler \<open>k\<close> that holds the call. But
  \<open>Dispatcher::call\<close> goes on with the backend it reserved on: \<open>call_begin\<close> asks the breaker of that
  backend and sends the request to its client, while the slot, the measured run time and the
  outcome are those of the other backend's scheduler.
\<close>

lemma moved_call_is_sent_to_the_reserved_backend:
  assumes "\<forall>q \<in> set (scan_views lt pc (wd_pool w)). pool_wf q \<and> held_by k (pc_id pc) q"
    and "k \<in> set (pl_members (wd_pool w))"
    and "ct_phase st = PhWait i h pc rq queued" and "bk_sched (wd_backends w ! h) \<noteq> k"
    and "call_poll lt now st w = (st', w')" and "ct_phase st' = PhRun i' h' rq' slot wait_ms"
    and "breaker_admit (ae_now env) (bk_breaker (wd_backends w' ! h)) = Inr ()"
    and "has_client (wd_backends w' ! h)"
  shows "cs_home slot = k \<and> cs_home slot \<noteq> bk_sched (wd_backends w' ! h) \<and>
    sent_to (fst (call_begin config gt env st' w')) = sent_to st' @ [h]"
proof -
  obtain answer pc' p where pl: "poll_placement lt pc (wd_pool w) = (answer, pc', p)"
    by (metis prod_cases3)
  from assms(3,5,6) pl obtain slot' where a: "answer = PollReady (Inr slot')"
    by (cases answer) (auto simp: call_poll_def split: sum.splits)
  with assms(3,5,6) pl have eq: "h' = h" "slot = slot'" "wd_backends w' = wd_backends w"
    by (auto simp: call_poll_def)
  have "cs_home slot = k"
    using poll_finds_the_call_slot [OF assms(1) disjI2 [OF assms(2)] pl [unfolded a]] eq by auto
  with assms(4,6-8) eq show ?thesis
    by (auto simp: call_begin_def attempt_begin_def Let_def sent_to_def)
qed

end
