(* ===== verification/Rate_Limit.thy ===== *)
theory Rate_Limit
  imports Float64 Wire_Types
begin

text \<open>
  \<open>src/services/rate_limit.rs\<close>: the client-side throttle. Its parts are the validated
  configuration, the token bucket (\<open>BucketState\<close>, integer thousandths of a token), and the
  limiter, which adds a concurrency semaphore and an admission counter.

  The bucket is a record changed by \<open>refill\<close>, \<open>take_from\<close> and \<open>peek_from\<close>; the clock reading is
  an argument. The limiter is a record whose semaphore is its count of free permits, as tokio
  documents it: a permit is granted only while one is free and dropping it gives it back. One
  step of the limiter's world is one atomic action of one caller of \<open>acquire\<close>, so the
  interleavings of the callers are the orders of the events.

  \<open>Semaphore::MAX_PERMITS\<close> and the decimal text of an \<open>f32\<close> are parameters of \<open>validate\<close>.
\<close>

named_theorems limiter_defs "definitions of the limiter's operations"

section \<open>Errors\<close>

datatype rate_limit_error =
    RlConfig string
  | RlQueueFull nat nat
  | RlBusy nat nat
  | RlExhausted duration
  | RlObserver plugin_error
  | RlLock string

fun rate_limit_error_display :: "rate_limit_error \<Rightarrow> string" where
  "rate_limit_error_display (RlConfig msg) = ''rate limit configuration error: '' @ msg"
| "rate_limit_error_display (RlQueueFull waiters max_waiters) =
     ''rate limit queue is full: '' @ show_nat waiters @ '' of '' @ show_nat max_waiters @
     '' waiters are already parked''"
| "rate_limit_error_display (RlBusy in_flight max_concurrent) =
     ''rate limit concurrency cap reached: '' @ show_nat in_flight @ '' of '' @
     show_nat max_concurrent @ '' slots in flight''"
| "rate_limit_error_display (RlExhausted retry_after) =
     ''rate limit token bucket is exhausted; retry after '' @ show_nat (as_millis retry_after) @
     '' ms''"
| "rate_limit_error_display (RlObserver err) =
     ''rate limit observer refused the acquire: '' @ plugin_error_display err"
| "rate_limit_error_display (RlLock msg) = ''rate limit lock error: '' @ msg"

fun plugin_error_of :: "rate_limit_error \<Rightarrow> plugin_error" where
  "plugin_error_of (RlConfig message) = PluginValidation ''rate-limit-config'' message"
| "plugin_error_of (RlObserver inner) = inner"
| "plugin_error_of other = PluginInternal (rate_limit_error_display other)"

section \<open>Configuration\<close>

record rate_limit_usage =
  ru_available_tokens :: nat
  ru_in_flight :: nat
  ru_waiting :: nat

text \<open>An observer answers \<^term>\<open>None\<close> for \<open>Ok(())\<close>.\<close>

type_synonym rate_limit_observer = "rate_limit_usage \<Rightarrow> plugin_error option"

record rate_limit_config =
  rc_max_requests :: nat
  rc_interval :: duration
  rc_burst :: nat
  rc_max_concurrent :: nat
  rc_max_waiters :: nat
  rc_max_wait :: duration
  rc_warn_fraction :: "f32 option"
  rc_observers :: "rate_limit_observer list"

fun warn_fraction_ok :: "f32 \<Rightarrow> bool" where
  "warn_fraction_ok (F32 q) \<longleftrightarrow> \<not> (q \<le> 0 \<or> q > 1)"
| "warn_fraction_ok _ \<longleftrightarrow> False"

definition rl_validate ::
    "nat \<Rightarrow> (f32 \<Rightarrow> string) \<Rightarrow> rate_limit_config \<Rightarrow> rate_limit_error option" where
  "rl_validate max_permits show_f32 c =
     (if rc_max_requests c = 0 then Some (RlConfig ''max_requests must be non-zero'')
      else if rc_interval c = 0 then Some (RlConfig ''interval must be non-zero'')
      else if rc_burst c = 0 then Some (RlConfig ''burst must be non-zero'')
      else if rc_max_concurrent c = 0 then Some (RlConfig ''max_concurrent must be non-zero'')
      else if rc_max_concurrent c > max_permits then
        Some (RlConfig (''max_concurrent must be at most '' @ show_nat max_permits @
          '', got '' @ show_nat (rc_max_concurrent c)))
      else if rc_max_waiters c = 0 then Some (RlConfig ''max_waiters must be non-zero'')
      else if rc_max_wait c = 0 then Some (RlConfig ''max_wait must be non-zero'')
      else (case rc_warn_fraction c of
              Some fraction \<Rightarrow>
                if warn_fraction_ok fraction then None
                else Some (RlConfig (''warn_fraction must be in (0.0, 1.0], got '' @
                       show_f32 fraction))
            | None \<Rightarrow> None))"

definition rl_validated ::
    "nat \<Rightarrow> (f32 \<Rightarrow> string) \<Rightarrow> rate_limit_config \<Rightarrow> rate_limit_error + rate_limit_config" where
  "rl_validated max_permits show_f32 c =
     (case rl_validate max_permits show_f32 c of Some e \<Rightarrow> Inl e | None \<Rightarrow> Inr c)"

definition rate_limit_config_new ::
    "nat \<Rightarrow> (f32 \<Rightarrow> string) \<Rightarrow> nat \<Rightarrow> duration \<Rightarrow> nat \<Rightarrow> nat \<Rightarrow>
     rate_limit_error + rate_limit_config" where
  "rate_limit_config_new max_permits show_f32 max_requests interval max_concurrent max_waiters =
     rl_validated max_permits show_f32
       \<lparr>rc_max_requests = max_requests, rc_interval = interval, rc_burst = max_requests,
        rc_max_concurrent = max_concurrent, rc_max_waiters = max_waiters,
        rc_max_wait = interval, rc_warn_fraction = None, rc_observers = []\<rparr>"

definition with_burst ::
    "nat \<Rightarrow> (f32 \<Rightarrow> string) \<Rightarrow> nat \<Rightarrow> rate_limit_config \<Rightarrow>
     rate_limit_error + rate_limit_config" where
  "with_burst max_permits show_f32 burst c =
     rl_validated max_permits show_f32 (c\<lparr>rc_burst := burst\<rparr>)"

definition with_max_wait ::
    "nat \<Rightarrow> (f32 \<Rightarrow> string) \<Rightarrow> duration \<Rightarrow> rate_limit_config \<Rightarrow>
     rate_limit_error + rate_limit_config" where
  "with_max_wait max_permits show_f32 max_wait c =
     rl_validated max_permits show_f32 (c\<lparr>rc_max_wait := max_wait\<rparr>)"

definition with_warn_fraction ::
    "nat \<Rightarrow> (f32 \<Rightarrow> string) \<Rightarrow> f32 \<Rightarrow> rate_limit_config \<Rightarrow>
     rate_limit_error + rate_limit_config" where
  "with_warn_fraction max_permits show_f32 fraction c =
     rl_validated max_permits show_f32 (c\<lparr>rc_warn_fraction := Some fraction\<rparr>)"

definition with_observer ::
    "rate_limit_observer \<Rightarrow> rate_limit_config \<Rightarrow> rate_limit_config" where
  "with_observer observer c = c\<lparr>rc_observers := rc_observers c @ [observer]\<rparr>"

definition interval_millis :: "rate_limit_config \<Rightarrow> nat" where
  "interval_millis c = max (u64_of (as_millis (rc_interval c))) 1"

section \<open>The token bucket\<close>

definition milli_token :: nat where
  "milli_token = 1000"

record bucket_state =
  bk_tokens_milli :: nat
  bk_last_refill_millis :: nat

definition per_interval_milli :: "rate_limit_config \<Rightarrow> nat" where
  "per_interval_milli c = rc_max_requests c * milli_token"

definition capacity_milli :: "rate_limit_config \<Rightarrow> nat" where
  "capacity_milli c = rc_burst c * milli_token"

definition refill :: "rate_limit_config \<Rightarrow> nat \<Rightarrow> bucket_state \<Rightarrow> bucket_state" where
  "refill c now_millis b =
     (let elapsed = now_millis - bk_last_refill_millis b;
          gain = elapsed * per_interval_milli c div interval_millis c;
          headroom = capacity_milli c - bk_tokens_milli b
      in if gain \<ge> headroom then
           b\<lparr>bk_tokens_milli := capacity_milli c, bk_last_refill_millis := now_millis\<rparr>
         else
           let gain_milli = gain mod 2 ^ 64;
               consumed_millis = gain_milli * interval_millis c div per_interval_milli c
           in b\<lparr>bk_tokens_milli := u64_add (bk_tokens_milli b) gain_milli,
                bk_last_refill_millis :=
                  u64_sat_add (bk_last_refill_millis b) (consumed_millis mod 2 ^ 64)\<rparr>)"

definition time_to_next_token :: "rate_limit_config \<Rightarrow> bucket_state \<Rightarrow> duration" where
  "time_to_next_token c b =
     (let missing_milli = milli_token - bk_tokens_milli b
      in if missing_milli = 0 then 0
         else from_millis
           (div_ceil (missing_milli * interval_millis c) (per_interval_milli c) mod 2 ^ 64))"

text \<open>The three readings the limiter passes to \<open>with_bucket\<close>.\<close>

definition take_from :: "rate_limit_config \<Rightarrow> bucket_state \<Rightarrow> duration option \<times> bucket_state" where
  "take_from c b =
     (if bk_tokens_milli b \<ge> milli_token
      then (None, b\<lparr>bk_tokens_milli := bk_tokens_milli b - milli_token\<rparr>)
      else (Some (time_to_next_token c b), b))"

definition peek_from :: "rate_limit_config \<Rightarrow> bucket_state \<Rightarrow> duration \<times> bucket_state" where
  "peek_from c b = (time_to_next_token c b, b)"

definition whole_tokens :: "bucket_state \<Rightarrow> nat \<times> bucket_state" where
  "whole_tokens b = (bk_tokens_milli b div milli_token mod 2 ^ 32, b)"

section \<open>The limiter\<close>

record limiter =
  lim_config :: rate_limit_config
  lim_bucket :: bucket_state
  lim_poisoned :: bool
  lim_slots :: nat
  lim_waiting :: nat

definition limiter_with_clock ::
    "nat \<Rightarrow> (f32 \<Rightarrow> string) \<Rightarrow> rate_limit_config \<Rightarrow> nat \<Rightarrow> rate_limit_error + limiter" where
  "limiter_with_clock max_permits show_f32 c now_millis =
     (case rl_validate max_permits show_f32 c of
        Some e \<Rightarrow> Inl e
      | None \<Rightarrow> Inr
          \<lparr>lim_config = c,
           lim_bucket = \<lparr>bk_tokens_milli = rc_burst c * milli_token,
                         bk_last_refill_millis = now_millis\<rparr>,
           lim_poisoned = False, lim_slots = rc_max_concurrent c, lim_waiting = 0\<rparr>)"

definition with_bucket ::
    "(bucket_state \<Rightarrow> 'a \<times> bucket_state) \<Rightarrow> nat \<Rightarrow> limiter \<Rightarrow> (rate_limit_error + 'a) \<times> limiter" where
  "with_bucket access now_millis l =
     (if lim_poisoned l then (Inl (RlLock ''poisoned lock: another task failed inside''), l)
      else let (r, b) = access (refill (lim_config l) now_millis (lim_bucket l))
           in (Inr r, l\<lparr>lim_bucket := b\<rparr>))"

definition take_token :: "nat \<Rightarrow> limiter \<Rightarrow> (rate_limit_error + duration option) \<times> limiter" where
  "take_token now_millis l = with_bucket (take_from (lim_config l)) now_millis l"

definition peek_retry_after :: "nat \<Rightarrow> limiter \<Rightarrow> (rate_limit_error + duration) \<times> limiter" where
  "peek_retry_after now_millis l = with_bucket (peek_from (lim_config l)) now_millis l"

definition lim_in_flight :: "limiter \<Rightarrow> nat" where
  "lim_in_flight l = rc_max_concurrent (lim_config l) - lim_slots l"

definition limiter_usage :: "nat \<Rightarrow> limiter \<Rightarrow> (rate_limit_error + rate_limit_usage) \<times> limiter" where
  "limiter_usage now_millis l =
     (case with_bucket whole_tokens now_millis l of
        (Inl e, l) \<Rightarrow> (Inl e, l)
      | (Inr tokens, l) \<Rightarrow>
          (Inr \<lparr>ru_available_tokens = tokens, ru_in_flight = lim_in_flight l,
                ru_waiting = lim_waiting l\<rparr>, l))"

definition crosses_warn_fraction :: "limiter \<Rightarrow> nat \<Rightarrow> bool" where
  "crosses_warn_fraction l admitted =
     (case rc_warn_fraction (lim_config l) of
        Some (F32 fraction) \<Rightarrow>
          f32_round (f32_round (of_nat admitted) /
            f32_round (of_nat (rc_max_waiters (lim_config l)))) \<ge> fraction
      | Some F32_neg_infinity \<Rightarrow> True
      | _ \<Rightarrow> False)"

fun ask_observers :: "rate_limit_observer list \<Rightarrow> rate_limit_usage \<Rightarrow> plugin_error option" where
  "ask_observers [] u = None"
| "ask_observers (obs # rest) u = (case obs u of Some e \<Rightarrow> Some e | None \<Rightarrow> ask_observers rest u)"

subsection \<open>Non-blocking admission\<close>

text \<open>A granted permit is the slot the limiter no longer counts as free.\<close>

definition try_acquire :: "nat \<Rightarrow> limiter \<Rightarrow> rate_limit_error option \<times> limiter" where
  "try_acquire now_millis l =
     (if lim_slots l = 0 then
        (Some (RlBusy (lim_in_flight l) (rc_max_concurrent (lim_config l))), l)
      else
        let l = l\<lparr>lim_slots := lim_slots l - 1\<rparr>
        in case take_token now_millis l of
             (Inl e, l) \<Rightarrow> (Some e, l\<lparr>lim_slots := lim_slots l + 1\<rparr>)
           | (Inr None, l) \<Rightarrow> (None, l)
           | (Inr (Some retry_after), l) \<Rightarrow>
               (Some (RlExhausted retry_after), l\<lparr>lim_slots := lim_slots l + 1\<rparr>))"

definition drop_permit :: "limiter \<Rightarrow> limiter" where
  "drop_permit l = l\<lparr>lim_slots := lim_slots l + 1\<rparr>"

definition drop_waiter_guard :: "limiter \<Rightarrow> limiter" where
  "drop_waiter_guard l = l\<lparr>lim_waiting := lim_waiting l - 1\<rparr>"

subsection \<open>Waiting admission\<close>

text \<open>
  A caller of \<open>acquire\<close>: counted in and waiting for a slot, holding a slot before the observers
  are asked, in the token loop (asleep until an instant, or running), on its way out with the
  guard still counted, holding its permit, or finished.
\<close>

datatype caller =
    Parked instant nat
  | Slot_held instant nat
  | Pacing instant "instant option"
  | Leaving "rate_limit_error option"
  | Holding
  | Finished "rate_limit_error option"

record rl_world =
  rw_limiter :: limiter
  rw_callers :: "caller list"

definition acquire_enter :: "instant \<Rightarrow> limiter \<Rightarrow> caller \<times> limiter" where
  "acquire_enter now l =
     (let deadline = now + rc_max_wait (lim_config l);
          admitted = lim_waiting l + 1;
          l = l\<lparr>lim_waiting := lim_waiting l + 1\<rparr>
      in if admitted > rc_max_waiters (lim_config l) then
           (Leaving (Some (RlQueueFull (admitted - 1) (rc_max_waiters (lim_config l)))), l)
         else (Parked deadline admitted, l))"

text \<open>The elapsed wait budget: no slot was granted.\<close>

definition slot_timeout :: "nat \<Rightarrow> limiter \<Rightarrow> caller \<times> limiter" where
  "slot_timeout now_millis l =
     (case peek_retry_after now_millis l of
        (Inl e, l) \<Rightarrow> (Leaving (Some e), l)
      | (Inr retry_after, l) \<Rightarrow> (Leaving (Some (RlExhausted retry_after)), l))"

definition acquire_observe :: "instant \<Rightarrow> nat \<Rightarrow> nat \<Rightarrow> limiter \<Rightarrow> caller \<times> limiter" where
  "acquire_observe deadline admitted now_millis l =
     (if rc_observers (lim_config l) \<noteq> [] \<and> crosses_warn_fraction l admitted then
        (case limiter_usage now_millis l of
           (Inl e, l) \<Rightarrow> (Leaving (Some e), drop_permit l)
         | (Inr usage, l) \<Rightarrow>
             (case ask_observers (rc_observers (lim_config l)) usage of
                Some e \<Rightarrow> (Leaving (Some (RlObserver e)), drop_permit l)
              | None \<Rightarrow> (Pacing deadline None, l)))
      else (Pacing deadline None, l))"

text \<open>One turn of the token loop.\<close>

definition acquire_turn :: "instant \<Rightarrow> instant \<Rightarrow> nat \<Rightarrow> limiter \<Rightarrow> caller \<times> limiter" where
  "acquire_turn deadline now now_millis l =
     (case take_token now_millis l of
        (Inl e, l) \<Rightarrow> (Leaving (Some e), drop_permit l)
      | (Inr None, l) \<Rightarrow> (Leaving None, l)
      | (Inr (Some retry_after), l) \<Rightarrow>
          if now \<ge> deadline then (Leaving (Some (RlExhausted retry_after)), drop_permit l)
          else (Pacing deadline (Some (min deadline (now + retry_after))), l))"

definition leave_acquire :: "rate_limit_error option \<Rightarrow> limiter \<Rightarrow> caller \<times> limiter" where
  "leave_acquire result l =
     (case result of
        None \<Rightarrow> (Holding, drop_waiter_guard l)
      | Some e \<Rightarrow> (Finished (Some e), drop_waiter_guard l))"

text \<open>The future is dropped at an await point, or a panic unwinds it.\<close>

fun cancel_acquire :: "caller \<Rightarrow> limiter \<Rightarrow> caller \<times> limiter" where
  "cancel_acquire (Parked d a) l = (Finished None, drop_waiter_guard l)"
| "cancel_acquire (Slot_held d a) l = (Finished None, drop_waiter_guard (drop_permit l))"
| "cancel_acquire (Pacing d w) l = (Finished None, drop_waiter_guard (drop_permit l))"
| "cancel_acquire c l = (c, l)"

subsection \<open>The limiter's world\<close>

text \<open>
  Events that name a caller give its index. A slot is granted only while one is free; a
  timeout fires only at or after the deadline, a sleeping caller runs again only at or after the
  instant it sleeps to. An event that is not possible changes nothing.
\<close>

datatype rl_event =
    Ev_acquire instant
  | Ev_slot nat
  | Ev_slot_timeout nat instant nat
  | Ev_observe nat nat
  | Ev_turn nat instant nat
  | Ev_leave nat
  | Ev_cancel nat
  | Ev_release nat
  | Ev_try nat
  | Ev_usage nat

definition caller_at :: "rl_world \<Rightarrow> nat \<Rightarrow> caller" where
  "caller_at w i = (if i < length (rw_callers w) then rw_callers w ! i else Finished None)"

definition set_caller :: "nat \<Rightarrow> rl_world \<Rightarrow> caller \<times> limiter \<Rightarrow> rl_world" where
  "set_caller i w cl = \<lparr>rw_limiter = snd cl, rw_callers = (rw_callers w)[i := fst cl]\<rparr>"

definition add_caller :: "rl_world \<Rightarrow> caller \<times> limiter \<Rightarrow> rl_world" where
  "add_caller w cl = \<lparr>rw_limiter = snd cl, rw_callers = rw_callers w @ [fst cl]\<rparr>"

fun rl_step :: "rl_world \<Rightarrow> rl_event \<Rightarrow> rl_world" where
  "rl_step w (Ev_acquire now) = add_caller w (acquire_enter now (rw_limiter w))"
| "rl_step w (Ev_slot i) =
     (case caller_at w i of
        Parked deadline admitted \<Rightarrow>
          if lim_slots (rw_limiter w) = 0 then w
          else set_caller i w (Slot_held deadline admitted,
                 (rw_limiter w)\<lparr>lim_slots := lim_slots (rw_limiter w) - 1\<rparr>)
      | _ \<Rightarrow> w)"
| "rl_step w (Ev_slot_timeout i now now_millis) =
     (case caller_at w i of
        Parked deadline admitted \<Rightarrow>
          if now < deadline then w else set_caller i w (slot_timeout now_millis (rw_limiter w))
      | _ \<Rightarrow> w)"
| "rl_step w (Ev_observe i now_millis) =
     (case caller_at w i of
        Slot_held deadline admitted \<Rightarrow>
          set_caller i w (acquire_observe deadline admitted now_millis (rw_limiter w))
      | _ \<Rightarrow> w)"
| "rl_step w (Ev_turn i now now_millis) =
     (case caller_at w i of
        Pacing deadline wake \<Rightarrow>
          if (case wake of Some t \<Rightarrow> now < t | None \<Rightarrow> False) then w
          else set_caller i w (acquire_turn deadline now now_millis (rw_limiter w))
      | _ \<Rightarrow> w)"
| "rl_step w (Ev_leave i) =
     (case caller_at w i of
        Leaving result \<Rightarrow> set_caller i w (leave_acquire result (rw_limiter w))
      | _ \<Rightarrow> w)"
| "rl_step w (Ev_cancel i) =
     (if i < length (rw_callers w)
      then set_caller i w (cancel_acquire (caller_at w i) (rw_limiter w)) else w)"
| "rl_step w (Ev_release i) =
     (case caller_at w i of
        Holding \<Rightarrow> set_caller i w (Finished None, drop_permit (rw_limiter w))
      | _ \<Rightarrow> w)"
| "rl_step w (Ev_try now_millis) =
     (case try_acquire now_millis (rw_limiter w) of
        (Some e, l) \<Rightarrow> add_caller w (Finished (Some e), l)
      | (None, l) \<Rightarrow> add_caller w (Holding, l))"
| "rl_step w (Ev_usage now_millis) =
     w\<lparr>rw_limiter := snd (limiter_usage now_millis (rw_limiter w))\<rparr>"

definition rl_start :: "limiter \<Rightarrow> rl_world" where
  "rl_start l = \<lparr>rw_limiter = l, rw_callers = []\<rparr>"

section \<open>Configuration lemmas\<close>

definition config_valid :: "nat \<Rightarrow> rate_limit_config \<Rightarrow> bool" where
  "config_valid max_permits c \<longleftrightarrow>
     0 < rc_max_requests c \<and> 0 < rc_interval c \<and> 0 < rc_burst c \<and>
     0 < rc_max_concurrent c \<and> rc_max_concurrent c \<le> max_permits \<and>
     0 < rc_max_waiters c \<and> 0 < rc_max_wait c \<and>
     (case rc_warn_fraction c of None \<Rightarrow> True
      | Some f \<Rightarrow> (\<exists>q. f = F32 q \<and> 0 < q \<and> q \<le> 1))"

lemma warn_fraction_ok_iff: "warn_fraction_ok f \<longleftrightarrow> (\<exists>q. f = F32 q \<and> 0 < q \<and> q \<le> 1)"
  by (cases f) auto

lemma rl_validate_None: "rl_validate mp sf c = None \<longleftrightarrow> config_valid mp c"
  by (auto simp: rl_validate_def config_valid_def warn_fraction_ok_iff split: option.splits)

text \<open>
  \<open>RateLimitConfig::validate\<close> accepts exactly the configurations whose bounds are all
non-zero, whose concurrency is at most the semaphore's maximum and whose warn fraction, when
set, is a finite number in the half-open interval from 0 to 1; and a limiter is built exactly
for those, with a full bucket, every slot free and nobody waiting.
\<close>
theorem limiter_built_iff_valid:
  "(rl_validate mp sf c = None \<longleftrightarrow> config_valid mp c) \<and>
   limiter_with_clock mp sf c now =
     (if config_valid mp c
      then Inr \<lparr>lim_config = c,
                lim_bucket = \<lparr>bk_tokens_milli = capacity_milli c, bk_last_refill_millis = now\<rparr>,
                lim_poisoned = False, lim_slots = rc_max_concurrent c, lim_waiting = 0\<rparr>
      else Inl (the (rl_validate mp sf c)))"
proof -
  have "\<exists>e. rl_validate mp sf c = Some e" if "\<not> config_valid mp c"
    using that rl_validate_None [of mp sf c] by (cases "rl_validate mp sf c") auto
  then show ?thesis
    using rl_validate_None [of mp sf c] by (auto simp: limiter_with_clock_def capacity_milli_def)
qed

lemma rl_validated_Inr: "rl_validated mp sf c = Inr c' \<longleftrightarrow> c' = c \<and> config_valid mp c"
  using rl_validate_None [of mp sf c] by (auto simp: rl_validated_def split: option.splits)

section \<open>Bucket lemmas\<close>

text \<open>A bucket is in range when it holds at most its capacity; the widths are those of the code.\<close>

definition config_widths :: "rate_limit_config \<Rightarrow> bool" where
  "config_widths c \<longleftrightarrow> 0 < rc_max_requests c \<and> rc_max_requests c \<le> u32_max \<and>
     rc_burst c \<le> u32_max"

definition bucket_ok :: "rate_limit_config \<Rightarrow> bucket_state \<Rightarrow> bool" where
  "bucket_ok c b \<longleftrightarrow> bk_tokens_milli b \<le> capacity_milli c"

lemma interval_millis_pos [simp]: "0 < interval_millis c"
  by (simp add: interval_millis_def)

lemma interval_millis_not_0 [simp]: "interval_millis c \<noteq> 0"
  using interval_millis_pos [of c] by simp

lemma interval_millis_bound: "interval_millis c \<le> u64_max"
  using u64_of_bound [of "as_millis (rc_interval c)"] by (simp add: interval_millis_def u64_max_def)

lemma per_interval_pos: "config_widths c \<Longrightarrow> 0 < per_interval_milli c"
  by (simp add: config_widths_def per_interval_milli_def milli_token_def)

lemma capacity_bound: "config_widths c \<Longrightarrow> capacity_milli c < 2 ^ 64"
  by (simp add: config_widths_def capacity_milli_def milli_token_def u32_max_def)

lemma consumed_le_elapsed:
  assumes "0 < per"
  shows "(e * per div i) * i div per \<le> (e :: nat)"
proof -
  have "(e * per div i) * i \<le> e * per" by (simp add: div_times_less_eq_dividend)
  then have "(e * per div i) * i div per \<le> e * per div per" by (rule div_le_mono)
  then show ?thesis using assms by simp
qed

text \<open>
  The shape of a refill: to the brim with the mark at \<open>now\<close>, or up by the gain with the mark
  advanced by the time consumed. No cast of the code loses a digit and no addition wraps.
\<close>

lemma refill_cases:
  assumes c: "config_widths c" and ok: "bucket_ok c b" and now: "now \<le> u64_max"
    and mark: "bk_last_refill_millis b \<le> u64_max"
  obtains (full) "refill c now b =
      b\<lparr>bk_tokens_milli := capacity_milli c, bk_last_refill_millis := now\<rparr>"
      "capacity_milli c - bk_tokens_milli b \<le>
         (now - bk_last_refill_millis b) * per_interval_milli c div interval_millis c"
  | (part) g where
      "g = (now - bk_last_refill_millis b) * per_interval_milli c div interval_millis c"
      "bk_tokens_milli b + g < capacity_milli c"
      "refill c now b = b\<lparr>bk_tokens_milli := bk_tokens_milli b + g,
         bk_last_refill_millis := bk_last_refill_millis b + g * interval_millis c div per_interval_milli c\<rparr>"
      "g * interval_millis c div per_interval_milli c \<le> now - bk_last_refill_millis b"
proof -
  let ?e = "now - bk_last_refill_millis b"
  let ?g = "?e * per_interval_milli c div interval_millis c"
  let ?k = "?g * interval_millis c div per_interval_milli c"
  show thesis
  proof (cases "capacity_milli c - bk_tokens_milli b \<le> ?g")
    case True
    then have "refill c now b =
        b\<lparr>bk_tokens_milli := capacity_milli c, bk_last_refill_millis := now\<rparr>"
      by (simp only: refill_def Let_def if_True)
    with True show thesis by (intro full)
  next
    case False
    with ok have less: "bk_tokens_milli b + ?g < capacity_milli c" by (simp add: bucket_ok_def)
    have cap: "capacity_milli c < 2 ^ 64" by (rule capacity_bound [OF c])
    have k: "?k \<le> ?e" by (rule consumed_le_elapsed [OF per_interval_pos [OF c]])
    have g64: "?g mod 2 ^ 64 = ?g" using less cap by (intro mod_less) linarith
    have k64: "?k mod 2 ^ 64 = ?k" using k now by (intro mod_less) (simp add: u64_max_def)
    have t: "u64_add (bk_tokens_milli b) ?g = bk_tokens_milli b + ?g"
      using less cap by (intro u64_add_less) linarith
    have m: "u64_sat_add (bk_last_refill_millis b) ?k = bk_last_refill_millis b + ?k"
      using k now mark by (cases "?e = 0") (auto simp: u64_sat_add_def)
    have "refill c now b = b\<lparr>bk_tokens_milli := bk_tokens_milli b + ?g,
        bk_last_refill_millis := bk_last_refill_millis b + ?k\<rparr>"
      by (simp only: refill_def Let_def False if_False g64 k64 t m)
    with less k show thesis by (intro part [of ?g]) simp_all
  qed
qed

lemma refill_ok:
  assumes "config_widths c" "bucket_ok c b" "now \<le> u64_max" "bk_last_refill_millis b \<le> u64_max"
  shows "bucket_ok c (refill c now b)" and "bk_tokens_milli b \<le> bk_tokens_milli (refill c now b)"
    and "bk_last_refill_millis (refill c now b) \<le> max now (bk_last_refill_millis b)"
proof -
  show "bucket_ok c (refill c now b)"
    using assms(2) by (cases rule: refill_cases [OF assms]) (simp_all add: bucket_ok_def)
  show "bk_tokens_milli b \<le> bk_tokens_milli (refill c now b)"
    using assms(2) by (cases rule: refill_cases [OF assms]) (simp_all add: bucket_ok_def)
  show "bk_last_refill_millis (refill c now b) \<le> max now (bk_last_refill_millis b)"
    by (cases rule: refill_cases [OF assms]) simp_all
qed

text \<open>A refill never loses credit below the brim: what the mark moves is paid in tokens.\<close>

lemma refill_keeps_credit:
  assumes "config_widths c" "bucket_ok c b" "now \<le> u64_max" "bk_last_refill_millis b \<le> u64_max"
    and t: "now \<le> t"
  shows "bk_tokens_milli (refill c now b) = capacity_milli c \<or>
    bk_tokens_milli b * interval_millis c + (t - bk_last_refill_millis b) * per_interval_milli c
      \<le> bk_tokens_milli (refill c now b) * interval_millis c +
        (t - bk_last_refill_millis (refill c now b)) * per_interval_milli c"
  using assms(1-4)
proof (cases rule: refill_cases)
  case full
  then show ?thesis by simp
next
  case (part g)
  let ?I = "interval_millis c" and ?P = "per_interval_milli c" and ?m = "bk_last_refill_millis b"
  let ?k = "g * ?I div ?P"
  have kP: "?k * ?P \<le> g * ?I" by (simp add: div_times_less_eq_dividend)
  have "(t - ?m) * ?P \<le> ?k * ?P + (t - (?m + ?k)) * ?P"
    by (metis add.commute add_mult_distrib diff_diff_left le_diff_conv mult_le_mono1 order_refl)
  with kP have "(t - ?m) * ?P \<le> g * ?I + (t - (?m + ?k)) * ?P" by linarith
  then show ?thesis by (simp add: part(3) distrib_right)
qed

text \<open>
  What a refill over-credits is below one millisecond's worth, and nothing when the interval
  and the tokens of an interval divide one another.
\<close>

lemma refill_credit_bound:
  assumes "config_widths c" "bucket_ok c b" "now \<le> u64_max" "bk_last_refill_millis b \<le> now"
  shows "bk_tokens_milli (refill c now b) * interval_millis c <
    bk_tokens_milli b * interval_millis c +
    (bk_last_refill_millis (refill c now b) - bk_last_refill_millis b) * per_interval_milli c +
    per_interval_milli c"
    and "per_interval_milli c dvd interval_millis c \<or> interval_millis c dvd per_interval_milli c \<Longrightarrow>
    bk_tokens_milli (refill c now b) * interval_millis c \<le>
    bk_tokens_milli b * interval_millis c +
    (bk_last_refill_millis (refill c now b) - bk_last_refill_millis b) * per_interval_milli c"
proof -
  let ?I = "interval_millis c" and ?P = "per_interval_milli c" and ?m = "bk_last_refill_millis b"
  have m: "?m \<le> u64_max" using assms(3,4) by simp
  have P: "0 < ?P" by (rule per_interval_pos [OF assms(1)])
  have brim: "capacity_milli c * ?I \<le> bk_tokens_milli b * ?I + (now - ?m) * ?P"
    if "capacity_milli c - bk_tokens_milli b \<le> (now - ?m) * ?P div ?I"
  proof -
    have "(capacity_milli c - bk_tokens_milli b) * ?I \<le> (now - ?m) * ?P div ?I * ?I"
      using that by (rule mult_le_mono1)
    also have "\<dots> \<le> (now - ?m) * ?P" by (simp add: div_times_less_eq_dividend)
    finally show ?thesis by (simp add: diff_mult_distrib)
  qed
  have rest: "g * ?I < (g * ?I div ?P) * ?P + ?P" for g
    using P by (metis div_mod_decomp mod_less_divisor nat_add_left_cancel_less)
  show "bk_tokens_milli (refill c now b) * ?I <
    bk_tokens_milli b * ?I + (bk_last_refill_millis (refill c now b) - ?m) * ?P + ?P"
    using assms(1-3) m
  proof (cases rule: refill_cases)
    case full
    with brim P show ?thesis by simp
  next
    case (part g)
    with rest [of g] show ?thesis by (simp add: distrib_right)
  qed
  assume dv: "?P dvd ?I \<or> ?I dvd ?P"
  have exact: "?P dvd e * ?P div ?I * ?I" for e
  proof (cases "?I dvd ?P")
    case True
    then have "e * ?P div ?I * ?I = e * ?P" by simp
    then show ?thesis by simp
  qed (use dv in auto)
  show "bk_tokens_milli (refill c now b) * ?I \<le>
    bk_tokens_milli b * ?I + (bk_last_refill_millis (refill c now b) - ?m) * ?P"
    using assms(1-3) m
  proof (cases rule: refill_cases)
    case full
    with brim show ?thesis by simp
  next
    case (part g)
    have "g * ?I = (g * ?I div ?P) * ?P" using exact part(1) by simp
    then show ?thesis by (simp add: part(3) distrib_right)
  qed
qed

section \<open>Runs of bucket accesses\<close>

text \<open>Every access of the limiter to its bucket is one of three; a grant is a taken token.\<close>

datatype bucket_access = Acc_take nat | Acc_peek nat | Acc_read nat

fun access_now :: "bucket_access \<Rightarrow> nat" where
  "access_now (Acc_take now) = now"
| "access_now (Acc_peek now) = now"
| "access_now (Acc_read now) = now"

fun is_take :: "bucket_access \<Rightarrow> bool" where
  "is_take (Acc_take now) = True"
| "is_take _ = False"

fun access_limiter :: "limiter \<Rightarrow> bucket_access \<Rightarrow> bool \<times> limiter" where
  "access_limiter l (Acc_take now) = (let (r, l) = take_token now l in (r = Inr None, l))"
| "access_limiter l (Acc_peek now) = (False, snd (peek_retry_after now l))"
| "access_limiter l (Acc_read now) = (False, snd (limiter_usage now l))"

fun access_all :: "limiter \<Rightarrow> bucket_access list \<Rightarrow> nat \<times> limiter" where
  "access_all l [] = (0, l)"
| "access_all l (a # as) =
     (let (g, l) = access_limiter l a; (n, l) = access_all l as in ((if g then 1 else 0) + n, l))"

lemma access_all_Cons [simp]:
  "fst (access_all l (a # as)) =
     (if fst (access_limiter l a) then 1 else 0) + fst (access_all (snd (access_limiter l a)) as)"
  "snd (access_all l (a # as)) = snd (access_all (snd (access_limiter l a)) as)"
  by (simp_all add: Let_def split: prod.split)

declare access_all.simps(2) [simp del]

definition limiter_ok :: "limiter \<Rightarrow> bool" where
  "limiter_ok l \<longleftrightarrow> config_widths (lim_config l) \<and> 0 < rc_burst (lim_config l) \<and>
     bucket_ok (lim_config l) (lim_bucket l) \<and>
     bk_last_refill_millis (lim_bucket l) \<le> u64_max \<and> \<not> lim_poisoned l"

lemma with_bucket_eq:
  "\<not> lim_poisoned l \<Longrightarrow> with_bucket access now l =
     (Inr (fst (access (refill (lim_config l) now (lim_bucket l)))),
      l\<lparr>lim_bucket := snd (access (refill (lim_config l) now (lim_bucket l)))\<rparr>)"
  by (simp add: with_bucket_def split: prod.split)

text \<open>What one access does: a refill, then a token fewer exactly for a grant.\<close>

lemma access_limiter_eq:
  assumes "\<not> lim_poisoned l"
  shows "access_limiter l a =
    (let b = refill (lim_config l) (access_now a) (lim_bucket l);
         g = is_take a \<and> milli_token \<le> bk_tokens_milli b
     in (g, l\<lparr>lim_bucket := b\<lparr>bk_tokens_milli :=
             bk_tokens_milli b - (if g then milli_token else 0)\<rparr>\<rparr>))"
  using assms by (cases a)
    (simp_all add: take_token_def peek_retry_after_def limiter_usage_def with_bucket_eq
      take_from_def peek_from_def whole_tokens_def Let_def)

lemma access_limiter_ok:
  assumes l: "limiter_ok l" and now: "access_now a \<le> u64_max"
  shows "limiter_ok (snd (access_limiter l a))"
    and "lim_config (snd (access_limiter l a)) = lim_config l"
proof -
  have p: "\<not> lim_poisoned l" using l by (simp add: limiter_ok_def)
  show "lim_config (snd (access_limiter l a)) = lim_config l"
    by (simp add: access_limiter_eq [OF p] Let_def)
  have r: "config_widths (lim_config l)" "bucket_ok (lim_config l) (lim_bucket l)"
    "access_now a \<le> u64_max" "bk_last_refill_millis (lim_bucket l) \<le> u64_max"
    using l now by (simp_all add: limiter_ok_def)
  from refill_ok [OF r] r show "limiter_ok (snd (access_limiter l a))"
    using l by (auto simp: access_limiter_eq [OF p] limiter_ok_def bucket_ok_def Let_def)
qed

lemma access_all_ok:
  "limiter_ok l \<Longrightarrow> \<forall>a \<in> set as. access_now a \<le> u64_max \<Longrightarrow>
     limiter_ok (snd (access_all l as)) \<and> lim_config (snd (access_all l as)) = lim_config l"
proof (induction as arbitrary: l)
  case (Cons a as)
  from access_limiter_ok [OF Cons.prems(1), of a] Cons.prems(2)
  have "limiter_ok (snd (access_limiter l a))" "lim_config (snd (access_limiter l a)) = lim_config l"
    by simp_all
  with Cons.IH [of "snd (access_limiter l a)"] Cons.prems(2) show ?case by simp
qed simp

lemma refill_mark_mono:
  assumes "config_widths c" "bucket_ok c b" "now \<le> u64_max" "bk_last_refill_millis b \<le> now"
  shows "bk_last_refill_millis b \<le> bk_last_refill_millis (refill c now b)"
proof -
  have "bk_last_refill_millis b \<le> u64_max" using assms by simp
  with assms(1-3) show ?thesis by (cases rule: refill_cases) (use assms(4) in auto)
qed

text \<open>The rate \<open>slack\<close> is what one refill may over-credit: nothing, or one millisecond's worth.\<close>

text \<open>
  The clock is read before the bucket is locked, so readings can come late. How late they are, in
  all: each counts by how far it lies behind the latest reading before it.
\<close>

fun lateness :: "nat \<Rightarrow> nat list \<Rightarrow> nat" where
  "lateness hi [] = 0"
| "lateness hi (r # rs) = (hi - r) + lateness (max hi r) rs"

lemma lateness_sorted: "sorted (hi # rs) \<Longrightarrow> lateness hi rs = 0"
  by (induction rs arbitrary: hi) (auto simp: max_def)

text \<open>A late reading credits nothing; on a full bucket it sets the mark back.\<close>

lemma refill_late:
  assumes "config_widths c" "bucket_ok c b" "bk_last_refill_millis b \<le> u64_max"
    and "now < bk_last_refill_millis b"
  shows "bk_tokens_milli (refill c now b) = bk_tokens_milli b"
    and "bk_last_refill_millis (refill c now b) \<in> {now, bk_last_refill_millis b}"
proof -
  have now: "now \<le> u64_max" using assms(3,4) by simp
  show "bk_tokens_milli (refill c now b) = bk_tokens_milli b"
    using assms(2,4) by (cases rule: refill_cases [OF assms(1,2) now assms(3)]) (auto simp: bucket_ok_def)
  show "bk_last_refill_millis (refill c now b) \<in> {now, bk_last_refill_millis b}"
    using assms(4) by (cases rule: refill_cases [OF assms(1,2) now assms(3)]) auto
qed

lemma refill_budget:
  assumes slack: "slack = per_interval_milli c \<or>
      slack = 0 \<and> (per_interval_milli c dvd interval_millis c \<or> interval_millis c dvd per_interval_milli c)"
    and c: "config_widths c" "bucket_ok c b"
    and hi: "bk_last_refill_millis b \<le> hi" "hi \<le> T" "now \<le> T" "T \<le> u64_max"
  shows "bk_last_refill_millis (refill c now b) \<le> max hi now \<and>
    bk_tokens_milli (refill c now b) * interval_millis c +
      (T - bk_last_refill_millis (refill c now b)) * per_interval_milli c \<le>
    bk_tokens_milli b * interval_millis c +
      (T - bk_last_refill_millis b + (hi - now)) * per_interval_milli c + slack"
proof -
  let ?r = "refill c now b" and ?I = "interval_millis c" and ?P = "per_interval_milli c"
  let ?m = "bk_last_refill_millis b" and ?m' = "bk_last_refill_millis (refill c now b)"
  show ?thesis
  proof (cases "?m \<le> now")
    case True
    have now: "now \<le> u64_max" using hi by simp
    have m: "?m \<le> ?m'" by (rule refill_mark_mono [OF c now True])
    have m2: "?m' \<le> now" using refill_ok(3) [OF c now] now True by simp
    have step: "bk_tokens_milli ?r * ?I \<le> bk_tokens_milli b * ?I + (?m' - ?m) * ?P + slack"
      using refill_credit_bound [OF c now True] slack by auto
    have "(T - ?m) * ?P = (?m' - ?m) * ?P + (T - ?m') * ?P"
      using m m2 hi(3) by (simp flip: add_mult_distrib)
    with step have "bk_tokens_milli ?r * ?I + (T - ?m') * ?P \<le>
        bk_tokens_milli b * ?I + (T - ?m) * ?P + slack" by linarith
    with m2 show ?thesis by (simp add: add_mult_distrib)
  next
    case False
    have late: "bk_tokens_milli ?r = bk_tokens_milli b" "?m' \<in> {now, ?m}"
      using refill_late [OF c] False hi by simp_all
    have "T - ?m' \<le> T - ?m + (hi - now)" using late(2) False hi by auto
    then have le: "(T - ?m') * ?P \<le> (T - ?m + (hi - now)) * ?P" by (rule mult_le_mono1)
    have "x + y \<le> x + z + slack" if "y \<le> z" for x y z :: nat using that by simp
    from this [OF le] have "bk_tokens_milli b * ?I + (T - ?m') * ?P \<le>
        bk_tokens_milli b * ?I + (T - ?m + (hi - now)) * ?P + slack" .
    moreover have "?m' \<le> max hi now" using late(2) False hi by auto
    ultimately show ?thesis unfolding late(1) by blast
  qed
qed

lemma grants_bound:
  assumes slack: "slack = per_interval_milli (lim_config l) \<or>
      slack = 0 \<and> (per_interval_milli (lim_config l) dvd interval_millis (lim_config l) \<or>
                   interval_millis (lim_config l) dvd per_interval_milli (lim_config l))"
    and "limiter_ok l" "T \<le> u64_max" "\<forall>a \<in> set as. access_now a \<le> T"
    and "bk_last_refill_millis (lim_bucket l) \<le> hi" "hi \<le> T"
  shows "fst (access_all l as) * milli_token * interval_millis (lim_config l) \<le>
    bk_tokens_milli (lim_bucket l) * interval_millis (lim_config l) +
    (T - bk_last_refill_millis (lim_bucket l) + lateness hi (map access_now as)) *
      per_interval_milli (lim_config l) +
    length as * slack"
  using assms
proof (induction as arbitrary: l hi)
  case Nil
  then show ?case by simp
next
  case (Cons a as)
  let ?c = "lim_config l" and ?b = "lim_bucket l"
  let ?I = "interval_millis ?c" and ?P = "per_interval_milli ?c"
  let ?r = "refill ?c (access_now a) ?b" and ?l = "snd (access_limiter l a)"
  let ?g = "fst (access_limiter l a)" and ?late = "lateness (max hi (access_now a)) (map access_now as)"
  have p: "\<not> lim_poisoned l" using Cons.prems(2) by (simp add: limiter_ok_def)
  have r: "config_widths ?c" "bucket_ok ?c ?b" "access_now a \<le> T" "access_now a \<le> u64_max"
    using Cons.prems by (auto simp: limiter_ok_def)
  have ok: "limiter_ok ?l" "lim_config ?l = ?c"
    using access_limiter_ok [OF Cons.prems(2) r(4)] by simp_all
  note budget = refill_budget [OF Cons.prems(1) r(1,2) Cons.prems(5,6) r(3) Cons.prems(3)]
  have lb: "bk_last_refill_millis (lim_bucket ?l) = bk_last_refill_millis ?r"
    by (simp add: access_limiter_eq [OF p] Let_def)
  have tk: "bk_tokens_milli (lim_bucket ?l) + (if ?g then milli_token else 0) = bk_tokens_milli ?r"
    by (auto simp: access_limiter_eq [OF p] Let_def)
  have IH: "fst (access_all ?l as) * milli_token * ?I \<le> bk_tokens_milli (lim_bucket ?l) * ?I +
    (T - bk_last_refill_millis ?r + ?late) * ?P + length as * slack"
    using Cons.IH [of ?l "max hi (access_now a)", unfolded ok lb, OF Cons.prems(1) ok(1) Cons.prems(3)]
      Cons.prems(4,6) budget r(3) by simp
  have "fst (access_all l (a # as)) * milli_token * ?I =
    (if ?g then milli_token else 0) * ?I + fst (access_all ?l as) * milli_token * ?I"
    by (simp add: add_mult_distrib)
  also have "\<dots> \<le> (if ?g then milli_token else 0) * ?I + (bk_tokens_milli (lim_bucket ?l) * ?I +
    (T - bk_last_refill_millis ?r + ?late) * ?P + length as * slack)"
    using IH by (rule add_left_mono)
  also have "\<dots> = (bk_tokens_milli ?r * ?I + (T - bk_last_refill_millis ?r) * ?P) + ?late * ?P +
    length as * slack"
    by (simp add: tk [symmetric] add_mult_distrib)
  finally show ?case using budget by (simp add: add_mult_distrib)
qed

text \<open>
C14: The rate limit. Start from a limiter built at \<open>t0\<close> and take any run of accesses to the
bucket, at clock readings up to \<open>T\<close> that may come in any order, since the clock is read before
the bucket is locked. Let the lateness of the run be the sum, over its accesses, of how far each
reading lies behind the latest one before it; it is 0 when no reading goes back. The tokens granted
are at most the burst, plus the quota of the elapsed time and the lateness, plus one millisecond's
quota per access; and when the interval and the tokens of an interval divide one another, at most
the burst plus the quota of the elapsed time and the lateness.
\<close>
theorem grants_stay_within_quota:
  assumes "limiter_with_clock mp sf c t0 = Inr l" and "config_widths c"
    and "\<forall>a \<in> set as. access_now a \<le> T" and "t0 \<le> T" and "T \<le> u64_max"
  shows "fst (access_all l as) * interval_millis c \<le>
           rc_burst c * interval_millis c +
           (T - t0 + lateness t0 (map access_now as)) * rc_max_requests c +
           length as * rc_max_requests c \<and>
         (per_interval_milli c dvd interval_millis c \<or> interval_millis c dvd per_interval_milli c \<longrightarrow>
          fst (access_all l as) * interval_millis c \<le>
            rc_burst c * interval_millis c +
            (T - t0 + lateness t0 (map access_now as)) * rc_max_requests c) \<and>
         (sorted (t0 # map access_now as) \<longrightarrow> lateness t0 (map access_now as) = 0)"
proof -
  let ?n = "fst (access_all l as)" and ?I = "interval_millis c" and ?P = "per_interval_milli c"
  let ?t = "T - t0 + lateness t0 (map access_now as)"
  from assms(1) have v: "rl_validate mp sf c = None"
    by (auto simp: limiter_with_clock_def split: option.splits)
  with assms(1) have l: "lim_config l = c" "lim_bucket l =
      \<lparr>bk_tokens_milli = capacity_milli c, bk_last_refill_millis = t0\<rparr>" "\<not> lim_poisoned l"
    by (auto simp: limiter_with_clock_def capacity_milli_def)
  have ok: "limiter_ok l"
    using l assms(2,4,5) rl_validate_None [of mp sf c] v
    by (simp add: limiter_ok_def bucket_ok_def config_valid_def)
  have b: "?n * milli_token * ?I \<le> capacity_milli c * ?I + ?t * ?P + length as * slack"
    if "slack = ?P \<or> slack = 0 \<and> (?P dvd ?I \<or> ?I dvd ?P)" for slack
    using grants_bound [of slack l T as t0] that assms ok l by simp
  have cancel: "?n * ?I \<le> rc_burst c * ?I + x"
    if "?n * milli_token * ?I \<le> capacity_milli c * ?I + milli_token * x" for x
    using that by (simp add: capacity_milli_def milli_token_def algebra_simps)
  have "?n * ?I \<le> rc_burst c * ?I + (?t * rc_max_requests c + length as * rc_max_requests c)"
    using b [of ?P] by (intro cancel) (simp add: per_interval_milli_def algebra_simps)
  moreover have "?n * ?I \<le> rc_burst c * ?I + ?t * rc_max_requests c" if "?P dvd ?I \<or> ?I dvd ?P"
    using b [of 0] that by (intro cancel) (simp add: per_interval_milli_def algebra_simps)
  ultimately show ?thesis using lateness_sorted by (simp add: add.assoc)
qed

definition sample_config :: rate_limit_config where
  "sample_config = \<lparr>rc_max_requests = 500, rc_interval = 60000000000, rc_burst = 2,
     rc_max_concurrent = 2, rc_max_waiters = 2, rc_max_wait = 5000000000,
     rc_warn_fraction = Some (F32 (1 / 2)), rc_observers = [\<lambda>u. None]\<rparr>"

definition sample_limiter :: limiter where
  "sample_limiter = \<lparr>lim_config = sample_config,
     lim_bucket = \<lparr>bk_tokens_milli = 2000, bk_last_refill_millis = 0\<rparr>,
     lim_poisoned = False, lim_slots = 2, lim_waiting = 0\<rparr>"

lemma sample_limiter_built: "limiter_with_clock 100 sf sample_config 0 = Inr sample_limiter"
  by (simp add: limiter_with_clock_def rl_validate_def sample_config_def sample_limiter_def
      milli_token_def)

lemma sample_widths: "config_widths sample_config"
  by (simp add: config_widths_def sample_config_def u32_max_def)

lemma sample_interval [simp]: "interval_millis sample_config = 60000"
  "per_interval_milli sample_config = 500000" "capacity_milli sample_config = 2000"
  by (simp_all add: interval_millis_def sample_config_def rust_arith per_interval_milli_def
      capacity_milli_def milli_token_def)

lemma sample_limiter_ok: "limiter_ok sample_limiter" "lim_config sample_limiter = sample_config"
  using sample_widths
  by (simp_all add: limiter_ok_def sample_limiter_def bucket_ok_def u64_max_def)
    (simp add: sample_config_def)

text \<open>The access at reading 3 comes after the one at reading 7.\<close>

theorem grants_stay_within_quota_witness:
  "fst (access_all sample_limiter [Acc_take 0, Acc_take 7, Acc_take 3, Acc_take 8]) * 60000 \<le>
     2 * 60000 + (8 + 4) * 500 + 4 * 500"
proof -
  let ?as = "[Acc_take 0, Acc_take 7, Acc_take 3, Acc_take 8]"
  have "\<forall>a \<in> set ?as. access_now a \<le> 8" by simp
  note conjunct1 [OF grants_stay_within_quota [OF sample_limiter_built sample_widths this]]
  moreover have "rc_burst sample_config = 2" "rc_max_requests sample_config = 500"
    by (simp_all add: sample_config_def)
  moreover have "lateness 0 (map access_now ?as) = 4" by simp
  ultimately show ?thesis by (simp add: u64_max_def del: access_all_Cons)
qed

subsection \<open>The over-credit\<close>

text \<open>
  A refill credits the tokens of the elapsed time but moves the mark by the whole
milliseconds they cost, rounded down. When more than a thousandth of a token accrues in a
millisecond, and not a whole number of thousandths, every further access within the first
millisecond after the mark credits that amount again and leaves the mark where it is: tokens
appear without time passing.
\<close>
theorem accesses_mint_tokens_in_one_millisecond:
  assumes "config_widths c" and "interval_millis c < per_interval_milli c"
    and "\<not> interval_millis c dvd per_interval_milli c"
    and "bk_last_refill_millis b < u64_max"
    and "bk_tokens_milli b + n * (per_interval_milli c div interval_millis c) < capacity_milli c"
  shows "(refill c (bk_last_refill_millis b + 1) ^^ n) b =
    b\<lparr>bk_tokens_milli := bk_tokens_milli b + n * (per_interval_milli c div interval_millis c)\<rparr>"
  using assms(5)
proof (induction n)
  case 0
  then show ?case by simp
next
  case (Suc n)
  let ?I = "interval_millis c" and ?P = "per_interval_milli c"
  let ?b = "b\<lparr>bk_tokens_milli := bk_tokens_milli b + n * (?P div ?I)\<rparr>"
  have run: "(refill c (bk_last_refill_millis b + 1) ^^ n) b = ?b"
    using Suc.prems by (intro Suc.IH) simp
  have "?P div ?I * ?I < ?P"
    using assms(3) by (metis div_times_less_eq_dividend dvd_triv_right order_le_less)
  then have cost: "?P div ?I * ?I div ?P = 0" by simp
  have r: "config_widths c" "bucket_ok c ?b" "bk_last_refill_millis b + 1 \<le> u64_max"
    "bk_last_refill_millis ?b \<le> u64_max"
    using assms Suc.prems by (simp_all add: bucket_ok_def)
  then have "refill c (bk_last_refill_millis b + 1) ?b =
      ?b\<lparr>bk_tokens_milli := bk_tokens_milli ?b + ?P div ?I\<rparr>"
    by (cases rule: refill_cases) (use Suc.prems cost in auto)
  with run show ?case by simp
qed

theorem accesses_mint_tokens_in_one_millisecond_witness:
  "(refill sample_config 1 ^^ 125) \<lparr>bk_tokens_milli = 0, bk_last_refill_millis = 0\<rparr> =
     \<lparr>bk_tokens_milli = 1000, bk_last_refill_millis = 0\<rparr>"
proof -
  have "\<not> (60000 :: nat) dvd 500000" by simp
  then show ?thesis
    using accesses_mint_tokens_in_one_millisecond
      [of sample_config "\<lparr>bk_tokens_milli = 0, bk_last_refill_millis = 0\<rparr>" 125] sample_widths
    by (simp add: u64_max_def)
qed

text \<open>
  A reading taken before another thread's later one moves a full bucket's mark back, so the time
  between the two is credited again.
\<close>

lemma stale_reading_moves_the_mark_back:
  assumes "bk_tokens_milli b = capacity_milli c" and "now < bk_last_refill_millis b"
  shows "refill c now b = b\<lparr>bk_last_refill_millis := now\<rparr>"
  using assms by (simp add: refill_def)

subsection \<open>Waiting for a token\<close>

lemma time_to_next_token_bounds:
  assumes c: "config_widths c" and t: "bk_tokens_milli b < milli_token"
  obtains w where "time_to_next_token c b = from_millis w" "0 < w" "w \<le> interval_millis c"
    "(milli_token - bk_tokens_milli b) * interval_millis c \<le> w * per_interval_milli c"
    "\<And>v. v < w \<Longrightarrow> v * per_interval_milli c < (milli_token - bk_tokens_milli b) * interval_millis c"
proof -
  let ?m = "milli_token - bk_tokens_milli b" and ?I = "interval_millis c" and ?P = "per_interval_milli c"
  let ?w = "div_ceil (?m * ?I) ?P"
  have P: "0 < ?P" by (rule per_interval_pos [OF c])
  have "milli_token \<le> ?P" using c by (simp add: config_widths_def per_interval_milli_def)
  then have "?m * ?I \<le> ?I * ?P" by (simp add: mult.commute)
  then have wI: "?w \<le> ?I" by (rule div_ceil_least [OF P])
  then have w64: "?w mod 2 ^ 64 = ?w"
    using interval_millis_bound [of c] by (intro mod_less) (simp add: u64_max_def)
  have enough: "?m * ?I \<le> ?w * ?P" by (rule div_ceil_ge [OF P])
  have least: "v * ?P < ?m * ?I" if "v < ?w" for v
    using div_ceil_least [OF P, of "?m * ?I" v] that by linarith
  have "0 < ?w"
  proof (rule ccontr)
    assume "\<not> 0 < ?w"
    with enough have "?m * ?I \<le> 0" by simp
    then show False using t by simp
  qed
  moreover have "time_to_next_token c b = from_millis ?w"
    using t by (simp only: time_to_next_token_def Let_def w64) simp
  ultimately show thesis using wI enough least by (intro that)
qed

text \<open>Credit enough for one token by \<open>t\<close>, and that accesses which take nothing keep it.\<close>

definition token_due :: "nat \<Rightarrow> limiter \<Rightarrow> bool" where
  "token_due t l \<longleftrightarrow> bk_tokens_milli (lim_bucket l) = capacity_milli (lim_config l) \<or>
     milli_token * interval_millis (lim_config l) \<le>
       bk_tokens_milli (lim_bucket l) * interval_millis (lim_config l) +
       (t - bk_last_refill_millis (lim_bucket l)) * per_interval_milli (lim_config l)"

lemma token_due_kept:
  assumes l: "limiter_ok l" and due: "token_due t l" and a: "access_now a \<le> t" "\<not> is_take a"
    and t: "t \<le> u64_max"
  shows "token_due t (snd (access_limiter l a))"
proof -
  let ?c = "lim_config l" and ?b = "lim_bucket l" and ?r = "refill (lim_config l) (access_now a) (lim_bucket l)"
  have p: "\<not> lim_poisoned l" using l by (simp add: limiter_ok_def)
  have r: "config_widths ?c" "bucket_ok ?c ?b" "access_now a \<le> u64_max"
    "bk_last_refill_millis ?b \<le> u64_max"
    using l a t by (simp_all add: limiter_ok_def)
  have "bk_tokens_milli ?r = capacity_milli ?c \<or>
      milli_token * interval_millis ?c \<le> bk_tokens_milli ?r * interval_millis ?c +
        (t - bk_last_refill_millis ?r) * per_interval_milli ?c"
  proof (cases "bk_tokens_milli ?b = capacity_milli ?c")
    case True
    with refill_ok(1,2) [OF r] show ?thesis by (simp add: bucket_ok_def)
  next
    case False
    with due refill_keeps_credit [OF r a(1)] show ?thesis by (auto simp: token_due_def)
  qed
  with a(2) show ?thesis by (simp add: access_limiter_eq [OF p] Let_def token_due_def)
qed

lemma token_due_kept_all:
  assumes "limiter_ok l" "token_due t l" "\<forall>a \<in> set as. access_now a \<le> t \<and> \<not> is_take a" "t \<le> u64_max"
  shows "token_due t (snd (access_all l as))"
  using assms
proof (induction as arbitrary: l)
  case (Cons a as)
  then have a: "access_now a \<le> t" "\<not> is_take a" "access_now a \<le> u64_max" by auto
  from Cons.prems token_due_kept [OF Cons.prems(1,2) a(1,2)] access_limiter_ok(1) [OF Cons.prems(1) a(3)]
  have "token_due t (snd (access_all (snd (access_limiter l a)) as))" by (intro Cons.IH) auto
  then show ?case by simp
qed simp

lemma token_due_grants:
  assumes l: "limiter_ok l" and due: "token_due t l" and t: "t \<le> u64_max"
  shows "fst (take_token t l) = Inr None"
proof -
  let ?c = "lim_config l" and ?b = "lim_bucket l" and ?r = "refill (lim_config l) t (lim_bucket l)"
  let ?I = "interval_millis ?c" and ?P = "per_interval_milli ?c"
  have p: "\<not> lim_poisoned l" using l by (simp add: limiter_ok_def)
  have r: "config_widths ?c" "bucket_ok ?c ?b" "t \<le> u64_max"
    "bk_last_refill_millis ?b \<le> u64_max"
    using l t by (simp_all add: limiter_ok_def)
  have cap: "milli_token \<le> capacity_milli ?c"
    using l by (simp add: limiter_ok_def capacity_milli_def)
  from r have "milli_token \<le> bk_tokens_milli ?r"
  proof (cases rule: refill_cases)
    case full
    with cap show ?thesis by simp
  next
    case (part g)
    then have "bk_tokens_milli ?b \<noteq> capacity_milli ?c" by simp
    with due have "(milli_token - bk_tokens_milli ?b) * ?I \<le> (t - bk_last_refill_millis ?b) * ?P"
      by (simp add: token_due_def diff_mult_distrib)
    then have "milli_token - bk_tokens_milli ?b \<le> g"
      unfolding part(1) by (simp add: less_eq_div_iff_mult_less_eq)
    with part show ?thesis by simp
  qed
  then show ?thesis by (simp add: take_token_def with_bucket_eq [OF p] take_from_def)
qed

text \<open>
C16: The \<open>retry_after\<close> of a refused access is a whole positive number of milliseconds, at most
one interval, and enough: whatever readings of the bucket come in between and in whatever
order, the first access for a token at least that much later is granted. So polling cannot
starve a caller.
\<close>
theorem retry_after_is_enough:
  assumes "limiter_ok l" and "take_token now l = (Inr (Some d), l')"
    and "bk_last_refill_millis (lim_bucket l) \<le> now"
    and "\<forall>a \<in> set polls. access_now a \<le> t \<and> \<not> is_take a"
    and "now + as_millis d \<le> t" and "t \<le> u64_max"
  shows "0 < d \<and> d \<le> from_millis (interval_millis (lim_config l)) \<and> d = from_millis (as_millis d) \<and>
    fst (take_token t (snd (access_all l' polls))) = Inr None"
proof -
  let ?c = "lim_config l" and ?b = "lim_bucket l" and ?r = "refill (lim_config l) now (lim_bucket l)"
  let ?I = "interval_millis ?c" and ?P = "per_interval_milli ?c"
  have p: "\<not> lim_poisoned l" using assms(1) by (simp add: limiter_ok_def)
  from assms(2) have low: "bk_tokens_milli ?r < milli_token" and d: "d = time_to_next_token ?c ?r"
    and l': "l' = l\<lparr>lim_bucket := ?r\<rparr>"
    by (auto simp: take_token_def with_bucket_eq [OF p] take_from_def split: if_splits)
  have now: "now \<le> u64_max" using assms(5,6) by simp
  have r: "config_widths ?c" "bucket_ok ?c ?b" "now \<le> u64_max" "bk_last_refill_millis ?b \<le> u64_max"
    using assms(1) now by (simp_all add: limiter_ok_def)
  obtain w where w: "d = from_millis w" "0 < w" "w \<le> ?I" "(milli_token - bk_tokens_milli ?r) * ?I \<le> w * ?P"
    using time_to_next_token_bounds [OF r(1) low] d by metis
  have wd: "as_millis d = w" by (simp add: w(1) as_millis_def from_millis_def)
  have mark: "bk_last_refill_millis ?r \<le> now" using refill_ok(3) [OF r] assms(3) by simp
  have "w \<le> t - bk_last_refill_millis ?r" using assms(5) mark wd by simp
  then have "w * ?P \<le> (t - bk_last_refill_millis ?r) * ?P" by (rule mult_le_mono1)
  with w(4) have "(milli_token - bk_tokens_milli ?r) * ?I \<le> (t - bk_last_refill_millis ?r) * ?P"
    by (rule le_trans)
  then have "token_due t l'"
    unfolding diff_mult_distrib [of milli_token] by (auto simp: token_due_def l')
  moreover have ok': "limiter_ok l'"
    using access_limiter_ok(1) [OF assms(1), of "Acc_take now"] now assms(2) by simp
  ultimately have due: "token_due t (snd (access_all l' polls))"
    using token_due_kept_all [OF ok' _ assms(4,6)] by simp
  have "limiter_ok (snd (access_all l' polls))"
    using access_all_ok [OF ok', of polls] assms(4,6) by (meson order_trans)
  then have "fst (take_token t (snd (access_all l' polls))) = Inr None"
    by (rule token_due_grants [OF _ due assms(6)])
  then show ?thesis using w(1,2,3) wd by (simp add: from_millis_def)
qed

theorem retry_after_is_enough_witness:
  "let l = sample_limiter\<lparr>lim_bucket := \<lparr>bk_tokens_milli = 0, bk_last_refill_millis = 0\<rparr>\<rparr>
   in fst (take_token 120 (snd (access_all l [Acc_read 60, Acc_peek 1]))) = Inr None"
proof -
  let ?l = "sample_limiter\<lparr>lim_bucket := \<lparr>bk_tokens_milli = 0, bk_last_refill_millis = 0\<rparr>\<rparr>"
  have c: "lim_config ?l = sample_config" "\<not> lim_poisoned ?l"
    by (simp_all add: sample_limiter_def)
  have ok: "limiter_ok ?l"
    using sample_limiter_ok by (simp add: limiter_ok_def bucket_ok_def)
  have take: "take_token 0 ?l = (Inr (Some (from_millis 120)), ?l)"
    by (simp add: take_token_def with_bucket_eq c take_from_def refill_def time_to_next_token_def
        milli_token_def div_ceil_def u64_add_def u64_sat_add_def u64_max_def from_millis_def)
  have "as_millis (from_millis 120) = 120" by (simp add: as_millis_def from_millis_def)
  with retry_after_is_enough [OF ok take, of "[Acc_read 60, Acc_peek 1]" 120] show ?thesis
    by (simp add: u64_max_def Let_def)
qed

section \<open>The limiter's world\<close>

fun holds_slot :: "caller \<Rightarrow> bool" where
  "holds_slot (Slot_held d a) = True"
| "holds_slot (Pacing d w) = True"
| "holds_slot (Leaving r) = (r = None)"
| "holds_slot Holding = True"
| "holds_slot _ = False"

fun inside_acquire :: "caller \<Rightarrow> bool" where
  "inside_acquire (Parked d a) = True"
| "inside_acquire (Slot_held d a) = True"
| "inside_acquire (Pacing d w) = True"
| "inside_acquire (Leaving r) = True"
| "inside_acquire _ = False"

fun is_waiting_caller :: "caller \<Rightarrow> bool" where
  "is_waiting_caller (Parked d a) = True"
| "is_waiting_caller (Slot_held d a) = True"
| "is_waiting_caller (Pacing d w) = True"
| "is_waiting_caller _ = False"

definition callers_with :: "(caller \<Rightarrow> bool) \<Rightarrow> rl_world \<Rightarrow> nat" where
  "callers_with P w = length (filter P (rw_callers w))"

definition rl_inv :: "rate_limit_config \<Rightarrow> rl_world \<Rightarrow> bool" where
  "rl_inv c w \<longleftrightarrow> lim_config (rw_limiter w) = c \<and>
     lim_slots (rw_limiter w) + callers_with holds_slot w = rc_max_concurrent c \<and>
     lim_waiting (rw_limiter w) = callers_with inside_acquire w \<and>
     callers_with is_waiting_caller w \<le> rc_max_waiters c"

lemma with_bucket_frame [simp]:
  "lim_config (snd (with_bucket acc now l)) = lim_config l"
  "lim_slots (snd (with_bucket acc now l)) = lim_slots l"
  "lim_waiting (snd (with_bucket acc now l)) = lim_waiting l"
  by (simp_all add: with_bucket_def split: prod.split)

lemma take_token_frame [simp]:
  "lim_config (snd (take_token now l)) = lim_config l"
  "lim_slots (snd (take_token now l)) = lim_slots l"
  "lim_waiting (snd (take_token now l)) = lim_waiting l"
  by (simp_all add: take_token_def)

lemma peek_retry_after_frame [simp]:
  "lim_config (snd (peek_retry_after now l)) = lim_config l"
  "lim_slots (snd (peek_retry_after now l)) = lim_slots l"
  "lim_waiting (snd (peek_retry_after now l)) = lim_waiting l"
  by (simp_all add: peek_retry_after_def)

lemma limiter_usage_bucket: "snd (limiter_usage now l) = snd (with_bucket whole_tokens now l)"
  by (simp add: limiter_usage_def split: prod.split sum.split)

lemma limiter_usage_frame [simp]:
  "lim_config (snd (limiter_usage now l)) = lim_config l"
  "lim_slots (snd (limiter_usage now l)) = lim_slots l"
  "lim_waiting (snd (limiter_usage now l)) = lim_waiting l"
  by (simp_all add: limiter_usage_bucket)

text \<open>
  The balance of one action on a caller: the slots and the counter move with what the caller
  holds, and nobody starts to wait.
\<close>

definition balanced :: "caller \<Rightarrow> limiter \<Rightarrow> caller \<times> limiter \<Rightarrow> bool" where
  "balanced before l cl \<longleftrightarrow>
     lim_config (snd cl) = lim_config l \<and>
     lim_slots (snd cl) + of_bool (holds_slot (fst cl)) = lim_slots l + of_bool (holds_slot before) \<and>
     lim_waiting (snd cl) + of_bool (inside_acquire before) =
       lim_waiting l + of_bool (inside_acquire (fst cl)) \<and>
     (is_waiting_caller (fst cl) \<longrightarrow> is_waiting_caller before)"

lemma callers_with_set:
  "i < length (rw_callers w) \<Longrightarrow>
     callers_with P (set_caller i w cl) + of_bool (P (caller_at w i)) =
       callers_with P w + of_bool (P (fst cl))"
  by (simp add: callers_with_def set_caller_def caller_at_def length_filter_update)

lemma set_caller_inv:
  assumes inv: "rl_inv c w" and i: "i < length (rw_callers w)"
    and bal: "balanced (caller_at w i) (rw_limiter w) cl"
  shows "rl_inv c (set_caller i w cl)"
proof -
  have lim: "rw_limiter (set_caller i w cl) = snd cl" by (simp add: set_caller_def)
  from callers_with_set [OF i, of is_waiting_caller cl] bal inv
  have "callers_with is_waiting_caller (set_caller i w cl) \<le> rc_max_waiters c"
    by (auto simp: balanced_def rl_inv_def of_bool_def split: if_splits)
  moreover from callers_with_set [OF i, of holds_slot cl] bal inv
  have "lim_slots (snd cl) + callers_with holds_slot (set_caller i w cl) = rc_max_concurrent c"
    unfolding balanced_def rl_inv_def by linarith
  moreover from callers_with_set [OF i, of inside_acquire cl] bal inv
  have "lim_waiting (snd cl) = callers_with inside_acquire (set_caller i w cl)"
    unfolding balanced_def rl_inv_def by linarith
  ultimately show ?thesis using bal inv by (simp add: rl_inv_def lim balanced_def)
qed

lemma caller_at_index: "caller_at w i \<noteq> Finished None \<Longrightarrow> i < length (rw_callers w)"
  by (auto simp: caller_at_def split: if_splits)

lemma inside_counts: "inside_acquire (caller_at w i) \<Longrightarrow> 0 < callers_with inside_acquire w"
proof -
  assume p: "inside_acquire (caller_at w i)"
  then have "i < length (rw_callers w)" by (auto simp: caller_at_def split: if_splits)
  with p have "caller_at w i \<in> set (filter inside_acquire (rw_callers w))"
    by (auto simp: caller_at_def)
  then show ?thesis unfolding callers_with_def by (rule length_pos_if_in_set)
qed

lemma slot_timeout_balanced: "balanced (Parked d a) l (slot_timeout now l)"
  using peek_retry_after_frame [of now l]
  by (auto simp: balanced_def slot_timeout_def simp del: peek_retry_after_frame split: prod.split sum.split)

lemma acquire_observe_balanced: "balanced (Slot_held d a) l (acquire_observe d a now l)"
  using limiter_usage_frame [of now l]
  by (auto simp: balanced_def acquire_observe_def drop_permit_def simp del: limiter_usage_frame
      split: prod.split sum.split option.split)

lemma acquire_turn_balanced: "balanced (Pacing d wk) l (acquire_turn d now now_millis l)"
  using take_token_frame [of now_millis l]
  by (auto simp: balanced_def acquire_turn_def drop_permit_def simp del: take_token_frame
      split: prod.split sum.split option.split)

lemma leave_acquire_balanced: "0 < lim_waiting l \<Longrightarrow> balanced (Leaving r) l (leave_acquire r l)"
  by (cases r) (auto simp: balanced_def leave_acquire_def drop_waiter_guard_def)

lemma cancel_acquire_balanced:
  "(inside_acquire cr \<Longrightarrow> 0 < lim_waiting l) \<Longrightarrow> balanced cr l (cancel_acquire cr l)"
  by (cases cr) (auto simp: balanced_def drop_waiter_guard_def drop_permit_def)

lemma try_acquire_frame:
  assumes "try_acquire now l = (r, l')"
  shows "lim_config l' = lim_config l" "lim_waiting l' = lim_waiting l"
    "lim_slots l' + of_bool (r = None) = lim_slots l"
  using assms take_token_frame [of now "l\<lparr>lim_slots := lim_slots l - 1\<rparr>"]
  by (auto simp: try_acquire_def Let_def simp del: take_token_frame split: if_splits prod.splits sum.splits option.splits)

lemma add_caller_inv:
  assumes inv: "rl_inv c w" and "lim_config (snd cl) = c"
    and "lim_slots (snd cl) + of_bool (holds_slot (fst cl)) = lim_slots (rw_limiter w)"
    and "lim_waiting (snd cl) = lim_waiting (rw_limiter w) + of_bool (inside_acquire (fst cl))"
    and "is_waiting_caller (fst cl) \<Longrightarrow> lim_waiting (rw_limiter w) < rc_max_waiters c"
  shows "rl_inv c (add_caller w cl)"
proof -
  have "is_waiting_caller cr \<Longrightarrow> inside_acquire cr" for cr by (cases cr) auto
  then have "callers_with is_waiting_caller w \<le> callers_with inside_acquire w"
    by (auto simp: callers_with_def length_filter_conv_card intro!: card_mono)
  with assms show ?thesis
    by (auto simp: rl_inv_def add_caller_def callers_with_def)
qed

lemma rl_step_inv: "rl_inv c w \<Longrightarrow> rl_inv c (rl_step w e)"
proof (cases e)
  case (Ev_acquire now)
  assume inv: "rl_inv c w"
  then show ?thesis
    unfolding Ev_acquire rl_step.simps
    by (intro add_caller_inv) (auto simp: acquire_enter_def Let_def rl_inv_def split: if_splits)
next
  case (Ev_slot i)
  assume inv: "rl_inv c w"
  show ?thesis
  proof (cases "caller_at w i")
    case (Parked d a)
    with inv show ?thesis
      by (auto simp: Ev_slot balanced_def intro!: set_caller_inv caller_at_index)
  qed (use inv in \<open>simp_all add: Ev_slot\<close>)
next
  case (Ev_slot_timeout i now m)
  assume inv: "rl_inv c w"
  show ?thesis
  proof (cases "caller_at w i")
    case (Parked d a)
    with inv slot_timeout_balanced [of d a] show ?thesis
      by (auto simp: Ev_slot_timeout intro!: set_caller_inv caller_at_index)
  qed (use inv in \<open>simp_all add: Ev_slot_timeout\<close>)
next
  case (Ev_observe i m)
  assume inv: "rl_inv c w"
  show ?thesis
  proof (cases "caller_at w i")
    case (Slot_held d a)
    with inv acquire_observe_balanced [of d a] show ?thesis
      by (auto simp: Ev_observe intro!: set_caller_inv caller_at_index)
  qed (use inv in \<open>simp_all add: Ev_observe\<close>)
next
  case (Ev_turn i now m)
  assume inv: "rl_inv c w"
  show ?thesis
  proof (cases "caller_at w i")
    case (Pacing d wk)
    with inv acquire_turn_balanced [of d wk "rw_limiter w" now m]
    have "rl_inv c (set_caller i w (acquire_turn d now m (rw_limiter w)))"
      by (auto intro!: set_caller_inv caller_at_index)
    with inv show ?thesis by (simp add: Ev_turn Pacing split: option.split)
  qed (use inv in \<open>simp_all add: Ev_turn\<close>)
next
  case (Ev_leave i)
  assume inv: "rl_inv c w"
  show ?thesis
  proof (cases "caller_at w i")
    case (Leaving r)
    with inv inside_counts [of w i] have "0 < lim_waiting (rw_limiter w)" by (simp add: rl_inv_def)
    with inv Leaving leave_acquire_balanced [of "rw_limiter w" r] show ?thesis
      by (auto simp: Ev_leave intro!: set_caller_inv caller_at_index)
  qed (use inv in \<open>simp_all add: Ev_leave\<close>)
next
  case (Ev_cancel i)
  assume inv: "rl_inv c w"
  with inside_counts [of w i]
  have "balanced (caller_at w i) (rw_limiter w) (cancel_acquire (caller_at w i) (rw_limiter w))"
    by (intro cancel_acquire_balanced) (simp add: rl_inv_def)
  with inv show ?thesis by (simp add: Ev_cancel set_caller_inv)
next
  case (Ev_release i)
  assume inv: "rl_inv c w"
  show ?thesis
  proof (cases "caller_at w i")
    case Holding
    with inv show ?thesis
      by (auto simp: Ev_release balanced_def drop_permit_def intro!: set_caller_inv caller_at_index)
  qed (use inv in \<open>simp_all add: Ev_release\<close>)
next
  case (Ev_try now)
  assume inv: "rl_inv c w"
  obtain r l where t: "try_acquire now (rw_limiter w) = (r, l)" by (cases "try_acquire now (rw_limiter w)")
  have c: "lim_config (rw_limiter w) = c" using inv by (simp add: rl_inv_def)
  show ?thesis
  proof (cases r)
    case None
    have "rl_inv c (add_caller w (Holding, l))"
      using try_acquire_frame [OF t] c None by (intro add_caller_inv [OF inv]) simp_all
    then show ?thesis by (simp add: Ev_try t None)
  next
    case (Some e)
    have "rl_inv c (add_caller w (Finished (Some e), l))"
      using try_acquire_frame [OF t] c Some by (intro add_caller_inv [OF inv]) simp_all
    then show ?thesis by (simp add: Ev_try t Some)
  qed
next
  case (Ev_usage now)
  assume "rl_inv c w"
  then show ?thesis by (simp add: Ev_usage rl_inv_def callers_with_def)
qed

interpretation rl_run: stepper rl_step "rl_inv c" for c
  by unfold_locales (rule rl_step_inv)

text \<open>
C15: No slot is stranded and no caller miscounted, on any interleaving of \<open>acquire\<close>,
\<open>try_acquire\<close>, refusals, timeouts, cancellations and permit drops: the free slots and the
callers that hold one add up to the configured concurrency, the waiting counter is the number
of callers inside \<open>acquire\<close>, at most \<open>max_waiters\<close> callers wait, the in-flight reading is the
number of slot holders, and once every caller has finished all slots are free again.
\<close>
theorem every_slot_is_accounted_for:
  assumes "limiter_with_clock mp sf c t0 = Inr l"
  shows "let w = foldl rl_step (rl_start l) es in
    lim_slots (rw_limiter w) + callers_with holds_slot w = rc_max_concurrent c \<and>
    lim_waiting (rw_limiter w) = callers_with inside_acquire w \<and>
    callers_with is_waiting_caller w \<le> rc_max_waiters c \<and>
    lim_in_flight (rw_limiter w) = callers_with holds_slot w \<and>
    ((\<forall>cr \<in> set (rw_callers w). \<exists>r. cr = Finished r) \<longrightarrow>
       lim_slots (rw_limiter w) = rc_max_concurrent c \<and> lim_waiting (rw_limiter w) = 0)"
proof -
  let ?w = "foldl rl_step (rl_start l) es"
  from assms have "rl_inv c (rl_start l)"
    by (auto simp: limiter_with_clock_def rl_inv_def rl_start_def callers_with_def split: option.splits)
  then have inv: "rl_inv c ?w" by (rule rl_run.run_inv)
  moreover have "callers_with P ?w = 0"
    if "\<forall>cr \<in> set (rw_callers ?w). \<exists>r. cr = Finished r" "\<And>r. \<not> P (Finished r)" for P
    using that by (auto simp: callers_with_def filter_empty_conv)
  from this [of holds_slot] this [of inside_acquire]
  have "(\<forall>cr \<in> set (rw_callers ?w). \<exists>r. cr = Finished r) \<longrightarrow>
    callers_with holds_slot ?w = 0 \<and> callers_with inside_acquire ?w = 0" by auto
  ultimately show ?thesis by (auto simp: Let_def rl_inv_def lim_in_flight_def)
qed

theorem every_slot_is_accounted_for_witness:
  "let w = foldl rl_step (rl_start sample_limiter)
       [Ev_acquire 0, Ev_slot 0, Ev_observe 0 1, Ev_try 1, Ev_turn 0 5 5, Ev_cancel 0]
   in lim_slots (rw_limiter w) + callers_with holds_slot w = 2"
  using every_slot_is_accounted_for [OF sample_limiter_built]
  by (simp only: Let_def) (simp add: sample_config_def)

subsection \<open>Quota is spent only on permits\<close>

fun owns_permit :: "caller \<Rightarrow> bool" where
  "owns_permit (Leaving r) = (r = None)"
| "owns_permit Holding = True"
| "owns_permit _ = False"

fun event_reading :: "rl_event \<Rightarrow> nat" where
  "event_reading (Ev_slot_timeout i now m) = m"
| "event_reading (Ev_observe i m) = m"
| "event_reading (Ev_turn i now m) = m"
| "event_reading (Ev_try m) = m"
| "event_reading (Ev_usage m) = m"
| "event_reading _ = 0"

abbreviation tokens_of :: "limiter \<Rightarrow> nat" where
  "tokens_of l \<equiv> bk_tokens_milli (lim_bucket l)"

lemma access_keeps_tokens:
  assumes "limiter_ok l" "m \<le> u64_max"
  shows "tokens_of l \<le> tokens_of (snd (peek_retry_after m l))"
    and "tokens_of l \<le> tokens_of (snd (limiter_usage m l))"
    and "fst (take_token m l) \<noteq> Inr None \<Longrightarrow> tokens_of l \<le> tokens_of (snd (take_token m l))"
proof -
  have p: "\<not> lim_poisoned l" using assms(1) by (simp add: limiter_ok_def)
  have r: "config_widths (lim_config l)" "bucket_ok (lim_config l) (lim_bucket l)"
    "m \<le> u64_max" "bk_last_refill_millis (lim_bucket l) \<le> u64_max"
    using assms by (simp_all add: limiter_ok_def)
  note mono = refill_ok(2) [OF r]
  show "tokens_of l \<le> tokens_of (snd (peek_retry_after m l))"
    using mono by (simp add: peek_retry_after_def with_bucket_eq [OF p] peek_from_def)
  show "tokens_of l \<le> tokens_of (snd (limiter_usage m l))"
    using mono by (simp add: limiter_usage_bucket with_bucket_eq [OF p] whole_tokens_def)
  show "fst (take_token m l) \<noteq> Inr None \<Longrightarrow> tokens_of l \<le> tokens_of (snd (take_token m l))"
    using mono by (auto simp: take_token_def with_bucket_eq [OF p] take_from_def split: if_splits)
qed

lemma acquire_observe_tokens:
  "limiter_ok l \<Longrightarrow> m \<le> u64_max \<Longrightarrow> tokens_of l \<le> tokens_of (snd (acquire_observe d a m l))"
  using access_keeps_tokens(2) [of l m]
  by (auto simp: acquire_observe_def drop_permit_def split: prod.split sum.split option.split)

lemma slot_timeout_tokens:
  "limiter_ok l \<Longrightarrow> m \<le> u64_max \<Longrightarrow> tokens_of l \<le> tokens_of (snd (slot_timeout m l))"
  using access_keeps_tokens(1) [of l m] by (auto simp: slot_timeout_def split: prod.split sum.split)

lemma acquire_turn_tokens:
  "limiter_ok l \<Longrightarrow> m \<le> u64_max \<Longrightarrow> tokens_of l \<le> tokens_of (snd (acquire_turn d now m l)) \<or>
     fst (acquire_turn d now m l) = Leaving None"
  using access_keeps_tokens(3) [of l m]
  by (auto simp: acquire_turn_def drop_permit_def split: prod.split sum.split option.split)

lemma try_acquire_tokens:
  assumes "limiter_ok l" "m \<le> u64_max"
  shows "tokens_of l \<le> tokens_of (snd (try_acquire m l)) \<or> fst (try_acquire m l) = None"
proof -
  have "limiter_ok (l\<lparr>lim_slots := lim_slots l - 1\<rparr>)" using assms(1) by (simp add: limiter_ok_def)
  from access_keeps_tokens(3) [OF this assms(2)] show ?thesis
    by (auto simp: try_acquire_def Let_def split: prod.split sum.split option.split)
qed

lemma set_caller_limiter [simp]: "rw_limiter (set_caller i w cl) = snd cl"
  "rw_limiter (add_caller w cl) = snd cl"
  by (simp_all add: set_caller_def add_caller_def)

text \<open>
Quota is spent only on permits: a step of the limiter's world that lowers the token count
is one that hands a permit to exactly one caller. A caller that is refused at the door, finds
no slot, gives up waiting, is refused by an observer or is cancelled has spent nothing.
\<close>
theorem tokens_are_spent_only_on_permits:
  assumes "limiter_ok (rw_limiter w)" and "event_reading e \<le> u64_max"
    and "tokens_of (rw_limiter (rl_step w e)) < tokens_of (rw_limiter w)"
  shows "callers_with owns_permit (rl_step w e) = Suc (callers_with owns_permit w)"
proof -
  let ?l = "rw_limiter w"
  have granted: "callers_with owns_permit (set_caller i w cl) = Suc (callers_with owns_permit w)"
    if "caller_at w i = Pacing d wk" "fst cl = Leaving None" for i d wk cl
    using callers_with_set [of i w owns_permit cl] caller_at_index [of w i] that by simp
  from assms show ?thesis
  proof (cases e)
    case (Ev_acquire now)
    with assms(3) show ?thesis by (simp add: acquire_enter_def Let_def split: if_splits)
  next
    case (Ev_slot_timeout i now m)
    with assms slot_timeout_tokens [of ?l m] show ?thesis by (auto split: caller.splits if_splits)
  next
    case (Ev_observe i m)
    with assms acquire_observe_tokens [of ?l m] show ?thesis
      by (auto simp: not_less [symmetric] split: caller.splits if_splits)
  next
    case (Ev_turn i now m)
    with assms acquire_turn_tokens [of ?l m] granted show ?thesis
      by (auto simp: not_less [symmetric] split: caller.splits if_splits option.splits)
  next
    case (Ev_leave i)
    with assms(3) show ?thesis
      by (auto simp: leave_acquire_def drop_waiter_guard_def split: caller.splits option.splits)
  next
    case (Ev_cancel i)
    with assms(3) show ?thesis
      by (cases "caller_at w i") (auto simp: drop_waiter_guard_def drop_permit_def split: if_splits)
  next
    case (Ev_try m)
    with assms try_acquire_tokens [of ?l m] show ?thesis
      by (auto simp: callers_with_def add_caller_def split: prod.splits option.splits)
  next
    case (Ev_usage m)
    with assms access_keeps_tokens(2) [of ?l m] show ?thesis by simp
  qed (auto simp: drop_permit_def split: caller.splits if_splits)
qed

theorem tokens_are_spent_only_on_permits_witness:
  "callers_with owns_permit (rl_step (rl_start sample_limiter) (Ev_try 0)) = 1"
proof -
  have t: "try_acquire 0 sample_limiter =
      (None, sample_limiter\<lparr>lim_slots := 1, lim_bucket := \<lparr>bk_tokens_milli = 1000, bk_last_refill_millis = 0\<rparr>\<rparr>)"
    by (simp add: try_acquire_def take_token_def with_bucket_def take_from_def refill_def
        sample_limiter_def sample_limiter_ok milli_token_def Let_def)
  have "tokens_of (rw_limiter (rl_step (rl_start sample_limiter) (Ev_try 0))) <
      tokens_of (rw_limiter (rl_start sample_limiter))"
    by (simp add: rl_start_def t) (simp add: sample_limiter_def)
  with tokens_are_spent_only_on_permits [of "rl_start sample_limiter" "Ev_try 0"] sample_limiter_ok
  show ?thesis by (simp add: rl_start_def u64_max_def callers_with_def)
qed

subsection \<open>The token loop ends\<close>

text \<open>
  The loop of one caller: at each turn it finds the limiter as the other callers have left it
  and two clock readings. \<open>sleeps_until\<close> says that no turn comes before the instant the previous
  one sleeps to.
\<close>

type_synonym loop_turn = "instant \<times> nat \<times> limiter"

fun token_loop :: "instant \<Rightarrow> loop_turn list \<Rightarrow> rate_limit_error option option" where
  "token_loop deadline [] = None"
| "token_loop deadline ((now, m, l) # turns) =
     (case fst (acquire_turn deadline now m l) of
        Leaving result \<Rightarrow> Some result
      | _ \<Rightarrow> token_loop deadline turns)"

fun sleeps_until :: "instant \<Rightarrow> instant \<Rightarrow> loop_turn list \<Rightarrow> bool" where
  "sleeps_until deadline wake [] = True"
| "sleeps_until deadline wake ((now, m, l) # turns) =
     (wake \<le> now \<and>
      (case fst (acquire_turn deadline now m l) of
         Pacing d (Some t) \<Rightarrow> sleeps_until deadline t turns
       | _ \<Rightarrow> True))"

lemma acquire_turn_result:
  assumes l: "limiter_ok l" and m: "m \<le> u64_max"
  obtains (granted) "fst (acquire_turn d now m l) = Leaving None"
  | (exhausted) r where "d \<le> now" "fst (acquire_turn d now m l) = Leaving (Some (RlExhausted r))"
  | (sleeping) r where "now < d" "from_millis 1 \<le> r"
      "fst (acquire_turn d now m l) = Pacing d (Some (min d (now + r)))"
proof -
  let ?c = "lim_config l" and ?r = "refill (lim_config l) m (lim_bucket l)"
  have p: "\<not> lim_poisoned l" using l by (simp add: limiter_ok_def)
  have c: "config_widths ?c" using l by (simp add: limiter_ok_def)
  show thesis
  proof (cases "milli_token \<le> bk_tokens_milli ?r")
    case True
    then show thesis
      by (intro granted) (simp add: acquire_turn_def take_token_def with_bucket_eq [OF p] take_from_def)
  next
    case False
    then have "bk_tokens_milli ?r < milli_token" by simp
    from time_to_next_token_bounds [OF c this] obtain w
      where w: "time_to_next_token ?c ?r = from_millis w" "0 < w" by metis
    have t: "fst (take_token m l) = Inr (Some (from_millis w))"
      using False w(1) by (simp add: take_token_def with_bucket_eq [OF p] take_from_def)
    have long: "from_millis 1 \<le> from_millis w" using w(2) by (simp add: from_millis_def)
    show thesis
    proof (cases "now < d")
      case True
      with t have "fst (acquire_turn d now m l) = Pacing d (Some (min d (now + from_millis w)))"
        by (cases "take_token m l") (simp add: acquire_turn_def)
      with True long show thesis by (intro sleeping)
    next
      case F: False
      with t have "fst (acquire_turn d now m l) = Leaving (Some (RlExhausted (from_millis w)))"
        by (cases "take_token m l") (simp add: acquire_turn_def)
      with F show thesis by (intro exhausted) simp_all
    qed
  qed
qed

text \<open>
C17: \<open>acquire\<close> returns: whatever the other callers do to the bucket between its turns, the token
loop of a caller that sleeps as the code does ends after at most one turn per millisecond of
the remaining budget and one more, with a permit or with \<open>Exhausted\<close>.
\<close>
theorem acquire_ends_within_its_budget:
  assumes "\<forall>(now, m, l) \<in> set turns. limiter_ok l \<and> m \<le> u64_max"
    and "sleeps_until deadline wake turns"
    and "deadline - wake + from_millis 1 \<le> length turns * from_millis 1"
  shows "\<exists>result. token_loop deadline turns = Some result \<and>
    (result = None \<or> (\<exists>r. result = Some (RlExhausted r)))"
  using assms
proof (induction turns arbitrary: wake)
  case Nil
  then show ?case by (simp add: from_millis_def)
next
  case (Cons turn turns)
  obtain now m l where turn: "turn = (now, m, l)" by (cases turn)
  with Cons.prems(1) have lm: "limiter_ok l" "m \<le> u64_max" by auto
  from lm show ?case
  proof (cases rule: acquire_turn_result [where d = deadline and now = now])
    case (sleeping r)
    let ?wake = "min deadline (now + r)"
    have "wake \<le> now" using Cons.prems(2) turn by simp
    with sleeping Cons.prems(3)
    have "deadline - ?wake + from_millis 1 \<le> length turns * from_millis 1"
      by (cases turns) (auto simp: min_def from_millis_def)
    moreover have "sleeps_until deadline ?wake turns" using Cons.prems(2) turn sleeping by simp
    ultimately have "\<exists>result. token_loop deadline turns = Some result \<and>
        (result = None \<or> (\<exists>r. result = Some (RlExhausted r)))"
      using Cons.prems(1) by (intro Cons.IH) auto
    then show ?thesis using turn sleeping by simp
  qed (use turn in auto)
qed

theorem acquire_ends_within_its_budget_witness:
  "\<exists>result. token_loop 0 [(0, 0, sample_limiter)] = Some result"
  using acquire_ends_within_its_budget [of "[(0, 0, sample_limiter)]" 0 0] sample_limiter_ok
  by (auto simp: acquire_turn_def take_token_def with_bucket_def take_from_def refill_def
      sample_limiter_def Let_def milli_token_def)

end
