(* ===== verification/Sse.thy ===== *)
theory Sse
  imports Wire_Types
begin

text \<open>
  \<open>src/sse.rs\<close>: the incremental parser of a server-sent event stream. Bytes are numbers below
  256; the parser's state is its buffer and the last event id. \<open>memchr\<close>, \<open>str::from_utf8\<close> (with
  the position its error reports), \<open>str::trim\<close> and \<open>str::parse::<u64>\<close> are written out. The
  buffer's capacity is not modelled.
\<close>

section \<open>Standard library\<close>

type_synonym bytes = "nat list"

definition memchr :: "nat \<Rightarrow> bytes \<Rightarrow> nat option" where
  "memchr b s = position (\<lambda>x. x = b) s"

subsection \<open>UTF-8\<close>

text \<open>An error is \<open>valid_up_to\<close> and \<open>error_len\<close>.\<close>

type_synonym utf8_error = "nat \<times> nat option"

definition is_cont :: "nat \<Rightarrow> bool" where
  "is_cont b \<longleftrightarrow> 128 \<le> b \<and> b < 192"

definition second_of_three :: "nat \<Rightarrow> nat \<Rightarrow> bool" where
  "second_of_three a b \<longleftrightarrow> is_cont b \<and> (a = 224 \<longrightarrow> 160 \<le> b) \<and> (a = 237 \<longrightarrow> b < 160)"

definition second_of_four :: "nat \<Rightarrow> nat \<Rightarrow> bool" where
  "second_of_four a b \<longleftrightarrow> is_cont b \<and> (a = 240 \<longrightarrow> 144 \<le> b) \<and> (a = 244 \<longrightarrow> b < 144)"

fun utf8_from :: "nat \<Rightarrow> bytes \<Rightarrow> utf8_error + utext" where
  "utf8_from i [] = Inr []"
| "utf8_from i (a # s) =
     (if a < 128 then map_sum id (\<lambda>t. a # t) (utf8_from (i + 1) s)
      else if 194 \<le> a \<and> a < 224 then
        (case s of
           [] \<Rightarrow> Inl (i, None)
         | b # s \<Rightarrow>
             if \<not> is_cont b then Inl (i, Some 1)
             else map_sum id (\<lambda>t. ((a - 192) * 64 + (b - 128)) # t) (utf8_from (i + 2) s))
      else if 224 \<le> a \<and> a < 240 then
        (case s of
           [] \<Rightarrow> Inl (i, None)
         | b # s \<Rightarrow>
             if \<not> second_of_three a b then Inl (i, Some 1)
             else (case s of
                [] \<Rightarrow> Inl (i, None)
              | c # s \<Rightarrow>
                  if \<not> is_cont c then Inl (i, Some 2)
                  else map_sum id (\<lambda>t. ((a - 224) * 4096 + (b - 128) * 64 + (c - 128)) # t)
                         (utf8_from (i + 3) s)))
      else if 240 \<le> a \<and> a < 245 then
        (case s of
           [] \<Rightarrow> Inl (i, None)
         | b # s \<Rightarrow>
             if \<not> second_of_four a b then Inl (i, Some 1)
             else (case s of
                [] \<Rightarrow> Inl (i, None)
              | c # s \<Rightarrow>
                  if \<not> is_cont c then Inl (i, Some 2)
                  else (case s of
                     [] \<Rightarrow> Inl (i, None)
                   | d # s \<Rightarrow>
                       if \<not> is_cont d then Inl (i, Some 3)
                       else map_sum id (\<lambda>t. ((a - 240) * 262144 + (b - 128) * 4096 +
                                              (c - 128) * 64 + (d - 128)) # t)
                              (utf8_from (i + 4) s))))
      else Inl (i, Some 1))"

definition from_utf8 :: "bytes \<Rightarrow> utf8_error + utext" where
  "from_utf8 s = utf8_from 0 s"

fun utf8_error_display :: "utf8_error \<Rightarrow> string" where
  "utf8_error_display (i, Some n) =
     ''invalid utf-8 sequence of '' @ show_nat n @ '' bytes from index '' @ show_nat i"
| "utf8_error_display (i, None) = ''incomplete utf-8 byte sequence from index '' @ show_nat i"

text \<open>The encoding of a text, for the statements about what a server sends.\<close>

definition encode_char :: "nat \<Rightarrow> bytes" where
  "encode_char c =
     (if c < 128 then [c]
      else if c < 2048 then [192 + c div 64, 128 + c mod 64]
      else if c < 65536 then [224 + c div 4096, 128 + c div 64 mod 64, 128 + c mod 64]
      else [240 + c div 262144, 128 + c div 4096 mod 64, 128 + c div 64 mod 64, 128 + c mod 64])"

definition utf8_bytes :: "utext \<Rightarrow> bytes" where
  "utf8_bytes t = concat (map encode_char t)"

definition is_scalar :: "nat \<Rightarrow> bool" where
  "is_scalar c \<longleftrightarrow> c < 55296 \<or> 57344 \<le> c \<and> c < 1114112"

lemma recombine:
  "(w :: nat) = x * 64 + y \<Longrightarrow> c = w * 64 + z \<Longrightarrow> x * 4096 + y * 64 + z = c"
  "(v :: nat) = x * 64 + y \<Longrightarrow> w = v * 64 + y2 \<Longrightarrow> c = w * 64 + z \<Longrightarrow>
     x * 262144 + y * 4096 + y2 * 64 + z = c"
  by simp_all

lemma utf8_from_2:
  "194 \<le> a \<Longrightarrow> a < 224 \<Longrightarrow> is_cont b \<Longrightarrow> (a - 192) * 64 + (b - 128) = c \<Longrightarrow>
     utf8_from i (a # b # s) = map_sum id (\<lambda>t. c # t) (utf8_from (i + 2) s)"
  by (subst utf8_from.simps) simp

lemma utf8_from_3:
  "224 \<le> a \<Longrightarrow> a < 240 \<Longrightarrow> second_of_three a b \<Longrightarrow> is_cont b2 \<Longrightarrow>
     (a - 224) * 4096 + (b - 128) * 64 + (b2 - 128) = c \<Longrightarrow>
     utf8_from i (a # b # b2 # s) = map_sum id (\<lambda>t. c # t) (utf8_from (i + 3) s)"
  by (subst utf8_from.simps) simp

lemma utf8_from_4:
  "240 \<le> a \<Longrightarrow> a < 245 \<Longrightarrow> second_of_four a b \<Longrightarrow> is_cont b2 \<Longrightarrow> is_cont b3 \<Longrightarrow>
     (a - 240) * 262144 + (b - 128) * 4096 + (b2 - 128) * 64 + (b3 - 128) = c \<Longrightarrow>
     utf8_from i (a # b # b2 # b3 # s) = map_sum id (\<lambda>t. c # t) (utf8_from (i + 4) s)"
  by (subst utf8_from.simps) simp

lemma utf8_from_encode_char:
  assumes "is_scalar c"
  shows "\<exists>n. utf8_from i (encode_char c @ s) = map_sum id (\<lambda>t. c # t) (utf8_from (i + n) s)"
proof -
  consider "c < 128" | "128 \<le> c" "c < 2048" | "2048 \<le> c" "c < 65536" | "65536 \<le> c" "c < 1114112"
    using assms by (simp add: is_scalar_def) linarith
  then show ?thesis
  proof cases
    case 1
    then show ?thesis by (intro exI [of _ 1]) (simp add: encode_char_def)
  next
    case 2
    let ?a = "192 + c div 64" and ?b = "128 + c mod 64"
    have "194 \<le> ?a" "?a < 224" "is_cont ?b" using 2 by (auto simp: is_cont_def)
    moreover have "(?a - 192) * 64 + (?b - 128) = c" by simp
    ultimately have "utf8_from i (?a # ?b # s) = map_sum id (\<lambda>t. c # t) (utf8_from (i + 2) s)"
      by (rule utf8_from_2)
    moreover have "encode_char c @ s = ?a # ?b # s" using 2 by (simp add: encode_char_def)
    ultimately show ?thesis by metis
  next
    case 3
    let ?a = "224 + c div 4096" and ?b = "128 + c div 64 mod 64" and ?c = "128 + c mod 64"
    have a: "224 \<le> ?a" "?a < 240" using 3 by auto
    have "is_cont ?b" "is_cont ?c" by (auto simp: is_cont_def)
    moreover have "160 \<le> ?b" if "?a = 224"
    proof -
      from that have "c div 64 < 64" by (simp add: div_eq_0_iff)
      with 3 show ?thesis by simp
    qed
    moreover have "?b < 160" if "?a = 237"
    proof -
      from that have "c div 64 div 64 = 13" by (simp add: div_mult2_eq [symmetric])
      then have "c div 64 = 832 + c div 64 mod 64"
        using div_mult_mod_eq [of "c div 64" 64] by linarith
      moreover have "c < 57344" using that by simp
      with assms have "c < 55296" by (auto simp: is_scalar_def)
      then have "c div 64 < 864" by (simp add: less_mult_imp_div_less)
      ultimately show ?thesis by linarith
    qed
    ultimately have ok: "second_of_three ?a ?b" "is_cont ?c" by (auto simp: second_of_three_def)
    have "c div 64 = c div 4096 * 64 + c div 64 mod 64"
      using div_mult_mod_eq [of "c div 64" 64] by (simp add: div_mult2_eq [symmetric])
    from recombine(1) [OF this, of c "c mod 64"]
    have "(?a - 224) * 4096 + (?b - 128) * 64 + (?c - 128) = c" by simp
    with a ok have "utf8_from i (?a # ?b # ?c # s) = map_sum id (\<lambda>t. c # t) (utf8_from (i + 3) s)"
      by (intro utf8_from_3)
    moreover have "encode_char c @ s = ?a # ?b # ?c # s" using 3 by (simp add: encode_char_def)
    ultimately show ?thesis by metis
  next
    case 4
    let ?a = "240 + c div 262144" and ?b = "128 + c div 4096 mod 64"
      and ?c = "128 + c div 64 mod 64" and ?d = "128 + c mod 64"
    have a: "240 \<le> ?a" "?a < 245" using 4 by auto
    have "is_cont ?b" and cd: "is_cont ?c" "is_cont ?d" by (auto simp: is_cont_def)
    moreover have "144 \<le> ?b" if "?a = 240"
    proof -
      from that have "c < 262144" by (simp add: div_eq_0_iff)
      then have "c div 4096 < 64" by (simp add: less_mult_imp_div_less)
      moreover have "16 \<le> c div 4096" using 4 by (simp add: less_eq_div_iff_mult_less_eq)
      ultimately show ?thesis by simp
    qed
    moreover have "?b < 144" if "?a = 244"
    proof -
      from that have "c div 4096 div 64 = 4" by (simp add: div_mult2_eq [symmetric])
      then have "c div 4096 = 256 + c div 4096 mod 64"
        using div_mult_mod_eq [of "c div 4096" 64] by linarith
      moreover have "c div 4096 < 272" using 4 by (simp add: less_mult_imp_div_less)
      ultimately show ?thesis by linarith
    qed
    ultimately have ok: "second_of_four ?a ?b" by (auto simp: second_of_four_def)
    have x: "c div 4096 = c div 262144 * 64 + c div 4096 mod 64"
      using div_mult_mod_eq [of "c div 4096" 64] by (simp add: div_mult2_eq [symmetric])
    have y: "c div 64 = c div 4096 * 64 + c div 64 mod 64"
      using div_mult_mod_eq [of "c div 64" 64] by (simp add: div_mult2_eq [symmetric])
    from recombine(2) [OF x y, of c "c mod 64"]
    have "(?a - 240) * 262144 + (?b - 128) * 4096 + (?c - 128) * 64 + (?d - 128) = c" by simp
    with a ok cd have "utf8_from i (?a # ?b # ?c # ?d # s) = map_sum id (\<lambda>t. c # t) (utf8_from (i + 4) s)"
      by (intro utf8_from_4)
    moreover have "encode_char c @ s = ?a # ?b # ?c # ?d # s" using 4 by (simp add: encode_char_def)
    ultimately show ?thesis by metis
  qed
qed

lemma utf8_from_bytes: "\<forall>c \<in> set t. is_scalar c \<Longrightarrow> utf8_from i (utf8_bytes t) = Inr t"
proof (induction t arbitrary: i)
  case Nil
  then show ?case by (simp add: utf8_bytes_def)
next
  case (Cons c t)
  obtain n where "utf8_from i (encode_char c @ utf8_bytes t) =
      map_sum id (\<lambda>t. c # t) (utf8_from (i + n) (utf8_bytes t))"
    using utf8_from_encode_char [of c i "utf8_bytes t"] Cons.prems by auto
  with Cons show ?case by (simp add: utf8_bytes_def)
qed

lemma from_utf8_bytes [simp]: "\<forall>c \<in> set t. is_scalar c \<Longrightarrow> from_utf8 (utf8_bytes t) = Inr t"
  by (simp add: from_utf8_def utf8_from_bytes)

subsection \<open>Unsigned decimal numbers\<close>

fun parse_digits :: "nat \<Rightarrow> utext \<Rightarrow> nat option" where
  "parse_digits acc [] = Some acc"
| "parse_digits acc (c # cs) =
     (if 48 \<le> c \<and> c \<le> 57 then
        let acc = acc * 10 + (c - 48) in if acc > u64_max then None else parse_digits acc cs
      else None)"

definition parse_u64 :: "utext \<Rightarrow> nat option" where
  "parse_u64 s =
     (case s of
        [] \<Rightarrow> None
      | c # cs \<Rightarrow> if c = 43 then (if cs = [] then None else parse_digits 0 cs) else parse_digits 0 s)"

section \<open>The parser\<close>

record sse_event =
  ev_event :: utext
  ev_data :: utext
  ev_id :: "utext option"
  ev_retry :: "nat option"

record sse_parser =
  sp_buffer :: bytes
  sp_last_event_id :: "utext option"

definition sse_new :: sse_parser where
  "sse_new = \<lparr>sp_buffer = [], sp_last_event_id = None\<rparr>"

text \<open>The field names and the default event name, as bytes and as text.\<close>

definition b_event :: bytes where "b_event = [101, 118, 101, 110, 116]"
definition b_data :: bytes where "b_data = [100, 97, 116, 97]"
definition b_id :: bytes where "b_id = [105, 100]"
definition b_retry :: bytes where "b_retry = [114, 101, 116, 114, 121]"
definition u_message :: utext where "u_message = [109, 101, 115, 115, 97, 103, 101]"

text \<open>The locals of \<open>parse_frame\<close>.\<close>

record frame_state =
  fs_event :: "utext option"
  fs_data :: utext
  fs_id :: "utext option"
  fs_retry :: "nat option"

definition frame_start :: frame_state where
  "frame_start = \<lparr>fs_event = None, fs_data = [], fs_id = None, fs_retry = None\<rparr>"

definition strip_space :: "bytes \<Rightarrow> bytes" where
  "strip_space v = (case v of c # r \<Rightarrow> if c = 32 then r else v | [] \<Rightarrow> v)"

definition invalid_field :: "string \<Rightarrow> utf8_error \<Rightarrow> cuca_error" where
  "invalid_field name e =
     ErrSseParse (name @ '' field is not valid UTF-8: '' @ utf8_error_display e)"

definition frame_field :: "bytes \<Rightarrow> bytes \<Rightarrow> frame_state \<Rightarrow> cuca_error + frame_state" where
  "frame_field field v f =
     (if field = b_event then
        (case from_utf8 v of
           Inl e \<Rightarrow> Inl (invalid_field ''event'' e)
         | Inr s \<Rightarrow> Inr (f\<lparr>fs_event := Some s\<rparr>))
      else if field = b_data then
        (case from_utf8 v of
           Inl e \<Rightarrow> Inl (invalid_field ''data'' e)
         | Inr s \<Rightarrow>
             Inr (f\<lparr>fs_data := (if fs_data f \<noteq> [] then fs_data f @ [10] else fs_data f) @ s\<rparr>))
      else if field = b_id then
        (case from_utf8 v of
           Inl e \<Rightarrow> Inl (invalid_field ''id'' e)
         | Inr s \<Rightarrow> if s \<noteq> [] \<and> 0 \<notin> set s then Inr (f\<lparr>fs_id := Some s\<rparr>) else Inr f)
      else if field = b_retry then
        (case from_utf8 v of
           Inr s \<Rightarrow> Inr (f\<lparr>fs_retry := parse_u64 (trim s)\<rparr>)
         | Inl e \<Rightarrow> Inr f)
      else Inr f)"

definition frame_line :: "bytes \<Rightarrow> frame_state \<Rightarrow> cuca_error + frame_state" where
  "frame_line line f =
     (case memchr 58 line of
        Some sep \<Rightarrow> frame_field (take sep line) (strip_space (drop (sep + 1) line)) f
      | None \<Rightarrow> Inr f)"

definition strip_cr :: "bytes \<Rightarrow> bytes" where
  "strip_cr line = (if line \<noteq> [] \<and> last line = 13 then butlast line else line)"

text \<open>The loop over the lines of a frame; the argument is what is left of it.\<close>

lemma memchr_Some: "memchr b s = Some i \<Longrightarrow> i < length s \<and> s ! i = b \<and> b \<notin> set (take i s)"
  using position_Some [of "\<lambda>x. x = b" s i] by (auto simp: memchr_def in_set_conv_nth)

function frame_lines :: "bytes \<Rightarrow> frame_state \<Rightarrow> cuca_error + frame_state" where
  "frame_lines rest f =
     (case memchr 10 rest of
        None \<Rightarrow> Inr f
      | Some nl \<Rightarrow>
          (case frame_line (strip_cr (take nl rest)) f of
             Inl e \<Rightarrow> Inl e
           | Inr f \<Rightarrow> frame_lines (drop (nl + 1) rest) f))"
  by pat_completeness auto

termination
  by (relation "measure (\<lambda>(rest, f). length rest)") (auto dest: memchr_Some)

declare frame_lines.simps [simp del]

definition parse_frame ::
    "utext option \<Rightarrow> bytes \<Rightarrow> cuca_error + (sse_event \<times> utext option)" where
  "parse_frame last_id frame =
     (case frame_lines frame frame_start of
        Inl e \<Rightarrow> Inl e
      | Inr f \<Rightarrow> Inr
          (\<lparr>ev_event = (case fs_event f of Some s \<Rightarrow> s | None \<Rightarrow> u_message),
            ev_data = fs_data f,
            ev_id = (case fs_id f of Some i \<Rightarrow> Some i | None \<Rightarrow> last_id),
            ev_retry = fs_retry f\<rparr>,
           fs_id f))"

definition is_blank :: "bytes \<Rightarrow> bool" where
  "is_blank line \<longleftrightarrow> line = [] \<or> (length line = 1 \<and> line ! 0 = 13)"

text \<open>
  The loop of \<open>feed_chunk\<close> over the buffer from the scan cursor. An error leaves the parser as
  it was when the bad frame was met, and the events of the call are dropped.
\<close>

function feed_loop ::
    "sse_parser \<Rightarrow> nat \<Rightarrow> sse_event list \<Rightarrow> (cuca_error + sse_event list) \<times> sse_parser" where
  "feed_loop p scan events =
     (case memchr 10 (drop scan (sp_buffer p)) of
        None \<Rightarrow> (Inr events, p)
      | Some rel \<Rightarrow>
          let newline = scan + rel;
              line = drop scan (take newline (sp_buffer p))
          in if is_blank line then
               (case parse_frame (sp_last_event_id p) (take scan (sp_buffer p)) of
                  Inl e \<Rightarrow> (Inl e, p)
                | Inr (ev, frame_id) \<Rightarrow>
                    feed_loop
                      \<lparr>sp_buffer = drop (newline + 1) (sp_buffer p),
                       sp_last_event_id =
                         (case frame_id of Some i \<Rightarrow> Some i | None \<Rightarrow> sp_last_event_id p)\<rparr>
                      0 (events @ [ev]))
             else feed_loop p (newline + 1) events)"
  by pat_completeness auto

termination
proof (relation "measure (\<lambda>(p, scan, events). length (sp_buffer p) - scan)", goal_cases)
  case (2 p scan events rel newline line r ev frame_id)
  with memchr_Some [OF 2(1)] have "rel < length (sp_buffer p) - scan" by simp
  with 2 show ?case by simp
next
  case (3 p scan events rel newline line)
  with memchr_Some [OF 3(1)] have "rel < length (sp_buffer p) - scan" by simp
  with 3 show ?case by simp
qed simp

declare feed_loop.simps [simp del]

definition feed_chunk :: "sse_parser \<Rightarrow> bytes \<Rightarrow> (cuca_error + sse_event list) \<times> sse_parser" where
  "feed_chunk p chunk = feed_loop (p\<lparr>sp_buffer := sp_buffer p @ chunk\<rparr>) 0 []"

text \<open>A stream of chunks: what the adapters do with the frames, up to the first error.\<close>

fun feed_all :: "sse_parser \<Rightarrow> bytes list \<Rightarrow> (cuca_error + sse_event list) \<times> sse_parser" where
  "feed_all p [] = (Inr [], p)"
| "feed_all p (c # cs) =
     (case feed_chunk p c of
        (Inl e, p) \<Rightarrow> (Inl e, p)
      | (Inr evs, p) \<Rightarrow>
          (case feed_all p cs of
             (Inl e, p) \<Rightarrow> (Inl e, p)
           | (Inr later, p) \<Rightarrow> (Inr (evs @ later), p)))"

section \<open>Chunks do not matter\<close>

abbreviation extend :: "sse_parser \<Rightarrow> bytes \<Rightarrow> sse_parser" where
  "extend p c \<equiv> p\<lparr>sp_buffer := sp_buffer p @ c\<rparr>"

lemma position_append:
  "position P xs = Some i \<Longrightarrow> position P (xs @ ys) = Some i"
  by (induction xs arbitrary: i) auto

lemma memchr_append: "memchr b s = Some i \<Longrightarrow> memchr b (s @ t) = Some i"
  by (simp add: memchr_def position_append)

lemma extend_simps:
  "sp_buffer (extend p c) = sp_buffer p @ c"
  "sp_last_event_id (extend p c) = sp_last_event_id p"
  by simp_all

text \<open>The line found at the cursor is the same after more bytes have arrived.\<close>

lemma line_found:
  assumes "memchr 10 (drop scan s) = Some rel"
  shows "memchr 10 (drop scan (s @ t)) = Some rel"
    and "take (scan + rel) (s @ t) = take (scan + rel) s"
    and "take scan (s @ t) = take scan s"
    and "drop (scan + rel + 1) (s @ t) = drop (scan + rel + 1) s @ t"
proof -
  have rel: "rel < length s - scan" using memchr_Some [OF assms] by simp
  with memchr_append [OF assms, of t] show "memchr 10 (drop scan (s @ t)) = Some rel" by simp
  from rel show "take (scan + rel) (s @ t) = take (scan + rel) s"
    "take scan (s @ t) = take scan s"
    "drop (scan + rel + 1) (s @ t) = drop (scan + rel + 1) s @ t" by simp_all
qed

text \<open>The cursor positions reached by scanning past lines that are not blank.\<close>

inductive scanned :: "bytes \<Rightarrow> nat \<Rightarrow> bool" for s :: bytes where
  scanned_start: "scanned s 0"
| scanned_line: "scanned s scan \<Longrightarrow> memchr 10 (drop scan s) = Some rel \<Longrightarrow>
    \<not> is_blank (drop scan (take (scan + rel) s)) \<Longrightarrow> scanned s (scan + rel + 1)"

lemma feed_loop_skip:
  assumes "memchr 10 (drop scan (sp_buffer p)) = Some rel"
    and "\<not> is_blank (drop scan (take (scan + rel) (sp_buffer p)))"
  shows "feed_loop p scan evs = feed_loop p (scan + rel + 1) evs"
  using assms by (subst feed_loop.simps) (simp add: Let_def)

lemma scanned_extend: "scanned s scan \<Longrightarrow> scanned (s @ t) scan"
proof (induction rule: scanned.induct)
  case (scanned_line scan rel)
  note f = line_found [OF scanned_line.hyps(2), where t = t]
  show ?case
    by (rule scanned.scanned_line [OF scanned_line.IH f(1)])
      (simp only: f(2) scanned_line.hyps(3) not_False_eq_True)
qed (rule scanned_start)

lemma feed_loop_scanned:
  "scanned (sp_buffer p) scan \<Longrightarrow> feed_loop p 0 evs = feed_loop p scan evs"
proof (induction scan rule: scanned.induct)
  case (scanned_line scan rel)
  then show ?case using feed_loop_skip by metis
qed (rule refl)

text \<open>What one step of the loop does, as the three cases the proofs distinguish.\<close>

definition next_parser :: "sse_parser \<Rightarrow> nat \<Rightarrow> utext option \<Rightarrow> sse_parser" where
  "next_parser p newline fid =
     \<lparr>sp_buffer = drop (newline + 1) (sp_buffer p),
      sp_last_event_id = (case fid of Some i \<Rightarrow> Some i | None \<Rightarrow> sp_last_event_id p)\<rparr>"

lemma feed_loop_stop:
  "memchr 10 (drop scan (sp_buffer p)) = None \<Longrightarrow> feed_loop p scan evs = (Inr evs, p)"
  by (subst feed_loop.simps) simp

lemma feed_loop_bad:
  assumes "memchr 10 (drop scan (sp_buffer p)) = Some rel"
    and "is_blank (drop scan (take (scan + rel) (sp_buffer p)))"
    and "parse_frame (sp_last_event_id p) (take scan (sp_buffer p)) = Inl e"
  shows "feed_loop p scan evs = (Inl e, p)"
  using assms by (subst feed_loop.simps) (simp add: Let_def)

lemma feed_loop_frame:
  assumes "memchr 10 (drop scan (sp_buffer p)) = Some rel"
    and "is_blank (drop scan (take (scan + rel) (sp_buffer p)))"
    and "parse_frame (sp_last_event_id p) (take scan (sp_buffer p)) = Inr (ev, fid)"
  shows "feed_loop p scan evs = feed_loop (next_parser p (scan + rel) fid) 0 (evs @ [ev])"
  using assms by (subst feed_loop.simps) (simp add: Let_def next_parser_def)

lemma feed_loop_induct [case_names stop skip bad frame]:
  assumes stop: "\<And>p scan evs. memchr 10 (drop scan (sp_buffer p)) = None \<Longrightarrow> P p scan evs"
    and skip: "\<And>p scan evs rel. memchr 10 (drop scan (sp_buffer p)) = Some rel \<Longrightarrow>
      \<not> is_blank (drop scan (take (scan + rel) (sp_buffer p))) \<Longrightarrow>
      P p (scan + rel + 1) evs \<Longrightarrow> P p scan evs"
    and bad: "\<And>p scan evs rel e. memchr 10 (drop scan (sp_buffer p)) = Some rel \<Longrightarrow>
      is_blank (drop scan (take (scan + rel) (sp_buffer p))) \<Longrightarrow>
      parse_frame (sp_last_event_id p) (take scan (sp_buffer p)) = Inl e \<Longrightarrow> P p scan evs"
    and frame: "\<And>p scan evs rel ev fid. memchr 10 (drop scan (sp_buffer p)) = Some rel \<Longrightarrow>
      is_blank (drop scan (take (scan + rel) (sp_buffer p))) \<Longrightarrow>
      parse_frame (sp_last_event_id p) (take scan (sp_buffer p)) = Inr (ev, fid) \<Longrightarrow>
      P (next_parser p (scan + rel) fid) 0 (evs @ [ev]) \<Longrightarrow> P p scan evs"
  shows "P p scan evs"
proof (induction p scan evs rule: feed_loop.induct)
  case (1 p scan evs)
  show ?case
  proof (cases "memchr 10 (drop scan (sp_buffer p))")
    case None
    then show ?thesis by (rule stop)
  next
    case (Some rel)
    show ?thesis
    proof (cases "is_blank (drop scan (take (scan + rel) (sp_buffer p)))")
      case False
      from 1(2) [OF Some refl refl False] show ?thesis by (rule skip [OF Some False])
    next
      case True
      show ?thesis
      proof (cases "parse_frame (sp_last_event_id p) (take scan (sp_buffer p))")
        case (Inl e)
        with Some True show ?thesis by (rule bad)
      next
        case (Inr r)
        obtain ev fid where r: "r = (ev, fid)" by (cases r)
        have pf: "parse_frame (sp_last_event_id p) (take scan (sp_buffer p)) = Inr (ev, fid)"
          using Inr r by simp
        from 1(1) [OF Some refl refl True Inr r [symmetric]]
        have "P (next_parser p (scan + rel) fid) 0 (evs @ [ev])" by (simp add: next_parser_def)
        then show ?thesis by (rule frame [OF Some True pf])
      qed
    qed
  qed
qed

definition add_events ::
    "sse_event list \<Rightarrow> ('e + sse_event list) \<times> sse_parser \<Rightarrow> ('e + sse_event list) \<times> sse_parser" where
  "add_events pre r = (map_sum id (\<lambda>evs. pre @ evs) (fst r), snd r)"

lemma feed_loop_events: "feed_loop p scan (pre @ evs) = add_events pre (feed_loop p scan evs)"
proof (induction p scan evs rule: feed_loop_induct)
  case (stop p scan evs)
  then show ?case by (simp add: feed_loop_stop add_events_def)
next
  case (skip p scan evs rel)
  then show ?case by (simp add: feed_loop_skip [OF skip(1,2)])
next
  case (bad p scan evs rel e)
  then show ?case by (simp add: feed_loop_bad [OF bad(1-3)] add_events_def)
next
  case (frame p scan evs rel ev fid)
  then show ?case by (simp add: feed_loop_frame [OF frame(1-3)])
qed

text \<open>More bytes after the loop has stopped are as good as more bytes before it starts.\<close>

lemma feed_loop_extend:
  "scanned (sp_buffer p) scan \<Longrightarrow>
     (case feed_loop p scan evs of
        (Inl e, q) \<Rightarrow> fst (feed_loop (extend p c) scan evs) = Inl e
      | (Inr evs', q) \<Rightarrow>
          feed_loop (extend p c) scan evs = feed_loop (extend q c) 0 evs' \<and>
          feed_loop q 0 [] = (Inr [], q))"
proof (induction p scan evs rule: feed_loop_induct)
  case (stop p scan evs)
  have "feed_loop p 0 [] = (Inr [], p)"
    using feed_loop_scanned [OF stop(2)] feed_loop_stop [OF stop(1)] by simp
  moreover have "feed_loop (extend p c) 0 evs = feed_loop (extend p c) scan evs"
    by (rule feed_loop_scanned) (simp add: scanned_extend [OF stop(2)])
  ultimately show ?case by (simp add: feed_loop_stop [OF stop(1)])
next
  case (skip p scan evs rel)
  note f = line_found [OF skip(1), where t = c]
  have "feed_loop (extend p c) scan evs = feed_loop (extend p c) (scan + rel + 1) evs"
    by (rule feed_loop_skip [where rel = rel]) (simp_all only: extend_simps f skip(2) not_False_eq_True)
  with skip(3) [OF scanned_line [OF skip(4,1,2)]] show ?case
    by (simp only: feed_loop_skip [OF skip(1,2)])
next
  case (bad p scan evs rel e)
  note f = line_found [OF bad(1), where t = c]
  have "feed_loop (extend p c) scan evs = (Inl e, extend p c)"
    by (rule feed_loop_bad [where rel = rel]) (simp_all only: extend_simps f bad(2,3))
  then show ?case by (simp add: feed_loop_bad [OF bad(1-3)])
next
  case (frame p scan evs rel ev fid)
  note f = line_found [OF frame(1), where t = c]
  have "next_parser (extend p c) (scan + rel) fid = extend (next_parser p (scan + rel) fid) c"
    unfolding next_parser_def extend_simps f(4) by simp
  moreover have "feed_loop (extend p c) scan evs =
      feed_loop (next_parser (extend p c) (scan + rel) fid) 0 (evs @ [ev])"
    by (rule feed_loop_frame [where rel = rel]) (simp_all only: extend_simps f frame(2,3))
  ultimately show ?case
    using frame(4) [OF scanned_start] by (simp only: feed_loop_frame [OF frame(1-3)])
qed

definition settled :: "sse_parser \<Rightarrow> bool" where
  "settled p \<longleftrightarrow> feed_loop p 0 [] = (Inr [], p)"

lemma settled_new: "settled sse_new"
  by (simp add: settled_def sse_new_def feed_loop_stop memchr_def)

lemma feed_chunk_settled: "feed_chunk p c = (Inr evs, q) \<Longrightarrow> settled q"
  using feed_loop_extend [where p = "extend p c" and scan = 0 and evs = "[]" and c = "[]"] scanned_start
  by (simp add: feed_chunk_def settled_def)

lemma feed_chunk_append:
  shows "feed_chunk p c = (Inl e, q) \<Longrightarrow> fst (feed_chunk p (c @ d)) = Inl e"
    and "feed_chunk p c = (Inr evs, q) \<Longrightarrow> feed_chunk p (c @ d) = add_events evs (feed_chunk q d)"
proof -
  have e: "extend p (c @ d) = extend (extend p c) d" by simp
  note ext = feed_loop_extend [where p = "extend p c" and scan = 0 and evs = "[]" and c = d]
  show "feed_chunk p c = (Inl e, q) \<Longrightarrow> fst (feed_chunk p (c @ d)) = Inl e"
    using ext scanned_start by (simp add: feed_chunk_def)
  assume "feed_chunk p c = (Inr evs, q)"
  with ext scanned_start have "feed_chunk p (c @ d) = feed_loop (extend q d) 0 (evs @ [])"
    by (simp add: feed_chunk_def)
  then show "feed_chunk p (c @ d) = add_events evs (feed_chunk q d)"
    by (simp only: feed_loop_events feed_chunk_def)
qed

text \<open>
C18: How the network splits the stream does not matter: feeding the chunks one after the other
gives the frames, or the error, that feeding all the bytes at once gives, and without an error
the same parser. Multi-byte characters, line ends and frames may be split anywhere.
\<close>
theorem chunks_do_not_matter:
  assumes "settled p"
  shows "fst (feed_all p cs) = fst (feed_chunk p (concat cs)) \<and>
    (\<forall>evs. fst (feed_all p cs) = Inr evs \<longrightarrow> feed_all p cs = feed_chunk p (concat cs))"
  using assms
proof (induction cs arbitrary: p)
  case Nil
  then show ?case by (simp add: settled_def feed_chunk_def)
next
  case (Cons c cs)
  obtain r q where c: "feed_chunk p c = (r, q)" by (cases "feed_chunk p c")
  show ?case
  proof (cases r)
    case (Inl e)
    with c have "fst (feed_chunk p (c @ concat cs)) = Inl e" by (intro feed_chunk_append(1)) simp
    with c Inl show ?thesis by simp
  next
    case (Inr evs)
    with c have "settled q" by (auto intro: feed_chunk_settled)
    note IH = Cons.IH [OF this]
    have all: "feed_chunk p (c @ concat cs) = add_events evs (feed_chunk q (concat cs))"
      using c Inr by (intro feed_chunk_append(2)) simp
    have one: "feed_all p (c # cs) = add_events evs (feed_all q cs)"
      using c Inr by (auto simp: add_events_def split: prod.split sum.split)
    have "feed_all q cs = feed_chunk q (concat cs)" if "fst (add_events evs (feed_all q cs)) = Inr x" for x
    proof (cases "feed_all q cs")
      case (Pair r p')
      with that IH show ?thesis by (cases r) (auto simp: add_events_def)
    qed
    with IH all one show ?thesis by (simp add: add_events_def)
  qed
qed

theorem chunks_do_not_matter_witness:
  "fst (feed_all sse_new [[100, 97, 116], [97, 58, 195], [169, 10], [10]]) =
     fst (feed_chunk sse_new [100, 97, 116, 97, 58, 195, 169, 10, 10])"
  using chunks_do_not_matter [OF settled_new, of "[[100, 97, 116], [97, 58, 195], [169, 10], [10]]"]
  by simp

section \<open>What a server sends is what is parsed\<close>

text \<open>The wire form of a frame: one line per field, the texts encoded, a blank line at the end.\<close>

definition wire_line :: "bytes \<times> utext \<Rightarrow> bytes" where
  "wire_line fv = fst fv @ [58, 32] @ utf8_bytes (snd fv)"

definition wire_lines :: "(bytes \<times> utext) list \<Rightarrow> bytes" where
  "wire_lines fvs = concat (map (\<lambda>fv. wire_line fv @ [10]) fvs)"

definition nat_text :: "nat \<Rightarrow> utext" where
  "nat_text n = map of_char (show_nat n)"

definition frame_fields ::
    "utext \<Rightarrow> utext list \<Rightarrow> utext option \<Rightarrow> nat option \<Rightarrow> (bytes \<times> utext) list" where
  "frame_fields name data eid retry =
     [(b_event, name)] @ map (\<lambda>d. (b_data, d)) data @
     (case eid of Some i \<Rightarrow> [(b_id, i)] | None \<Rightarrow> []) @
     (case retry of Some n \<Rightarrow> [(b_retry, nat_text n)] | None \<Rightarrow> [])"

definition join_lines :: "utext list \<Rightarrow> utext" where
  "join_lines ls = (case ls of [] \<Rightarrow> [] | l # ls \<Rightarrow> l @ concat (map (\<lambda>x. 10 # x) ls))"

definition clean :: "utext \<Rightarrow> bool" where
  "clean t \<longleftrightarrow> (\<forall>c \<in> set t. is_scalar c \<and> c \<noteq> 10 \<and> c \<noteq> 13)"

subsection \<open>Numbers\<close>

lemma parse_digits_append:
  "parse_digits acc (xs @ ys) =
     (case parse_digits acc xs of None \<Rightarrow> None | Some a \<Rightarrow> parse_digits a ys)"
  by (induction xs arbitrary: acc) (simp_all add: Let_def)

lemma nat_text_simps:
  "nat_text n = (if n < 10 then [48 + n] else nat_text (n div 10) @ [48 + n mod 10])"
  unfolding nat_text_def by (subst show_nat.simps) simp

lemma nat_text_digits: "\<forall>c \<in> set (nat_text n). 48 \<le> c \<and> c \<le> 57"
proof (induction n rule: show_nat.induct)
  case (1 n)
  then show ?case by (subst nat_text_simps) auto
qed

lemma nat_text_not_Nil: "nat_text n \<noteq> []"
  by (subst nat_text_simps) simp

lemma parse_digits_nat_text: "n \<le> u64_max \<Longrightarrow> parse_digits 0 (nat_text n) = Some n"
proof (induction n rule: show_nat.induct)
  case (1 n)
  show ?case
  proof (cases "n < 10")
    case True
    then show ?thesis using 1(2) by (subst nat_text_simps) (simp add: u64_max_def)
  next
    case False
    with 1 have "parse_digits 0 (nat_text (n div 10)) = Some (n div 10)" by simp
    moreover have "n div 10 * 10 + n mod 10 = n" by simp
    ultimately show ?thesis using False 1(2)
      by (subst nat_text_simps) (simp add: parse_digits_append)
  qed
qed

lemma trim_id: "\<forall>c \<in> set t. \<not> is_white_space c \<Longrightarrow> trim t = t"
proof -
  assume t: "\<forall>c \<in> set t. \<not> is_white_space c"
  have "dropWhile is_white_space s = s" if "\<forall>c \<in> set s. \<not> is_white_space c" for s
    using that by (cases s) auto
  from this [of t] this [of "rev t"] t show ?thesis by (simp add: trim_def)
qed

lemma parse_u64_nat_text: "n \<le> u64_max \<Longrightarrow> parse_u64 (trim (nat_text n)) = Some n"
proof -
  assume n: "n \<le> u64_max"
  have d: "\<forall>c \<in> set (nat_text n). 48 \<le> c \<and> c \<le> 57" by (rule nat_text_digits)
  then have "trim (nat_text n) = nat_text n"
    by (intro trim_id) (auto simp: is_white_space_def)
  moreover obtain c cs where c: "nat_text n = c # cs" using nat_text_not_Nil by (cases "nat_text n") auto
  moreover from c d have "c \<noteq> 43" by auto
  ultimately show ?thesis using parse_digits_nat_text [OF n] by (simp add: parse_u64_def)
qed

lemma clean_nat_text: "clean (nat_text n)"
  using nat_text_digits [of n] by (auto simp: clean_def is_scalar_def)

subsection \<open>Lines\<close>

lemma encode_char_bytes: "b \<in> set (encode_char c) \<Longrightarrow> b = c \<or> 128 \<le> b"
  by (auto simp: encode_char_def split: if_splits)

lemma clean_bytes: "clean t \<Longrightarrow> 10 \<notin> set (utf8_bytes t) \<and> 13 \<notin> set (utf8_bytes t)"
  by (auto simp: clean_def utf8_bytes_def dest: encode_char_bytes)

definition field_ok :: "bytes \<times> utext \<Rightarrow> bool" where
  "field_ok fv \<longleftrightarrow> fst fv \<in> {b_event, b_data, b_id, b_retry} \<and> clean (snd fv)"

lemmas field_names = b_event_def b_data_def b_id_def b_retry_def

lemma wire_line_ok:
  assumes "field_ok fv"
  shows "10 \<notin> set (wire_line fv)" and "strip_cr (wire_line fv) = wire_line fv"
    and "\<not> is_blank (wire_line fv)" and "frame_line (wire_line fv) f = frame_field (fst fv) (utf8_bytes (snd fv)) f"
proof -
  let ?n = "fst fv" and ?v = "utf8_bytes (snd fv)"
  have n: "10 \<notin> set ?n" "13 \<notin> set ?n" "58 \<notin> set ?n" "?n \<noteq> []"
    using assms by (auto simp: field_ok_def field_names)
  have v: "10 \<notin> set ?v" "13 \<notin> set ?v" using assms clean_bytes by (auto simp: field_ok_def)
  show "10 \<notin> set (wire_line fv)" using n v by (simp add: wire_line_def)
  have "13 \<notin> set (wire_line fv)" using n v by (simp add: wire_line_def)
  then have "last (wire_line fv) \<noteq> 13"
    using last_in_set [of "wire_line fv"] by (auto simp: wire_line_def)
  then show "strip_cr (wire_line fv) = wire_line fv" by (simp add: strip_cr_def)
  show "\<not> is_blank (wire_line fv)" by (simp add: is_blank_def wire_line_def)
  have "position (\<lambda>x. x = 58) (?n @ 58 # 32 # ?v) = Some (length ?n)"
    using n(3) by (induction ?n arbitrary: fv) (simp_all, force)
  then show "frame_line (wire_line fv) f = frame_field ?n ?v f"
    by (simp add: frame_line_def wire_line_def memchr_def strip_space_def)
qed

lemma memchr_line: "b \<notin> set l \<Longrightarrow> memchr b (l @ b # rest) = Some (length l)"
  unfolding memchr_def by (induction l) auto

lemma frame_lines_line:
  "10 \<notin> set l \<Longrightarrow> frame_lines (l @ 10 # rest) f =
     (case frame_line (strip_cr l) f of Inl e \<Rightarrow> Inl e | Inr f \<Rightarrow> frame_lines rest f)"
  by (subst frame_lines.simps) (simp add: memchr_line split: sum.split)

lemma frame_lines_Nil: "frame_lines [] f = Inr f"
  by (subst frame_lines.simps) (simp add: memchr_def)

text \<open>The fields of a frame applied in turn.\<close>

fun apply_fields :: "(bytes \<times> utext) list \<Rightarrow> frame_state \<Rightarrow> cuca_error + frame_state" where
  "apply_fields [] f = Inr f"
| "apply_fields (fv # fvs) f =
     (case frame_field (fst fv) (utf8_bytes (snd fv)) f of
        Inl e \<Rightarrow> Inl e | Inr f \<Rightarrow> apply_fields fvs f)"

lemma frame_lines_wire:
  "\<forall>fv \<in> set fvs. field_ok fv \<Longrightarrow> frame_lines (wire_lines fvs) f = apply_fields fvs f"
proof (induction fvs arbitrary: f)
  case Nil
  then show ?case by (simp add: wire_lines_def frame_lines_Nil)
next
  case (Cons fv fvs)
  then have ok: "field_ok fv" by simp
  have "wire_lines (fv # fvs) = wire_line fv @ 10 # wire_lines fvs"
    by (simp add: wire_lines_def)
  with Cons show ?case
    by (simp add: frame_lines_line wire_line_ok [OF ok] split: sum.split)
qed

lemma scanned_line_at:
  assumes "scanned (pre @ l @ 10 # rest) (length pre)" "10 \<notin> set l" "\<not> is_blank l"
  shows "scanned (pre @ l @ 10 # rest) (length (pre @ l @ [10]))"
  using scanned_line [OF assms(1), of "length l"] memchr_line [OF assms(2)] assms(3) by simp

lemma scanned_wire:
  "\<forall>fv \<in> set fvs. field_ok fv \<Longrightarrow> scanned (pre @ wire_lines fvs @ rest) (length pre) \<Longrightarrow>
     scanned (pre @ wire_lines fvs @ rest) (length (pre @ wire_lines fvs))"
proof (induction fvs arbitrary: pre)
  case Nil
  then show ?case by (simp add: wire_lines_def)
next
  case (Cons fv fvs)
  then have ok: "field_ok fv" by simp
  have w: "wire_lines (fv # fvs) = wire_line fv @ 10 # wire_lines fvs"
    by (simp add: wire_lines_def)
  have "scanned ((pre @ wire_line fv @ [10]) @ wire_lines fvs @ rest) (length (pre @ wire_line fv @ [10]))"
    using scanned_line_at [of pre "wire_line fv" "wire_lines fvs @ rest"] Cons.prems(2)
      wire_line_ok [OF ok] w by simp
  from Cons.IH [OF _ this] Cons.prems(1) show ?case by (simp add: w)
qed

lemma feed_wire:
  assumes "\<forall>fv \<in> set fvs. field_ok fv" and "sp_buffer p = []"
  shows "feed_chunk p (wire_lines fvs @ [10]) =
    (case parse_frame (sp_last_event_id p) (wire_lines fvs) of
       Inl e \<Rightarrow> (Inl e, extend p (wire_lines fvs @ [10]))
     | Inr (ev, fid) \<Rightarrow>
         (Inr [ev], \<lparr>sp_buffer = [],
            sp_last_event_id = (case fid of Some i \<Rightarrow> Some i | None \<Rightarrow> sp_last_event_id p)\<rparr>))"
proof -
  let ?w = "wire_lines fvs" and ?p = "extend p (wire_lines fvs @ [10])"
  have b: "sp_buffer ?p = ?w @ [10]" using assms(2) by simp
  have "scanned (?w @ [10]) (length ?w)"
    using scanned_wire [OF assms(1), of "[]" "[10]"] scanned_start by simp
  then have start: "feed_chunk p (?w @ [10]) = feed_loop ?p (length ?w) []"
    using feed_loop_scanned [of ?p "length ?w" "[]"] b by (simp only: feed_chunk_def)
  have m: "memchr 10 (drop (length ?w) (sp_buffer ?p)) = Some 0"
    using b by (simp add: memchr_def)
  have blank: "is_blank (drop (length ?w) (take (length ?w + 0) (sp_buffer ?p)))"
    using b by (simp add: is_blank_def)
  have fr: "take (length ?w) (sp_buffer ?p) = ?w" using b by simp
  show ?thesis
  proof (cases "parse_frame (sp_last_event_id p) ?w")
    case (Inl e)
    then show ?thesis using start feed_loop_bad [OF m blank, of e "[]"] fr by simp
  next
    case (Inr r)
    obtain ev fid where r: "r = (ev, fid)" by (cases r)
    have "feed_loop ?p (length ?w) [] = feed_loop (next_parser ?p (length ?w + 0) fid) 0 ([] @ [ev])"
      using Inr r fr by (intro feed_loop_frame [OF m blank]) simp
    also have "next_parser ?p (length ?w + 0) fid = \<lparr>sp_buffer = [],
        sp_last_event_id = (case fid of Some i \<Rightarrow> Some i | None \<Rightarrow> sp_last_event_id p)\<rparr>"
      using b by (cases fid) (simp_all add: next_parser_def)
    finally show ?thesis using start Inr r by (simp add: feed_loop_stop memchr_def)
  qed
qed

definition push_data :: "utext \<Rightarrow> utext \<Rightarrow> utext" where
  "push_data d s = (if d \<noteq> [] then d @ [10] else d) @ s"

lemma foldl_push_data:
  "d \<noteq> [] \<Longrightarrow> foldl push_data d ls = d @ concat (map (\<lambda>x. 10 # x) ls)"
  by (induction ls arbitrary: d) (simp_all add: push_data_def)

lemma foldl_push_data_start: "foldl push_data [] ls = join_lines (dropWhile (\<lambda>l. l = []) ls)"
proof (induction ls)
  case (Cons l ls)
  have "push_data [] l = l" by (simp add: push_data_def)
  with Cons show ?case by (simp add: foldl_push_data) (simp add: join_lines_def)
qed (simp add: join_lines_def)

lemma field_names_distinct: "b_data \<noteq> b_event" "b_id \<noteq> b_event" "b_id \<noteq> b_data"
  "b_retry \<noteq> b_event" "b_retry \<noteq> b_data" "b_retry \<noteq> b_id"
  by (simp_all add: field_names)

lemma frame_field_clean:
  assumes "clean v"
  shows "frame_field b_event (utf8_bytes v) f = Inr (f\<lparr>fs_event := Some v\<rparr>)"
    and "frame_field b_data (utf8_bytes v) f = Inr (f\<lparr>fs_data := push_data (fs_data f) v\<rparr>)"
    and "frame_field b_id (utf8_bytes v) f =
      Inr (if v \<noteq> [] \<and> 0 \<notin> set v then f\<lparr>fs_id := Some v\<rparr> else f)"
    and "frame_field b_retry (utf8_bytes v) f = Inr (f\<lparr>fs_retry := parse_u64 (trim v)\<rparr>)"
  using assms by (simp_all add: clean_def frame_field_def field_names_distinct push_data_def)

lemma apply_fields_append:
  "apply_fields (xs @ ys) f = (case apply_fields xs f of Inl e \<Rightarrow> Inl e | Inr f \<Rightarrow> apply_fields ys f)"
  by (induction xs arbitrary: f) (auto split: sum.split)

lemma apply_data:
  "\<forall>d \<in> set data. clean d \<Longrightarrow> apply_fields (map (\<lambda>d. (b_data, d)) data) f =
     Inr (f\<lparr>fs_data := foldl push_data (fs_data f) data\<rparr>)"
  by (induction data arbitrary: f) (simp_all add: frame_field_clean)

text \<open>
C19: What a frame becomes on the wire and back: feeding a parser with an empty buffer the lines of
an event name, data lines, an id and a retry delay, encoded in UTF-8 and ended by a blank line,
gives exactly one event, with that name and delay. Its data are the data lines joined by newlines,
after the empty lines before the first non-empty one are dropped, so they are not what was sent
when the first lines are empty. Its id is the one of the frame, or the last one remembered if the
frame has none; and it is the one remembered from then on.
\<close>
theorem frame_survives_the_wire:
  assumes "sp_buffer p = []" and "clean name" and "\<forall>d \<in> set data. clean d"
    and "\<forall>i. eid = Some i \<longrightarrow> clean i \<and> i \<noteq> [] \<and> 0 \<notin> set i"
    and "\<forall>n. retry = Some n \<longrightarrow> n \<le> u64_max"
  shows "feed_chunk p (wire_lines (frame_fields name data eid retry) @ [10]) =
    (let known = (case eid of Some i \<Rightarrow> Some i | None \<Rightarrow> sp_last_event_id p)
     in (Inr [\<lparr>ev_event = name, ev_data = join_lines (dropWhile (\<lambda>l. l = []) data),
               ev_id = known, ev_retry = retry\<rparr>],
         \<lparr>sp_buffer = [], sp_last_event_id = known\<rparr>))"
proof -
  let ?fvs = "frame_fields name data eid retry"
  have ok: "\<forall>fv \<in> set ?fvs. field_ok fv"
    using assms(2-5) clean_nat_text
    by (auto simp: frame_fields_def field_ok_def split: option.splits)
  have "apply_fields ?fvs frame_start = Inr
      \<lparr>fs_event = Some name, fs_data = join_lines (dropWhile (\<lambda>l. l = []) data), fs_id = eid,
       fs_retry = retry\<rparr>"
    using assms(2-5) clean_nat_text
    by (cases eid; cases retry)
      (simp_all add: frame_fields_def apply_fields_append frame_field_clean apply_data
        frame_start_def foldl_push_data_start parse_u64_nat_text)
  then have "parse_frame (sp_last_event_id p) (wire_lines ?fvs) =
      Inr (\<lparr>ev_event = name, ev_data = join_lines (dropWhile (\<lambda>l. l = []) data),
            ev_id = (case eid of Some i \<Rightarrow> Some i | None \<Rightarrow> sp_last_event_id p), ev_retry = retry\<rparr>,
           eid)"
    by (simp add: parse_frame_def frame_lines_wire [OF ok])
  then show ?thesis by (simp add: feed_wire [OF ok assms(1)] Let_def)
qed

theorem frame_survives_the_wire_witness:
  "feed_chunk sse_new (wire_lines (frame_fields [233] [[], [97], [], [98]] (Some [49]) (Some 250)) @ [10]) =
     (Inr [\<lparr>ev_event = [233], ev_data = [97, 10, 10, 98], ev_id = Some [49], ev_retry = Some 250\<rparr>],
      \<lparr>sp_buffer = [], sp_last_event_id = Some [49]\<rparr>)"
  using frame_survives_the_wire [of sse_new "[233]" "[[], [97], [], [98]]" "Some [49]" "Some 250"]
  by (simp add: sse_new_def clean_def is_scalar_def u64_max_def join_lines_def Let_def)

section \<open>A bad frame stays\<close>

lemma feed_loop_error:
  "scanned (sp_buffer p) scan \<Longrightarrow> feed_loop p scan evs = (Inl e, q) \<Longrightarrow>
     fst (feed_loop (extend q c) 0 evs') = Inl e"
proof (induction p scan evs rule: feed_loop_induct)
  case (stop p scan evs)
  then show ?case by (simp add: feed_loop_stop)
next
  case (skip p scan evs rel)
  from skip(5) have "feed_loop p (scan + rel + 1) evs = (Inl e, q)"
    by (simp only: feed_loop_skip [OF skip(1,2)])
  with skip(3) [OF scanned_line [OF skip(4,1,2)]] show ?case .
next
  case (bad p scan evs rel e')
  note f = line_found [OF bad(1), where t = c]
  have q: "q = p" "e' = e" using bad(5) by (simp_all add: feed_loop_bad [OF bad(1-3)])
  have "feed_loop (extend p c) 0 evs' = feed_loop (extend p c) scan evs'"
    by (rule feed_loop_scanned) (simp add: scanned_extend [OF bad(4)])
  also have "\<dots> = (Inl e', extend p c)"
    by (rule feed_loop_bad [where rel = rel]) (simp_all only: extend_simps f bad(2,3))
  finally show ?case by (simp add: q)
next
  case (frame p scan evs rel ev fid)
  from frame(6) have "feed_loop (next_parser p (scan + rel) fid) 0 (evs @ [ev]) = (Inl e, q)"
    by (simp only: feed_loop_frame [OF frame(1-3)])
  with frame(4) [OF scanned_start] show ?case .
qed

text \<open>
  A bad frame is final: once a chunk has been answered by an error, the frame that caused it
stays at the front of the buffer, and every later chunk is answered by the same error.
\<close>
theorem bad_frame_stays:
  assumes "feed_chunk p c = (Inl e, q)"
  shows "fst (feed_chunk q d) = Inl e"
  using feed_loop_error [of "extend p c" 0 "[]" e q d "[]"] assms scanned_start
  by (simp add: feed_chunk_def)

theorem bad_frame_stays_witness:
  "\<exists>e. fst (feed_chunk (snd (feed_chunk sse_new [100, 97, 116, 97, 58, 255, 10, 10])) [100]) = Inl e"
proof -
  obtain e q where eq: "feed_chunk sse_new [100, 97, 116, 97, 58, 255, 10, 10] = (Inl e, q)"
    by (simp add: feed_chunk_def sse_new_def feed_loop.simps memchr_def is_blank_def parse_frame_def
        frame_lines.simps strip_cr_def frame_line_def strip_space_def frame_field_def field_names
        from_utf8_def Let_def)
  from bad_frame_stays [OF eq, of "[100]"] show ?thesis by (simp add: eq)
qed

end
