(* ===== verification/Request.thy ===== *)
theory Request
  imports Wire_Types Float64
begin

text \<open>
  \<open>src/request.rs\<close>: the normalized request and response every provider adapter and plugin
  works on, and the request's builder methods. \<open>'j\<close> is the type of JSON values.
\<close>

datatype thinking_effort = EffortMinimal | EffortLow | EffortMedium | EffortHigh | EffortXHigh

datatype thinking_params =
    ParamsNone
  | ParamsAnthropic "nat option" bool
  | ParamsGemini "nat option" "string option"
  | ParamsOpenAi "string option"

record thinking_config =
  tc_enabled :: bool
  tc_effort :: "thinking_effort option"
  tc_params :: thinking_params

definition thinking_default :: thinking_config where
  "thinking_default = \<lparr>tc_enabled = True, tc_effort = None, tc_params = ParamsNone\<rparr>"

definition thinking_disabled :: thinking_config where
  "thinking_disabled = \<lparr>tc_enabled = False, tc_effort = None, tc_params = ParamsNone\<rparr>"

definition thinking_with_effort :: "thinking_effort \<Rightarrow> thinking_config" where
  "thinking_with_effort effort =
     \<lparr>tc_enabled = True, tc_effort = Some effort, tc_params = ParamsNone\<rparr>"

record cache_breakpoint =
  cb_message_index :: nat
  cb_block_index :: nat

datatype prompt_cache_directive = CacheDisabled | CacheEphemeral "cache_breakpoint list"

record prompt_cache_usage =
  pu_read_tokens :: nat
  pu_write_tokens :: nat

record 'j unified_request =
  rq_model :: string
  rq_provider :: provider_endpoint
  rq_messages :: "'j unified_message list"
  rq_temperature :: "f32 option"
  rq_max_tokens :: "nat option"
  rq_stream :: bool
  rq_thinking :: "thinking_config option"
  rq_tools :: "'j tool_definition list"
  rq_prompt_cache :: prompt_cache_directive

record 'j unified_response =
  rs_model :: string
  rs_provider :: provider_endpoint
  rs_duration_secs :: f64
  rs_prompt_tokens :: nat
  rs_completion_tokens :: nat
  rs_finish_reason :: "string option"
  rs_content :: "'j content_block list"
  rs_prompt_cache_usage :: "prompt_cache_usage option"
  rs_usage :: "token_usage option"

definition request_new :: "string \<Rightarrow> 'j unified_request" where
  "request_new model =
     \<lparr>rq_model = model, rq_provider = CustomEndpoint [], rq_messages = [], rq_temperature = None,
      rq_max_tokens = None, rq_stream = True, rq_thinking = None, rq_tools = [],
      rq_prompt_cache = CacheDisabled\<rparr>"

definition add_tool :: "'j tool_definition \<Rightarrow> 'j unified_request \<Rightarrow> 'j unified_request" where
  "add_tool tool r = r\<lparr>rq_tools := rq_tools r @ [tool]\<rparr>"

definition with_prompt_cache ::
    "prompt_cache_directive \<Rightarrow> 'j unified_request \<Rightarrow> 'j unified_request" where
  "with_prompt_cache d r = r\<lparr>rq_prompt_cache := d\<rparr>"

definition add_message :: "'j unified_message \<Rightarrow> 'j unified_request \<Rightarrow> 'j unified_request" where
  "add_message msg r = r\<lparr>rq_messages := rq_messages r @ [msg]\<rparr>"

definition add_system_message :: "utext \<Rightarrow> 'j unified_request \<Rightarrow> 'j unified_request" where
  "add_system_message t = add_message (message_system t)"

definition add_user_message :: "utext \<Rightarrow> 'j unified_request \<Rightarrow> 'j unified_request" where
  "add_user_message t = add_message (message_user t)"

definition set_temperature :: "f32 \<Rightarrow> 'j unified_request \<Rightarrow> 'j unified_request" where
  "set_temperature t r = r\<lparr>rq_temperature := Some t\<rparr>"

definition set_max_tokens :: "nat \<Rightarrow> 'j unified_request \<Rightarrow> 'j unified_request" where
  "set_max_tokens n r = r\<lparr>rq_max_tokens := Some n\<rparr>"

definition with_stream :: "bool \<Rightarrow> 'j unified_request \<Rightarrow> 'j unified_request" where
  "with_stream b r = r\<lparr>rq_stream := b\<rparr>"

definition with_thinking :: "thinking_config \<Rightarrow> 'j unified_request \<Rightarrow> 'j unified_request" where
  "with_thinking t r = r\<lparr>rq_thinking := Some t\<rparr>"

definition enable_thinking ::
    "thinking_effort option \<Rightarrow> 'j unified_request \<Rightarrow> 'j unified_request" where
  "enable_thinking effort r =
     r\<lparr>rq_thinking := Some \<lparr>tc_enabled = True, tc_effort = effort, tc_params = ParamsNone\<rparr>\<rparr>"

definition disable_thinking :: "'j unified_request \<Rightarrow> 'j unified_request" where
  "disable_thinking r = r\<lparr>rq_thinking := Some thinking_disabled\<rparr>"

definition message_count :: "'j unified_request \<Rightarrow> nat" where
  "message_count r = length (rq_messages r)"

end
