(* ===== verification/Canonical.thy ===== *)
theory Canonical
  imports Wire_Types "HOL-Library.List_Lexorder"
begin

text \<open>
  \<open>src/canonical.rs\<close>: the canonical form of a JSON value, every object's entries in the order
  of their keys. A value is \<open>serde_json::Value\<close>: an object is the list of its entries as its map
  iterates them, with distinct keys; \<open>'n\<close> stands for \<open>serde_json::Number\<close>. The JSON writer is a
  parameter.
\<close>

section \<open>Values and their canonical form\<close>

datatype 'n json =
    JNull
  | JBool bool
  | JNumber 'n
  | JString utext
  | JArray "'n json list"
  | JObject "(utext \<times> 'n json) list"

lemma size_entry: "e \<in> set m \<Longrightarrow> size (snd e) < size (JObject m)"
  by (induction m) (auto simp: size_prod_simp)

text \<open>\<open>String\<close> orders by bytes, which for UTF-8 is the lexicographic order of the code points.\<close>

function sorted_keys :: "'n json \<Rightarrow> 'n json" where
  "sorted_keys (JObject m) =
     JObject (map (\<lambda>e. (fst e, sorted_keys (snd e))) (sort_key fst m))"
| "sorted_keys (JArray items) = JArray (map sorted_keys items)"
| "sorted_keys JNull = JNull"
| "sorted_keys (JBool b) = JBool b"
| "sorted_keys (JNumber n) = JNumber n"
| "sorted_keys (JString s) = JString s"
  by pat_completeness auto

termination
  by (relation "measure size") (auto simp: size_entry less_Suc_eq_le size_list_estimation')

definition canonical_value :: "('n json \<Rightarrow> string) \<Rightarrow> 'n json \<Rightarrow> string" where
  "canonical_value to_string v = to_string (sorted_keys v)"

section \<open>The value a JSON text denotes\<close>

text \<open>A JSON object denotes a finite map, whatever the order of its entries.\<close>

datatype 'n jvalue =
    VNull
  | VBool bool
  | VNumber 'n
  | VString utext
  | VArray "'n jvalue list"
  | VObject "utext \<Rightarrow> 'n jvalue option"

fun meaning :: "'n json \<Rightarrow> 'n jvalue" where
  "meaning JNull = VNull"
| "meaning (JBool b) = VBool b"
| "meaning (JNumber n) = VNumber n"
| "meaning (JString s) = VString s"
| "meaning (JArray items) = VArray (map meaning items)"
| "meaning (JObject m) = VObject (map_of (map (\<lambda>e. (fst e, meaning (snd e))) m))"

fun distinct_keys :: "'n json \<Rightarrow> bool" where
  "distinct_keys (JArray items) \<longleftrightarrow> (\<forall>v \<in> set items. distinct_keys v)"
| "distinct_keys (JObject m) \<longleftrightarrow> distinct (map fst m) \<and> (\<forall>e \<in> set m. distinct_keys (snd e))"
| "distinct_keys _ \<longleftrightarrow> True"

lemma keys_sort_key: "map fst (sort_key fst m) = sort (map fst m)"
  by (rule properties_for_sort [symmetric]) simp_all

lemma sort_key_map_of:
  assumes "distinct (map fst m)"
  shows "sort_key fst m =
    map (\<lambda>k. (k, the (map_of m k))) (sorted_list_of_set (fst ` set m))"
proof -
  have "sort_key fst m = map (\<lambda>e. (fst e, the (map_of m (fst e)))) (sort_key fst m)"
    by (rule map_idI [symmetric]) (auto simp: map_of_is_SomeI [OF assms])
  also have "\<dots> = map (\<lambda>k. (k, the (map_of m k))) (map fst (sort_key fst m))" by simp
  also have "map fst (sort_key fst m) = sorted_list_of_set (fst ` set m)"
    using assms by (simp add: keys_sort_key sorted_list_of_set_sort_remdups distinct_remdups_id
        flip: set_map)
  finally show ?thesis .
qed

lemma map_of_map_snd: "map_of (map (\<lambda>e. (fst e, f (snd e))) m) = map_option f \<circ> map_of m"
  by (induction m) auto

lemma meaning_sorted_keys: "distinct_keys v \<Longrightarrow> meaning (sorted_keys v) = meaning v"
proof (induction v rule: sorted_keys.induct)
  case (1 m)
  then have d: "distinct (map fst m)" by simp
  have "map_of (map (\<lambda>e. (fst e, meaning (sorted_keys (snd e)))) (sort_key fst m)) =
      map_of (map (\<lambda>e. (fst e, meaning (snd e))) (sort_key fst m))"
    using 1 by (intro arg_cong [where f = map_of]) auto
  also have "\<dots> = map_option meaning \<circ> map_of (sort_key fst m)" by (rule map_of_map_snd)
  also have "map_of (sort_key fst m) = map_of m"
    by (rule map_of_inject_set [THEN iffD2]) (use d in \<open>auto simp: keys_sort_key\<close>)
  also have "map_option meaning \<circ> map_of m = map_of (map (\<lambda>e. (fst e, meaning (snd e))) m)"
    by (rule map_of_map_snd [symmetric])
  finally show ?case by (simp add: comp_def)
qed auto

lemma same_meaning_same_form:
  "distinct_keys v \<Longrightarrow> distinct_keys w \<Longrightarrow> meaning v = meaning w \<Longrightarrow> sorted_keys v = sorted_keys w"
proof (induction v arbitrary: w rule: sorted_keys.induct)
  case (1 m)
  from 1(4) obtain m' where w: "w = JObject m'" by (cases w) auto
  from 1(4) have eq: "map_option meaning \<circ> map_of m = map_option meaning \<circ> map_of m'"
    by (simp add: w map_of_map_snd)
  have d: "distinct (map fst m)" "distinct (map fst m')" using 1(2,3) w by simp_all
  have "dom (map_option meaning \<circ> map_of m) = dom (map_option meaning \<circ> map_of m')" by (simp only: eq)
  then have keys: "fst ` set m = fst ` set m'"
    by (simp add: dom_map_option_comp dom_map_of_conv_image_fst)
  have val: "sorted_keys (the (map_of m k)) = sorted_keys (the (map_of m' k))" if "k \<in> fst ` set m" for k
  proof -
    from that obtain a where a: "map_of m k = Some a" "(k, a) \<in> set m"
      using d(1) by (force simp: map_of_eq_Some_iff)
    from that keys obtain b where b: "map_of m' k = Some b" "(k, b) \<in> set m'"
      using d(2) by (force simp: map_of_eq_Some_iff)
    have "meaning a = meaning b" using fun_cong [OF eq, of k] a b by simp
    moreover have "(k, a) \<in> set (sort_key fst m)" using a by simp
    moreover have "distinct_keys a" "distinct_keys b" using 1(2,3) a(2) b(2) w by auto
    ultimately have "sorted_keys a = sorted_keys b" using 1(1) [of "(k, a)" b] by simp
    with a b show ?thesis by simp
  qed
  have fin: "finite (fst ` set m)" by simp
  show ?case
    unfolding w sorted_keys.simps sort_key_map_of [OF d(1)] sort_key_map_of [OF d(2)] keys [symmetric]
    using val fin by simp
next
  case (2 items)
  from 2(4) obtain items' where w: "w = JArray items'" by (cases w) auto
  from 2(4) w have len: "length items = length items'" and
    eq: "\<And>i. i < length items \<Longrightarrow> meaning (items ! i) = meaning (items' ! i)"
    by (auto dest: map_eq_imp_length_eq simp: list_eq_iff_nth_eq)
  have "sorted_keys (items ! i) = sorted_keys (items' ! i)" if i: "i < length items" for i
    using 2(1) [OF nth_mem [OF i] _ _ eq [OF i]] 2(2,3) i len w by simp
  then have "map sorted_keys items = map sorted_keys items'"
    using len by (intro nth_equalityI) simp_all
  then show ?case by (simp add: w)
next
  case 3
  then show ?case by (cases w) simp_all
next
  case (4 b)
  then show ?case by (cases w) simp_all
next
  case (5 n)
  then show ?case by (cases w) simp_all
next
  case (6 s)
  then show ?case by (cases w) simp_all
qed

text \<open>
C20: The canonical form of a JSON value is canonical: two values whose objects have distinct keys
have the same sorted form exactly when they denote the same value, that is, when they differ at
most in the order of object entries, at any depth. Distinct payloads never collapse.
\<close>
theorem canonical_iff_same_value:
  assumes "distinct_keys v" and "distinct_keys w"
  shows "sorted_keys v = sorted_keys w \<longleftrightarrow> meaning v = meaning w"
  using assms meaning_sorted_keys [of v] meaning_sorted_keys [of w] same_meaning_same_form [of v w]
  by auto

theorem canonical_iff_same_value_witness:
  "sorted_keys (JArray [JObject [([98], JBool False), ([97], JNumber (1 :: nat))]]) =
     sorted_keys (JArray [JObject [([97], JNumber 1), ([98], JBool False)]])"
  by (subst canonical_iff_same_value) (auto simp: fun_eq_iff)

end
