(* ===== verification/Prompt_Cache.thy ===== *)
theory Prompt_Cache
  imports Request Canonical "HOL-Library.AList" "HOL-Library.Word"
begin

text \<open>
  \<open>src/services/prompt_cache.rs\<close>: the response cache with time-to-live and least-recently-used
  eviction, and the digest of a request that is its key.

  The \<open>HashMap\<close> of entries is an association list without duplicates (the code never depends on
  its iteration order), the \<open>BTreeMap\<close> of recency ticks the list of its entries in key order.
  Postcard encoding with SHA-256, the JSON writer and the clock readings are parameters. The
  mutex is not modelled: one operation is one critical section, and none of them can panic
  while holding it.
\<close>

section \<open>The digest of a request\<close>

datatype prompt_cache_error =
    PcConfig string
  | PcValidation string string
  | PcJson string
  | PcLock string

fun prompt_cache_error_display :: "prompt_cache_error \<Rightarrow> string" where
  "prompt_cache_error_display (PcConfig msg) = ''prompt cache configuration error: '' @ msg"
| "prompt_cache_error_display (PcValidation field message) =
     ''prompt cache validation failed for '' @ field @ '': '' @ message"
| "prompt_cache_error_display (PcJson msg) = ''prompt cache JSON error: '' @ msg"
| "prompt_cache_error_display (PcLock msg) = ''prompt cache lock error: '' @ msg"

text \<open>The borrowed views that are encoded; a JSON leaf is its canonical text.\<close>

datatype block_digest =
    DigestText utext
  | DigestImage string string
  | DigestThinking utext "string option"
  | DigestToolCall string string string
  | DigestToolResult string utext

record message_digest =
  md_role :: message_role
  md_content :: "block_digest list"
  md_name :: "string option"
  md_tool_call_id :: "string option"

record tool_digest =
  dt_name :: string
  dt_description :: string
  dt_input_schema :: string

record request_digest =
  rd_model :: string
  rd_provider :: provider_endpoint
  rd_messages :: "message_digest list"
  rd_temperature :: "f32 option"
  rd_max_tokens :: "nat option"
  rd_stream :: bool
  rd_thinking :: "thinking_config option"
  rd_tools :: "tool_digest list"
  rd_prompt_cache :: prompt_cache_directive

fun block_view :: "('n json \<Rightarrow> string) \<Rightarrow> 'n json content_block \<Rightarrow> block_digest" where
  "block_view to_string (TextBlock t) = DigestText t"
| "block_view to_string (ImageBase64 media_type data) = DigestImage media_type data"
| "block_view to_string (ThinkingBlock reasoning signature) = DigestThinking reasoning signature"
| "block_view to_string (ToolCallBlock cid name arguments) =
     DigestToolCall cid name (canonical_value to_string arguments)"
| "block_view to_string (ToolResultBlock cid out) = DigestToolResult cid out"

definition message_view :: "('n json \<Rightarrow> string) \<Rightarrow> 'n json unified_message \<Rightarrow> message_digest" where
  "message_view to_string m =
     \<lparr>md_role = um_role m, md_content = map (block_view to_string) (um_content m),
      md_name = um_name m, md_tool_call_id = um_tool_call_id m\<rparr>"

definition tool_view :: "('n json \<Rightarrow> string) \<Rightarrow> 'n json tool_definition \<Rightarrow> tool_digest" where
  "tool_view to_string t =
     \<lparr>dt_name = td_name t, dt_description = td_description t,
      dt_input_schema = canonical_value to_string (td_input_schema t)\<rparr>"

definition request_view :: "('n json \<Rightarrow> string) \<Rightarrow> 'n json unified_request \<Rightarrow> request_digest" where
  "request_view to_string r =
     \<lparr>rd_model = rq_model r, rd_provider = rq_provider r,
      rd_messages = map (message_view to_string) (rq_messages r),
      rd_temperature = rq_temperature r, rd_max_tokens = rq_max_tokens r,
      rd_stream = rq_stream r, rd_thinking = rq_thinking r,
      rd_tools = map (tool_view to_string) (rq_tools r), rd_prompt_cache = rq_prompt_cache r\<rparr>"

text \<open>\<open>[u8; 32]\<close> is its elements by index.\<close>

type_synonym sha256_output = "nat \<Rightarrow> 8 word"

definition array32 :: "sha256_output \<Rightarrow> 8 word list" where
  "array32 a = map a [0 ..< 32]"

definition hex_alphabet :: string where
  "hex_alphabet = ''0123456789abcdef''"

definition hex_digit :: "nat \<Rightarrow> char" where
  "hex_digit n = hex_alphabet ! n"

definition to_lower_hex :: "8 word list \<Rightarrow> string" where
  "to_lower_hex bytes =
     concat (map (\<lambda>b. [hex_digit (unat (drop_bit 4 b)), hex_digit (unat (and b 15))]) bytes)"

fun f32_is_finite :: "f32 \<Rightarrow> bool" where
  "f32_is_finite (F32 q) = True"
| "f32_is_finite _ = False"

definition digest_request ::
    "('n json \<Rightarrow> string) \<Rightarrow> (request_digest \<Rightarrow> string + sha256_output) \<Rightarrow>
     'n json unified_request \<Rightarrow> prompt_cache_error + string" where
  "digest_request to_string hash r =
     (if \<exists>t. rq_temperature r = Some t \<and> \<not> f32_is_finite t
      then Inl (PcValidation ''temperature'' ''temperature must be finite'')
      else (case hash (request_view to_string r) of
              Inl e \<Rightarrow> Inl (PcJson e)
            | Inr digest \<Rightarrow> Inr (to_lower_hex (array32 digest))))"

definition is_lowercase_sha256_hex :: "string \<Rightarrow> bool" where
  "is_lowercase_sha256_hex s \<longleftrightarrow> length s = 64 \<and> (\<forall>c \<in> set s. c \<in> set hex_alphabet)"

lemma hex_digit_in: "n < 16 \<Longrightarrow> hex_digit n \<in> set hex_alphabet"
  unfolding hex_digit_def by (intro nth_mem) (simp add: hex_alphabet_def)

lemma unat_nibbles:
  fixes b :: "8 word"
  shows "unat (drop_bit 4 b) < 16" and "unat (and b 15) < 16"
proof -
  have "unat b < 256" using unsigned_less [of b] by simp
  then show "unat (drop_bit 4 b) < 16"
    by (simp only: unsigned_drop_bit_eq) (simp add: drop_bit_eq_div take_bit_eq_mod less_mult_imp_div_less)
  have "and b 15 = take_bit 4 b" by (simp add: take_bit_eq_mask mask_eq_exp_minus_1)
  then show "unat (and b 15) < 16"
    using take_bit_nat_less_exp [of 4 "unat b"] by (simp add: unsigned_take_bit_eq)
qed

lemma length_to_lower_hex: "length (to_lower_hex bs) = 2 * length bs"
  by (induction bs) (simp_all add: to_lower_hex_def)

lemma set_to_lower_hex: "set (to_lower_hex bs) \<subseteq> set hex_alphabet"
  using hex_digit_in unat_nibbles by (auto simp: to_lower_hex_def)

text \<open>Every digest has the shape the import of a snapshot asks for.\<close>

lemma digest_request_hex: "digest_request to_string hash r = Inr k \<Longrightarrow> is_lowercase_sha256_hex k"
  using set_to_lower_hex
  by (fastforce simp: digest_request_def is_lowercase_sha256_hex_def length_to_lower_hex array32_def
      split: if_splits sum.splits)

section \<open>The cache\<close>

record prompt_cache_config =
  pc_capacity :: nat
  pc_ttl :: duration

definition prompt_cache_config_new ::
    "nat \<Rightarrow> duration \<Rightarrow> prompt_cache_error + prompt_cache_config" where
  "prompt_cache_config_new capacity ttl =
     (if capacity = 0 then Inl (PcConfig ''capacity must be non-zero'')
      else if ttl = 0 then Inl (PcConfig ''ttl must be positive'')
      else Inr \<lparr>pc_capacity = capacity, pc_ttl = ttl\<rparr>)"

record ('r, 's) cache_entry =
  ce_key :: string
  ce_request :: 'r
  ce_response :: 's
  ce_stored_at :: nat
  ce_expires_at :: nat
  ce_lru_rank :: nat

record ('r, 's) cache_slot =
  cs_entry :: "('r, 's) cache_entry"
  cs_tick :: nat
  cs_key :: string

record ('r, 's) cache_state =
  st_entries :: "(string \<times> ('r, 's) cache_slot) list"
  st_lru_order :: "(nat \<times> string) list"
  st_next_tick :: nat
  st_earliest_expiry :: nat

definition cache_empty :: "('r, 's) cache_state" where
  "cache_empty = \<lparr>st_entries = [], st_lru_order = [], st_next_tick = 0,
     st_earliest_expiry = u64_max\<rparr>"

text \<open>\<open>BTreeMap::insert\<close>, \<open>remove\<close>; \<open>pop_first\<close> is the head of the list.\<close>

fun btree_insert :: "nat \<Rightarrow> 'k \<Rightarrow> (nat \<times> 'k) list \<Rightarrow> (nat \<times> 'k) list" where
  "btree_insert t k [] = [(t, k)]"
| "btree_insert t k (p # m) =
     (if t < fst p then (t, k) # p # m
      else if t = fst p then (t, k) # m
      else p # btree_insert t k m)"

definition btree_remove :: "nat \<Rightarrow> (nat \<times> 'k) list \<Rightarrow> (nat \<times> 'k) list" where
  "btree_remove t m = filter (\<lambda>p. fst p \<noteq> t) m"

definition push_recent :: "string \<Rightarrow> ('r, 's) cache_state \<Rightarrow> nat \<times> ('r, 's) cache_state" where
  "push_recent key s =
     (let tick = st_next_tick s
      in (tick, s\<lparr>st_next_tick := u64_add (st_next_tick s) 1,
                  st_lru_order := btree_insert tick key (st_lru_order s)\<rparr>))"

definition slot_expired :: "nat \<Rightarrow> ('r, 's) cache_slot \<Rightarrow> bool" where
  "slot_expired now sl \<longleftrightarrow> ce_expires_at (cs_entry sl) \<le> now"

definition prune_expired :: "nat \<Rightarrow> ('r, 's) cache_state \<Rightarrow> ('r, 's) cache_state" where
  "prune_expired now s =
     (if now < st_earliest_expiry s then s
      else s\<lparr>
        st_entries := filter (\<lambda>e. \<not> slot_expired now (snd e)) (st_entries s),
        st_lru_order := foldl (\<lambda>m e. if slot_expired now (snd e) then btree_remove (cs_tick (snd e)) m else m)
          (st_lru_order s) (st_entries s),
        st_earliest_expiry := foldl (\<lambda>x e. if slot_expired now (snd e) then x
            else min x (ce_expires_at (cs_entry (snd e)))) u64_max (st_entries s)\<rparr>)"

definition cache_lookup ::
    "string \<Rightarrow> nat \<Rightarrow> ('r, 's) cache_state \<Rightarrow> ('r, 's) cache_entry option \<times> ('r, 's) cache_state" where
  "cache_lookup key now s =
     (case map_of (st_entries s) key of
        None \<Rightarrow> (None, s)
      | Some sl \<Rightarrow>
          let lru = btree_remove (cs_tick sl) (st_lru_order s)
          in if ce_expires_at (cs_entry sl) \<le> now then
               (None, s\<lparr>st_lru_order := lru, st_entries := AList.delete key (st_entries s)\<rparr>)
             else
               let tick = st_next_tick s;
                   lru = btree_insert tick (cs_key sl) lru
               in (Some ((cs_entry sl)\<lparr>ce_lru_rank := length lru - 1\<rparr>),
                   s\<lparr>st_lru_order := lru, st_next_tick := u64_add (st_next_tick s) 1,
                     st_entries := AList.update key (sl\<lparr>cs_tick := tick\<rparr>) (st_entries s)\<rparr>))"

fun evict :: "nat \<Rightarrow> (string \<times> ('r, 's) cache_slot) list \<Rightarrow> (nat \<times> string) list \<Rightarrow>
    (string \<times> ('r, 's) cache_slot) list \<times> (nat \<times> string) list" where
  "evict capacity entries [] = (entries, [])"
| "evict capacity entries (p # lru) =
     (if length entries > capacity then evict capacity (AList.delete (snd p) entries) lru
      else (entries, p # lru))"

text \<open>The \<open>as u64\<close> of the code keeps the low 64 bits of the time-to-live.\<close>

definition expiry_at :: "prompt_cache_config \<Rightarrow> nat \<Rightarrow> nat" where
  "expiry_at c now = u64_sat_add now (as_millis (pc_ttl c) mod 2 ^ 64)"

definition cache_insert ::
    "('r \<Rightarrow> prompt_cache_error + string) \<Rightarrow> prompt_cache_config \<Rightarrow> 'r \<Rightarrow> 's \<Rightarrow> nat \<Rightarrow>
     ('r, 's) cache_state \<Rightarrow> prompt_cache_error option \<times> ('r, 's) cache_state" where
  "cache_insert digest c request response now s =
     (case digest request of
        Inl e \<Rightarrow> (Some e, s)
      | Inr key \<Rightarrow>
          let s = prune_expired now s;
              expires_at = expiry_at c now;
              entry = \<lparr>ce_key = key, ce_request = request, ce_response = response,
                       ce_stored_at = now, ce_expires_at = expires_at, ce_lru_rank = 0\<rparr>;
              (tick, s) = push_recent key s;
              replaced = map_of (st_entries s) key;
              entries = AList.update key \<lparr>cs_entry = entry, cs_tick = tick, cs_key = key\<rparr> (st_entries s);
              lru = (case replaced of Some old \<Rightarrow> btree_remove (cs_tick old) (st_lru_order s)
                     | None \<Rightarrow> st_lru_order s);
              (entries, lru) = evict (pc_capacity c) entries lru
          in (None, s\<lparr>st_entries := entries, st_lru_order := lru,
                      st_earliest_expiry := min (st_earliest_expiry s) expires_at\<rparr>))"

definition cache_len :: "('r, 's) cache_state \<Rightarrow> nat" where
  "cache_len s = length (st_entries s)"

definition cache_is_empty :: "('r, 's) cache_state \<Rightarrow> bool" where
  "cache_is_empty s \<longleftrightarrow> st_entries s = []"

subsection \<open>Snapshots\<close>

definition rank_entries :: "('r, 's) cache_entry list \<Rightarrow> ('r, 's) cache_entry list" where
  "rank_entries es = map (\<lambda>(i, e). e\<lparr>ce_lru_rank := i\<rparr>) (List.enumerate 0 es)"

definition snapshot_at :: "nat \<Rightarrow> ('r, 's) cache_state \<Rightarrow> ('r, 's) cache_entry list" where
  "snapshot_at now s =
     sort_key (\<lambda>e. map (of_char :: char \<Rightarrow> nat) (ce_key e))
       (rank_entries (filter (\<lambda>e. ce_expires_at e > now)
          (map cs_entry (List.map_filter (\<lambda>p. map_of (st_entries s) (snd p)) (st_lru_order s)))))"

fun validate_entries ::
    "('r \<Rightarrow> prompt_cache_error + string) \<Rightarrow> string list \<Rightarrow> nat list \<Rightarrow> ('r, 's) cache_entry list \<Rightarrow>
     prompt_cache_error + nat list" where
  "validate_entries digest seen_keys seen_ranks [] = Inr seen_ranks"
| "validate_entries digest seen_keys seen_ranks (e # es) =
     (if \<not> is_lowercase_sha256_hex (ce_key e) then
        Inl (PcValidation (''entries['' @ ce_key e @ ''].key'')
          ''key must be a lowercase 64-character SHA-256 hex digest'')
      else if ce_key e \<in> set seen_keys then
        Inl (PcValidation (''entries['' @ ce_key e @ ''].key'')
          ''duplicate key in imported snapshot'')
      else if ce_stored_at e \<ge> ce_expires_at e then
        Inl (PcValidation (''entries['' @ ce_key e @ ''].stored_at_unix_ms'')
          ''stored_at_unix_ms must be less than expires_at_unix_ms'')
      else (case digest (ce_request e) of
          Inl err \<Rightarrow> Inl err
        | Inr expected_key \<Rightarrow>
            if expected_key \<noteq> ce_key e then
              Inl (PcValidation (''entries['' @ ce_key e @ ''].key'')
                ''key does not match the digest of its request'')
            else if ce_lru_rank e \<in> set seen_ranks then
              Inl (PcValidation (''entries['' @ ce_key e @ ''].lru_rank'')
                ''duplicate lru_rank in imported snapshot'')
            else validate_entries digest (ce_key e # seen_keys) (ce_lru_rank e # seen_ranks) es))"

definition validate_snapshot ::
    "('r \<Rightarrow> prompt_cache_error + string) \<Rightarrow> ('r, 's) cache_entry list \<Rightarrow> prompt_cache_error option" where
  "validate_snapshot digest es =
     (case validate_entries digest [] [] es of
        Inl e \<Rightarrow> Some e
      | Inr ranks \<Rightarrow>
          if \<exists>r \<in> set ranks. r \<ge> length es then
            Some (PcValidation ''entries[].lru_rank''
              (''ranks must be contiguous from 0..'' @ show_nat (length es)))
          else None)"

record import_report =
  ir_imported :: nat
  ir_expired :: nat
  ir_evicted :: nat

fun stage_entries ::
    "('r, 's) cache_entry list \<Rightarrow> ('r, 's) cache_state \<Rightarrow> ('r, 's) cache_state" where
  "stage_entries [] s = s"
| "stage_entries (e # es) s =
     (let s = s\<lparr>st_earliest_expiry := min (st_earliest_expiry s) (ce_expires_at e)\<rparr>;
          (tick, s) = push_recent (ce_key e) s
      in stage_entries es (s\<lparr>st_entries := AList.update (ce_key e)
           \<lparr>cs_entry = e, cs_tick = tick, cs_key = ce_key e\<rparr> (st_entries s)\<rparr>))"

definition stage_snapshot ::
    "('r \<Rightarrow> prompt_cache_error + string) \<Rightarrow> prompt_cache_config \<Rightarrow> ('r, 's) cache_entry list \<Rightarrow> nat \<Rightarrow>
     prompt_cache_error + (('r, 's) cache_state \<times> import_report)" where
  "stage_snapshot digest c snapshot now =
     (case validate_snapshot digest snapshot of
        Some e \<Rightarrow> Inl e
      | None \<Rightarrow>
          let live = filter (\<lambda>e. ce_expires_at e > now) snapshot;
              expired = length snapshot - length live;
              live = sort_key ce_lru_rank live;
              evictions = length live - pc_capacity c;
              live = (if evictions > 0 then drop evictions live else live);
              s = stage_entries (rank_entries live) cache_empty
          in Inr (s, \<lparr>ir_imported = length (st_entries s), ir_expired = expired,
                      ir_evicted = evictions\<rparr>))"

definition replace_snapshot_at ::
    "('r \<Rightarrow> prompt_cache_error + string) \<Rightarrow> prompt_cache_config \<Rightarrow> ('r, 's) cache_entry list \<Rightarrow> nat \<Rightarrow>
     ('r, 's) cache_state \<Rightarrow> (prompt_cache_error + import_report) \<times> ('r, 's) cache_state" where
  "replace_snapshot_at digest c snapshot now s =
     (case stage_snapshot digest c snapshot now of
        Inl e \<Rightarrow> (Inl e, s)
      | Inr (staged, report) \<Rightarrow> (Inr report, staged))"

section \<open>The abstract cache: a list of entries, least recently used first\<close>

definition spec_lookup ::
    "string \<Rightarrow> nat \<Rightarrow> ('r, 's) cache_entry list \<Rightarrow> ('r, 's) cache_entry option \<times> ('r, 's) cache_entry list" where
  "spec_lookup key now es =
     (case List.find (\<lambda>e. ce_key e = key) es of
        None \<Rightarrow> (None, es)
      | Some e \<Rightarrow>
          let others = filter (\<lambda>x. ce_key x \<noteq> key) es
          in if ce_expires_at e \<le> now then (None, others)
             else (Some (e\<lparr>ce_lru_rank := length others\<rparr>), others @ [e]))"

definition spec_insert ::
    "nat \<Rightarrow> nat \<Rightarrow> ('r, 's) cache_entry \<Rightarrow> ('r, 's) cache_entry list \<Rightarrow> ('r, 's) cache_entry list" where
  "spec_insert capacity now e es =
     (let live = filter (\<lambda>x. ce_expires_at x > now \<and> ce_key x \<noteq> ce_key e) es @ [e]
      in drop (length live - capacity) live)"

section \<open>How the maps represent the list\<close>

text \<open>\<open>m\<close> is the entry map as a function, \<open>lru\<close> the recency map.\<close>

definition rep :: "(string \<Rightarrow> ('r, 's) cache_slot option) \<Rightarrow> (nat \<times> string) list \<Rightarrow> bool" where
  "rep m lru \<longleftrightarrow> sorted_wrt (<) (map fst lru) \<and>
     (\<forall>t k. (t, k) \<in> set lru \<longleftrightarrow> (\<exists>sl. m k = Some sl \<and> cs_tick sl = t)) \<and>
     (\<forall>k sl. m k = Some sl \<longrightarrow> ce_key (cs_entry sl) = k \<and> cs_key sl = k)"

definition view_of ::
    "(string \<Rightarrow> ('r, 's) cache_slot option) \<Rightarrow> (nat \<times> string) list \<Rightarrow> ('r, 's) cache_entry list" where
  "view_of m lru = map (\<lambda>p. cs_entry (the (m (snd p)))) lru"

definition cache_wf :: "('r, 's) cache_state \<Rightarrow> bool" where
  "cache_wf s \<longleftrightarrow> distinct (map fst (st_entries s)) \<and> rep (map_of (st_entries s)) (st_lru_order s) \<and>
     (\<forall>p \<in> set (st_lru_order s). fst p < st_next_tick s) \<and>
     (\<forall>k sl. map_of (st_entries s) k = Some sl \<longrightarrow> st_earliest_expiry s \<le> ce_expires_at (cs_entry sl))"

definition lru_view :: "('r, 's) cache_state \<Rightarrow> ('r, 's) cache_entry list" where
  "lru_view s = view_of (map_of (st_entries s)) (st_lru_order s)"

lemma repD:
  assumes "rep m lru"
  shows "sorted_wrt (<) (map fst lru)" and "distinct (map fst lru)" and "distinct (map snd lru)"
    and "\<And>t k. (t, k) \<in> set lru \<Longrightarrow> \<exists>sl. m k = Some sl \<and> cs_tick sl = t \<and> ce_key (cs_entry sl) = k \<and> cs_key sl = k"
    and "\<And>k sl. m k = Some sl \<Longrightarrow> (cs_tick sl, k) \<in> set lru \<and> ce_key (cs_entry sl) = k \<and> cs_key sl = k"
proof -
  show s: "sorted_wrt (<) (map fst lru)" using assms by (simp add: rep_def)
  then show d: "distinct (map fst lru)" by (simp add: strict_sorted_iff)
  show in_lru: "\<And>t k. (t, k) \<in> set lru \<Longrightarrow>
      \<exists>sl. m k = Some sl \<and> cs_tick sl = t \<and> ce_key (cs_entry sl) = k \<and> cs_key sl = k"
    using assms unfolding rep_def by metis
  show "\<And>k sl. m k = Some sl \<Longrightarrow> (cs_tick sl, k) \<in> set lru \<and> ce_key (cs_entry sl) = k \<and> cs_key sl = k"
    using assms unfolding rep_def by metis
  have "inj_on snd (set lru)"
  proof (rule inj_onI)
    fix p q
    assume "p \<in> set lru" "q \<in> set lru" "snd p = snd q"
    have "\<exists>sl. m (snd x) = Some sl \<and> cs_tick sl = fst x" if "x \<in> set lru" for x
      using in_lru that by (metis prod.collapse)
    from this [OF \<open>p \<in> set lru\<close>] this [OF \<open>q \<in> set lru\<close>] \<open>snd p = snd q\<close>
    have "fst p = fst q" by (metis option.inject)
    with \<open>snd p = snd q\<close> show "p = q" by (simp add: prod_eq_iff)
  qed
  then show "distinct (map snd lru)" using d by (simp add: distinct_map)
qed

lemma rep_fst_inj: "rep m lru \<Longrightarrow> p \<in> set lru \<Longrightarrow> q \<in> set lru \<Longrightarrow> fst p = fst q \<Longrightarrow> p = q"
  using repD(2) [of m lru] by (auto simp only: distinct_map dest: inj_onD)

lemma rep_keys:
  assumes "rep m lru"
  shows "snd ` set lru = dom m"
proof (intro equalityI subsetI)
  fix k
  assume "k \<in> snd ` set lru"
  then obtain t where "(t, k) \<in> set lru" by auto
  from repD(4) [OF assms this] show "k \<in> dom m" by auto
next
  fix k
  assume "k \<in> dom m"
  then obtain sl where "m k = Some sl" by auto
  from repD(5) [OF assms this] show "k \<in> snd ` set lru" by force
qed

lemma rep_length:
  assumes "distinct (map fst ents)" "rep (map_of ents) lru"
  shows "length lru = length ents"
proof -
  have "set (map snd lru) = set (map fst ents)"
    using rep_keys [OF assms(2)] by (simp add: dom_map_of_conv_image_fst)
  then have "card (set (map snd lru)) = card (set (map fst ents))" by simp
  then show ?thesis using distinct_card [OF assms(1)] distinct_card [OF repD(3) [OF assms(2)]] by simp
qed

lemma view_key: "rep m lru \<Longrightarrow> p \<in> set lru \<Longrightarrow> ce_key (cs_entry (the (m (snd p)))) = snd p"
  using repD(4) [of m lru "fst p" "snd p"] by auto

lemma view_keys: "rep m lru \<Longrightarrow> map ce_key (view_of m lru) = map snd lru"
  by (auto simp: view_of_def view_key)

text \<open>Removing a key, appending a key at the recent end.\<close>

lemma btree_remove_rep:
  assumes "rep m lru" "m k = Some sl"
  shows "btree_remove (cs_tick sl) lru = filter (\<lambda>p. snd p \<noteq> k) lru"
  unfolding btree_remove_def
proof (rule filter_cong [OF refl])
  fix p
  assume p: "p \<in> set lru"
  from repD(4) [OF assms(1), of "fst p" "snd p"] p obtain sl'
    where sl': "m (snd p) = Some sl'" "cs_tick sl' = fst p" by auto
  have "(cs_tick sl, k) \<in> set lru" using repD(5) [OF assms] by simp
  then have "fst p = cs_tick sl \<Longrightarrow> p = (cs_tick sl, k)"
    using rep_fst_inj [OF assms(1) p] by simp
  with sl' assms(2) show "(fst p \<noteq> cs_tick sl) = (snd p \<noteq> k)" by auto
qed

lemma rep_remove:
  assumes "rep m lru"
  shows "rep (m(k := None)) (filter (\<lambda>p. snd p \<noteq> k) lru)"
    and "view_of (m(k := None)) (filter (\<lambda>p. snd p \<noteq> k) lru) =
      filter (\<lambda>e. ce_key e \<noteq> k) (view_of m lru)"
proof -
  have "sorted_wrt (<) (map fst (filter (\<lambda>p. snd p \<noteq> k) lru))"
    using assms by (simp add: rep_def sorted_wrt_map sorted_wrt_filter)
  then show "rep (m(k := None)) (filter (\<lambda>p. snd p \<noteq> k) lru)"
    using assms by (auto simp: rep_def)
  have "filter (\<lambda>e. ce_key e \<noteq> k) (view_of m lru) =
      map (\<lambda>p. cs_entry (the (m (snd p)))) (filter (\<lambda>p. ce_key (cs_entry (the (m (snd p)))) \<noteq> k) lru)"
    by (simp add: view_of_def filter_map comp_def)
  also have "filter (\<lambda>p. ce_key (cs_entry (the (m (snd p)))) \<noteq> k) lru = filter (\<lambda>p. snd p \<noteq> k) lru"
    using view_key [OF assms] by (intro filter_cong) auto
  finally show "view_of (m(k := None)) (filter (\<lambda>p. snd p \<noteq> k) lru) =
      filter (\<lambda>e. ce_key e \<noteq> k) (view_of m lru)"
    by (simp add: view_of_def)
qed

lemma btree_insert_append: "\<forall>p \<in> set lru. fst p < t \<Longrightarrow> btree_insert t k lru = lru @ [(t, k)]"
  by (induction lru) auto

lemma rep_append:
  assumes "rep m lru" "m k = None" "\<forall>p \<in> set lru. fst p < cs_tick sl"
    and "ce_key (cs_entry sl) = k" "cs_key sl = k"
  shows "rep (m(k \<mapsto> sl)) (lru @ [(cs_tick sl, k)])"
    and "view_of (m(k \<mapsto> sl)) (lru @ [(cs_tick sl, k)]) = view_of m lru @ [cs_entry sl]"
proof -
  have k: "k \<notin> snd ` set lru" using rep_keys [OF assms(1)] assms(2) by auto
  show "rep (m(k \<mapsto> sl)) (lru @ [(cs_tick sl, k)])"
    using assms k by (auto simp: rep_def sorted_wrt_append)
  show "view_of (m(k \<mapsto> sl)) (lru @ [(cs_tick sl, k)]) = view_of m lru @ [cs_entry sl]"
    using k by (auto simp: view_of_def)
qed

section \<open>Each operation implements its specification\<close>

lemma map_of_filter_slots:
  "distinct (map fst ents) \<Longrightarrow> map_of (filter (\<lambda>e. P (snd e)) ents) k =
     (case map_of ents k of Some sl \<Rightarrow> if P sl then Some sl else None | None \<Rightarrow> None)"
  by (induction ents) (auto simp: map_of_eq_None_iff split: option.splits)

lemma foldl_remove_expired:
  "foldl (\<lambda>m e. if slot_expired now (snd e) then btree_remove (cs_tick (snd e)) m else m) lru ents =
     filter (\<lambda>p. \<not> (\<exists>e \<in> set ents. slot_expired now (snd e) \<and> cs_tick (snd e) = fst p)) lru"
  by (induction ents arbitrary: lru) (auto simp: btree_remove_def intro!: filter_cong)

lemma foldl_earliest:
  "foldl (\<lambda>x e. if slot_expired now (snd e) then x else min x (ce_expires_at (cs_entry (snd e)))) x ents \<le> x
   \<and> (\<forall>e \<in> set ents. \<not> slot_expired now (snd e) \<longrightarrow>
     foldl (\<lambda>x e. if slot_expired now (snd e) then x else min x (ce_expires_at (cs_entry (snd e)))) x ents
       \<le> ce_expires_at (cs_entry (snd e)))"
proof (induction ents arbitrary: x)
  case Nil
  then show ?case by simp
next
  case (Cons e ents)
  from Cons [of x] Cons [of "min x (ce_expires_at (cs_entry (snd e)))"] show ?case by auto
qed

lemma filter_all: "\<forall>x \<in> set xs. P x \<Longrightarrow> filter P xs = xs"
  by simp

lemma prune_expired_refines:
  assumes wf: "cache_wf s"
  shows "cache_wf (prune_expired now s)"
    and "lru_view (prune_expired now s) = filter (\<lambda>e. ce_expires_at e > now) (lru_view s)"
    and "st_next_tick (prune_expired now s) = st_next_tick s"
proof -
  let ?m = "map_of (st_entries s)" and ?lru = "st_lru_order s"
  have d: "distinct (map fst (st_entries s))" and r: "rep ?m ?lru" using wf by (simp_all add: cache_wf_def)
  show "st_next_tick (prune_expired now s) = st_next_tick s" by (simp add: prune_expired_def)
  have view: "lru_view s = map (\<lambda>p. cs_entry (the (?m (snd p)))) ?lru"
    by (simp add: lru_view_def view_of_def)
  have slot: "\<exists>sl. ?m (snd p) = Some sl \<and> cs_tick sl = fst p" if "p \<in> set ?lru" for p
    using repD(4) [OF r, of "fst p" "snd p"] that by auto
  have "cache_wf (prune_expired now s) \<and>
    lru_view (prune_expired now s) = filter (\<lambda>e. ce_expires_at e > now) (lru_view s)"
  proof (cases "now < st_earliest_expiry s")
    case True
    have "\<forall>e \<in> set (lru_view s). ce_expires_at e > now"
    proof
      fix e
      assume "e \<in> set (lru_view s)"
      then obtain p where p: "p \<in> set ?lru" "e = cs_entry (the (?m (snd p)))" by (auto simp: view)
      from slot [OF p(1)] obtain sl where sl: "?m (snd p) = Some sl" by blast
      with wf have "st_earliest_expiry s \<le> ce_expires_at (cs_entry sl)" by (auto simp: cache_wf_def)
      with True p sl show "ce_expires_at e > now" by simp
    qed
    with True wf show ?thesis by (simp add: prune_expired_def)
  next
    case False
    let ?P = "\<lambda>sl :: ('a, 'b) cache_slot. \<not> slot_expired now sl"
    let ?ents = "filter (\<lambda>e. ?P (snd e)) (st_entries s)"
    let ?lru' = "filter (\<lambda>p. ?P (the (?m (snd p)))) ?lru"
    have m': "map_of ?ents k = (case ?m k of Some sl \<Rightarrow> if ?P sl then Some sl else None | None \<Rightarrow> None)" for k
      by (rule map_of_filter_slots [OF d])
    have lru': "filter (\<lambda>p. \<not> (\<exists>e \<in> set (st_entries s). slot_expired now (snd e) \<and> cs_tick (snd e) = fst p)) ?lru = ?lru'"
    proof (rule filter_cong [OF refl])
      fix p
      assume p: "p \<in> set ?lru"
      from slot [OF p] obtain sl where sl: "?m (snd p) = Some sl" "cs_tick sl = fst p" by blast
      have "k = snd p \<and> x = sl" if "(k, x) \<in> set (st_entries s)" "cs_tick x = fst p" for k x
      proof -
        from that d have mk: "?m k = Some x" by simp
        from repD(5) [OF r mk] that(2) have "(fst p, k) \<in> set ?lru" by simp
        then have "(fst p, k) = p" by (rule rep_fst_inj [OF r _ p]) simp
        then have "k = snd p" by (metis snd_conv)
        with mk sl show ?thesis by simp
      qed
      then have only: "snd e = sl" if "e \<in> set (st_entries s)" "cs_tick (snd e) = fst p" for e
        using that by (metis prod.collapse)
      have "(\<exists>e \<in> set (st_entries s). slot_expired now (snd e) \<and> cs_tick (snd e) = fst p) \<longleftrightarrow>
          slot_expired now sl"
      proof
        assume "slot_expired now sl"
        then show "\<exists>e \<in> set (st_entries s). slot_expired now (snd e) \<and> cs_tick (snd e) = fst p"
          using map_of_SomeD [OF sl(1)] sl(2) by (intro bexI [of _ "(snd p, sl)"]) simp_all
      qed (use only in blast)
      with sl show "(\<not> (\<exists>e \<in> set (st_entries s). slot_expired now (snd e) \<and> cs_tick (snd e) = fst p)) =
          ?P (the (?m (snd p)))" by simp
    qed
    have s': "st_entries (prune_expired now s) = ?ents" "st_lru_order (prune_expired now s) = ?lru'"
      using False by (simp_all only: prune_expired_def foldl_remove_expired lru') simp_all
    have m_Some: "map_of ?ents k = Some sl \<longleftrightarrow> ?m k = Some sl \<and> ?P sl" for k sl
      by (auto simp: m' split: option.splits)
    have rep': "rep (map_of ?ents) ?lru'"
      unfolding rep_def m_Some
    proof (intro conjI allI impI)
      show "sorted_wrt (<) (map fst ?lru')"
        using repD(1) [OF r] by (simp add: sorted_wrt_map sorted_wrt_filter)
      show "((t, k) \<in> set ?lru') = (\<exists>sl. (?m k = Some sl \<and> ?P sl) \<and> cs_tick sl = t)" for t k
        using repD(4) [OF r, of t k] repD(5) [OF r, of k] by auto
    qed (use repD(5) [OF r] in blast)+
    have "lru_view (prune_expired now s) = map (\<lambda>p. cs_entry (the (?m (snd p)))) ?lru'"
      unfolding lru_view_def view_of_def s'
    proof (rule map_cong [OF refl])
      fix p
      assume "p \<in> set ?lru'"
      then show "cs_entry (the (map_of ?ents (snd p))) = cs_entry (the (?m (snd p)))"
        using slot [of p] by (auto simp: m')
    qed
    moreover have "filter (\<lambda>e. ce_expires_at e > now) (lru_view s) = map (\<lambda>p. cs_entry (the (?m (snd p)))) ?lru'"
      by (simp add: view filter_map comp_def slot_expired_def not_le)
    moreover have "cache_wf (prune_expired now s)"
      unfolding cache_wf_def s'
    proof (intro conjI allI impI ballI)
      show "distinct (map fst ?ents)" using d by (rule distinct_map_filter)
      show "rep (map_of ?ents) ?lru'" by (rule rep')
      fix p
      assume "p \<in> set ?lru'"
      then show "fst p < st_next_tick (prune_expired now s)"
        using wf by (auto simp: cache_wf_def prune_expired_def)
    next
      fix k sl
      assume "map_of ?ents k = Some sl"
      then have "(k, sl) \<in> set ?ents" by (rule map_of_SomeD)
      with False foldl_earliest [of now u64_max "st_entries s"]
      show "st_earliest_expiry (prune_expired now s) \<le> ce_expires_at (cs_entry sl)"
        by (auto simp: prune_expired_def)
    qed
    ultimately show ?thesis by simp
  qed
  then show "cache_wf (prune_expired now s)"
    "lru_view (prune_expired now s) = filter (\<lambda>e. ce_expires_at e > now) (lru_view s)" by blast+
qed

lemma find_filter_key:
  assumes "distinct (map ce_key es)" "e \<in> set es"
  shows "List.find (\<lambda>x. ce_key x = ce_key e) es = Some e"
  using assms by (induction es) auto

lemma view_find:
  assumes r: "rep m lru" and k: "m k = Some sl"
  shows "List.find (\<lambda>e. ce_key e = k) (view_of m lru) = Some (cs_entry sl)"
proof -
  from repD(5) [OF r k] have p: "(cs_tick sl, k) \<in> set lru" "ce_key (cs_entry sl) = k" by simp_all
  then have "cs_entry sl \<in> set (view_of m lru)" using k by (force simp: view_of_def)
  moreover have "distinct (map ce_key (view_of m lru))" using repD(3) [OF r] by (simp add: view_keys [OF r])
  ultimately show ?thesis using find_filter_key p(2) by metis
qed

lemma view_absent:
  assumes r: "rep m lru" and k: "m k = None"
  shows "k \<notin> ce_key ` set (view_of m lru)"
proof -
  have "ce_key ` set (view_of m lru) = dom m"
    using rep_keys [OF r] view_keys [OF r] by (metis list.set_map)
  with k show ?thesis by auto
qed

lemma filter_length_le_pred: "x \<in> set xs \<Longrightarrow> \<not> P x \<Longrightarrow> length (filter P xs) < length xs"
  by (meson length_filter_less)

lemma cache_lookup_refines:
  assumes wf: "cache_wf s" and l: "cache_lookup key now s = (res, s')"
    and ticks: "st_next_tick s < 2 ^ 64 - 1"
  shows "cache_wf s'" and "spec_lookup key now (lru_view s) = (res, lru_view s')"
    and "st_next_tick s' \<le> st_next_tick s + 1"
proof -
  let ?m = "map_of (st_entries s)" and ?lru = "st_lru_order s"
  have d: "distinct (map fst (st_entries s))" and r: "rep ?m ?lru"
    and n: "\<forall>p \<in> set ?lru. fst p < st_next_tick s"
    and ex: "\<forall>k sl. ?m k = Some sl \<longrightarrow> st_earliest_expiry s \<le> ce_expires_at (cs_entry sl)"
    using wf by (simp_all add: cache_wf_def)
  have tick: "u64_add (st_next_tick s) (Suc 0) = Suc (st_next_tick s)"
    using ticks u64_add_less [of "st_next_tick s" 1] by simp
  have "cache_wf s' \<and> spec_lookup key now (lru_view s) = (res, lru_view s') \<and>
    st_next_tick s' \<le> st_next_tick s + 1"
  proof (cases "?m key")
    case None
    with l have "res = None" "s' = s" by (simp_all add: cache_lookup_def)
    moreover have "List.find (\<lambda>e. ce_key e = key) (lru_view s) = None"
      using view_absent [OF r None] by (auto simp: find_None_iff lru_view_def)
    ultimately show ?thesis using wf by (simp add: spec_lookup_def)
  next
    case (Some sl)
    let ?others = "filter (\<lambda>p. snd p \<noteq> key) ?lru"
    have rm: "btree_remove (cs_tick sl) ?lru = ?others" by (rule btree_remove_rep [OF r Some])
    have f: "List.find (\<lambda>e. ce_key e = key) (lru_view s) = Some (cs_entry sl)"
      using view_find [OF r Some] by (simp add: lru_view_def)
    note rem = rep_remove [OF r, of key]
    have key: "ce_key (cs_entry sl) = key" "cs_key sl = key" using repD(5) [OF r Some] by simp_all
    show ?thesis
    proof (cases "ce_expires_at (cs_entry sl) \<le> now")
      case True
      with l Some have s': "res = None" "s' = s\<lparr>st_lru_order := ?others, st_entries := AList.delete key (st_entries s)\<rparr>"
        by (simp_all add: cache_lookup_def rm Let_def)
      have "cache_wf s'" unfolding cache_wf_def s'
        using rem(1) n ex d by (auto simp: AList.delete_conv' distinct_delete)
      moreover have "lru_view s' = filter (\<lambda>e. ce_key e \<noteq> key) (lru_view s)"
        using rem(2) by (simp add: s' lru_view_def AList.delete_conv')
      ultimately show ?thesis using True f by (simp add: spec_lookup_def s')
    next
      case False
      let ?t = "st_next_tick s" and ?sl = "sl\<lparr>cs_tick := st_next_tick s\<rparr>"
      have below: "\<forall>p \<in> set ?others. fst p < cs_tick ?sl" using n by auto
      have ins: "btree_insert ?t (cs_key sl) ?others = ?others @ [(?t, key)]"
        using btree_insert_append [of ?others ?t key] below key by simp
      from l Some False have s': "res = Some ((cs_entry sl)\<lparr>ce_lru_rank := length ?others\<rparr>)"
        "s' = s\<lparr>st_lru_order := ?others @ [(?t, key)], st_next_tick := ?t + 1,
           st_entries := AList.update key ?sl (st_entries s)\<rparr>"
        by (auto simp: cache_lookup_def rm ins Let_def tick)
      note app = rep_append [OF rem(1) _ below, of key]
      have m': "map_of (AList.update key ?sl (st_entries s)) = (?m(key := None))(key \<mapsto> ?sl)"
        by (simp add: update_conv')
      have "cache_wf s'" unfolding cache_wf_def s'
        using app(1) n ex d key False Some
        by (auto simp: m' distinct_update simp del: fun_upd_upd split: if_splits)
      moreover have "lru_view s' = filter (\<lambda>e. ce_key e \<noteq> key) (lru_view s) @ [cs_entry sl]"
        using app(2) rem(2) key by (simp add: s' lru_view_def m' del: fun_upd_upd)
      moreover have "length ?others = length (filter (\<lambda>e. ce_key e \<noteq> key) (lru_view s))"
        using rem(2) by (metis length_map lru_view_def view_of_def)
      ultimately show ?thesis using False f by (simp add: spec_lookup_def s' Let_def)
    qed
  qed
  then show "cache_wf s'" "spec_lookup key now (lru_view s) = (res, lru_view s')"
    "st_next_tick s' \<le> st_next_tick s + 1" by blast+
qed

lemma evict_refines:
  assumes "distinct (map fst ents)" "rep (map_of ents) lru" "evict cap ents lru = (ents', lru')"
  shows "distinct (map fst ents') \<and> rep (map_of ents') lru' \<and>
    view_of (map_of ents') lru' = drop (length lru - cap) (view_of (map_of ents) lru) \<and>
    set lru' \<subseteq> set lru \<and> map_of ents' \<subseteq>\<^sub>m map_of ents \<and> length ents' \<le> cap"
  using assms
proof (induction lru arbitrary: ents)
  case Nil
  then have "length ents = 0" using rep_length by fastforce
  with Nil show ?case by (simp add: view_of_def)
next
  case (Cons p lru)
  have len: "length ents = Suc (length lru)" using rep_length [OF Cons.prems(1,2)] by simp
  show ?case
  proof (cases "length ents > cap")
    case False
    then have "length (p # lru) - cap = 0" using len by simp
    with False Cons.prems show ?thesis by auto
  next
    case True
    have "filter (\<lambda>q. snd q \<noteq> snd p) (p # lru) = lru"
      using repD(3) [OF Cons.prems(2)] by (auto intro!: filter_all simp: image_iff)
    then have r: "rep ((map_of ents)(snd p := None)) lru"
      "view_of ((map_of ents)(snd p := None)) lru =
         filter (\<lambda>e. ce_key e \<noteq> snd p) (view_of (map_of ents) (p # lru))"
      using rep_remove [OF Cons.prems(2), of "snd p"] by simp_all
    have del: "map_of (AList.delete (snd p) ents) = (map_of ents)(snd p := None)"
      by (simp add: fun_eq_iff AList.delete_conv')
    have v: "view_of (map_of ents) (p # lru) = cs_entry (the (map_of ents (snd p))) # view_of (map_of ents) lru"
      by (simp add: view_of_def)
    have "view_of ((map_of ents)(snd p := None)) lru = view_of (map_of ents) lru"
      using repD(3) [OF Cons.prems(2)] by (auto simp: view_of_def image_iff)
    moreover have "evict cap (AList.delete (snd p) ents) lru = (ents', lru')"
      using Cons.prems(3) True by simp
    ultimately have "distinct (map fst ents') \<and> rep (map_of ents') lru' \<and>
      view_of (map_of ents') lru' = drop (length lru - cap) (view_of (map_of ents) lru) \<and>
      set lru' \<subseteq> set lru \<and> map_of ents' \<subseteq>\<^sub>m (map_of ents)(snd p := None) \<and> length ents' \<le> cap"
      using Cons.IH [of "AList.delete (snd p) ents"] r(1) distinct_delete [OF Cons.prems(1), of "snd p"]
      by (simp only: del)
    moreover have "Suc (length lru) - cap = Suc (length lru - cap)" using True len by simp
    ultimately show ?thesis by (auto simp: v map_le_def split: if_splits)
  qed
qed

lemma cache_insert_refines:
  assumes wf: "cache_wf s" and k: "digest request = Inr key"
    and i: "cache_insert digest c request response now s = (res, s')"
  shows "res = None" and "length (st_entries s') \<le> pc_capacity c"
    and "rep (map_of (st_entries s')) (st_lru_order s')"
    and "lru_view s' = spec_insert (pc_capacity c) now
      \<lparr>ce_key = key, ce_request = request, ce_response = response, ce_stored_at = now,
       ce_expires_at = expiry_at c now, ce_lru_rank = 0\<rparr> (lru_view s)"
    and "st_next_tick s < 2 ^ 64 - 1 \<Longrightarrow> cache_wf s' \<and> st_next_tick s' = st_next_tick s + 1"
proof -
  let ?p = "prune_expired now s"
  let ?e = "\<lparr>ce_key = key, ce_request = request, ce_response = response, ce_stored_at = now,
       ce_expires_at = expiry_at c now, ce_lru_rank = 0\<rparr>"
  let ?m = "map_of (st_entries ?p)" and ?lru = "st_lru_order ?p" and ?t = "st_next_tick ?p"
  let ?sl = "\<lparr>cs_entry = ?e, cs_tick = ?t, cs_key = key\<rparr>"
  let ?others = "filter (\<lambda>p. snd p \<noteq> key) ?lru"
  note pr = prune_expired_refines [OF wf, of now]
  have d: "distinct (map fst (st_entries ?p))" and r: "rep ?m ?lru"
    and n: "\<forall>p \<in> set ?lru. fst p < ?t"
    and ex: "\<And>k sl. ?m k = Some sl \<Longrightarrow> st_earliest_expiry ?p \<le> ce_expires_at (cs_entry sl)"
    using pr(1) by (simp_all add: cache_wf_def)
  have ins: "btree_insert ?t key ?lru = ?lru @ [(?t, key)]" by (rule btree_insert_append [OF n])
  have lru2: "(case ?m key of Some old \<Rightarrow> btree_remove (cs_tick old) (?lru @ [(?t, key)])
      | None \<Rightarrow> ?lru @ [(?t, key)]) = ?others @ [(?t, key)]"
  proof (cases "?m key")
    case None
    then have "key \<notin> snd ` set ?lru" using rep_keys [OF r] by auto
    then have "?others = ?lru" by (intro filter_all) auto
    with None show ?thesis by simp
  next
    case (Some old)
    have "cs_tick old < ?t" using repD(5) [OF r Some] n by auto
    then show ?thesis using btree_remove_rep [OF r Some] Some by (simp add: btree_remove_def)
  qed
  note rem = rep_remove [OF r, of key]
  have below: "\<forall>p \<in> set ?others. fst p < cs_tick ?sl" using n by auto
  note app = rep_append [OF rem(1) _ below, of key]
  let ?ents = "AList.update key ?sl (st_entries ?p)" and ?lru2 = "?others @ [(?t, key)]"
  have m': "map_of ?ents = (?m(key := None))(key \<mapsto> ?sl)" by (simp add: update_conv')
  have r2: "rep (map_of ?ents) ?lru2" unfolding m' using app(1) by simp
  have d2: "distinct (map fst ?ents)" using d by (rule distinct_update)
  obtain ents' lru' where ev: "evict (pc_capacity c) ?ents ?lru2 = (ents', lru')"
    by (cases "evict (pc_capacity c) ?ents ?lru2")
  note e = evict_refines [OF d2 r2 ev]
  from i have s': "res = None" "s' = ?p\<lparr>st_next_tick := u64_add ?t 1, st_entries := ents', st_lru_order := lru',
      st_earliest_expiry := min (st_earliest_expiry ?p) (expiry_at c now)\<rparr>"
  proof -
    have "cache_insert digest c request response now s = (None, ?p\<lparr>st_next_tick := u64_add ?t 1,
        st_entries := ents', st_lru_order := lru',
        st_earliest_expiry := min (st_earliest_expiry ?p) (expiry_at c now)\<rparr>)"
    proof (cases "?m key")
      case None
      with ev lru2 have "evict (pc_capacity c) ?ents (?lru @ [(?t, key)]) = (ents', lru')" by simp
      with None show ?thesis by (simp add: cache_insert_def k Let_def push_recent_def ins)
    next
      case (Some old)
      with ev lru2 have "evict (pc_capacity c) ?ents (btree_remove (cs_tick old) (?lru @ [(?t, key)])) = (ents', lru')"
        by simp
      with Some show ?thesis by (simp add: cache_insert_def k Let_def push_recent_def ins)
    qed
    with i show "res = None" "s' = ?p\<lparr>st_next_tick := u64_add ?t 1, st_entries := ents', st_lru_order := lru',
      st_earliest_expiry := min (st_earliest_expiry ?p) (expiry_at c now)\<rparr>" by simp_all
  qed
  show "res = None" by (rule s'(1))
  show "length (st_entries s') \<le> pc_capacity c" "rep (map_of (st_entries s')) (st_lru_order s')"
    using e by (simp_all add: s')
  have "\<forall>p \<in> set lru'. fst p < ?t + 1" using e n by fastforce
  moreover have "min (st_earliest_expiry ?p) (expiry_at c now) \<le> ce_expires_at (cs_entry sl)"
    if "map_of ents' k' = Some sl" for k' sl
  proof -
    from that e have "map_of ?ents k' = Some sl" by (metis domI map_le_def)
    then have upd: "((?m(key := None))(key \<mapsto> ?sl)) k' = Some sl" by (simp only: m')
    show ?thesis
    proof (cases "k' = key")
      case True
      with upd have "sl = ?sl" by simp
      then show ?thesis by simp
    next
      case False
      with upd have "?m k' = Some sl" by simp
      from ex [OF this] show ?thesis by simp
    qed
  qed
  ultimately show "cache_wf s' \<and> st_next_tick s' = st_next_tick s + 1"
    if "st_next_tick s < 2 ^ 64 - 1"
    using that e u64_add_less [of ?t 1] by (auto simp: cache_wf_def s' pr(3))
  have "lru_view s' = drop (length ?lru2 - pc_capacity c) (view_of (map_of ?ents) ?lru2)"
    using e by (simp add: lru_view_def s')
  also have "length ?lru2 = length (view_of (map_of ?ents) ?lru2)" by (simp add: view_of_def)
  also have "view_of (map_of ?ents) ?lru2 = filter (\<lambda>x. ce_key x \<noteq> key) (lru_view ?p) @ [?e]"
    unfolding m' using app(2) rem(2) by (simp add: lru_view_def)
  finally show "lru_view s' = spec_insert (pc_capacity c) now ?e (lru_view s)"
    by (simp add: spec_insert_def pr(2) Let_def conj_commute)
qed

lemma stage_entries_refines:
  assumes "cache_wf s" "distinct (map ce_key es)" "\<forall>e \<in> set es. map_of (st_entries s) (ce_key e) = None"
    and "st_next_tick s + length es < 2 ^ 64"
  shows "cache_wf (stage_entries es s)" and "lru_view (stage_entries es s) = lru_view s @ es"
    and "st_next_tick (stage_entries es s) = st_next_tick s + length es"
proof -
  have "cache_wf (stage_entries es s) \<and> lru_view (stage_entries es s) = lru_view s @ es \<and>
    st_next_tick (stage_entries es s) = st_next_tick s + length es"
    using assms
  proof (induction es arbitrary: s)
    case Nil
    then show ?case by simp
  next
    case (Cons e es)
    let ?m = "map_of (st_entries s)" and ?t = "st_next_tick s" and ?lru = "st_lru_order s"
    let ?sl = "\<lparr>cs_entry = e, cs_tick = st_next_tick s, cs_key = ce_key e\<rparr>"
    have r: "rep ?m ?lru" and n: "\<forall>p \<in> set ?lru. fst p < cs_tick ?sl"
      using Cons.prems(1) by (simp_all add: cache_wf_def)
    have none: "?m (ce_key e) = None" using Cons.prems(3) by simp
    note app = rep_append [OF r none n]
    have ins: "btree_insert ?t (ce_key e) ?lru = ?lru @ [(?t, ce_key e)]"
      using n by (intro btree_insert_append) simp
    let ?s = "s\<lparr>st_earliest_expiry := min (st_earliest_expiry s) (ce_expires_at e),
        st_next_tick := ?t + 1, st_lru_order := ?lru @ [(?t, ce_key e)],
        st_entries := AList.update (ce_key e) ?sl (st_entries s)\<rparr>"
    have "u64_add ?t 1 = ?t + 1" using Cons.prems(4) by (intro u64_add_less) simp
    then have "stage_entries (e # es) s = stage_entries es ?s"
      by (simp add: push_recent_def ins Let_def)
    moreover have m': "map_of (st_entries ?s) = ?m(ce_key e \<mapsto> ?sl)" by (simp add: update_conv')
    moreover have "cache_wf ?s"
      unfolding cache_wf_def m'
    proof (intro conjI allI impI)
      show "distinct (map fst (st_entries ?s))"
        using Cons.prems(1) by (simp add: cache_wf_def distinct_update)
      show "rep (?m(ce_key e \<mapsto> ?sl)) (st_lru_order ?s)" using app(1) by simp
      show "\<forall>p \<in> set (st_lru_order ?s). fst p < st_next_tick ?s" using n by auto
      fix k sl
      assume u: "(?m(ce_key e \<mapsto> ?sl)) k = Some sl"
      show "st_earliest_expiry ?s \<le> ce_expires_at (cs_entry sl)"
      proof (cases "k = ce_key e")
        case False
        with u Cons.prems(1) have "st_earliest_expiry s \<le> ce_expires_at (cs_entry sl)"
          by (simp add: cache_wf_def)
        then show ?thesis by simp
      qed (use u in auto)
    qed
    moreover have "lru_view ?s = lru_view s @ [e]"
      unfolding lru_view_def m' using app(2) by simp
    moreover have "\<forall>x \<in> set es. map_of (st_entries ?s) (ce_key x) = None"
      unfolding m' using Cons.prems(2,3) by (auto simp: image_iff)
    ultimately show ?case using Cons.IH [of ?s] Cons.prems(2,4) by simp
  qed
  then show "cache_wf (stage_entries es s)" "lru_view (stage_entries es s) = lru_view s @ es"
    "st_next_tick (stage_entries es s) = st_next_tick s + length es" by blast+
qed

lemma cache_wf_empty: "cache_wf cache_empty" "lru_view cache_empty = []"
  by (simp_all add: cache_wf_def cache_empty_def rep_def lru_view_def view_of_def)

lemma lru_view_length: "cache_wf s \<Longrightarrow> length (lru_view s) = length (st_entries s)"
  using rep_length by (fastforce simp: cache_wf_def lru_view_def view_of_def)

lemma length_rank_entries [simp]: "length (rank_entries es) = length es"
  by (simp add: rank_entries_def)

lemma map_rank_entries:
  assumes "\<And>e i. f (e\<lparr>ce_lru_rank := i\<rparr>) = f e"
  shows "map f (rank_entries es) = map f es"
  using assms by (intro nth_equalityI) (simp_all add: rank_entries_def nth_enumerate_eq)

lemma validate_entries_Inr:
  "validate_entries digest ks rs es = Inr out \<Longrightarrow> distinct ks \<Longrightarrow>
     distinct (map ce_key es) \<and> set (map ce_key es) \<inter> set ks = {} \<and>
     out = rev (map ce_lru_rank es) @ rs"
proof (induction es arbitrary: ks rs)
  case (Cons e es)
  from Cons.prems have "validate_entries digest (ce_key e # ks) (ce_lru_rank e # rs) es = Inr out"
    "ce_key e \<notin> set ks" by (auto split: if_splits sum.splits)
  with Cons.IH [OF this(1)] Cons.prems(2) show ?case by auto
qed simp

definition spec_replace ::
    "('r \<Rightarrow> prompt_cache_error + string) \<Rightarrow> nat \<Rightarrow> ('r, 's) cache_entry list \<Rightarrow> nat \<Rightarrow>
     ('r, 's) cache_entry list \<Rightarrow> (prompt_cache_error + import_report) \<times> ('r, 's) cache_entry list" where
  "spec_replace digest capacity snapshot now es =
     (case validate_snapshot digest snapshot of
        Some e \<Rightarrow> (Inl e, es)
      | None \<Rightarrow>
          let live = sort_key ce_lru_rank (filter (\<lambda>e. ce_expires_at e > now) snapshot);
              kept = rank_entries (drop (length live - capacity) live)
          in (Inr \<lparr>ir_imported = length kept, ir_expired = length snapshot - length live,
                   ir_evicted = length live - capacity\<rparr>, kept))"

lemma stage_snapshot_refines:
  assumes "stage_snapshot digest c snapshot now = Inr (s', report)"
    and few: "length snapshot < 2 ^ 64"
  shows "cache_wf s'" and "spec_replace digest (pc_capacity c) snapshot now es = (Inr report, lru_view s')"
    and "length (st_entries s') \<le> pc_capacity c" and "st_next_tick s' \<le> length snapshot"
proof -
  let ?live = "sort_key ce_lru_rank (filter (\<lambda>e. ce_expires_at e > now) snapshot)"
  let ?n = "length ?live - pc_capacity c"
  let ?kept = "rank_entries (drop ?n ?live)"
  from assms(1) have v: "validate_snapshot digest snapshot = None"
    by (auto simp: stage_snapshot_def split: option.splits)
  then obtain ranks where "validate_entries digest [] [] snapshot = Inr ranks"
    by (auto simp: validate_snapshot_def split: sum.splits)
  then have "distinct (map ce_key snapshot)" using validate_entries_Inr by fastforce
  then have "distinct (map ce_key (filter (\<lambda>e. ce_expires_at e > now) snapshot))"
    by (simp add: distinct_map_filter)
  then have "distinct (map ce_key ?live)"
    by (metis distinct_map mset_eq_imp_distinct_iff mset_sort set_sort)
  then have "distinct (map ce_key (drop ?n ?live))" by (simp add: distinct_drop flip: drop_map)
  then have dk: "distinct (map ce_key ?kept)" by (simp add: map_rank_entries)
  have drop0: "(if 0 < n then drop n xs else xs) = drop n xs" for n and xs :: "('a, 'b) cache_entry list"
    by simp
  from assms(1) v have s': "s' = stage_entries ?kept cache_empty"
    "report = \<lparr>ir_imported = length (st_entries (stage_entries ?kept cache_empty)),
       ir_expired = length snapshot - length ?live, ir_evicted = ?n\<rparr>"
    by (auto simp only: stage_snapshot_def option.case Let_def drop0 length_sort sum.inject prod.inject)
  have "length ?live \<le> length snapshot" by (simp add: length_filter_le)
  then have short: "length ?kept \<le> length snapshot"
    unfolding length_rank_entries length_drop by (rule le_trans [OF diff_le_self])
  have ref: "cache_wf s'" "lru_view s' = ?kept" "st_next_tick s' \<le> length snapshot"
    using stage_entries_refines [OF cache_wf_empty(1) dk] cache_wf_empty(2) short few
    by (simp_all add: s' cache_empty_def)
  show "st_next_tick s' \<le> length snapshot" by (rule ref(3))
  show "cache_wf s'" by (rule ref(1))
  have len: "length (st_entries s') = length ?kept" using lru_view_length [OF ref(1)] ref(2) by simp
  then show "length (st_entries s') \<le> pc_capacity c" by simp
  have len': "length (st_entries (stage_entries ?kept cache_empty)) = length ?kept"
    using len by (simp only: s'(1))
  show "spec_replace digest (pc_capacity c) snapshot now es = (Inr report, lru_view s')"
    using len' by (simp add: spec_replace_def v s'(2) ref(2) Let_def)
qed

section \<open>Runs of the cache\<close>

datatype ('r, 's) cache_op =
    Op_lookup string nat
  | Op_insert 'r 's nat
  | Op_replace "('r, 's) cache_entry list" nat

datatype ('r, 's) cache_out =
    Out_entry "('r, 's) cache_entry option"
  | Out_insert "prompt_cache_error option"
  | Out_report "prompt_cache_error + import_report"

fun cache_step ::
    "('r \<Rightarrow> prompt_cache_error + string) \<Rightarrow> prompt_cache_config \<Rightarrow> ('r, 's) cache_state \<Rightarrow>
     ('r, 's) cache_op \<Rightarrow> ('r, 's) cache_out \<times> ('r, 's) cache_state" where
  "cache_step digest c s (Op_lookup key now) = map_prod Out_entry id (cache_lookup key now s)"
| "cache_step digest c s (Op_insert r x now) =
     map_prod Out_insert id (cache_insert digest c r x now s)"
| "cache_step digest c s (Op_replace snapshot now) =
     map_prod Out_report id (replace_snapshot_at digest c snapshot now s)"

fun spec_step ::
    "('r \<Rightarrow> prompt_cache_error + string) \<Rightarrow> prompt_cache_config \<Rightarrow> ('r, 's) cache_entry list \<Rightarrow>
     ('r, 's) cache_op \<Rightarrow> ('r, 's) cache_out \<times> ('r, 's) cache_entry list" where
  "spec_step digest c es (Op_lookup key now) = map_prod Out_entry id (spec_lookup key now es)"
| "spec_step digest c es (Op_insert r x now) =
     (case digest r of
        Inl e \<Rightarrow> (Out_insert (Some e), es)
      | Inr key \<Rightarrow>
          (Out_insert None, spec_insert (pc_capacity c) now
             \<lparr>ce_key = key, ce_request = r, ce_response = x, ce_stored_at = now,
              ce_expires_at = expiry_at c now, ce_lru_rank = 0\<rparr> es))"
| "spec_step digest c es (Op_replace snapshot now) =
     map_prod Out_report id (spec_replace digest (pc_capacity c) snapshot now es)"

definition cache_ok :: "prompt_cache_config \<Rightarrow> ('r, 's) cache_state \<Rightarrow> bool" where
  "cache_ok c s \<longleftrightarrow> cache_wf s \<and> length (st_entries s) \<le> pc_capacity c"

lemma spec_lookup_length: "length (snd (spec_lookup key now es)) \<le> length es"
proof (cases "List.find (\<lambda>e. ce_key e = key) es")
  case (Some e)
  then have "e \<in> set es" "ce_key e = key" by (auto simp: find_Some_iff)
  then have "length (filter (\<lambda>x. ce_key x \<noteq> key) es) < length es"
    by (intro filter_length_le_pred [of e]) simp_all
  with Some show ?thesis by (simp add: spec_lookup_def Let_def)
qed (simp add: spec_lookup_def)

text \<open>
  The recency ticks an operation draws, at most: the counter of the code is a \<open>u64\<close>, and the order
  of use is the order of the ticks while it has not wrapped. An import starts it anew.
\<close>

fun op_ticks :: "('r, 's) cache_op \<Rightarrow> nat" where
  "op_ticks (Op_lookup key now) = 1"
| "op_ticks (Op_insert r x now) = 1"
| "op_ticks (Op_replace snapshot now) = length snapshot"

lemma cache_step_refines:
  assumes "cache_ok c s" and "st_next_tick s + op_ticks op < 2 ^ 64"
  shows "cache_ok c (snd (cache_step digest c s op))"
    and "spec_step digest c (lru_view s) op =
      (fst (cache_step digest c s op), lru_view (snd (cache_step digest c s op)))"
    and "st_next_tick (snd (cache_step digest c s op)) \<le> st_next_tick s + op_ticks op"
proof -
  have wf: "cache_wf s" and len: "length (st_entries s) \<le> pc_capacity c"
    using assms by (simp_all add: cache_ok_def)
  have "cache_ok c (snd (cache_step digest c s op)) \<and> spec_step digest c (lru_view s) op =
      (fst (cache_step digest c s op), lru_view (snd (cache_step digest c s op))) \<and>
      st_next_tick (snd (cache_step digest c s op)) \<le> st_next_tick s + op_ticks op"
  proof (cases op)
    case (Op_lookup key now)
    obtain r s' where l: "cache_lookup key now s = (r, s')" by (cases "cache_lookup key now s")
    have "st_next_tick s < 2 ^ 64 - 1" using assms(2) Op_lookup by simp
    note ref = cache_lookup_refines [OF wf l this]
    have "length (st_entries s') \<le> length (st_entries s)"
      using spec_lookup_length [of key now "lru_view s"] lru_view_length [OF wf]
        lru_view_length [OF ref(1)] by (simp add: ref(2))
    with ref len l show ?thesis by (simp add: Op_lookup cache_ok_def)
  next
    case (Op_insert r x now)
    have small: "st_next_tick s < 2 ^ 64 - 1" using assms(2) Op_insert by simp
    show ?thesis
    proof (cases "digest r")
      case (Inl e)
      then show ?thesis using assms by (simp add: Op_insert cache_insert_def)
    next
      case (Inr key)
      obtain res s' where i: "cache_insert digest c r x now s = (res, s')"
        by (cases "cache_insert digest c r x now s")
      note ref = cache_insert_refines [of s digest, OF wf Inr i]
      from ref(1,2,4) ref(5) [OF small] show ?thesis by (simp add: Op_insert cache_ok_def i Inr)
    qed
  next
    case (Op_replace snapshot now)
    have few: "length snapshot < 2 ^ 64" using assms(2) Op_replace by simp
    show ?thesis
    proof (cases "stage_snapshot digest c snapshot now")
      case (Inl e)
      then have "validate_snapshot digest snapshot = Some e"
        by (auto simp: stage_snapshot_def Let_def split: option.splits)
      with Inl assms show ?thesis
        by (simp add: Op_replace replace_snapshot_at_def spec_replace_def)
    next
      case (Inr sr)
      obtain s' rep where sr: "sr = (s', rep)" by (cases sr)
      note ref = stage_snapshot_refines [OF Inr [unfolded sr] few]
      then show ?thesis
        by (simp add: Op_replace replace_snapshot_at_def Inr sr cache_ok_def trans_le_add2)
    qed
  qed
  then show "cache_ok c (snd (cache_step digest c s op))"
    "spec_step digest c (lru_view s) op =
      (fst (cache_step digest c s op), lru_view (snd (cache_step digest c s op)))"
    "st_next_tick (snd (cache_step digest c s op)) \<le> st_next_tick s + op_ticks op" by blast+
qed

lemma replace_refines:
  assumes "cache_ok c s" and "length snapshot < 2 ^ 64"
  shows "spec_step digest c (lru_view s) (Op_replace snapshot now) =
    (fst (cache_step digest c s (Op_replace snapshot now)),
     lru_view (snd (cache_step digest c s (Op_replace snapshot now))))"
proof (cases "stage_snapshot digest c snapshot now")
  case (Inl e)
  then have "validate_snapshot digest snapshot = Some e"
    by (auto simp: stage_snapshot_def Let_def split: option.splits)
  with Inl show ?thesis by (simp add: replace_snapshot_at_def spec_replace_def)
next
  case (Inr sr)
  obtain s' rep where sr: "sr = (s', rep)" by (cases sr)
  from stage_snapshot_refines [OF Inr [unfolded sr] assms(2)] Inr sr show ?thesis
    by (simp add: replace_snapshot_at_def)
qed

text \<open>A run with its ticks summed up; the invariant holds as long as the sum fits in a \<open>u64\<close>.\<close>

fun counted_step ::
    "('r \<Rightarrow> prompt_cache_error + string) \<Rightarrow> prompt_cache_config \<Rightarrow> ('r, 's) cache_state \<times> nat \<Rightarrow>
     ('r, 's) cache_op \<Rightarrow> ('r, 's) cache_state \<times> nat" where
  "counted_step digest c (s, n) op = (snd (cache_step digest c s op), n + op_ticks op)"

definition counted_ok :: "prompt_cache_config \<Rightarrow> ('r, 's) cache_state \<times> nat \<Rightarrow> bool" where
  "counted_ok c sn \<longleftrightarrow> (snd sn < 2 ^ 64 \<longrightarrow> cache_ok c (fst sn) \<and> st_next_tick (fst sn) \<le> snd sn)"

interpretation cache_run: stepper "counted_step digest c" "counted_ok c" for digest c
proof
  show "counted_ok c (counted_step digest c sn op)" if "counted_ok c sn" for sn op
    using that cache_step_refines(1,3) [of c "fst sn" op digest]
    by (cases sn) (force simp: counted_ok_def)
qed

lemma counted_run:
  "foldl (counted_step digest c) (s, n) ops =
     (foldl (\<lambda>s op. snd (cache_step digest c s op)) s ops, n + sum_list (map op_ticks ops))"
  by (induction ops arbitrary: s n) simp_all

lemma cache_ok_empty: "cache_ok c cache_empty"
  by (simp add: cache_ok_def cache_wf_empty(1)) (simp add: cache_empty_def)

lemma cache_run_ok:
  assumes "sum_list (map op_ticks ops) < 2 ^ 64"
  shows "cache_ok c (foldl (\<lambda>s op. snd (cache_step digest c s op)) cache_empty ops)"
    and "st_next_tick (foldl (\<lambda>s op. snd (cache_step digest c s op)) cache_empty ops)
      \<le> sum_list (map op_ticks ops)"
proof -
  have "counted_ok c (cache_empty, 0)" using cache_ok_empty [of c]
    by (simp add: counted_ok_def) (simp add: cache_empty_def)
  from cache_run.run_inv [OF this, of digest ops] assms
  show "cache_ok c (foldl (\<lambda>s op. snd (cache_step digest c s op)) cache_empty ops)"
    "st_next_tick (foldl (\<lambda>s op. snd (cache_step digest c s op)) cache_empty ops)
      \<le> sum_list (map op_ticks ops)"
    by (simp_all add: counted_run counted_ok_def)
qed

text \<open>
C21: The cache is an LRU list with expiry: after any run of lookups, inserts and imports on an
empty cache that draws fewer than \<open>2 ^ 64\<close> recency ticks (one for a lookup or an insert, one per
entry for an import), it never holds more than its capacity, and the next operation answers and
changes the entries exactly as the operation on the abstract list does, the list of entries
ordered from the least to the most recently used. A lookup finds an entry only if it has not
expired and moves it to the recent end; an insert drops what has expired, replaces an entry of
the same digest, and evicts the least recently used entries above the capacity.
\<close>
theorem cache_refines_lru_list:
  assumes "sum_list (map op_ticks (ops @ [op])) < 2 ^ 64"
    and "s = foldl (\<lambda>s op. snd (cache_step digest c s op)) cache_empty ops"
  shows "length (st_entries s) \<le> pc_capacity c \<and> length (lru_view s) = length (st_entries s) \<and>
     spec_step digest c (lru_view s) op =
       (fst (cache_step digest c s op), lru_view (snd (cache_step digest c s op)))"
proof -
  have "sum_list (map op_ticks ops) < 2 ^ 64" using assms(1) by simp
  note run = cache_run_ok [OF this, where c = c and digest = digest, folded assms(2)]
  have "st_next_tick s + op_ticks op < 2 ^ 64" using run(2) assms(1) by simp
  from cache_step_refines(2) [OF run(1) this] run(1) lru_view_length show ?thesis
    unfolding cache_ok_def by blast
qed

text \<open>Room for one entry, two inserts and a lookup of the first: it has been evicted.\<close>

theorem cache_refines_lru_list_witness:
  "let s = foldl (\<lambda>s op. snd (cache_step Inr \<lparr>pc_capacity = 1, pc_ttl = 60000000000\<rparr> s op)) cache_empty
       [Op_insert ''a'' (1 :: nat) 5, Op_insert ''b'' 2 6]
   in length (st_entries s) \<le> 1 \<and>
     spec_step Inr \<lparr>pc_capacity = 1, pc_ttl = 60000000000\<rparr> (lru_view s) (Op_lookup ''a'' 7) =
       (Out_entry None, lru_view s)"
proof -
  let ?c = "\<lparr>pc_capacity = 1, pc_ttl = 60000000000\<rparr>"
  let ?ops = "[Op_insert ''a'' (1 :: nat) 5, Op_insert ''b'' 2 6]"
  define s where "s = foldl (\<lambda>s op. snd (cache_step Inr ?c s op)) cache_empty ?ops"
  have "sum_list (map op_ticks (?ops @ [Op_lookup ''a'' 7])) < 2 ^ 64" by simp
  note ref = cache_refines_lru_list [OF this s_def]
  have "map_of (st_entries s) ''a'' = None"
    by (simp add: s_def cache_insert_def push_recent_def prune_expired_def cache_empty_def Let_def
        expiry_at_def u64_sat_add_def u64_max_def as_millis_def u64_add_def)
  then have "cache_lookup ''a'' 7 s = (None, s)"
    by (simp add: cache_lookup_def)
  with ref have "length (st_entries s) \<le> 1 \<and>
      spec_step Inr ?c (lru_view s) (Op_lookup ''a'' 7) = (Out_entry None, lru_view s)" by simp
  then show ?thesis unfolding Let_def s_def .
qed

section \<open>Export and import\<close>

definition entry_valid :: "('r \<Rightarrow> prompt_cache_error + string) \<Rightarrow> ('r, 's) cache_entry \<Rightarrow> bool" where
  "entry_valid digest e \<longleftrightarrow> digest (ce_request e) = Inr (ce_key e) \<and>
     is_lowercase_sha256_hex (ce_key e) \<and> ce_stored_at e < ce_expires_at e"

lemma validate_entries_valid:
  "validate_entries digest ks rs es = Inr out \<Longrightarrow> \<forall>e \<in> set es. entry_valid digest e"
  by (induction es arbitrary: ks rs)
    (auto simp: entry_valid_def split: if_splits sum.splits)

lemma validate_entries_accepts:
  "\<forall>e \<in> set es. entry_valid digest e \<Longrightarrow> distinct (map ce_key es) \<Longrightarrow>
     distinct (map ce_lru_rank es) \<Longrightarrow> ce_key ` set es \<inter> set ks = {} \<Longrightarrow>
     ce_lru_rank ` set es \<inter> set rs = {} \<Longrightarrow>
     validate_entries digest ks rs es = Inr (rev (map ce_lru_rank es) @ rs)"
  by (induction es arbitrary: ks rs) (auto simp: entry_valid_def)

lemma ranks_rank_entries: "map ce_lru_rank (rank_entries es) = [0 ..< length es]"
  by (intro nth_equalityI) (simp_all add: rank_entries_def nth_enumerate_eq)

lemma rank_entries_again: "rank_entries (rank_entries es) = rank_entries es"
  by (intro nth_equalityI) (simp_all add: rank_entries_def nth_enumerate_eq)

lemma set_rank_entries:
  "x \<in> set (rank_entries es) \<Longrightarrow> \<exists>e \<in> set es. \<exists>i. x = e\<lparr>ce_lru_rank := i\<rparr>"
  by (force simp: rank_entries_def in_set_enumerate_eq)

lemma snapshot_at_view:
  assumes "cache_wf s"
  shows "snapshot_at now s = sort_key (\<lambda>e. map (of_char :: char \<Rightarrow> nat) (ce_key e))
    (rank_entries (filter (\<lambda>e. ce_expires_at e > now) (lru_view s)))"
proof -
  have "List.map_filter (\<lambda>p. map_of (st_entries s) (snd p)) xs =
      map (\<lambda>p. the (map_of (st_entries s) (snd p))) xs" if "set xs \<subseteq> set (st_lru_order s)" for xs
    using that
  proof (induction xs)
    case (Cons p xs)
    with assms repD(4) [of "map_of (st_entries s)" "st_lru_order s" "fst p" "snd p"]
    obtain sl where "map_of (st_entries s) (snd p) = Some sl" by (auto simp: cache_wf_def)
    with Cons show ?case by (simp add: List.map_filter_simps)
  qed (simp add: List.map_filter_simps)
  then show ?thesis by (simp add: snapshot_at_def lru_view_def view_of_def comp_def)
qed

lemma snapshot_reimport:
  assumes wf: "cache_wf s" and valid: "\<forall>e \<in> set (lru_view s). entry_valid digest e"
    and cap: "length (filter (\<lambda>e. ce_expires_at e > now) (lru_view s)) \<le> cap"
  shows "spec_replace digest cap (snapshot_at now s) now es =
    (Inr \<lparr>ir_imported = length (filter (\<lambda>e. ce_expires_at e > now) (lru_view s)),
          ir_expired = 0, ir_evicted = 0\<rparr>,
     rank_entries (filter (\<lambda>e. ce_expires_at e > now) (lru_view s)))"
proof -
  let ?L = "filter (\<lambda>e. ce_expires_at e > now) (lru_view s)"
  let ?R = "rank_entries ?L" and ?S = "snapshot_at now s"
  have S: "?S = sort_key (\<lambda>e. map (of_char :: char \<Rightarrow> nat) (ce_key e)) ?R"
    by (rule snapshot_at_view [OF wf])
  have setS: "set ?S = set ?R" "mset ?S = mset ?R" "length ?S = length ?L" by (simp_all add: S)
  have live: "\<forall>e \<in> set ?S. ce_expires_at e > now"
    unfolding setS(1) by (auto dest!: set_rank_entries)
  have ok: "\<forall>e \<in> set ?S. entry_valid digest e"
    unfolding setS(1) using valid by (auto dest!: set_rank_entries simp: entry_valid_def)
  have ranks: "distinct (map ce_lru_rank ?R)" by (simp add: ranks_rank_entries)
  have "distinct (map ce_key (lru_view s))"
    using wf repD(3) view_keys by (fastforce simp: cache_wf_def lru_view_def)
  then have "distinct (map ce_key ?L)" by (rule distinct_map_filter)
  then have keys: "distinct (map ce_key ?R)" by (simp add: map_rank_entries)
  have dS: "distinct (map f ?S) = distinct (map f ?R)" for f :: "('a, 'b) cache_entry \<Rightarrow> 'c"
    by (metis mset_eq_imp_distinct_iff mset_map setS(2))
  have "validate_entries digest [] [] ?S = Inr (rev (map ce_lru_rank ?S) @ [])"
    using ok keys ranks by (intro validate_entries_accepts) (simp_all add: dS)
  moreover have "\<forall>r \<in> set (map ce_lru_rank ?S). r < length ?S"
  proof -
    have "set (map ce_lru_rank ?S) = set (map ce_lru_rank ?R)" using setS(1) by simp
    then show ?thesis using setS(3) by (simp only: ranks_rank_entries) simp
  qed
  ultimately have v: "validate_snapshot digest ?S = None"
    by (auto simp: validate_snapshot_def)
  have "filter (\<lambda>e. ce_expires_at e > now) ?S = ?S" using live by simp
  moreover have "sort_key ce_lru_rank ?S = ?R"
  proof (rule sort_key_inj_key_eq)
    show "mset ?S = mset ?R" by (rule setS(2))
    show "inj_on ce_lru_rank (set ?S)" using ranks unfolding setS(1) by (simp add: distinct_map)
    show "sorted (map ce_lru_rank ?R)" by (simp add: ranks_rank_entries)
  qed
  moreover have "length ?R - cap = 0" using cap by simp
  ultimately show ?thesis using v setS(3) by (simp add: spec_replace_def Let_def rank_entries_again)
qed

fun op_time :: "('r, 's) cache_op \<Rightarrow> nat" where
  "op_time (Op_lookup key now) = now"
| "op_time (Op_insert r x now) = now"
| "op_time (Op_replace snapshot now) = now"

lemma spec_step_valid:
  assumes "\<forall>e \<in> set es. entry_valid digest e" "op_time op < u64_max"
    and "0 < as_millis (pc_ttl c) mod 2 ^ 64"
    and hex: "\<And>r k. digest r = Inr k \<Longrightarrow> is_lowercase_sha256_hex k"
  shows "\<forall>e \<in> set (snd (spec_step digest c es op)). entry_valid digest e"
proof (cases op)
  case (Op_lookup key now)
  have "set (snd (spec_lookup key now es)) \<subseteq> set es"
    by (auto simp: spec_lookup_def Let_def find_Some_iff split: option.splits)
  with assms(1) show ?thesis by (auto simp: Op_lookup)
next
  case (Op_insert r x now)
  show ?thesis
  proof (cases "digest r")
    case (Inl e)
    with assms(1) show ?thesis by (simp add: Op_insert)
  next
    case (Inr key)
    have "now < expiry_at c now" using assms(2,3) by (auto simp: expiry_at_def u64_sat_add_def Op_insert)
    with Inr hex have "entry_valid digest \<lparr>ce_key = key, ce_request = r, ce_response = x,
        ce_stored_at = now, ce_expires_at = expiry_at c now, ce_lru_rank = 0\<rparr>"
      by (simp add: entry_valid_def)
    with assms(1) Inr show ?thesis
      by (auto simp: Op_insert spec_insert_def Let_def dest!: in_set_dropD)
  qed
next
  case (Op_replace snapshot now)
  show ?thesis
  proof (cases "validate_snapshot digest snapshot")
    case (Some e)
    with assms(1) show ?thesis by (simp add: Op_replace spec_replace_def)
  next
    case None
    then obtain out where "validate_entries digest [] [] snapshot = Inr out"
      by (auto simp: validate_snapshot_def split: sum.splits)
    then have "\<forall>e \<in> set snapshot. entry_valid digest e" by (rule validate_entries_valid)
    with None show ?thesis
      by (auto simp: Op_replace spec_replace_def Let_def entry_valid_def
          dest!: set_rank_entries in_set_dropD)
  qed
qed

text \<open>Ticks are distinct, so a cache holds no more entries than it drew ticks.\<close>

lemma lru_view_ticks:
  assumes "cache_wf s"
  shows "length (lru_view s) \<le> st_next_tick s"
proof -
  have d: "distinct (map fst (st_lru_order s))" and sub: "set (map fst (st_lru_order s)) \<subseteq> {..<st_next_tick s}"
    using assms repD(2) by (fastforce simp: cache_wf_def)+
  from card_mono [OF _ sub] distinct_card [OF d] show ?thesis by (simp add: lru_view_def view_of_def)
qed

text \<open>
C22: What a cache exports another can import: after any run that draws fewer than \<open>2 ^ 64\<close>
recency ticks, with a time-to-live of at least a
millisecond and clock readings short of the end of \<open>u64\<close>, the snapshot is accepted by a cache
with room for it, which then holds exactly the entries that had not expired, in the same order
of recency, with no entry counted as expired or evicted.
\<close>
theorem snapshot_survives_import:
  assumes "\<forall>op \<in> set ops. op_time op < u64_max" and "0 < as_millis (pc_ttl c) mod 2 ^ 64"
    and "digest = digest_request to_string hash"
    and "s = foldl (\<lambda>s op. snd (cache_step digest c s op)) cache_empty ops"
    and "live = filter (\<lambda>e. ce_expires_at e > now) (lru_view s)"
    and "length live \<le> pc_capacity c'" and "cache_ok c' s'"
    and "sum_list (map op_ticks ops) < 2 ^ 64"
  shows "fst (replace_snapshot_at digest c' (snapshot_at now s) now s') =
           Inr \<lparr>ir_imported = length live, ir_expired = 0, ir_evicted = 0\<rparr> \<and>
         lru_view (snd (replace_snapshot_at digest c' (snapshot_at now s) now s')) = rank_entries live"
proof -
  have hex: "\<And>r k. digest r = Inr k \<Longrightarrow> is_lowercase_sha256_hex k"
    unfolding assms(3) by (rule digest_request_hex)
  have v: "\<forall>e \<in> set (lru_view s). entry_valid digest e"
    unfolding assms(4) using assms(1,8)
  proof (induction ops rule: rev_induct)
    case Nil
    show ?case by (simp add: cache_wf_empty)
  next
    case (snoc op ops)
    let ?s = "foldl (\<lambda>s op. snd (cache_step digest c s op)) cache_empty ops"
    have ticks: "sum_list (map op_ticks ops) < 2 ^ 64" using snoc.prems(2) by simp
    note run = cache_run_ok [OF ticks, where c = c and digest = digest]
    have v: "\<forall>e \<in> set (lru_view ?s). entry_valid digest e" using snoc ticks by auto
    have "op_time op < u64_max" "st_next_tick ?s + op_ticks op < 2 ^ 64"
      using snoc.prems run(2) by simp_all
    from spec_step_valid [OF v this(1) assms(2) hex] cache_step_refines(2) [OF run(1) this(2)] show ?case
      by simp
  qed
  note run = cache_run_ok [OF assms(8), where c = c and digest = digest, folded assms(4)]
  have wf: "cache_wf s" using run(1) by (simp add: cache_ok_def)
  have "length (filter (\<lambda>e. ce_expires_at e > now) (lru_view s)) \<le> st_next_tick s"
    using le_trans [OF length_filter_le lru_view_ticks [OF wf]] .
  then have few: "length (snapshot_at now s) < 2 ^ 64"
    using run(2) assms(8) by (simp add: snapshot_at_view [OF wf])
  have "spec_step digest c' (lru_view s') (Op_replace (snapshot_at now s) now) =
      (Out_report (Inr \<lparr>ir_imported = length live, ir_expired = 0, ir_evicted = 0\<rparr>), rank_entries live)"
    using snapshot_reimport [OF wf v] assms(5,6) by simp
  with replace_refines [OF assms(7) few, of digest now]
  show ?thesis by simp
qed

theorem snapshot_survives_import_witness:
  "let c = \<lparr>pc_capacity = 1, pc_ttl = 60000000000\<rparr>;
       digest = digest_request (\<lambda>v :: unit json. ''v'') (\<lambda>r. Inr (\<lambda>i. 7));
       s = foldl (\<lambda>s op. snd (cache_step digest c s op)) cache_empty
             [Op_insert (request_new ''m'') () 5, Op_lookup ''k'' 6]
   in lru_view (snd (replace_snapshot_at digest c (snapshot_at 7 s) 7 cache_empty)) =
        rank_entries (filter (\<lambda>e. ce_expires_at e > 7) (lru_view s))"
proof -
  let ?c = "\<lparr>pc_capacity = 1, pc_ttl = 60000000000\<rparr>"
  let ?d = "digest_request (\<lambda>v :: unit json. ''v'') (\<lambda>r. Inr (\<lambda>i. 7))"
  let ?ops = "[Op_insert (request_new ''m'') () 5, Op_lookup ''k'' 6]"
  let ?s = "foldl (\<lambda>s op. snd (cache_step ?d ?c s op)) cache_empty ?ops"
  have ok: "cache_ok ?c (cache_empty :: (unit json unified_request, unit) cache_state)"
    by (rule cache_ok_empty)
  have ticks: "sum_list (map op_ticks ?ops) < 2 ^ 64" by simp
  then have "cache_ok ?c ?s" by (rule cache_run_ok(1))
  then have "length (lru_view ?s) \<le> pc_capacity ?c" using lru_view_length [of ?s]
    by (simp only: cache_ok_def)
  then have len: "length (filter (\<lambda>e. ce_expires_at e > 7) (lru_view ?s)) \<le> pc_capacity ?c"
    by (rule le_trans [OF length_filter_le])
  have "\<forall>op \<in> set ?ops. op_time op < u64_max" "0 < as_millis (pc_ttl ?c) mod 2 ^ 64"
    by (simp_all add: u64_max_def as_millis_def)
  from snapshot_survives_import [OF this refl refl refl len ok ticks] show ?thesis
    unfolding Let_def by blast
qed

text \<open>
  The expiry keeps only the low 64 bits of the time-to-live in milliseconds, so a very long one
  can expire an entry as it is stored.
\<close>

lemma long_ttl_expires_at_once:
  assumes "now \<le> u64_max"
  shows "expiry_at \<lparr>pc_capacity = cap, pc_ttl = from_millis (2 ^ 64)\<rparr> now = now"
  using assms by (simp add: expiry_at_def as_millis_def from_millis_def u64_sat_add_def)


section \<open>What was just stored is found\<close>

lemma cache_insert_then_lookup:
  assumes "cache_wf s" and "digest request = Inr key" and "0 < pc_capacity c" and "now' < expiry_at c now"
  shows "\<exists>e s'. cache_lookup key now' (snd (cache_insert digest c request response now s)) = (Some e, s') \<and>
    ce_response e = response \<and> ce_request e = request"
proof -
  let ?e = "\<lparr>ce_key = key, ce_request = request, ce_response = response, ce_stored_at = now,
       ce_expires_at = expiry_at c now, ce_lru_rank = 0\<rparr>"
  obtain res s1 where i: "cache_insert digest c request response now s = (res, s1)"
    by (cases "cache_insert digest c request response now s")
  note ins = cache_insert_refines [OF assms(1,2) i]
  have "?e \<in> set (lru_view s1)" using assms(3) by (simp add: ins(4) spec_insert_def Let_def)
  then obtain t k where tk: "(t, k) \<in> set (st_lru_order s1)" "cs_entry (the (map_of (st_entries s1) k)) = ?e"
    by (auto simp: lru_view_def view_of_def)
  from repD(4) [OF ins(3) tk(1)] tk(2) obtain sl
    where sl: "map_of (st_entries s1) key = Some sl" "cs_entry sl = ?e" by auto
  then have "\<exists>n s2. cache_lookup key now' s1 = (Some (?e\<lparr>ce_lru_rank := n\<rparr>), s2)"
    using assms(4) by (simp add: cache_lookup_def Let_def)
  then show ?thesis using i by auto
qed

end
