(* ===== verification/Client.thy ===== *)
theory Client
  imports Prompt_Cache
begin

text \<open>
  \<open>src/plugin.rs\<close> and \<open>src/client.rs\<close>: the plugin hooks, the client and its builder, the request
  pipeline, the instrumented stream and the stream that replays a cached response.

  Plugins are values of hooks over one state \<open>'s\<close>, which stands for whatever they keep behind
  their \<open>&self\<close>. A provider stream is the list of what its polls will do: record metadata, then
  answer. Provider code, the request digest and the clock readings are parameters. The mutexes of
  the two handles are not modelled; one poll is one step. Pass-through configuration (OAuth,
  llama.cpp knobs, the HTTP client) is left out.
\<close>

section \<open>Plugins\<close>

text \<open>A failing hook's change to the request or block is dropped with it, so it is not returned.\<close>

record ('s, 'j) cuca_plugin =
  pl_name :: string
  pl_on_request :: "'j unified_request \<Rightarrow> 's \<Rightarrow> (plugin_error + 'j unified_request) \<times> 's"
  pl_execute_local_tool :: "'j content_block \<Rightarrow> 's \<Rightarrow> (plugin_error + 'j content_block option) \<times> 's"
  pl_on_stream_chunk :: "'j content_block \<Rightarrow> 's \<Rightarrow> (plugin_error + 'j content_block) \<times> 's"
  pl_on_response_complete :: "'j unified_response \<Rightarrow> 's \<Rightarrow> plugin_error option \<times> 's"

definition plugin_default :: "string \<Rightarrow> ('s, 'j) cuca_plugin" where
  "plugin_default name =
     \<lparr>pl_name = name, pl_on_request = (\<lambda>r s. (Inr r, s)),
      pl_execute_local_tool = (\<lambda>b s. (Inr None, s)), pl_on_stream_chunk = (\<lambda>b s. (Inr b, s)),
      pl_on_response_complete = (\<lambda>r s. (None, s))\<rparr>"

text \<open>
  The calls a client makes of its plugins, by the plugin's position, oldest first. The trace is
  kept beside the state for the lemmas to speak of; no operation reads it.
\<close>

datatype 'j hook_call =
    CallRequest nat "'j unified_request"
  | CallTool nat "'j content_block"
  | CallChunk nat "'j content_block"
  | CallComplete nat "'j unified_response"

section \<open>The client\<close>

record response_metadata =
  md_prompt_cache_usage :: "prompt_cache_usage option"
  md_token_usage :: "token_usage option"

definition metadata_empty :: response_metadata where
  "metadata_empty = \<lparr>md_prompt_cache_usage = None, md_token_usage = None\<rparr>"

definition set_prompt_cache_usage :: "prompt_cache_usage \<Rightarrow> response_metadata \<Rightarrow> response_metadata" where
  "set_prompt_cache_usage u m = m\<lparr>md_prompt_cache_usage := Some u\<rparr>"

definition set_token_usage :: "token_usage \<Rightarrow> response_metadata \<Rightarrow> response_metadata" where
  "set_token_usage u m = m\<lparr>md_token_usage := Some u\<rparr>"

definition metadata_take :: "response_metadata \<Rightarrow> response_metadata \<times> response_metadata" where
  "metadata_take m = (m, metadata_empty)"

fun map_prompt_cache_error :: "prompt_cache_error \<Rightarrow> cuca_error" where
  "map_prompt_cache_error (PcJson message) = ErrJson message"
| "map_prompt_cache_error other = ErrConfig (prompt_cache_error_display other)"

text \<open>What the client and other calls share: the plugins' state, the cache, the caller's handle.\<close>

record ('s, 'j) client_world =
  cw_state :: 's
  cw_trace :: "'j hook_call list"
  cw_cache :: "('j unified_request, 'j unified_response) cache_state"
  cw_handle :: "'j unified_response option"

record ('s, 'j) client =
  cl_provider :: provider_endpoint
  cl_base_url :: string
  cl_api_key :: "string option"
  cl_bearer_token :: "string option"
  cl_plugins :: "('s, 'j) cuca_plugin list"
  cl_local_model :: bool
  cl_orchestrator :: bool
  cl_prompt_cache :: "prompt_cache_config option"

record ('s, 'j) client_builder =
  cb_provider :: "provider_endpoint option"
  cb_base_url :: "string option"
  cb_api_key :: "string option"
  cb_bearer_token :: "string option"
  cb_plugins :: "('s, 'j) cuca_plugin list"
  cb_local_model :: bool
  cb_orchestrator :: bool
  cb_cache_config :: "prompt_cache_config option"
  cb_cache_service :: "prompt_cache_config option"

definition builder_new :: "('s, 'j) client_builder" where
  "builder_new = \<lparr>cb_provider = None, cb_base_url = None, cb_api_key = None, cb_bearer_token = None,
     cb_plugins = [], cb_local_model = False, cb_orchestrator = False, cb_cache_config = None,
     cb_cache_service = None\<rparr>"

definition with_provider :: "provider_endpoint \<Rightarrow> ('s, 'j) client_builder \<Rightarrow> ('s, 'j) client_builder" where
  "with_provider p b = b\<lparr>cb_provider := Some p\<rparr>"

definition with_base_url :: "string \<Rightarrow> ('s, 'j) client_builder \<Rightarrow> ('s, 'j) client_builder" where
  "with_base_url u b = b\<lparr>cb_base_url := Some u\<rparr>"

definition with_api_key :: "string \<Rightarrow> ('s, 'j) client_builder \<Rightarrow> ('s, 'j) client_builder" where
  "with_api_key k b = b\<lparr>cb_api_key := Some k\<rparr>"

definition with_bearer_token :: "string \<Rightarrow> ('s, 'j) client_builder \<Rightarrow> ('s, 'j) client_builder" where
  "with_bearer_token t b = b\<lparr>cb_bearer_token := Some t\<rparr>"

definition register_plugin :: "('s, 'j) cuca_plugin \<Rightarrow> ('s, 'j) client_builder \<Rightarrow> ('s, 'j) client_builder" where
  "register_plugin p b = b\<lparr>cb_plugins := cb_plugins b @ [p]\<rparr>"

definition with_local_model :: "('s, 'j) client_builder \<Rightarrow> ('s, 'j) client_builder" where
  "with_local_model b = b\<lparr>cb_local_model := True\<rparr>"

definition with_orchestrator :: "('s, 'j) client_builder \<Rightarrow> ('s, 'j) client_builder" where
  "with_orchestrator b = b\<lparr>cb_orchestrator := True\<rparr>"

definition with_prompt_cache_config :: "prompt_cache_config \<Rightarrow> ('s, 'j) client_builder \<Rightarrow> ('s, 'j) client_builder" where
  "with_prompt_cache_config c b = b\<lparr>cb_cache_config := Some c\<rparr>"

definition with_prompt_cache_service :: "prompt_cache_config \<Rightarrow> ('s, 'j) client_builder \<Rightarrow> ('s, 'j) client_builder" where
  "with_prompt_cache_service c b = b\<lparr>cb_cache_service := Some c\<rparr>"

text \<open>
  \<open>build\<close>; \<open>model_required\<close> is the message of the local provider. The cache state of a new cache is
  \<^const>\<open>cache_empty\<close>; a shared service brings its own.
\<close>

definition build :: "string \<Rightarrow> ('s, 'j) client_builder \<Rightarrow> cuca_error + ('s, 'j) client" where
  "build model_required b =
     (case cb_provider b of
        None \<Rightarrow> Inl (ErrConfig ''no provider selected; call with_provider before build'')
      | Some selected \<Rightarrow>
          if selected = LocalModel \<and> \<not> cb_local_model b then Inl (ErrConfig model_required)
          else
            let prompt_cache = (case (cb_cache_service b, cb_cache_config b) of
                  (Some service, _) \<Rightarrow> Some service
                | (None, Some config) \<Rightarrow> Some config
                | (None, None) \<Rightarrow> None)
            in Inr \<lparr>cl_provider = selected,
                    cl_base_url = (case cb_base_url b of Some u \<Rightarrow> u | None \<Rightarrow> []),
                    cl_api_key = cb_api_key b, cl_bearer_token = cb_bearer_token b,
                    cl_plugins = cb_plugins b, cl_local_model = cb_local_model b,
                    cl_orchestrator = cb_orchestrator b, cl_prompt_cache = prompt_cache\<rparr>)"

section \<open>Streams\<close>

datatype 'a poll = Pending | Ready "'a option"

text \<open>What a provider stream does: it records metadata, or answers a poll.\<close>

datatype 'j stream_event =
    RecordCacheUsage prompt_cache_usage
  | RecordUsage token_usage
  | Answer "(cuca_error + 'j content_block) poll"

fun poll_inner ::
    "'j stream_event list \<Rightarrow> response_metadata \<Rightarrow>
     (cuca_error + 'j content_block) poll \<times> 'j stream_event list \<times> response_metadata" where
  "poll_inner [] m = (Ready None, [], m)"
| "poll_inner (RecordCacheUsage u # es) m = poll_inner es (set_prompt_cache_usage u m)"
| "poll_inner (RecordUsage u # es) m = poll_inner es (set_token_usage u m)"
| "poll_inner (Answer p # es) m = (p, es, m)"

text \<open>The cache and request a stream writes back to, and the stream.\<close>

record 'j cache_write_seam =
  seam_cache :: prompt_cache_config
  seam_request :: "'j unified_request"

record ('s, 'j) plugin_stream =
  ps_inner :: "'j stream_event list"
  ps_metadata :: response_metadata
  ps_plugins :: "('s, 'j) cuca_plugin list"
  ps_started :: instant
  ps_response :: "'j unified_response"
  ps_done :: bool
  ps_completed :: bool
  ps_cache_write :: "'j cache_write_seam option"
  ps_saw_error :: bool

record ('s, 'j) cache_hit_stream =
  ch_blocks :: "'j content_block list"
  ch_plugins :: "('s, 'j) cuca_plugin list"
  ch_started :: instant
  ch_response :: "'j unified_response"
  ch_done :: bool
  ch_completed :: bool

datatype ('s, 'j) response_stream =
    Instrumented "('s, 'j) plugin_stream"
  | Replayed "('s, 'j) cache_hit_stream"
  | Unwrapped "'j stream_event list"

subsection \<open>Hooks\<close>

definition traced :: "'j hook_call \<Rightarrow> ('s \<Rightarrow> 'a \<times> 's) \<Rightarrow> ('s, 'j) client_world \<Rightarrow> 'a \<times> ('s, 'j) client_world" where
  "traced call hook w =
     (let (r, s) = hook (cw_state w) in (r, w\<lparr>cw_state := s, cw_trace := cw_trace w @ [call]\<rparr>))"

fun run_request_hooks ::
    "nat \<Rightarrow> ('s, 'j) cuca_plugin list \<Rightarrow> 'j unified_request \<Rightarrow> ('s, 'j) client_world \<Rightarrow>
     (cuca_error + 'j unified_request) \<times> ('s, 'j) client_world" where
  "run_request_hooks i [] r w = (Inr r, w)"
| "run_request_hooks i (p # ps) r w =
     (case traced (CallRequest i r) (pl_on_request p r) w of
        (Inl e, w) \<Rightarrow> (Inl (ErrPlugin e), w)
      | (Inr r, w) \<Rightarrow> run_request_hooks (i + 1) ps r w)"

definition bad_replacement :: cuca_error where
  "bad_replacement = ErrPlugin (PluginValidation ''local tool result''
     ''local tool executor must return a ToolResult for the input ToolCall id'')"

fun is_result_of :: "string \<Rightarrow> 'j content_block \<Rightarrow> bool" where
  "is_result_of i (ToolResultBlock tool_call_id t) = (tool_call_id = i)"
| "is_result_of i _ = False"

fun run_local_tools ::
    "nat \<Rightarrow> ('s, 'j) cuca_plugin list \<Rightarrow> string \<Rightarrow> 'j content_block \<Rightarrow> ('s, 'j) client_world \<Rightarrow>
     (cuca_error + 'j content_block) \<times> ('s, 'j) client_world" where
  "run_local_tools i [] cid chunk w = (Inr chunk, w)"
| "run_local_tools i (p # ps) cid chunk w =
     (case traced (CallTool i chunk) (pl_execute_local_tool p chunk) w of
        (Inr (Some replacement), w) \<Rightarrow>
          (if is_result_of cid replacement then Inr replacement else Inl bad_replacement, w)
      | (Inr None, w) \<Rightarrow> run_local_tools (i + 1) ps cid chunk w
      | (Inl e, w) \<Rightarrow> (Inl (ErrPlugin e), w))"

fun run_chunk_hooks ::
    "nat \<Rightarrow> ('s, 'j) cuca_plugin list \<Rightarrow> 'j content_block \<Rightarrow> ('s, 'j) client_world \<Rightarrow>
     (cuca_error + 'j content_block) \<times> ('s, 'j) client_world" where
  "run_chunk_hooks i [] chunk w = (Inr chunk, w)"
| "run_chunk_hooks i (p # ps) chunk w =
     (case traced (CallChunk i chunk) (pl_on_stream_chunk p chunk) w of
        (Inl e, w) \<Rightarrow> (Inl (ErrPlugin e), w)
      | (Inr chunk, w) \<Rightarrow> run_chunk_hooks (i + 1) ps chunk w)"

text \<open>A failing terminal hook is logged at most.\<close>

fun run_completion_hooks ::
    "nat \<Rightarrow> ('s, 'j) cuca_plugin list \<Rightarrow> 'j unified_response \<Rightarrow> ('s, 'j) client_world \<Rightarrow> ('s, 'j) client_world" where
  "run_completion_hooks i [] r w = w"
| "run_completion_hooks i (p # ps) r w =
     run_completion_hooks (i + 1) ps r (snd (traced (CallComplete i r) (pl_on_response_complete p r) w))"

text \<open>\<open>publish_response\<close>: the flag, the response left behind, and the handle's slot.\<close>

definition publish_response ::
    "bool \<Rightarrow> 'j unified_response \<Rightarrow> 'j unified_response option \<Rightarrow>
     bool \<times> 'j unified_response \<times> 'j unified_response option" where
  "publish_response completed response slot =
     (if completed then (False, response\<lparr>rs_content := []\<rparr>, Some response)
      else (False, response, slot))"

definition handle_take :: "'j unified_response option \<Rightarrow> 'j unified_response option \<times> 'j unified_response option" where
  "handle_take slot = (slot, None)"

fun counts_as_token :: "'j content_block \<Rightarrow> bool" where
  "counts_as_token (TextBlock t) = True"
| "counts_as_token (ThinkingBlock t sig) = True"
| "counts_as_token (ToolCallBlock i n a) = True"
| "counts_as_token (ImageBase64 m d) = False"
| "counts_as_token (ToolResultBlock i t) = False"

subsection \<open>Polling\<close>

text \<open>The token counter is a \<open>u32\<close>.\<close>

definition accept_chunk :: "'j content_block \<Rightarrow> 'j unified_response \<Rightarrow> 'j unified_response" where
  "accept_chunk chunk r =
     r\<lparr>rs_content := rs_content r @ [chunk],
       rs_completion_tokens := (if counts_as_token chunk
         then (rs_completion_tokens r + 1) mod 2 ^ 32 else rs_completion_tokens r)\<rparr>"

definition stream_block ::
    "'j content_block \<Rightarrow> ('s, 'j) plugin_stream \<Rightarrow> ('s, 'j) client_world \<Rightarrow>
     (cuca_error + 'j content_block) \<times> ('s, 'j) plugin_stream \<times> ('s, 'j) client_world" where
  "stream_block chunk ps w =
     (case (case chunk of
              ToolCallBlock cid n a \<Rightarrow> run_local_tools 0 (ps_plugins ps) cid chunk w
            | _ \<Rightarrow> (Inr chunk, w)) of
        (Inl e, w) \<Rightarrow> (Inl e, ps\<lparr>ps_saw_error := True\<rparr>, w)
      | (Inr chunk, w) \<Rightarrow>
          (case run_chunk_hooks 0 (ps_plugins ps) chunk w of
             (Inl e, w) \<Rightarrow> (Inl e, ps\<lparr>ps_saw_error := True\<rparr>, w)
           | (Inr chunk, w) \<Rightarrow>
               (Inr chunk, ps\<lparr>ps_response := accept_chunk chunk (ps_response ps)\<rparr>, w)))"

definition final_response ::
    "instant \<Rightarrow> instant \<Rightarrow> response_metadata \<Rightarrow> 'j unified_response \<Rightarrow> 'j unified_response" where
  "final_response now started m r =
     (let r = r\<lparr>rs_duration_secs := F64 (as_secs_f64 (now - started)),
                rs_prompt_cache_usage := md_prompt_cache_usage m\<rparr>
      in case md_token_usage m of
           Some usage \<Rightarrow> r\<lparr>rs_prompt_tokens := tu_prompt usage,
                           rs_completion_tokens := tu_completion usage, rs_usage := Some usage\<rparr>
         | None \<Rightarrow> r)"

definition stream_end ::
    "('j unified_request \<Rightarrow> prompt_cache_error + string) \<Rightarrow> instant \<Rightarrow> nat \<Rightarrow>
     ('s, 'j) plugin_stream \<Rightarrow> ('s, 'j) client_world \<Rightarrow> ('s, 'j) plugin_stream \<times> ('s, 'j) client_world" where
  "stream_end digest now now_ms ps w =
     (if ps_done ps then (ps, w)
      else
        let (m, m') = metadata_take (ps_metadata ps);
            r = final_response now (ps_started ps) m (ps_response ps);
            w = run_completion_hooks 0 (ps_plugins ps) r w;
            (seam, w) = (if ps_saw_error ps then (ps_cache_write ps, w)
              else (None, case ps_cache_write ps of
                     None \<Rightarrow> w
                   | Some s \<Rightarrow> w\<lparr>cw_cache := snd (cache_insert digest (seam_cache s) (seam_request s) r
                                    now_ms (cw_cache w))\<rparr>));
            (completed, r, slot) = publish_response (ps_completed ps) r (cw_handle w)
        in (ps\<lparr>ps_done := True, ps_metadata := m', ps_response := r, ps_cache_write := seam,
               ps_completed := completed\<rparr>, w\<lparr>cw_handle := slot\<rparr>))"

definition poll_plugin_stream ::
    "('j unified_request \<Rightarrow> prompt_cache_error + string) \<Rightarrow> instant \<Rightarrow> nat \<Rightarrow>
     ('s, 'j) plugin_stream \<Rightarrow> ('s, 'j) client_world \<Rightarrow>
     (cuca_error + 'j content_block) poll \<times> ('s, 'j) plugin_stream \<times> ('s, 'j) client_world" where
  "poll_plugin_stream digest now now_ms ps w =
     (let (answer, inner, m) = poll_inner (ps_inner ps) (ps_metadata ps);
          ps = ps\<lparr>ps_inner := inner, ps_metadata := m\<rparr>
      in case answer of
           Ready (Some (Inr chunk)) \<Rightarrow>
             (let (item, ps, w) = stream_block chunk ps w in (Ready (Some item), ps, w))
         | Ready (Some (Inl e)) \<Rightarrow> (Ready (Some (Inl e)), ps\<lparr>ps_saw_error := True\<rparr>, w)
         | Ready None \<Rightarrow>
             (let (ps, w) = stream_end digest now now_ms ps w in (Ready None, ps, w))
         | Pending \<Rightarrow> (Pending, ps, w))"

definition poll_cache_hit ::
    "instant \<Rightarrow> ('s, 'j) cache_hit_stream \<Rightarrow> ('s, 'j) client_world \<Rightarrow>
     (cuca_error + 'j content_block) poll \<times> ('s, 'j) cache_hit_stream \<times> ('s, 'j) client_world" where
  "poll_cache_hit now ch w =
     (case ch_blocks ch of
        block # blocks \<Rightarrow> (Ready (Some (Inr block)), ch\<lparr>ch_blocks := blocks\<rparr>, w)
      | [] \<Rightarrow>
          if ch_done ch then (Ready None, ch, w)
          else
            let r = (ch_response ch)\<lparr>rs_duration_secs := F64 (as_secs_f64 (now - ch_started ch))\<rparr>;
                w = run_completion_hooks 0 (ch_plugins ch) r w;
                (completed, r, slot) = publish_response (ch_completed ch) r (cw_handle w)
            in (Ready None, ch\<lparr>ch_done := True, ch_response := r, ch_completed := completed\<rparr>,
                w\<lparr>cw_handle := slot\<rparr>))"


section \<open>The pipeline\<close>

definition instrument ::
    "bool \<Rightarrow> instant \<Rightarrow> string \<Rightarrow> 'j stream_event list \<Rightarrow> 'j cache_write_seam option \<Rightarrow>
     ('s, 'j) client \<Rightarrow> ('s, 'j) plugin_stream" where
  "instrument completed now model events seam c =
     \<lparr>ps_inner = events, ps_metadata = metadata_empty, ps_plugins = cl_plugins c, ps_started = now,
      ps_response = \<lparr>rs_model = model, rs_provider = cl_provider c, rs_duration_secs = F64 0,
        rs_prompt_tokens = 0, rs_completion_tokens = 0, rs_finish_reason = None, rs_content = [],
        rs_prompt_cache_usage = None, rs_usage = None\<rparr>,
      ps_done = False, ps_completed = completed, ps_cache_write = seam, ps_saw_error = False\<rparr>"

definition instrument_cache_hit ::
    "bool \<Rightarrow> instant \<Rightarrow> ('j unified_request, 'j unified_response) cache_entry \<Rightarrow>
     ('s, 'j) client \<Rightarrow> ('s, 'j) cache_hit_stream" where
  "instrument_cache_hit completed now entry c =
     \<lparr>ch_blocks = rs_content (ce_response entry), ch_plugins = cl_plugins c, ch_started = now,
      ch_response = ce_response entry, ch_done = False, ch_completed = completed\<rparr>"

fun provider_feature :: "provider_endpoint \<Rightarrow> string option" where
  "provider_feature LlamaCpp = Some ''provider-llamacpp''"
| "provider_feature Anthropic = Some ''provider-anthropic''"
| "provider_feature DeepSeek = Some ''provider-deepseek''"
| "provider_feature GoogleGemini = Some ''provider-gemini''"
| "provider_feature OpenAi = Some ''provider-openai''"
| "provider_feature Vllm = Some ''provider-vllm''"
| "provider_feature LmStudio = Some ''provider-lmstudio''"
| "provider_feature LocalModel = Some ''provider-local''"
| "provider_feature (CustomEndpoint inner) = None"

text \<open>\<open>enabled\<close> lists the provider features the crate was compiled with.\<close>

definition no_dispatch_error :: "string list \<Rightarrow> provider_endpoint \<Rightarrow> cuca_error option" where
  "no_dispatch_error enabled p =
     (case provider_feature p of
        None \<Rightarrow> Some (ErrConfig ''custom endpoints require a registered adapter'')
      | Some feature \<Rightarrow> if feature \<in> set enabled then None else Some (ErrProviderNotEnabled feature))"

text \<open>The pipeline stops at its one await point, the dispatch of the effective request.\<close>

datatype ('s, 'j) pipeline =
    Refused cuca_error
  | Served "('s, 'j) response_stream"
  | Dispatching "'j unified_request" "'j cache_write_seam option"

definition pipeline_dispatch ::
    "string list \<Rightarrow> ('s, 'j) client \<Rightarrow> 'j unified_request \<Rightarrow> 'j cache_write_seam option \<Rightarrow> ('s, 'j) pipeline" where
  "pipeline_dispatch enabled c r seam =
     (if enabled = [] then
        (case no_dispatch_error enabled (cl_provider c) of
           Some e \<Rightarrow> Refused e | None \<Rightarrow> Dispatching r seam)
      else if cl_orchestrator c then Dispatching r seam
      else (case no_dispatch_error enabled (cl_provider c) of
              Some e \<Rightarrow> Refused e
            | None \<Rightarrow> Dispatching r seam))"

definition pipeline_begin ::
    "('j unified_request \<Rightarrow> prompt_cache_error + string) \<Rightarrow> string list \<Rightarrow> bool \<Rightarrow> instant \<Rightarrow> nat \<Rightarrow>
     ('s, 'j) client \<Rightarrow> 'j unified_request \<Rightarrow> ('s, 'j) client_world \<Rightarrow>
     ('s, 'j) pipeline \<times> ('s, 'j) client_world" where
  "pipeline_begin digest enabled completed now now_ms c request w =
     (case run_request_hooks 0 (cl_plugins c) (request\<lparr>rq_provider := cl_provider c\<rparr>) w of
        (Inl e, w) \<Rightarrow> (Refused e, w)
      | (Inr r, w) \<Rightarrow>
          (case cl_prompt_cache c of
             None \<Rightarrow> (pipeline_dispatch enabled c r None, w)
           | Some cache \<Rightarrow>
               (case digest r of
                  Inl e \<Rightarrow> (Refused (map_prompt_cache_error e), w)
                | Inr key \<Rightarrow>
                    (case cache_lookup key now_ms (cw_cache w) of
                       (Some entry, cs) \<Rightarrow>
                         (Served (Replayed (instrument_cache_hit completed now entry c)), w\<lparr>cw_cache := cs\<rparr>)
                     | (None, cs) \<Rightarrow>
                         (pipeline_dispatch enabled c r (Some \<lparr>seam_cache = cache, seam_request = r\<rparr>),
                          w\<lparr>cw_cache := cs\<rparr>)))))"

fun is_answer :: "'j stream_event \<Rightarrow> bool" where
  "is_answer (Answer p) = True"
| "is_answer _ = False"

text \<open>
  What happens once the dispatch has answered. An orchestrator's stream has no handle to record
  metadata in, and without a cache it is returned as it is.
\<close>

definition pipeline_dispatched ::
    "bool \<Rightarrow> instant \<Rightarrow> ('s, 'j) client \<Rightarrow> 'j unified_request \<Rightarrow> 'j cache_write_seam option \<Rightarrow>
     cuca_error + 'j stream_event list \<Rightarrow> cuca_error + ('s, 'j) response_stream" where
  "pipeline_dispatched completed now c r seam answer =
     (case answer of
        Inl e \<Rightarrow> Inl e
      | Inr events \<Rightarrow>
          if cl_orchestrator c then
            (if seam \<noteq> None
             then Inr (Instrumented (instrument completed now (rq_model r) (filter is_answer events) seam c))
             else Inr (Unwrapped (filter is_answer events)))
          else Inr (Instrumented (instrument completed now (rq_model r) events seam c)))"

definition prompt_cache_snapshot ::
    "('s, 'j) client \<Rightarrow> nat \<Rightarrow> ('s, 'j) client_world \<Rightarrow>
     cuca_error + ('j unified_request, 'j unified_response) cache_entry list" where
  "prompt_cache_snapshot c now_ms w =
     (case cl_prompt_cache c of
        None \<Rightarrow> Inl (ErrConfig ''no prompt cache configured'')
      | Some config \<Rightarrow> Inr (snapshot_at now_ms (cw_cache w)))"

definition replace_prompt_cache_snapshot ::
    "('j unified_request \<Rightarrow> prompt_cache_error + string) \<Rightarrow> ('s, 'j) client \<Rightarrow>
     ('j unified_request, 'j unified_response) cache_entry list \<Rightarrow> nat \<Rightarrow> ('s, 'j) client_world \<Rightarrow>
     (cuca_error + import_report) \<times> ('s, 'j) client_world" where
  "replace_prompt_cache_snapshot digest c snapshot now_ms w =
     (case cl_prompt_cache c of
        None \<Rightarrow> (Inl (ErrConfig ''no prompt cache configured''), w)
      | Some config \<Rightarrow>
          (case replace_snapshot_at digest config snapshot now_ms (cw_cache w) of
             (Inl e, cs) \<Rightarrow> (Inl (map_prompt_cache_error e), w\<lparr>cw_cache := cs\<rparr>)
           | (Inr report, cs) \<Rightarrow> (Inr report, w\<lparr>cw_cache := cs\<rparr>)))"

section \<open>Request hooks\<close>

lemma traced_simps [simp]:
  "cw_trace (snd (traced call hook w)) = cw_trace w @ [call]"
  "cw_cache (snd (traced call hook w)) = cw_cache w"
  "cw_handle (snd (traced call hook w)) = cw_handle w"
  by (simp_all add: traced_def split: prod.split)

lemma run_request_hooks_trace:
  "run_request_hooks i ps r w = (res, w') \<Longrightarrow>
     cw_cache w' = cw_cache w \<and> cw_handle w' = cw_handle w \<and>
     (\<exists>rs. cw_trace w' = cw_trace w @ map (\<lambda>(j, r). CallRequest j r) (List.enumerate i rs) \<and>
        (case res of Inl e \<Rightarrow> \<exists>pe. e = ErrPlugin pe \<and> 0 < length rs \<and> length rs \<le> length ps
         | Inr r' \<Rightarrow> length rs = length ps))"
proof (induction ps arbitrary: i r w)
  case Nil
  then show ?case by (intro conjI exI [of _ "[]"]) auto
next
  case (Cons p ps)
  obtain res1 w1 where t: "traced (CallRequest i r) (pl_on_request p r) w = (res1, w1)"
    by (cases "traced (CallRequest i r) (pl_on_request p r) w")
  have w1: "cw_trace w1 = cw_trace w @ [CallRequest i r]" "cw_cache w1 = cw_cache w" "cw_handle w1 = cw_handle w"
    using traced_simps [of "CallRequest i r" "pl_on_request p r" w] by (simp_all add: t)
  show ?case
  proof (cases res1)
    case (Inl e)
    with Cons.prems t w1 show ?thesis by (intro conjI exI [of _ "[r]"]) auto
  next
    case (Inr r1)
    with Cons.prems t have "run_request_hooks (i + 1) ps r1 w1 = (res, w')" by simp
    from Cons.IH [OF this] obtain rs where
      "cw_trace w' = cw_trace w1 @ map (\<lambda>(j, r). CallRequest j r) (List.enumerate (i + 1) rs)"
      "case res of Inl e \<Rightarrow> \<exists>pe. e = ErrPlugin pe \<and> 0 < length rs \<and> length rs \<le> length ps
         | Inr r' \<Rightarrow> length rs = length ps"
      "cw_cache w' = cw_cache w1" "cw_handle w' = cw_handle w1" by auto
    with w1 show ?thesis by (intro conjI exI [of _ "r # rs"]) (auto split: sum.splits)
  qed
qed

text \<open>
When a request hook fails, the pipeline refuses the request with that plugin's error: the hooks up
  to the failing one ran in registration order and nothing else did, no later hook, no cache
  access and no dispatch.
\<close>

theorem failing_request_hook_stops_the_pipeline:
  assumes "run_request_hooks 0 (cl_plugins c) (request\<lparr>rq_provider := cl_provider c\<rparr>) w = (Inl e, w')"
  shows "pipeline_begin digest enabled completed now now_ms c request w = (Refused e, w') \<and>
    (\<exists>pe. e = ErrPlugin pe) \<and> cw_cache w' = cw_cache w \<and> cw_handle w' = cw_handle w \<and>
    (\<exists>rs. cw_trace w' = cw_trace w @ map (\<lambda>(j, r). CallRequest j r) (List.enumerate 0 rs) \<and>
       0 < length rs \<and> length rs \<le> length (cl_plugins c))"
  using run_request_hooks_trace [OF assms] assms by (auto simp: pipeline_begin_def)


section \<open>Runs of an instrumented stream\<close>

text \<open>
  Between two polls the caller may take the response handle, and other calls of the process may
  change the plugins' state and the cache.
\<close>

datatype ('s, 'j) stream_act =
    ActPoll instant nat
  | ActTakeHandle
  | ActOthers 's "('j unified_request, 'j unified_response) cache_state"

type_synonym 'j answers = "(cuca_error + 'j content_block) poll list"

fun stream_step ::
    "('j unified_request \<Rightarrow> prompt_cache_error + string) \<Rightarrow>
     'j answers \<times> ('s, 'j) plugin_stream \<times> ('s, 'j) client_world \<Rightarrow> ('s, 'j) stream_act \<Rightarrow>
     'j answers \<times> ('s, 'j) plugin_stream \<times> ('s, 'j) client_world" where
  "stream_step digest (as, ps, w) (ActPoll now now_ms) =
     (let (a, ps, w) = poll_plugin_stream digest now now_ms ps w in (as @ [a], ps, w))"
| "stream_step digest (as, ps, w) ActTakeHandle = (as, ps, w\<lparr>cw_handle := snd (handle_take (cw_handle w))\<rparr>)"
| "stream_step digest (as, ps, w) (ActOthers s c) = (as, ps, w\<lparr>cw_state := s, cw_cache := c\<rparr>)"

fun yielded :: "'j answers \<Rightarrow> 'j content_block list" where
  "yielded [] = []"
| "yielded (Ready (Some (Inr b)) # as) = b # yielded as"
| "yielded (a # as) = yielded as"

fun is_failure :: "(cuca_error + 'j content_block) poll \<Rightarrow> bool" where
  "is_failure (Ready (Some (Inl e))) = True"
| "is_failure _ = False"

fun is_completion :: "'j hook_call \<Rightarrow> bool" where
  "is_completion (CallComplete i r) = True"
| "is_completion _ = False"

definition completions :: "'j hook_call list \<Rightarrow> 'j hook_call list" where
  "completions tr = filter is_completion tr"

definition until_end :: "'j answers \<Rightarrow> 'j answers" where
  "until_end as = takeWhile (\<lambda>a. a \<noteq> Ready None) as"

definition terminal_calls :: "nat \<Rightarrow> 'j unified_response \<Rightarrow> 'j hook_call list" where
  "terminal_calls n r = map (\<lambda>i. CallComplete i r) [0 ..< n]"

lemma yielded_append: "yielded (as @ bs) = yielded as @ yielded bs"
  by (induction as rule: yielded.induct) simp_all

lemma completions_append: "completions (a @ b) = completions a @ completions b"
  by (simp add: completions_def)

lemma until_end_append: "until_end (as @ [a]) = (if Ready None \<in> set as then until_end as
    else if a = Ready None then as else as @ [a])"
proof (cases "Ready None \<in> set as")
  case True
  then show ?thesis by (simp add: until_end_def takeWhile_append1 [of "Ready None"])
next
  case False
  then have "\<And>x. x \<in> set as \<Longrightarrow> x \<noteq> Ready None" by blast
  from takeWhile_append2 [OF this, of as] False show ?thesis by (simp add: until_end_def)
qed

text \<open>What the hooks of one block do to the world: more trace, no completion, nothing else.\<close>

definition only_block_calls :: "('s, 'j) client_world \<Rightarrow> ('s, 'j) client_world \<Rightarrow> bool" where
  "only_block_calls w w' \<longleftrightarrow> cw_cache w' = cw_cache w \<and> cw_handle w' = cw_handle w \<and>
     (\<exists>tr. cw_trace w' = cw_trace w @ tr \<and> completions tr = [])"

lemma only_block_calls_refl: "only_block_calls w w"
  by (simp add: only_block_calls_def completions_def)

lemma only_block_calls_trans: "only_block_calls u v \<Longrightarrow> only_block_calls v w \<Longrightarrow> only_block_calls u w"
  by (auto simp: only_block_calls_def completions_append)

lemma only_block_calls_traced: "\<not> is_completion call \<Longrightarrow> only_block_calls w (snd (traced call hook w))"
  by (auto simp: only_block_calls_def completions_def)

lemma run_local_tools_calls: "only_block_calls w (snd (run_local_tools i ps cid chunk w))"
proof (induction ps arbitrary: i w)
  case (Cons p ps)
  obtain r w1 where t: "traced (CallTool i chunk) (pl_execute_local_tool p chunk) w = (r, w1)"
    by (cases "traced (CallTool i chunk) (pl_execute_local_tool p chunk) w")
  have "only_block_calls w w1"
    using only_block_calls_traced [of "CallTool i chunk" w "pl_execute_local_tool p chunk"] by (simp add: t)
  with Cons.IH [of w1 "i + 1"] show ?case
    by (auto simp: t split: sum.split option.split intro: only_block_calls_trans)
qed (simp add: only_block_calls_refl)

lemma run_chunk_hooks_calls: "only_block_calls w (snd (run_chunk_hooks i ps chunk w))"
proof (induction ps arbitrary: i chunk w)
  case (Cons p ps)
  obtain r w1 where t: "traced (CallChunk i chunk) (pl_on_stream_chunk p chunk) w = (r, w1)"
    by (cases "traced (CallChunk i chunk) (pl_on_stream_chunk p chunk) w")
  have "only_block_calls w w1"
    using only_block_calls_traced [of "CallChunk i chunk" w "pl_on_stream_chunk p chunk"] by (simp add: t)
  with Cons.IH [of w1 "i + 1"] show ?case
    by (auto simp: t split: sum.split intro: only_block_calls_trans)
qed (simp add: only_block_calls_refl)

lemma stream_block_spec:
  assumes "stream_block chunk ps w = (item, ps', w')"
  shows "only_block_calls w w'"
    and "ps' = (case item of Inl e \<Rightarrow> ps\<lparr>ps_saw_error := True\<rparr>
      | Inr b \<Rightarrow> ps\<lparr>ps_response := accept_chunk b (ps_response ps)\<rparr>)"
proof -
  define t where "t = (case chunk of ToolCallBlock cid n a \<Rightarrow> run_local_tools 0 (ps_plugins ps) cid chunk w
      | _ \<Rightarrow> (Inr chunk, w))"
  obtain r1 w1 where t1: "t = (r1, w1)" by (cases t)
  have c1: "only_block_calls w w1"
    using t1 run_local_tools_calls [of w 0 "ps_plugins ps" _ chunk]
    by (auto simp: t_def only_block_calls_refl split: content_block.splits) (metis snd_conv)
  have "only_block_calls w w' \<and> ps' = (case item of Inl e \<Rightarrow> ps\<lparr>ps_saw_error := True\<rparr>
      | Inr b \<Rightarrow> ps\<lparr>ps_response := accept_chunk b (ps_response ps)\<rparr>)"
  proof (cases r1)
    case (Inl e)
    with assms t1 c1 show ?thesis unfolding stream_block_def t_def [symmetric] by auto
  next
    case (Inr b)
    obtain r2 w2 where t2: "run_chunk_hooks 0 (ps_plugins ps) b w1 = (r2, w2)"
      by (cases "run_chunk_hooks 0 (ps_plugins ps) b w1")
    have "only_block_calls w w2"
      using c1 run_chunk_hooks_calls [of w1 0 "ps_plugins ps" b] t2 by (auto intro: only_block_calls_trans)
    with assms t1 Inr t2 show ?thesis unfolding stream_block_def t_def [symmetric] by (auto split: sum.splits)
  qed
  then show "only_block_calls w w'" "ps' = (case item of Inl e \<Rightarrow> ps\<lparr>ps_saw_error := True\<rparr>
      | Inr b \<Rightarrow> ps\<lparr>ps_response := accept_chunk b (ps_response ps)\<rparr>)" by blast+
qed

lemma run_completion_hooks_spec:
  "cw_trace (run_completion_hooks i ps r w) = cw_trace w @ map (\<lambda>j. CallComplete j r) [i ..< i + length ps] \<and>
   cw_cache (run_completion_hooks i ps r w) = cw_cache w \<and> cw_handle (run_completion_hooks i ps r w) = cw_handle w"
proof (induction ps arbitrary: i w)
  case (Cons p ps)
  have "[i ..< i + length (p # ps)] = i # [i + 1 ..< i + 1 + length ps]" by (subst upt_rec) simp
  then show ?case using Cons.IH [of "i + 1"] by simp
qed simp

lemma final_response_simps [simp]:
  "rs_content (final_response now s m r) = rs_content r"
  "rs_model (final_response now s m r) = rs_model r"
  "rs_provider (final_response now s m r) = rs_provider r"
  "rs_prompt_cache_usage (final_response now s m r) = md_prompt_cache_usage m"
  by (simp_all add: final_response_def Let_def split: option.split)

lemma final_response_tokens:
  "rs_usage r = None \<Longrightarrow> rs_usage (final_response now s m r) = md_token_usage m \<and>
   rs_completion_tokens (final_response now s m r) =
     (case md_token_usage m of Some u \<Rightarrow> tu_completion u | None \<Rightarrow> rs_completion_tokens r)"
  by (simp add: final_response_def Let_def split: option.split)


definition terminal_response_ok :: "string \<Rightarrow> 'j answers \<Rightarrow> 'j unified_response \<Rightarrow> bool" where
  "terminal_response_ok model as r \<longleftrightarrow> rs_model r = model \<and> rs_content r = yielded (until_end as) \<and>
     (case rs_usage r of
        Some u \<Rightarrow> rs_prompt_tokens r = tu_prompt u \<and> rs_completion_tokens r = tu_completion u
      | None \<Rightarrow> rs_completion_tokens r = length (filter counts_as_token (rs_content r)) mod 2 ^ 32)"

definition calls_ok ::
    "nat \<Rightarrow> string \<Rightarrow> 'j hook_call list \<Rightarrow> 'j answers \<Rightarrow> bool \<Rightarrow> 'j hook_call list \<Rightarrow> bool" where
  "calls_ok n model tr0 as ended tr \<longleftrightarrow> (\<exists>new. tr = tr0 @ new \<and>
     (if ended then \<exists>r. completions new = terminal_calls n r \<and> terminal_response_ok model as r
      else completions new = []))"

definition stream_inv ::
    "('s, 'j) cuca_plugin list \<Rightarrow> string \<Rightarrow> 'j cache_write_seam option \<Rightarrow> ('s, 'j) client_world \<Rightarrow>
     'j answers \<times> ('s, 'j) plugin_stream \<times> ('s, 'j) client_world \<Rightarrow> bool" where
  "stream_inv pls model seam w0 st \<longleftrightarrow> (case st of (as, ps, w) \<Rightarrow>
     ps_plugins ps = pls \<and> (ps_done ps \<longleftrightarrow> Ready None \<in> set as) \<and>
     (ps_saw_error ps \<longleftrightarrow> (\<exists>a \<in> set as. is_failure a)) \<and>
     (\<not> ps_done ps \<longrightarrow> rs_content (ps_response ps) = yielded as \<and> rs_model (ps_response ps) = model \<and>
        rs_usage (ps_response ps) = None \<and> ps_cache_write ps = seam \<and>
        rs_completion_tokens (ps_response ps) = length (filter counts_as_token (yielded as)) mod 2 ^ 32) \<and>
     calls_ok (length pls) model (cw_trace w0) as (ps_done ps) (cw_trace w))"

lemma stream_inv_start:
  "stream_inv (cl_plugins c) model seam w0 ([], instrument completed now model events seam c, w0)"
  by (simp add: stream_inv_def instrument_def calls_ok_def completions_def)

lemma completions_terminal: "completions (terminal_calls n r) = terminal_calls n r"
  by (simp add: completions_def terminal_calls_def)

text \<open>The end of a stream, seen once.\<close>

lemma stream_end_spec:
  assumes "\<not> ps_done ps" and "stream_end digest now now_ms ps w = (ps', w')"
  shows "ps_done ps'" and "ps_plugins ps' = ps_plugins ps" and "ps_saw_error ps' = ps_saw_error ps"
    and "cw_trace w' = cw_trace w @ terminal_calls (length (ps_plugins ps))
      (final_response now (ps_started ps) (ps_metadata ps) (ps_response ps))"
    and "cw_cache w' = (if ps_saw_error ps then cw_cache w
      else (case ps_cache_write ps of
              None \<Rightarrow> cw_cache w
            | Some s \<Rightarrow> snd (cache_insert digest (seam_cache s) (seam_request s)
                (final_response now (ps_started ps) (ps_metadata ps) (ps_response ps)) now_ms (cw_cache w))))"
    and "cw_handle w' = (if ps_completed ps
      then Some (final_response now (ps_started ps) (ps_metadata ps) (ps_response ps)) else cw_handle w)"
proof -
  let ?r = "final_response now (ps_started ps) (ps_metadata ps) (ps_response ps)"
  note h = run_completion_hooks_spec [of 0 "ps_plugins ps" ?r w]
  show "ps_done ps'" "ps_plugins ps' = ps_plugins ps" "ps_saw_error ps' = ps_saw_error ps"
    using assms by (auto simp: stream_end_def metadata_take_def Let_def split: prod.splits)
  show "cw_trace w' = cw_trace w @ terminal_calls (length (ps_plugins ps)) ?r"
    using assms h by (auto simp: stream_end_def metadata_take_def Let_def terminal_calls_def split: prod.splits if_splits option.splits)
  show "cw_cache w' = (if ps_saw_error ps then cw_cache w
      else (case ps_cache_write ps of None \<Rightarrow> cw_cache w
            | Some s \<Rightarrow> snd (cache_insert digest (seam_cache s) (seam_request s) ?r now_ms (cw_cache w))))"
    using assms h by (auto simp: stream_end_def metadata_take_def Let_def split: prod.splits if_splits option.splits)
  show "cw_handle w' = (if ps_completed ps then Some ?r else cw_handle w)"
    using assms h by (auto simp: stream_end_def metadata_take_def publish_response_def Let_def split: prod.splits if_splits option.splits)
qed

lemma poll_inner_fields:
  assumes "poll_inner es m = (a, es', m')"
  shows "poll_plugin_stream digest now now_ms (ps\<lparr>ps_inner := es, ps_metadata := m\<rparr>) w =
    (case a of
       Ready (Some (Inr chunk)) \<Rightarrow>
         (let (item, ps, w) = stream_block chunk (ps\<lparr>ps_inner := es', ps_metadata := m'\<rparr>) w in (Ready (Some item), ps, w))
     | Ready (Some (Inl e)) \<Rightarrow> (Ready (Some (Inl e)), ps\<lparr>ps_inner := es', ps_metadata := m', ps_saw_error := True\<rparr>, w)
     | Ready None \<Rightarrow>
         (let (ps, w) = stream_end digest now now_ms (ps\<lparr>ps_inner := es', ps_metadata := m'\<rparr>) w in (Ready None, ps, w))
     | Pending \<Rightarrow> (Pending, ps\<lparr>ps_inner := es', ps_metadata := m'\<rparr>, w))"
  using assms by (simp add: poll_plugin_stream_def split: poll.split option.split sum.split)

lemma yielded_snoc [simp]:
  "yielded (as @ [Pending]) = yielded as" "yielded (as @ [Ready None]) = yielded as"
  "yielded (as @ [Ready (Some (Inl e))]) = yielded as"
  "yielded (as @ [Ready (Some (Inr b))]) = yielded as @ [b]"
  by (simp_all add: yielded_append)

lemma calls_ok_answer:
  assumes "calls_ok n model tr0 as ended tr" and "ended \<longrightarrow> Ready None \<in> set as" and "completions new = []"
  shows "calls_ok n model tr0 (as @ [a]) ended (tr @ new)"
proof -
  obtain tr1 where t: "tr = tr0 @ tr1" "if ended then \<exists>r. completions tr1 = terminal_calls n r \<and> terminal_response_ok model as r
      else completions tr1 = []" using assms(1) by (auto simp: calls_ok_def)
  have "terminal_response_ok model (as @ [a]) r" if "terminal_response_ok model as r" ended for r
    using that assms(2) by (simp add: terminal_response_ok_def until_end_append)
  with t(2) assms(3) have "if ended
      then \<exists>r. completions (tr1 @ new) = terminal_calls n r \<and> terminal_response_ok model (as @ [a]) r
      else completions (tr1 @ new) = []" by (auto simp: completions_append split: if_splits)
  with t(1) show ?thesis unfolding calls_ok_def by (intro exI [of _ "tr1 @ new"]) simp
qed

lemma calls_ok_end:
  assumes "calls_ok n model tr0 as False tr" and "terminal_response_ok model as' r"
  shows "calls_ok n model tr0 as' True (tr @ terminal_calls n r)"
proof -
  obtain tr1 where t: "tr = tr0 @ tr1" "completions tr1 = []" using assms(1) by (auto simp: calls_ok_def)
  then have "completions (tr1 @ terminal_calls n r) = terminal_calls n r"
    by (simp add: completions_append completions_terminal)
  with t(1) assms(2) show ?thesis unfolding calls_ok_def by (intro exI [of _ "tr1 @ terminal_calls n r"]) auto
qed

lemma stream_inv_poll:
  assumes inv: "stream_inv pls model seam w0 (as, ps, w)"
    and p: "poll_plugin_stream digest now now_ms ps w = (a, ps', w')"
  shows "stream_inv pls model seam w0 (as @ [a], ps', w')"
proof -
  obtain ans es m where i: "poll_inner (ps_inner ps) (ps_metadata ps) = (ans, es, m)"
    by (cases "poll_inner (ps_inner ps) (ps_metadata ps)")
  define q where "q = ps\<lparr>ps_inner := es, ps_metadata := m\<rparr>"
  have q: "ps_plugins q = ps_plugins ps" "ps_done q = ps_done ps" "ps_saw_error q = ps_saw_error ps"
    "ps_response q = ps_response ps" "ps_cache_write q = ps_cache_write ps"
    by (simp_all add: q_def)
  have inv': "stream_inv pls model seam w0 (as, q, w)" using inv unfolding stream_inv_def prod.case q .
  have c: "calls_ok (length pls) model (cw_trace w0) as (ps_done q) (cw_trace w)"
    and d: "ps_done q \<longrightarrow> Ready None \<in> set as"
    using inv' unfolding stream_inv_def prod.case by blast+
  have same: "calls_ok (length pls) model (cw_trace w0) (as @ [x]) (ps_done q) (cw_trace w)" for x
    using calls_ok_answer [OF c d, of "[]" x] by (simp add: completions_def)
  consider (pending) "ans = Pending" | (fail) e where "ans = Ready (Some (Inl e))"
    | (block) b where "ans = Ready (Some (Inr b))" | (finish) "ans = Ready None"
    by (metis sum.exhaust poll.exhaust not_Some_eq)
  then show ?thesis
  proof cases
    case pending
    then have "a = Pending" "ps' = q" "w' = w" using p i by (simp_all add: poll_plugin_stream_def q_def)
    then show ?thesis using inv' same by (simp add: stream_inv_def)
  next
    case fail
    then have "a = Ready (Some (Inl e))" "ps' = q\<lparr>ps_saw_error := True\<rparr>" "w' = w"
      using p i by (simp_all add: poll_plugin_stream_def q_def)
    then show ?thesis using inv' same by (simp add: stream_inv_def)
  next
    case block
    obtain item where s: "stream_block b q w = (item, ps', w')" and a: "a = Ready (Some item)"
      using block p i by (auto simp: poll_plugin_stream_def q_def Let_def split: prod.splits)
    note sb = stream_block_spec [OF s]
    from sb(1) obtain tr' where t: "cw_trace w' = cw_trace w @ tr'" "completions tr' = []"
      by (auto simp: only_block_calls_def)
    have calls: "calls_ok (length pls) model (cw_trace w0) (as @ [x]) (ps_done q) (cw_trace w')" for x
      using calls_ok_answer [OF c d t(2)] t(1) by simp
    show ?thesis
    proof (cases item)
      case (Inl e)
      with sb(2) have "ps' = q\<lparr>ps_saw_error := True\<rparr>" by simp
      with Inl a inv' calls show ?thesis by (simp add: stream_inv_def)
    next
      case (Inr c)
      with sb(2) have "ps' = q\<lparr>ps_response := accept_chunk c (ps_response q)\<rparr>" by simp
      with Inr a inv' calls show ?thesis
        by (simp add: stream_inv_def accept_chunk_def mod_Suc_eq)
    qed
  next
    case finish
    obtain ps1 w1 where e: "stream_end digest now now_ms q w = (ps1, w1)" by (cases "stream_end digest now now_ms q w")
    then have r: "a = Ready None" "ps' = ps1" "w' = w1"
      using finish p i by (simp_all add: poll_plugin_stream_def q_def)
    show ?thesis
    proof (cases "ps_done q")
      case True
      then have "ps1 = q" "w1 = w" using e by (simp_all add: stream_end_def)
      with r True inv' same show ?thesis by (simp add: stream_inv_def)
    next
      case False
      note se = stream_end_spec [OF False e]
      let ?r = "final_response now (ps_started q) (ps_metadata q) (ps_response q)"
      have o: "rs_content (ps_response q) = yielded as" "rs_model (ps_response q) = model"
        "rs_usage (ps_response q) = None" "Ready None \<notin> set as" "ps_plugins q = pls"
        "rs_completion_tokens (ps_response q) = length (filter counts_as_token (yielded as)) mod 2 ^ 32"
        using inv' False by (simp_all add: stream_inv_def)
      then have ok: "terminal_response_ok model (as @ [Ready None]) ?r"
        by (auto simp: terminal_response_ok_def until_end_append final_response_def Let_def split: option.split)
      have "calls_ok (length pls) model (cw_trace w0) (as @ [Ready None]) True (cw_trace w1)"
        using calls_ok_end [OF _ ok, of "length pls" "cw_trace w0" as "cw_trace w"] c False se(4) o(5) by simp
      then show ?thesis using r se(1-3) inv' o(5) by (simp add: stream_inv_def)
    qed
  qed
qed

lemma stream_inv_step:
  assumes "stream_inv pls model seam w0 st"
  shows "stream_inv pls model seam w0 (stream_step digest st act)"
proof -
  obtain as ps w where st: "st = (as, ps, w)" by (cases st)
  show ?thesis
  proof (cases act)
    case (ActPoll now now_ms)
    obtain a ps' w' where p: "poll_plugin_stream digest now now_ms ps w = (a, ps', w')"
      by (cases "poll_plugin_stream digest now now_ms ps w")
    with stream_inv_poll [OF assms [unfolded st] p] show ?thesis by (simp add: st ActPoll)
  qed (use assms in \<open>auto simp: st stream_inv_def\<close>)
qed

interpretation stream_run: stepper "stream_step digest" "stream_inv pls model seam w0" for digest pls model seam w0
  by unfold_locales (rule stream_inv_step)


text \<open>
C28: Whatever a consumer polls and whatever other calls do in between, the terminal hooks run not at all
  before the stream has ended and then exactly once each, in registration order, on one response:
  its content is what the stream yielded up to its end, and its token counts are the provider's if
  it reported any, otherwise one for each text, thinking and tool-call block.
\<close>

theorem terminal_hooks_run_once:
  assumes run: "foldl (stream_step digest) ([], instrument completed start model events seam c, w0) acts = (as, ps, w)"
  shows "\<exists>new. cw_trace w = cw_trace w0 @ new \<and>
    (if Ready None \<in> set as
     then \<exists>r. completions new = terminal_calls (length (cl_plugins c)) r \<and> rs_model r = model \<and>
       rs_content r = yielded (until_end as) \<and>
       (case rs_usage r of
          Some u \<Rightarrow> rs_prompt_tokens r = tu_prompt u \<and> rs_completion_tokens r = tu_completion u
        | None \<Rightarrow> rs_completion_tokens r = length (filter counts_as_token (rs_content r)) mod 2 ^ 32)
     else completions new = [])"
proof -
  have "stream_inv (cl_plugins c) model seam w0
      (foldl (stream_step digest) ([], instrument completed start model events seam c, w0) acts)"
    by (rule stream_run.run_inv [OF stream_inv_start])
  then show ?thesis unfolding run by (auto simp: stream_inv_def calls_ok_def terminal_response_ok_def)
qed

lemma poll_cases:
  obtains "a = Pending" | e where "a = Ready (Some (Inl e))" | b where "a = Ready (Some (Inr b))" | "a = Ready None"
  by (metis sum.exhaust poll.exhaust not_Some_eq)

lemma poll_cache:
  assumes run: "foldl (stream_step digest) ([], instrument completed start model events seam c, w0) acts = (as, ps, w)"
    and poll: "poll_plugin_stream digest now now_ms ps w = (a, ps', w')"
  shows "if a = Ready None \<and> Ready None \<notin> set as \<and> (\<forall>x \<in> set as. \<not> is_failure x) \<and> seam \<noteq> None
    then \<exists>r. rs_content r = yielded as \<and> rs_model r = model \<and>
      cw_cache w' = snd (cache_insert digest (seam_cache (the seam)) (seam_request (the seam)) r now_ms (cw_cache w))
    else cw_cache w' = cw_cache w"
proof -
  have "stream_inv (cl_plugins c) model seam w0
      (foldl (stream_step digest) ([], instrument completed start model events seam c, w0) acts)"
    by (rule stream_run.run_inv [OF stream_inv_start])
  then have inv: "stream_inv (cl_plugins c) model seam w0 (as, ps, w)" unfolding run .
  obtain ans es m where i: "poll_inner (ps_inner ps) (ps_metadata ps) = (ans, es, m)"
    by (cases "poll_inner (ps_inner ps) (ps_metadata ps)")
  define q where "q = ps\<lparr>ps_inner := es, ps_metadata := m\<rparr>"
  have inv': "stream_inv (cl_plugins c) model seam w0 (as, q, w)"
    using inv unfolding stream_inv_def q_def by auto
  show ?thesis
  proof (cases "ans = Ready None")
    case False
    have "a \<noteq> Ready None \<and> cw_cache w' = cw_cache w"
    proof (cases rule: poll_cases [of ans])
      case (3 b)
      then obtain item where s: "stream_block b q w = (item, ps', w')" and "a = Ready (Some item)"
        using poll i by (auto simp: poll_plugin_stream_def q_def Let_def split: prod.splits)
      with stream_block_spec(1) [OF s] show ?thesis by (simp add: only_block_calls_def)
    qed (use False poll i in \<open>auto simp: poll_plugin_stream_def\<close>)
    then show ?thesis by simp
  next
    case True
    obtain ps1 w1 where e: "stream_end digest now now_ms q w = (ps1, w1)" by (cases "stream_end digest now now_ms q w")
    then have r: "a = Ready None" "w' = w1" using True poll i by (simp_all add: poll_plugin_stream_def q_def)
    show ?thesis
    proof (cases "ps_done q")
      case True
      then have "w1 = w" "Ready None \<in> set as" using e inv' by (simp_all add: stream_end_def stream_inv_def)
      with r show ?thesis by simp
    next
      case False
      let ?r = "final_response now (ps_started q) (ps_metadata q) (ps_response q)"
      have o: "rs_content ?r = yielded as" "rs_model ?r = model" "Ready None \<notin> set as" "ps_cache_write q = seam"
        "ps_saw_error q \<longleftrightarrow> (\<exists>a \<in> set as. is_failure a)"
        using inv' False by (simp_all add: stream_inv_def)
      have "cw_cache w1 = (if ps_saw_error q then cw_cache w
          else (case seam of None \<Rightarrow> cw_cache w
            | Some s \<Rightarrow> snd (cache_insert digest (seam_cache s) (seam_request s) ?r now_ms (cw_cache w))))"
        using stream_end_spec(5) [OF False e] o(4) by simp
      with o r show ?thesis by (auto split: option.splits intro!: exI [of _ ?r])
    qed
  qed
qed

text \<open>
C29: A poll changes the shared cache only when it is the first to find the stream at its end, no poll
  ever answered an error, and the stream was started by a cache miss; then it stores the effective
  request with a response that holds exactly the yielded blocks.
\<close>

theorem only_clean_streams_are_cached:
  assumes run: "foldl (stream_step digest) ([], instrument completed start model events seam c, w0) acts = (as, ps, w)"
    and poll: "poll_plugin_stream digest now now_ms ps w = (a, ps', w')"
  shows "if a = Ready None \<and> Ready None \<notin> set as \<and> (\<forall>x \<in> set as. \<not> is_failure x) \<and> seam \<noteq> None
    then \<exists>r. rs_content r = yielded as \<and> rs_model r = model \<and>
      cw_cache w' = snd (cache_insert digest (seam_cache (the seam)) (seam_request (the seam)) r now_ms (cw_cache w))
    else cw_cache w' = cw_cache w"
  by (rule poll_cache [OF run poll])

section \<open>Replaying a cached response\<close>

fun hit_polls :: "instant list \<Rightarrow> ('s, 'j) cache_hit_stream \<Rightarrow> ('s, 'j) client_world \<Rightarrow>
    'j answers \<times> ('s, 'j) cache_hit_stream \<times> ('s, 'j) client_world" where
  "hit_polls [] ch w = ([], ch, w)"
| "hit_polls (t # ts) ch w =
     (let (a, ch, w) = poll_cache_hit t ch w; (as, ch, w) = hit_polls ts ch w in (a # as, ch, w))"

lemma hit_polls_done:
  "ch_done ch \<Longrightarrow> ch_blocks ch = [] \<Longrightarrow> hit_polls ts ch w = (replicate (length ts) (Ready None), ch, w)"
  by (induction ts) (simp_all add: poll_cache_hit_def)

lemma hit_polls_spec:
  assumes "\<not> ch_done ch" and "hit_polls ts ch w = (as, ch', w')"
  shows "as = take (length ts) (map (\<lambda>b. Ready (Some (Inr b))) (ch_blocks ch) @ replicate (length ts) (Ready None)) \<and>
    cw_cache w' = cw_cache w \<and>
    (\<exists>r. cw_trace w' = cw_trace w @ (if length ts \<le> length (ch_blocks ch) then []
       else terminal_calls (length (ch_plugins ch)) r) \<and> rs_content r = rs_content (ch_response ch))"
  using assms
proof (induction ts arbitrary: ch w as)
  case (Cons t ts)
  show ?case
  proof (cases "ch_blocks ch")
    case (Cons b bs)
    obtain as1 where r: "hit_polls ts (ch\<lparr>ch_blocks := bs\<rparr>) w = (as1, ch', w')" and as: "as = Ready (Some (Inr b)) # as1"
      using Cons.prems(2) Cons by (auto simp: poll_cache_hit_def Let_def split: prod.splits)
    from Cons.IH [OF _ r] Cons.prems(1) Cons show ?thesis
      by (auto simp: as take_Cons' replicate_append_same [symmetric])
  next
    case Nil
    let ?r = "(ch_response ch)\<lparr>rs_duration_secs := F64 (as_secs_f64 (t - ch_started ch))\<rparr>"
    note h = run_completion_hooks_spec [of 0 "ch_plugins ch" ?r w]
    obtain completed r2 slot where pub: "publish_response (ch_completed ch) ?r
        (cw_handle (run_completion_hooks 0 (ch_plugins ch) ?r w)) = (completed, r2, slot)"
      by (rule prod_cases3)
    define ch1 w1 where "ch1 = ch\<lparr>ch_done := True, ch_response := r2, ch_completed := completed\<rparr>"
      and "w1 = run_completion_hooks 0 (ch_plugins ch) ?r w\<lparr>cw_handle := slot\<rparr>"
    have p: "poll_cache_hit t ch w = (Ready None, ch1, w1)"
      using Nil Cons.prems(1) pub by (simp add: poll_cache_hit_def Let_def ch1_def w1_def)
    have d: "ch_done ch1" "ch_blocks ch1 = []" using Nil by (simp_all add: ch1_def)
    have w1: "cw_trace w1 = cw_trace w @ terminal_calls (length (ch_plugins ch)) ?r" "cw_cache w1 = cw_cache w"
      using h by (simp_all add: w1_def terminal_calls_def)
    have "as = replicate (length (t # ts)) (Ready None)" "w' = w1"
      using Cons.prems(2) p hit_polls_done [OF d, of ts w1] by auto
    with w1 Nil show ?thesis by (auto intro!: exI [of _ ?r])
  qed
qed (auto intro!: exI)


text \<open>
C30: A response is answered from the cache as it was: when a stream that began with a miss ends without
  an error, a later request with the same digest, before the entry expires and with nothing else
  done to the cache, is served without a dispatch; the replay yields exactly the blocks the first
  consumer got, then ends, and calls only the terminal hooks, once.
\<close>

theorem hit_replays_the_stream:
  assumes run: "foldl (stream_step digest) ([], instrument completed start model events
      (Some \<lparr>seam_cache = cfg, seam_request = rq\<rparr>) c, w0) acts = (as, ps, w)"
    and clean: "Ready None \<notin> set as" "\<forall>x \<in> set as. \<not> is_failure x"
    and finish: "poll_plugin_stream digest now now_ms ps w = (Ready None, ps', w')"
    and cache: "cache_wf (cw_cache w)" "0 < pc_capacity cfg" "digest rq = Inr key"
    and later: "run_request_hooks 0 (cl_plugins c) (request\<lparr>rq_provider := cl_provider c\<rparr>) w2 = (Inr rq2, w3)"
      "digest rq2 = Inr key" "cw_cache w3 = cw_cache w'" "later_ms < expiry_at cfg now_ms"
      "cl_prompt_cache c = Some cfg"
    and polls: "length ts = Suc (length (yielded as))"
  shows "\<exists>ch w4. pipeline_begin digest enabled completed2 now2 later_ms c request w2 = (Served (Replayed ch), w4) \<and> cw_trace w4 = cw_trace w3 \<and>
    (\<exists>ch' w5 r. hit_polls ts ch w4 = (map (\<lambda>b. Ready (Some (Inr b))) (yielded as) @ [Ready None], ch', w5) \<and>
       cw_trace w5 = cw_trace w4 @ terminal_calls (length (cl_plugins c)) r \<and> rs_content r = yielded as)"
proof -
  obtain r where r: "rs_content r = yielded as"
    "cw_cache w' = snd (cache_insert digest cfg rq r now_ms (cw_cache w))"
    using poll_cache [OF run finish] clean by auto
  obtain e s' where hit: "cache_lookup key later_ms (cw_cache w') = (Some e, s')" and e: "ce_response e = r"
    using cache_insert_then_lookup [of "cw_cache w" digest rq key cfg later_ms now_ms r, OF cache(1,3,2) later(4)] r(2) by metis
  define ch where "ch = instrument_cache_hit completed2 now2 e c"
  have p: "pipeline_begin digest enabled completed2 now2 later_ms c request w2 =
      (Served (Replayed ch), w3\<lparr>cw_cache := s'\<rparr>)"
    using later hit by (simp add: pipeline_begin_def ch_def)
  have c: "\<not> ch_done ch" "ch_blocks ch = yielded as" "ch_plugins ch = cl_plugins c" "rs_content (ch_response ch) = yielded as"
    using r(1) e by (simp_all add: ch_def instrument_cache_hit_def)
  obtain as' ch' w5 where h: "hit_polls ts ch (w3\<lparr>cw_cache := s'\<rparr>) = (as', ch', w5)"
    by (rule prod_cases3)
  from hit_polls_spec [OF c(1) h] polls c show ?thesis
    unfolding p by (intro exI [of _ ch] exI [of _ "w3\<lparr>cw_cache := s'\<rparr>"]) (auto simp: h)
qed


section \<open>A small run\<close>

definition demo_config :: prompt_cache_config where
  "demo_config = \<lparr>pc_capacity = 1, pc_ttl = 1000000000\<rparr>"

definition demo_client :: "(unit, unit) client" where
  "demo_client = \<lparr>cl_provider = OpenAi, cl_base_url = [], cl_api_key = None, cl_bearer_token = None,
     cl_plugins = [plugin_default ''p''], cl_local_model = False, cl_orchestrator = False,
     cl_prompt_cache = Some demo_config\<rparr>"

definition demo_digest :: "unit unified_request \<Rightarrow> prompt_cache_error + string" where
  "demo_digest r = Inr ''k''"

definition demo_world :: "(unit, unit) client_world" where
  "demo_world = \<lparr>cw_state = (), cw_trace = [], cw_cache = cache_empty, cw_handle = None\<rparr>"

definition demo_stream :: "(unit, unit) plugin_stream" where
  "demo_stream = instrument True 0 ''m'' [Answer (Ready (Some (Inr (TextBlock [104]))))]
     (Some \<lparr>seam_cache = demo_config, seam_request = request_new ''m''\<rparr>) demo_client"

definition demo_run :: "(unit, unit) stream_act list \<Rightarrow>
    unit answers \<times> (unit, unit) plugin_stream \<times> (unit, unit) client_world" where
  "demo_run acts = foldl (stream_step demo_digest) ([], demo_stream, demo_world) acts"

lemmas demo_eval = demo_run_def demo_stream_def demo_client_def instrument_def poll_plugin_stream_def
  stream_block_def plugin_default_def traced_def

lemma demo_block:
  "\<exists>ps w. demo_run [ActPoll 2 2] = ([Ready (Some (Inr (TextBlock [104])))], ps, w) \<and>
     cw_cache w = cache_empty \<and> ps_inner ps = [] \<and> ps_metadata ps = metadata_empty"
  by (simp add: demo_eval demo_world_def Let_def)

lemma poll_at_end:
  assumes "ps_inner ps = []"
  obtains ps' w' where "poll_plugin_stream digest now now_ms ps w = (Ready None, ps', w')"
proof -
  obtain ps1 w1 where "stream_end digest now now_ms (ps\<lparr>ps_inner := []\<rparr>) w = (ps1, w1)"
    by (cases "stream_end digest now now_ms (ps\<lparr>ps_inner := []\<rparr>) w")
  with assms that [of ps1 w1] show thesis by (simp add: poll_plugin_stream_def)
qed

lemma demo_end:
  "\<exists>ps w. demo_run [ActPoll 2 2, ActPoll 3 3] = ([Ready (Some (Inr (TextBlock [104]))), Ready None], ps, w)"
proof -
  obtain ps w where r: "demo_run [ActPoll 2 2] = ([Ready (Some (Inr (TextBlock [104])))], ps, w)"
    "ps_inner ps = []" using demo_block by blast
  obtain ps' w' where "poll_plugin_stream demo_digest 3 3 ps w = (Ready None, ps', w')"
    using poll_at_end [OF r(2)] .
  moreover have "demo_run [ActPoll 2 2, ActPoll 3 3] = stream_step demo_digest (demo_run [ActPoll 2 2]) (ActPoll 3 3)"
    by (simp add: demo_run_def)
  ultimately show ?thesis by (simp add: r(1))
qed

theorem failing_request_hook_stops_the_pipeline_witness:
  "\<exists>c w'. run_request_hooks 0 (cl_plugins c) ((request_new ''m'')\<lparr>rq_provider := cl_provider c\<rparr>) demo_world =
      (Inl (ErrPlugin (PluginInternal ''no'')), w') \<and>
    pipeline_begin demo_digest [] False 0 0 c (request_new ''m'') demo_world =
      (Refused (ErrPlugin (PluginInternal ''no'')), w')"
proof -
  define c where "c = demo_client\<lparr>cl_plugins := [(plugin_default ''p'')
      \<lparr>pl_on_request := (\<lambda>r s. (Inl (PluginInternal ''no''), s))\<rparr>]\<rparr>"
  obtain w' where h: "run_request_hooks 0 (cl_plugins c) ((request_new ''m'')\<lparr>rq_provider := cl_provider c\<rparr>) demo_world =
      (Inl (ErrPlugin (PluginInternal ''no'')), w')"
    by (simp add: c_def traced_def)
  from failing_request_hook_stops_the_pipeline [OF h, of demo_digest "[]" False 0 0] h show ?thesis by blast
qed

theorem terminal_hooks_run_once_witness:
  "\<exists>as ps w. demo_run [ActPoll 2 2, ActPoll 3 3] = (as, ps, w) \<and>
     (\<exists>r. completions (cw_trace w) = [CallComplete 0 r] \<and> rs_content r = [TextBlock [104]])"
proof -
  obtain ps w where r: "demo_run [ActPoll 2 2, ActPoll 3 3] = ([Ready (Some (Inr (TextBlock [104]))), Ready None], ps, w)"
    using demo_end by blast
  from terminal_hooks_run_once [OF r [unfolded demo_run_def demo_stream_def]] show ?thesis
    unfolding r by (auto simp: demo_world_def demo_client_def terminal_calls_def until_end_def)
qed

theorem only_clean_streams_are_cached_witness:
  "\<exists>as ps w ps' w'. demo_run [ActPoll 2 2] = (as, ps, w) \<and>
     poll_plugin_stream demo_digest 3 3 ps w = (Ready None, ps', w') \<and>
     (\<exists>r. rs_content r = [TextBlock [104]] \<and>
        cw_cache w' = snd (cache_insert demo_digest demo_config (request_new ''m'') r 3 cache_empty))"
proof -
  obtain ps w where r: "demo_run [ActPoll 2 2] = ([Ready (Some (Inr (TextBlock [104])))], ps, w)"
    "cw_cache w = cache_empty" "ps_inner ps = []" using demo_block by blast
  obtain ps' w' where p: "poll_plugin_stream demo_digest 3 3 ps w = (Ready None, ps', w')"
    using poll_at_end [OF r(3)] .
  from only_clean_streams_are_cached [OF r(1) [unfolded demo_run_def demo_stream_def] p] r p show ?thesis by auto
qed

theorem hit_replays_the_stream_witness:
  "\<exists>ch w4. pipeline_begin demo_digest [''provider-openai''] True 4 500 demo_client (request_new ''m'')
       (demo_world\<lparr>cw_cache := cw_cache (snd (snd (demo_run [ActPoll 2 2, ActPoll 3 3])))\<rparr>) = (Served (Replayed ch), w4) \<and>
     fst (hit_polls [5, 6] ch w4) = [Ready (Some (Inr (TextBlock [104]))), Ready None]"
proof -
  obtain ps w where r: "demo_run [ActPoll 2 2] = ([Ready (Some (Inr (TextBlock [104])))], ps, w)"
    "cw_cache w = cache_empty" "ps_inner ps = []" using demo_block by blast
  obtain ps' w' where p: "poll_plugin_stream demo_digest 3 3 ps w = (Ready None, ps', w')"
    using poll_at_end [OF r(3)] .
  have "demo_run [ActPoll 2 2, ActPoll 3 3] = stream_step demo_digest (demo_run [ActPoll 2 2]) (ActPoll 3 3)"
    by (simp add: demo_run_def)
  then have w': "snd (snd (demo_run [ActPoll 2 2, ActPoll 3 3])) = w'" by (simp add: r(1) p)
  obtain w3 where h: "run_request_hooks 0 (cl_plugins demo_client) ((request_new ''m'')\<lparr>rq_provider := cl_provider demo_client\<rparr>)
      (demo_world\<lparr>cw_cache := cw_cache w'\<rparr>) =
      (Inr ((request_new ''m'')\<lparr>rq_provider := cl_provider demo_client\<rparr>), w3)" and w3: "cw_cache w3 = cw_cache w'"
    by (simp add: demo_client_def plugin_default_def traced_def)
  have "500 < expiry_at demo_config 3"
    by (simp add: expiry_at_def demo_config_def as_millis_def u64_sat_add_def u64_max_def)
  from hit_replays_the_stream [where key = "''k''" and enabled = "[''provider-openai'']" and ?completed2.0 = True
      and ts = "[5, 6]" and ?now2.0 = 4, OF r(1) [unfolded demo_run_def demo_stream_def] _ _ p _ _ _ h _ w3 this]
    r(2) cache_wf_empty(1)
  show ?thesis unfolding w' by (fastforce simp: demo_digest_def demo_config_def demo_client_def)
qed

end
