(* ===== verification/Memory_Graph.thy ===== *)
theory Memory_Graph
  imports Wire_Types Float64 "HOL-Library.AList" "HOL-Library.Char_ord" "HOL-Library.List_Lexorder"
begin

text \<open>
  \<open>src/plugins/memory/graph.rs\<close>: the in-memory graph of the memory plugin. Identifiers are
  strings, a character being a byte, in byte order. The two stores are association lists in the
  order their hash maps happen to iterate; the adjacency and position indexes, which are never
  iterated, are maps. \<open>'j\<close> is the type of JSON property maps; the texts of a weight and of a
  property map are parameters of \<open>render\<close>. Capacities are not modelled.
\<close>

section \<open>Data\<close>

record 'j graph_node =
  gn_id :: string
  gn_labels :: "string list"
  gn_properties :: 'j

record 'j graph_relationship =
  gr_id :: string
  gr_from :: string
  gr_to :: string
  gr_kind :: string
  gr_weight :: f64
  gr_properties :: 'j

datatype graph_direction = Outgoing | Incoming | AnyDirection

datatype merge_policy = MergeKeep | MergeOverwrite

record merge_report =
  mr_nodes_added :: nat
  mr_nodes_overwritten :: nat
  mr_nodes_kept :: nat
  mr_relationships_added :: nat
  mr_relationships_renamed :: nat

record 'j graph_snapshot =
  gs_nodes :: "'j graph_node list"
  gs_relationships :: "'j graph_relationship list"

record 'j memory_graph =
  mg_nodes :: "(string \<times> 'j graph_node) list"
  mg_relationships :: "(string \<times> 'j graph_relationship) list"
  mg_outgoing :: "string \<Rightarrow> string list option"
  mg_incoming :: "string \<Rightarrow> string list option"
  mg_outgoing_positions :: "string \<Rightarrow> nat option"
  mg_incoming_positions :: "string \<Rightarrow> nat option"

definition graph_new :: "'j memory_graph" where
  "graph_new = \<lparr>mg_nodes = [], mg_relationships = [], mg_outgoing = Map.empty,
     mg_incoming = Map.empty, mg_outgoing_positions = Map.empty, mg_incoming_positions = Map.empty\<rparr>"

section \<open>The adjacency indexes\<close>

text \<open>One index: the lists of a direction and the position of each relationship in its list.\<close>

type_synonym adjacency = "(string \<Rightarrow> string list option) \<times> (string \<Rightarrow> nat option)"

definition or_default :: "'a list option \<Rightarrow> 'a list" where
  "or_default x = (case x of Some l \<Rightarrow> l | None \<Rightarrow> [])"

definition index_push :: "string \<Rightarrow> string \<Rightarrow> adjacency \<Rightarrow> adjacency" where
  "index_push node rid ap =
     (let l = or_default (fst ap node)
      in ((fst ap)(node \<mapsto> l @ [rid]), (snd ap)(rid \<mapsto> length l)))"

text \<open>\<open>Vec::swap_remove\<close>: the last element takes the place of the removed one, which is returned.\<close>

definition swap_remove :: "nat \<Rightarrow> 'a list \<Rightarrow> 'a \<times> 'a list" where
  "swap_remove i l = (l ! i, butlast (l[i := last l]))"

definition index_remove :: "string \<Rightarrow> string \<Rightarrow> adjacency \<Rightarrow> adjacency" where
  "index_remove node rid ap =
     (case fst ap node of
        None \<Rightarrow> ap
      | Some l \<Rightarrow>
          let known = (case snd ap rid of
                Some i \<Rightarrow> if i < length l \<and> l ! i = rid then Some i else None
              | None \<Rightarrow> None);
              index = (case known of Some i \<Rightarrow> Some i | None \<Rightarrow> position (\<lambda>r. r = rid) l)
          in case index of
               None \<Rightarrow> ap
             | Some i \<Rightarrow>
                 let pos = (snd ap)(rid := None);
                     (moved_id, l) = swap_remove i l;
                     pos = (if moved_id \<noteq> rid then pos(moved_id \<mapsto> i) else pos)
                 in ((fst ap)(node \<mapsto> l), pos))"

section \<open>Operations\<close>

definition upsert_node :: "'j graph_node \<Rightarrow> 'j memory_graph \<Rightarrow> bool \<times> 'j memory_graph" where
  "upsert_node n g =
     (map_of (mg_nodes g) (gn_id n) = None, g\<lparr>mg_nodes := AList.update (gn_id n) n (mg_nodes g)\<rparr>)"

definition has_node :: "'j memory_graph \<Rightarrow> string \<Rightarrow> bool" where
  "has_node g n \<longleftrightarrow> map_of (mg_nodes g) n \<noteq> None"

definition remove_relationship :: "string \<Rightarrow> 'j memory_graph \<Rightarrow> bool \<times> 'j memory_graph" where
  "remove_relationship rid g =
     (case map_of (mg_relationships g) rid of
        None \<Rightarrow> (False, g)
      | Some rel \<Rightarrow>
          let g = g\<lparr>mg_relationships := AList.delete rid (mg_relationships g)\<rparr>;
              (out, out_pos) = index_remove (gr_from rel) rid (mg_outgoing g, mg_outgoing_positions g);
              (inc, inc_pos) = index_remove (gr_to rel) rid (mg_incoming g, mg_incoming_positions g)
          in (True, g\<lparr>mg_outgoing := out, mg_outgoing_positions := out_pos,
                      mg_incoming := inc, mg_incoming_positions := inc_pos\<rparr>))"

text \<open>Storing a relationship and indexing it, as \<open>add_relationship\<close>, \<open>subgraph\<close> and \<open>merge\<close> do.\<close>

definition index_relationship ::
    "string \<Rightarrow> 'j graph_relationship \<Rightarrow> 'j memory_graph \<Rightarrow> 'j memory_graph" where
  "index_relationship rid rel g =
     (let (out, out_pos) = index_push (gr_from rel) rid (mg_outgoing g, mg_outgoing_positions g);
          (inc, inc_pos) = index_push (gr_to rel) rid (mg_incoming g, mg_incoming_positions g)
      in g\<lparr>mg_relationships := AList.update rid rel (mg_relationships g),
           mg_outgoing := out, mg_outgoing_positions := out_pos,
           mg_incoming := inc, mg_incoming_positions := inc_pos\<rparr>)"

definition unknown_endpoint :: "string \<Rightarrow> string \<Rightarrow> string \<Rightarrow> string \<Rightarrow> plugin_error" where
  "unknown_endpoint what rid n side =
     PluginInternal (what @ '' relationship '' @ [CHR 0x27] @ rid @ [CHR 0x27] @
       '' references unknown node '' @ [CHR 0x27] @ n @ [CHR 0x27] @ '' ('' @ side @ '')'')"

definition add_relationship ::
    "'j graph_relationship \<Rightarrow> 'j memory_graph \<Rightarrow> plugin_error option \<times> 'j memory_graph" where
  "add_relationship rel g =
     (if \<not> has_node g (gr_from rel) then
        (Some (unknown_endpoint ''graph'' (gr_id rel) (gr_from rel) ''from''), g)
      else if \<not> has_node g (gr_to rel) then
        (Some (unknown_endpoint ''graph'' (gr_id rel) (gr_to rel) ''to''), g)
      else
        let (existed, g) = remove_relationship (gr_id rel) g
        in (None, index_relationship (gr_id rel) rel g))"

definition remove_node :: "string \<Rightarrow> 'j memory_graph \<Rightarrow> bool \<times> 'j memory_graph" where
  "remove_node n g =
     (if map_of (mg_nodes g) n = None then (False, g)
      else
        let g = g\<lparr>mg_nodes := AList.delete n (mg_nodes g)\<rparr>;
            incident = or_default (mg_outgoing g n) @ or_default (mg_incoming g n);
            g = foldl (\<lambda>g rid. snd (remove_relationship rid g)) g incident
        in (True, g\<lparr>mg_outgoing := (mg_outgoing g)(n := None),
                    mg_incoming := (mg_incoming g)(n := None)\<rparr>))"

definition graph_len :: "'j memory_graph \<Rightarrow> nat" where
  "graph_len g = length (mg_nodes g)"

definition relationship_count :: "'j memory_graph \<Rightarrow> nat" where
  "relationship_count g = length (mg_relationships g)"

definition graph_snapshot_of :: "'j memory_graph \<Rightarrow> 'j graph_snapshot" where
  "graph_snapshot_of g =
     \<lparr>gs_nodes = sort_key gn_id (map snd (mg_nodes g)),
      gs_relationships = sort_key gr_id (map snd (mg_relationships g))\<rparr>"

fun duplicate_in :: "string list \<Rightarrow> string list \<Rightarrow> string option" where
  "duplicate_in seen [] = None"
| "duplicate_in seen (x # xs) = (if x \<in> set seen then Some x else duplicate_in (x # seen) xs)"

fun f64_is_finite :: "f64 \<Rightarrow> bool" where
  "f64_is_finite (F64 q) = True"
| "f64_is_finite _ = False"

fun check_relationships ::
    "(f64 \<Rightarrow> string) \<Rightarrow> string list \<Rightarrow> string list \<Rightarrow> 'j graph_relationship list \<Rightarrow> plugin_error option" where
  "check_relationships show_f64 node_ids seen [] = None"
| "check_relationships show_f64 node_ids seen (rel # rels) =
     (if gr_id rel \<in> set seen then
        Some (PluginInternal (''graph snapshot has duplicate relationship id '' @
          [CHR 0x27] @ gr_id rel @ [CHR 0x27]))
      else if \<not> f64_is_finite (gr_weight rel) then
        Some (PluginInternal (''graph snapshot relationship '' @ [CHR 0x27] @ gr_id rel @ [CHR 0x27] @
          '' has non-finite weight '' @ show_f64 (gr_weight rel)))
      else if gr_from rel \<notin> set node_ids then
        Some (unknown_endpoint ''graph snapshot'' (gr_id rel) (gr_from rel) ''from'')
      else if gr_to rel \<notin> set node_ids then
        Some (unknown_endpoint ''graph snapshot'' (gr_id rel) (gr_to rel) ''to'')
      else check_relationships show_f64 node_ids (gr_id rel # seen) rels)"

fun add_all :: "'j graph_relationship list \<Rightarrow> 'j memory_graph \<Rightarrow> plugin_error + 'j memory_graph" where
  "add_all [] g = Inr g"
| "add_all (rel # rels) g =
     (case add_relationship rel g of
        (Some e, g) \<Rightarrow> Inl e
      | (None, g) \<Rightarrow> add_all rels g)"

definition from_snapshot ::
    "(f64 \<Rightarrow> string) \<Rightarrow> 'j graph_snapshot \<Rightarrow> plugin_error + 'j memory_graph" where
  "from_snapshot show_f64 s =
     (case duplicate_in [] (map gn_id (gs_nodes s)) of
        Some n \<Rightarrow> Inl (PluginInternal (''graph snapshot has duplicate node id '' @
          [CHR 0x27] @ n @ [CHR 0x27]))
      | None \<Rightarrow>
          (case check_relationships show_f64 (map gn_id (gs_nodes s)) [] (gs_relationships s) of
             Some e \<Rightarrow> Inl e
           | None \<Rightarrow>
               add_all (gs_relationships s)
                 (foldl (\<lambda>g n. snd (upsert_node n g)) graph_new (gs_nodes s))))"

section \<open>Queries\<close>

text \<open>The far ends of a list of relationships, as the loops over an adjacency list read them.\<close>

definition ends :: "'j memory_graph \<Rightarrow> ('j graph_relationship \<Rightarrow> string) \<Rightarrow> string list option \<Rightarrow> string list" where
  "ends g side rids =
     List.map_filter (\<lambda>rid. map_option side (map_of (mg_relationships g) rid)) (or_default rids)"

fun reached_from :: "'j memory_graph \<Rightarrow> graph_direction \<Rightarrow> string \<Rightarrow> string list" where
  "reached_from g Outgoing n = ends g gr_to (mg_outgoing g n)"
| "reached_from g Incoming n = ends g gr_from (mg_incoming g n)"
| "reached_from g AnyDirection n =
     ends g gr_to (mg_outgoing g n) @ ends g gr_from (mg_incoming g n)"

definition neighbors :: "'j memory_graph \<Rightarrow> string \<Rightarrow> graph_direction \<Rightarrow> string list" where
  "neighbors g n dir = remdups_adj (sort (reached_from g dir n))"

text \<open>
  One edge of a breadth-first search: a target not yet visited is marked and queued; the state is
  the visited ids and the next frontier.
\<close>

definition visit :: "string \<Rightarrow> string list \<times> string list \<Rightarrow> string list \<times> string list" where
  "visit v vn = (if v \<in> set (fst vn) then vn else (v # fst vn, snd vn @ [v]))"

fun connect_edges :: "string \<Rightarrow> string list \<Rightarrow> string list \<times> string list \<Rightarrow> (string list \<times> string list) option" where
  "connect_edges target [] vn = Some vn"
| "connect_edges target (v # vs) vn =
     (if v = target then None else connect_edges target vs (visit v vn))"

fun connect_level ::
    "'j memory_graph \<Rightarrow> string \<Rightarrow> string list \<Rightarrow> string list \<times> string list \<Rightarrow> (string list \<times> string list) option" where
  "connect_level g target [] vn = Some vn"
| "connect_level g target (n # ns) vn =
     (case connect_edges target (ends g gr_to (mg_outgoing g n)) vn of
        None \<Rightarrow> None
      | Some vn \<Rightarrow> connect_level g target ns vn)"

definition visit_level ::
    "'j memory_graph \<Rightarrow> graph_direction \<Rightarrow> string list \<Rightarrow> string list \<Rightarrow> string list \<times> string list" where
  "visit_level g dir frontier visited =
     foldl (\<lambda>vn n. foldl (\<lambda>vn v. visit v vn) vn (reached_from g dir n)) (visited, []) frontier"

fun traverse_levels ::
    "'j memory_graph \<Rightarrow> graph_direction \<Rightarrow> nat \<Rightarrow> string list \<Rightarrow> string list \<Rightarrow> string list \<Rightarrow> string list" where
  "traverse_levels g dir 0 visited frontier out = out"
| "traverse_levels g dir (Suc d) visited frontier out =
     (let (visited, next) = visit_level g dir frontier visited;
          next = sort next
      in traverse_levels g dir d visited next (out @ next))"

definition traverse :: "'j memory_graph \<Rightarrow> string \<Rightarrow> nat \<Rightarrow> graph_direction \<Rightarrow> string list" where
  "traverse g start max_depth dir =
     (if \<not> has_node g start then []
      else traverse_levels g dir max_depth [start] [start] [start])"

subsection \<open>Reachability\<close>

lemma set_ends: "set (ends g side rids) \<subseteq> side ` snd ` set (mg_relationships g)"
  by (force simp: ends_def List.map_filter_def dest: map_of_SomeD)

lemma connect_edges_shape:
  "connect_edges t vs (v, n) = Some (v', n') \<Longrightarrow>
     \<exists>ys. n' = n @ ys \<and> set v' = set v \<union> set ys \<and> set ys \<subseteq> set vs \<and> set ys \<inter> set v = {}"
proof (induction vs arbitrary: v n)
  case (Cons x vs)
  show ?case
  proof (cases "x \<in> set v")
    case True
    with Cons show ?thesis by (fastforce simp: visit_def split: if_splits)
  next
    case False
    with Cons.prems have "connect_edges t vs (x # v, n @ [x]) = Some (v', n')"
      by (simp add: visit_def split: if_splits)
    from Cons.IH [OF this] False show ?thesis by fastforce
  qed
qed simp

lemma connect_level_shape:
  "connect_level g t ns (v, n) = Some (v', n') \<Longrightarrow>
     \<exists>ys. n' = n @ ys \<and> set v' = set v \<union> set ys \<and> set ys \<inter> set v = {} \<and>
       set ys \<subseteq> gr_to ` snd ` set (mg_relationships g)"
proof (induction ns arbitrary: v n)
  case (Cons x ns)
  from Cons.prems obtain v1 n1 where e: "connect_edges t (ends g gr_to (mg_outgoing g x)) (v, n) = Some (v1, n1)"
    and l: "connect_level g t ns (v1, n1) = Some (v', n')"
    by (auto split: option.splits)
  from connect_edges_shape [OF e] obtain ys where ys: "n1 = n @ ys" "set v1 = set v \<union> set ys"
    "set ys \<subseteq> set (ends g gr_to (mg_outgoing g x))" "set ys \<inter> set v = {}" by blast
  from Cons.IH [OF l] obtain zs where zs: "n' = n1 @ zs" "set v' = set v1 \<union> set zs"
    "set zs \<inter> set v1 = {}" "set zs \<subseteq> gr_to ` snd ` set (mg_relationships g)" by blast
  have "set ys \<subseteq> gr_to ` snd ` set (mg_relationships g)"
    using ys(3) set_ends by (rule order_trans)
  moreover have "n' = n @ ys @ zs" using ys(1) zs(1) by simp
  moreover have "set v' = set v \<union> set (ys @ zs)" using ys(2) zs(2) by auto
  moreover have "set (ys @ zs) \<inter> set v = {}" using ys(2,4) zs(3) by auto
  ultimately show ?case using zs(4) by (intro exI [of _ "ys @ zs"]) (simp only: set_append Un_subset_iff simp_thms)
qed simp

function connect_loop :: "'j memory_graph \<Rightarrow> string \<Rightarrow> string list \<Rightarrow> string list \<Rightarrow> bool" where
  "connect_loop g target visited frontier =
     (if frontier = [] then False
      else (case connect_level g target frontier (visited, []) of
              None \<Rightarrow> True
            | Some (visited, next) \<Rightarrow> connect_loop g target visited next))"
  by pat_completeness auto

text \<open>Every level either ends the search or marks a target that was not marked before.\<close>

termination
proof (relation "measures [\<lambda>(g, t, v, f). card (gr_to ` snd ` set (mg_relationships g) - set v),
    \<lambda>(g, t, v, f). length f]", goal_cases)
  case (2 g t v f r v' f')
  then have "connect_level g t f (v, []) = Some (v', f')" by simp
  from connect_level_shape [OF this] have s: "set v' = set v \<union> set f'" "set f' \<inter> set v = {}"
    "set f' \<subseteq> gr_to ` snd ` set (mg_relationships g)" by auto
  show ?case
  proof (cases "f' = []")
    case True
    with s 2 show ?thesis by auto
  next
    case False
    then obtain x where "x \<in> set f'" by (cases f') auto
    with s have "x \<in> gr_to ` snd ` set (mg_relationships g) - set v"
      "x \<notin> gr_to ` snd ` set (mg_relationships g) - set v'" by blast+
    then have "gr_to ` snd ` set (mg_relationships g) - set v' \<subset> gr_to ` snd ` set (mg_relationships g) - set v"
      using s(1) by blast
    then have "card (gr_to ` snd ` set (mg_relationships g) - set v') <
        card (gr_to ` snd ` set (mg_relationships g) - set v)"
      by (intro psubset_card_mono) simp_all
    with 2 show ?thesis by auto
  qed
qed simp

declare connect_loop.simps [simp del]

definition is_connected :: "'j memory_graph \<Rightarrow> string \<Rightarrow> string \<Rightarrow> bool" where
  "is_connected g from to =
     (if from = to then has_node g from
      else if \<not> has_node g from \<or> \<not> has_node g to then False
      else connect_loop g to [from] [from])"

subsection \<open>Subgraph, merge and render\<close>

fun sub_levels :: "'j memory_graph \<Rightarrow> nat \<Rightarrow> string list \<Rightarrow> string list \<Rightarrow> string list" where
  "sub_levels g 0 ids frontier = ids"
| "sub_levels g (Suc d) ids frontier =
     (let (ids, next) = visit_level g AnyDirection frontier ids in sub_levels g d ids next)"

definition sub_roots :: "'j memory_graph \<Rightarrow> string list \<Rightarrow> string list \<times> string list" where
  "sub_roots g roots = foldl (\<lambda>vn r. if has_node g r then visit r vn else vn) ([], []) roots"

definition subgraph :: "string list \<Rightarrow> nat \<Rightarrow> 'j memory_graph \<Rightarrow> 'j memory_graph" where
  "subgraph roots max_depth g =
     (let (ids, frontier) = sub_roots g roots;
          ids = sub_levels g max_depth ids frontier;
          out = foldl (\<lambda>out n. case map_of (mg_nodes g) n of
                  Some node \<Rightarrow> out\<lparr>mg_nodes := AList.update n node (mg_nodes out)\<rparr>
                | None \<Rightarrow> out) graph_new (sort ids);
          rids = filter (\<lambda>rid. case map_of (mg_relationships g) rid of
                    Some rel \<Rightarrow> gr_from rel \<in> set ids \<and> gr_to rel \<in> set ids
                  | None \<Rightarrow> False) (map fst (mg_relationships g))
      in foldl (\<lambda>out rid. case map_of (mg_relationships g) rid of
             Some rel \<Rightarrow> index_relationship rid rel out
           | None \<Rightarrow> out) out (sort rids))"

fun merge_node ::
    "merge_policy \<Rightarrow> 'j memory_graph \<times> merge_report \<Rightarrow> string \<times> 'j graph_node \<Rightarrow>
     'j memory_graph \<times> merge_report" where
  "merge_node policy (g, rep) (n, node) =
     (case map_of (mg_nodes g) n of
        None \<Rightarrow> (g\<lparr>mg_nodes := AList.update n node (mg_nodes g)\<rparr>,
                 rep\<lparr>mr_nodes_added := mr_nodes_added rep + 1\<rparr>)
      | Some kept \<Rightarrow>
          (case policy of
             MergeKeep \<Rightarrow> (g, rep\<lparr>mr_nodes_kept := mr_nodes_kept rep + 1\<rparr>)
           | MergeOverwrite \<Rightarrow> (g\<lparr>mg_nodes := AList.update n node (mg_nodes g)\<rparr>,
                 rep\<lparr>mr_nodes_overwritten := mr_nodes_overwritten rep + 1\<rparr>)))"

text \<open>The first of \<open>{orig}-2\<close>, \<open>{orig}-3\<close>, \<dots> that is not used.\<close>

definition candidate_id :: "string \<Rightarrow> nat \<Rightarrow> string" where
  "candidate_id orig n = orig @ ''-'' @ show_nat n"

fun digits_value :: "nat \<Rightarrow> string \<Rightarrow> nat" where
  "digits_value a [] = a"
| "digits_value a (c # cs) = digits_value (a * 10 + (of_char c - 48)) cs"

lemma digits_value_append: "digits_value a (xs @ [c]) = digits_value a xs * 10 + (of_char c - 48)"
  by (induction xs arbitrary: a) simp_all

lemma digits_value_show_nat: "digits_value 0 (show_nat n) = n"
proof (induction n rule: show_nat.induct)
  case (1 n)
  show ?case
  proof (cases "n < 10")
    case True
    then show ?thesis by (subst show_nat.simps) simp
  next
    case False
    with 1 show ?thesis by (subst show_nat.simps) (simp add: digits_value_append)
  qed
qed

lemma inj_candidate_id: "inj (candidate_id orig)"
  by (rule injI) (metis candidate_id_def digits_value_show_nat same_append_eq)

function free_id :: "string \<Rightarrow> string list \<Rightarrow> nat \<Rightarrow> string" where
  "free_id orig used n =
     (let n = n + 1; candidate = candidate_id orig n
      in if candidate \<notin> set used then candidate else free_id orig used n)"
  by pat_completeness auto

termination
proof (relation "measure (\<lambda>(orig, used, n). card {k. n < k \<and> candidate_id orig k \<in> set used})", goal_cases)
  case (2 orig used n n' candidate)
  have "finite (candidate_id orig -` set used)"
    by (rule finite_vimageI [OF finite_set inj_candidate_id])
  then have "finite {k. n < k \<and> candidate_id orig k \<in> set used}"
    by (rule rev_finite_subset) auto
  moreover have "{k. n' < k \<and> candidate_id orig k \<in> set used} \<subset> {k. n < k \<and> candidate_id orig k \<in> set used}"
    using 2 by auto
  ultimately show ?case by (simp add: psubset_card_mono)
qed simp

declare free_id.simps [simp del]

fun rename_all :: "string list \<Rightarrow> string list \<Rightarrow> string list \<Rightarrow> (string \<times> string) list" where
  "rename_all taken assigned [] = []"
| "rename_all taken assigned (orig # rest) =
     (let candidate = free_id orig (taken @ assigned) 1
      in (orig, candidate) # rename_all taken (candidate # assigned) rest)"

fun merge_relationship ::
    "(string \<times> string) list \<Rightarrow> 'j memory_graph \<times> merge_report \<Rightarrow> string \<times> 'j graph_relationship \<Rightarrow>
     'j memory_graph \<times> merge_report" where
  "merge_relationship rename (g, rep) (rid, rel) =
     (case map_of rename rid of
        Some new_id \<Rightarrow>
          (index_relationship new_id (rel\<lparr>gr_id := new_id\<rparr>) g,
           rep\<lparr>mr_relationships_renamed := mr_relationships_renamed rep + 1\<rparr>)
      | None \<Rightarrow>
          (index_relationship rid rel g,
           rep\<lparr>mr_relationships_added := mr_relationships_added rep + 1\<rparr>))"

definition merge_graph ::
    "'j memory_graph \<Rightarrow> merge_policy \<Rightarrow> 'j memory_graph \<Rightarrow> merge_report \<times> 'j memory_graph" where
  "merge_graph other policy g =
     (let rep = \<lparr>mr_nodes_added = 0, mr_nodes_overwritten = 0, mr_nodes_kept = 0,
                 mr_relationships_added = 0, mr_relationships_renamed = 0\<rparr>;
          (g, rep) = foldl (merge_node policy) (g, rep) (mg_nodes other);
          collisions = sort (filter (\<lambda>k. map_of (mg_relationships g) k \<noteq> None)
                         (map fst (mg_relationships other)));
          taken = map fst (mg_relationships g) @ map fst (mg_relationships other);
          rename = rename_all taken [] collisions;
          (g, rep) = foldl (merge_relationship rename) (g, rep) (mg_relationships other)
      in (rep, g))"

text \<open>
  \<open>bounded_sorted_ids\<close> keeps the least ids in a max-heap; the heap is the list of its elements,
  whose greatest one \<open>peek\<close> shows and \<open>pop\<close> removes.
\<close>

fun keep_least :: "nat \<Rightarrow> string list \<Rightarrow> string list \<Rightarrow> string list" where
  "keep_least k heap [] = heap"
| "keep_least k heap (x # xs) =
     (if length heap < k then keep_least k (x # heap) xs
      else if heap \<noteq> [] \<and> x < Max (set heap) then keep_least k (x # remove1 (Max (set heap)) heap) xs
      else keep_least k heap xs)"

definition bounded_sorted_ids :: "string list \<Rightarrow> nat \<Rightarrow> nat \<Rightarrow> string list" where
  "bounded_sorted_ids ids k cnt =
     (if k \<ge> cnt then sort ids
      else if k = 0 then []
      else sort (keep_least k [] ids))"

fun join_labels :: "string list \<Rightarrow> string" where
  "join_labels [] = []"
| "join_labels [l] = l"
| "join_labels (l # ls) = l @ '', '' @ join_labels ls"

definition newline :: string where
  "newline = [CHR 0x0A]"

definition render_node :: "('j \<Rightarrow> string option) \<Rightarrow> 'j graph_node \<Rightarrow> string \<Rightarrow> string" where
  "render_node props n nid =
     ''node '' @ nid @ '':'' @
     (if gn_labels n \<noteq> [] then '' labels=['' @ join_labels (gn_labels n) @ '']'' else []) @
     (case props (gn_properties n) of Some j \<Rightarrow> '' props='' @ j | None \<Rightarrow> []) @ newline"

definition render_relationship ::
    "(f64 \<Rightarrow> string) \<Rightarrow> ('j \<Rightarrow> string option) \<Rightarrow> 'j graph_relationship \<Rightarrow> string \<Rightarrow> string" where
  "render_relationship show_f64 props rel rid =
     ''rel '' @ rid @ '': '' @ gr_from rel @ '' -['' @ gr_kind rel @ '']-> '' @ gr_to rel @
     '' weight='' @ show_f64 (gr_weight rel) @
     (case props (gr_properties rel) of Some j \<Rightarrow> '' props='' @ j | None \<Rightarrow> []) @ newline"

text \<open>\<open>props\<close> gives the JSON text of a property map, \<^term>\<open>None\<close> when it is empty.\<close>

definition render ::
    "(f64 \<Rightarrow> string) \<Rightarrow> ('j \<Rightarrow> string option) \<Rightarrow> nat \<Rightarrow> nat \<Rightarrow> 'j memory_graph \<Rightarrow> string" where
  "render show_f64 props max_nodes max_relationships g =
     (let node_count = length (mg_nodes g);
          relationship_count = length (mg_relationships g)
      in ''CUCA graph memory: '' @ show_nat node_count @ '' nodes, '' @ show_nat relationship_count @
         '' relationships'' @ newline @
         concat (map (\<lambda>nid. render_node props (the (map_of (mg_nodes g) nid)) nid)
           (bounded_sorted_ids (map fst (mg_nodes g)) max_nodes node_count)) @
         (if node_count > max_nodes
          then ''... '' @ show_nat (node_count - max_nodes) @ '' more nodes omitted'' @ newline else []) @
         concat (map (\<lambda>rid. render_relationship show_f64 props (the (map_of (mg_relationships g) rid)) rid)
           (bounded_sorted_ids (map fst (mg_relationships g)) max_relationships relationship_count)) @
         (if relationship_count > max_relationships
          then ''... '' @ show_nat (relationship_count - max_relationships) @
            '' more relationships omitted'' @ newline else []))"

section \<open>The indexes mirror the store\<close>

text \<open>
  An index of the relationships \<open>P\<close> assigns to nodes: every list names exactly the relationships of
  its node, once each, and exactly the relationships have a position. The positions themselves
  need not be right; \<open>index_remove\<close> falls back on a search.
\<close>

definition index_ok :: "(string \<Rightarrow> string option) \<Rightarrow> adjacency \<Rightarrow> bool" where
  "index_ok P ap \<longleftrightarrow>
     (\<forall>n. distinct (or_default (fst ap n)) \<and> set (or_default (fst ap n)) = {r. P r = Some n}) \<and>
     dom (snd ap) = dom P"

lemma or_default_simps [simp]: "or_default None = []" "or_default (Some l) = l"
  by (simp_all add: or_default_def)

lemma mset_swap_remove:
  assumes "i < length l"
  shows "add_mset (l ! i) (mset (snd (swap_remove i l))) = mset l"
proof -
  let ?u = "l[i := last l]"
  have ne: "l \<noteq> []" "?u \<noteq> []" using assms by auto
  have "last ?u = last l"
    using assms ne by (simp add: last_list_update)
  then have "mset ?u = add_mset (last l) (mset (butlast ?u))"
    using append_butlast_last_id [OF ne(2)] by (metis mset.simps(2) mset_append union_mset_add_mset_right
        add.right_neutral mset.simps(1))
  moreover have "add_mset (l ! i) (mset ?u) = add_mset (last l) (mset l)"
    using assms by (simp add: mset_update)
  ultimately show ?thesis by (simp add: swap_remove_def add_mset_commute)
qed

lemma swap_remove_spec:
  assumes "distinct l" "i < length l"
  shows "fst (swap_remove i l) = l ! i" and "distinct (snd (swap_remove i l))"
    and "set (snd (swap_remove i l)) = set l - {l ! i}"
proof -
  show "fst (swap_remove i l) = l ! i" by (simp add: swap_remove_def)
  note m = mset_swap_remove [OF assms(2)]
  then have d: "distinct (l ! i # snd (swap_remove i l))"
    using assms(1) by (metis mset.simps(2) mset_eq_imp_distinct_iff)
  then show "distinct (snd (swap_remove i l))" by simp
  have "set l = insert (l ! i) (set (snd (swap_remove i l)))"
    using m by (metis set_mset_add_mset_insert set_mset_mset)
  with d show "set (snd (swap_remove i l)) = set l - {l ! i}" by auto
qed

lemma index_push_ok:
  assumes ok: "index_ok P ap" and r: "P r = None"
  shows "index_ok (P(r \<mapsto> n)) (index_push n r ap)"
proof -
  have lists: "distinct (or_default (fst ap k))" "set (or_default (fst ap k)) = {r. P r = Some k}" for k
    using ok by (simp_all add: index_ok_def)
  have "r \<notin> set (or_default (fst ap k))" for k using lists(2) [of k] r by simp
  then show ?thesis
    using lists r ok by (auto simp: index_ok_def index_push_def Let_def)
qed

lemma index_remove_at:
  assumes ok: "index_ok P ap" and r: "P r = Some n"
  obtains l i where "fst ap n = Some l" "i < length l" "l ! i = r" "distinct l" "set l = {r. P r = Some n}"
    "index_remove n r ap = ((fst ap)(n \<mapsto> snd (swap_remove i l)), (snd ap)(r := None))"
proof -
  have "r \<in> set (or_default (fst ap n))" using ok r by (simp add: index_ok_def)
  then obtain l where l: "fst ap n = Some l" "r \<in> set l" by (cases "fst ap n") auto
  have d: "distinct l" "set l = {r. P r = Some n}" 
    using ok [unfolded index_ok_def, THEN conjunct1, THEN spec, of n] l(1) by simp_all
  let ?known = "case snd ap r of Some i \<Rightarrow> if i < length l \<and> l ! i = r then Some i else None | None \<Rightarrow> None"
  let ?index = "case ?known of Some i \<Rightarrow> Some i | None \<Rightarrow> position (\<lambda>x. x = r) l"
  have "\<exists>i. ?index = Some i \<and> i < length l \<and> l ! i = r"
  proof (cases ?known)
    case None
    obtain i where "position (\<lambda>x. x = r) l = Some i"
      using l(2) position_None [of "\<lambda>x. x = r" l] by (cases "position (\<lambda>x. x = r) l") auto
    with None position_Some [OF this] show ?thesis by simp
  qed (auto split: option.splits if_splits)
  then obtain i where i: "?index = Some i" "i < length l" "l ! i = r" by blast
  have "fst (swap_remove i l) = r" using swap_remove_spec(1) [OF d(1) i(2)] i(3) by simp
  then have "index_remove n r ap = ((fst ap)(n \<mapsto> snd (swap_remove i l)), (snd ap)(r := None))"
    unfolding index_remove_def l(1) option.case Let_def i(1) by (cases "swap_remove i l") simp
  with l i d show thesis by (intro that)
qed

lemma index_remove_ok:
  assumes ok: "index_ok P ap" and r: "P r = Some n"
  shows "index_ok (P(r := None)) (index_remove n r ap)"
proof -
  obtain l i where l: "fst ap n = Some l" "i < length l" "l ! i = r" "distinct l" "set l = {r. P r = Some n}"
    "index_remove n r ap = ((fst ap)(n \<mapsto> snd (swap_remove i l)), (snd ap)(r := None))"
    using index_remove_at [OF assms] by blast
  note sr = swap_remove_spec [OF l(4,2)]
  have lists: "distinct (or_default (fst ap k))" "set (or_default (fst ap k)) = {r. P r = Some k}" for k
    using ok by (simp_all add: index_ok_def)
  have "distinct (or_default (((fst ap)(n \<mapsto> snd (swap_remove i l))) k)) \<and>
      set (or_default (((fst ap)(n \<mapsto> snd (swap_remove i l))) k)) = {x. (P(r := None)) x = Some k}" for k
  proof (cases "k = n")
    case True
    with sr l(3,5) show ?thesis by auto
  next
    case False
    with lists [of k] r show ?thesis by auto
  qed
  moreover have "dom ((snd ap)(r := None)) = dom (P(r := None))" using ok by (simp add: index_ok_def)
  ultimately show ?thesis by (simp add: index_ok_def l(6))
qed

lemma index_remove_dom:
  "index_ok P ap \<Longrightarrow> P r = Some n \<Longrightarrow> dom (fst (index_remove n r ap)) = dom (fst ap)"
  by (erule (1) index_remove_at) auto

text \<open>
  The removed element is what \<open>swap_remove\<close> returns, so the test of the code never finds another
  id: the element that took its place keeps its old position.
\<close>

theorem moved_relationship_keeps_a_stale_position:
  "let ap = index_remove ''n'' ''a'' (index_push ''n'' ''b'' (index_push ''n'' ''a'' (Map.empty, Map.empty)))
   in fst ap ''n'' = Some [''b''] \<and> snd ap ''b'' = Some 1"
  by (simp add: index_remove_def index_push_def swap_remove_def Let_def)

section \<open>The graph invariant\<close>

text \<open>The end a relationship has on one side, by relationship id.\<close>

definition ends_by :: "('r \<Rightarrow> 'n) \<Rightarrow> ('k \<Rightarrow> 'r option) \<Rightarrow> 'k \<Rightarrow> 'n option" where
  "ends_by side rels k = map_option side (rels k)"

lemma ends_by_upd: "ends_by f (m(k \<mapsto> x)) = (ends_by f m)(k \<mapsto> f x)"
  "ends_by f (m(k := None)) = (ends_by f m)(k := None)"
  by (simp_all add: fun_eq_iff ends_by_def)

lemma ends_by_None [simp]: "ends_by f m k = None \<longleftrightarrow> m k = None"
  by (simp add: ends_by_def)

lemma dom_ends_by [simp]: "dom (ends_by f m) = dom m"
  by (auto simp: ends_by_def dom_def)

lemma ends_by_Some: "m k = Some x \<Longrightarrow> ends_by f m k = Some (f x)"
  by (simp add: ends_by_def)

definition graph_core :: "'j memory_graph \<Rightarrow> bool" where
  "graph_core g \<longleftrightarrow>
     distinct (map fst (mg_nodes g)) \<and> (\<forall>n node. map_of (mg_nodes g) n = Some node \<longrightarrow> gn_id node = n) \<and>
     distinct (map fst (mg_relationships g)) \<and>
     (\<forall>r rel. map_of (mg_relationships g) r = Some rel \<longrightarrow> gr_id rel = r) \<and>
     index_ok (ends_by gr_from (map_of (mg_relationships g))) (mg_outgoing g, mg_outgoing_positions g) \<and>
     index_ok (ends_by gr_to (map_of (mg_relationships g))) (mg_incoming g, mg_incoming_positions g)"

definition endpoints_exist :: "'j memory_graph \<Rightarrow> bool" where
  "endpoints_exist g \<longleftrightarrow>
     (\<forall>r rel. map_of (mg_relationships g) r = Some rel \<longrightarrow>
        has_node g (gr_from rel) \<and> has_node g (gr_to rel)) \<and>
     dom (mg_outgoing g) \<subseteq> {n. has_node g n} \<and> dom (mg_incoming g) \<subseteq> {n. has_node g n}"

definition graph_wf :: "'j memory_graph \<Rightarrow> bool" where
  "graph_wf g \<longleftrightarrow> graph_core g \<and> endpoints_exist g"

lemma update_absent: "k \<notin> fst ` set al \<Longrightarrow> AList.update k v al = al @ [(k, v)]"
  by (induction al) auto

lemma map_of_delete: "map_of (AList.delete k al) = (map_of al)(k := None)"
  by (simp add: fun_eq_iff AList.delete_conv')

lemma remove_relationship_spec:
  assumes core: "graph_core g"
  shows "graph_core (snd (remove_relationship rid g))"
    and "map_of (mg_relationships (snd (remove_relationship rid g))) = (map_of (mg_relationships g))(rid := None)"
    and "mg_nodes (snd (remove_relationship rid g)) = mg_nodes g"
    and "dom (mg_outgoing (snd (remove_relationship rid g))) = dom (mg_outgoing g)"
    and "dom (mg_incoming (snd (remove_relationship rid g))) = dom (mg_incoming g)"
    and "fst (remove_relationship rid g) \<longleftrightarrow> map_of (mg_relationships g) rid \<noteq> None"
proof -
  let ?g = "snd (remove_relationship rid g)" and ?m = "map_of (mg_relationships g)"
  have "graph_core ?g \<and> map_of (mg_relationships ?g) = ?m(rid := None) \<and> mg_nodes ?g = mg_nodes g \<and>
    dom (mg_outgoing ?g) = dom (mg_outgoing g) \<and> dom (mg_incoming ?g) = dom (mg_incoming g) \<and>
    (fst (remove_relationship rid g) \<longleftrightarrow> ?m rid \<noteq> None)"
  proof (cases "?m rid")
    case None
    then have "?m(rid := None) = ?m" by (simp add: fun_upd_idem)
    with None core show ?thesis by (simp add: remove_relationship_def)
  next
    case (Some rel)
    let ?O = "(mg_outgoing g, mg_outgoing_positions g)" and ?I = "(mg_incoming g, mg_incoming_positions g)"
    have ok: "index_ok (ends_by gr_from ?m) ?O" "index_ok (ends_by gr_to ?m) ?I"
      using core by (simp_all add: graph_core_def)
    have P: "(ends_by gr_from ?m) rid = Some (gr_from rel)" "(ends_by gr_to ?m) rid = Some (gr_to rel)"
      using Some by (simp_all add: ends_by_Some)
    obtain o1 o2 where o: "index_remove (gr_from rel) rid ?O = (o1, o2)"
      by (cases "index_remove (gr_from rel) rid ?O")
    obtain i1 i2 where i: "index_remove (gr_to rel) rid ?I = (i1, i2)"
      by (cases "index_remove (gr_to rel) rid ?I")
    have r: "remove_relationship rid g = (True, g\<lparr>mg_relationships := AList.delete rid (mg_relationships g),
        mg_outgoing := o1, mg_outgoing_positions := o2, mg_incoming := i1, mg_incoming_positions := i2\<rparr>)"
      using Some o i by (simp add: remove_relationship_def Let_def)
    have "index_ok ((ends_by gr_from ?m)(rid := None)) (o1, o2)"
      "index_ok ((ends_by gr_to ?m)(rid := None)) (i1, i2)"
      using index_remove_ok [OF ok(1) P(1)] index_remove_ok [OF ok(2) P(2)] o i by simp_all
    moreover have "dom o1 = dom (mg_outgoing g)" "dom i1 = dom (mg_incoming g)"
      using index_remove_dom [OF ok(1) P(1)] index_remove_dom [OF ok(2) P(2)] o i by simp_all
    moreover have "distinct (map fst (AList.delete rid (mg_relationships g)))"
      using core by (simp add: graph_core_def distinct_delete)
    ultimately show ?thesis
      using core Some by (simp add: r graph_core_def map_of_delete ends_by_upd)
  qed
  then show "graph_core ?g" "map_of (mg_relationships ?g) = ?m(rid := None)" "mg_nodes ?g = mg_nodes g"
    "dom (mg_outgoing ?g) = dom (mg_outgoing g)" "dom (mg_incoming ?g) = dom (mg_incoming g)"
    "fst (remove_relationship rid g) \<longleftrightarrow> ?m rid \<noteq> None" by blast+
qed

lemma index_relationship_spec:
  assumes core: "graph_core g" and new: "map_of (mg_relationships g) rid = None" and "gr_id rel = rid"
  shows "graph_core (index_relationship rid rel g)"
    and "map_of (mg_relationships (index_relationship rid rel g)) = (map_of (mg_relationships g))(rid \<mapsto> rel)"
    and "mg_nodes (index_relationship rid rel g) = mg_nodes g"
    and "dom (mg_outgoing (index_relationship rid rel g)) = insert (gr_from rel) (dom (mg_outgoing g))"
    and "dom (mg_incoming (index_relationship rid rel g)) = insert (gr_to rel) (dom (mg_incoming g))"
    and "length (mg_relationships (index_relationship rid rel g)) = Suc (length (mg_relationships g))"
proof -
  let ?m = "map_of (mg_relationships g)"
  let ?O = "(mg_outgoing g, mg_outgoing_positions g)" and ?I = "(mg_incoming g, mg_incoming_positions g)"
  have ok: "index_ok (ends_by gr_from ?m) ?O" "index_ok (ends_by gr_to ?m) ?I"
    using core by (simp_all add: graph_core_def)
  have P: "(ends_by gr_from ?m) rid = None" "(ends_by gr_to ?m) rid = None" using new by simp_all
  note push = index_push_ok [OF ok(1) P(1), of "gr_from rel"] index_push_ok [OF ok(2) P(2), of "gr_to rel"]
  have r: "index_relationship rid rel g = g\<lparr>mg_relationships := AList.update rid rel (mg_relationships g),
      mg_outgoing := fst (index_push (gr_from rel) rid ?O), mg_outgoing_positions := snd (index_push (gr_from rel) rid ?O),
      mg_incoming := fst (index_push (gr_to rel) rid ?I), mg_incoming_positions := snd (index_push (gr_to rel) rid ?I)\<rparr>"
    by (simp add: index_relationship_def split: prod.split)
  show "map_of (mg_relationships (index_relationship rid rel g)) = ?m(rid \<mapsto> rel)"
    by (simp add: r update_conv')
  show "mg_nodes (index_relationship rid rel g) = mg_nodes g" by (simp add: r)
  show "dom (mg_outgoing (index_relationship rid rel g)) = insert (gr_from rel) (dom (mg_outgoing g))"
    "dom (mg_incoming (index_relationship rid rel g)) = insert (gr_to rel) (dom (mg_incoming g))"
    by (simp_all add: r index_push_def Let_def)
  have "rid \<notin> fst ` set (mg_relationships g)" using new by (simp add: map_of_eq_None_iff)
  then have "AList.update rid rel (mg_relationships g) = mg_relationships g @ [(rid, rel)]"
    by (rule update_absent)
  then show "length (mg_relationships (index_relationship rid rel g)) = Suc (length (mg_relationships g))"
    by (simp add: r)
  show "graph_core (index_relationship rid rel g)"
    using core push assms(3) by (simp add: r graph_core_def update_conv' ends_by_upd distinct_update)
qed


subsection \<open>Every operation keeps the invariant\<close>

lemma graph_wfI: "graph_core g \<Longrightarrow> endpoints_exist g \<Longrightarrow> graph_wf g"
  by (simp add: graph_wf_def)

lemma graph_wf_core: "graph_wf g \<Longrightarrow> graph_core g"
  by (simp add: graph_wf_def)

lemma graph_wf_ends:
  "graph_wf g \<Longrightarrow> map_of (mg_relationships g) r = Some rel \<Longrightarrow> has_node g (gr_from rel) \<and> has_node g (gr_to rel)"
  by (simp add: graph_wf_def endpoints_exist_def)

lemma graph_core_ids:
  "graph_core g \<Longrightarrow> map_of (mg_relationships g) r = Some rel \<Longrightarrow> gr_id rel = r"
  "graph_core g \<Longrightarrow> map_of (mg_nodes g) n = Some node \<Longrightarrow> gn_id node = n"
  by (simp_all add: graph_core_def)

lemma graph_core_distinct:
  "graph_core g \<Longrightarrow> distinct (map fst (mg_relationships g))"
  "graph_core g \<Longrightarrow> distinct (map fst (mg_nodes g))"
  by (simp_all add: graph_core_def)

lemma index_ok_empty: "index_ok (ends_by f Map.empty) (Map.empty, Map.empty)"
  by (simp add: index_ok_def ends_by_def dom_def)

lemma graph_new_wf: "graph_wf graph_new"
  by (simp add: graph_wf_def graph_core_def endpoints_exist_def graph_new_def index_ok_empty)

lemma put_node_core:
  "graph_core g \<Longrightarrow> gn_id node = n \<Longrightarrow> graph_core (g\<lparr>mg_nodes := AList.update n node (mg_nodes g)\<rparr>)"
  by (simp add: graph_core_def distinct_update update_conv')

lemma put_node_wf:
  "graph_wf g \<Longrightarrow> gn_id node = n \<Longrightarrow> graph_wf (g\<lparr>mg_nodes := AList.update n node (mg_nodes g)\<rparr>)"
  by (intro graph_wfI put_node_core) (auto simp: graph_wf_def endpoints_exist_def has_node_def update_conv')

lemma upsert_node_wf: "graph_wf g \<Longrightarrow> graph_wf (snd (upsert_node n g))"
  by (simp add: upsert_node_def put_node_wf)

lemma remove_relationship_wf:
  assumes "graph_wf g"
  shows "graph_wf (snd (remove_relationship rid g))"
proof (rule graph_wfI)
  note spec = remove_relationship_spec [OF graph_wf_core [OF assms], of rid]
  show "graph_core (snd (remove_relationship rid g))" by (rule spec(1))
  show "endpoints_exist (snd (remove_relationship rid g))"
    using assms unfolding graph_wf_def endpoints_exist_def has_node_def spec(2-5)
    by (simp add: fun_upd_def)
qed

lemma index_relationship_wf:
  assumes wf: "graph_wf g" and new: "map_of (mg_relationships g) rid = None" and "gr_id rel = rid"
    and e: "has_node g (gr_from rel)" "has_node g (gr_to rel)"
  shows "graph_wf (index_relationship rid rel g)"
proof (rule graph_wfI)
  note spec = index_relationship_spec [OF graph_wf_core [OF wf] new assms(3)]
  show "graph_core (index_relationship rid rel g)" by (rule spec(1))
  show "endpoints_exist (index_relationship rid rel g)"
    using wf e unfolding graph_wf_def endpoints_exist_def has_node_def spec(2-5) by auto
qed

lemma add_relationship_wf:
  assumes wf: "graph_wf g"
  shows "graph_wf (snd (add_relationship rel g))"
proof (cases "has_node g (gr_from rel) \<and> has_node g (gr_to rel)")
  case True
  let ?g = "snd (remove_relationship (gr_id rel) g)"
  note spec = remove_relationship_spec [OF graph_wf_core [OF wf], of "gr_id rel"]
  have "graph_wf (index_relationship (gr_id rel) rel ?g)"
    using True by (intro index_relationship_wf remove_relationship_wf wf) (simp_all add: has_node_def spec)
  with True show ?thesis by (simp add: add_relationship_def split: prod.split) (metis snd_conv)
qed (use wf in \<open>auto simp: add_relationship_def\<close>)

definition remove_relationships :: "string list \<Rightarrow> 'j memory_graph \<Rightarrow> 'j memory_graph" where
  "remove_relationships rids g = foldl (\<lambda>g rid. snd (remove_relationship rid g)) g rids"

lemma remove_relationships_Cons:
  "remove_relationships (r # rids) g = remove_relationships rids (snd (remove_relationship r g))"
  by (simp add: remove_relationships_def)

lemma remove_relationships_spec:
  "graph_core g \<Longrightarrow>
     graph_core (remove_relationships rids g) \<and>
     map_of (mg_relationships (remove_relationships rids g)) = map_of (mg_relationships g) |` (- set rids) \<and>
     mg_nodes (remove_relationships rids g) = mg_nodes g \<and>
     dom (mg_outgoing (remove_relationships rids g)) = dom (mg_outgoing g) \<and>
     dom (mg_incoming (remove_relationships rids g)) = dom (mg_incoming g)"
proof (induction rids arbitrary: g)
  case (Cons r rids)
  note spec = remove_relationship_spec [OF Cons.prems, of r]
  have "(map_of (mg_relationships g))(r := None) |` (- set rids) =
      map_of (mg_relationships g) |` (- set (r # rids))"
    by (simp add: restrict_map_def fun_eq_iff)
  with Cons.IH [OF spec(1)] show ?case unfolding remove_relationships_Cons spec(2-5) by (simp only: HOL.simp_thms)
qed (simp add: remove_relationships_def restrict_map_def)

lemma index_ok_drop:
  assumes "index_ok P (a, p)" and "\<And>r. P r \<noteq> Some n"
  shows "index_ok P (a(n := None), p)"
  using assms by (simp add: index_ok_def)

lemma index_ok_lists: "index_ok P (a, p) \<Longrightarrow> set (or_default (a n)) = {r. P r = Some n}"
  by (simp add: index_ok_def)

lemma remove_node_spec:
  assumes wf: "graph_wf g" and n: "has_node g n"
  shows "graph_wf (snd (remove_node n g))"
    and "map_of (mg_nodes (snd (remove_node n g))) = (map_of (mg_nodes g))(n := None)"
    and "map_of (mg_relationships (snd (remove_node n g))) =
      (\<lambda>r. case map_of (mg_relationships g) r of None \<Rightarrow> None
             | Some rel \<Rightarrow> if gr_from rel = n \<or> gr_to rel = n then None else Some rel)"
proof -
  let ?g0 = "g\<lparr>mg_nodes := AList.delete n (mg_nodes g)\<rparr>"
  let ?rids = "or_default (mg_outgoing g n) @ or_default (mg_incoming g n)"
  define g1 where "g1 = remove_relationships ?rids ?g0"
  let ?rels = "map_of (mg_relationships g)"
  have core: "graph_core g" using wf by (rule graph_wf_core)
  then have "graph_core ?g0" by (simp add: graph_core_def distinct_delete map_of_delete)
  note * = remove_relationships_spec [OF this, of ?rids, folded g1_def]
  note spec = *[THEN conjunct1] *[THEN conjunct2, THEN conjunct1]
    *[THEN conjunct2, THEN conjunct2, THEN conjunct1]
    *[THEN conjunct2, THEN conjunct2, THEN conjunct2, THEN conjunct1]
    *[THEN conjunct2, THEN conjunct2, THEN conjunct2, THEN conjunct2]
  have ok: "index_ok (ends_by gr_from ?rels) (mg_outgoing g, mg_outgoing_positions g)"
    "index_ok (ends_by gr_to ?rels) (mg_incoming g, mg_incoming_positions g)"
    using core by (simp_all add: graph_core_def)
  have "set ?rids = {r. ends_by gr_from ?rels r = Some n \<or> ends_by gr_to ?rels r = Some n}"
    using index_ok_lists [OF ok(1), of n] index_ok_lists [OF ok(2), of n] by auto
  then have rels: "map_of (mg_relationships g1) =
      (\<lambda>r. case ?rels r of None \<Rightarrow> None
             | Some rel \<Rightarrow> if gr_from rel = n \<or> gr_to rel = n then None else Some rel)"
    using spec(2) by (auto simp: fun_eq_iff restrict_map_def ends_by_def split: option.splits)
  have r: "snd (remove_node n g) = g1\<lparr>mg_outgoing := (mg_outgoing g1)(n := None),
      mg_incoming := (mg_incoming g1)(n := None)\<rparr>"
    using n by (auto simp: remove_node_def has_node_def g1_def Let_def remove_relationships_def)
  have no: "ends_by gr_from (map_of (mg_relationships g1)) r \<noteq> Some n"
    "ends_by gr_to (map_of (mg_relationships g1)) r \<noteq> Some n" for r
    unfolding rels by (auto simp: ends_by_def split: option.splits)
  show "graph_wf (snd (remove_node n g))"
  proof (rule graph_wfI)
    show "graph_core (snd (remove_node n g))"
      using spec(1) unfolding r graph_core_def
      by (simp add: index_ok_drop no)
    have "has_node (snd (remove_node n g)) k \<longleftrightarrow> has_node g k \<and> k \<noteq> n" for k
      using spec(3) by (simp add: r has_node_def map_of_delete)
    then show "endpoints_exist (snd (remove_node n g))"
      using wf spec(4,5) by (auto simp: r rels graph_wf_def endpoints_exist_def split: option.splits if_splits)
  qed
  show "map_of (mg_nodes (snd (remove_node n g))) = (map_of (mg_nodes g))(n := None)"
    using spec(3) by (simp add: r map_of_delete)
  show "map_of (mg_relationships (snd (remove_node n g))) =
      (\<lambda>r. case ?rels r of None \<Rightarrow> None
             | Some rel \<Rightarrow> if gr_from rel = n \<or> gr_to rel = n then None else Some rel)"
    using rels by (simp add: r)
qed

lemma remove_node_wf: "graph_wf g \<Longrightarrow> graph_wf (snd (remove_node n g))"
  by (cases "has_node g n") (simp_all add: remove_node_spec(1), simp add: remove_node_def has_node_def)


subsection \<open>Indexing many relationships\<close>

text \<open>\<open>merge\<close>, \<open>subgraph\<close> and \<open>from_snapshot\<close> all end in a loop that indexes fresh relationships.\<close>

definition index_all :: "'j graph_relationship list \<Rightarrow> 'j memory_graph \<Rightarrow> 'j memory_graph" where
  "index_all rels g = foldl (\<lambda>g rel. index_relationship (gr_id rel) rel g) g rels"

lemma index_all_simps [simp]:
  "index_all [] g = g"
  "index_all (rel # rels) g = index_all rels (index_relationship (gr_id rel) rel g)"
  by (simp_all add: index_all_def)

definition by_id :: "('a \<Rightarrow> string) \<Rightarrow> 'a list \<Rightarrow> string \<Rightarrow> 'a option" where
  "by_id f xs = map_of (map (\<lambda>x. (f x, x)) xs)"

lemma by_id_simps [simp]: "by_id f [] = Map.empty" "by_id f (x # xs) = (by_id f xs)(f x \<mapsto> x)"
  by (simp_all add: by_id_def)

lemma dom_by_id: "dom (by_id f xs) = f ` set xs"
  by (auto simp: by_id_def dom_map_of_conv_image_fst image_image)

lemma by_id_Some: "by_id f xs k = Some x \<Longrightarrow> x \<in> set xs \<and> f x = k"
  by (auto simp: by_id_def dest: map_of_SomeD)

lemma by_id_eq:
  "distinct (map f xs) \<Longrightarrow> by_id f xs k = Some x \<longleftrightarrow> x \<in> set xs \<and> f x = k"
  by (auto simp: by_id_def map_of_eq_Some_iff comp_def)

lemma fresh_after:
  "gr_id rel \<notin> gr_id ` set rels \<Longrightarrow> r \<in> set rels \<Longrightarrow> m (gr_id r) = None \<Longrightarrow>
     (m(gr_id rel \<mapsto> x)) (gr_id r) = None"
  by (metis fun_upd_other imageI)

lemma index_all_spec:
  assumes "graph_core g" and "distinct (map gr_id rels)"
    and "\<And>rel. rel \<in> set rels \<Longrightarrow> map_of (mg_relationships g) (gr_id rel) = None"
  shows "graph_core (index_all rels g) \<and>
    map_of (mg_relationships (index_all rels g)) = map_of (mg_relationships g) ++ by_id gr_id rels \<and>
    mg_nodes (index_all rels g) = mg_nodes g \<and>
    dom (mg_outgoing (index_all rels g)) = dom (mg_outgoing g) \<union> gr_from ` set rels \<and>
    dom (mg_incoming (index_all rels g)) = dom (mg_incoming g) \<union> gr_to ` set rels \<and>
    length (mg_relationships (index_all rels g)) = length (mg_relationships g) + length rels"
  using assms
proof (induction rels arbitrary: g)
  case (Cons rel rels)
  have new: "map_of (mg_relationships g) (gr_id rel) = None" using Cons.prems(3) by simp
  note spec = index_relationship_spec [OF Cons.prems(1) new refl]
  have fresh: "map_of (mg_relationships (index_relationship (gr_id rel) rel g)) (gr_id r) = None" if "r \<in> set rels" for r
    unfolding spec(2) using that Cons.prems(2,3) by (intro fresh_after) simp_all
  have "gr_id rel \<notin> dom (by_id gr_id rels)" using Cons.prems(2) by (simp add: dom_by_id)
  then have m: "(map_of (mg_relationships g))(gr_id rel \<mapsto> rel) ++ by_id gr_id rels =
      map_of (mg_relationships g) ++ by_id gr_id (rel # rels)"
    by (simp add: map_add_upd_left)
  have "distinct (map gr_id rels)" using Cons.prems(2) by simp
  note IH = Cons.IH [OF spec(1) this fresh, unfolded spec(2-6) m]
  show ?case unfolding index_all_simps using IH
    by (simp only: list.set image_insert Un_insert_left Un_insert_right list.size add_Suc add_Suc_right HOL.simp_thms)
qed simp

lemma index_all_wf:
  assumes wf: "graph_wf g" and d: "distinct (map gr_id rels)"
    and new: "\<And>rel. rel \<in> set rels \<Longrightarrow> map_of (mg_relationships g) (gr_id rel) = None"
    and e: "\<And>rel. rel \<in> set rels \<Longrightarrow> has_node g (gr_from rel) \<and> has_node g (gr_to rel)"
  shows "graph_wf (index_all rels g)"
  using assms
proof (induction rels arbitrary: g)
  case (Cons rel rels)
  have n: "map_of (mg_relationships g) (gr_id rel) = None" using Cons.prems(3) by simp
  note spec = index_relationship_spec [OF graph_wf_core [OF Cons.prems(1)] n refl]
  show ?case unfolding index_all_simps
  proof (rule Cons.IH)
    show "graph_wf (index_relationship (gr_id rel) rel g)"
      using Cons.prems(1,4) n by (intro index_relationship_wf) simp_all
    show "distinct (map gr_id rels)" using Cons.prems(2) by simp
  next
    fix r assume r: "r \<in> set rels"
    then show "map_of (mg_relationships (index_relationship (gr_id rel) rel g)) (gr_id r) = None"
      unfolding spec(2) using Cons.prems(2,3) by (intro fresh_after) simp_all
    show "has_node (index_relationship (gr_id rel) rel g) (gr_from r) \<and>
        has_node (index_relationship (gr_id rel) rel g) (gr_to r)"
      using r Cons.prems(4) spec(3) by (simp add: has_node_def)
  qed
qed simp

subsection \<open>Snapshots\<close>

lemma duplicate_in_None: "duplicate_in seen xs = None \<longleftrightarrow> distinct xs \<and> set xs \<inter> set seen = {}"
  by (induction xs arbitrary: seen) auto

lemma check_relationships_None:
  "check_relationships sh ids seen rels = None \<longleftrightarrow>
     distinct (map gr_id rels) \<and> gr_id ` set rels \<inter> set seen = {} \<and>
     (\<forall>rel \<in> set rels. f64_is_finite (gr_weight rel) \<and> gr_from rel \<in> set ids \<and> gr_to rel \<in> set ids)"
  by (induction rels arbitrary: seen) auto

definition upsert_all :: "'j graph_node list \<Rightarrow> 'j memory_graph \<Rightarrow> 'j memory_graph" where
  "upsert_all ns g = foldl (\<lambda>g n. snd (upsert_node n g)) g ns"

lemma upsert_all_simps [simp]:
  "upsert_all [] g = g" "upsert_all (n # ns) g = upsert_all ns (snd (upsert_node n g))"
  by (simp_all add: upsert_all_def)

lemma upsert_all_wf: "graph_wf g \<Longrightarrow> graph_wf (upsert_all ns g)"
  by (induction ns arbitrary: g) (simp_all add: upsert_node_wf)

lemma upsert_all_rels: "mg_relationships (upsert_all ns g) = mg_relationships g"
  by (induction ns arbitrary: g) (simp_all add: upsert_node_def)

lemma upsert_all_nodes:
  "distinct (map gn_id ns) \<Longrightarrow> map_of (mg_nodes (upsert_all ns g)) = map_of (mg_nodes g) ++ by_id gn_id ns"
proof (induction ns arbitrary: g)
  case (Cons n ns)
  have "gn_id n \<notin> dom (by_id gn_id ns)" using Cons.prems by (simp add: dom_by_id)
  then have "(map_of (mg_nodes g))(gn_id n \<mapsto> n) ++ by_id gn_id ns = map_of (mg_nodes g) ++ by_id gn_id (n # ns)"
    by (simp add: map_add_upd_left)
  moreover have "map_of (mg_nodes (snd (upsert_node n g))) = (map_of (mg_nodes g))(gn_id n \<mapsto> n)"
    by (simp add: upsert_node_def update_conv')
  moreover have "distinct (map gn_id ns)" using Cons.prems by simp
  ultimately show ?case using Cons.IH [of "snd (upsert_node n g)"] by (simp only: upsert_all_simps)
qed simp

lemma add_relationship_new:
  assumes "has_node g (gr_from rel)" "has_node g (gr_to rel)" "map_of (mg_relationships g) (gr_id rel) = None"
  shows "add_relationship rel g = (None, index_relationship (gr_id rel) rel g)"
  using assms by (simp add: add_relationship_def remove_relationship_def)

lemma add_all_eq:
  assumes "graph_core g" "distinct (map gr_id rels)"
    and "\<And>rel. rel \<in> set rels \<Longrightarrow> map_of (mg_relationships g) (gr_id rel) = None"
    and "\<And>rel. rel \<in> set rels \<Longrightarrow> has_node g (gr_from rel) \<and> has_node g (gr_to rel)"
  shows "add_all rels g = Inr (index_all rels g)"
  using assms
proof (induction rels arbitrary: g)
  case (Cons rel rels)
  have n: "map_of (mg_relationships g) (gr_id rel) = None" using Cons.prems(3) by simp
  note spec = index_relationship_spec [OF Cons.prems(1) n refl]
  have "add_all rels (index_relationship (gr_id rel) rel g) = Inr (index_all (rel # rels) g)"
    unfolding index_all_simps
  proof (rule Cons.IH [OF spec(1)])
    show "distinct (map gr_id rels)" using Cons.prems(2) by simp
  next
    fix r assume r: "r \<in> set rels"
    then show "map_of (mg_relationships (index_relationship (gr_id rel) rel g)) (gr_id r) = None"
      unfolding spec(2) using Cons.prems(2,3) by (intro fresh_after) simp_all
    show "has_node (index_relationship (gr_id rel) rel g) (gr_from r) \<and>
        has_node (index_relationship (gr_id rel) rel g) (gr_to r)"
      using r Cons.prems(4) spec(3) by (simp add: has_node_def)
  qed
  then show ?case using Cons.prems(4) n by (simp add: add_relationship_new)
qed simp

lemma from_snapshot_Inr:
  assumes "distinct (map gn_id ns)" "distinct (map gr_id rels)"
    and "\<And>rel. rel \<in> set rels \<Longrightarrow> f64_is_finite (gr_weight rel)"
    and "\<And>rel. rel \<in> set rels \<Longrightarrow> gr_from rel \<in> gn_id ` set ns \<and> gr_to rel \<in> gn_id ` set ns"
  shows "from_snapshot sh \<lparr>gs_nodes = ns, gs_relationships = rels\<rparr> = Inr (index_all rels (upsert_all ns graph_new))"
    and "graph_wf (index_all rels (upsert_all ns graph_new))"
    and "map_of (mg_nodes (index_all rels (upsert_all ns graph_new))) = by_id gn_id ns"
    and "map_of (mg_relationships (index_all rels (upsert_all ns graph_new))) = by_id gr_id rels"
proof -
  let ?g = "upsert_all ns graph_new"
  have wf: "graph_wf ?g" by (rule upsert_all_wf [OF graph_new_wf])
  have empty: "map_of (mg_relationships ?g) r = None" for r
    by (simp add: upsert_all_rels graph_new_def)
  have nodes: "map_of (mg_nodes ?g) = by_id gn_id ns"
    using upsert_all_nodes [OF assms(1), of graph_new] by (simp add: graph_new_def)
  then have has: "has_node ?g n \<longleftrightarrow> n \<in> gn_id ` set ns" for n
    using dom_by_id [of gn_id ns] by (auto simp: has_node_def dom_def)
  have e: "has_node ?g (gr_from rel) \<and> has_node ?g (gr_to rel)" if "rel \<in> set rels" for rel
    using assms(4) [OF that] by (simp add: has)
  note spec = index_all_spec [OF graph_wf_core [OF wf] assms(2) empty]
  have "check_relationships sh (map gn_id ns) [] rels = None"
    unfolding check_relationships_None using assms by auto
  moreover have "duplicate_in [] (map gn_id ns) = None" using assms(1) by (simp add: duplicate_in_None)
  moreover have "add_all rels ?g = Inr (index_all rels ?g)"
    by (rule add_all_eq [OF graph_wf_core [OF wf] assms(2) empty e])
  ultimately show "from_snapshot sh \<lparr>gs_nodes = ns, gs_relationships = rels\<rparr> = Inr (index_all rels ?g)"
    by (simp add: from_snapshot_def upsert_all_def)
  show "graph_wf (index_all rels ?g)" by (rule index_all_wf [OF wf assms(2) empty e])
  show "map_of (mg_nodes (index_all rels ?g)) = by_id gn_id ns" using spec nodes by simp
  show "map_of (mg_relationships (index_all rels ?g)) = by_id gr_id rels"
    using spec empty by (simp add: upsert_all_rels graph_new_def)
qed

lemma by_id_snapshot:
  assumes d: "distinct (map fst al)" and id: "\<And>k x. map_of al k = Some x \<Longrightarrow> f x = k"
  shows "distinct (map f (sort_key f (map snd al)))" and "by_id f (sort_key f (map snd al)) = map_of al"
proof -
  have k: "map f (map snd al) = map fst al"
    using id d by (auto simp: map_of_eq_Some_iff)
  have "mset (map f (sort_key f (map snd al))) = mset (map f (map snd al))" by (simp only: mset_map mset_sort)
  then show dd: "distinct (map f (sort_key f (map snd al)))"
    using d k by (metis mset_eq_imp_distinct_iff)
  show "by_id f (sort_key f (map snd al)) = map_of al"
  proof (rule ext)
    fix key
    show "by_id f (sort_key f (map snd al)) key = map_of al key"
    proof (cases "map_of al key")
      case None
      then have "key \<notin> f ` set (sort_key f (map snd al))"
        using k by (metis (no_types) list.set_map map_of_eq_None_iff set_sort)
      then show ?thesis using None unfolding dom_by_id [symmetric] by (simp add: domIff)
    next
      case (Some x)
      then have "x \<in> set (sort_key f (map snd al))" "f x = key"
        using id by (force dest: map_of_SomeD)+
      with dd Some show ?thesis by (simp add: by_id_eq)
    qed
  qed
qed

text \<open>
C27: A snapshot of a well-formed graph can be restored exactly if no weight is NaN or infinite, and
  then the restored graph holds the same nodes and relationships and is well formed.
\<close>

theorem snapshot_restores_the_graph:
  assumes wf: "graph_wf g"
  shows "(\<exists>g'. from_snapshot sh (graph_snapshot_of g) = Inr g' \<and> graph_wf g' \<and>
      map_of (mg_nodes g') = map_of (mg_nodes g) \<and>
      map_of (mg_relationships g') = map_of (mg_relationships g)) \<longleftrightarrow>
    (\<forall>rel \<in> snd ` set (mg_relationships g). f64_is_finite (gr_weight rel))"
proof -
  note core = graph_wf_core [OF wf]
  define ns rels where "ns = sort_key gn_id (map snd (mg_nodes g))" and "rels = sort_key gr_id (map snd (mg_relationships g))"
  have n: "distinct (map gn_id ns)" "by_id gn_id ns = map_of (mg_nodes g)"
    and r: "distinct (map gr_id rels)" "by_id gr_id rels = map_of (mg_relationships g)"
    unfolding ns_def rels_def
    by (intro by_id_snapshot graph_core_distinct [OF core]; erule graph_core_ids [OF core])+
  have s: "graph_snapshot_of g = \<lparr>gs_nodes = ns, gs_relationships = rels\<rparr>"
    by (simp add: graph_snapshot_of_def ns_def rels_def)
  have set_rels: "set rels = snd ` set (mg_relationships g)" by (simp add: rels_def)
  have e: "gr_from rel \<in> gn_id ` set ns \<and> gr_to rel \<in> gn_id ` set ns" if "rel \<in> set rels" for rel
  proof -
    have "by_id gr_id rels (gr_id rel) = Some rel" using that r(1) by (simp add: by_id_eq)
    then have "map_of (mg_relationships g) (gr_id rel) = Some rel" by (simp only: r(2))
    moreover have "k \<in> gn_id ` set ns \<longleftrightarrow> has_node g k" for k
      using dom_by_id [of gn_id ns, unfolded n(2)] by (auto simp: has_node_def dom_def)
    ultimately show ?thesis using graph_wf_ends [OF wf] by blast
  qed
  show ?thesis
  proof (intro iffI)
    assume "\<forall>rel \<in> snd ` set (mg_relationships g). f64_is_finite (gr_weight rel)"
    then have fin: "f64_is_finite (gr_weight rel)" if "rel \<in> set rels" for rel using that set_rels by blast
    show "\<exists>g'. from_snapshot sh (graph_snapshot_of g) = Inr g' \<and> graph_wf g' \<and>
      map_of (mg_nodes g') = map_of (mg_nodes g) \<and>
      map_of (mg_relationships g') = map_of (mg_relationships g)"
      using from_snapshot_Inr [OF n(1) r(1) fin e] s n(2) r(2) by auto
  next
    assume "\<exists>g'. from_snapshot sh (graph_snapshot_of g) = Inr g' \<and> graph_wf g' \<and>
      map_of (mg_nodes g') = map_of (mg_nodes g) \<and>
      map_of (mg_relationships g') = map_of (mg_relationships g)"
    then have "check_relationships sh (map gn_id ns) [] rels = None"
      by (auto simp: from_snapshot_def s split: option.splits)
    then show "\<forall>rel \<in> snd ` set (mg_relationships g). f64_is_finite (gr_weight rel)"
      by (simp add: check_relationships_None set_rels)
  qed
qed


subsection \<open>Merging\<close>

lemma free_id_unused: "free_id orig used n \<notin> set used"
  by (induction orig used n rule: free_id.induct) (subst free_id.simps, simp add: Let_def)

lemma rename_all_spec:
  "map fst (rename_all taken assigned origs) = origs \<and>
   distinct (map snd (rename_all taken assigned origs)) \<and>
   snd ` set (rename_all taken assigned origs) \<inter> (set taken \<union> set assigned) = {}"
proof (induction origs arbitrary: assigned)
  case (Cons orig origs)
  define c where "c = free_id orig (taken @ assigned) 1"
  have "c \<notin> set taken \<union> set assigned" using free_id_unused [of orig "taken @ assigned" 1] by (simp add: c_def)
  moreover have "rename_all taken assigned (orig # origs) = (orig, c) # rename_all taken (c # assigned) origs"
    by (simp add: c_def Let_def)
  ultimately show ?case using Cons.IH [of "c # assigned"] by auto
qed simp

text \<open>The new id of an incoming relationship.\<close>

definition renamed :: "(string \<times> string) list \<Rightarrow> string \<Rightarrow> string" where
  "renamed rename rid = (case map_of rename rid of Some new_id \<Rightarrow> new_id | None \<Rightarrow> rid)"

definition with_id :: "(string \<times> string) list \<Rightarrow> string \<times> 'j graph_relationship \<Rightarrow> 'j graph_relationship" where
  "with_id rename x = (snd x)\<lparr>gr_id := renamed rename (fst x)\<rparr>"

lemma gr_id_with_id [simp]: "gr_id (with_id rename x) = renamed rename (fst x)"
  "gr_from (with_id rename x) = gr_from (snd x)" "gr_to (with_id rename x) = gr_to (snd x)"
  by (simp_all add: with_id_def)

lemma same_id: "gr_id rel = rid \<Longrightarrow> rel\<lparr>gr_id := rid\<rparr> = rel"
  by (cases rel) simp

lemma merge_relationship_eq:
  assumes "gr_id rel = rid"
  shows "merge_relationship rename (g, rep) (rid, rel) =
    (index_relationship (renamed rename rid) (with_id rename (rid, rel)) g,
     if map_of rename rid = None
     then rep\<lparr>mr_relationships_added := mr_relationships_added rep + 1\<rparr>
     else rep\<lparr>mr_relationships_renamed := mr_relationships_renamed rep + 1\<rparr>)"
  using assms by (simp add: renamed_def with_id_def same_id split: option.split)

lemma merge_relationships_spec:
  assumes "\<And>rid rel. (rid, rel) \<in> set rs \<Longrightarrow> gr_id rel = rid"
  shows "fst (foldl (merge_relationship rename) (g, rep) rs) = index_all (map (with_id rename) rs) g \<and>
    mr_relationships_added (snd (foldl (merge_relationship rename) (g, rep) rs)) +
      mr_relationships_renamed (snd (foldl (merge_relationship rename) (g, rep) rs)) =
      mr_relationships_added rep + mr_relationships_renamed rep + length rs \<and>
    mr_nodes_added (snd (foldl (merge_relationship rename) (g, rep) rs)) = mr_nodes_added rep \<and>
    mr_nodes_overwritten (snd (foldl (merge_relationship rename) (g, rep) rs)) = mr_nodes_overwritten rep \<and>
    mr_nodes_kept (snd (foldl (merge_relationship rename) (g, rep) rs)) = mr_nodes_kept rep"
  using assms
proof (induction rs arbitrary: g rep)
  case (Cons x rs)
  obtain rid rel where x: "x = (rid, rel)" by (cases x)
  then have "gr_id rel = rid" using Cons.prems by simp
  note step = merge_relationship_eq [OF this, of rename g rep]
  note IH = Cons.IH [OF Cons.prems [OF list.set_intros(2)]]
  show ?case by (simp add: x step IH del: merge_relationship.simps)
qed simp

lemma merge_nodes_spec:
  assumes "graph_wf g" "\<And>n node. (n, node) \<in> set ns \<Longrightarrow> gn_id node = n" "distinct (map fst ns)"
  shows "graph_wf (fst (foldl (merge_node policy) (g, rep) ns)) \<and>
    mg_relationships (fst (foldl (merge_node policy) (g, rep) ns)) = mg_relationships g \<and>
    map_of (mg_nodes (fst (foldl (merge_node policy) (g, rep) ns))) =
      (case policy of MergeKeep \<Rightarrow> map_of ns ++ map_of (mg_nodes g)
                    | MergeOverwrite \<Rightarrow> map_of (mg_nodes g) ++ map_of ns) \<and>
    mr_nodes_added (snd (foldl (merge_node policy) (g, rep) ns)) +
      mr_nodes_overwritten (snd (foldl (merge_node policy) (g, rep) ns)) +
      mr_nodes_kept (snd (foldl (merge_node policy) (g, rep) ns)) =
      mr_nodes_added rep + mr_nodes_overwritten rep + mr_nodes_kept rep + length ns \<and>
    mr_relationships_added (snd (foldl (merge_node policy) (g, rep) ns)) = mr_relationships_added rep \<and>
    mr_relationships_renamed (snd (foldl (merge_node policy) (g, rep) ns)) = mr_relationships_renamed rep"
  using assms
proof (induction ns arbitrary: g rep)
  case Nil
  then show ?case by (cases policy) simp_all
next
  case (Cons x ns)
  obtain n node where x: "x = (n, node)" by (cases x)
  have id: "gn_id node = n" using Cons.prems(2) x by simp
  obtain g1 rep1 where s: "merge_node policy (g, rep) (n, node) = (g1, rep1)"
    by (cases "merge_node policy (g, rep) (n, node)")
  have wf: "graph_wf g1" and rels: "mg_relationships g1 = mg_relationships g"
    using s Cons.prems(1) put_node_wf [OF Cons.prems(1) id] by (auto split: option.splits merge_policy.splits)
  have cnt: "mr_nodes_added rep1 + mr_nodes_overwritten rep1 + mr_nodes_kept rep1 =
      Suc (mr_nodes_added rep + mr_nodes_overwritten rep + mr_nodes_kept rep)"
    "mr_relationships_added rep1 = mr_relationships_added rep"
    "mr_relationships_renamed rep1 = mr_relationships_renamed rep"
    using s by (auto split: option.splits merge_policy.splits)
  have nodes: "map_of (mg_nodes g1) = (if policy = MergeKeep \<and> map_of (mg_nodes g) n \<noteq> None then map_of (mg_nodes g)
      else (map_of (mg_nodes g))(n \<mapsto> node))"
    using s by (auto simp: update_conv' split: option.splits merge_policy.splits)
  have fresh: "map_of ns n = None" using Cons.prems(3) x by (simp add: map_of_eq_None_iff)
  have "(case policy of MergeKeep \<Rightarrow> map_of ns ++ map_of (mg_nodes g1)
        | MergeOverwrite \<Rightarrow> map_of (mg_nodes g1) ++ map_of ns) =
      (case policy of MergeKeep \<Rightarrow> map_of (x # ns) ++ map_of (mg_nodes g)
        | MergeOverwrite \<Rightarrow> map_of (mg_nodes g) ++ map_of (x # ns))"
    unfolding nodes x using fresh
    by (cases policy) (auto simp: fun_eq_iff map_add_def split: option.split)
  moreover have "distinct (map fst ns)" using Cons.prems(3) by simp
  ultimately show ?case
    using Cons.IH [OF wf Cons.prems(2) [OF list.set_intros(2)], of rep1] rels cnt
    unfolding x foldl_Cons s by (simp only: list.size HOL.simp_thms)
qed

lemma merge_renames:
  fixes g g1 other :: "'j memory_graph"
  assumes d: "distinct (map fst rs)"
    and rename: "rename = rename_all (map fst (mg_relationships g1) @ map fst rs) []
      (sort (filter (\<lambda>k. map_of (mg_relationships g1) k \<noteq> None) (map fst rs)))"
  shows "inj_on (renamed rename) (fst ` set rs)"
    and "\<And>r. r \<in> fst ` set rs \<Longrightarrow> map_of (mg_relationships g1) (renamed rename r) = None"
    and "\<And>r. map_of (mg_relationships g1) r = None \<Longrightarrow> renamed rename r = r"
proof -
  let ?taken = "map fst (mg_relationships g1) @ map fst rs"
  let ?cols = "sort (filter (\<lambda>k. map_of (mg_relationships g1) k \<noteq> None) (map fst rs))"
  note s = rename_all_spec [of ?taken "[]" ?cols, folded rename]
  have cols: "r \<in> fst ` set rename \<longleftrightarrow> r \<in> fst ` set rs \<and> map_of (mg_relationships g1) r \<noteq> None" for r
    using s by (metis (mono_tags, lifting) list.set_map mem_Collect_eq set_filter set_sort)
  have dk: "distinct (map fst rename)" using s d by simp
  have new: "map_of rename r = Some x \<Longrightarrow> x \<notin> fst ` set (mg_relationships g1) \<and> x \<notin> fst ` set rs" for r x
    using s by (force dest: map_of_SomeD)
  show id: "renamed rename r = r" if "map_of (mg_relationships g1) r = None" for r
    using that cols [of r] by (simp add: renamed_def map_of_eq_None_iff split: option.split)
      (metis map_of_eq_None_iff option.distinct(1))
  have col: "\<exists>x. map_of rename r = Some x \<and> renamed rename r = x"
    if "r \<in> fst ` set rs" "map_of (mg_relationships g1) r \<noteq> None" for r
    using that cols [of r] by (cases "map_of rename r") (auto simp: renamed_def map_of_eq_None_iff)
  show "map_of (mg_relationships g1) (renamed rename r) = None" if "r \<in> fst ` set rs" for r
  proof (cases "map_of (mg_relationships g1) r = None")
    case False
    with col [OF that] new show ?thesis by (metis map_of_eq_None_iff)
  qed (simp add: id)
  show "inj_on (renamed rename) (fst ` set rs)"
  proof (rule inj_onI)
    fix a b assume ab: "a \<in> fst ` set rs" "b \<in> fst ` set rs" "renamed rename a = renamed rename b"
    consider "map_of (mg_relationships g1) a = None" "map_of (mg_relationships g1) b = None"
      | "map_of (mg_relationships g1) a = None" "map_of (mg_relationships g1) b \<noteq> None"
      | "map_of (mg_relationships g1) a \<noteq> None" "map_of (mg_relationships g1) b = None"
      | "map_of (mg_relationships g1) a \<noteq> None" "map_of (mg_relationships g1) b \<noteq> None" by blast
    then show "a = b"
    proof cases
      case 4
      then obtain x where "map_of rename a = Some x" "map_of rename b = Some x"
        using col ab by metis
      then have "(a, x) \<in> set rename" "(b, x) \<in> set rename" by (auto dest: map_of_SomeD)
      moreover have "inj_on snd (set rename)" using s by (simp add: distinct_map)
      ultimately show ?thesis by (metis Pair_inject inj_onD snd_conv)
    qed (use ab id col new in metis)+
  qed
qed


lemma merge_graph_parts:
  fixes g other :: "'j memory_graph"
  assumes wf: "graph_wf g" and wf': "graph_wf other"
  obtains g1 rename where "graph_wf g1" "mg_relationships g1 = mg_relationships g"
    "map_of (mg_nodes g1) = (case policy of
        MergeKeep \<Rightarrow> map_of (mg_nodes other) ++ map_of (mg_nodes g)
      | MergeOverwrite \<Rightarrow> map_of (mg_nodes g) ++ map_of (mg_nodes other))"
    "snd (merge_graph other policy g) = index_all (map (with_id rename) (mg_relationships other)) g1"
    "inj_on (renamed rename) (fst ` set (mg_relationships other))"
    "\<And>r. r \<in> fst ` set (mg_relationships other) \<Longrightarrow> map_of (mg_relationships g) (renamed rename r) = None"
    "\<And>r. map_of (mg_relationships g) r = None \<Longrightarrow> renamed rename r = r"
    "mr_nodes_added (fst (merge_graph other policy g)) + mr_nodes_overwritten (fst (merge_graph other policy g)) +
       mr_nodes_kept (fst (merge_graph other policy g)) = graph_len other"
    "mr_relationships_added (fst (merge_graph other policy g)) +
       mr_relationships_renamed (fst (merge_graph other policy g)) = relationship_count other"
proof -
  let ?rep = "\<lparr>mr_nodes_added = 0, mr_nodes_overwritten = 0, mr_nodes_kept = 0,
                 mr_relationships_added = 0, mr_relationships_renamed = 0\<rparr>"
  note core = graph_wf_core [OF wf']
  have nid: "gn_id node = n" if "(n, node) \<in> set (mg_nodes other)" for n node
    using that graph_core_ids(2) [OF core] graph_core_distinct(2) [OF core] by simp
  have rid: "gr_id rel = r" if "(r, rel) \<in> set (mg_relationships other)" for r rel
    using that graph_core_ids(1) [OF core] graph_core_distinct(1) [OF core] by simp
  obtain g1 rep1 where f: "foldl (merge_node policy) (g, ?rep) (mg_nodes other) = (g1, rep1)"
    by (cases "foldl (merge_node policy) (g, ?rep) (mg_nodes other)")
  note n = merge_nodes_spec [OF wf nid graph_core_distinct(2) [OF core], of policy ?rep, unfolded f fst_conv snd_conv]
  define rename where "rename = rename_all (map fst (mg_relationships g1) @ map fst (mg_relationships other)) []
      (sort (filter (\<lambda>k. map_of (mg_relationships g1) k \<noteq> None) (map fst (mg_relationships other))))"
  obtain g2 rep2 where f2: "foldl (merge_relationship rename) (g1, rep1) (mg_relationships other) = (g2, rep2)"
    by (cases "foldl (merge_relationship rename) (g1, rep1) (mg_relationships other)")
  note r = merge_relationships_spec [of "mg_relationships other" rename g1 rep1, OF rid, unfolded f2 fst_conv snd_conv]
  note rn = merge_renames [OF graph_core_distinct(1) [OF core] rename_def]
  have m: "merge_graph other policy g = (rep2, g2)"
    using f f2 by (simp add: merge_graph_def rename_def Let_def)
  show thesis
    by (rule that [of g1 rename]) (use n r rn m in \<open>simp_all add: graph_len_def relationship_count_def\<close>)
qed

lemma merge_new_ids:
  fixes other :: "'j memory_graph"
  assumes wf': "graph_wf other" and inj: "inj_on (renamed rename) (fst ` set (mg_relationships other))"
  shows "distinct (map gr_id (map (with_id rename) (mg_relationships other)))"
    and "map_of (mg_relationships other) r = Some rel \<Longrightarrow>
      by_id gr_id (map (with_id rename) (mg_relationships other)) (renamed rename r) =
      Some (rel\<lparr>gr_id := renamed rename r\<rparr>)"
proof -
  let ?rels = "mg_relationships other"
  have "map gr_id (map (with_id rename) ?rels) = map (renamed rename) (map fst ?rels)" by simp
  moreover have "distinct (map (renamed rename) (map fst ?rels))"
    using inj graph_core_distinct(1) [OF graph_wf_core [OF wf']] by (subst distinct_map) simp
  ultimately show d: "distinct (map gr_id (map (with_id rename) ?rels))" by (simp only:)
  assume "map_of ?rels r = Some rel"
  then have "with_id rename (r, rel) \<in> set (map (with_id rename) ?rels)" by (force dest: map_of_SomeD)
  with d show "by_id gr_id (map (with_id rename) ?rels) (renamed rename r) = Some (rel\<lparr>gr_id := renamed rename r\<rparr>)"
    by (simp only: by_id_eq [OF d]) (simp add: with_id_def)
qed

lemma merge_graph_core:
  fixes g other :: "'j memory_graph"
  assumes wf: "graph_wf g" and wf': "graph_wf other"
  shows "graph_wf (snd (merge_graph other policy g))"
    and "map_of (mg_nodes (snd (merge_graph other policy g))) = (case policy of
        MergeKeep \<Rightarrow> map_of (mg_nodes other) ++ map_of (mg_nodes g)
      | MergeOverwrite \<Rightarrow> map_of (mg_nodes g) ++ map_of (mg_nodes other))"
    and "\<exists>rn. inj_on rn (dom (map_of (mg_relationships other))) \<and>
      (\<forall>r. map_of (mg_relationships g) r = None \<longrightarrow> rn r = r) \<and>
      (\<forall>r rel. map_of (mg_relationships g) r = Some rel \<longrightarrow>
         map_of (mg_relationships (snd (merge_graph other policy g))) r = Some rel) \<and>
      (\<forall>r rel. map_of (mg_relationships other) r = Some rel \<longrightarrow>
         map_of (mg_relationships (snd (merge_graph other policy g))) (rn r) = Some (rel\<lparr>gr_id := rn r\<rparr>)) \<and>
      relationship_count (snd (merge_graph other policy g)) = relationship_count g + relationship_count other"
proof -
  let ?m = "merge_graph other policy g" and ?rels = "mg_relationships other"
  obtain g1 rename where g1: "graph_wf g1" "mg_relationships g1 = mg_relationships g"
    "map_of (mg_nodes g1) = (case policy of
        MergeKeep \<Rightarrow> map_of (mg_nodes other) ++ map_of (mg_nodes g)
      | MergeOverwrite \<Rightarrow> map_of (mg_nodes g) ++ map_of (mg_nodes other))"
    and m: "snd ?m = index_all (map (with_id rename) ?rels) g1"
    and inj: "inj_on (renamed rename) (fst ` set ?rels)"
    and new: "\<And>r. r \<in> fst ` set ?rels \<Longrightarrow> map_of (mg_relationships g) (renamed rename r) = None"
    and same: "\<And>r. map_of (mg_relationships g) r = None \<Longrightarrow> renamed rename r = r"
    using merge_graph_parts [OF wf wf', of policy] by metis
  note ids = merge_new_ids [OF wf' inj]
  have fresh: "map_of (mg_relationships g1) (gr_id rel) = None" if "rel \<in> set (map (with_id rename) ?rels)" for rel
    using that new g1(2) by force
  have e: "has_node g1 (gr_from rel) \<and> has_node g1 (gr_to rel)" if "rel \<in> set (map (with_id rename) ?rels)" for rel
  proof -
    obtain r x where x: "(r, x) \<in> set ?rels" "gr_from rel = gr_from x" "gr_to rel = gr_to x"
      using \<open>rel \<in> set (map (with_id rename) ?rels)\<close> by auto
    then have "map_of ?rels r = Some x"
      using graph_core_distinct(1) [OF graph_wf_core [OF wf']] by simp
    moreover have "has_node g1 k" if "has_node other k" for k
      using that g1(3) by (cases policy) (auto simp: has_node_def map_add_def split: option.split)
    ultimately show ?thesis using graph_wf_ends [OF wf'] x(2,3) by simp
  qed
  note spec = index_all_spec [OF graph_wf_core [OF g1(1)] ids(1) fresh, folded m]
  show "graph_wf (snd ?m)" unfolding m by (rule index_all_wf [OF g1(1) ids(1) fresh e])
  show "map_of (mg_nodes (snd ?m)) = (case policy of
        MergeKeep \<Rightarrow> map_of (mg_nodes other) ++ map_of (mg_nodes g)
      | MergeOverwrite \<Rightarrow> map_of (mg_nodes g) ++ map_of (mg_nodes other))"
    using spec g1(3) by simp
  have rels: "map_of (mg_relationships (snd ?m)) =
      map_of (mg_relationships g) ++ by_id gr_id (map (with_id rename) ?rels)"
    using spec g1(2) by simp
  have dom: "dom (by_id gr_id (map (with_id rename) ?rels)) = renamed rename ` fst ` set ?rels"
    by (simp add: dom_by_id image_image)
  have kept: "map_of (mg_relationships (snd ?m)) r = Some rel" if "map_of (mg_relationships g) r = Some rel" for r rel
  proof -
    have "r \<notin> dom (by_id gr_id (map (with_id rename) ?rels))" 
      using that new unfolding dom by (metis imageE option.distinct(1))
    with that show ?thesis unfolding rels by (simp add: map_add_dom_app_simps(3))
  qed
  show "\<exists>rn. inj_on rn (dom (map_of ?rels)) \<and>
      (\<forall>r. map_of (mg_relationships g) r = None \<longrightarrow> rn r = r) \<and>
      (\<forall>r rel. map_of (mg_relationships g) r = Some rel \<longrightarrow> map_of (mg_relationships (snd ?m)) r = Some rel) \<and>
      (\<forall>r rel. map_of ?rels r = Some rel \<longrightarrow>
         map_of (mg_relationships (snd ?m)) (rn r) = Some (rel\<lparr>gr_id := rn r\<rparr>)) \<and>
      relationship_count (snd ?m) = relationship_count g + relationship_count other"
  proof (intro exI [of _ "renamed rename"] conjI allI impI)
    show "inj_on (renamed rename) (dom (map_of ?rels))" using inj by (simp add: dom_map_of_conv_image_fst)
    show "relationship_count (snd ?m) = relationship_count g + relationship_count other"
      using spec g1(2) by (simp add: relationship_count_def)
    fix r rel assume "map_of ?rels r = Some rel"
    from ids(2) [OF this] show "map_of (mg_relationships (snd ?m)) (renamed rename r) = Some (rel\<lparr>gr_id := renamed rename r\<rparr>)"
      unfolding rels by (rule map_add_find_right)
  qed (simp_all add: same kept)
qed


text \<open>
C24: A merge of two well-formed graphs loses nothing: every node of either is there (the policy decides
  whose version of a shared node), every relationship of the receiver is unchanged, every incoming one
  is there under its own id, or under a fresh one if it collided, and the report counts them all.
\<close>

theorem merge_loses_nothing:
  assumes wf: "graph_wf g" and wf': "graph_wf other"
  shows "let (rep, m) = merge_graph other policy g in
    map_of (mg_nodes m) = (case policy of
        MergeKeep \<Rightarrow> map_of (mg_nodes other) ++ map_of (mg_nodes g)
      | MergeOverwrite \<Rightarrow> map_of (mg_nodes g) ++ map_of (mg_nodes other)) \<and>
    (\<exists>rn. inj_on rn (dom (map_of (mg_relationships other))) \<and>
      (\<forall>r. map_of (mg_relationships g) r = None \<longrightarrow> rn r = r) \<and>
      (\<forall>r rel. map_of (mg_relationships g) r = Some rel \<longrightarrow> map_of (mg_relationships m) r = Some rel) \<and>
      (\<forall>r rel. map_of (mg_relationships other) r = Some rel \<longrightarrow>
         map_of (mg_relationships m) (rn r) = Some (rel\<lparr>gr_id := rn r\<rparr>)) \<and>
      relationship_count m = relationship_count g + relationship_count other) \<and>
    mr_nodes_added rep + mr_nodes_overwritten rep + mr_nodes_kept rep = graph_len other \<and>
    mr_relationships_added rep + mr_relationships_renamed rep = relationship_count other"
proof -
  obtain rep m where m: "merge_graph other policy g = (rep, m)" by (cases "merge_graph other policy g")
  have "mr_nodes_added rep + mr_nodes_overwritten rep + mr_nodes_kept rep = graph_len other \<and>
      mr_relationships_added rep + mr_relationships_renamed rep = relationship_count other"
    using merge_graph_parts [OF wf wf', of policy] unfolding m fst_conv by metis
  then show ?thesis
    using merge_graph_core(2,3) [OF wf wf', of policy] unfolding m Let_def snd_conv prod.case by blast
qed


section \<open>Breadth-first search\<close>

text \<open>The edges a direction follows, from the relationships alone.\<close>

definition linked :: "'j memory_graph \<Rightarrow> (string \<times> string) set" where
  "linked g = {(gr_from rel, gr_to rel) |rel. rel \<in> snd ` set (mg_relationships g)}"

fun links :: "'j memory_graph \<Rightarrow> graph_direction \<Rightarrow> (string \<times> string) set" where
  "links g Outgoing = linked g"
| "links g Incoming = (linked g)\<inverse>"
| "links g AnyDirection = linked g \<union> (linked g)\<inverse>"

lemma in_ends:
  "v \<in> set (ends g side rids) \<longleftrightarrow> (\<exists>rid rel. rid \<in> set (or_default rids) \<and> map_of (mg_relationships g) rid = Some rel \<and> v = side rel)"
  by (force simp: ends_def List.map_filter_def)

lemma set_ends_core:
  assumes core: "graph_core g"
  shows "set (ends g gr_to (mg_outgoing g n)) = links g Outgoing `` {n}"
    and "set (ends g gr_from (mg_incoming g n)) = links g Incoming `` {n}"
proof -
  let ?m = "map_of (mg_relationships g)"
  have ok: "index_ok (ends_by gr_from ?m) (mg_outgoing g, mg_outgoing_positions g)"
    "index_ok (ends_by gr_to ?m) (mg_incoming g, mg_incoming_positions g)"
    using core by (simp_all add: graph_core_def)
  have rels: "rel \<in> snd ` set (mg_relationships g) \<longleftrightarrow> (\<exists>rid. ?m rid = Some rel)" for rel
    using graph_core_distinct(1) [OF core] by force
  show "set (ends g gr_to (mg_outgoing g n)) = links g Outgoing `` {n}"
    unfolding links.simps linked_def rels set_eq_iff in_ends index_ok_lists [OF ok(1)] by (auto simp: ends_by_def)
  show "set (ends g gr_from (mg_incoming g n)) = links g Incoming `` {n}"
    unfolding links.simps linked_def rels set_eq_iff in_ends index_ok_lists [OF ok(2)] by (auto simp: ends_by_def)
qed

lemma set_reached_from: "graph_core g \<Longrightarrow> set (reached_from g dir n) = links g dir `` {n}"
  using set_ends_core [of g n] by (cases dir) (simp_all add: Un_Image)

lemma distinct_remdups_adj: "sorted xs \<Longrightarrow> distinct (remdups_adj xs)"
proof (induction xs rule: remdups_adj.induct)
  case (3 x y xs)
  then show ?case by (cases "x = y") (auto dest: order_antisym)
qed simp_all

text \<open>
  The neighbours of a node are the far ends of its relationships, each once, in byte order.
\<close>

lemma neighbors_are_the_linked_nodes:
  assumes "graph_wf g"
  shows "neighbors g n dir = sorted_list_of_set (links g dir `` {n})"
proof -
  have "set (neighbors g n dir) = links g dir `` {n}"
    using set_reached_from [OF graph_wf_core [OF assms]] by (simp add: neighbors_def)
  moreover have "sorted (neighbors g n dir)" "distinct (neighbors g n dir)"
    by (simp_all add: neighbors_def distinct_remdups_adj)
  ultimately show ?thesis by (metis sorted_list_of_set.idem_if_sorted_distinct)
qed

lemma visits_spec:
  "distinct nx \<Longrightarrow> set nx \<subseteq> set vd \<Longrightarrow> foldl (\<lambda>vn v. visit v vn) (vd, nx) vs = (vd', nx') \<Longrightarrow>
     set vd' = set vd \<union> set vs \<and> set nx' = set nx \<union> (set vs - set vd) \<and> distinct nx' \<and> set nx' \<subseteq> set vd'"
proof (induction vs arbitrary: vd nx)
  case (Cons v vs)
  show ?case
  proof (cases "v \<in> set vd")
    case True
    with Cons show ?thesis by (simp add: visit_def) blast
  next
    case False
    then have "distinct (nx @ [v])" "set (nx @ [v]) \<subseteq> set (v # vd)" using Cons.prems(1,2) by auto
    from Cons.IH [OF this] False Cons.prems(3) show ?thesis by (auto simp: visit_def)
  qed
qed auto

lemma visit_level_from:
  assumes core: "graph_core g"
  shows "distinct nx \<Longrightarrow> set nx \<subseteq> set vd \<Longrightarrow>
    foldl (\<lambda>vn n. foldl (\<lambda>vn v. visit v vn) vn (reached_from g dir n)) (vd, nx) frontier = (vd', nx') \<Longrightarrow>
     set vd' = set vd \<union> links g dir `` set frontier \<and>
     set nx' = set nx \<union> (links g dir `` set frontier - set vd) \<and> distinct nx' \<and> set nx' \<subseteq> set vd'"
proof (induction frontier arbitrary: vd nx)
  case (Cons n frontier)
  obtain vd1 nx1 where s: "foldl (\<lambda>vn v. visit v vn) (vd, nx) (reached_from g dir n) = (vd1, nx1)"
    by (cases "foldl (\<lambda>vn v. visit v vn) (vd, nx) (reached_from g dir n)")
  note v = visits_spec [OF Cons.prems(1,2) s, unfolded set_reached_from [OF core]]
  have "foldl (\<lambda>vn n. foldl (\<lambda>vn v. visit v vn) vn (reached_from g dir n)) (vd1, nx1) frontier = (vd', nx')"
    using Cons.prems(3) s by simp
  from Cons.IH [OF _ _ this] v show ?case by auto
qed auto

lemma visit_level_spec:
  assumes "graph_core g" "visit_level g dir frontier vd = (vd', nx)"
  shows "set vd' = set vd \<union> links g dir `` set frontier"
    and "set nx = links g dir `` set frontier - set vd" and "distinct nx"
  using visit_level_from [OF assms(1), of "[]" vd dir frontier vd' nx] assms(2) by (simp_all add: visit_level_def)

text \<open>The nodes at an exact distance.\<close>

definition at_distance :: "'j memory_graph \<Rightarrow> graph_direction \<Rightarrow> string \<Rightarrow> nat \<Rightarrow> string set" where
  "at_distance g dir s i = {v. (s, v) \<in> links g dir ^^ i \<and> (\<forall>k < i. (s, v) \<notin> links g dir ^^ k)}"

lemma at_distance_step:
  "links g dir `` at_distance g dir s i - (\<Union>k \<le> i. at_distance g dir s k) = at_distance g dir s (Suc i)"
  (is "?E `` _ - ?V = _")
proof -
  have V: "v \<in> ?V \<longleftrightarrow> (\<exists>k \<le> i. (s, v) \<in> ?E ^^ k)" for v
  proof
    assume "\<exists>k \<le> i. (s, v) \<in> ?E ^^ k"
    then obtain k where k: "k \<le> i" "(s, v) \<in> ?E ^^ k" by blast
    define l where "l = (LEAST l. (s, v) \<in> ?E ^^ l)"
    have "(s, v) \<in> ?E ^^ l" "l \<le> k" "\<forall>j < l. (s, v) \<notin> ?E ^^ j"
      unfolding l_def using k(2) by (auto intro: LeastI Least_le dest: not_less_Least)
    then show "v \<in> ?V" using k(1) by (auto simp: at_distance_def intro!: exI [of _ l])
  qed (auto simp: at_distance_def)
  show ?thesis
  proof (intro set_eqI iffI)
    fix v assume "v \<in> at_distance g dir s (Suc i)"
    then have v: "(s, v) \<in> ?E ^^ Suc i" "\<forall>k < Suc i. (s, v) \<notin> ?E ^^ k" by (simp_all add: at_distance_def)
    then obtain u where u: "(s, u) \<in> ?E ^^ i" "(u, v) \<in> ?E" by auto
    have "(s, u) \<notin> ?E ^^ k" if "k < i" for k
    proof
      assume "(s, u) \<in> ?E ^^ k"
      with u(2) have "(s, v) \<in> ?E ^^ Suc k" by (rule relpow_Suc_I [rotated])
      with v(2) that show False by (metis Suc_mono)
    qed
    with u v(2) V [of v] show "v \<in> ?E `` at_distance g dir s i - ?V" by (auto simp: at_distance_def)
  next
    fix v assume "v \<in> ?E `` at_distance g dir s i - ?V"
    then have "(s, v) \<in> ?E ^^ Suc i" "\<forall>k \<le> i. (s, v) \<notin> ?E ^^ k" using V [of v] by (auto simp: at_distance_def)
    then show "v \<in> at_distance g dir s (Suc i)" by (auto simp: at_distance_def less_Suc_eq_le)
  qed
qed


lemma sort_sorted_list_of_set: "distinct xs \<Longrightarrow> sort xs = sorted_list_of_set (set xs)"
  by (metis distinct_remdups_id sorted_list_of_set_sort_remdups)

lemma traverse_levels_eq:
  assumes core: "graph_core g"
  shows "set frontier = at_distance g dir s i \<Longrightarrow> set visited = (\<Union>k \<le> i. at_distance g dir s k) \<Longrightarrow>
    traverse_levels g dir d visited frontier out =
    out @ concat (map (\<lambda>j. sorted_list_of_set (at_distance g dir s j)) [Suc i ..< Suc i + d])"
proof (induction d arbitrary: i visited frontier out)
  case (Suc d)
  obtain vd nx where s: "visit_level g dir frontier visited = (vd, nx)" by (cases "visit_level g dir frontier visited")
  note v = visit_level_spec [OF core s]
  have nx: "set nx = at_distance g dir s (Suc i)"
    using v(2) Suc.prems at_distance_step by metis
  have "set vd = (\<Union>k \<le> i. at_distance g dir s k) \<union> set nx"
    using v(1,2) Suc.prems(2) by auto
  then have vd: "set vd = (\<Union>k \<le> Suc i. at_distance g dir s k)"
    by (simp only: nx atMost_Suc UN_insert Un_commute)
  have "set (sort nx) = at_distance g dir s (Suc i)" using nx by simp
  note IH = Suc.IH [OF this vd, of "out @ sort nx"]
  have "[Suc i ..< Suc i + Suc d] = Suc i # [Suc (Suc i) ..< Suc (Suc i) + d]"
    by (simp add: upt_conv_Cons)
  then show ?case
    using IH by (simp add: s Let_def sort_sorted_list_of_set [OF v(3)] nx)
qed simp

lemma at_distance_0 [simp]: "at_distance g dir s 0 = {s}"
  by (simp add: at_distance_def)

text \<open>
C26: A traversal lists the nodes by their distance from the start, up to the given depth, and the nodes
  at one distance in byte order; each node appears once, at its shortest distance.
\<close>

theorem traverse_lists_by_distance:
  assumes "graph_wf g" and "has_node g start"
  shows "traverse g start max_depth dir =
    concat (map (\<lambda>i. sorted_list_of_set (at_distance g dir start i)) [0 ..< Suc max_depth])"
proof -
  have "traverse_levels g dir max_depth [start] [start] [start] =
      [start] @ concat (map (\<lambda>i. sorted_list_of_set (at_distance g dir start i)) [Suc 0 ..< Suc 0 + max_depth])"
    using assms(1) by (intro traverse_levels_eq) (simp_all add: graph_wf_def)
  moreover have "[0 ..< Suc max_depth] = 0 # [Suc 0 ..< Suc max_depth]" by (simp add: upt_conv_Cons)
  ultimately show ?thesis using assms(2) by (simp add: traverse_def)
qed

subsection \<open>Connectivity\<close>


lemma connect_edges_eq:
  "connect_edges t vs vn = (if t \<in> set vs then None else Some (foldl (\<lambda>vn v. visit v vn) vn vs))"
  by (induction vs arbitrary: vn) auto

lemma connect_level_eq:
  assumes core: "graph_core g"
  shows "connect_level g t ns vn = (if t \<in> links g Outgoing `` set ns then None
    else Some (foldl (\<lambda>vn n. foldl (\<lambda>vn v. visit v vn) vn (reached_from g Outgoing n)) vn ns))"
proof (induction ns arbitrary: vn)
  case (Cons n ns)
  have e: "set (ends g gr_to (mg_outgoing g n)) = linked g `` {n}"
    using set_ends_core(1) [OF core, of n] by simp
  show ?case by (auto simp: connect_edges_eq e Cons.IH)
qed simp

lemma connect_loop_iff:
  "\<lbrakk>graph_core g; t \<notin> set visited; set frontier \<subseteq> set visited;
    linked g `` (set visited - set frontier) \<subseteq> set visited\<rbrakk> \<Longrightarrow>
   connect_loop g t visited frontier \<longleftrightarrow> t \<in> (linked g)\<^sup>* `` set visited"
proof (induction g t visited frontier rule: connect_loop.induct)
  case (1 g t visited frontier)
  note core = 1(2) and nt = 1(3) and sub = 1(4) and inv = 1(5)
  show ?case
  proof (cases "frontier = []")
    case True
    then have "linked g `` set visited \<subseteq> set visited" using inv by simp
    then have "(linked g)\<^sup>* `` set visited \<subseteq> set visited" by (rule Image_closed_trancl [THEN equalityD1])
    with True nt show ?thesis by (subst connect_loop.simps) auto
  next
    case False
    show ?thesis
    proof (cases "t \<in> linked g `` set frontier")
      case True
      then obtain u where u: "u \<in> set frontier" "(u, t) \<in> linked g" by blast
      have "t \<in> (linked g)\<^sup>* `` set visited" by (rule ImageI [OF r_into_rtrancl [OF u(2)] subsetD [OF sub u(1)]])
      with True False connect_level_eq [OF core, of t frontier "(visited, [])"] show ?thesis
        by (subst connect_loop.simps) simp
    next
      case nl: False
      obtain vd nx where s: "visit_level g Outgoing frontier visited = (vd, nx)"
        by (cases "visit_level g Outgoing frontier visited")
      note v = visit_level_spec [OF core s, unfolded links.simps]
      have c: "connect_level g t frontier (visited, []) = Some (vd, nx)"
        using nl connect_level_eq [OF core, of t frontier "(visited, [])"] s by (simp add: visit_level_def)
      have "connect_loop g t vd nx \<longleftrightarrow> t \<in> (linked g)\<^sup>* `` set vd"
      proof (rule 1(1) [OF False c refl core])
        show "t \<notin> set vd" using v(1) nt nl by simp
        show "set nx \<subseteq> set vd" using v by auto
        show "linked g `` (set vd - set nx) \<subseteq> set vd" using v(1,2) inv by blast
      qed
      moreover have "(linked g)\<^sup>* `` set vd = (linked g)\<^sup>* `` set visited"
      proof -
        have "set vd \<subseteq> (linked g)\<^sup>* `` set visited" using v(1) sub by auto
        then have "(linked g)\<^sup>* `` set vd \<subseteq> (linked g)\<^sup>* `` set visited"
          by (meson Image_mono rtrancl_trans Image_iff subsetD subsetI)
        moreover have "(linked g)\<^sup>* `` set visited \<subseteq> (linked g)\<^sup>* `` set vd" using v(1) by (simp add: Image_mono)
        ultimately show ?thesis by (rule equalityI)
      qed
      ultimately show ?thesis using False c by (subst connect_loop.simps) simp
    qed
  qed
qed

text \<open>
C25: Two nodes are connected exactly if both exist and a chain of relationships, each followed from its
  source to its target, leads from the first to the second; the search always ends.
\<close>

theorem connected_iff_path:
  assumes "graph_wf g"
  shows "is_connected g a b \<longleftrightarrow> has_node g a \<and> has_node g b \<and> (a, b) \<in> (links g Outgoing)\<^sup>*"
proof (cases "a = b")
  case False
  then have "connect_loop g b [a] [a] \<longleftrightarrow> b \<in> (linked g)\<^sup>* `` set [a]"
    using assms by (intro connect_loop_iff) (simp_all add: graph_wf_def)
  with False show ?thesis by (auto simp: is_connected_def)
qed (simp add: is_connected_def)

subsection \<open>Subgraphs\<close>

lemma relpow_within_Suc:
  "(\<exists>u \<in> V \<union> E `` V. \<exists>k \<le> d. (u, v) \<in> E ^^ k) \<longleftrightarrow> (\<exists>u \<in> V. \<exists>k \<le> Suc d. (u, v) \<in> E ^^ k)"
proof
  assume "\<exists>u \<in> V. \<exists>k \<le> Suc d. (u, v) \<in> E ^^ k"
  then obtain u k where u: "u \<in> V" "k \<le> Suc d" "(u, v) \<in> E ^^ k" by blast
  show "\<exists>u \<in> V \<union> E `` V. \<exists>k \<le> d. (u, v) \<in> E ^^ k"
  proof (cases k)
    case (Suc j)
    then obtain w where "(u, w) \<in> E" "(w, v) \<in> E ^^ j" using u(3) relpow_Suc_D2 by metis
    with u(1,2) Suc show ?thesis by blast
  qed (use u in blast)
next
  assume "\<exists>u \<in> V \<union> E `` V. \<exists>k \<le> d. (u, v) \<in> E ^^ k"
  then obtain u k where u: "u \<in> V \<union> E `` V" "k \<le> d" "(u, v) \<in> E ^^ k" by blast
  then show "\<exists>u \<in> V. \<exists>k \<le> Suc d. (u, v) \<in> E ^^ k"
    by (metis ImageE Un_iff Suc_le_mono le_SucI relpow_Suc_I2)
qed

lemma sub_levels_spec:
  "\<lbrakk>graph_core g; set frontier \<subseteq> set ids; links g AnyDirection `` (set ids - set frontier) \<subseteq> set ids\<rbrakk> \<Longrightarrow>
   set (sub_levels g d ids frontier) = {v. \<exists>u \<in> set ids. \<exists>k \<le> d. (u, v) \<in> links g AnyDirection ^^ k}"
proof (induction d arbitrary: ids frontier)
  case (Suc d)
  let ?E = "links g AnyDirection"
  obtain vd nx where s: "visit_level g AnyDirection frontier ids = (vd, nx)"
    by (cases "visit_level g AnyDirection frontier ids")
  note v = visit_level_spec [OF Suc.prems(1) s]
  have vd: "set vd = set ids \<union> ?E `` set ids" using v(1) Suc.prems(2,3) by blast
  have "set nx \<subseteq> set vd" "?E `` (set vd - set nx) \<subseteq> set vd" using v(1,2) Suc.prems(3) by blast+
  from Suc.IH [OF Suc.prems(1) this] show ?case
    unfolding vd relpow_within_Suc by (simp only: sub_levels.simps s Let_def prod.case)
qed simp

lemma sub_roots_spec:
  "foldl (\<lambda>vn r. if has_node g r then visit r vn else vn) (vd, nx) roots = (vd', nx') \<Longrightarrow> set vd = set nx \<Longrightarrow>
     set vd' = set vd \<union> {r \<in> set roots. has_node g r} \<and> set nx' = set vd'"
proof (induction roots arbitrary: vd nx)
  case (Cons r roots)
  show ?case
  proof (cases "has_node g r \<and> r \<notin> set vd")
    case True
    with Cons.IH [of "r # vd" "nx @ [r]"] Cons.prems show ?thesis by (auto simp: visit_def)
  next
    case False
    then have "(if has_node g r then visit r (vd, nx) else (vd, nx)) = (vd, nx)" by (simp add: visit_def)
    then have "foldl (\<lambda>vn r. if has_node g r then visit r vn else vn) (vd, nx) roots = (vd', nx')"
      using Cons.prems(1) by (simp only: foldl_Cons)
    from Cons.IH [OF this Cons.prems(2)] False show ?thesis by auto
  qed
qed auto


lemma option_eqI: "(\<And>x. a = Some x \<longleftrightarrow> b = Some x) \<Longrightarrow> a = b"
  by (metis not_Some_eq)

definition sub_ids :: "string list \<Rightarrow> nat \<Rightarrow> 'j memory_graph \<Rightarrow> string set" where
  "sub_ids roots d g =
     {v. \<exists>r \<in> set roots. has_node g r \<and> (\<exists>k \<le> d. (r, v) \<in> links g AnyDirection ^^ k)}"

definition pick_nodes :: "'j memory_graph \<Rightarrow> string list \<Rightarrow> 'j memory_graph \<Rightarrow> 'j memory_graph" where
  "pick_nodes g ids out = foldl (\<lambda>out n. case map_of (mg_nodes g) n of
      Some node \<Rightarrow> out\<lparr>mg_nodes := AList.update n node (mg_nodes out)\<rparr> | None \<Rightarrow> out) out ids"

lemma pick_nodes_spec:
  "\<lbrakk>graph_core g; graph_wf out\<rbrakk> \<Longrightarrow>
     graph_wf (pick_nodes g ids out) \<and> mg_relationships (pick_nodes g ids out) = mg_relationships out \<and>
     map_of (mg_nodes (pick_nodes g ids out)) = map_of (mg_nodes out) ++ (map_of (mg_nodes g) |` set ids)"
proof (induction ids arbitrary: out)
  case (Cons n ids)
  define o1 where "o1 = (case map_of (mg_nodes g) n of
      Some node \<Rightarrow> out\<lparr>mg_nodes := AList.update n node (mg_nodes out)\<rparr> | None \<Rightarrow> out)"
  have step: "pick_nodes g (n # ids) out = pick_nodes g ids o1"
    by (simp add: pick_nodes_def o1_def)
  have wf: "graph_wf o1"
    unfolding o1_def using Cons.prems by (auto split: option.split intro!: put_node_wf graph_core_ids(2))
  have rels: "mg_relationships o1 = mg_relationships out" by (simp add: o1_def split: option.split)
  have "map_of (mg_nodes o1) ++ (map_of (mg_nodes g) |` set ids) =
      map_of (mg_nodes out) ++ (map_of (mg_nodes g) |` set (n # ids))"
    by (auto simp: o1_def fun_eq_iff map_add_def restrict_map_def update_conv' split: option.split)
  with Cons.IH [OF Cons.prems(1) wf] rels show ?case unfolding step by (simp only: HOL.simp_thms)
qed (simp add: pick_nodes_def)

lemma index_filtered:
  assumes "\<And>rid. rid \<in> set rids \<Longrightarrow> \<exists>rel. m rid = Some rel \<and> gr_id rel = rid"
  shows "foldl (\<lambda>out rid. case m rid of Some rel \<Rightarrow> index_relationship rid rel out | None \<Rightarrow> out) out rids =
    index_all (map (\<lambda>rid. the (m rid)) rids) out"
  using assms
proof (induction rids arbitrary: out)
  case (Cons rid rids)
  obtain rel where "m rid = Some rel" "gr_id rel = rid" using Cons.prems by force
  with Cons show ?case by simp
qed simp

lemma has_linked_node:
  assumes "graph_wf g" "(a, b) \<in> links g dir"
  shows "has_node g b"
proof -
  have "has_node g (gr_from rel) \<and> has_node g (gr_to rel)" if "rel \<in> snd ` set (mg_relationships g)" for rel
    using that graph_wf_ends [OF assms(1)] graph_core_distinct(1) [OF graph_wf_core [OF assms(1)]] by force
  then show ?thesis using assms(2) by (cases dir) (auto simp: linked_def)
qed

lemma subgraph_spec:
  assumes wf: "graph_wf g"
  shows "graph_wf (subgraph roots d g) \<and>
    map_of (mg_nodes (subgraph roots d g)) = map_of (mg_nodes g) |` sub_ids roots d g \<and>
    map_of (mg_relationships (subgraph roots d g)) = map_of (mg_relationships g) |`
      {r. \<exists>rel. map_of (mg_relationships g) r = Some rel \<and> gr_from rel \<in> sub_ids roots d g \<and> gr_to rel \<in> sub_ids roots d g}"
    (is "?wf \<and> ?nodes \<and> ?rels")
proof -
  note core = graph_wf_core [OF wf]
  let ?m = "map_of (mg_relationships g)"
  obtain ids0 frontier where s0: "sub_roots g roots = (ids0, frontier)" by (cases "sub_roots g roots")
  define ids where "ids = sub_levels g d ids0 frontier"
  define keep where "keep = (\<lambda>rid. case ?m rid of Some rel \<Rightarrow> gr_from rel \<in> set ids \<and> gr_to rel \<in> set ids | None \<Rightarrow> False)"
  define rids where "rids = sort (filter keep (map fst (mg_relationships g)))"
  define rels where "rels = map (\<lambda>rid. the (?m rid)) rids"
  have r0: "set ids0 = {r \<in> set roots. has_node g r}" "set frontier = set ids0"
    using sub_roots_spec [OF s0 [unfolded sub_roots_def]] by auto
  have ids: "set ids = sub_ids roots d g"
    unfolding ids_def using r0 by (subst sub_levels_spec [OF core]) (auto simp: sub_ids_def)
  have rids: "\<exists>rel. ?m rid = Some rel \<and> gr_id rel = rid \<and> gr_from rel \<in> set ids \<and> gr_to rel \<in> set ids"
    if "rid \<in> set rids" for rid
    using that graph_core_ids(1) [OF core] by (auto simp: rids_def keep_def split: option.splits)
  define out where "out = pick_nodes g (sort ids) graph_new"
  have o: "graph_wf out" "mg_relationships out = []" "map_of (mg_nodes out) = map_of (mg_nodes g) |` set ids"
    using pick_nodes_spec [OF core graph_new_wf, of "sort ids"] by (simp_all add: out_def graph_new_def)
  have eq: "subgraph roots d g = index_all rels out"
    unfolding rels_def using rids
    by (subst index_filtered [symmetric]) (auto simp: subgraph_def s0 ids_def [symmetric] rids_def keep_def out_def pick_nodes_def)
  have gr_ids: "map gr_id rels = rids" unfolding rels_def map_map
    by (rule map_idI) (use rids in force)
  have d: "distinct (map gr_id rels)" unfolding gr_ids rids_def using graph_core_distinct(1) [OF core] by simp
  have e: "gr_from rel \<in> set ids \<and> gr_to rel \<in> set ids \<and> has_node g (gr_from rel) \<and> has_node g (gr_to rel)"
    if "rel \<in> set rels" for rel
    using that rids graph_wf_ends [OF wf] by (force simp: rels_def)
  have new: "map_of (mg_relationships out) r = None" for r by (simp add: o(2))
  have has: "has_node out (gr_from rel) \<and> has_node out (gr_to rel)" if "rel \<in> set rels" for rel
    using e [OF that] by (simp add: has_node_def o(3))
  note spec = index_all_spec [OF graph_wf_core [OF o(1)] d new]
  have ?wf unfolding eq by (rule index_all_wf [OF o(1) d new has])
  moreover have ?nodes using spec o(3) unfolding eq ids by simp
  moreover have "by_id gr_id rels r = Some rel \<longleftrightarrow>
      ?m r = Some rel \<and> gr_from rel \<in> set ids \<and> gr_to rel \<in> set ids" for r rel
  proof -
    have "rel \<in> set rels \<and> gr_id rel = r \<longleftrightarrow> r \<in> set rids \<and> ?m r = Some rel"
      using rids by (force simp: rels_def)
    also have "\<dots> \<longleftrightarrow> ?m r = Some rel \<and> gr_from rel \<in> set ids \<and> gr_to rel \<in> set ids"
      by (force simp: rids_def keep_def dest: map_of_SomeD)
    finally show ?thesis by (simp add: by_id_eq [OF d])
  qed
  then have "by_id gr_id rels r = (?m |` {r. \<exists>rel. ?m r = Some rel \<and> gr_from rel \<in> set ids \<and> gr_to rel \<in> set ids}) r" for r
    by (intro option_eqI) (auto simp: restrict_map_def)
  then have ?rels using spec unfolding eq ids by (simp add: o(2) fun_eq_iff)
  ultimately show ?thesis by blast
qed

text \<open>
A subgraph has exactly the nodes within the given number of hops of an existing root, whichever
  way the relationships point, and exactly the relationships between two of them, and is well formed.
\<close>

theorem subgraph_is_the_induced_one:
  assumes wf: "graph_wf g"
  shows "graph_wf (subgraph roots d g) \<and>
    map_of (mg_nodes (subgraph roots d g)) = map_of (mg_nodes g) |` sub_ids roots d g \<and>
    map_of (mg_relationships (subgraph roots d g)) = map_of (mg_relationships g) |`
      {r. \<exists>rel. map_of (mg_relationships g) r = Some rel \<and> gr_from rel \<in> sub_ids roots d g \<and> gr_to rel \<in> sub_ids roots d g}"
  by (rule subgraph_spec [OF wf])

section \<open>Every graph the operations build\<close>

lemma add_all_wf: "graph_wf g \<Longrightarrow> add_all rels g = Inr g' \<Longrightarrow> graph_wf g'"
proof (induction rels arbitrary: g)
  case (Cons rel rels)
  then show ?case
    using add_relationship_wf [OF Cons.prems(1), of rel]
    by (cases "add_relationship rel g") (auto split: option.splits)
qed simp

lemma from_snapshot_wf: "from_snapshot sh s = Inr g \<Longrightarrow> graph_wf g"
  using upsert_all_wf [OF graph_new_wf, of "gs_nodes s"]
  by (auto simp: from_snapshot_def upsert_all_def split: option.splits intro: add_all_wf)

inductive built_graph :: "'j memory_graph \<Rightarrow> bool" where
  built_new: "built_graph graph_new"
| built_upsert: "built_graph g \<Longrightarrow> built_graph (snd (upsert_node n g))"
| built_add: "built_graph g \<Longrightarrow> built_graph (snd (add_relationship rel g))"
| built_remove_node: "built_graph g \<Longrightarrow> built_graph (snd (remove_node n g))"
| built_remove_rel: "built_graph g \<Longrightarrow> built_graph (snd (remove_relationship r g))"
| built_merge: "built_graph g \<Longrightarrow> built_graph other \<Longrightarrow> built_graph (snd (merge_graph other policy g))"
| built_subgraph: "built_graph g \<Longrightarrow> built_graph (subgraph roots d g)"
| built_snapshot: "from_snapshot sh s = Inr g \<Longrightarrow> built_graph g"

text \<open>
C23: Every graph that insertions, removals, merges, subgraphs and restored snapshots build keeps the
  invariants of the store: every relationship joins existing nodes, the keys are the ids, and the two
  adjacency indexes list exactly the relationships of the store, each once.
\<close>

theorem built_graphs_are_well_formed:
  "built_graph g \<Longrightarrow>
     (\<forall>r rel. map_of (mg_relationships g) r = Some rel \<longrightarrow>
        gr_id rel = r \<and> has_node g (gr_from rel) \<and> has_node g (gr_to rel)) \<and>
     (\<forall>n. distinct (or_default (mg_outgoing g n)) \<and> distinct (or_default (mg_incoming g n)) \<and>
        set (or_default (mg_outgoing g n)) =
          {r. \<exists>rel. map_of (mg_relationships g) r = Some rel \<and> gr_from rel = n} \<and>
        set (or_default (mg_incoming g n)) =
          {r. \<exists>rel. map_of (mg_relationships g) r = Some rel \<and> gr_to rel = n}) \<and>
     dom (mg_outgoing_positions g) = dom (map_of (mg_relationships g)) \<and>
     dom (mg_incoming_positions g) = dom (map_of (mg_relationships g))"
proof -
  assume "built_graph g"
  then have wf: "graph_wf g"
  proof induction
    case (built_merge g other policy)
    show ?case by (rule merge_graph_core(1) [OF built_merge.IH])
  next
    case (built_subgraph g roots d)
    show ?case by (rule subgraph_spec [OF built_subgraph.IH, THEN conjunct1])
  qed (auto intro: graph_new_wf upsert_node_wf add_relationship_wf remove_node_wf remove_relationship_wf from_snapshot_wf)
  have e: "ends_by f m r = Some n \<longleftrightarrow> (\<exists>rel. m r = Some rel \<and> f rel = n)" for f :: "'a graph_relationship \<Rightarrow> string" and m r n
    by (auto simp: ends_by_def)
  from wf show ?thesis
    by (simp add: graph_wf_def graph_core_def endpoints_exist_def index_ok_def e)
qed

section \<open>Bounded rendering\<close>


lemma take_insort:
  fixes l :: "'a::linorder list"
  shows "take k (insort x (take k l)) = take k (insort x l)"
proof (induction l arbitrary: k)
  case (Cons y l)
  then show ?case by (cases k) (auto simp: take_Cons')
qed simp

lemma insort_before_last:
  fixes b :: "'a::linorder list"
  assumes "sorted (b @ [m])" "x \<le> m"
  shows "insort x (b @ [m]) = insort x b @ [m]"
  using assms by (induction b) (auto simp: sorted_append)

lemma keep_least_spec:
  assumes "sort heap = take k (sort done)"
  shows "sort (keep_least k heap xs) = take k (sort (done @ xs))"
  using assms
proof (induction xs arbitrary: heap "done")
  case (Cons x xs)
  let ?h = "sort heap"
  have rest: "sort (done @ x # xs) = sort ((x # done) @ xs)"
    by (rule properties_for_sort) (simp_all add: sorted_insort)
  have new: "take k (sort (x # done)) = take k (insort x ?h)"
    using Cons.prems take_insort [of k x "sort done"] by simp
  show ?case
  proof (cases "length heap < k")
    case True
    then have "take k (sort (x # done)) = sort (x # heap)" unfolding new by simp
    from Cons.IH [OF this [symmetric]] True rest show ?thesis by simp
  next
    case full: False
    have len: "length heap = k"
      using full arg_cong [OF Cons.prems, of length] by simp
    show ?thesis
    proof (cases "heap \<noteq> [] \<and> x < Max (set heap)")
      case True
      let ?m = "Max (set heap)" and ?b = "butlast ?h"
      have ne: "?h \<noteq> []" using True by (metis length_0_conv length_sort)
      have hb: "?h = ?b @ [last ?h]" using ne by simp
      have "sorted (?b @ [last ?h])" using hb sorted_sort by metis
      then have "y \<le> last ?h" if "y \<in> set ?h" for y
        using that unfolding sorted_append by (metis Un_iff hb list.set_intros(1) order_refl set_ConsD set_append empty_iff list.set(1))
      then have m: "last ?h = ?m"
        using last_in_set [OF ne] by (intro Max_eqI [symmetric]) simp_all
      have h: "?h = ?b @ [?m]" using append_butlast_last_id [OF ne] m by simp
      have sb: "sorted (?b @ [?m])" using h sorted_sort by metis
      have "take k (insort x ?h) = insort x ?b"
      proof -
        have "insort x ?h = insort x ?b @ [?m]"
          using insort_before_last [OF sb] True h by (metis less_imp_le)
        moreover have "length (insort x ?b) = k" using len True by (cases heap) simp_all
        ultimately show ?thesis by simp
      qed
      also have "insort x ?b = sort (x # remove1 ?m heap)"
      proof (rule properties_for_sort [symmetric])
        have "mset ?b = mset heap - {#?m#}"
          using h by (metis add_diff_cancel_right' mset_append mset_sort mset_single_iff_right union_commute
              mset.simps(1) mset.simps(2) add_mset_add_single)
        then show "mset (insort x ?b) = mset (x # remove1 ?m heap)" by simp
        show "sorted (insort x ?b)" using sb by (simp add: sorted_insort sorted_append)
      qed
      finally have "sort (x # remove1 ?m heap) = take k (sort (x # done))" using new by simp
      from Cons.IH [OF this] full True rest show ?thesis by simp
    next
      case False
      have "\<forall>y \<in> set ?h. y \<le> x" using False by (auto simp: not_less intro: Max_ge order_trans)
      then have "insort x ?h = ?h @ [x]" by (intro sorted_insort_is_snoc) simp_all
      then have "?h = take k (sort (x # done))" unfolding new using len by simp
      from Cons.IH [OF this] full False rest show ?thesis by auto
    qed
  qed
qed simp

text \<open>
The ids a rendering shows are the first ones in byte order, however large the limit: the bounded
  heap selects the same ids as sorting them all.
\<close>

theorem bounded_selection_is_a_prefix:
  "bounded_sorted_ids ids k (length ids) = take k (sort ids)"
  using keep_least_spec [of "[]" k "[]" ids] by (simp add: bounded_sorted_ids_def)


section \<open>A small graph\<close>

definition sample_node :: "string \<Rightarrow> unit graph_node" where
  "sample_node n = \<lparr>gn_id = n, gn_labels = [], gn_properties = ()\<rparr>"

definition sample_rel :: "f64 \<Rightarrow> unit graph_relationship" where
  "sample_rel w = \<lparr>gr_id = ''r'', gr_from = ''a'', gr_to = ''b'', gr_kind = ''knows'', gr_weight = w,
     gr_properties = ()\<rparr>"

definition sample_graph :: "f64 \<Rightarrow> unit memory_graph" where
  "sample_graph w = snd (add_relationship (sample_rel w)
     (snd (upsert_node (sample_node ''b'') (snd (upsert_node (sample_node ''a'') graph_new)))))"

lemma sample_graph_wf: "graph_wf (sample_graph w)"
  by (simp add: sample_graph_def add_relationship_wf upsert_node_wf graph_new_wf)

lemma sample_graph_built: "built_graph (sample_graph w)"
  unfolding sample_graph_def by (intro built_add built_upsert built_new)

lemma sample_graph_eq:
  "mg_nodes (sample_graph w) = [(''a'', sample_node ''a''), (''b'', sample_node ''b'')]"
  "mg_relationships (sample_graph w) = [(''r'', sample_rel w)]"
  "mg_outgoing (sample_graph w) = [''a'' \<mapsto> [''r'']]"
  "mg_incoming (sample_graph w) = [''b'' \<mapsto> [''r'']]"
  by (simp_all add: sample_graph_def add_relationship_def upsert_node_def graph_new_def has_node_def
      remove_relationship_def index_relationship_def index_push_def sample_node_def sample_rel_def Let_def)

lemma sample_links: "linked (sample_graph w) = {(''a'', ''b'')}"
  by (simp add: linked_def sample_graph_eq) (simp add: sample_rel_def)

theorem built_graphs_are_well_formed_witness:
  "built_graph (sample_graph (F64 1)) \<and> set (or_default (mg_outgoing (sample_graph (F64 1)) ''a'')) = {''r''}"
  using built_graphs_are_well_formed [OF sample_graph_built [of "F64 1"]] sample_graph_built [of "F64 1"]
  by (simp add: sample_graph_eq)

theorem snapshot_restores_the_graph_witness:
  "graph_wf (sample_graph (F64 1)) \<and>
   (\<exists>g'. from_snapshot (\<lambda>w. []) (graph_snapshot_of (sample_graph (F64 1))) = Inr g' \<and> graph_wf g' \<and>
      map_of (mg_nodes g') = map_of (mg_nodes (sample_graph (F64 1))) \<and>
      map_of (mg_relationships g') = map_of (mg_relationships (sample_graph (F64 1))))"
  using snapshot_restores_the_graph [OF sample_graph_wf [of "F64 1"], of "\<lambda>w. []"] sample_graph_wf [of "F64 1"]
  by (simp add: sample_graph_eq(2)) (simp add: sample_rel_def)

theorem merge_loses_nothing_witness:
  "graph_wf (sample_graph (F64 1)) \<and> graph_wf (sample_graph (F64 2)) \<and>
   relationship_count (snd (merge_graph (sample_graph (F64 2)) MergeKeep (sample_graph (F64 1)))) = 2"
  using merge_loses_nothing [OF sample_graph_wf [of "F64 1"] sample_graph_wf [of "F64 2"], of MergeKeep]
    sample_graph_wf [of "F64 1"] sample_graph_wf [of "F64 2"]
  by (auto simp: relationship_count_def sample_graph_eq split: prod.splits)

theorem traverse_lists_by_distance_witness:
  "graph_wf (sample_graph (F64 1)) \<and> has_node (sample_graph (F64 1)) ''a'' \<and>
   traverse (sample_graph (F64 1)) ''a'' 1 Outgoing = [''a'', ''b'']"
proof -
  have h: "has_node (sample_graph (F64 1)) ''a''" by (simp add: has_node_def sample_graph_eq)
  have "at_distance (sample_graph (F64 1)) Outgoing ''a'' (Suc 0) = {''b''}"
    by (auto simp: at_distance_def sample_links)
  then show ?thesis
    using traverse_lists_by_distance [OF sample_graph_wf [of "F64 1"] h, of 1 Outgoing] h
      sample_graph_wf [of "F64 1"] by simp
qed

theorem connected_iff_path_witness:
  "graph_wf (sample_graph (F64 1)) \<and> is_connected (sample_graph (F64 1)) ''a'' ''b'' \<and>
   \<not> is_connected (sample_graph (F64 1)) ''b'' ''a''"
proof -
  have "(''b'', ''a'') \<notin> {(''a'', ''b'')}\<^sup>*" by (auto elim: converse_rtranclE)
  moreover have "(''a'', ''b'') \<in> {(''a'', ''b'')}\<^sup>*" by (rule r_into_rtrancl) simp
  ultimately show ?thesis
    using connected_iff_path [OF sample_graph_wf [of "F64 1"]] sample_graph_wf [of "F64 1"]
    by (simp add: has_node_def sample_graph_eq sample_links)
qed

theorem subgraph_is_the_induced_one_witness:
  "graph_wf (sample_graph (F64 1)) \<and> graph_wf (subgraph [''b''] 0 (sample_graph (F64 1))) \<and>
   map_of (mg_relationships (subgraph [''b''] 0 (sample_graph (F64 1)))) = Map.empty"
  using subgraph_is_the_induced_one [OF sample_graph_wf [of "F64 1"], of "[''b'']" 0] sample_graph_wf [of "F64 1"]
  by (auto simp: sub_ids_def sample_graph_eq fun_eq_iff restrict_map_def sample_rel_def)

end
