(* ===== verification/Vocab.thy ===== *)
theory Vocab
  imports Sse Float64 "HOL-Library.Word"
begin

unbundle bit_operations_syntax

text \<open>
  \<open>src/provider/local/tokenizer/vocab.rs\<close>: the vocabulary of an in-process tokenizer. Every
  piece text lives in one arena addressed by an offset table, and the lookup from text to id is
  an open-addressing table of ids with linear probing. Text is its UTF-8 bytes here, as the
  arena, the offsets and the hash see it; ids and offsets are \<open>u32\<close> values. A probe loop is a
  \<open>partial_function\<close>, so a loop that never ends is \<open>None\<close>; the theorems show that the loops of
  a built vocabulary end.
\<close>

section \<open>Token types\<close>

definition TYPE_UNDEFINED :: int where "TYPE_UNDEFINED = 0"
definition TYPE_NORMAL :: int where "TYPE_NORMAL = 1"
definition TYPE_UNKNOWN :: int where "TYPE_UNKNOWN = 2"
definition TYPE_CONTROL :: int where "TYPE_CONTROL = 3"
definition TYPE_USER_DEFINED :: int where "TYPE_USER_DEFINED = 4"
definition TYPE_UNUSED :: int where "TYPE_UNUSED = 5"
definition TYPE_BYTE :: int where "TYPE_BYTE = 6"

lemmas token_types = TYPE_UNDEFINED_def TYPE_NORMAL_def TYPE_UNKNOWN_def TYPE_CONTROL_def
  TYPE_USER_DEFINED_def TYPE_UNUSED_def TYPE_BYTE_def

text \<open>\<open>EMPTY\<close>, the mark of an unused slot.\<close>

definition EMPTY_SLOT :: nat where "EMPTY_SLOT = 2 ^ 32 - 1"

section \<open>Standard library\<close>

definition local_err :: "string \<Rightarrow> cuca_error" where
  "local_err message = ErrProvider LocalModel message"

text \<open>\<open>usize::next_power_of_two\<close>, and \<open>str::get\<close>, which wants character boundaries.\<close>

definition next_power_of_two :: "nat \<Rightarrow> nat" where
  "next_power_of_two n = (if n \<le> 1 then 1 else 2 ^ bit_length (n - 1))"

definition is_char_boundary :: "bytes \<Rightarrow> nat \<Rightarrow> bool" where
  "is_char_boundary s i \<longleftrightarrow> i = length s \<or> i < length s \<and> \<not> is_cont (s ! i)"

definition slice :: "nat \<Rightarrow> nat \<Rightarrow> 'a list \<Rightarrow> 'a list" where
  "slice a b s = drop a (take b s)"

definition str_get :: "bytes \<Rightarrow> nat \<Rightarrow> nat \<Rightarrow> bytes option" where
  "str_get s a b =
     (if a \<le> b \<and> b \<le> length s \<and> is_char_boundary s a \<and> is_char_boundary s b
      then Some (slice a b s) else None)"

text \<open>One upper-case hexadecimal digit, as \<open>{:02X}\<close> prints it.\<close>

definition hex_upper :: "nat \<Rightarrow> nat" where
  "hex_upper d = (if d < 10 then 48 + d else 55 + d)"

section \<open>The vocabulary\<close>

record vocab =
  vtext :: bytes
  voffsets :: "nat list"
  vtypes :: "int list"
  vtable :: "nat list"
  vbyte_ids :: "nat option list"

definition fnv_step :: "64 word \<Rightarrow> nat \<Rightarrow> 64 word" where
  "fnv_step h b = (h XOR of_nat b) * 0x100000001b3"

definition hash_bytes :: "bytes \<Rightarrow> nat" where
  "hash_bytes s = (let h = foldl fnv_step 0xcbf29ce484222325 s in unat (h XOR drop_bit 32 h))"

text \<open>\<open>Vocab::piece\<close>: the text of an id, empty for an id out of range.\<close>

definition vocab_piece :: "vocab \<Rightarrow> nat \<Rightarrow> bytes" where
  "vocab_piece v i =
     (if i + 1 < length (voffsets v)
      then (case str_get (vtext v) (voffsets v ! i) (voffsets v ! (i + 1)) of
              Some t \<Rightarrow> t | None \<Rightarrow> [])
      else [])"

definition vocab_len :: "vocab \<Rightarrow> nat" where
  "vocab_len v = length (vtypes v)"

definition vocab_token_type :: "vocab \<Rightarrow> nat \<Rightarrow> int option" where
  "vocab_token_type v i = (if i < length (vtypes v) then Some (vtypes v ! i) else None)"

text \<open>
  The probe loop of \<open>Vocab::get\<close>. The slot is always masked, so it is inside the table.
\<close>

partial_function (option) table_find :: "vocab \<Rightarrow> bytes \<Rightarrow> nat \<Rightarrow> nat option option" where
  "table_find v text slot =
     (let i = vtable v ! slot in
      if i = EMPTY_SLOT then Some None
      else if vocab_piece v i = text then Some (Some i)
      else table_find v text ((slot + 1) AND (length (vtable v) - 1)))"

declare table_find.simps [code]

definition vocab_lookup :: "vocab \<Rightarrow> bytes \<Rightarrow> nat option option" where
  "vocab_lookup v text =
     (if text = [] then Some None
      else table_find v text (hash_bytes text AND (length (vtable v) - 1)))"

text \<open>The result of \<open>Vocab::get\<close>, for the callers; the lookup of a built vocabulary ends.\<close>

definition vocab_get :: "vocab \<Rightarrow> bytes \<Rightarrow> nat option" where
  "vocab_get v text = Option.bind (vocab_lookup v text) id"

definition byte_text :: "nat \<Rightarrow> bytes" where
  "byte_text b = [60, 48, 120, hex_upper (b div 16), hex_upper (b mod 16), 62]"

text \<open>The insertion loop of \<open>Vocab::new\<close>.\<close>

partial_function (option) table_insert :: "vocab \<Rightarrow> nat \<Rightarrow> bytes \<Rightarrow> nat \<Rightarrow> vocab option" where
  "table_insert v i piece slot =
     (let other = vtable v ! slot in
      if other = EMPTY_SLOT then Some (v\<lparr>vtable := (vtable v)[slot := i]\<rparr>)
      else if vocab_piece v other = piece then Some v
      else table_insert v i piece ((slot + 1) AND (length (vtable v) - 1)))"

declare table_insert.simps [code]

fun insert_ids :: "nat list \<Rightarrow> vocab \<Rightarrow> vocab option" where
  "insert_ids [] v = Some v"
| "insert_ids (i # ids) v =
     (let piece = vocab_piece v i in
      if piece = [] then insert_ids ids v
      else Option.bind (table_insert v i piece (hash_bytes piece AND (length (vtable v) - 1)))
             (insert_ids ids))"

text \<open>The offsets: the arena's length after each piece.\<close>

fun piece_offsets :: "nat \<Rightarrow> bytes list \<Rightarrow> nat list" where
  "piece_offsets o' [] = [o']"
| "piece_offsets o' (p # ps) = o' # piece_offsets (o' + length p) ps"

fun fill_byte_ids :: "nat list \<Rightarrow> vocab \<Rightarrow> vocab option" where
  "fill_byte_ids [] v = Some v"
| "fill_byte_ids (b # bs) v =
     Option.bind (vocab_lookup v (byte_text b))
       (\<lambda>r. fill_byte_ids bs (v\<lparr>vbyte_ids := (vbyte_ids v)[b := r]\<rparr>))"

definition vocab_start :: "bytes list \<Rightarrow> int list \<Rightarrow> vocab" where
  "vocab_start pieces types =
     (let offsets = piece_offsets 0 pieces;
          slots = max (next_power_of_two (length offsets * 2)) 8
      in \<lparr>vtext = concat pieces, voffsets = offsets, vtypes = types,
          vtable = replicate slots EMPTY_SLOT, vbyte_ids = replicate 256 None\<rparr>)"

text \<open>\<open>Vocab::new\<close>. The outer option is \<open>None\<close> when a loop does not end.\<close>

definition vocab_new :: "bytes list \<Rightarrow> int list \<Rightarrow> (cuca_error + vocab) option" where
  "vocab_new pieces types =
     (if length pieces \<noteq> length types then
        Some (Inl (local_err (''tokenizer has '' @ show_nat (length pieces) @
                              '' tokens but '' @ show_nat (length types) @ '' token types'')))
      else
        let total = sum_list (map length pieces) in
        if total > u32_max \<or> length pieces \<ge> EMPTY_SLOT then
          Some (Inl (local_err ''tokenizer vocabulary is too large''))
        else
          map_option Inr
            (Option.bind (insert_ids [0..<length types] (vocab_start pieces types))
               (fill_byte_ids [0..<256])))"

definition vocab_byte_token :: "vocab \<Rightarrow> nat \<Rightarrow> nat option" where
  "vocab_byte_token v byte = vbyte_ids v ! byte"

definition byte_tokens :: "vocab \<Rightarrow> bytes \<Rightarrow> nat list" where
  "byte_tokens v text = List.map_filter (vocab_byte_token v) text"

definition vocab_is_control :: "vocab \<Rightarrow> nat \<Rightarrow> bool" where
  "vocab_is_control v i \<longleftrightarrow> vocab_token_type v i \<in> {Some TYPE_CONTROL, Some TYPE_UNKNOWN}"

text \<open>\<open>parse_byte_token\<close>; \<open>u8::from_str_radix\<close> takes a leading plus sign.\<close>

definition hex_value :: "nat \<Rightarrow> nat option" where
  "hex_value c =
     (if 48 \<le> c \<and> c \<le> 57 then Some (c - 48)
      else if 65 \<le> c \<and> c \<le> 70 then Some (c - 55)
      else if 97 \<le> c \<and> c \<le> 102 then Some (c - 87) else None)"

definition parse_hex2 :: "bytes \<Rightarrow> nat option" where
  "parse_hex2 h =
     (case h of
        [a, b] \<Rightarrow>
          if a = 43 then hex_value b
          else Option.bind (hex_value a) (\<lambda>x. map_option (\<lambda>y. 16 * x + y) (hex_value b))
      | _ \<Rightarrow> None)"

definition strip_prefix :: "'a list \<Rightarrow> 'a list \<Rightarrow> 'a list option" where
  "strip_prefix p s = (if take (length p) s = p then Some (drop (length p) s) else None)"

definition strip_suffix :: "'a list \<Rightarrow> 'a list \<Rightarrow> 'a list option" where
  "strip_suffix q s = map_option rev (strip_prefix (rev q) (rev s))"

definition parse_byte_token :: "bytes \<Rightarrow> nat option" where
  "parse_byte_token text =
     Option.bind (strip_prefix [60, 48, 120] text)
       (\<lambda>r. Option.bind (strip_suffix [62] r)
          (\<lambda>hex. if length hex \<noteq> 2 then None else parse_hex2 hex))"

section \<open>The arena\<close>

text \<open>
  The pieces of a vocabulary are texts, so the first byte of a non-empty piece starts a
  character; every piece boundary of the arena is then a character boundary.
\<close>

definition str_start :: "bytes \<Rightarrow> bool" where
  "str_start p \<longleftrightarrow> p = [] \<or> \<not> is_cont (hd p)"

lemma encode_char_start: "encode_char c \<noteq> []" "\<not> is_cont (hd (encode_char c))"
  by (auto simp: encode_char_def is_cont_def)

lemma str_start_utf8: "str_start (utf8_bytes t)"
  by (cases t) (auto simp: str_start_def utf8_bytes_def hd_append encode_char_start)

lemma str_start_concat: "\<forall>p \<in> set ps. str_start p \<Longrightarrow> str_start (concat ps)"
  by (induction ps) (auto simp: str_start_def hd_append)

lemma length_piece_offsets [simp]: "length (piece_offsets o' ps) = length ps + 1"
  by (induction ps arbitrary: o') auto

lemma nth_piece_offsets:
  "i \<le> length ps \<Longrightarrow> piece_offsets o' ps ! i = o' + length (concat (take i ps))"
  by (induction ps arbitrary: o' i) (auto simp: nth_Cons' take_Cons')

lemma arena_boundary:
  assumes "\<forall>p \<in> set ps. str_start p"
  shows "is_char_boundary (concat ps) (length (concat (take i ps)))"
proof -
  have c: "concat ps = concat (take i ps) @ concat (drop i ps)"
    by (metis append_take_drop_id concat_append)
  have "str_start (concat (drop i ps))"
    using assms by (intro str_start_concat) (auto dest: in_set_dropD)
  with c show ?thesis
    by (cases "concat (drop i ps)") (auto simp: is_char_boundary_def str_start_def nth_append)
qed

definition arena :: "vocab \<Rightarrow> bytes list \<Rightarrow> bool" where
  "arena v ps \<longleftrightarrow> vtext v = concat ps \<and> voffsets v = piece_offsets 0 ps"

lemma piece_of_arena:
  assumes "arena v ps" "\<forall>p \<in> set ps. str_start p"
  shows "vocab_piece v i = (if i < length ps then ps ! i else [])"
proof (cases "i < length ps")
  case True
  have take: "concat (take (Suc i) ps) = concat (take i ps) @ ps ! i"
    using True by (simp add: take_Suc_conv_app_nth)
  have whole: "concat ps = concat (take i ps) @ ps ! i @ concat (drop (Suc i) ps)"
    using True by (metis append_assoc append_take_drop_id concat_append take)
  have "slice (length (concat (take i ps))) (length (concat (take (Suc i) ps))) (concat ps) = ps ! i"
    unfolding slice_def whole take by (simp del: length_concat)
  moreover have "length (concat (take (Suc i) ps)) \<le> length (concat ps)"
    unfolding whole take by simp
  moreover have "length (concat (take i ps)) \<le> length (concat (take (Suc i) ps))"
    unfolding take by simp
  ultimately show ?thesis
    using assms True arena_boundary [OF assms(2), of i] arena_boundary [OF assms(2), of "Suc i"]
    by (simp add: vocab_piece_def arena_def nth_piece_offsets str_get_def del: length_concat)
qed (use assms in \<open>simp add: vocab_piece_def arena_def\<close>)

section \<open>Probing\<close>

lemma and_mask_mod: "(x :: nat) AND (2 ^ m - Suc 0) = x mod 2 ^ m"
  by (metis One_nat_def mask_eq_exp_minus_1 take_bit_eq_mask take_bit_eq_mod)

definition probe_stop :: "vocab \<Rightarrow> bytes \<Rightarrow> nat \<Rightarrow> bool" where
  "probe_stop v t s \<longleftrightarrow> vtable v ! s = EMPTY_SLOT \<or> vocab_piece v (vtable v ! s) = t"

lemma find_skip:
  assumes "length (vtable v) = 2 ^ m" "\<not> probe_stop v t ((h + e) mod 2 ^ m)"
  shows "table_find v t ((h + e) mod 2 ^ m) = table_find v t ((h + Suc e) mod 2 ^ m)"
proof -
  have "((h + e) mod 2 ^ m + 1) AND (length (vtable v) - 1) = (h + Suc e) mod 2 ^ m"
    by (simp add: assms(1) and_mask_mod mod_Suc_eq)
  with assms(2) show ?thesis
    by (subst table_find.simps) (simp add: probe_stop_def Let_def)
qed

lemma insert_skip:
  assumes "length (vtable v) = 2 ^ m" "\<not> probe_stop v t ((h + e) mod 2 ^ m)"
  shows "table_insert v i t ((h + e) mod 2 ^ m) = table_insert v i t ((h + Suc e) mod 2 ^ m)"
proof -
  have "((h + e) mod 2 ^ m + 1) AND (length (vtable v) - 1) = (h + Suc e) mod 2 ^ m"
    by (simp add: assms(1) and_mask_mod mod_Suc_eq)
  with assms(2) show ?thesis
    by (subst table_insert.simps) (simp add: probe_stop_def Let_def)
qed

lemma find_reaches:
  assumes "length (vtable v) = 2 ^ m" "\<And>e. e < d \<Longrightarrow> \<not> probe_stop v t ((h + e) mod 2 ^ m)"
  shows "table_find v t (h mod 2 ^ m) = table_find v t ((h + d) mod 2 ^ m)"
  using assms(2)
proof (induction d)
  case (Suc d)
  then show ?case using find_skip [OF assms(1), of t h d] by simp
qed simp

lemma insert_reaches:
  assumes "length (vtable v) = 2 ^ m" "\<And>e. e < d \<Longrightarrow> \<not> probe_stop v t ((h + e) mod 2 ^ m)"
  shows "table_insert v i t (h mod 2 ^ m) = table_insert v i t ((h + d) mod 2 ^ m)"
  using assms(2)
proof (induction d)
  case (Suc d)
  then show ?case using insert_skip [OF assms(1), of t h d] by simp
qed simp

text \<open>A table with a free slot stops every probe.\<close>

lemma probe_stops:
  assumes "s < 2 ^ m" "vtable v ! s = EMPTY_SLOT"
  obtains d where "probe_stop v t ((h + d) mod 2 ^ m)"
    "\<And>e. e < d \<Longrightarrow> \<not> probe_stop v t ((h + e) mod 2 ^ m)"
proof -
  have "(h + (s + 2 ^ m - h mod 2 ^ m)) mod 2 ^ m = s"
  proof -
    have "h mod 2 ^ m \<le> 2 ^ m" by simp
    then have "h + (s + 2 ^ m - h mod 2 ^ m) = s + 2 ^ m + (h div 2 ^ m) * 2 ^ m"
      using div_mult_mod_eq [of h "2 ^ m"] by linarith
    also have "\<dots> mod 2 ^ m = s" using assms(1) by simp
    finally show ?thesis .
  qed
  then have ex: "\<exists>d. probe_stop v t ((h + d) mod 2 ^ m)"
    using assms(2) by (metis probe_stop_def)
  show ?thesis
    by (rule that [of "LEAST d. probe_stop v t ((h + d) mod 2 ^ m)"])
      (use ex not_less_Least in \<open>auto intro: LeastI_ex\<close>)
qed

section \<open>The table of the first ids\<close>

text \<open>
  What the table holds when the ids below \<open>k\<close> are in: only first occurrences, each of them
  reachable from its hash over occupied slots of other ids, and at most \<open>k\<close> slots used.
\<close>

definition first_id :: "bytes list \<Rightarrow> bytes \<Rightarrow> nat option" where
  "first_id ps t = (if t = [] then None else position (\<lambda>p. p = t) ps)"

definition table_ok :: "bytes list \<Rightarrow> nat list \<Rightarrow> nat \<Rightarrow> bool" where
  "table_ok ps tab k \<longleftrightarrow>
     (\<forall>s < length tab. tab ! s \<noteq> EMPTY_SLOT \<longrightarrow>
        tab ! s < k \<and> first_id ps (ps ! (tab ! s)) = Some (tab ! s)) \<and>
     (\<forall>i < k. first_id ps (ps ! i) = Some i \<longrightarrow>
        (\<exists>d. tab ! ((hash_bytes (ps ! i) + d) mod length tab) = i \<and>
             (\<forall>e < d. tab ! ((hash_bytes (ps ! i) + e) mod length tab) \<notin> {EMPTY_SLOT, i}))) \<and>
     card {s. s < length tab \<and> tab ! s \<noteq> EMPTY_SLOT} \<le> k"

lemma position_iff:
  "position P xs = Some i \<longleftrightarrow> i < length xs \<and> P (xs ! i) \<and> (\<forall>j < i. \<not> P (xs ! j))"
proof (induction xs arbitrary: i)
  case (Cons x xs)
  show ?case
  proof (cases i)
    case (Suc j)
    show ?thesis using Cons [of j] by (auto simp: Suc All_less_Suc2)
  qed auto
qed simp

lemma first_id_Some:
  "first_id ps t = Some i \<longleftrightarrow>
     t \<noteq> [] \<and> i < length ps \<and> ps ! i = t \<and> (\<forall>j < i. ps ! j \<noteq> t)"
  by (auto simp: first_id_def position_iff)

lemma first_id_None: "first_id ps t = None \<longleftrightarrow> t = [] \<or> t \<notin> set ps"
  by (auto simp: first_id_def position_None)

text \<open>A table under construction: \<open>k\<close> ids are in.\<close>

definition filling :: "bytes list \<Rightarrow> int list \<Rightarrow> nat \<Rightarrow> vocab \<Rightarrow> bool" where
  "filling ps types k v \<longleftrightarrow>
     arena v ps \<and> vtypes v = types \<and> (\<forall>p \<in> set ps. str_start p) \<and> length ps < EMPTY_SLOT \<and>
     k \<le> length ps \<and> length ps < length (vtable v) \<and> (\<exists>m. length (vtable v) = 2 ^ m) \<and>
     length (vbyte_ids v) = 256 \<and> table_ok ps (vtable v) k"

lemma filling_free_slot:
  assumes "filling ps types k v"
  obtains s where "s < length (vtable v)" "vtable v ! s = EMPTY_SLOT"
proof (rule ccontr)
  assume "\<not> thesis"
  then have "{s. s < length (vtable v) \<and> vtable v ! s \<noteq> EMPTY_SLOT} = {..<length (vtable v)}"
    using that by blast
  moreover have "card {s. s < length (vtable v) \<and> vtable v ! s \<noteq> EMPTY_SLOT} \<le> k"
    "k < length (vtable v)"
    using assms by (auto simp: filling_def table_ok_def)
  ultimately show False by simp
qed

text \<open>Where a probe of a text stops: at its first id when that is in, else at a free slot.\<close>

lemma filling_stop:
  assumes fill: "filling ps types k v"
    and stop: "probe_stop v t ((hash_bytes t + d) mod length (vtable v))"
    and before: "\<And>e. e < d \<Longrightarrow> \<not> probe_stop v t ((hash_bytes t + e) mod length (vtable v))"
    and t: "t \<noteq> []"
  defines "x \<equiv> vtable v ! ((hash_bytes t + d) mod length (vtable v))"
  shows "(if x = EMPTY_SLOT then \<forall>i < k. ps ! i \<noteq> t else first_id ps t = Some x \<and> x < k)"
proof -
  let ?S = "length (vtable v)"
  have S: "0 < ?S" using fill by (auto simp: filling_def)
  have piece: "vocab_piece v i = (if i < length ps then ps ! i else [])" for i
    using fill by (intro piece_of_arena) (auto simp: filling_def)
  have kl: "k \<le> length ps" "length ps < EMPTY_SLOT" using fill by (auto simp: filling_def)
  have stored: "vtable v ! s < k \<and> first_id ps (ps ! (vtable v ! s)) = Some (vtable v ! s)"
    if "s < ?S" "vtable v ! s \<noteq> EMPTY_SLOT" for s
    using fill that by (auto simp: filling_def table_ok_def)
  show ?thesis
  proof (cases "x = EMPTY_SLOT")
    case False
    have "x < k \<and> first_id ps (ps ! x) = Some x" using stored S False by (auto simp: x_def)
    moreover have "ps ! x = t"
      using stop False calculation kl by (auto simp: probe_stop_def piece x_def split: if_splits)
    ultimately show ?thesis using False by simp
  next
    case True
    have "ps ! i \<noteq> t" if "i < k" for i
    proof
      assume "ps ! i = t"
      then have "first_id ps t \<noteq> None" using \<open>i < k\<close> kl t by (auto simp: first_id_None)
      then obtain j where j: "first_id ps t = Some j" by blast
      then have jt: "ps ! j = t" "j \<le> i" "j < length ps"
        using \<open>ps ! i = t\<close> by (auto simp: first_id_Some not_less [symmetric])
      then obtain c where c: "vtable v ! ((hash_bytes t + c) mod ?S) = j"
        "\<forall>e < c. vtable v ! ((hash_bytes t + e) mod ?S) \<notin> {EMPTY_SLOT, j}"
        using fill j \<open>i < k\<close> unfolding filling_def table_ok_def
        by (metis order_le_less_trans)
      have "probe_stop v t ((hash_bytes t + c) mod ?S)"
        using c(1) jt by (simp add: probe_stop_def piece)
      then have "d \<le> c" using before not_le by blast
      moreover have "c \<noteq> d" using True c(1) jt kl by (auto simp: x_def)
      ultimately have "d < c" by simp
      then show False using c(2) True by (auto simp: x_def)
    qed
    then show ?thesis using True by simp
  qed
qed

section \<open>Insertion\<close>

lemma filling_probe:
  assumes "filling ps types k v"
  obtains d where "probe_stop v t ((hash_bytes t + d) mod length (vtable v))"
    "\<And>e. e < d \<Longrightarrow> \<not> probe_stop v t ((hash_bytes t + e) mod length (vtable v))"
proof -
  obtain m where m: "length (vtable v) = 2 ^ m" using assms by (auto simp: filling_def)
  obtain s where "s < length (vtable v)" "vtable v ! s = EMPTY_SLOT"
    using filling_free_slot [OF assms] .
  then show ?thesis using probe_stops [of s m v t "hash_bytes t"] that by (auto simp: m)
qed

lemma filling_find:
  assumes "filling ps types k v" "t \<noteq> []" "k = length ps"
  shows "vocab_lookup v t = Some (first_id ps t)"
proof -
  obtain m where m: "length (vtable v) = 2 ^ m" using assms(1) by (auto simp: filling_def)
  obtain d where d: "probe_stop v t ((hash_bytes t + d) mod length (vtable v))"
    "\<And>e. e < d \<Longrightarrow> \<not> probe_stop v t ((hash_bytes t + e) mod length (vtable v))"
    using filling_probe [OF assms(1), where t = t] by blast
  let ?s = "(hash_bytes t + d) mod length (vtable v)"
  have "vocab_lookup v t = table_find v t ?s"
    using find_reaches [OF m, of d t "hash_bytes t"] d assms(2)
    by (simp add: vocab_lookup_def m and_mask_mod)
  moreover have "table_find v t ?s = Some (if vtable v ! ?s = EMPTY_SLOT then None else Some (vtable v ! ?s))"
    using d(1) by (subst table_find.simps) (auto simp: probe_stop_def Let_def)
  moreover have "first_id ps t = None" if "vtable v ! ?s = EMPTY_SLOT"
    using filling_stop [OF assms(1) d assms(2)] that assms(3)
    by (auto simp: first_id_None in_set_conv_nth)
  ultimately show ?thesis
    using filling_stop [OF assms(1) d assms(2)] by (auto split: if_splits)
qed

lemma table_ok_keep:
  assumes "table_ok ps tab k" "first_id ps (ps ! k) \<noteq> Some k"
  shows "table_ok ps tab (Suc k)"
proof -
  have "\<exists>d. tab ! ((hash_bytes (ps ! i) + d) mod length tab) = i \<and>
      (\<forall>e < d. tab ! ((hash_bytes (ps ! i) + e) mod length tab) \<notin> {EMPTY_SLOT, i})"
    if "i < Suc k" "first_id ps (ps ! i) = Some i" for i
    using assms that unfolding table_ok_def by (metis less_Suc_eq)
  then show ?thesis using assms(1) unfolding table_ok_def by (auto simp: less_Suc_eq)
qed

lemma table_ok_put:
  assumes ok: "table_ok ps tab k" and first: "first_id ps (ps ! k) = Some k"
    and k: "k < EMPTY_SLOT" and len: "0 < length tab"
    and free: "tab ! ((hash_bytes (ps ! k) + d) mod length tab) = EMPTY_SLOT"
    and path: "\<And>e. e < d \<Longrightarrow> tab ! ((hash_bytes (ps ! k) + e) mod length tab) \<noteq> EMPTY_SLOT"
  shows "table_ok ps (tab[(hash_bytes (ps ! k) + d) mod length tab := k]) (Suc k)"
proof -
  let ?s = "(hash_bytes (ps ! k) + d) mod length tab"
  have s: "?s < length tab" using len by simp
  have stored: "tab ! r < k \<and> first_id ps (ps ! (tab ! r)) = Some (tab ! r)"
    if "r < length tab" "tab ! r \<noteq> EMPTY_SLOT" for r
    using ok that by (auto simp: table_ok_def)
  have upd: "tab[?s := k] ! r = (if r = ?s then k else tab ! r)" if "r < length tab" for r
    using that s by (simp add: nth_list_update)
  have reach: "\<exists>d. tab[?s := k] ! ((hash_bytes (ps ! i) + d) mod length tab) = i \<and>
      (\<forall>e < d. tab[?s := k] ! ((hash_bytes (ps ! i) + e) mod length tab) \<notin> {EMPTY_SLOT, i})"
    if i: "i < Suc k" "first_id ps (ps ! i) = Some i" for i
  proof (cases "i = k")
    case True
    have "tab[?s := k] ! ((hash_bytes (ps ! k) + e) mod length tab) \<notin> {EMPTY_SLOT, k}" if "e < d" for e
    proof -
      let ?r = "(hash_bytes (ps ! k) + e) mod length tab"
      have "?r < length tab" "?r \<noteq> ?s" "tab ! ?r \<noteq> EMPTY_SLOT"
        using len path [OF that] free by auto
      then show ?thesis using stored [of ?r] by (simp add: upd)
    qed
    then show ?thesis using True s by (intro exI [of _ d]) (simp add: upd)
  next
    case False
    then have "i < k" using i(1) by simp
    then obtain c where c: "tab ! ((hash_bytes (ps ! i) + c) mod length tab) = i"
      "\<forall>e < c. tab ! ((hash_bytes (ps ! i) + e) mod length tab) \<notin> {EMPTY_SLOT, i}"
      using ok i(2) unfolding table_ok_def by blast
    have "(hash_bytes (ps ! i) + c) mod length tab \<noteq> ?s"
      using c(1) free \<open>i < k\<close> k by auto
    moreover have "\<forall>e < c. (hash_bytes (ps ! i) + e) mod length tab \<noteq> ?s"
      using c(2) free by auto
    ultimately show ?thesis using c len by (intro exI [of _ c]) (simp add: upd)
  qed
  have "{r. r < length tab \<and> tab[?s := k] ! r \<noteq> EMPTY_SLOT}
      \<subseteq> insert ?s {r. r < length tab \<and> tab ! r \<noteq> EMPTY_SLOT}"
    using upd by auto
  then have "card {r. r < length tab \<and> tab[?s := k] ! r \<noteq> EMPTY_SLOT}
      \<le> card (insert ?s {r. r < length tab \<and> tab ! r \<noteq> EMPTY_SLOT})"
    by (intro card_mono) auto
  also have "\<dots> \<le> Suc (card {r. r < length tab \<and> tab ! r \<noteq> EMPTY_SLOT})"
    by (rule card_insert_le_m1) auto
  also have "\<dots> \<le> Suc k" using ok by (auto simp: table_ok_def)
  finally have card: "card {r. r < length tab \<and> tab[?s := k] ! r \<noteq> EMPTY_SLOT} \<le> Suc k" .
  have "tab[?s := k] ! r < Suc k \<and> first_id ps (ps ! (tab[?s := k] ! r)) = Some (tab[?s := k] ! r)"
    if "r < length tab" "tab[?s := k] ! r \<noteq> EMPTY_SLOT" for r
    using that stored [of r] first by (auto simp: upd less_Suc_eq)
  then show ?thesis using reach card unfolding table_ok_def by simp
qed

lemma filling_insert:
  assumes fill: "filling ps types k v" and k: "k < length ps" and piece: "ps ! k \<noteq> []"
  obtains v' where
    "table_insert v k (ps ! k) (hash_bytes (ps ! k) AND (length (vtable v) - 1)) = Some v'"
    "filling ps types (Suc k) v'"
proof -
  let ?t = "ps ! k"
  obtain m where m: "length (vtable v) = 2 ^ m" using fill by (auto simp: filling_def)
  have kE: "k < EMPTY_SLOT" using fill k by (auto simp: filling_def)
  obtain d where d: "probe_stop v ?t ((hash_bytes ?t + d) mod length (vtable v))"
    "\<And>e. e < d \<Longrightarrow> \<not> probe_stop v ?t ((hash_bytes ?t + e) mod length (vtable v))"
    using filling_probe [OF fill, where t = ?t] by blast
  let ?s = "(hash_bytes ?t + d) mod length (vtable v)"
  have ins: "table_insert v k ?t (hash_bytes ?t AND (length (vtable v) - 1)) = table_insert v k ?t ?s"
    using insert_reaches [OF m, of d ?t "hash_bytes ?t"] d by (simp add: m and_mask_mod)
  note at_stop = filling_stop [OF fill d piece]
  show ?thesis
  proof (cases "vtable v ! ?s = EMPTY_SLOT")
    case True
    have "table_insert v k ?t ?s = Some (v\<lparr>vtable := (vtable v)[?s := k]\<rparr>)"
      using True by (subst table_insert.simps) simp
    moreover have "first_id ps ?t = Some k" using at_stop True piece k by (auto simp: first_id_Some)
    then have "table_ok ps ((vtable v)[?s := k]) (Suc k)"
      using fill True d(2) kE
      by (intro table_ok_put) (auto simp: filling_def probe_stop_def)
    then have "filling ps types (Suc k) (v\<lparr>vtable := (vtable v)[?s := k]\<rparr>)"
      using fill k by (auto simp: filling_def arena_def)
    ultimately show ?thesis using that ins by simp
  next
    case False
    have "table_insert v k ?t ?s = Some v"
      using False d(1) by (subst table_insert.simps) (simp add: probe_stop_def)
    moreover have "first_id ps ?t \<noteq> Some k" using at_stop False by auto
    then have "filling ps types (Suc k) v"
      using fill k by (auto simp: filling_def intro: table_ok_keep)
    ultimately show ?thesis using that ins by simp
  qed
qed

lemma filling_skip:
  "filling ps types k v \<Longrightarrow> k < length ps \<Longrightarrow> ps ! k = [] \<Longrightarrow> filling ps types (Suc k) v"
  by (auto simp: filling_def first_id_def intro: table_ok_keep)

lemma filling_piece:
  "filling ps types k v \<Longrightarrow> vocab_piece v i = (if i < length ps then ps ! i else [])"
  by (intro piece_of_arena) (auto simp: filling_def)

lemma insert_ids_fills:
  "filling ps types k v \<Longrightarrow> \<exists>v'. insert_ids [k..<length ps] v = Some v' \<and> filling ps types (length ps) v'"
proof (induction "length ps - k" arbitrary: k v)
  case 0
  then have "k = length ps" by (simp add: filling_def)
  with 0 show ?case by simp
next
  case (Suc n)
  then have k: "k < length ps" by simp
  then have up: "[k..<length ps] = k # [Suc k..<length ps]" by (simp add: upt_conv_Cons)
  have n: "n = length ps - Suc k" using Suc.hyps(2) by simp
  show ?case
  proof (cases "ps ! k = []")
    case True
    then show ?thesis
      using Suc.hyps(1) [OF n filling_skip [OF Suc.prems k True]] filling_piece [OF Suc.prems, of k] k
      by (simp add: up)
  next
    case False
    obtain v' where "table_insert v k (ps ! k) (hash_bytes (ps ! k) AND (length (vtable v) - 1)) = Some v'"
      "filling ps types (Suc k) v'"
      using filling_insert [OF Suc.prems k False] .
    then show ?thesis
      using Suc.hyps(1) [OF n] filling_piece [OF Suc.prems, of k] k False
      by (simp add: up Let_def)
  qed
qed

lemma next_power_of_two_ge: "0 < n \<Longrightarrow> n \<le> next_power_of_two n"
  using bit_length_bounds [of "n - 1"] by (auto simp: next_power_of_two_def)

lemma filling_start:
  assumes "length ps = length types" "length ps < EMPTY_SLOT" "\<forall>p \<in> set ps. str_start p"
  shows "filling ps types 0 (vocab_start ps types)"
proof -
  let ?n = "max (next_power_of_two (length ps * 2 + 2)) 8"
  have "\<exists>m. ?n = 2 ^ m"
  proof (cases "next_power_of_two (length ps * 2 + 2) \<le> 8")
    case True
    then have "?n = 2 ^ 3" by simp
    then show ?thesis by blast
  qed (auto simp: next_power_of_two_def max_def)
  moreover have "length ps < ?n" using next_power_of_two_ge [of "length ps * 2 + 2"] by simp
  moreover have "table_ok ps (replicate ?n EMPTY_SLOT) 0"
    by (auto simp: table_ok_def)
  moreover have "next_power_of_two (length (piece_offsets 0 ps) * 2) = next_power_of_two (length ps * 2 + 2)"
    by simp
  ultimately show ?thesis
    using assms by (simp add: filling_def vocab_start_def arena_def Let_def)
qed

section \<open>Built vocabularies\<close>

definition vocab_built :: "bytes list \<Rightarrow> int list \<Rightarrow> vocab \<Rightarrow> bool" where
  "vocab_built ps types v \<longleftrightarrow>
     filling ps types (length ps) v \<and>
     (\<forall>b < 256. vocab_byte_token v b = first_id ps (byte_text b))"

lemma byte_text_nonempty [simp]: "byte_text b \<noteq> []"
  by (simp add: byte_text_def)

lemma fill_byte_ids_fills:
  assumes "filling ps types (length ps) v" "n \<le> 256"
    "\<forall>b < n. vbyte_ids v ! b = first_id ps (byte_text b)"
  shows "\<exists>v'. fill_byte_ids [n..<256] v = Some v' \<and> vocab_built ps types v'"
  using assms
proof (induction "256 - n" arbitrary: n v)
  case 0
  then show ?case by (simp add: vocab_built_def vocab_byte_token_def)
next
  case (Suc m)
  then have n: "n < 256" and m: "m = 256 - Suc n" by auto
  let ?v = "v\<lparr>vbyte_ids := (vbyte_ids v)[n := first_id ps (byte_text n)]\<rparr>"
  have "length (vbyte_ids v) = 256" using Suc.prems(1) by (simp add: filling_def)
  then have "\<forall>b < Suc n. vbyte_ids ?v ! b = first_id ps (byte_text b)"
    using Suc.prems(3) n by (auto simp: nth_list_update less_Suc_eq)
  moreover have "filling ps types (length ps) ?v"
    using Suc.prems(1) by (simp add: filling_def arena_def)
  ultimately obtain v' where "fill_byte_ids [Suc n..<256] ?v = Some v'" "vocab_built ps types v'"
    using Suc.hyps(1) [OF m, of ?v] n by auto
  then show ?case
    using n filling_find [OF Suc.prems(1) byte_text_nonempty refl] by (simp add: upt_conv_Cons)
qed

lemma vocab_new_builds:
  assumes "\<forall>p \<in> set ps. str_start p" "length ps = length types"
    "sum_list (map length ps) \<le> u32_max" "length ps < EMPTY_SLOT"
  shows "\<exists>v. vocab_new ps types = Some (Inr v) \<and> vocab_built ps types v"
proof -
  obtain v where v: "insert_ids [0..<length ps] (vocab_start ps types) = Some v"
    "filling ps types (length ps) v"
    using insert_ids_fills [OF filling_start [OF assms(2,4,1)]] by blast
  obtain v' where "fill_byte_ids [0..<256] v = Some v'" "vocab_built ps types v'"
    using fill_byte_ids_fills [OF v(2), of 0] by auto
  with v(1) assms show ?thesis by (simp add: vocab_new_def Let_def)
qed

lemma vocab_new_Inr:
  assumes "vocab_new ps types = Some (Inr v)" "\<forall>p \<in> set ps. str_start p"
  shows "vocab_built ps types v" "length ps = length types"
proof -
  have ok: "length ps = length types" "sum_list (map length ps) \<le> u32_max" "length ps < EMPTY_SLOT"
    using assms(1) by (auto simp: vocab_new_def Let_def not_less not_le split: if_splits)
  then show "length ps = length types" by simp
  from vocab_new_builds [OF assms(2) ok] assms(1) show "vocab_built ps types v" by auto
qed

lemma built_lookup: "vocab_built ps types v \<Longrightarrow> vocab_lookup v t = Some (first_id ps t)"
  by (cases "t = []") (auto simp: vocab_lookup_def first_id_def vocab_built_def
      dest: filling_find [where t = t])

lemma built_get: "vocab_built ps types v \<Longrightarrow> vocab_get v t = first_id ps t"
  by (simp add: vocab_get_def built_lookup)

lemma built_piece: "vocab_built ps types v \<Longrightarrow> vocab_piece v i = (if i < length ps then ps ! i else [])"
  by (auto simp: vocab_built_def filling_piece)

lemma get_Some_piece: "vocab_built ps types v \<Longrightarrow> vocab_get v t = Some i \<Longrightarrow> vocab_piece v i = t \<and> i < length ps"
  by (auto simp: built_get built_piece first_id_Some)

lemma built_small: "vocab_built ps types v \<Longrightarrow> length ps < 2 ^ 32"
  by (simp add: vocab_built_def filling_def EMPTY_SLOT_def)

text \<open>
C31: \<open>Vocab::new\<close> always ends, with an error exactly when the counts differ or the pieces do not fit
  32-bit ids and offsets; in the vocabulary it builds every lookup ends too (the probe loop never
  runs round a full table) and finds the first id with the text, every id keeps its piece, and the
  byte tokens are the first ids of the texts \<open><0xHH>\<close>.
\<close>

theorem vocabulary_finds_first_ids:
  "let ps = map utf8_bytes texts in
   case vocab_new ps types of
     None \<Rightarrow> False
   | Some (Inl e) \<Rightarrow>
       length ps \<noteq> length types \<or> sum_list (map length ps) > u32_max \<or> length ps \<ge> EMPTY_SLOT
   | Some (Inr v) \<Rightarrow>
       (\<forall>t. vocab_lookup v t = Some (if t = [] then None else position (\<lambda>p. p = t) ps)) \<and>
       (\<forall>i. vocab_piece v i = (if i < length ps then ps ! i else [])) \<and>
       (\<forall>b < 256. vocab_byte_token v b = position (\<lambda>p. p = byte_text b) ps)"
proof -
  let ?ps = "map utf8_bytes texts"
  have starts: "\<forall>p \<in> set ?ps. str_start p" by (auto simp: str_start_utf8)
  show ?thesis
  proof (cases "length ?ps = length types \<and> sum_list (map length ?ps) \<le> u32_max \<and> length ?ps < EMPTY_SLOT")
    case True
    then obtain v where v: "vocab_new ?ps types = Some (Inr v)" "vocab_built ?ps types v"
      using vocab_new_builds [OF starts] by blast
    have "\<forall>b < 256. vocab_byte_token v b = position (\<lambda>p. p = byte_text b) ?ps"
      using v(2) by (simp add: vocab_built_def first_id_def)
    then show ?thesis
      using v(1) built_lookup [OF v(2)] built_piece [OF v(2)] by (simp add: first_id_def Let_def)
  next
    case False
    then show ?thesis by (auto simp: vocab_new_def Let_def)
  qed
qed

theorem vocabulary_finds_first_ids_witness:
  "\<exists>v. vocab_new (map utf8_bytes [[97], [98], [97]]) [1, 1, 1] = Some (Inr v) \<and>
     vocab_lookup v [97] = Some (Some 0) \<and> vocab_lookup v [98] = Some (Some 1) \<and>
     vocab_lookup v [99] = Some None \<and> vocab_byte_token v 7 = None"
  using vocabulary_finds_first_ids [of "[[97], [98], [97]]" "[1, 1, 1]"]
  by (auto simp: utf8_bytes_def encode_char_def u32_max_def EMPTY_SLOT_def Let_def byte_text_def
      split: option.splits sum.splits)

end
