(* ===== verification/Merge_Queue.thy ===== *)
theory Merge_Queue
  imports Prelude "HOL-Library.Product_Lexorder"
begin

text \<open>
  What the two merging tokenizers share. Both keep the symbols of a word in a doubly linked list
  over vector indices and take the next merge from a \<open>BinaryHeap\<close> of candidate pairs, some of them
  stale. This theory holds the model of the heap, the reference the optimised loops are compared
  with (merge the leftmost of the best adjacent pairs until none is left), and the facts about
  linked lists and candidate heaps that both comparisons rest on.
\<close>

section \<open>The heap\<close>

text \<open>
  \<open>BinaryHeap\<close> as the bag of its elements: \<open>pop\<close> takes one that is greatest in the order of the
  elements, here one whose key is least. Elements of equal key are equal for the rank-based
  merger and interchangeable for the score-based one.
\<close>

definition heap_push :: "'a \<Rightarrow> 'a list \<Rightarrow> 'a list" where
  "heap_push x h = x # h"

definition heap_pop :: "('a \<Rightarrow> 'k :: linorder) \<Rightarrow> 'a list \<Rightarrow> ('a \<times> 'a list) option" where
  "heap_pop key h = (case min_by_key key h of None \<Rightarrow> None | Some x \<Rightarrow> Some (x, remove1 x h))"

locale min_heap =
  fixes push :: "'a \<Rightarrow> 'h \<Rightarrow> 'h"
    and pop :: "'h \<Rightarrow> ('a \<times> 'h) option"
    and elems :: "'h \<Rightarrow> 'a multiset"
    and key :: "'a \<Rightarrow> 'k :: linorder"
  assumes push: "elems (push x h) = add_mset x (elems h)"
    and pop_None: "pop h = None \<longleftrightarrow> elems h = {#}"
    and pop_Some: "pop h = Some (x, h') \<Longrightarrow> elems h = add_mset x (elems h') \<and> (\<forall>y \<in># elems h. key x \<le> key y)"
begin

lemma pop_size: "pop h = Some (x, h') \<Longrightarrow> size (elems h) = Suc (size (elems h'))"
  using pop_Some by fastforce

lemma pop_subset: "pop h = Some (x, h') \<Longrightarrow> set_mset (elems h') \<subseteq> set_mset (elems h)"
  using pop_Some by fastforce

lemma pop_in: "pop h = Some (x, h') \<Longrightarrow> x \<in># elems h"
  using pop_Some by fastforce

lemma pop_cases: "pop h = Some (x, h') \<Longrightarrow> y \<in># elems h \<Longrightarrow> y = x \<or> y \<in># elems h'"
  using pop_Some by fastforce

end

lemma min_from_least: "min_from f a xs \<in> set (a # xs) \<and> (\<forall>y \<in> set (a # xs). f (min_from f a xs) \<le> f y)"
proof (induction xs arbitrary: a)
  case (Cons x xs)
  show ?case using Cons [of "if f x < f a then x else a"] by (auto split: if_splits)
qed simp

lemma min_by_key_least:
  "min_by_key f xs = Some x \<Longrightarrow> x \<in> set xs \<and> (\<forall>y \<in> set xs. f x \<le> f y)"
  using min_from_least [of f "hd xs" "tl xs"] by (cases xs) (auto simp: min_by_key_def)

interpretation bh: min_heap heap_push "heap_pop key" mset key for key
proof
  fix x :: 'a and h h' :: "'a list"
  show "mset (heap_push x h) = add_mset x (mset h)" by (simp add: heap_push_def)
  show "heap_pop key h = None \<longleftrightarrow> mset h = {#}"
    by (auto simp: heap_pop_def min_by_key_def split: option.splits list.splits)
  assume "heap_pop key h = Some (x, h')"
  then show "mset h = add_mset x (mset h') \<and> (\<forall>y \<in># mset h. key x \<le> key y)"
    using min_by_key_least [of key h x] by (auto simp: heap_pop_def split: option.splits)
qed

section \<open>The reference\<close>

text \<open>
  \<open>cand x y\<close> is the merge of the neighbours \<open>x\<close> and \<open>y\<close>, if there is one: its key (the smaller the
  better) and the merged symbol.
\<close>

fun merge_cands :: "('c \<Rightarrow> 'c \<Rightarrow> ('k \<times> 'c) option) \<Rightarrow> nat \<Rightarrow> 'c list \<Rightarrow> ('k \<times> nat \<times> 'c) list" where
  "merge_cands cand i (x # y # zs) =
     (case cand x y of None \<Rightarrow> [] | Some (k, m) \<Rightarrow> [(k, i, m)]) @ merge_cands cand (Suc i) (y # zs)"
| "merge_cands cand i _ = []"

definition best_merge :: "('c \<Rightarrow> 'c \<Rightarrow> ('k :: linorder \<times> 'c) option) \<Rightarrow> 'c list \<Rightarrow> ('k \<times> nat \<times> 'c) option" where
  "best_merge cand cs = min_by_key fst (merge_cands cand 0 cs)"

definition merge_at :: "nat \<Rightarrow> 'c \<Rightarrow> 'c list \<Rightarrow> 'c list" where
  "merge_at i m cs = take i cs @ m # drop (i + 2) cs"

lemma merge_cands_iff:
  "(k, i, m) \<in> set (merge_cands cand a cs) \<longleftrightarrow>
     (\<exists>j. i = a + j \<and> Suc j < length cs \<and> cand (cs ! j) (cs ! Suc j) = Some (k, m))"
proof (induction cand a cs rule: merge_cands.induct)
  case (1 cand a x y zs)
  have "(\<exists>j. i = a + j \<and> Suc j < length (x # y # zs) \<and> cand ((x # y # zs) ! j) ((x # y # zs) ! Suc j) = Some (k, m))
    \<longleftrightarrow> i = a \<and> cand x y = Some (k, m) \<or>
       (\<exists>j. i = Suc a + j \<and> Suc j < length (y # zs) \<and> cand ((y # zs) ! j) ((y # zs) ! Suc j) = Some (k, m))"
    (is "?L \<longleftrightarrow> ?R")
  proof
    assume ?L
    then obtain j where j: "i = a + j" "Suc j < length (x # y # zs)"
      "cand ((x # y # zs) ! j) ((x # y # zs) ! Suc j) = Some (k, m)" by blast
    then show ?R by (cases j) auto
  qed force
  then show ?case using "1.IH" by (auto split: option.splits)
qed auto

lemma best_merge_in:
  "best_merge cand cs = Some (k, i, m) \<Longrightarrow> Suc i < length cs \<and> cand (cs ! i) (cs ! Suc i) = Some (k, m)"
  unfolding best_merge_def by (drule min_by_key_least) (auto simp: merge_cands_iff)

function merge_all :: "('c \<Rightarrow> 'c \<Rightarrow> ('k :: linorder \<times> 'c) option) \<Rightarrow> 'c list \<Rightarrow> 'c list" where
  "merge_all cand cs =
     (case best_merge cand cs of None \<Rightarrow> cs | Some (k, i, m) \<Rightarrow> merge_all cand (merge_at i m cs))"
  by pat_completeness auto
termination
  by (relation "measure (\<lambda>(cand, cs). length cs)") (auto simp: merge_at_def dest: best_merge_in)

declare merge_all.simps [simp del]

text \<open>The best pair is the leftmost of those with the least key.\<close>

lemma min_from_leftmost:
  "sorted_wrt (\<lambda>x y. (g x :: nat) < g y) (a # xs) \<Longrightarrow>
     \<forall>y \<in> set (a # xs). f (min_from f a xs) < f y \<or>
       f (min_from f a xs) = f y \<and> g (min_from f a xs) \<le> g y"
proof (induction xs arbitrary: a)
  case (Cons x xs)
  let ?b = "if f x < f a then x else a"
  let ?r = "min_from f ?b xs"
  have "sorted_wrt (\<lambda>x y. g x < g y) (?b # xs)" using Cons.prems by auto
  from Cons.IH [OF this] have IH: "\<forall>y \<in> set (?b # xs). f ?r < f y \<or> f ?r = f y \<and> g ?r \<le> g y" .
  have "g a < g x" using Cons.prems by simp
  with IH have "\<forall>y \<in> {a, x}. f ?r < f y \<or> f ?r = f y \<and> g ?r \<le> g y"
    by (auto split: if_splits)
  with IH show ?case by (auto split: if_splits)
qed simp

lemma merge_cands_sorted: "sorted_wrt (\<lambda>x y. fst (snd x) < fst (snd y)) (merge_cands cand a cs)"
  by (induction cand a cs rule: merge_cands.induct)
    (auto simp: merge_cands_iff split: option.splits)

lemma best_mergeI:
  assumes "Suc i < length cs" "cand (cs ! i) (cs ! Suc i) = Some (k, m)"
    and least: "\<And>j k' m'. Suc j < length cs \<Longrightarrow> cand (cs ! j) (cs ! Suc j) = Some (k', m') \<Longrightarrow> (k, i) \<le> (k', j)"
  shows "best_merge cand cs = Some (k, i, m)"
proof -
  let ?ms = "merge_cands cand 0 cs"
  have mem: "(k, i, m) \<in> set ?ms" using assms(1,2) by (auto simp: merge_cands_iff)
  then obtain a xs where ms: "?ms = a # xs" by (cases ?ms) auto
  obtain k' j m' where r: "min_from fst a xs = (k', j, m')" by (metis surj_pair)
  have "(k', j, m') \<in> set ?ms" using min_from_least [of fst a xs] r ms by auto
  then have j: "Suc j < length cs" "cand (cs ! j) (cs ! Suc j) = Some (k', m')"
    by (auto simp: merge_cands_iff)
  have "k' < k \<or> k' = k \<and> j \<le> i"
    using min_from_leftmost [of "\<lambda>x. fst (snd x)" a xs fst] merge_cands_sorted [of cand 0 cs] mem
    by (auto simp: ms r)
  with least [OF j] have "k' = k" "j = i" by auto
  with j assms(2) show ?thesis by (simp add: best_merge_def min_by_key_def ms r)
qed

lemma best_merge_None:
  "best_merge cand cs = None \<longleftrightarrow> (\<forall>j. Suc j < length cs \<longrightarrow> cand (cs ! j) (cs ! Suc j) = None)"
proof -
  have "merge_cands cand 0 cs = [] \<longleftrightarrow> (\<forall>k i m. (k, i, m) \<notin> set (merge_cands cand 0 cs))"
    by (cases "merge_cands cand 0 cs") auto
  moreover have "cand x y = None \<longleftrightarrow> (\<forall>k m. cand x y \<noteq> Some (k, m))" for x y
    by (cases "cand x y") auto
  ultimately show ?thesis by (auto simp: best_merge_def min_by_key_None merge_cands_iff)
qed

section \<open>Linked lists over vector indices\<close>

text \<open>
  \<open>USIZE_NONE\<close> is the code's sentinel \<open>NONE\<close>. The live indices \<open>is\<close> of a list whose links are
  \<open>nxt\<close> and \<open>prv\<close>, from its head on.
\<close>

definition USIZE_NONE :: nat where "USIZE_NONE = u64_max"

definition linked :: "(nat \<Rightarrow> nat) \<Rightarrow> (nat \<Rightarrow> nat) \<Rightarrow> nat list \<Rightarrow> bool" where
  "linked nxt prv is \<longleftrightarrow>
     sorted_wrt (<) is \<and> (\<forall>i \<in> set is. i < USIZE_NONE) \<and>
     (\<forall>j < length is. nxt (is ! j) = (if Suc j < length is then is ! Suc j else USIZE_NONE)) \<and>
     (\<forall>j < length is. prv (is ! j) = (if j = 0 then USIZE_NONE else is ! (j - 1)))"

lemma linked_lt: "linked nxt prv is \<Longrightarrow> i \<in> set is \<Longrightarrow> i < USIZE_NONE"
  by (simp add: linked_def)

lemma linked_distinct: "linked nxt prv is \<Longrightarrow> distinct is"
  by (simp add: linked_def strict_sorted_iff)

lemma linked_less: "linked nxt prv is \<Longrightarrow> i < j \<Longrightarrow> j < length is \<Longrightarrow> is ! i < is ! j"
  by (simp add: linked_def sorted_wrt_nth_less)

lemma linked_less_iff:
  "linked nxt prv is \<Longrightarrow> i < length is \<Longrightarrow> j < length is \<Longrightarrow> is ! i < is ! j \<longleftrightarrow> i < j"
  by (metis linked_less not_less_iff_gr_or_eq)

lemma linked_next:
  "linked nxt prv is \<Longrightarrow> j < length is \<Longrightarrow>
     nxt (is ! j) = (if Suc j < length is then is ! Suc j else USIZE_NONE)"
  by (simp add: linked_def)

lemma linked_prev:
  "linked nxt prv is \<Longrightarrow> j < length is \<Longrightarrow> prv (is ! j) = (if j = 0 then USIZE_NONE else is ! (j - 1))"
  by (simp add: linked_def)

lemma linked_not_none: "linked nxt prv is \<Longrightarrow> j < length is \<Longrightarrow> is ! j \<noteq> USIZE_NONE"
  using linked_lt [of nxt prv "is" "is ! j"] by auto

lemma linked_next_index:
  assumes "linked nxt prv is" "i \<in> set is" "nxt i = r" "r \<noteq> USIZE_NONE"
  obtains j where "Suc j < length is" "is ! j = i" "is ! Suc j = r"
  using assms linked_next [OF assms(1)] by (metis in_set_conv_nth)

text \<open>Unlinking the right one of two neighbours.\<close>

definition unlink_at :: "nat \<Rightarrow> 'a list \<Rightarrow> 'a list" where
  "unlink_at j xs = take (Suc j) xs @ drop (j + 2) xs"

lemma length_unlink_at [simp]: "Suc j < length xs \<Longrightarrow> length (unlink_at j xs) = length xs - 1"
  by (simp add: unlink_at_def)

lemma nth_unlink_at:
  "Suc j < length xs \<Longrightarrow> i < length xs - 1 \<Longrightarrow> unlink_at j xs ! i = (if i \<le> j then xs ! i else xs ! Suc i)"
  by (auto simp: unlink_at_def nth_append min_def)

lemma set_unlink_at:
  assumes "Suc j < length xs" "distinct xs"
  shows "set (unlink_at j xs) = set xs - {xs ! Suc j}"
proof -
  have "xs = take (Suc j) xs @ xs ! Suc j # drop (j + 2) xs"
    using assms(1) by (simp add: Cons_nth_drop_Suc)
  with assms(2) show ?thesis
    by (metis (no_types, lifting) Diff_insert_absorb Un_insert_right distinct_append distinct.simps(2)
        list.simps(15) not_distinct_conv_prefix set_append unlink_at_def disjoint_insert(2) Un_iff)
qed

lemma linked_unlink:
  assumes lk: "linked nxt prv is" and j: "Suc j < length is"
    and n1: "nxt' (is ! j) = nxt (is ! Suc j)"
    and n2: "\<And>i. i \<in> set is \<Longrightarrow> i \<noteq> is ! j \<Longrightarrow> nxt' i = nxt i"
    and p1: "j + 2 < length is \<Longrightarrow> prv' (is ! (j + 2)) = is ! j"
    and p2: "\<And>i. i \<in> set is \<Longrightarrow> (j + 2 < length is \<Longrightarrow> i \<noteq> is ! (j + 2)) \<Longrightarrow> prv' i = prv i"
  shows "linked nxt' prv' (unlink_at j is)"
proof -
  let ?us = "unlink_at j is"
  have d: "distinct is" by (rule linked_distinct [OF lk])
  have len: "length ?us = length is - 1" using j by simp
  have eq: "is ! a = is ! b \<longleftrightarrow> a = b" if "a < length is" "b < length is" for a b
    using d that by (simp add: nth_eq_iff_index_eq)
  have "nxt' (?us ! i) = (if Suc i < length ?us then ?us ! Suc i else USIZE_NONE)" if i: "i < length ?us" for i
  proof -
    consider "i < j" | "i = j" | "j < i" by linarith
    then show ?thesis
    proof cases
      case 1
      moreover have "Suc i < length is - 1" using 1 j by simp
      ultimately show ?thesis
        using i j n2 [of "is ! i"] eq [of i j] linked_next [OF lk, of i] by (simp add: nth_unlink_at)
    next
      case 2
      then show ?thesis using i j n1 linked_next [OF lk, of "Suc j"] by (auto simp: nth_unlink_at)
    next
      case 3
      then show ?thesis
        using i j n2 [of "is ! Suc i"] eq [of "Suc i" j] linked_next [OF lk, of "Suc i"]
        by (auto simp: nth_unlink_at)
    qed
  qed
  moreover have "prv' (?us ! i) = (if i = 0 then USIZE_NONE else ?us ! (i - 1))" if i: "i < length ?us" for i
  proof -
    consider "i \<le> j" | "i = Suc j" | "Suc j < i" by linarith
    then show ?thesis
    proof cases
      case 1
      then show ?thesis
        using i j p2 [of "is ! i"] eq [of i "j + 2"] linked_prev [OF lk, of i] by (auto simp: nth_unlink_at)
    next
      case 2
      then show ?thesis using i j p1 by (auto simp: nth_unlink_at)
    next
      case 3
      then show ?thesis
        using i j p2 [of "is ! Suc i"] eq [of "Suc i" "j + 2"] linked_prev [OF lk, of "Suc i"]
        by (auto simp: nth_unlink_at)
    qed
  qed
  moreover have "sorted_wrt (<) ?us"
    unfolding sorted_wrt_iff_nth_less using lk j by (auto simp: nth_unlink_at linked_less)
  moreover have "\<forall>i \<in> set ?us. i < USIZE_NONE"
    using lk by (auto simp: unlink_at_def linked_def dest: in_set_takeD in_set_dropD)
  ultimately show ?thesis by (simp add: linked_def)
qed

section \<open>Candidate entries\<close>

text \<open>
  \<open>covered\<close>: every adjacent pair with a merge has an entry (key, left index, right index). An entry
  of least key and index that is an adjacent pair is then the reference's next merge.
\<close>

definition covered ::
  "('c \<Rightarrow> 'c \<Rightarrow> ('k \<times> 'c) option) \<Rightarrow> (nat \<Rightarrow> 'c) \<Rightarrow> nat list \<Rightarrow> ('k \<times> nat \<times> nat) set \<Rightarrow> bool" where
  "covered cand f is E \<longleftrightarrow>
     (\<forall>j k m. Suc j < length is \<longrightarrow> cand (f (is ! j)) (f (is ! Suc j)) = Some (k, m) \<longrightarrow>
        (k, is ! j, is ! Suc j) \<in> E)"

lemma covered_empty: "covered cand f is {} \<Longrightarrow> merge_all cand (map f is) = map f is"
proof -
  assume "covered cand f is {}"
  then have "cand (f (is ! j)) (f (is ! Suc j)) = None" if "Suc j < length is" for j
    using that by (cases "cand (f (is ! j)) (f (is ! Suc j))") (auto simp: covered_def)
  then have "best_merge cand (map f is) = None" by (simp add: best_merge_None)
  then show ?thesis by (simp add: merge_all.simps)
qed

lemma covered_best:
  assumes cov: "covered cand f is E" and lk: "linked nxt prv is"
    and j: "Suc j < length is" and c: "cand (f (is ! j)) (f (is ! Suc j)) = Some (k, m)"
    and least: "\<And>k' l' r'. (k', l', r') \<in> E \<Longrightarrow> (k, is ! j) \<le> (k', l')"
  shows "best_merge cand (map f is) = Some (k, j, m)"
proof (rule best_mergeI)
  fix i k' m'
  assume i: "Suc i < length (map f is)" and "cand (map f is ! i) (map f is ! Suc i) = Some (k', m')"
  then have "(k', is ! i, is ! Suc i) \<in> E" using cov by (simp add: covered_def)
  from least [OF this] show "(k, j) \<le> (k', i)"
    using linked_less_iff [OF lk, of i j] i j by (auto simp: not_less [symmetric])
qed (use j c in auto)

lemma map_unlink:
  assumes "distinct is" "Suc j < length is"
    and "f' (is ! j) = m" "\<And>i. i \<in> set is \<Longrightarrow> i \<noteq> is ! j \<Longrightarrow> i \<noteq> is ! Suc j \<Longrightarrow> f' i = f i"
  shows "map f' (unlink_at j is) = merge_at j m (map f is)"
proof (rule nth_equalityI)
  show "length (map f' (unlink_at j is)) = length (merge_at j m (map f is))"
    using assms(2) by (simp add: merge_at_def)
next
  fix i assume "i < length (map f' (unlink_at j is))"
  then have i: "i < length is - 1" using assms(2) by simp
  have eq: "is ! a = is ! b \<longleftrightarrow> a = b" if "a < length is" "b < length is" for a b
    using assms(1) that by (simp add: nth_eq_iff_index_eq)
  have rhs: "merge_at j m (map f is) ! i =
      (if i < j then f (is ! i) else if i = j then m else f (is ! Suc i))"
    using i assms(2) by (auto simp: merge_at_def nth_append nth_Cons' min_def)
  consider "i < j" | "i = j" | "j < i" by linarith
  then show "map f' (unlink_at j is) ! i = merge_at j m (map f is) ! i"
  proof cases
    case 1
    then show ?thesis using i assms(2) assms(4) [of "is ! i"] eq [of i j] eq [of i "Suc j"]
      by (simp add: rhs nth_unlink_at)
  next
    case 2
    then show ?thesis using rhs i assms(2,3) by (simp add: nth_unlink_at)
  next
    case 3
    then show ?thesis using i assms(2) assms(4) [of "is ! Suc i"] eq [of "Suc i" j] eq [of "Suc i" "Suc j"]
      by (simp add: rhs nth_unlink_at)
  qed
qed

lemma covered_unlink:
  assumes cov: "covered cand f is E" and d: "distinct is" and j: "Suc j < length is"
    and f1: "f' (is ! j) = m" and f2: "\<And>i. i \<in> set is \<Longrightarrow> i \<noteq> is ! j \<Longrightarrow> i \<noteq> is ! Suc j \<Longrightarrow> f' i = f i"
    and keep: "\<And>k l r. (k, l, r) \<in> E \<Longrightarrow> {l, r} \<inter> {is ! j, is ! Suc j} = {} \<Longrightarrow> (k, l, r) \<in> E'"
    and before: "\<And>k n. 0 < j \<Longrightarrow> cand (f (is ! (j - 1))) m = Some (k, n) \<Longrightarrow> (k, is ! (j - 1), is ! j) \<in> E'"
    and after: "\<And>k n. j + 2 < length is \<Longrightarrow> cand m (f (is ! (j + 2))) = Some (k, n) \<Longrightarrow> (k, is ! j, is ! (j + 2)) \<in> E'"
  shows "covered cand f' (unlink_at j is) E'"
  unfolding covered_def
proof (intro allI impI)
  fix i k n
  assume i: "Suc i < length (unlink_at j is)"
    and c: "cand (f' (unlink_at j is ! i)) (f' (unlink_at j is ! Suc i)) = Some (k, n)"
  have eq: "is ! a = is ! b \<longleftrightarrow> a = b" if "a < length is" "b < length is" for a b
    using d that by (simp add: nth_eq_iff_index_eq)
  have f': "f' (is ! a) = f (is ! a)" if "a < length is" "a \<noteq> j" "a \<noteq> Suc j" for a
    using that f2 [of "is ! a"] j by (simp add: eq)
  have l: "Suc i < length is - 1" using i j by simp
  consider "Suc i < j" | "Suc i = j" | "i = j" | "j < i" by linarith
  then show "(k, unlink_at j is ! i, unlink_at j is ! Suc i) \<in> E'"
  proof cases
    case 1
    then have "cand (f (is ! i)) (f (is ! Suc i)) = Some (k, n)" using c l j by (simp add: nth_unlink_at f')
    then have "(k, is ! i, is ! Suc i) \<in> E" using cov l by (auto simp: covered_def)
    then show ?thesis
      using keep [of k "is ! i" "is ! Suc i"] 1 l j eq [of i j] eq [of i "Suc j"] eq [of "Suc i" j] eq [of "Suc i" "Suc j"]
      by (simp add: nth_unlink_at)
  next
    case 2
    then show ?thesis using before [of k n] c l j f1 f' [of i] by (auto simp: nth_unlink_at)
  next
    case 3
    then show ?thesis using after [of k n] c l j f1 f' [of "j + 2"] by (simp add: nth_unlink_at)
  next
    case 4
    then have "cand (f (is ! Suc i)) (f (is ! Suc (Suc i))) = Some (k, n)"
      using c l j by (simp add: nth_unlink_at f')
    then have "(k, is ! Suc i, is ! Suc (Suc i)) \<in> E" using cov l by (auto simp: covered_def)
    then show ?thesis
      using keep [of k "is ! Suc i" "is ! Suc (Suc i)"] 4 l j eq [of "Suc i" j] eq [of "Suc i" "Suc j"]
        eq [of "Suc (Suc i)" j] eq [of "Suc (Suc i)" "Suc j"]
      by (simp add: nth_unlink_at)
  qed
qed

section \<open>What merging keeps\<close>

lemma merge_at_set:
  "Suc i < length cs \<Longrightarrow> set (merge_at i m cs) \<subseteq> insert m (set cs)"
  by (auto simp: merge_at_def dest: in_set_takeD in_set_dropD)

lemma merge_all_set:
  assumes "\<And>x y k m. P x \<Longrightarrow> P y \<Longrightarrow> cand x y = Some (k, m) \<Longrightarrow> P m"
  shows "\<forall>x \<in> set cs. P x \<Longrightarrow> \<forall>x \<in> set (merge_all cand cs). P x"
  using assms
proof (induction cand cs rule: merge_all.induct)
  case (1 cand cs)
  show ?case
  proof (cases "best_merge cand cs")
    case None
    then show ?thesis using "1.prems" by (simp add: merge_all.simps)
  next
    case (Some b)
    then obtain k i m where b: "best_merge cand cs = Some (k, i, m)" by (cases b) auto
    have i: "Suc i < length cs" "cand (cs ! i) (cs ! Suc i) = Some (k, m)"
      using best_merge_in [OF b] by auto
    have "P (cs ! i)" "P (cs ! Suc i)" using "1.prems"(1) i(1) by auto
    then have "P m" using "1.prems"(2) i(2) by blast
    then have "\<forall>x \<in> set (merge_at i m cs). P x"
      using "1.prems"(1) merge_at_set [OF i(1), of m] by auto
    then have "\<forall>x \<in> set (merge_all cand (merge_at i m cs)). P x"
      by (rule "1.IH" [OF b refl refl]) (rule "1.prems"(2))
    then show ?thesis using b by (subst merge_all.simps) simp
  qed
qed

lemma merge_all_concat:
  assumes "\<And>x y k m. cand x y = Some (k, m) \<Longrightarrow> g m = g x @ g y"
  shows "concat (map g (merge_all cand cs)) = concat (map g cs)"
  using assms
proof (induction cand cs rule: merge_all.induct)
  case (1 cand cs)
  show ?case
  proof (cases "best_merge cand cs")
    case None
    then show ?thesis by (simp add: merge_all.simps)
  next
    case (Some b)
    then obtain k i m where b: "best_merge cand cs = Some (k, i, m)" by (cases b) auto
    have i: "Suc i < length cs" "cand (cs ! i) (cs ! Suc i) = Some (k, m)"
      using best_merge_in [OF b] by auto
    have "cs = take i cs @ cs ! i # cs ! Suc i # drop (i + 2) cs"
      using i by (simp add: Cons_nth_drop_Suc Suc_lessD)
    then have "concat (map g cs) =
        concat (map g (take i cs)) @ (g (cs ! i) @ g (cs ! Suc i)) @ concat (map g (drop (i + 2) cs))"
      by (metis append.assoc concat.simps(2) concat_append list.simps(9) map_append)
    also have "\<dots> = concat (map g (merge_at i m cs))"
      using "1.prems" [OF i(2)] by (simp add: merge_at_def)
    also have "\<dots> = concat (map g (merge_all cand (merge_at i m cs)))"
      by (rule "1.IH" [OF b refl refl, symmetric]) (rule "1.prems")
    finally show ?thesis using b by (subst merge_all.simps) simp
  qed
qed

end
