(* ===== verification/Bpe.thy ===== *)
theory Bpe
  imports Vocab Merge_Queue
begin

unbundle bit_operations_syntax

text \<open>
  \<open>src/provider/local/tokenizer/bpe.rs\<close>: the merge rules, the merging of one word with a linked
  symbol list and a heap, and the GPT-2 alphabet of bytes. A word is its characters; the symbols
  address its UTF-8 bytes, as in the code. An index out of the symbol vector, which would panic, is
  \<open>None\<close>; the theorems show that it does not happen. The hasher of the rule map is left out: it
  decides where an entry lies, not what a lookup returns.
\<close>

section \<open>Merge rules\<close>

type_synonym merge_entry = "nat \<times> nat"

record merges =
  merge_table :: "64 word \<Rightarrow> merge_entry option"

definition pair_key :: "nat \<Rightarrow> nat \<Rightarrow> 64 word" where
  "pair_key left right = push_bit 32 (of_nat left) OR of_nat right"

definition merges_get :: "merges \<Rightarrow> nat \<Rightarrow> nat \<Rightarrow> merge_entry option" where
  "merges_get m left right = merge_table m (pair_key left right)"

text \<open>A text as the characters of its bytes, for the messages that quote it.\<close>

definition shown :: "bytes \<Rightarrow> string" where
  "shown s = List.map char_of s"

text \<open>The split of a rule: the first space after byte 0.\<close>

definition rule_split :: "bytes \<Rightarrow> nat option" where
  "rule_split rule = map_option (\<lambda>p. p + 1) (position (\<lambda>b. b = 32) (drop 1 rule))"

fun merges_from ::
  "vocab \<Rightarrow> bool \<Rightarrow> nat \<Rightarrow> bytes list \<Rightarrow> (64 word \<Rightarrow> merge_entry option) \<Rightarrow>
     cuca_error + (64 word \<Rightarrow> merge_entry option)" where
  "merges_from vocab strict rank [] table = Inr table"
| "merges_from vocab strict rank (rule # rules) table =
     (case rule_split rule of
        None \<Rightarrow>
          Inl (local_err (''merge rule '' @ show_nat rank @ '' is malformed: `'' @ shown rule @ ''`''))
      | Some split \<Rightarrow>
          let left = take split rule; right = drop (split + 1) rule; joined = left @ right in
          case (vocab_get vocab left, vocab_get vocab right, vocab_get vocab joined) of
            (Some left_id, Some right_id, Some merged_id) \<Rightarrow>
              let k = pair_key left_id right_id in
              merges_from vocab strict (rank + 1) rules
                (case table k of
                   None \<Rightarrow> table(k \<mapsto> (rank mod 2 ^ 32, merged_id))
                 | Some _ \<Rightarrow> table)
          | _ \<Rightarrow>
              if strict then
                Inl (local_err (''merge rule '' @ show_nat rank @
                                '' references a token outside the vocabulary''))
              else merges_from vocab strict (rank + 1) rules table)"

definition merges_new :: "vocab \<Rightarrow> bytes list \<Rightarrow> bool \<Rightarrow> cuca_error + merges" where
  "merges_new vocab rules strict =
     map_sum id (\<lambda>t. \<lparr>merge_table = t\<rparr>) (merges_from vocab strict 0 rules Map.empty)"

section \<open>Merging a word\<close>

record symbol =
  sym_id :: "nat option"
  sym_start :: nat
  sym_end :: nat
  sym_prev :: nat
  sym_next :: nat
  sym_alive :: bool

datatype unknown = ByteTokens | DropUnknown

type_synonym bpe_entry = "nat \<times> nat \<times> nat"

definition push_pair :: "merges \<Rightarrow> symbol list \<Rightarrow> nat \<Rightarrow> bpe_entry list \<Rightarrow> bpe_entry list option" where
  "push_pair m symbols left heap =
     (if left < length symbols then
        let right = sym_next (symbols ! left) in
        if right = USIZE_NONE then Some heap
        else if right < length symbols then
          (case (sym_id (symbols ! left), sym_id (symbols ! right)) of
             (Some a, Some b) \<Rightarrow>
               (case merges_get m a b of
                  Some (rank, _) \<Rightarrow> Some (heap_push (rank, left, right) heap)
                | None \<Rightarrow> Some heap)
           | _ \<Rightarrow> Some heap)
        else None
      else None)"

text \<open>The symbols of a word, one for each character.\<close>

fun push_symbols :: "vocab \<Rightarrow> nat \<Rightarrow> utext \<Rightarrow> symbol list \<Rightarrow> symbol list" where
  "push_symbols vocab start [] symbols = symbols"
| "push_symbols vocab start (c # cs) symbols =
     (let finish = start + length (encode_char c);
          index = length symbols;
          symbols = symbols @
            [\<lparr>sym_id = vocab_get vocab (encode_char c), sym_start = start, sym_end = finish,
              sym_prev = (if index = 0 then USIZE_NONE else index - 1), sym_next = USIZE_NONE,
              sym_alive = True\<rparr>];
          symbols = (if index > 0
            then symbols[index - 1 := (symbols ! (index - 1))\<lparr>sym_next := index\<rparr>]
            else symbols)
      in push_symbols vocab finish cs symbols)"

fun push_pairs :: "merges \<Rightarrow> symbol list \<Rightarrow> nat list \<Rightarrow> bpe_entry list \<Rightarrow> bpe_entry list option" where
  "push_pairs m symbols [] heap = Some heap"
| "push_pairs m symbols (left # lefts) heap =
     Option.bind (push_pair m symbols left heap) (push_pairs m symbols lefts)"

text \<open>The body of the merge loop for one popped entry.\<close>

definition merge_symbols :: "symbol list \<Rightarrow> nat \<Rightarrow> nat \<Rightarrow> nat \<Rightarrow> symbol list" where
  "merge_symbols symbols left right merged =
     (let symbols = symbols[left := (symbols ! left)\<lparr>sym_id := Some merged\<rparr>];
          symbols = symbols[left := (symbols ! left)\<lparr>sym_end := sym_end (symbols ! right)\<rparr>];
          symbols = symbols[right := (symbols ! right)\<lparr>sym_alive := False\<rparr>];
          after = sym_next (symbols ! right);
          symbols = symbols[left := (symbols ! left)\<lparr>sym_next := after\<rparr>]
      in if after \<noteq> USIZE_NONE
         then symbols[after := (symbols ! after)\<lparr>sym_prev := left\<rparr>] else symbols)"

definition bpe_apply ::
  "merges \<Rightarrow> symbol list \<Rightarrow> nat \<Rightarrow> nat \<Rightarrow> nat \<Rightarrow> bpe_entry list \<Rightarrow> (symbol list \<times> bpe_entry list) option" where
  "bpe_apply m symbols left right merged heap =
     (let after = sym_next (symbols ! right);
          symbols' = merge_symbols symbols left right merged;
          before = sym_prev (symbols' ! left)
      in if after \<noteq> USIZE_NONE \<and> \<not> after < length symbols then None
         else
           Option.bind
             (if before \<noteq> USIZE_NONE then push_pair m symbols' before heap else Some heap)
             (\<lambda>heap. map_option (\<lambda>heap. (symbols', heap)) (push_pair m symbols' left heap)))"

definition bpe_step ::
  "merges \<Rightarrow> symbol list \<Rightarrow> bpe_entry \<Rightarrow> bpe_entry list \<Rightarrow> (symbol list \<times> bpe_entry list) option" where
  "bpe_step m symbols entry heap =
     (case entry of (rank, left, right) \<Rightarrow>
        if \<not> (left < length symbols \<and> right < length symbols) then None
        else if \<not> sym_alive (symbols ! left) \<or> \<not> sym_alive (symbols ! right) \<or>
            sym_next (symbols ! left) \<noteq> right
        then Some (symbols, heap)
        else
          (case (sym_id (symbols ! left), sym_id (symbols ! right)) of
             (Some a, Some b) \<Rightarrow>
               (case merges_get m a b of
                  None \<Rightarrow> Some (symbols, heap)
                | Some (current_rank, merged) \<Rightarrow>
                    if current_rank \<noteq> rank then Some (symbols, heap)
                    else bpe_apply m symbols left right merged heap)
           | _ \<Rightarrow> Some (symbols, heap)))"

definition live_count :: "symbol list \<Rightarrow> nat" where
  "live_count symbols = length (filter sym_alive symbols)"

lemma length_merge_symbols [simp]: "length (merge_symbols s l r x) = length s"
  by (simp add: merge_symbols_def Let_def)

lemma alive_merge_symbols:
  "map sym_alive (merge_symbols s l r x) = (map sym_alive s)[r := False]"
proof -
  have keep: "(map sym_alive xs)[i := sym_alive (xs ! i)] = map sym_alive xs" for xs :: "symbol list" and i
  proof (cases "i < length xs")
    case True
    then have "sym_alive (xs ! i) = map sym_alive xs ! i" by simp
    then show ?thesis by (simp only: list_update_id)
  qed (simp add: list_update_beyond)
  have same: "map sym_alive (xs[i := (xs ! i)\<lparr>sym_id := a\<rparr>]) = map sym_alive xs"
    "map sym_alive (xs[i := (xs ! i)\<lparr>sym_end := b\<rparr>]) = map sym_alive xs"
    "map sym_alive (xs[i := (xs ! i)\<lparr>sym_next := c\<rparr>]) = map sym_alive xs"
    "map sym_alive (xs[i := (xs ! i)\<lparr>sym_prev := d\<rparr>]) = map sym_alive xs"
    "map sym_alive (xs[i := (xs ! i)\<lparr>sym_alive := False\<rparr>]) = (map sym_alive xs)[i := False]"
    for xs :: "symbol list" and i a b c d
    using keep [of xs i] by (simp_all add: map_update)
  show ?thesis
    by (simp only: merge_symbols_def Let_def if_distrib [of "map sym_alive"] same if_cancel)
qed

lemma filter_update_less:
  "i < length bs \<Longrightarrow> bs ! i \<Longrightarrow> length (filter id (bs[i := False])) < length (filter id bs)"
  by (induction bs arbitrary: i) (auto split: nat.splits)

lemma live_merge_symbols:
  assumes "r < length s" "sym_alive (s ! r)"
  shows "live_count (merge_symbols s l r x) < live_count s"
proof -
  have live: "live_count t = length (filter id (map sym_alive t))" for t
    by (simp add: live_count_def filter_map o_def)
  show ?thesis using filter_update_less [of r "map sym_alive s"] assms
    by (simp only: live alive_merge_symbols length_map nth_map)
qed

lemma push_pair_length: "push_pair m s i h = Some h' \<Longrightarrow> length h' \<le> Suc (length h)"
  by (auto simp: push_pair_def heap_push_def Let_def split: if_splits option.splits)

lemma bpe_apply_decreases:
  assumes "bpe_apply m s l r x h = Some (s', h')" "r < length s" "sym_alive (s ! r)"
  shows "2 * live_count s' + length h' \<le> 2 * live_count s + length h"
proof -
  have s': "s' = merge_symbols s l r x"
    using assms(1) by (auto simp: bpe_apply_def Let_def split: if_splits bind_splits)
  have "length h' \<le> length h + 2"
    using assms(1) by (auto simp: bpe_apply_def Let_def split: if_splits bind_splits dest!: push_pair_length)
  then show ?thesis using live_merge_symbols [OF assms(2,3), of l x] by (simp add: s')
qed

lemma bpe_step_cases:
  assumes "bpe_step m s (rank, l, r) h = Some (s', h')"
  obtains "s' = s" "h' = h"
  | a b x where "l < length s" "r < length s" "sym_alive (s ! l)" "sym_alive (s ! r)"
      "sym_next (s ! l) = r" "sym_id (s ! l) = Some a" "sym_id (s ! r) = Some b"
      "merges_get m a b = Some (rank, x)" "bpe_apply m s l r x h = Some (s', h')"
  using assms by (auto simp: bpe_step_def split: if_splits option.splits)

lemma bpe_step_decreases:
  assumes "bpe_step m s e h = Some (s', h')"
  shows "2 * live_count s' + length h' \<le> 2 * live_count s + length h"
proof -
  obtain rank l r where e: "e = (rank, l, r)" by (cases e)
  from assms [unfolded e] show ?thesis
    by (rule bpe_step_cases) (auto intro: bpe_apply_decreases)
qed

lemma heap_pop_length: "heap_pop key h = Some (x, h') \<Longrightarrow> length h = Suc (length h')"
  using bh.pop_size [of key h x h'] by simp

function bpe_loop :: "merges \<Rightarrow> symbol list \<Rightarrow> bpe_entry list \<Rightarrow> symbol list option" where
  "bpe_loop m symbols heap =
     (case heap_pop id heap of
        None \<Rightarrow> Some symbols
      | Some (entry, heap) \<Rightarrow>
          (case bpe_step m symbols entry heap of
             None \<Rightarrow> None
           | Some (symbols, heap) \<Rightarrow> bpe_loop m symbols heap))"
  by pat_completeness auto
termination
  by (relation "measure (\<lambda>(m, s, h). 2 * live_count s + length h)")
    (auto dest!: heap_pop_length bpe_step_decreases)

declare bpe_loop.simps [simp del]

text \<open>
  The output walk: from the first symbol along the links. The links of a merged list lead
  forward, so as many steps as there are symbols are enough; more would be a cycle.
\<close>

fun emit_from ::
  "vocab \<Rightarrow> bytes \<Rightarrow> unknown \<Rightarrow> symbol list \<Rightarrow> nat \<Rightarrow> nat \<Rightarrow> nat list \<Rightarrow> nat list option" where
  "emit_from vocab word unknown symbols fuel index out =
     (if index \<noteq> USIZE_NONE \<and> index < length symbols then
        (case fuel of
           0 \<Rightarrow> None
         | Suc fuel \<Rightarrow>
             let s = symbols ! index in
             Option.bind
               (case sym_id s of
                  Some i \<Rightarrow> Some (out @ [i])
                | None \<Rightarrow>
                    if unknown = ByteTokens
                    then map_option (\<lambda>piece. out @ byte_tokens vocab piece)
                           (str_get word (sym_start s) (sym_end s))
                    else Some out)
               (emit_from vocab word unknown symbols fuel (sym_next s)))
      else Some out)"

declare emit_from.simps [simp del]

text \<open>\<open>Merges::merge_word\<close>: the ids of the word appended to \<open>out\<close>; \<open>None\<close> is a panic.\<close>

definition merge_word :: "merges \<Rightarrow> vocab \<Rightarrow> utext \<Rightarrow> unknown \<Rightarrow> nat list \<Rightarrow> nat list option" where
  "merge_word m vocab word unknown out =
     (let symbols = push_symbols vocab 0 word [] in
      Option.bind (push_pairs m symbols [0..<length symbols - 1] [])
        (\<lambda>heap. Option.bind (bpe_loop m symbols heap)
           (\<lambda>symbols. emit_from vocab (utf8_bytes word) unknown symbols (length symbols) 0 out)))"

section \<open>The reference of a word\<close>

text \<open>
  A symbol as the reference sees it: its id, if it is a token, and its text. The candidate merge
  of two neighbours is the rule of their ids; its key is the rank.
\<close>

type_synonym piece_sym = "nat option \<times> bytes"

definition bpe_cand :: "merges \<Rightarrow> piece_sym \<Rightarrow> piece_sym \<Rightarrow> (nat \<times> piece_sym) option" where
  "bpe_cand m x y =
     (case (fst x, fst y) of
        (Some a, Some b) \<Rightarrow> map_option (\<lambda>(rank, c). (rank, (Some c, snd x @ snd y))) (merges_get m a b)
      | _ \<Rightarrow> None)"

definition char_syms :: "vocab \<Rightarrow> utext \<Rightarrow> piece_sym list" where
  "char_syms vocab word = map (\<lambda>c. (vocab_get vocab (encode_char c), encode_char c)) word"

fun emit_sym :: "vocab \<Rightarrow> unknown \<Rightarrow> piece_sym \<Rightarrow> nat list" where
  "emit_sym vocab unknown (Some i, t) = [i]"
| "emit_sym vocab unknown (None, t) = (if unknown = ByteTokens then byte_tokens vocab t else [])"

definition bpe_reference :: "merges \<Rightarrow> vocab \<Rightarrow> utext \<Rightarrow> unknown \<Rightarrow> nat list" where
  "bpe_reference m vocab word unknown =
     concat (map (emit_sym vocab unknown) (merge_all (bpe_cand m) (char_syms vocab word)))"

section \<open>The linked list and the heap follow the reference\<close>

abbreviation sym_content :: "bytes \<Rightarrow> symbol list \<Rightarrow> nat \<Rightarrow> piece_sym" where
  "sym_content w s i \<equiv> (sym_id (s ! i), slice (sym_start (s ! i)) (sym_end (s ! i)) w)"

definition bpe_list :: "bytes \<Rightarrow> symbol list \<Rightarrow> nat list \<Rightarrow> bool" where
  "bpe_list w s is \<longleftrightarrow>
     linked (\<lambda>i. sym_next (s ! i)) (\<lambda>i. sym_prev (s ! i)) is \<and>
     (\<forall>i < length s. sym_alive (s ! i) \<longleftrightarrow> i \<in> set is) \<and> set is \<subseteq> {..<length s} \<and>
     (is \<noteq> [] \<longrightarrow> hd is = 0) \<and> length s < USIZE_NONE \<and>
     (\<forall>i \<in> set is. sym_start (s ! i) \<le> sym_end (s ! i) \<and> sym_end (s ! i) \<le> length w \<and>
        is_char_boundary w (sym_start (s ! i)) \<and> is_char_boundary w (sym_end (s ! i))) \<and>
     (\<forall>j. Suc j < length is \<longrightarrow> sym_end (s ! (is ! j)) = sym_start (s ! (is ! Suc j)))"

definition bpe_heap :: "merges \<Rightarrow> bytes \<Rightarrow> symbol list \<Rightarrow> nat list \<Rightarrow> bpe_entry list \<Rightarrow> bool" where
  "bpe_heap m w s is h \<longleftrightarrow>
     covered (bpe_cand m) (sym_content w s) is (set h) \<and>
     (\<forall>(rank, l, r) \<in> set h. l < length s \<and> r < length s)"

lemma bpe_list_linked: "bpe_list w s is \<Longrightarrow> linked (\<lambda>i. sym_next (s ! i)) (\<lambda>i. sym_prev (s ! i)) is"
  by (simp add: bpe_list_def)

lemma bpe_list_index: "bpe_list w s is \<Longrightarrow> j < length is \<Longrightarrow> is ! j < length s"
  using nth_mem [of j "is"] by (auto simp: bpe_list_def simp del: nth_mem)

lemma slice_append: "a \<le> b \<Longrightarrow> b \<le> c \<Longrightarrow> c \<le> length w \<Longrightarrow> slice a b w @ slice b c w = slice a c w"
proof -
  assume "a \<le> b" "b \<le> c" "c \<le> length w"
  then have tk: "take c w = take b w @ slice b c w"
    by (metis append_take_drop_id min_absorb1 slice_def take_take)
  have "drop a (take c w) = drop a (take b w @ slice b c w)" by (simp only: tk)
  also have "\<dots> = drop a (take b w) @ slice b c w"
    using \<open>a \<le> b\<close> \<open>b \<le> c\<close> \<open>c \<le> length w\<close> by simp
  finally show ?thesis by (simp add: slice_def)
qed

text \<open>The entry a live symbol pushes.\<close>

definition pair_entry :: "merges \<Rightarrow> bytes \<Rightarrow> symbol list \<Rightarrow> nat list \<Rightarrow> nat \<Rightarrow> bpe_entry list" where
  "pair_entry m w s is j =
     (if Suc j < length is then
        (case bpe_cand m (sym_content w s (is ! j)) (sym_content w s (is ! Suc j)) of
           Some (k, _) \<Rightarrow> [(k, is ! j, is ! Suc j)] | None \<Rightarrow> [])
      else [])"

lemma push_pair_linked:
  assumes "bpe_list w s is" "j < length is"
  shows "push_pair m s (is ! j) h = Some (pair_entry m w s is j @ h)"
proof -
  have lk: "linked (\<lambda>i. sym_next (s ! i)) (\<lambda>i. sym_prev (s ! i)) is"
    using assms(1) by (rule bpe_list_linked)
  have i: "is ! j < length s" using assms by (rule bpe_list_index)
  have nxt: "sym_next (s ! (is ! j)) = (if Suc j < length is then is ! Suc j else USIZE_NONE)"
    using linked_next [OF lk assms(2)] .
  show ?thesis
  proof (cases "Suc j < length is")
    case True
    then have "is ! Suc j < length s" "is ! Suc j \<noteq> USIZE_NONE"
      using bpe_list_index [OF assms(1) True] linked_not_none [OF lk True] by auto
    then show ?thesis using True i nxt
      by (auto simp: push_pair_def pair_entry_def bpe_cand_def heap_push_def split: option.splits)
  qed (use i nxt in \<open>simp add: push_pair_def pair_entry_def\<close>)
qed

lemma pair_entry_in:
  "Suc j < length is \<Longrightarrow> bpe_cand m (sym_content w s (is ! j)) (sym_content w s (is ! Suc j)) = Some (k, n) \<Longrightarrow>
     (k, is ! j, is ! Suc j) \<in> set (pair_entry m w s is j)"
  by (simp add: pair_entry_def)

lemma pair_entry_bounds:
  assumes "bpe_list w s is" "(rank, l, r) \<in> set (pair_entry m w s is j)"
  shows "l < length s \<and> r < length s"
proof -
  have "l = is ! j \<and> r = is ! Suc j \<and> Suc j < length is"
    using assms(2) unfolding pair_entry_def
    by (cases "bpe_cand m (sym_content w s (is ! j)) (sym_content w s (is ! Suc j))";
        cases "Suc j < length is"; clarsimp)
  then show ?thesis using assms(1) by (simp add: bpe_list_index)
qed

lemma nth_merge_symbols:
  assumes "l < length s" "r < length s" "l \<noteq> r" "i < length s"
  shows "sym_id (merge_symbols s l r x ! i) = (if i = l then Some x else sym_id (s ! i))"
    and "sym_start (merge_symbols s l r x ! i) = sym_start (s ! i)"
    and "sym_end (merge_symbols s l r x ! i) = (if i = l then sym_end (s ! r) else sym_end (s ! i))"
    and "sym_next (merge_symbols s l r x ! i) = (if i = l then sym_next (s ! r) else sym_next (s ! i))"
    and "sym_prev (merge_symbols s l r x ! i) =
      (if i = sym_next (s ! r) \<and> i \<noteq> USIZE_NONE then l else sym_prev (s ! i))"
    and "sym_alive (merge_symbols s l r x ! i) = (i \<noteq> r \<and> sym_alive (s ! i))"
  using assms by (auto simp: merge_symbols_def Let_def nth_list_update)

text \<open>The list after the merge of two live neighbours.\<close>

lemma bpe_list_merge:
  fixes x :: nat
  assumes inv: "bpe_list w s is" and j: "Suc j < length is"
  defines "s' \<equiv> merge_symbols s (is ! j) (is ! Suc j) x"
  shows "bpe_list w s' (unlink_at j is)"
    and "sym_content w s' (is ! j) =
      (Some x, snd (sym_content w s (is ! j)) @ snd (sym_content w s (is ! Suc j)))"
    and "\<And>i. i \<in> set is \<Longrightarrow> i \<noteq> is ! j \<Longrightarrow> sym_content w s' i = sym_content w s i"
proof -
  note lk = bpe_list_linked [OF inv]
  have d: "distinct is" by (rule linked_distinct [OF lk])
  have lr: "is ! j < length s" "is ! Suc j < length s" "is ! j \<noteq> is ! Suc j"
    using j bpe_list_index [OF inv] d by (auto simp: nth_eq_iff_index_eq)
  note at = nth_merge_symbols [OF lr, where x = x, folded s'_def]
  have sub: "set is \<subseteq> {..<length s}" and len: "length s < USIZE_NONE"
    using inv by (auto simp: bpe_list_def)
  have after: "sym_next (s ! (is ! Suc j)) = (if j + 2 < length is then is ! (j + 2) else USIZE_NONE)"
    using linked_next [OF lk j] by simp
  have "linked (\<lambda>i. sym_next (s' ! i)) (\<lambda>i. sym_prev (s' ! i)) (unlink_at j is)"
  proof (rule linked_unlink [OF lk j])
    show "sym_next (s' ! (is ! j)) = sym_next (s ! (is ! Suc j))" using lr by (simp add: at)
  next
    fix i assume "i \<in> set is" "i \<noteq> is ! j"
    then show "sym_next (s' ! i) = sym_next (s ! i)" using sub by (simp add: at subset_iff)
  next
    assume j2: "j + 2 < length is"
    then have "is ! (j + 2) < length s" by (rule bpe_list_index [OF inv])
    then show "sym_prev (s' ! (is ! (j + 2))) = is ! j" using j2 len by (simp add: at after)
  next
    fix i assume "i \<in> set is" "j + 2 < length is \<Longrightarrow> i \<noteq> is ! (j + 2)"
    then show "sym_prev (s' ! i) = sym_prev (s ! i)" using sub by (auto simp: at after subset_iff)
  qed
  moreover have "\<forall>i < length s'. sym_alive (s' ! i) \<longleftrightarrow> i \<in> set (unlink_at j is)"
    using inv at(6) by (auto simp: bpe_list_def set_unlink_at [OF j d] s'_def)
  moreover have "unlink_at j is \<noteq> [] \<and> hd (unlink_at j is) = hd is"
    using j by (cases "is") (auto simp: unlink_at_def)
  moreover have "sym_start (s' ! i) \<le> sym_end (s' ! i) \<and> sym_end (s' ! i) \<le> length w \<and>
      is_char_boundary w (sym_start (s' ! i)) \<and> is_char_boundary w (sym_end (s' ! i))"
    if i: "i \<in> set (unlink_at j is)" for i
  proof -
    have bounds: "sym_start (s ! a) \<le> sym_end (s ! a) \<and> sym_end (s ! a) \<le> length w \<and>
        is_char_boundary w (sym_start (s ! a)) \<and> is_char_boundary w (sym_end (s ! a))" if "a \<in> set is" for a
      using inv that by (auto simp: bpe_list_def)
    have "sym_end (s ! (is ! j)) = sym_start (s ! (is ! Suc j))"
      using inv j by (auto simp: bpe_list_def)
    then show ?thesis
      using i sub bounds [of i] bounds [of "is ! j"] bounds [of "is ! Suc j"] j
      by (auto simp: set_unlink_at [OF j d] at subset_iff)
  qed
  moreover have "sym_end (s' ! (unlink_at j is ! i)) = sym_start (s' ! (unlink_at j is ! Suc i))"
    if i: "Suc i < length (unlink_at j is)" for i
  proof -
    have adj: "sym_end (s ! (is ! a)) = sym_start (s ! (is ! Suc a))" if "Suc a < length is" for a
      using inv that by (auto simp: bpe_list_def)
    have l: "Suc i < length is - 1" using i j by simp
    have ix: "is ! a = is ! j \<longleftrightarrow> a = j" if "a < length is" for a
      using d that j by (simp add: nth_eq_iff_index_eq)
    have b: "is ! a < length s" if "a < length is" for a
      using bpe_list_index [OF inv that] .
    consider "Suc i < j" | "Suc i = j" | "i = j" | "j < i" by linarith
    then show ?thesis
      using l j adj [of i] adj [of "Suc i"] ix [of i] ix [of "Suc i"] b [of i] b [of "Suc i"] b [of "Suc (Suc i)"]
      by cases (simp_all add: nth_unlink_at at)
  qed
  ultimately show "bpe_list w s' (unlink_at j is)"
    using inv sub set_unlink_at [OF j d] by (auto simp: bpe_list_def s'_def)
  have "sym_start (s ! (is ! j)) \<le> sym_end (s ! (is ! j))" "sym_end (s ! (is ! j)) = sym_start (s ! (is ! Suc j))"
    "sym_start (s ! (is ! Suc j)) \<le> sym_end (s ! (is ! Suc j))" "sym_end (s ! (is ! Suc j)) \<le> length w"
    using inv j nth_mem [of j "is"] nth_mem [OF j] by (auto simp: bpe_list_def simp del: nth_mem)
  then show "sym_content w s' (is ! j) =
      (Some x, snd (sym_content w s (is ! j)) @ snd (sym_content w s (is ! Suc j)))"
    using lr by (simp add: at slice_append)
  show "sym_content w s' i = sym_content w s i" if "i \<in> set is" "i \<noteq> is ! j" for i
    using that sub by (simp add: at subset_iff)
qed

text \<open>A popped entry that is an adjacent pair is merged, as the reference does; another is dropped.\<close>

definition fresh_entry :: "merges \<Rightarrow> bytes \<Rightarrow> symbol list \<Rightarrow> nat list \<Rightarrow> bpe_entry \<Rightarrow> nat \<Rightarrow> nat \<Rightarrow> bool" where
  "fresh_entry m w s is e j c \<longleftrightarrow>
     (case e of (rank, l, r) \<Rightarrow>
        Suc j < length is \<and> l = is ! j \<and> r = is ! Suc j \<and>
        (\<exists>a b. sym_id (s ! l) = Some a \<and> sym_id (s ! r) = Some b \<and> merges_get m a b = Some (rank, c)))"

lemma bpe_step_stale:
  assumes inv: "bpe_list w s is" and e: "e = (rank, l, r)" "l < length s" "r < length s"
    and stale: "\<And>j c. \<not> fresh_entry m w s is e j c"
  shows "bpe_step m s e h = Some (s, h)"
proof (rule ccontr)
  assume no: "bpe_step m s e h \<noteq> Some (s, h)"
  then have live: "sym_alive (s ! l)" "sym_next (s ! l) = r" using e by (auto simp: bpe_step_def split: if_split_asm)
  then have "l \<in> set is" "r \<noteq> USIZE_NONE" using inv e by (auto simp: bpe_list_def)
  then obtain j where j: "Suc j < length is" "is ! j = l" "is ! Suc j = r"
    using linked_next_index [OF bpe_list_linked [OF inv], of l r] live by metis
  from no e live obtain a b c where "sym_id (s ! l) = Some a" "sym_id (s ! r) = Some b"
    "merges_get m a b = Some (rank, c)"
    by (auto simp: bpe_step_def split: if_splits option.splits)
  then have "fresh_entry m w s is e j c" using j by (simp add: fresh_entry_def e)
  with stale show False by blast
qed

lemma fresh_cand:
  "fresh_entry m w s is (rank, l, r) j c \<Longrightarrow>
     bpe_cand m (sym_content w s (is ! j)) (sym_content w s (is ! Suc j)) =
       Some (rank, (Some c, snd (sym_content w s (is ! j)) @ snd (sym_content w s (is ! Suc j))))"
  by (auto simp: fresh_entry_def bpe_cand_def)

lemma cand_fresh:
  "Suc j < length is \<Longrightarrow> bpe_cand m (sym_content w s (is ! j)) (sym_content w s (is ! Suc j)) = Some (k, n) \<Longrightarrow>
     fresh_entry m w s is (k, is ! j, is ! Suc j) j (the (fst n))"
  by (auto simp: fresh_entry_def bpe_cand_def split: option.splits)

lemma bpe_step_fresh:
  assumes inv: "bpe_list w s is" and e: "e = (rank, l, r)" and fresh: "fresh_entry m w s is e j c"
  defines "s' \<equiv> merge_symbols s l r c"
  shows "bpe_step m s e h = Some (s',
    pair_entry m w s' (unlink_at j is) j @
      (if j = 0 then [] else pair_entry m w s' (unlink_at j is) (j - 1)) @ h)"
proof -
  have j: "Suc j < length is" and lr: "l = is ! j" "r = is ! Suc j" and
    ids: "\<exists>a b. sym_id (s ! l) = Some a \<and> sym_id (s ! r) = Some b \<and> merges_get m a b = Some (rank, c)"
    using fresh by (auto simp: fresh_entry_def e)
  note lk = bpe_list_linked [OF inv]
  have len: "l < length s" "r < length s" using j bpe_list_index [OF inv] by (auto simp: lr)
  have live: "sym_alive (s ! l)" "sym_alive (s ! r)" "sym_next (s ! l) = r"
    using inv len j linked_next [OF lk, of j] by (auto simp: bpe_list_def lr)
  have step: "bpe_step m s e h = bpe_apply m s l r c h"
    using ids live len by (auto simp: bpe_step_def e)
  have inv': "bpe_list w s' (unlink_at j is)"
    using bpe_list_merge(1) [OF inv j, where x = c] by (simp add: s'_def lr)
  note lk' = bpe_list_linked [OF inv']
  have jl: "j < length (unlink_at j is)" "unlink_at j is ! j = l"
    using j by (auto simp: nth_unlink_at lr)
  have after: "sym_next (s ! r) = USIZE_NONE \<or> sym_next (s ! r) < length s"
    using linked_next [OF lk j] bpe_list_index [OF inv, of "Suc (Suc j)"] by (auto simp: lr)
  have before: "sym_prev (s' ! l) = (if j = 0 then USIZE_NONE else unlink_at j is ! (j - 1))"
    using linked_prev [OF lk' jl(1)] jl(2) by simp
  have push: "push_pair m s' l h' = Some (pair_entry m w s' (unlink_at j is) j @ h')" for h'
    using push_pair_linked [OF inv' jl(1)] jl(2) by simp
  show ?thesis
  proof (cases "j = 0")
    case True
    then show ?thesis using after before push by (simp add: step bpe_apply_def s'_def [symmetric] Let_def)
  next
    case False
    have p: "j - 1 < length (unlink_at j is)" using jl(1) by simp
    have "unlink_at j is ! (j - 1) \<noteq> USIZE_NONE" using linked_not_none [OF lk' p] .
    then show ?thesis using False after before push push_pair_linked [OF inv' p]
      by (simp add: step bpe_apply_def s'_def [symmetric] Let_def)
  qed
qed

lemma bpe_heap_fresh:
  assumes inv: "bpe_list w s is" and heap: "bpe_heap m w s is h" and pop: "heap_pop id h = Some (e, h1)"
    and e: "e = (rank, l, r)" and fresh: "fresh_entry m w s is e j c"
  defines "s' \<equiv> merge_symbols s l r c"
  shows "bpe_heap m w s' (unlink_at j is)
    (pair_entry m w s' (unlink_at j is) j @
      (if j = 0 then [] else pair_entry m w s' (unlink_at j is) (j - 1)) @ h1)" (is "bpe_heap m w s' _ ?h'")
proof -
  let ?us = "unlink_at j is"
  have j: "Suc j < length is" and lr: "l = is ! j" "r = is ! Suc j"
    using fresh by (auto simp: fresh_entry_def e)
  note lk = bpe_list_linked [OF inv]
  have d: "distinct is" by (rule linked_distinct [OF lk])
  note merge = bpe_list_merge [OF inv j, where x = c, folded lr, folded s'_def]
  let ?m = "(Some c, snd (sym_content w s l) @ snd (sym_content w s r))"
  have at_l: "sym_content w s' (is ! j) = ?m" using merge(2) by (simp add: lr)
  have same: "sym_content w s' (is ! a) = sym_content w s (is ! a)" if "a < length is" "a \<noteq> j" for a
    using merge(3) [of "is ! a"] that d j by (simp add: nth_eq_iff_index_eq lr)
  have "covered (bpe_cand m) (sym_content w s') ?us (set ?h')"
  proof (rule covered_unlink [where f = "sym_content w s" and m = ?m, OF _ d j])
    show "covered (bpe_cand m) (sym_content w s) is (set h)" using heap by (simp add: bpe_heap_def)
    show "sym_content w s' (is ! j) = ?m" by (rule at_l)
    show "sym_content w s' i = sym_content w s i" if "i \<in> set is" "i \<noteq> is ! j" "i \<noteq> is ! Suc j" for i
      using merge(3) [of i] that by (simp add: lr)
    show "(k, a, b) \<in> set ?h'" if "(k, a, b) \<in> set h" "{a, b} \<inter> {is ! j, is ! Suc j} = {}" for k a b
    proof -
      have "(k, a, b) = e \<or> (k, a, b) \<in> set h1" using bh.pop_cases [OF pop, of "(k, a, b)"] that(1) by simp
      then show ?thesis using that(2) by (auto simp: e lr)
    qed
  next
    fix k n assume "0 < j" and "bpe_cand m (sym_content w s (is ! (j - 1))) ?m = Some (k, n)"
    then have "(k, ?us ! (j - 1), ?us ! Suc (j - 1)) \<in> set (pair_entry m w s' ?us (j - 1))"
      using j same [of "j - 1"] at_l by (intro pair_entry_in [where n = n]) (auto simp: nth_unlink_at)
    then show "(k, is ! (j - 1), is ! j) \<in> set ?h'" using \<open>0 < j\<close> j by (auto simp: nth_unlink_at)
  next
    fix k n assume "j + 2 < length is" and "bpe_cand m ?m (sym_content w s (is ! (j + 2))) = Some (k, n)"
    then have "(k, ?us ! j, ?us ! Suc j) \<in> set (pair_entry m w s' ?us j)"
      using j same [of "j + 2"] at_l by (intro pair_entry_in [where n = n]) (auto simp: nth_unlink_at)
    then show "(k, is ! j, is ! (j + 2)) \<in> set ?h'" using \<open>j + 2 < length is\<close> j by (auto simp: nth_unlink_at)
  qed
  moreover have "a < length s' \<and> b < length s'" if "(x, a, b) \<in> set ?h'" for x a b
  proof -
    have "set h1 \<subseteq> set h" using bh.pop_subset [OF pop] by simp
    then show ?thesis
      using that heap pair_entry_bounds [OF merge(1), of x a b m]
      by (auto simp: bpe_heap_def s'_def split: if_splits)
  qed
  ultimately show ?thesis unfolding bpe_heap_def by blast
qed

lemma bpe_step_follows:
  assumes inv: "bpe_list w s is" and heap: "bpe_heap m w s is h" and pop: "heap_pop id h = Some (e, h1)"
  obtains s' is' h' where "bpe_step m s e h1 = Some (s', h')" "bpe_list w s' is'" "bpe_heap m w s' is' h'"
    "length s' = length s"
    "merge_all (bpe_cand m) (map (sym_content w s') is') = merge_all (bpe_cand m) (map (sym_content w s) is)"
proof -
  obtain rank l r where e: "e = (rank, l, r)" by (cases e)
  have in_h: "e \<in> set h" using bh.pop_in [OF pop] by simp
  have least: "\<And>y. y \<in> set h \<Longrightarrow> e \<le> y" using bh.pop_Some [OF pop] by simp
  have len: "l < length s" "r < length s" using heap in_h by (auto simp: bpe_heap_def e)
  show ?thesis
  proof (cases "\<exists>j c. fresh_entry m w s is e j c")
    case False
    then have "bpe_step m s e h1 = Some (s, h1)" using bpe_step_stale [OF inv e len] by blast
    moreover have "covered (bpe_cand m) (sym_content w s) is (set h1)"
      unfolding covered_def
    proof (intro allI impI)
      fix j k n
      assume j: "Suc j < length is"
        and c: "bpe_cand m (sym_content w s (is ! j)) (sym_content w s (is ! Suc j)) = Some (k, n)"
      then have "(k, is ! j, is ! Suc j) \<in> set h" using heap by (auto simp: bpe_heap_def covered_def)
      moreover have "(k, is ! j, is ! Suc j) \<noteq> e" using cand_fresh [OF j c] False by auto
      ultimately show "(k, is ! j, is ! Suc j) \<in> set h1" using bh.pop_cases [OF pop] by auto
    qed
    then have "bpe_heap m w s is h1"
      using heap bh.pop_subset [OF pop] by (auto simp: bpe_heap_def)
    ultimately show ?thesis using that inv by blast
  next
    case True
    then obtain j c where fresh: "fresh_entry m w s is e j c" by blast
    then have j: "Suc j < length is" and lr: "l = is ! j" "r = is ! Suc j" by (auto simp: fresh_entry_def e)
    let ?s' = "merge_symbols s l r c" and ?us = "unlink_at j is"
    let ?m = "(Some c, snd (sym_content w s l) @ snd (sym_content w s r))"
    note merge = bpe_list_merge [OF inv j, where x = c, folded lr]
    have "best_merge (bpe_cand m) (map (sym_content w s) is) = Some (rank, j, ?m)"
    proof (rule covered_best [OF _ bpe_list_linked [OF inv] j])
      show "covered (bpe_cand m) (sym_content w s) is (set h)" using heap by (simp add: bpe_heap_def)
      show "bpe_cand m (sym_content w s (is ! j)) (sym_content w s (is ! Suc j)) = Some (rank, ?m)"
        using fresh_cand [OF fresh [unfolded e]] by (simp add: lr)
      fix k' l' r' assume "(k', l', r') \<in> set h"
      from least [OF this] show "(rank, is ! j) \<le> (k', l')" by (auto simp: e lr)
    qed
    moreover have "map (sym_content w ?s') ?us = merge_at j ?m (map (sym_content w s) is)"
      using linked_distinct [OF bpe_list_linked [OF inv]] j
      by (rule map_unlink) (use merge in \<open>auto simp: lr\<close>)
    ultimately have "merge_all (bpe_cand m) (map (sym_content w ?s') ?us) =
        merge_all (bpe_cand m) (map (sym_content w s) is)"
      by (subst (2) merge_all.simps) simp
    then show ?thesis
      using that [OF bpe_step_fresh [OF inv e fresh, of h1] merge(1) bpe_heap_fresh [OF inv heap pop e fresh]]
      by simp
  qed
qed

lemma bpe_loop_follows:
  assumes "bpe_list w s is" "bpe_heap m w s is h"
  shows "\<exists>s' is'. bpe_loop m s h = Some s' \<and> bpe_list w s' is' \<and>
    map (sym_content w s') is' = merge_all (bpe_cand m) (map (sym_content w s) is)"
  using assms
proof (induction m s h arbitrary: "is" rule: bpe_loop.induct)
  case (1 m s h)
  show ?case
  proof (cases "heap_pop id h")
    case None
    then have "h = []" using bh.pop_None [of id h] by simp
    then have "merge_all (bpe_cand m) (map (sym_content w s) is) = map (sym_content w s) is"
      using "1.prems"(2) covered_empty by (auto simp: bpe_heap_def)
    then show ?thesis using "1.prems"(1) None by (auto simp: bpe_loop.simps)
  next
    case (Some p)
    then obtain e h1 where p: "heap_pop id h = Some (e, h1)" by (cases p) auto
    obtain s' is' h' where step: "bpe_step m s e h1 = Some (s', h')" "bpe_list w s' is'" "bpe_heap m w s' is' h'"
      "length s' = length s"
      "merge_all (bpe_cand m) (map (sym_content w s') is') = merge_all (bpe_cand m) (map (sym_content w s) is)"
      by (rule bpe_step_follows [OF "1.prems" p])
    from "1.IH" [OF p refl step(1) refl step(2,3)] show ?thesis
      by (subst bpe_loop.simps) (simp add: p step(1,5))
  qed
qed

section \<open>The symbols of a word\<close>

text \<open>The symbol list while characters are added: one symbol per character read, in a chain.\<close>

definition bpe_row :: "vocab \<Rightarrow> utext \<Rightarrow> symbol list \<Rightarrow> bool" where
  "bpe_row vocab cs s \<longleftrightarrow>
     length s = length cs \<and>
     (\<forall>i < length cs. s ! i =
        \<lparr>sym_id = vocab_get vocab (encode_char (cs ! i)),
         sym_start = length (utf8_bytes (take i cs)), sym_end = length (utf8_bytes (take (Suc i) cs)),
         sym_prev = (if i = 0 then USIZE_NONE else i - 1),
         sym_next = (if Suc i < length cs then Suc i else USIZE_NONE), sym_alive = True\<rparr>)"

lemma utf8_bytes_append: "utf8_bytes (s @ t) = utf8_bytes s @ utf8_bytes t"
  by (simp add: utf8_bytes_def)

lemma utf8_bytes_Cons: "utf8_bytes (c # t) = encode_char c @ utf8_bytes t"
  by (simp add: utf8_bytes_def)

lemma utf8_bytes_Nil [simp]: "utf8_bytes [] = []"
  by (simp add: utf8_bytes_def)

lemma push_symbols_row:
  "bpe_row vocab pre s \<Longrightarrow> start = length (utf8_bytes pre) \<Longrightarrow>
     bpe_row vocab (pre @ cs) (push_symbols vocab start cs s)"
proof (induction cs arbitrary: pre s start)
  case (Cons c cs)
  let ?new = "\<lparr>sym_id = vocab_get vocab (encode_char c), sym_start = start,
      sym_end = start + length (encode_char c),
      sym_prev = (if length s = 0 then USIZE_NONE else length s - 1), sym_next = USIZE_NONE,
      sym_alive = True\<rparr>"
  let ?s = "if length s > 0
      then (s @ [?new])[length s - 1 := ((s @ [?new]) ! (length s - 1))\<lparr>sym_next := length s\<rparr>]
      else s @ [?new]"
  have len: "length s = length pre" and
    row: "\<And>i. i < length pre \<Longrightarrow> s ! i =
        \<lparr>sym_id = vocab_get vocab (encode_char (pre ! i)),
         sym_start = length (utf8_bytes (take i pre)), sym_end = length (utf8_bytes (take (Suc i) pre)),
         sym_prev = (if i = 0 then USIZE_NONE else i - 1),
         sym_next = (if Suc i < length pre then Suc i else USIZE_NONE), sym_alive = True\<rparr>"
    using Cons.prems(1) by (simp_all add: bpe_row_def)
  have "?s ! i =
        \<lparr>sym_id = vocab_get vocab (encode_char ((pre @ [c]) ! i)),
         sym_start = length (utf8_bytes (take i (pre @ [c]))),
         sym_end = length (utf8_bytes (take (Suc i) (pre @ [c]))),
         sym_prev = (if i = 0 then USIZE_NONE else i - 1),
         sym_next = (if Suc i < length (pre @ [c]) then Suc i else USIZE_NONE), sym_alive = True\<rparr>"
    if i: "i < length (pre @ [c])" for i
  proof -
    consider "i = length pre" | "Suc i = length pre" | "Suc i < length pre" using i by (simp, linarith)
    then show ?thesis
    proof cases
      case 1
      then show ?thesis using Cons.prems(2) len
        by (cases pre) (simp_all add: nth_append nth_list_update utf8_bytes_append utf8_bytes_Cons)
    next
      case 2
      then have "pre \<noteq> []" "length pre = Suc i" by auto
      then show ?thesis using len row [of i] by (simp add: nth_append nth_list_update)
    next
      case 3
      then have "pre \<noteq> []" by auto
      then show ?thesis using 3 len row [of i] row [of 0] by (cases i) (simp_all add: nth_append nth_list_update)
    qed
  qed
  then have "bpe_row vocab (pre @ [c]) ?s" using len by (simp add: bpe_row_def)
  moreover have "start + length (encode_char c) = length (utf8_bytes (pre @ [c]))"
    using Cons.prems(2) by (simp add: utf8_bytes_append utf8_bytes_Cons)
  ultimately have "bpe_row vocab ((pre @ [c]) @ cs) (push_symbols vocab (start + length (encode_char c)) cs ?s)"
    by (rule Cons.IH)
  then show ?case by (simp add: Let_def)
qed simp

lemma word_symbols: "bpe_row vocab word (push_symbols vocab 0 word [])"
  using push_symbols_row [of vocab "[]" "[]" 0 word] by (simp add: bpe_row_def)

lemma length_encode_char: "0 < length (encode_char c)"
  using encode_char_start(1) by simp

lemma length_utf8_ge: "length t \<le> length (utf8_bytes t)"
proof (induction t)
  case (Cons c t)
  then show ?case using length_encode_char [of c]
    unfolding utf8_bytes_Cons length_append list.size by linarith
qed simp

lemma utf8_take_slice:
  "i < length t \<Longrightarrow>
     slice (length (utf8_bytes (take i t))) (length (utf8_bytes (take (Suc i) t))) (utf8_bytes t) = encode_char (t ! i)"
proof -
  assume i: "i < length t"
  have a: "utf8_bytes (take (Suc i) t) = utf8_bytes (take i t) @ encode_char (t ! i)"
    using i by (simp add: take_Suc_conv_app_nth utf8_bytes_append utf8_bytes_Cons)
  have "utf8_bytes t = utf8_bytes (take (Suc i) t) @ utf8_bytes (drop (Suc i) t)"
    by (metis append_take_drop_id utf8_bytes_append)
  then show ?thesis by (simp add: slice_def a)
qed

lemma utf8_take_mono: "i \<le> j \<Longrightarrow> length (utf8_bytes (take i t)) \<le> length (utf8_bytes (take j t))"
proof -
  assume "i \<le> j"
  then have "take j t = take i t @ drop i (take j t)"
    by (metis append_take_drop_id min.absorb1 take_take)
  then show ?thesis by (metis le_add1 length_append utf8_bytes_append)
qed

lemma utf8_boundary: "is_char_boundary (utf8_bytes t) (length (utf8_bytes (take i t)))"
  using arena_boundary [of "map encode_char t" i]
  by (simp add: utf8_bytes_def take_map str_start_def encode_char_start)

lemma bpe_row_list:
  assumes row: "bpe_row vocab word s" and len: "length word < USIZE_NONE"
  shows "bpe_list (utf8_bytes word) s [0..<length word]"
    and "map (sym_content (utf8_bytes word) s) [0..<length word] = char_syms vocab word"
proof -
  have ls: "length s = length word" using row by (simp add: bpe_row_def)
  have at: "s ! i = \<lparr>sym_id = vocab_get vocab (encode_char (word ! i)),
         sym_start = length (utf8_bytes (take i word)), sym_end = length (utf8_bytes (take (Suc i) word)),
         sym_prev = (if i = 0 then USIZE_NONE else i - 1),
         sym_next = (if Suc i < length word then Suc i else USIZE_NONE), sym_alive = True\<rparr>"
    if "i < length word" for i
    using row that by (simp add: bpe_row_def)
  have "linked (\<lambda>i. sym_next (s ! i)) (\<lambda>i. sym_prev (s ! i)) [0..<length word]"
    using len by (auto simp: linked_def at)
  moreover have "sym_end (s ! i) \<le> length (utf8_bytes word)" if "i < length word" for i
    using utf8_take_mono [of "Suc i" "length word" word] that by (simp add: at)
  moreover have "sym_start (s ! i) \<le> sym_end (s ! i)" if "i < length word" for i
    using utf8_take_mono [of i "Suc i" word] that by (simp add: at)
  moreover have "is_char_boundary (utf8_bytes word) (sym_start (s ! i)) \<and>
      is_char_boundary (utf8_bytes word) (sym_end (s ! i))" if "i < length word" for i
    using that utf8_boundary by (simp add: at)
  ultimately show "bpe_list (utf8_bytes word) s [0..<length word]"
    using len by (auto simp: bpe_list_def ls at hd_upt)
  show "map (sym_content (utf8_bytes word) s) [0..<length word] = char_syms vocab word"
    by (rule nth_equalityI) (auto simp: char_syms_def at utf8_take_slice)
qed

lemma push_pairs_linked:
  assumes "bpe_list w s is" "\<forall>j \<in> set js. j < length is" "lefts = map (\<lambda>j. is ! j) js"
  shows "push_pairs m s lefts h = Some (concat (map (pair_entry m w s is) (rev js)) @ h)"
  using assms(2,3)
proof (induction js arbitrary: lefts h)
  case (Cons j js)
  then show ?case using push_pair_linked [OF assms(1), of j m h] by simp
qed simp

lemma word_heap:
  assumes "bpe_list w s [0..<n]" "0 < n"
  shows "\<exists>h. push_pairs m s [0..<n - 1] [] = Some h \<and> bpe_heap m w s [0..<n] h"
proof -
  let ?h = "concat (map (pair_entry m w s [0..<n]) (rev [0..<n - 1]))"
  have "push_pairs m s [0..<n - 1] [] = Some ?h"
  proof -
    have "[0..<n - 1] = map (\<lambda>j. [0..<n] ! j) [0..<n - 1]" by (rule nth_equalityI) auto
    moreover have "\<forall>j \<in> set [0..<n - 1]. j < length [0..<n]" by auto
    ultimately show ?thesis using push_pairs_linked [OF assms(1)] by (metis append_Nil2)
  qed
  moreover have "covered (bpe_cand m) (sym_content w s) [0..<n] (set ?h)"
    unfolding covered_def
  proof (intro allI impI)
    fix j k x
    assume j: "Suc j < length [0..<n]"
      and c: "bpe_cand m (sym_content w s ([0..<n] ! j)) (sym_content w s ([0..<n] ! Suc j)) = Some (k, x)"
    have "(k, [0..<n] ! j, [0..<n] ! Suc j) \<in> set (pair_entry m w s [0..<n] j)"
      using pair_entry_in [OF j c] .
    then show "(k, [0..<n] ! j, [0..<n] ! Suc j) \<in> set ?h" using j by auto
  qed
  moreover have "\<forall>(rank, l, r) \<in> set ?h. l < length s \<and> r < length s"
    using pair_entry_bounds [OF assms(1)] by auto
  ultimately show ?thesis unfolding bpe_heap_def by blast
qed

text \<open>The output walk follows the list.\<close>

lemma emit_from_list:
  assumes inv: "bpe_list w s is" and "k \<le> length is" "length is - k \<le> fuel"
    and "index = (if k < length is then is ! k else USIZE_NONE)"
  shows "emit_from vocab w unknown s fuel index out =
    Some (out @ concat (map (emit_sym vocab unknown) (map (sym_content w s) (drop k is))))"
  using assms(2-)
proof (induction fuel arbitrary: k index out)
  case 0
  then show ?case by (simp add: emit_from.simps)
next
  case (Suc fuel)
  show ?case
  proof (cases "k < length is")
    case True
    then have index: "index = is ! k" "index \<noteq> USIZE_NONE" "index < length s"
      using Suc.prems(3) linked_not_none [OF bpe_list_linked [OF inv]] bpe_list_index [OF inv] by auto
    have drop: "drop k is = is ! k # drop (Suc k) is" using True by (simp add: Cons_nth_drop_Suc)
    have "sym_next (s ! (is ! k)) = (if Suc k < length is then is ! Suc k else USIZE_NONE)"
      using linked_next [OF bpe_list_linked [OF inv] True] .
    note IH = Suc.IH [OF _ _ this]
    have "is ! k \<in> set is" using True by simp
    then have "str_get w (sym_start (s ! (is ! k))) (sym_end (s ! (is ! k))) =
        Some (slice (sym_start (s ! (is ! k))) (sym_end (s ! (is ! k))) w)"
      using inv by (auto simp: bpe_list_def str_get_def)
    then have "emit_from vocab w unknown s (Suc fuel) index out =
        emit_from vocab w unknown s fuel (sym_next (s ! (is ! k)))
          (out @ emit_sym vocab unknown (sym_content w s (is ! k)))"
      using index by (subst emit_from.simps) (auto simp: Let_def split: option.splits)
    also have "\<dots> = Some ((out @ emit_sym vocab unknown (sym_content w s (is ! k))) @
        concat (map (emit_sym vocab unknown) (map (sym_content w s) (drop (Suc k) is))))"
      using True Suc.prems by (intro IH) auto
    finally show ?thesis by (simp add: drop)
  next
    case False
    then show ?thesis using Suc.prems by (simp add: emit_from.simps)
  qed
qed

lemma merge_all_Nil [simp]: "merge_all cand [] = []"
  by (subst merge_all.simps) (simp add: best_merge_def min_by_key_def)

lemma merge_word_reference:
  assumes len: "length word < USIZE_NONE"
  shows "merge_word m vocab word unknown out = Some (out @ bpe_reference m vocab word unknown)"
proof (cases "word = []")
  case True
  then show ?thesis
    by (simp add: merge_word_def bpe_loop.simps heap_pop_def min_by_key_def emit_from.simps
        bpe_reference_def char_syms_def)
next
  case False
  let ?w = "utf8_bytes word" and ?n = "length word"
  define s where "s = push_symbols vocab 0 word []"
  have row: "bpe_row vocab word s" by (simp add: s_def word_symbols)
  have ls: "length s = ?n" using row by (simp add: bpe_row_def)
  note list = bpe_row_list(1) [OF row len]
  obtain h where h: "push_pairs m s [0..<?n - 1] [] = Some h" "bpe_heap m ?w s [0..<?n] h"
    using word_heap [OF list] False by auto
  obtain s' is' where s': "bpe_loop m s h = Some s'" "bpe_list ?w s' is'"
    "map (sym_content ?w s') is' = merge_all (bpe_cand m) (char_syms vocab word)"
    using bpe_loop_follows [OF list h(2)] bpe_row_list(2) [OF row len] by auto
  have "length is' \<le> length s'"
  proof -
    have "card (set is') \<le> card {..<length s'}"
      using s'(2) by (intro card_mono) (auto simp: bpe_list_def)
    then show ?thesis using distinct_card [OF linked_distinct [OF bpe_list_linked [OF s'(2)]]] by simp
  qed
  moreover have "is' \<noteq> []"
  proof
    assume "is' = []"
    then have "merge_all (bpe_cand m) (char_syms vocab word) = []" using s'(3) by simp
    moreover have "merge_all cand cs \<noteq> []" if "cs \<noteq> []" for cand :: "piece_sym \<Rightarrow> piece_sym \<Rightarrow> (nat \<times> piece_sym) option" and cs
      using that
    proof (induction cand cs rule: merge_all.induct)
      case (1 cand cs)
      then show ?case by (subst merge_all.simps) (auto simp: merge_at_def split: option.splits)
    qed
    ultimately show False using False by (auto simp: char_syms_def)
  qed
  moreover then have "0 = is' ! 0" using s'(2) by (auto simp: bpe_list_def hd_conv_nth)
  ultimately have "emit_from vocab ?w unknown s' (length s') 0 out =
      Some (out @ concat (map (emit_sym vocab unknown) (map (sym_content ?w s') (drop 0 is'))))"
    by (intro emit_from_list [OF s'(2)]) auto
  then show ?thesis
    using h(1) s'(1,3) ls by (simp add: merge_word_def s_def [symmetric] Let_def bpe_reference_def)
qed

section \<open>The rule table\<close>

text \<open>The ids a rule names: the pair it merges and the result.\<close>

definition rule_ids :: "vocab \<Rightarrow> bytes \<Rightarrow> ((nat \<times> nat) \<times> nat) option" where
  "rule_ids vocab rule =
     Option.bind (rule_split rule) (\<lambda>split.
       let left = take split rule; right = drop (split + 1) rule in
       case (vocab_get vocab left, vocab_get vocab right, vocab_get vocab (left @ right)) of
         (Some a, Some b, Some c) \<Rightarrow> Some ((a, b), c)
       | _ \<Rightarrow> None)"

definition rule_pair :: "vocab \<Rightarrow> nat \<Rightarrow> nat \<Rightarrow> bytes \<Rightarrow> bool" where
  "rule_pair vocab a b rule \<longleftrightarrow> (\<exists>c. rule_ids vocab rule = Some ((a, b), c))"

lemma rule_ids_split:
  assumes "rule_split rule = Some i" "vocab_get v (take i rule) = Some a"
    "vocab_get v (drop (i + 1) rule) = Some b" "vocab_get v (take i rule @ drop (i + 1) rule) = Some c"
  shows "rule_ids v rule = Some ((a, b), c)"
  using assms by (simp add: rule_ids_def Let_def)

lemma rule_ids_text:
  assumes "vocab_built ps types v" "rule_ids v rule = Some ((a, b), c)"
  shows "vocab_piece v c = vocab_piece v a @ vocab_piece v b"
    and "a < 2 ^ 32" "b < 2 ^ 32" "c < 2 ^ 32"
proof -
  obtain i where i: "rule_split rule = Some i"
    using assms(2) by (cases "rule_split rule") (auto simp: rule_ids_def)
  then have "vocab_get v (take i rule) = Some a" "vocab_get v (drop (i + 1) rule) = Some b"
    "vocab_get v (take i rule @ drop (i + 1) rule) = Some c"
    using assms(2)
    by (cases "vocab_get v (take i rule)"; cases "vocab_get v (drop (i + 1) rule)";
        cases "vocab_get v (take i rule @ drop (i + 1) rule)"; simp add: rule_ids_def)+
  then show "vocab_piece v c = vocab_piece v a @ vocab_piece v b" "a < 2 ^ 32" "b < 2 ^ 32" "c < 2 ^ 32"
    using get_Some_piece [OF assms(1)] built_small [OF assms(1)] by (auto intro: less_trans)
qed

lemma merges_from_Cons:
  "merges_from v strict rank (rule # rules) t =
     (case rule_split rule of
        None \<Rightarrow> Inl (local_err (''merge rule '' @ show_nat rank @ '' is malformed: `'' @ shown rule @ ''`''))
      | Some _ \<Rightarrow>
          (case rule_ids v rule of
             Some ((a, b), c) \<Rightarrow>
               merges_from v strict (rank + 1) rules
                 (if t (pair_key a b) = None then t(pair_key a b \<mapsto> (rank mod 2 ^ 32, c)) else t)
           | None \<Rightarrow>
               if strict then Inl (local_err (''merge rule '' @ show_nat rank @
                                '' references a token outside the vocabulary''))
               else merges_from v strict (rank + 1) rules t))"
  by (auto simp: rule_ids_def Let_def split: option.splits)

declare merges_from.simps(2) [simp del]

lemma pair_key_nat: "a < 2 ^ 32 \<Longrightarrow> b < 2 ^ 32 \<Longrightarrow> unat (pair_key a b) = a * 2 ^ 32 + b"
proof -
  assume a: "a < 2 ^ 32" and b: "b < 2 ^ 32"
  have ab: "a * 2 ^ 32 + b < 2 ^ 64"
  proof -
    have "a * 2 ^ 32 + b < (a + 1) * 2 ^ 32" using b by simp
    also have "\<dots> \<le> 2 ^ 32 * 2 ^ 32" using a by (intro mult_right_mono) auto
    finally show ?thesis by simp
  qed
  have "push_bit 32 (of_nat a) OR of_nat b = push_bit 32 (of_nat a :: 64 word) + of_nat b"
  proof (rule disjunctive_add [symmetric])
    fix n
    show "\<not> bit (push_bit 32 (of_nat a :: 64 word)) n \<or> \<not> bit (of_nat b :: 64 word) n"
    proof (cases "n < 32")
      case False
      have "b < 2 ^ n" using b False by (meson less_le_trans not_less one_le_numeral power_increasing)
      then have "\<not> bit b n" by (simp add: bit_iff_odd)
      then show ?thesis by (simp add: bit_of_nat_iff)
    qed (simp add: bit_push_bit_iff)
  qed
  then have pk: "pair_key a b = of_nat (a * 2 ^ 32 + b)"
    by (simp add: pair_key_def push_bit_eq_mult mult.commute)
  have "unat (pair_key a b) = (a * 2 ^ 32 + b) mod 2 ^ 64"
    unfolding pk unat_of_nat by simp
  also have "\<dots> = a * 2 ^ 32 + b" using ab by (rule mod_less)
  finally show ?thesis .
qed

lemma pair_key_inj:
  assumes "a < 2 ^ 32" "b < 2 ^ 32" "c < 2 ^ 32" "d < 2 ^ 32" "pair_key a b = pair_key c d"
  shows "a = c \<and> b = d"
proof -
  have "a * 2 ^ 32 + b = c * 2 ^ 32 + d"
    using assms pair_key_nat by metis
  then have "(a * 2 ^ 32 + b) div 2 ^ 32 = (c * 2 ^ 32 + d) div 2 ^ 32"
    "(a * 2 ^ 32 + b) mod 2 ^ 32 = (c * 2 ^ 32 + d) mod 2 ^ 32" by simp_all
  then show ?thesis using assms by simp
qed

lemma merges_from_first:
  assumes "vocab_built ps types v" "merges_from v strict rank rules t = Inr t'" "a < 2 ^ 32" "b < 2 ^ 32"
  shows "t' (pair_key a b) =
    (case t (pair_key a b) of
       Some e \<Rightarrow> Some e
     | None \<Rightarrow>
         map_option (\<lambda>i. ((rank + i) mod 2 ^ 32, snd (the (rule_ids v (rules ! i)))))
           (position (rule_pair v a b) rules))"
  using assms(2)
proof (induction rules arbitrary: rank t)
  case Nil
  then show ?case by (simp split: option.splits)
next
  case (Cons rule rules)
  obtain s where s: "rule_split rule = Some s"
    using Cons.prems by (auto simp: merges_from_Cons split: option.splits)
  show ?case
  proof (cases "rule_ids v rule")
    case None
    then have rest: "merges_from v strict (rank + 1) rules t = Inr t'"
      using Cons.prems s by (auto simp: merges_from_Cons split: if_splits)
    have "\<not> rule_pair v a b rule" using None by (simp add: rule_pair_def)
    then show ?thesis using Cons.IH [OF rest]
      by (auto split: option.splits simp: map_option_case)
  next
    case (Some r)
    then obtain a' b' c where r: "rule_ids v rule = Some ((a', b'), c)" by (cases r) auto
    let ?t = "if t (pair_key a' b') = None then t(pair_key a' b' \<mapsto> (rank mod 2 ^ 32, c)) else t"
    have rest: "merges_from v strict (rank + 1) rules ?t = Inr t'"
      using Cons.prems s r by (simp add: merges_from_Cons)
    note small = rule_ids_text(2,3) [OF assms(1) r]
    show ?thesis
    proof (cases "a' = a \<and> b' = b")
      case True
      then have "rule_pair v a b rule" using r by (auto simp: rule_pair_def)
      then show ?thesis using Cons.IH [OF rest] True r by (auto split: option.splits)
    next
      case False
      then have "\<not> rule_pair v a b rule" using r by (auto simp: rule_pair_def)
      moreover have "pair_key a' b' \<noteq> pair_key a b" using False pair_key_inj small assms(3,4) by metis
      ultimately show ?thesis using Cons.IH [OF rest]
        by (auto split: option.splits simp: map_option_case)
    qed
  qed
qed

lemma merges_new_first:
  assumes "vocab_built ps types v" "merges_new v rules strict = Inr m" "a < 2 ^ 32" "b < 2 ^ 32"
  shows "merges_get m a b =
    map_option (\<lambda>i. (i mod 2 ^ 32, snd (the (rule_ids v (rules ! i))))) (position (rule_pair v a b) rules)"
proof -
  obtain t where t: "merges_from v strict 0 rules Map.empty = Inr t" "m = \<lparr>merge_table = t\<rparr>"
    using assms(2) by (cases "merges_from v strict 0 rules Map.empty") (auto simp: merges_new_def)
  show ?thesis using merges_from_first [OF assms(1) t(1) assms(3,4)] by (simp add: merges_get_def t(2))
qed

text \<open>Merging keeps the text: the result's piece is the two pieces joined.\<close>

lemma merges_text:
  assumes "vocab_built ps types v" "merges_new v rules strict = Inr m" "a < 2 ^ 32" "b < 2 ^ 32"
    "merges_get m a b = Some (rank, c)"
  shows "vocab_piece v c = vocab_piece v a @ vocab_piece v b" "c < 2 ^ 32"
proof -
  obtain i where i: "position (rule_pair v a b) rules = Some i"
    and c: "c = snd (the (rule_ids v (rules ! i)))"
    using merges_new_first [OF assms(1-4)] assms(5)
    by (cases "position (rule_pair v a b) rules") auto
  have "rule_pair v a b (rules ! i)" using i by (simp add: position_iff)
  then have "rule_ids v (rules ! i) = Some ((a, b), c)" using c by (auto simp: rule_pair_def)
  from rule_ids_text [OF assms(1) this]
  show "vocab_piece v c = vocab_piece v a @ vocab_piece v b" "c < 2 ^ 32" by simp_all
qed

section \<open>The GPT-2 alphabet\<close>

text \<open>Bytes and characters are their code points; \<open>char::from_u32\<close> cannot fail on the values used.\<close>

definition is_identity_byte :: "nat \<Rightarrow> bool" where
  "is_identity_byte b \<longleftrightarrow> 0x21 \<le> b \<and> b \<le> 0x7e \<or> 0xa1 \<le> b \<and> b \<le> 0xac \<or> 0xae \<le> b \<and> b \<le> 0xff"

definition REMAPPED :: nat where "REMAPPED = 68"

fun byte_to_char_loop :: "nat list \<Rightarrow> nat \<Rightarrow> nat list \<Rightarrow> nat list" where
  "byte_to_char_loop [] nxt table = table"
| "byte_to_char_loop (b # bs) nxt table =
     (if is_identity_byte b then byte_to_char_loop bs nxt (table[b := b])
      else byte_to_char_loop bs (nxt + 1) (table[b := nxt]))"

definition BYTE_TO_CHAR :: "nat list" where
  "BYTE_TO_CHAR = byte_to_char_loop [0..<256] 256 (replicate 256 0)"

fun remapped_loop :: "nat list \<Rightarrow> nat \<Rightarrow> nat list \<Rightarrow> nat list" where
  "remapped_loop [] n table = table"
| "remapped_loop (b # bs) n table =
     (if \<not> is_identity_byte b then remapped_loop bs (n + 1) (table[n := b])
      else remapped_loop bs n table)"

definition REMAPPED_BYTES :: "nat list" where
  "REMAPPED_BYTES = remapped_loop [0..<256] 0 (replicate REMAPPED 0)"

definition byte_to_char :: "nat \<Rightarrow> nat" where
  "byte_to_char byte = BYTE_TO_CHAR ! byte"

definition char_to_byte :: "nat \<Rightarrow> nat option" where
  "char_to_byte c =
     (if c < 256 then (if is_identity_byte c then Some c else None)
      else if c - 256 < length REMAPPED_BYTES then Some (REMAPPED_BYTES ! (c - 256)) else None)"

text \<open>The tables the loops build: \<open>remapped_below\<close> counts the remapped bytes below one.\<close>

definition remapped_below :: "nat \<Rightarrow> nat" where
  "remapped_below b =
     (if b \<le> 33 then b else if b \<le> 127 then 33 else if b \<le> 161 then b - 94
      else if b \<le> 173 then 67 else 68)"

lemma remapped_below_Suc:
  "b < 256 \<Longrightarrow> remapped_below (Suc b) = remapped_below b + (if is_identity_byte b then 0 else 1)"
  by (auto simp: remapped_below_def is_identity_byte_def)

lemma byte_to_char_loop_nth:
  "b \<le> 256 \<Longrightarrow> length t = 256 \<Longrightarrow> i < 256 \<Longrightarrow>
     byte_to_char_loop [b..<256] (256 + remapped_below b) t ! i =
       (if i < b then t ! i else if is_identity_byte i then i else 256 + remapped_below i)"
proof (induction "256 - b" arbitrary: b t)
  case (Suc n)
  then have up: "[b..<256] = b # [Suc b..<256]" and n: "n = 256 - Suc b" and b: "b < 256"
    by (auto simp: upt_conv_Cons)
  show ?case
    using Suc.hyps(1) [OF n, of "t[b := b]"] Suc.hyps(1) [OF n, of "t[b := 256 + remapped_below b]"]
      Suc.prems b remapped_below_Suc [OF b]
    by (auto simp: up nth_list_update less_Suc_eq)
qed simp

lemma remapped_loop_nth:
  "b \<le> 256 \<Longrightarrow> length t = 68 \<Longrightarrow>
     length (remapped_loop [b..<256] (remapped_below b) t) = 68 \<and>
     (\<forall>k < remapped_below b. remapped_loop [b..<256] (remapped_below b) t ! k = t ! k) \<and>
     (\<forall>i. b \<le> i \<and> i < 256 \<and> \<not> is_identity_byte i \<longrightarrow>
        remapped_loop [b..<256] (remapped_below b) t ! remapped_below i = i)"
proof (induction "256 - b" arbitrary: b t)
  case (Suc n)
  then have up: "[b..<256] = b # [Suc b..<256]" and n: "n = 256 - Suc b" and b: "b < 256"
    by (auto simp: upt_conv_Cons)
  show ?case
  proof (cases "is_identity_byte b")
    case True
    have eq: "remapped_loop [b..<256] (remapped_below b) t = remapped_loop [Suc b..<256] (remapped_below b) t"
      using True by (simp add: up)
    have IH: "length (remapped_loop [Suc b..<256] (remapped_below b) t) = 68"
      "\<And>k. k < remapped_below b \<Longrightarrow> remapped_loop [Suc b..<256] (remapped_below b) t ! k = t ! k"
      "\<And>i. Suc b \<le> i \<Longrightarrow> i < 256 \<Longrightarrow> \<not> is_identity_byte i \<Longrightarrow>
        remapped_loop [Suc b..<256] (remapped_below b) t ! remapped_below i = i"
      using Suc.hyps(1) [OF n, of t] Suc.prems b remapped_below_Suc [OF b] True by auto
    have "remapped_loop [Suc b..<256] (remapped_below b) t ! remapped_below i = i"
      if "b \<le> i" "i < 256" "\<not> is_identity_byte i" for i
      using that True by (intro IH(3)) (auto simp: Suc_le_eq le_less)
    then show ?thesis using IH(1,2) unfolding eq by blast
  next
    case False
    have k: "remapped_below b < 68" using False b by (auto simp: remapped_below_def is_identity_byte_def)
    let ?t = "t[remapped_below b := b]"
    have IH: "length (remapped_loop [Suc b..<256] (Suc (remapped_below b)) ?t) = 68"
      "\<And>k. k < Suc (remapped_below b) \<Longrightarrow> remapped_loop [Suc b..<256] (Suc (remapped_below b)) ?t ! k = ?t ! k"
      "\<And>i. Suc b \<le> i \<Longrightarrow> i < 256 \<Longrightarrow> \<not> is_identity_byte i \<Longrightarrow>
        remapped_loop [Suc b..<256] (Suc (remapped_below b)) ?t ! remapped_below i = i"
      using Suc.hyps(1) [OF n, of ?t] Suc.prems b remapped_below_Suc [OF b] False by auto
    have "remapped_loop [b..<256] (remapped_below b) t = remapped_loop [Suc b..<256] (Suc (remapped_below b)) ?t"
      using False by (simp add: up)
    moreover have "remapped_loop [Suc b..<256] (Suc (remapped_below b)) ?t ! remapped_below i = i"
      if "b \<le> i" "i < 256" "\<not> is_identity_byte i" for i
    proof (cases "i = b")
      case True
      then show ?thesis using IH(2) [of "remapped_below b"] k Suc.prems(2) by simp
    next
      case False
      then show ?thesis using IH(3) [of i] that by simp
    qed
    moreover have "remapped_loop [Suc b..<256] (Suc (remapped_below b)) ?t ! j = t ! j"
      if "j < remapped_below b" for j
      using IH(2) [of j] that by simp
    ultimately show ?thesis using IH(1) by simp
  qed
qed simp

lemma byte_to_char_remapped:
  "b < 256 \<Longrightarrow> byte_to_char b = (if is_identity_byte b then b else 256 + remapped_below b)"
  using byte_to_char_loop_nth [of 0 "replicate 256 0" b]
  by (simp add: byte_to_char_def BYTE_TO_CHAR_def remapped_below_def [of 0])

lemma REMAPPED_BYTES_nth:
  "length REMAPPED_BYTES = 68"
  "b < 256 \<Longrightarrow> \<not> is_identity_byte b \<Longrightarrow> REMAPPED_BYTES ! remapped_below b = b"
  using remapped_loop_nth [of 0 "replicate 68 0"]
  by (simp_all add: REMAPPED_BYTES_def REMAPPED_def remapped_below_def [of 0])

lemma remapped_cases:
  assumes "k < 68"
  obtains b where "b < 256" "\<not> is_identity_byte b" "remapped_below b = k"
proof -
  consider "k < 33" | "33 \<le> k" "k < 67" | "k = 67" using assms by linarith
  then show ?thesis
  proof cases
    case 1
    then show ?thesis using that [of k] by (simp add: is_identity_byte_def remapped_below_def)
  next
    case 2
    then show ?thesis using that [of "k + 94"] by (simp add: is_identity_byte_def remapped_below_def)
  next
    case 3
    then show ?thesis using that [of 173] by (simp add: is_identity_byte_def remapped_below_def)
  qed
qed

lemma remapped_below_less: "b < 256 \<Longrightarrow> \<not> is_identity_byte b \<Longrightarrow> remapped_below b < 68"
  by (auto simp: remapped_below_def is_identity_byte_def)

lemma char_of_byte: "b < 256 \<Longrightarrow> char_to_byte (byte_to_char b) = Some b"
  by (auto simp: byte_to_char_remapped char_to_byte_def REMAPPED_BYTES_nth remapped_below_less)

lemma byte_of_char: "char_to_byte c = Some b \<Longrightarrow> b < 256 \<and> byte_to_char b = c"
proof (cases "c < 256")
  case False
  assume c: "char_to_byte c = Some b"
  with False have k: "c - 256 < 68" and b: "b = REMAPPED_BYTES ! (c - 256)"
    by (auto simp: char_to_byte_def REMAPPED_BYTES_nth split: if_splits)
  obtain a where a: "a < 256" "\<not> is_identity_byte a" "remapped_below a = c - 256"
    using remapped_cases [OF k] .
  with b have "b = a" using REMAPPED_BYTES_nth(2) [of a] by simp
  then show ?thesis using False a by (simp add: byte_to_char_remapped)
qed (auto simp: char_to_byte_def byte_to_char_remapped split: if_splits)

lemma sample_vocab:
  obtains v where "vocab_new (map utf8_bytes [[97], [97, 97]]) [1, 1] = Some (Inr v)"
    "vocab_get v [97] = Some 0" "vocab_get v [97, 97] = Some 1" "vocab_get v [97, 97, 97] = None"
proof -
  have "\<exists>v. vocab_new (map utf8_bytes [[97], [97, 97]]) [1, 1] = Some (Inr v) \<and>
      vocab_built (map utf8_bytes [[97], [97, 97]]) [1, 1] v"
    by (rule vocab_new_builds)
      (auto simp: str_start_def is_cont_def u32_max_def EMPTY_SLOT_def utf8_bytes_def encode_char_def)
  then obtain v where "vocab_new (map utf8_bytes [[97], [97, 97]]) [1, 1] = Some (Inr v)"
    "vocab_built (map utf8_bytes [[97], [97, 97]]) [1, 1] v" by blast
  with built_get [OF this(2)] show ?thesis
    by (intro that) (auto simp: first_id_def utf8_bytes_def encode_char_def)
qed

definition sample_merges :: merges where
  "sample_merges = \<lparr>merge_table = [pair_key 0 0 \<mapsto> (0, 1)]\<rparr>"

lemma sample_rules:
  "vocab_get v [97] = Some 0 \<Longrightarrow> vocab_get v [97, 97] = Some 1 \<Longrightarrow>
     merges_new v [[97, 32, 97]] True = Inr sample_merges"
  by (simp add: merges_new_def merges_from.simps(2) rule_split_def sample_merges_def)

lemma sample_get:
  "merges_get sample_merges 0 0 = Some (0, 1)" "a < 2 ^ 32 \<Longrightarrow> 0 < a \<Longrightarrow> merges_get sample_merges a 0 = None"
proof -
  show "merges_get sample_merges 0 0 = Some (0, 1)" by (simp add: merges_get_def sample_merges_def)
  assume "a < 2 ^ 32" "0 < a"
  then have "pair_key a 0 \<noteq> pair_key 0 0" using pair_key_inj [of a 0 0 0] by auto
  then show "merges_get sample_merges a 0 = None" by (simp add: merges_get_def sample_merges_def)
qed

section \<open>Properties\<close>

text \<open>
C32: Merging a word never indexes outside its symbols and appends exactly the ids of the reference:
  start from the word's characters and merge, as long as some adjacent pair has a rule, the
  leftmost of the pairs of lowest rank. The heap with its stale entries and the linked list are an
  optimisation of that. (A Rust string is shorter than \<open>usize::MAX\<close>, the list's sentinel.)
\<close>

theorem merge_word_is_reference:
  assumes "length word < USIZE_NONE"
  shows "merge_word m vocab word unknown out = Some (out @ bpe_reference m vocab word unknown)"
  using assms by (rule merge_word_reference)

theorem merge_word_is_reference_witness:
  "\<exists>v. vocab_new (map utf8_bytes [[97], [97, 97]]) [1, 1] = Some (Inr v) \<and>
     merges_new v [[97, 32, 97]] True = Inr sample_merges \<and>
     merge_word sample_merges v [97, 97, 97] DropUnknown [7] = Some [7, 1, 0]"
proof -
  obtain v where v: "vocab_new (map utf8_bytes [[97], [97, 97]]) [1, 1] = Some (Inr v)"
    "vocab_get v [97] = Some 0" "vocab_get v [97, 97] = Some 1" "vocab_get v [97, 97, 97] = None"
    by (rule sample_vocab)
  have "best_merge (bpe_cand sample_merges) (char_syms v [97, 97, 97]) = Some (0, 0, (Some 1, [97, 97]))"
    using v(2) by (simp add: best_merge_def char_syms_def bpe_cand_def sample_get encode_char_def min_by_key_def)
  moreover have "best_merge (bpe_cand sample_merges)
      (merge_at 0 (Some 1, [97, 97]) (char_syms v [97, 97, 97])) = None"
    using v(2) sample_get(2) [of 1]
    by (simp add: best_merge_def char_syms_def bpe_cand_def encode_char_def min_by_key_def merge_at_def)
  ultimately have "bpe_reference sample_merges v [97, 97, 97] DropUnknown = [1, 0]"
    using v(2) unfolding bpe_reference_def
    by (simp add: merge_all.simps [of _ "char_syms v [97, 97, 97]"] merge_all.simps [of _ "merge_at 0 x y" for x y])
      (simp add: merge_at_def char_syms_def encode_char_def)
  then show ?thesis
    using v sample_rules merge_word_is_reference [of "[97, 97, 97]" sample_merges v DropUnknown "[7]"]
    by (simp add: USIZE_NONE_def u64_max_def)
qed

text \<open>

  The rule table maps a pair of ids to the first rule that names it, with the rule's position as
  its rank: later rules for the same pair, and in lenient mode the rules with a part outside the
  vocabulary, change nothing.
\<close>

theorem first_rule_wins:
  assumes "vocab_new (map utf8_bytes texts) types = Some (Inr v)"
    and "merges_new v rules strict = Inr m" "a < 2 ^ 32" "b < 2 ^ 32"
  shows "merges_get m a b =
    map_option (\<lambda>i. (i mod 2 ^ 32, snd (the (rule_ids v (rules ! i))))) (position (rule_pair v a b) rules)"
proof -
  have "vocab_built (map utf8_bytes texts) types v"
    using vocab_new_Inr(1) [OF assms(1)] by (auto simp: str_start_utf8)
  from merges_new_first [OF this assms(2-4)] show ?thesis .
qed

theorem first_rule_wins_witness:
  "\<exists>v. vocab_new (map utf8_bytes [[97], [97, 97]]) [1, 1] = Some (Inr v) \<and>
     merges_new v [[97, 32, 97]] True = Inr sample_merges \<and> merges_get sample_merges 0 0 = Some (0, 1)"
proof -
  obtain v where v: "vocab_new (map utf8_bytes [[97], [97, 97]]) [1, 1] = Some (Inr v)"
    "vocab_get v [97] = Some 0" "vocab_get v [97, 97] = Some 1" "vocab_get v [97, 97, 97] = None"
    by (rule sample_vocab)
  have "rule_ids v [97, 32, 97] = Some ((0, 0), 1)"
    using v by (simp add: rule_ids_def rule_split_def)
  then show ?thesis
    using first_rule_wins [OF v(1) sample_rules [OF v(2,3)], of 0 0] v(1) sample_rules [OF v(2,3)]
    by (simp add: rule_pair_def)
qed

text \<open>

  The GPT-2 alphabet is a bijection between the bytes and its characters: every byte comes back
  from its character, and a character that stands for a byte is that byte's character.
\<close>

theorem gpt2_alphabet_roundtrip:
  "(b < 256 \<longrightarrow> char_to_byte (byte_to_char b) = Some b) \<and>
   (char_to_byte c = Some b \<longrightarrow> b < 256 \<and> byte_to_char b = c)"
  using char_of_byte byte_of_char by blast

theorem gpt2_alphabet_roundtrip_witness:
  "char_to_byte (byte_to_char 32) = Some 32 \<and> char_to_byte 97 = Some 97 \<and> byte_to_char 97 = 97"
proof -
  have "char_to_byte 97 = Some 97" by (simp add: char_to_byte_def is_identity_byte_def)
  then show ?thesis
    using gpt2_alphabet_roundtrip [of 32 97] gpt2_alphabet_roundtrip [of 97 97] by simp
qed

end
