(* ===== verification/Spm.thy ===== *)
theory Spm
  imports Bpe
begin

unbundle bit_operations_syntax

text \<open>
  \<open>src/provider/local/tokenizer/spm.rs\<close>: the SentencePiece encoder. The escaped text is cut into
  character symbols in a linked list over vector indices, and a queue of candidate pairs, ordered
  by the score of the merged token and then by the left index, drives the merging. A score is the
  bit pattern of an \<open>f32\<close>; only the order \<open>total_cmp\<close> of the scores matters. \<open>None\<close> is a panic: an
  index out of the vector or a string range that is not on character boundaries.
\<close>

section \<open>Scores\<close>

text \<open>
  \<open>s + 0.0\<close> changes only a negative zero (a NaN stays one), and \<open>total_cmp\<close> compares the bit
  patterns as signed integers, the lower 31 bits of a negative one complemented.
\<close>

definition f32_add_zero :: "32 word \<Rightarrow> 32 word" where
  "f32_add_zero s = (if s = 0x80000000 then 0 else s)"

definition f32_total_key :: "32 word \<Rightarrow> int" where
  "f32_total_key s = sint (s XOR drop_bit 1 (signed_drop_bit 31 s))"

record spm =
  spm_scores :: "32 word list"
  spm_add_space_prefix :: bool

definition spm_new :: "32 word list \<Rightarrow> bool \<Rightarrow> spm" where
  "spm_new scores add_space_prefix =
     \<lparr>spm_scores = map f32_add_zero scores, spm_add_space_prefix = add_space_prefix\<rparr>"

section \<open>Symbols and candidate merges\<close>

record spm_symbol =
  ss_start :: nat
  ss_len :: nat
  ss_prev :: nat
  ss_next :: nat

record bigram =
  bg_score :: "32 word"
  bg_left :: nat
  bg_right :: nat
  bg_size :: nat

text \<open>The queue is a max-heap: the greatest score first, then the smallest left index.\<close>

definition bigram_key :: "bigram \<Rightarrow> int \<times> nat" where
  "bigram_key b = (- f32_total_key (bg_score b), bg_left b)"

definition try_add_bigram ::
  "spm \<Rightarrow> vocab \<Rightarrow> bytes \<Rightarrow> spm_symbol list \<Rightarrow> bigram list \<Rightarrow> nat \<Rightarrow> nat \<Rightarrow> bigram list option" where
  "try_add_bigram spm vocab text symbols queue left right =
     (if left = USIZE_NONE \<or> right = USIZE_NONE then Some queue
      else if \<not> (left < length symbols \<and> right < length symbols) then None
      else
        let size = ss_len (symbols ! left) + ss_len (symbols ! right);
            start = ss_start (symbols ! left) in
        case str_get text start (start + size) of
          None \<Rightarrow> None
        | Some piece \<Rightarrow>
            (case vocab_get vocab piece of
               None \<Rightarrow> Some queue
             | Some i \<Rightarrow>
                 if i < length (spm_scores spm) then
                   Some (heap_push \<lparr>bg_score = spm_scores spm ! i, bg_left = left,
                                    bg_right = right, bg_size = size\<rparr> queue)
                 else Some queue))"

text \<open>\<open>index.wrapping_sub(1)\<close>\<close>

definition wrapping_pred :: "nat \<Rightarrow> nat" where
  "wrapping_pred i = (if i = 0 then u64_max else i - 1)"

fun spm_symbols :: "nat \<Rightarrow> nat \<Rightarrow> utext \<Rightarrow> spm_symbol list \<Rightarrow> spm_symbol list" where
  "spm_symbols text_len start [] symbols = symbols"
| "spm_symbols text_len start (c # cs) symbols =
     (let index = length symbols; len = length (encode_char c) in
      spm_symbols text_len (start + len) cs
        (symbols @ [\<lparr>ss_start = start, ss_len = len, ss_prev = wrapping_pred index,
                     ss_next = (if start + len = text_len then USIZE_NONE else index + 1)\<rparr>]))"

fun add_bigrams ::
  "spm \<Rightarrow> vocab \<Rightarrow> bytes \<Rightarrow> spm_symbol list \<Rightarrow> nat list \<Rightarrow> bigram list \<Rightarrow> bigram list option" where
  "add_bigrams spm vocab text symbols [] queue = Some queue"
| "add_bigrams spm vocab text symbols (right # rights) queue =
     Option.bind (try_add_bigram spm vocab text symbols queue (right - 1) right)
       (add_bigrams spm vocab text symbols rights)"

definition spm_merge :: "spm_symbol list \<Rightarrow> nat \<Rightarrow> nat \<Rightarrow> spm_symbol list" where
  "spm_merge symbols left right =
     (let symbols = symbols[left := (symbols ! left)\<lparr>ss_len := ss_len (symbols ! left) + ss_len (symbols ! right)\<rparr>];
          symbols = symbols[right := (symbols ! right)\<lparr>ss_len := 0\<rparr>];
          after = ss_next (symbols ! right);
          symbols = symbols[left := (symbols ! left)\<lparr>ss_next := after\<rparr>]
      in if after \<noteq> USIZE_NONE
         then symbols[after := (symbols ! after)\<lparr>ss_prev := left\<rparr>] else symbols)"

definition spm_apply ::
  "spm \<Rightarrow> vocab \<Rightarrow> bytes \<Rightarrow> spm_symbol list \<Rightarrow> nat \<Rightarrow> nat \<Rightarrow> bigram list \<Rightarrow>
     (spm_symbol list \<times> bigram list) option" where
  "spm_apply spm vocab text symbols left right queue =
     (let after = ss_next (symbols ! right);
          symbols' = spm_merge symbols left right;
          before = ss_prev (symbols' ! left)
      in if after \<noteq> USIZE_NONE \<and> \<not> after < length symbols then None
         else
           Option.bind (try_add_bigram spm vocab text symbols' queue before left)
             (\<lambda>queue. map_option (\<lambda>queue. (symbols', queue))
                (try_add_bigram spm vocab text symbols' queue left after)))"

definition spm_step ::
  "spm \<Rightarrow> vocab \<Rightarrow> bytes \<Rightarrow> spm_symbol list \<Rightarrow> bigram \<Rightarrow> bigram list \<Rightarrow>
     (spm_symbol list \<times> bigram list) option" where
  "spm_step spm vocab text symbols bigram queue =
     (let left = bg_left bigram; right = bg_right bigram in
      if \<not> (left < length symbols \<and> right < length symbols) then None
      else if ss_len (symbols ! left) = 0 \<or> ss_len (symbols ! right) = 0 \<or>
          ss_len (symbols ! left) + ss_len (symbols ! right) \<noteq> bg_size bigram
      then Some (symbols, queue)
      else spm_apply spm vocab text symbols left right queue)"

definition spm_live :: "spm_symbol list \<Rightarrow> nat" where
  "spm_live symbols = length (filter (\<lambda>s. ss_len s \<noteq> 0) symbols)"

lemma length_spm_merge [simp]: "length (spm_merge s l r) = length s"
  by (simp add: spm_merge_def Let_def)

lemma len_spm_merge:
  "map ss_len (spm_merge s l r) = (map ss_len s)[l := ss_len (s ! l) + ss_len (s ! r), r := 0]"
proof -
  have keep: "(map ss_len xs)[i := ss_len (xs ! i)] = map ss_len xs" for xs :: "spm_symbol list" and i
  proof (cases "i < length xs")
    case True
    then have "ss_len (xs ! i) = map ss_len xs ! i" by simp
    then show ?thesis by (simp only: list_update_id)
  qed (simp add: list_update_beyond)
  have same: "map ss_len (xs[i := (xs ! i)\<lparr>ss_len := n\<rparr>]) = (map ss_len xs)[i := n]"
    "map ss_len (xs[i := (xs ! i)\<lparr>ss_next := c\<rparr>]) = map ss_len xs"
    "map ss_len (xs[i := (xs ! i)\<lparr>ss_prev := d\<rparr>]) = map ss_len xs"
    for xs :: "spm_symbol list" and i n c d
    using keep [of xs i] by (simp_all add: map_update)
  show ?thesis
    by (simp only: spm_merge_def Let_def if_distrib [of "map ss_len"] same if_cancel)
qed

lemma live_spm_merge:
  assumes "l < length s" "r < length s" "ss_len (s ! l) \<noteq> 0" "ss_len (s ! r) \<noteq> 0"
  shows "spm_live (spm_merge s l r) < spm_live s"
proof -
  let ?live = "map (\<lambda>n. n \<noteq> 0) (map ss_len s)"
  have live: "spm_live t = length (filter id (map (\<lambda>n. n \<noteq> 0) (map ss_len t)))" for t
    by (simp add: spm_live_def filter_map o_def)
  have "map (\<lambda>n. n \<noteq> 0) (map ss_len (spm_merge s l r)) = ?live[r := False]"
    using assms unfolding len_spm_merge
    by (intro nth_equalityI) (auto simp: nth_list_update)
  then show ?thesis
    using filter_update_less [of r ?live] assms(2,4) unfolding live by simp
qed

lemma try_add_length: "try_add_bigram spm v t s q l r = Some q' \<Longrightarrow> length q' \<le> Suc (length q)"
  by (auto simp: try_add_bigram_def heap_push_def Let_def split: if_splits option.splits)

lemma spm_step_decreases:
  assumes "spm_step spm v t s b q = Some (s', q')"
  shows "2 * spm_live s' + length q' \<le> 2 * spm_live s + length q"
proof (cases "s' = s \<and> q' = q")
  case False
  let ?l = "bg_left b" and ?r = "bg_right b"
  have live: "?l < length s" "?r < length s" "ss_len (s ! ?l) \<noteq> 0" "ss_len (s ! ?r) \<noteq> 0"
    and step: "spm_apply spm v t s ?l ?r q = Some (s', q')"
    using assms False by (auto simp: spm_step_def Let_def split: if_splits)
  have "s' = spm_merge s ?l ?r"
    using step by (auto simp: spm_apply_def Let_def split: if_splits bind_splits)
  moreover have "length q' \<le> length q + 2"
    using step by (auto simp: spm_apply_def Let_def split: if_splits bind_splits dest!: try_add_length)
  ultimately show ?thesis using live_spm_merge [OF live] by simp
qed simp

function spm_loop :: "spm \<Rightarrow> vocab \<Rightarrow> bytes \<Rightarrow> spm_symbol list \<Rightarrow> bigram list \<Rightarrow> spm_symbol list option" where
  "spm_loop spm vocab text symbols queue =
     (case heap_pop bigram_key queue of
        None \<Rightarrow> Some symbols
      | Some (bigram, queue) \<Rightarrow>
          (case spm_step spm vocab text symbols bigram queue of
             None \<Rightarrow> None
           | Some (symbols, queue) \<Rightarrow> spm_loop spm vocab text symbols queue))"
  by pat_completeness auto
termination
  by (relation "measure (\<lambda>(spm, v, t, s, q). 2 * spm_live s + length q)")
    (auto dest!: heap_pop_length spm_step_decreases)

declare spm_loop.simps [simp del]

text \<open>The output walk; as many steps as there are symbols are enough.\<close>

fun spm_emit :: "vocab \<Rightarrow> bytes \<Rightarrow> spm_symbol list \<Rightarrow> nat \<Rightarrow> nat \<Rightarrow> nat list \<Rightarrow> nat list option" where
  "spm_emit vocab text symbols fuel index out =
     (if index \<noteq> USIZE_NONE then
        (case fuel of
           0 \<Rightarrow> None
         | Suc fuel \<Rightarrow>
             if index < length symbols then
               let s = symbols ! index in
               Option.bind (str_get text (ss_start s) (ss_start s + ss_len s))
                 (\<lambda>piece. spm_emit vocab text symbols fuel (ss_next s)
                    (case vocab_get vocab piece of
                       Some i \<Rightarrow> out @ [i] | None \<Rightarrow> out @ byte_tokens vocab piece))
             else None)
      else Some out)"

declare spm_emit.simps [simp del]

definition spm_tokenize :: "spm \<Rightarrow> vocab \<Rightarrow> utext \<Rightarrow> nat list \<Rightarrow> nat list option" where
  "spm_tokenize spm vocab text out =
     (let bytes = utf8_bytes text; symbols = spm_symbols (length bytes) 0 text [] in
      if symbols = [] then Some out
      else
        Option.bind (add_bigrams spm vocab bytes symbols [1..<length symbols] [])
          (\<lambda>queue. Option.bind (spm_loop spm vocab bytes symbols queue)
             (\<lambda>symbols. spm_emit vocab bytes symbols (length symbols) 0 out)))"

definition SPACE_MARK :: nat where "SPACE_MARK = 0x2581"

definition escape_char :: "nat \<Rightarrow> nat" where
  "escape_char c = (if c = 32 then SPACE_MARK else c)"

text \<open>\<open>Spm::encode_fragment\<close>\<close>

definition spm_encode_fragment :: "spm \<Rightarrow> vocab \<Rightarrow> utext \<Rightarrow> bool \<Rightarrow> nat list \<Rightarrow> nat list option" where
  "spm_encode_fragment spm vocab raw after_special out =
     spm_tokenize spm vocab
       ((if spm_add_space_prefix spm \<and> after_special then [SPACE_MARK] else []) @ map escape_char raw)
       out"

section \<open>The reference\<close>

text \<open>
  Pieces are their texts; two neighbours merge when the joined text is a token with a score, the
  greatest score first and the leftmost pair on a tie.
\<close>

definition spm_cand :: "spm \<Rightarrow> vocab \<Rightarrow> bytes \<Rightarrow> bytes \<Rightarrow> (int \<times> bytes) option" where
  "spm_cand spm vocab x y =
     (case vocab_get vocab (x @ y) of
        None \<Rightarrow> None
      | Some i \<Rightarrow>
          if i < length (spm_scores spm) then Some (- f32_total_key (spm_scores spm ! i), x @ y) else None)"

definition spm_piece_ids :: "vocab \<Rightarrow> bytes \<Rightarrow> nat list" where
  "spm_piece_ids vocab piece =
     (case vocab_get vocab piece of Some i \<Rightarrow> [i] | None \<Rightarrow> byte_tokens vocab piece)"

definition spm_reference :: "spm \<Rightarrow> vocab \<Rightarrow> utext \<Rightarrow> nat list" where
  "spm_reference spm vocab text =
     concat (map (spm_piece_ids vocab) (merge_all (spm_cand spm vocab) (map encode_char text)))"

section \<open>The linked list and the queue follow the reference\<close>

abbreviation spm_content :: "bytes \<Rightarrow> spm_symbol list \<Rightarrow> nat \<Rightarrow> bytes" where
  "spm_content w s i \<equiv> slice (ss_start (s ! i)) (ss_start (s ! i) + ss_len (s ! i)) w"

definition spm_list :: "bytes \<Rightarrow> spm_symbol list \<Rightarrow> nat list \<Rightarrow> bool" where
  "spm_list w s is \<longleftrightarrow>
     linked (\<lambda>i. ss_next (s ! i)) (\<lambda>i. ss_prev (s ! i)) is \<and>
     (\<forall>i < length s. ss_len (s ! i) \<noteq> 0 \<longleftrightarrow> i \<in> set is) \<and> set is \<subseteq> {..<length s} \<and>
     (is \<noteq> [] \<longrightarrow> hd is = 0) \<and> length s < USIZE_NONE \<and>
     (\<forall>i \<in> set is. ss_start (s ! i) + ss_len (s ! i) \<le> length w \<and>
        is_char_boundary w (ss_start (s ! i)) \<and> is_char_boundary w (ss_start (s ! i) + ss_len (s ! i))) \<and>
     (\<forall>j. Suc j < length is \<longrightarrow>
        ss_start (s ! (is ! j)) + ss_len (s ! (is ! j)) = ss_start (s ! (is ! Suc j)))"

definition bigram_current :: "spm_symbol list \<Rightarrow> bigram \<Rightarrow> bool" where
  "bigram_current s b \<longleftrightarrow> ss_len (s ! bg_left b) + ss_len (s ! bg_right b) = bg_size b"

definition spm_entries :: "spm_symbol list \<Rightarrow> bigram list \<Rightarrow> (int \<times> nat \<times> nat) set" where
  "spm_entries s q =
     (\<lambda>b. (- f32_total_key (bg_score b), bg_left b, bg_right b)) ` {b \<in> set q. bigram_current s b}"

definition bigram_ok :: "spm \<Rightarrow> vocab \<Rightarrow> bytes \<Rightarrow> spm_symbol list \<Rightarrow> bigram \<Rightarrow> bool" where
  "bigram_ok spm v w s b \<longleftrightarrow>
     bg_left b < length s \<and> bg_right b < length s \<and>
     (\<exists>i. vocab_get v (slice (ss_start (s ! bg_left b)) (ss_start (s ! bg_left b) + bg_size b) w) = Some i \<and>
          i < length (spm_scores spm) \<and> bg_score b = spm_scores spm ! i) \<and>
     (ss_len (s ! bg_left b) \<noteq> 0 \<longrightarrow> ss_len (s ! bg_right b) \<noteq> 0 \<longrightarrow>
        ss_next (s ! bg_left b) = bg_right b)"

definition spm_queue :: "spm \<Rightarrow> vocab \<Rightarrow> bytes \<Rightarrow> spm_symbol list \<Rightarrow> nat list \<Rightarrow> bigram list \<Rightarrow> bool" where
  "spm_queue spm v w s is q \<longleftrightarrow>
     covered (spm_cand spm v) (spm_content w s) is (spm_entries s q) \<and>
     (\<forall>b \<in> set q. bigram_ok spm v w s b)"

lemma spm_list_linked: "spm_list w s is \<Longrightarrow> linked (\<lambda>i. ss_next (s ! i)) (\<lambda>i. ss_prev (s ! i)) is"
  by (simp add: spm_list_def)

lemma spm_list_index: "spm_list w s is \<Longrightarrow> j < length is \<Longrightarrow> is ! j < length s"
  using nth_mem [of j "is"] by (auto simp: spm_list_def simp del: nth_mem)

lemma spm_list_at:
  assumes "spm_list w s is" "j < length is"
  shows "ss_len (s ! (is ! j)) \<noteq> 0" "ss_start (s ! (is ! j)) + ss_len (s ! (is ! j)) \<le> length w"
    "is_char_boundary w (ss_start (s ! (is ! j)))"
    "is_char_boundary w (ss_start (s ! (is ! j)) + ss_len (s ! (is ! j)))"
  using assms nth_mem [OF assms(2)] spm_list_index [OF assms] by (auto simp: spm_list_def simp del: nth_mem)

lemma spm_list_adj:
  "spm_list w s is \<Longrightarrow> Suc j < length is \<Longrightarrow>
     ss_start (s ! (is ! Suc j)) = ss_start (s ! (is ! j)) + ss_len (s ! (is ! j))"
  by (simp add: spm_list_def)

text \<open>Two neighbours together.\<close>

lemma spm_pair_text:
  assumes "spm_list w s is" "Suc j < length is"
  shows "str_get w (ss_start (s ! (is ! j))) (ss_start (s ! (is ! j)) + (ss_len (s ! (is ! j)) + ss_len (s ! (is ! Suc j)))) =
      Some (spm_content w s (is ! j) @ spm_content w s (is ! Suc j))"
    and "slice (ss_start (s ! (is ! j))) (ss_start (s ! (is ! j)) + (ss_len (s ! (is ! j)) + ss_len (s ! (is ! Suc j)))) w =
      spm_content w s (is ! j) @ spm_content w s (is ! Suc j)"
proof -
  have j: "j < length is" using assms(2) by simp
  note at = spm_list_at [OF assms(1) j] spm_list_at [OF assms] spm_list_adj [OF assms]
  have eq: "ss_start (s ! (is ! j)) + (ss_len (s ! (is ! j)) + ss_len (s ! (is ! Suc j))) =
      ss_start (s ! (is ! Suc j)) + ss_len (s ! (is ! Suc j))"
    using at by simp
  show slice: "slice (ss_start (s ! (is ! j))) (ss_start (s ! (is ! j)) + (ss_len (s ! (is ! j)) + ss_len (s ! (is ! Suc j)))) w =
      spm_content w s (is ! j) @ spm_content w s (is ! Suc j)"
    unfolding eq using at by (simp add: slice_append)
  show "str_get w (ss_start (s ! (is ! j))) (ss_start (s ! (is ! j)) + (ss_len (s ! (is ! j)) + ss_len (s ! (is ! Suc j)))) =
      Some (spm_content w s (is ! j) @ spm_content w s (is ! Suc j))"
    unfolding str_get_def slice unfolding eq using at by simp
qed

text \<open>The entry two neighbours push.\<close>

definition spm_pair :: "spm \<Rightarrow> vocab \<Rightarrow> bytes \<Rightarrow> spm_symbol list \<Rightarrow> nat list \<Rightarrow> nat \<Rightarrow> bigram list" where
  "spm_pair spm v w s is j =
     (if Suc j < length is then
        (case vocab_get v (spm_content w s (is ! j) @ spm_content w s (is ! Suc j)) of
           Some i \<Rightarrow>
             if i < length (spm_scores spm) then
               [\<lparr>bg_score = spm_scores spm ! i, bg_left = is ! j, bg_right = is ! Suc j,
                 bg_size = ss_len (s ! (is ! j)) + ss_len (s ! (is ! Suc j))\<rparr>]
             else []
         | None \<Rightarrow> [])
      else [])"

lemma try_add_linked:
  assumes "spm_list w s is" "Suc j < length is"
  shows "try_add_bigram spm v w s q (is ! j) (is ! Suc j) = Some (spm_pair spm v w s is j @ q)"
proof -
  have "is ! j < length s" "is ! Suc j < length s"
    using spm_list_index [OF assms(1)] assms(2) by auto
  moreover have "is ! j \<noteq> USIZE_NONE" "is ! Suc j \<noteq> USIZE_NONE"
    using linked_not_none [OF spm_list_linked [OF assms(1)]] assms(2) by auto
  ultimately show ?thesis
    using spm_pair_text(1) [OF assms] assms(2)
    by (auto simp: try_add_bigram_def spm_pair_def heap_push_def Let_def split: option.splits)
qed

lemma try_add_next:
  assumes "spm_list w s is" "j < length is"
  shows "try_add_bigram spm v w s q (is ! j) (ss_next (s ! (is ! j))) = Some (spm_pair spm v w s is j @ q)"
proof (cases "Suc j < length is")
  case True
  then show ?thesis
    using try_add_linked [OF assms(1) True] linked_next [OF spm_list_linked [OF assms(1)] assms(2)] by simp
next
  case False
  then show ?thesis
    using linked_next [OF spm_list_linked [OF assms(1)] assms(2)] by (simp add: try_add_bigram_def spm_pair_def)
qed

lemma spm_pair_in:
  assumes "Suc j < length is" "spm_cand spm v (spm_content w s (is ! j)) (spm_content w s (is ! Suc j)) = Some (k, n)"
  shows "(k, is ! j, is ! Suc j) \<in> spm_entries s (spm_pair spm v w s is j)"
  using assms by (auto simp: spm_pair_def spm_cand_def spm_entries_def bigram_current_def split: option.splits if_splits)

lemma spm_pair_cases:
  assumes "b \<in> set (spm_pair spm v w s is j)"
  shows "Suc j < length is \<and>
    (\<exists>i. vocab_get v (spm_content w s (is ! j) @ spm_content w s (is ! Suc j)) = Some i \<and>
      i < length (spm_scores spm) \<and>
      b = \<lparr>bg_score = spm_scores spm ! i, bg_left = is ! j, bg_right = is ! Suc j,
           bg_size = ss_len (s ! (is ! j)) + ss_len (s ! (is ! Suc j))\<rparr>)"
proof (cases "Suc j < length is")
  case True
  show ?thesis
  proof (cases "vocab_get v (spm_content w s (is ! j) @ spm_content w s (is ! Suc j))")
    case None
    then show ?thesis using assms True by (simp add: spm_pair_def)
  next
    case (Some i)
    then show ?thesis using assms True by (cases "i < length (spm_scores spm)") (simp_all add: spm_pair_def)
  qed
qed (use assms in \<open>simp add: spm_pair_def\<close>)

lemma spm_pair_ok:
  assumes "spm_list w s is" "b \<in> set (spm_pair spm v w s is j)"
  shows "bigram_ok spm v w s b"
proof -
  have j: "Suc j < length is" using spm_pair_cases [OF assms(2)] by blast
  obtain i where i: "vocab_get v (spm_content w s (is ! j) @ spm_content w s (is ! Suc j)) = Some i"
    "i < length (spm_scores spm)"
    "b = \<lparr>bg_score = spm_scores spm ! i, bg_left = is ! j, bg_right = is ! Suc j,
          bg_size = ss_len (s ! (is ! j)) + ss_len (s ! (is ! Suc j))\<rparr>"
    using spm_pair_cases [OF assms(2)] by blast
  have "is ! j < length s" "is ! Suc j < length s" using spm_list_index [OF assms(1)] j by auto
  moreover have "ss_next (s ! (is ! j)) = is ! Suc j"
    using linked_next [OF spm_list_linked [OF assms(1)], of j] j by simp
  ultimately show ?thesis using i spm_pair_text(2) [OF assms(1) j] by (simp add: bigram_ok_def)
qed

lemma nth_update: "j < length xs \<Longrightarrow> xs[i := x] ! j = (if i = j then x else xs ! j)"
  by (cases "i = j") auto

lemma nth_spm_merge:
  assumes "l < length s" "r < length s" "l \<noteq> r" "i < length s"
  shows "ss_start (spm_merge s l r ! i) = ss_start (s ! i)"
    and "ss_len (spm_merge s l r ! i) =
      (if i = l then ss_len (s ! l) + ss_len (s ! r) else if i = r then 0 else ss_len (s ! i))"
    and "ss_next (spm_merge s l r ! i) = (if i = l then ss_next (s ! r) else ss_next (s ! i))"
    and "ss_prev (spm_merge s l r ! i) =
      (if i = ss_next (s ! r) \<and> i \<noteq> USIZE_NONE then l else ss_prev (s ! i))"
  using assms by (auto simp: spm_merge_def Let_def nth_update)

lemma spm_list_merge:
  assumes inv: "spm_list w s is" and j: "Suc j < length is"
  defines "s' \<equiv> spm_merge s (is ! j) (is ! Suc j)"
  shows "spm_list w s' (unlink_at j is)"
    and "spm_content w s' (is ! j) = spm_content w s (is ! j) @ spm_content w s (is ! Suc j)"
    and "\<And>i. i \<in> set is \<Longrightarrow> i \<noteq> is ! j \<Longrightarrow> i \<noteq> is ! Suc j \<Longrightarrow> spm_content w s' i = spm_content w s i"
proof -
  note lk = spm_list_linked [OF inv]
  have d: "distinct is" by (rule linked_distinct [OF lk])
  have lr: "is ! j < length s" "is ! Suc j < length s" "is ! j \<noteq> is ! Suc j"
    using j spm_list_index [OF inv] d by (auto simp: nth_eq_iff_index_eq)
  note at = nth_spm_merge [OF lr, folded s'_def]
  have sub: "set is \<subseteq> {..<length s}" and len: "length s < USIZE_NONE"
    using inv by (auto simp: spm_list_def)
  have after: "ss_next (s ! (is ! Suc j)) = (if j + 2 < length is then is ! (j + 2) else USIZE_NONE)"
    using linked_next [OF lk j] by simp
  have jl: "j < length is" using j by simp
  note lfacts = spm_list_at [OF inv jl] and rfacts = spm_list_at [OF inv j] and adj = spm_list_adj [OF inv]
  have "linked (\<lambda>i. ss_next (s' ! i)) (\<lambda>i. ss_prev (s' ! i)) (unlink_at j is)"
  proof (rule linked_unlink [OF lk j])
    show "ss_next (s' ! (is ! j)) = ss_next (s ! (is ! Suc j))" using lr by (simp add: at)
  next
    fix i assume "i \<in> set is" "i \<noteq> is ! j"
    then show "ss_next (s' ! i) = ss_next (s ! i)" using sub by (simp add: at subset_iff)
  next
    assume j2: "j + 2 < length is"
    then have "is ! (j + 2) < length s" by (rule spm_list_index [OF inv])
    then show "ss_prev (s' ! (is ! (j + 2))) = is ! j" using j2 len by (simp add: at after)
  next
    fix i assume "i \<in> set is" "j + 2 < length is \<Longrightarrow> i \<noteq> is ! (j + 2)"
    then show "ss_prev (s' ! i) = ss_prev (s ! i)" using sub by (auto simp: at after subset_iff)
  qed
  moreover have "\<forall>i < length s'. ss_len (s' ! i) \<noteq> 0 \<longleftrightarrow> i \<in> set (unlink_at j is)"
    using inv lfacts(1) lr jl by (auto simp: spm_list_def set_unlink_at [OF j d] s'_def nth_spm_merge [OF lr])
  moreover have "unlink_at j is \<noteq> [] \<and> hd (unlink_at j is) = hd is"
    using j by (cases "is") (auto simp: unlink_at_def)
  moreover have "ss_start (s' ! i) + ss_len (s' ! i) \<le> length w \<and>
      is_char_boundary w (ss_start (s' ! i)) \<and> is_char_boundary w (ss_start (s' ! i) + ss_len (s' ! i))"
    if i: "i \<in> set (unlink_at j is)" for i
  proof (cases "i = is ! j")
    case True
    then show ?thesis using lr lfacts rfacts adj [OF j] by (simp add: at add.assoc [symmetric])
  next
    case False
    then have "i \<in> set is" "i < length s" "i \<noteq> is ! Suc j" using i sub by (auto simp: set_unlink_at [OF j d])
    then show ?thesis using inv False by (auto simp: at spm_list_def)
  qed
  moreover have "ss_start (s' ! (unlink_at j is ! i)) + ss_len (s' ! (unlink_at j is ! i)) =
      ss_start (s' ! (unlink_at j is ! Suc i))"
    if i: "Suc i < length (unlink_at j is)" for i
  proof -
    have l: "Suc i < length is - 1" using i j by simp
    have ix: "is ! a = is ! b \<longleftrightarrow> a = b" if "a < length is" "b < length is" for a b
      using d that by (simp add: nth_eq_iff_index_eq)
    have b: "is ! a < length s" if "a < length is" for a
      using spm_list_index [OF inv that] .
    consider "Suc i < j" | "Suc i = j" | "i = j" | "j < i" by linarith
    then show ?thesis
      using l j adj [of i] adj [of "Suc i"] ix [of i j] ix [of i "Suc j"] ix [of "Suc i" j] ix [of "Suc i" "Suc j"]
        b [of i] b [of "Suc i"] b [of "Suc (Suc i)"]
      by cases (simp_all add: nth_unlink_at at)
  qed
  ultimately show "spm_list w s' (unlink_at j is)"
    using inv sub set_unlink_at [OF j d] by (auto simp: spm_list_def s'_def)
  show "spm_content w s' (is ! j) = spm_content w s (is ! j) @ spm_content w s (is ! Suc j)"
    using lr spm_pair_text(2) [OF inv j] by (simp add: at)
  show "spm_content w s' i = spm_content w s i" if "i \<in> set is" "i \<noteq> is ! j" "i \<noteq> is ! Suc j" for i
    using that sub by (simp add: at subset_iff)
qed

text \<open>A popped candidate that is live and of the recorded size is an adjacent pair.\<close>

definition spm_fresh :: "spm_symbol list \<Rightarrow> bigram \<Rightarrow> bool" where
  "spm_fresh s b \<longleftrightarrow> ss_len (s ! bg_left b) \<noteq> 0 \<and> ss_len (s ! bg_right b) \<noteq> 0 \<and> bigram_current s b"

lemma fresh_pair:
  assumes inv: "spm_list w s is" and ok: "bigram_ok spm v w s b" and fresh: "spm_fresh s b"
  obtains j where "Suc j < length is" "bg_left b = is ! j" "bg_right b = is ! Suc j"
    "spm_cand spm v (spm_content w s (is ! j)) (spm_content w s (is ! Suc j)) =
      Some (- f32_total_key (bg_score b), spm_content w s (is ! j) @ spm_content w s (is ! Suc j))"
proof -
  have lr: "bg_left b < length s" "bg_right b < length s" using ok by (auto simp: bigram_ok_def)
  have live: "ss_len (s ! bg_left b) \<noteq> 0" "ss_len (s ! bg_right b) \<noteq> 0"
    and size: "bg_size b = ss_len (s ! bg_left b) + ss_len (s ! bg_right b)"
    using fresh by (auto simp: spm_fresh_def bigram_current_def)
  have "bg_left b \<in> set is" "bg_right b \<noteq> USIZE_NONE" "ss_next (s ! bg_left b) = bg_right b"
    using inv lr live ok by (auto simp: spm_list_def bigram_ok_def)
  then obtain j where j: "Suc j < length is" "is ! j = bg_left b" "is ! Suc j = bg_right b"
    using linked_next_index [OF spm_list_linked [OF inv], of "bg_left b" "bg_right b"] by metis
  have "\<exists>i. vocab_get v (spm_content w s (is ! j) @ spm_content w s (is ! Suc j)) = Some i \<and>
      i < length (spm_scores spm) \<and> bg_score b = spm_scores spm ! i"
    using ok spm_pair_text(2) [OF inv j(1)] by (simp add: bigram_ok_def size j)
  then show ?thesis using that j by (auto simp: spm_cand_def)
qed

lemma spm_step_fresh:
  assumes inv: "spm_list w s is" and j: "Suc j < length is"
    and b: "bg_left b = is ! j" "bg_right b = is ! Suc j" and fresh: "spm_fresh s b"
  defines "s' \<equiv> spm_merge s (bg_left b) (bg_right b)"
  shows "spm_step spm v w s b q = Some (s',
    spm_pair spm v w s' (unlink_at j is) j @
      (if j = 0 then [] else spm_pair spm v w s' (unlink_at j is) (j - 1)) @ q)"
proof -
  note lk = spm_list_linked [OF inv]
  have len: "bg_left b < length s" "bg_right b < length s"
    using j spm_list_index [OF inv] by (auto simp: b)
  have step: "spm_step spm v w s b q = spm_apply spm v w s (bg_left b) (bg_right b) q"
    using len fresh by (simp add: spm_step_def spm_fresh_def bigram_current_def Let_def)
  have inv': "spm_list w s' (unlink_at j is)"
    using spm_list_merge(1) [OF inv j] by (simp add: s'_def b)
  note lk' = spm_list_linked [OF inv']
  have jl: "j < length (unlink_at j is)" "unlink_at j is ! j = bg_left b"
    using j by (auto simp: nth_unlink_at b)
  have after: "ss_next (s ! bg_right b) = USIZE_NONE \<or> ss_next (s ! bg_right b) < length s"
    using linked_next [OF lk j] spm_list_index [OF inv, of "Suc (Suc j)"] by (auto simp: b)
  have "bg_left b \<noteq> bg_right b"
    using linked_less [OF lk, of j "Suc j"] j by (simp add: b)
  then have "ss_next (s' ! bg_left b) = ss_next (s ! bg_right b)"
    using len by (simp add: s'_def nth_spm_merge)
  then have push: "try_add_bigram spm v w s' q' (bg_left b) (ss_next (s ! bg_right b)) =
      Some (spm_pair spm v w s' (unlink_at j is) j @ q')" for q'
    using try_add_next [OF inv' jl(1)] jl(2) by simp
  have before: "ss_prev (s' ! bg_left b) = (if j = 0 then USIZE_NONE else unlink_at j is ! (j - 1))"
    using linked_prev [OF lk' jl(1)] jl(2) by simp
  have "try_add_bigram spm v w s' q (ss_prev (s' ! bg_left b)) (bg_left b) =
      Some ((if j = 0 then [] else spm_pair spm v w s' (unlink_at j is) (j - 1)) @ q)"
  proof (cases "j = 0")
    case True
    then show ?thesis using before by (simp add: try_add_bigram_def)
  next
    case False
    then show ?thesis using before try_add_linked [OF inv', of "j - 1"] jl by simp
  qed
  then show ?thesis
    using after push by (auto simp: step spm_apply_def s'_def [symmetric] Let_def)
qed

lemma spm_entries_append: "spm_entries s (p @ q) = spm_entries s p \<union> spm_entries s q"
  by (auto simp: spm_entries_def)

lemma spm_queue_fresh:
  assumes inv: "spm_list w s is" and queue: "spm_queue spm v w s is q"
    and pop: "heap_pop bigram_key q = Some (b, q1)"
    and j: "Suc j < length is" and lr: "bg_left b = is ! j" "bg_right b = is ! Suc j"
  defines "s' \<equiv> spm_merge s (bg_left b) (bg_right b)"
  shows "spm_queue spm v w s' (unlink_at j is)
    (spm_pair spm v w s' (unlink_at j is) j @
      (if j = 0 then [] else spm_pair spm v w s' (unlink_at j is) (j - 1)) @ q1)"
    (is "spm_queue spm v w s' _ ?q'")
proof -
  let ?us = "unlink_at j is"
  note lk = spm_list_linked [OF inv]
  have d: "distinct is" by (rule linked_distinct [OF lk])
  note merge = spm_list_merge [OF inv j, folded lr, folded s'_def]
  let ?m = "spm_content w s (bg_left b) @ spm_content w s (bg_right b)"
  have len: "bg_left b < length s" "bg_right b < length s" "bg_left b \<noteq> bg_right b"
    using spm_list_index [OF inv] j linked_less [OF lk, of j "Suc j"] by (auto simp: lr)
  note at = nth_spm_merge [OF len, folded s'_def]
  have live: "ss_len (s ! bg_left b) \<noteq> 0"
    using spm_list_at(1) [OF inv, of j] j by (simp add: lr)
  have same: "spm_content w s' (is ! a) = spm_content w s (is ! a)"
    if "a < length is" "a \<noteq> j" "a \<noteq> Suc j" for a
    using merge(3) [of "is ! a"] that d j by (simp add: nth_eq_iff_index_eq lr)
  have at_l: "spm_content w s' (is ! j) = ?m" using merge(2) by (simp add: lr)
  have "covered (spm_cand spm v) (spm_content w s') ?us (spm_entries s' ?q')"
  proof (rule covered_unlink [where f = "spm_content w s" and m = ?m, OF _ d j])
    show "covered (spm_cand spm v) (spm_content w s) is (spm_entries s q)"
      using queue by (simp add: spm_queue_def)
    show "spm_content w s' (is ! j) = ?m" by (rule at_l)
    show "spm_content w s' i = spm_content w s i" if "i \<in> set is" "i \<noteq> is ! j" "i \<noteq> is ! Suc j" for i
      using merge(3) [of i] that by (simp add: lr)
  next
    fix k l r
    assume "(k, l, r) \<in> spm_entries s q" and off: "{l, r} \<inter> {is ! j, is ! Suc j} = {}"
    then obtain c where c: "c \<in> set q" "bigram_current s c" "k = - f32_total_key (bg_score c)"
      "l = bg_left c" "r = bg_right c"
      by (auto simp: spm_entries_def)
    have "c \<noteq> b" using off c lr by auto
    then have "c \<in> set q1" using bh.pop_cases [OF pop, of c] c(1) by simp
    moreover have "bg_left c < length s" "bg_right c < length s"
      using queue c(1) by (auto simp: spm_queue_def bigram_ok_def)
    then have "bigram_current s' c" using c(2,4,5) off by (auto simp: bigram_current_def at lr)
    ultimately have "(k, l, r) \<in> spm_entries s' q1" using c(3-5) by (auto simp: spm_entries_def)
    then show "(k, l, r) \<in> spm_entries s' ?q'" by (simp add: spm_entries_append)
  next
    fix k n assume "0 < j" and "spm_cand spm v (spm_content w s (is ! (j - 1))) ?m = Some (k, n)"
    then have "(k, ?us ! (j - 1), ?us ! Suc (j - 1)) \<in> spm_entries s' (spm_pair spm v w s' ?us (j - 1))"
      using j same [of "j - 1"] at_l by (intro spm_pair_in [where n = n]) (auto simp: nth_unlink_at)
    then show "(k, is ! (j - 1), is ! j) \<in> spm_entries s' ?q'"
      using \<open>0 < j\<close> j by (simp add: spm_entries_append nth_unlink_at)
  next
    fix k n assume "j + 2 < length is" and "spm_cand spm v ?m (spm_content w s (is ! (j + 2))) = Some (k, n)"
    then have "(k, ?us ! j, ?us ! Suc j) \<in> spm_entries s' (spm_pair spm v w s' ?us j)"
      using j same [of "j + 2"] at_l by (intro spm_pair_in [where n = n]) (auto simp: nth_unlink_at)
    then show "(k, is ! j, is ! (j + 2)) \<in> spm_entries s' ?q'"
      using \<open>j + 2 < length is\<close> j by (simp add: spm_entries_append nth_unlink_at)
  qed
  moreover have "bigram_ok spm v w s' c" if "c \<in> set q1" for c
  proof -
    have "c \<in> set q" using bh.pop_subset [OF pop] that by auto
    then have ok: "bigram_ok spm v w s c" using queue by (simp add: spm_queue_def)
    have "ss_next (s ! bg_left b) = bg_right b"
      using linked_next [OF lk, of j] j by (simp add: lr)
    with ok live show ?thesis by (auto simp: bigram_ok_def s'_def nth_spm_merge [OF len])
  qed
  then have "\<forall>c \<in> set ?q'. bigram_ok spm v w s' c"
    using spm_pair_ok [OF merge(1)] by (auto split: if_splits)
  ultimately show ?thesis unfolding spm_queue_def by blast
qed

lemma spm_step_follows:
  assumes inv: "spm_list w s is" and queue: "spm_queue spm v w s is q"
    and pop: "heap_pop bigram_key q = Some (b, q1)"
  obtains s' is' q' where "spm_step spm v w s b q1 = Some (s', q')" "spm_list w s' is'"
    "spm_queue spm v w s' is' q'"
    "merge_all (spm_cand spm v) (map (spm_content w s') is') =
      merge_all (spm_cand spm v) (map (spm_content w s) is)"
proof -
  have in_q: "b \<in> set q" using bh.pop_in [OF pop] by simp
  have least: "\<And>c. c \<in> set q \<Longrightarrow> bigram_key b \<le> bigram_key c" using bh.pop_Some [OF pop] by simp
  have ok: "bigram_ok spm v w s b" using queue in_q by (simp add: spm_queue_def)
  then have len: "bg_left b < length s" "bg_right b < length s" by (auto simp: bigram_ok_def)
  show ?thesis
  proof (cases "spm_fresh s b")
    case False
    then have "spm_step spm v w s b q1 = Some (s, q1)"
      using len by (auto simp: spm_step_def spm_fresh_def bigram_current_def Let_def)
    moreover have "covered (spm_cand spm v) (spm_content w s) is (spm_entries s q1)"
      unfolding covered_def
    proof (intro allI impI)
      fix j k n
      assume j: "Suc j < length is"
        and "spm_cand spm v (spm_content w s (is ! j)) (spm_content w s (is ! Suc j)) = Some (k, n)"
      then have "(k, is ! j, is ! Suc j) \<in> spm_entries s q"
        using queue by (auto simp: spm_queue_def covered_def)
      then obtain c where c: "c \<in> set q" "bigram_current s c" "k = - f32_total_key (bg_score c)"
        "is ! j = bg_left c" "is ! Suc j = bg_right c"
        by (auto simp: spm_entries_def)
      have "ss_len (s ! bg_left c) \<noteq> 0" "ss_len (s ! bg_right c) \<noteq> 0"
        using spm_list_at(1) [OF inv] j c(4,5) by (metis Suc_lessD)+
      then have "c \<noteq> b" using False c(2) by (auto simp: spm_fresh_def)
      then have "c \<in> set q1" using bh.pop_cases [OF pop, of c] c(1) by simp
      then show "(k, is ! j, is ! Suc j) \<in> spm_entries s q1" using c by (auto simp: spm_entries_def)
    qed
    then have "spm_queue spm v w s is q1"
      using queue bh.pop_subset [OF pop] by (auto simp: spm_queue_def)
    ultimately show ?thesis using that inv by blast
  next
    case True
    obtain j where j: "Suc j < length is" and lr: "bg_left b = is ! j" "bg_right b = is ! Suc j"
      and cand: "spm_cand spm v (spm_content w s (is ! j)) (spm_content w s (is ! Suc j)) =
        Some (- f32_total_key (bg_score b), spm_content w s (is ! j) @ spm_content w s (is ! Suc j))"
      using fresh_pair [OF inv ok True] .
    let ?s' = "spm_merge s (bg_left b) (bg_right b)" and ?us = "unlink_at j is"
    let ?m = "spm_content w s (is ! j) @ spm_content w s (is ! Suc j)"
    note merge = spm_list_merge [OF inv j, folded lr]
    have "best_merge (spm_cand spm v) (map (spm_content w s) is) = Some (- f32_total_key (bg_score b), j, ?m)"
    proof (rule covered_best [where f = "spm_content w s" and cand = "spm_cand spm v",
          OF _ spm_list_linked [OF inv] j cand])
      show "covered (spm_cand spm v) (spm_content w s) is (spm_entries s q)"
        using queue by (simp add: spm_queue_def)
      fix k' l' r' assume "(k', l', r') \<in> spm_entries s q"
      then show "(- f32_total_key (bg_score b), is ! j) \<le> (k', l')"
        using least by (fastforce simp: spm_entries_def bigram_key_def lr)
    qed
    moreover have "map (spm_content w ?s') ?us = merge_at j ?m (map (spm_content w s) is)"
      using linked_distinct [OF spm_list_linked [OF inv]] j
      by (rule map_unlink) (use merge in \<open>auto simp: lr\<close>)
    ultimately have "merge_all (spm_cand spm v) (map (spm_content w ?s') ?us) =
        merge_all (spm_cand spm v) (map (spm_content w s) is)"
      by (subst (2) merge_all.simps) simp
    then show ?thesis
      using that [OF spm_step_fresh [OF inv j lr True] merge(1) spm_queue_fresh [OF inv queue pop j lr]]
      by blast
  qed
qed

lemma spm_loop_follows:
  assumes "spm_list w s is" "spm_queue spm v w s is q"
  shows "\<exists>s' is'. spm_loop spm v w s q = Some s' \<and> spm_list w s' is' \<and>
    map (spm_content w s') is' = merge_all (spm_cand spm v) (map (spm_content w s) is)"
  using assms
proof (induction spm v w s q arbitrary: "is" rule: spm_loop.induct)
  case (1 spm v w s q)
  show ?case
  proof (cases "heap_pop bigram_key q")
    case None
    then have "q = []" using bh.pop_None [of bigram_key q] by simp
    then have "merge_all (spm_cand spm v) (map (spm_content w s) is) = map (spm_content w s) is"
      using "1.prems"(2) covered_empty by (auto simp: spm_queue_def spm_entries_def)
    then show ?thesis using "1.prems"(1) None by (auto simp: spm_loop.simps)
  next
    case (Some p)
    then obtain b q1 where p: "heap_pop bigram_key q = Some (b, q1)" by (cases p) auto
    obtain s' is' q' where step: "spm_step spm v w s b q1 = Some (s', q')" "spm_list w s' is'"
      "spm_queue spm v w s' is' q'"
      "merge_all (spm_cand spm v) (map (spm_content w s') is') =
        merge_all (spm_cand spm v) (map (spm_content w s) is)"
      by (rule spm_step_follows [OF "1.prems" p])
    from "1.IH" [OF p refl step(1) refl step(2,3)] show ?thesis
      by (subst spm_loop.simps) (simp add: p step(1,4))
  qed
qed

section \<open>The symbols of a fragment\<close>

definition spm_row :: "nat \<Rightarrow> utext \<Rightarrow> spm_symbol list \<Rightarrow> bool" where
  "spm_row text_len cs s \<longleftrightarrow>
     length s = length cs \<and>
     (\<forall>i < length cs. s ! i =
        \<lparr>ss_start = length (utf8_bytes (take i cs)), ss_len = length (encode_char (cs ! i)),
         ss_prev = wrapping_pred i,
         ss_next = (if length (utf8_bytes (take (Suc i) cs)) = text_len then USIZE_NONE else Suc i)\<rparr>)"

lemma spm_symbols_row:
  "spm_row text_len pre s \<Longrightarrow> start = length (utf8_bytes pre) \<Longrightarrow>
     spm_row text_len (pre @ cs) (spm_symbols text_len start cs s)"
proof (induction cs arbitrary: pre s start)
  case (Cons c cs)
  let ?new = "\<lparr>ss_start = start, ss_len = length (encode_char c), ss_prev = wrapping_pred (length s),
      ss_next = (if start + length (encode_char c) = text_len then USIZE_NONE else length s + 1)\<rparr>"
  have len: "length s = length pre" using Cons.prems(1) by (simp add: spm_row_def)
  have "spm_row text_len (pre @ [c]) (s @ [?new])"
    using Cons.prems len
    by (auto simp: spm_row_def nth_append less_Suc_eq utf8_bytes_append utf8_bytes_Cons)
  moreover have "start + length (encode_char c) = length (utf8_bytes (pre @ [c]))"
    using Cons.prems(2) by (simp add: utf8_bytes_append utf8_bytes_Cons)
  ultimately have "spm_row text_len ((pre @ [c]) @ cs)
      (spm_symbols text_len (start + length (encode_char c)) cs (s @ [?new]))"
    by (rule Cons.IH)
  then show ?case by (simp add: Let_def)
qed simp

lemma utf8_take_less: "i < j \<Longrightarrow> j \<le> length t \<Longrightarrow> length (utf8_bytes (take i t)) < length (utf8_bytes (take j t))"
proof -
  assume ij: "i < j" "j \<le> length t"
  then have "length (utf8_bytes (take i t)) < length (utf8_bytes (take (Suc i) t))"
    by (simp add: take_Suc_conv_app_nth utf8_bytes_append utf8_bytes_Cons encode_char_start)
  also have "\<dots> \<le> length (utf8_bytes (take j t))" using ij by (intro utf8_take_mono) simp
  finally show ?thesis .
qed

lemma spm_row_list:
  assumes row: "spm_row (length (utf8_bytes tx)) tx s" and len: "length tx < USIZE_NONE"
  shows "spm_list (utf8_bytes tx) s [0..<length tx]"
    and "map (spm_content (utf8_bytes tx) s) [0..<length tx] = map encode_char tx"
proof -
  have ls: "length s = length tx" using row by (simp add: spm_row_def)
  have last: "length (utf8_bytes (take (Suc i) tx)) = length (utf8_bytes tx) \<longleftrightarrow> Suc i = length tx"
    if "i < length tx" for i
    using utf8_take_less [of "Suc i" "length tx" tx] that by (cases "Suc i = length tx") auto
  have at: "s ! i = \<lparr>ss_start = length (utf8_bytes (take i tx)), ss_len = length (encode_char (tx ! i)),
         ss_prev = (if i = 0 then USIZE_NONE else i - 1),
         ss_next = (if Suc i < length tx then Suc i else USIZE_NONE)\<rparr>"
    if "i < length tx" for i
    using row that last [OF that] by (auto simp: spm_row_def wrapping_pred_def USIZE_NONE_def)
  have finish: "length (utf8_bytes (take i tx)) + length (encode_char (tx ! i)) =
      length (utf8_bytes (take (Suc i) tx))" if "i < length tx" for i
    using that by (simp add: take_Suc_conv_app_nth utf8_bytes_append utf8_bytes_Cons)
  have "linked (\<lambda>i. ss_next (s ! i)) (\<lambda>i. ss_prev (s ! i)) [0..<length tx]"
    using len by (auto simp: linked_def at)
  moreover have "length (utf8_bytes (take (Suc i) tx)) \<le> length (utf8_bytes tx)" if "i < length tx" for i
    using utf8_take_mono [of "Suc i" "length tx" tx] that by simp
  ultimately show "spm_list (utf8_bytes tx) s [0..<length tx]"
    using len by (auto simp: spm_list_def ls at hd_upt finish utf8_boundary encode_char_start)
  show "map (spm_content (utf8_bytes tx) s) [0..<length tx] = map encode_char tx"
    by (rule nth_equalityI) (auto simp: at finish utf8_take_slice)
qed

lemma add_bigrams_linked:
  assumes "spm_list w s is" "\<forall>j \<in> set js. Suc j < length is" "rights = map (\<lambda>j. is ! Suc j) js"
    "\<forall>j \<in> set js. is ! Suc j - 1 = is ! j"
  shows "add_bigrams spm v w s rights q = Some (concat (map (spm_pair spm v w s is) (rev js)) @ q)"
  using assms(2-)
proof (induction js arbitrary: rights q)
  case (Cons j js)
  then show ?case using try_add_linked [OF assms(1), of j spm v q] by simp
qed simp

lemma text_queue:
  assumes "spm_list w s [0..<n]" "0 < n"
  shows "\<exists>q. add_bigrams spm v w s [1..<n] [] = Some q \<and> spm_queue spm v w s [0..<n] q"
proof -
  let ?q = "concat (map (spm_pair spm v w s [0..<n]) (rev [0..<n - 1]))"
  have rights: "[1..<n] = map (\<lambda>j. [0..<n] ! Suc j) [0..<n - 1]" by (rule nth_equalityI) auto
  have "add_bigrams spm v w s [1..<n] [] = Some (?q @ [])"
    by (rule add_bigrams_linked [OF assms(1) _ rights]) auto
  moreover have "covered (spm_cand spm v) (spm_content w s) [0..<n] (spm_entries s ?q)"
    unfolding covered_def
  proof (intro allI impI)
    fix j k x
    assume j: "Suc j < length [0..<n]"
      and c: "spm_cand spm v (spm_content w s ([0..<n] ! j)) (spm_content w s ([0..<n] ! Suc j)) = Some (k, x)"
    have "(k, [0..<n] ! j, [0..<n] ! Suc j) \<in> spm_entries s (spm_pair spm v w s [0..<n] j)"
      using spm_pair_in [OF j c] .
    then show "(k, [0..<n] ! j, [0..<n] ! Suc j) \<in> spm_entries s ?q"
      using j by (fastforce simp: spm_entries_def)
  qed
  moreover have "\<forall>b \<in> set ?q. bigram_ok spm v w s b"
    using spm_pair_ok [OF assms(1)] by auto
  ultimately show ?thesis unfolding spm_queue_def by auto
qed

lemma spm_emit_list:
  assumes inv: "spm_list w s is" and "k \<le> length is" "length is - k \<le> fuel"
    and "index = (if k < length is then is ! k else USIZE_NONE)"
  shows "spm_emit v w s fuel index out =
    Some (out @ concat (map (spm_piece_ids v) (map (spm_content w s) (drop k is))))"
  using assms(2-)
proof (induction fuel arbitrary: k index out)
  case 0
  then show ?case by (simp add: spm_emit.simps)
next
  case (Suc fuel)
  show ?case
  proof (cases "k < length is")
    case True
    then have index: "index = is ! k" "index \<noteq> USIZE_NONE" "index < length s"
      using Suc.prems(3) linked_not_none [OF spm_list_linked [OF inv]] spm_list_index [OF inv] by auto
    have drop: "drop k is = is ! k # drop (Suc k) is" using True by (simp add: Cons_nth_drop_Suc)
    have "ss_next (s ! (is ! k)) = (if Suc k < length is then is ! Suc k else USIZE_NONE)"
      using linked_next [OF spm_list_linked [OF inv] True] .
    note IH = Suc.IH [OF _ _ this]
    have "str_get w (ss_start (s ! (is ! k))) (ss_start (s ! (is ! k)) + ss_len (s ! (is ! k))) =
        Some (spm_content w s (is ! k))"
      using spm_list_at [OF inv True] by (simp add: str_get_def)
    then have "spm_emit v w s (Suc fuel) index out =
        spm_emit v w s fuel (ss_next (s ! (is ! k))) (out @ spm_piece_ids v (spm_content w s (is ! k)))"
      using index by (subst spm_emit.simps) (auto simp: Let_def spm_piece_ids_def split: option.splits)
    also have "\<dots> = Some ((out @ spm_piece_ids v (spm_content w s (is ! k))) @
        concat (map (spm_piece_ids v) (map (spm_content w s) (drop (Suc k) is))))"
      using True Suc.prems by (intro IH) auto
    finally show ?thesis by (simp add: drop)
  next
    case False
    then show ?thesis using Suc.prems by (simp add: spm_emit.simps)
  qed
qed

lemma merge_all_not_Nil: "cs \<noteq> [] \<Longrightarrow> merge_all cand cs \<noteq> []"
proof (induction cand cs rule: merge_all.induct)
  case (1 cand cs)
  then show ?case by (subst merge_all.simps) (auto simp: merge_at_def split: option.splits)
qed

lemma spm_tokenize_reference:
  assumes len: "length tx < USIZE_NONE"
  shows "spm_tokenize spm v tx out = Some (out @ spm_reference spm v tx)"
proof -
  let ?w = "utf8_bytes tx" and ?n = "length tx"
  define s where "s = spm_symbols (length ?w) 0 tx []"
  have row: "spm_row (length ?w) tx s"
    using spm_symbols_row [of "length ?w" "[]" "[]" 0 tx] by (simp add: s_def spm_row_def)
  have ls: "length s = ?n" using row by (simp add: spm_row_def)
  show ?thesis
  proof (cases "tx = []")
    case True
    then show ?thesis by (simp add: spm_tokenize_def spm_reference_def)
  next
    case False
    note list = spm_row_list(1) [OF row len]
    obtain q where q: "add_bigrams spm v ?w s [1..<?n] [] = Some q" "spm_queue spm v ?w s [0..<?n] q"
      using text_queue [OF list] False by auto
    obtain s' is' where s': "spm_loop spm v ?w s q = Some s'" "spm_list ?w s' is'"
      "map (spm_content ?w s') is' = merge_all (spm_cand spm v) (map encode_char tx)"
      using spm_loop_follows [OF list q(2)] spm_row_list(2) [OF row len] by auto
    have "length is' \<le> length s'"
    proof -
      have "card (set is') \<le> card {..<length s'}"
        using s'(2) by (intro card_mono) (auto simp: spm_list_def)
      then show ?thesis using distinct_card [OF linked_distinct [OF spm_list_linked [OF s'(2)]]] by simp
    qed
    moreover have "is' \<noteq> []"
      using s'(3) merge_all_not_Nil [of "map encode_char tx" "spm_cand spm v"] False by auto
    moreover then have "0 = is' ! 0" using s'(2) by (auto simp: spm_list_def hd_conv_nth)
    ultimately have "spm_emit v ?w s' (length s') 0 out =
        Some (out @ concat (map (spm_piece_ids v) (map (spm_content ?w s') (drop 0 is'))))"
      by (intro spm_emit_list [OF s'(2)]) auto
    moreover have "s \<noteq> []" using False ls by auto
    ultimately show ?thesis
      using q(1) s'(1,3) ls by (simp add: spm_tokenize_def s_def [symmetric] Let_def spm_reference_def)
  qed
qed

section \<open>Properties\<close>

definition spm_escaped :: "spm \<Rightarrow> utext \<Rightarrow> bool \<Rightarrow> utext" where
  "spm_escaped spm raw after_special =
     (if spm_add_space_prefix spm \<and> after_special then [SPACE_MARK] else []) @ map escape_char raw"

lemma spm_encode_reference:
  "Suc (length raw) < USIZE_NONE \<Longrightarrow>
     spm_encode_fragment spm v raw after_special out =
       Some (out @ spm_reference spm v (spm_escaped spm raw after_special))"
  by (auto simp: spm_encode_fragment_def spm_escaped_def spm_tokenize_reference)

text \<open>
C33: Encoding a fragment never panics, and it appends exactly the ids of the reference: escape the
  spaces, put the mark in front when the fragment follows a special token and the model asks for
  it, then merge, as long as two neighbours join to a scored token, the leftmost of the pairs of
  highest score. Candidates of the queue whose symbols have changed since are dropped without
  losing a merge.
\<close>

theorem spm_encoding_is_reference:
  assumes "Suc (length raw) < USIZE_NONE"
  shows "spm_encode_fragment spm v raw after_special out =
    Some (out @ spm_reference spm v (spm_escaped spm raw after_special))"
  using assms by (rule spm_encode_reference)

theorem spm_encoding_is_reference_witness:
  "\<exists>v. vocab_new (map utf8_bytes [[97], [97, 97]]) [1, 1] = Some (Inr v) \<and>
     spm_encode_fragment (spm_new [0, 0x80000000] False) v [97, 97, 97] True [7] = Some [7, 1, 0]"
proof -
  obtain v where v: "vocab_new (map utf8_bytes [[97], [97, 97]]) [1, 1] = Some (Inr v)"
    "vocab_get v [97] = Some 0" "vocab_get v [97, 97] = Some 1" "vocab_get v [97, 97, 97] = None"
    by (rule sample_vocab)
  let ?spm = "spm_new [0, 0x80000000] False"
  have zero: "f32_total_key 0 = 0" by (simp add: f32_total_key_def)
  have "best_merge (spm_cand ?spm v) [[97], [97], [97]] = Some (0, 0, [97, 97])"
    using v by (simp add: best_merge_def spm_cand_def min_by_key_def spm_new_def f32_add_zero_def zero)
  moreover have "best_merge (spm_cand ?spm v) (merge_at 0 [97, 97] [[97], [97], [97]]) = None"
    using v by (simp add: best_merge_def spm_cand_def min_by_key_def merge_at_def)
  ultimately have "merge_all (spm_cand ?spm v) [[97], [97], [97]] = [[97, 97], [97]]"
    by (simp add: merge_all.simps [of _ "[[97], [97], [97]]"] merge_all.simps [of _ "merge_at 0 x y" for x y])
      (simp add: merge_at_def)
  moreover have "map encode_char (spm_escaped ?spm [97, 97, 97] True) = [[97], [97], [97]]"
    by (simp add: spm_escaped_def spm_new_def escape_char_def encode_char_def)
  ultimately have "spm_reference ?spm v (spm_escaped ?spm [97, 97, 97] True) = [1, 0]"
    using v by (simp add: spm_reference_def spm_piece_ids_def)
  then show ?thesis
    using v(1) spm_encoding_is_reference [of "[97, 97, 97]" ?spm v True "[7]"]
    by (simp add: USIZE_NONE_def u64_max_def)
qed

end
