(* ===== verification/Pretok.thy ===== *)
theory Pretok
  imports Wire_Types
begin

text \<open>
  \<open>src/provider/local/tokenizer/pretok.rs\<close>: the hand-written splitters that stand for a chain of
  regular expressions. A text is its characters and an offset counts characters (the code's counts
  their bytes); the byte comparisons of the contractions and of the three-digit stage are with
  ASCII characters, where the two agree. The Unicode general category comes from a crate, so it is
  the argument \<open>gc\<close> of every definition; \<open>char::is_numeric\<close> is documented to be the three number
  categories. The last part gives the regular expressions with their backtracking semantics, and
  proves that every scanner returns the end of the first match.
\<close>

section \<open>Character classes\<close>

datatype general_category =
    UppercaseLetter | LowercaseLetter | TitlecaseLetter | ModifierLetter | OtherLetter
  | NonspacingMark | SpacingMark | EnclosingMark
  | DecimalNumber | LetterNumber | OtherNumber
  | ConnectorPunctuation | DashPunctuation | OpenPunctuation | ClosePunctuation
  | InitialPunctuation | FinalPunctuation | OtherPunctuation
  | OtherCategory

type_synonym categories = "nat \<Rightarrow> general_category"

definition is_ascii :: "nat \<Rightarrow> bool" where
  "is_ascii c \<longleftrightarrow> c < 128"

definition is_ascii_uppercase :: "nat \<Rightarrow> bool" where
  "is_ascii_uppercase c \<longleftrightarrow> 65 \<le> c \<and> c \<le> 90"

definition is_ascii_lowercase :: "nat \<Rightarrow> bool" where
  "is_ascii_lowercase c \<longleftrightarrow> 97 \<le> c \<and> c \<le> 122"

definition is_ascii_digit :: "nat \<Rightarrow> bool" where
  "is_ascii_digit c \<longleftrightarrow> 48 \<le> c \<and> c \<le> 57"

definition is_ascii_punctuation :: "nat \<Rightarrow> bool" where
  "is_ascii_punctuation c \<longleftrightarrow>
     33 \<le> c \<and> c \<le> 47 \<or> 58 \<le> c \<and> c \<le> 64 \<or> 91 \<le> c \<and> c \<le> 96 \<or> 123 \<le> c \<and> c \<le> 126"

definition to_ascii_lowercase :: "nat \<Rightarrow> nat" where
  "to_ascii_lowercase c = (if is_ascii_uppercase c then c + 32 else c)"

definition is_letter :: "categories \<Rightarrow> nat \<Rightarrow> bool" where
  "is_letter gc c =
     (if is_ascii c then is_ascii_uppercase c \<or> is_ascii_lowercase c
      else gc c \<in> {UppercaseLetter, LowercaseLetter, TitlecaseLetter, ModifierLetter, OtherLetter})"

definition is_mark :: "categories \<Rightarrow> nat \<Rightarrow> bool" where
  "is_mark gc c \<longleftrightarrow> \<not> is_ascii c \<and> gc c \<in> {NonspacingMark, SpacingMark, EnclosingMark}"

definition is_number :: "categories \<Rightarrow> nat \<Rightarrow> bool" where
  "is_number gc c =
     (if is_ascii c then is_ascii_digit c else gc c \<in> {DecimalNumber, LetterNumber, OtherNumber})"

definition is_space :: "nat \<Rightarrow> bool" where
  "is_space c = is_white_space c"

definition is_upper_only :: "categories \<Rightarrow> nat \<Rightarrow> bool" where
  "is_upper_only gc c =
     (if is_ascii c then is_ascii_uppercase c else gc c \<in> {UppercaseLetter, TitlecaseLetter})"

definition is_case_neutral :: "categories \<Rightarrow> nat \<Rightarrow> bool" where
  "is_case_neutral gc c \<longleftrightarrow>
     \<not> is_ascii c \<and>
     gc c \<in> {ModifierLetter, OtherLetter, NonspacingMark, SpacingMark, EnclosingMark}"

definition is_upper_class :: "categories \<Rightarrow> nat \<Rightarrow> bool" where
  "is_upper_class gc c \<longleftrightarrow> is_upper_only gc c \<or> is_case_neutral gc c"

definition is_lower_class :: "categories \<Rightarrow> nat \<Rightarrow> bool" where
  "is_lower_class gc c =
     (if is_ascii c then is_ascii_lowercase c else gc c = LowercaseLetter \<or> is_case_neutral gc c)"

definition is_punctuation :: "categories \<Rightarrow> nat \<Rightarrow> bool" where
  "is_punctuation gc c =
     (if is_ascii c then is_ascii_punctuation c \<and> c \<notin> {36, 43, 60, 61, 62, 94, 96, 124, 126}
      else gc c \<in> {ConnectorPunctuation, DashPunctuation, OpenPunctuation, ClosePunctuation,
                   InitialPunctuation, FinalPunctuation, OtherPunctuation})"

definition is_punct_run_char :: "categories \<Rightarrow> nat \<Rightarrow> bool" where
  "is_punct_run_char gc c \<longleftrightarrow> is_punctuation gc c \<or> c \<in> {36, 43, 60, 61, 62, 94, 126, 124}"

section \<open>Stages\<close>

record word_rule =
  standalone_contractions :: bool
  max_digits :: nat
  marks_are_letters :: bool
  case_split :: bool

definition LLAMA3 :: word_rule where
  "LLAMA3 = \<lparr>standalone_contractions = True, max_digits = 3, marks_are_letters = False, case_split = False\<rparr>"

definition QWEN2 :: word_rule where
  "QWEN2 = LLAMA3\<lparr>max_digits := 1\<rparr>"

definition QWEN35 :: word_rule where
  "QWEN35 = QWEN2\<lparr>marks_are_letters := True\<rparr>"

definition GPT4O :: word_rule where
  "GPT4O = \<lparr>standalone_contractions = False, max_digits = 3, marks_are_letters = False, case_split = True\<rparr>"

datatype stage = DigitStage | DigitRun | ThreeAsciiDigits | PunctRun | Gpt2 | WordStage word_rule

record pretokenizer =
  pt_stages :: "stage list"
  pt_ignore_merges :: bool
  pt_add_bos :: bool

datatype pre = Words pretokenizer | Gemma4

text \<open>\<open>ustr\<close> is an ASCII literal as characters.\<close>

definition ustr :: "string \<Rightarrow> utext" where
  "ustr s = List.map of_char s"

definition named :: "utext \<Rightarrow> string list \<Rightarrow> bool" where
  "named n names \<longleftrightarrow> list_ex (\<lambda>s. n = ustr s) names"

definition pre_from_name :: "utext option \<Rightarrow> pre option" where
  "pre_from_name name =
     (let words = (\<lambda>stages ignore_merges add_bos.
            Some (Words \<lparr>pt_stages = stages, pt_ignore_merges = ignore_merges, pt_add_bos = add_bos\<rparr>));
          n = (case name of Some n \<Rightarrow> n | None \<Rightarrow> ustr ''default'') in
      if named n [''default''] then words [PunctRun, Gpt2, DigitRun, ThreeAsciiDigits] False False
      else if named n [''llama3'', ''llama-v3'', ''llama-bpe'', ''falcon3'', ''falcon-h1'', ''pixtral'',
                       ''midm-2.0'', ''lfm2'', ''jina-v5-nano''] then words [WordStage LLAMA3] True True
      else if named n [''smaug-bpe'', ''dbrx''] then words [WordStage LLAMA3] False False
      else if named n [''qwen2'', ''deepseek-r1-qwen'', ''kormo'', ''f2llmv2'', ''megrez'', ''stablelm2'',
                       ''hunyuan'', ''solar-open''] then words [WordStage QWEN2] False False
      else if named n [''qwen35''] then words [WordStage QWEN35] False False
      else if named n [''gpt-2'', ''phi-2'', ''jina-es'', ''jina-de'', ''gigachat'', ''jina-v2-es'',
                       ''jina-v2-de'', ''a.x-4.0'', ''mellum'', ''modern-bert'', ''mpt'', ''olmo'', ''jais'',
                       ''trillion'', ''granite-docling'', ''exaone4''] then words [Gpt2] False False
      else if named n [''starcoder'', ''refact'', ''command-r'', ''smollm'', ''codeshell'', ''exaone'',
                       ''minerva-7b'', ''mellum2''] then words [DigitStage, Gpt2] False False
      else if named n [''gpt-4o'', ''llama4'', ''kanana2'', ''talkie'', ''minimax-m2'']
        then words [WordStage GPT4O] False False
      else if named n [''gemma4''] then Some Gemma4
      else None)"

section \<open>Matching\<close>

definition char_at :: "utext \<Rightarrow> nat \<Rightarrow> nat option" where
  "char_at s pos = (if pos < length s then Some (s ! pos) else None)"

definition at_is :: "utext \<Rightarrow> nat \<Rightarrow> (nat \<Rightarrow> bool) \<Rightarrow> bool" where
  "at_is s pos p \<longleftrightarrow> (case char_at s pos of Some c \<Rightarrow> p c | None \<Rightarrow> False)"

definition run_end :: "utext \<Rightarrow> nat \<Rightarrow> (nat \<Rightarrow> bool) \<Rightarrow> nat" where
  "run_end s pos p = pos + length (takeWhile p (drop pos s))"

definition contraction :: "utext \<Rightarrow> nat \<Rightarrow> bool \<Rightarrow> nat option" where
  "contraction s pos case_insensitive =
     (let fold = (\<lambda>b. if case_insensitive then to_ascii_lowercase b else b) in
      if char_at s pos \<noteq> Some 39 then None
      else
        (case char_at s (pos + 1) of
           None \<Rightarrow> None
         | Some b \<Rightarrow>
             let first = fold b in
             if first \<in> {115, 116, 109, 100} then Some (pos + 2)
             else
               (case char_at s (pos + 2) of
                  None \<Rightarrow> None
                | Some b \<Rightarrow>
                    let second = fold b in
                    if (first, second) \<in> {(114, 101), (118, 101), (108, 108)} then Some (pos + 3)
                    else None)))"

text \<open>The whitespace run: its end, the start of its last character, the end of its last newline.\<close>

fun whitespace_scan :: "utext \<Rightarrow> nat \<Rightarrow> nat \<times> nat \<times> nat option \<Rightarrow> nat \<times> nat \<times> nat option" where
  "whitespace_scan [] finish run = run"
| "whitespace_scan (c # cs) finish run =
     (if \<not> is_space c then run
      else whitespace_scan cs (finish + 1)
             (finish + 1, finish, if c = 13 \<or> c = 10 then Some (finish + 1) else snd (snd run)))"

definition whitespace_run :: "utext \<Rightarrow> nat \<Rightarrow> nat \<times> nat \<times> nat option" where
  "whitespace_run s pos = whitespace_scan (drop pos s) pos (pos, pos, None)"

definition gpt2_at :: "categories \<Rightarrow> utext \<Rightarrow> nat \<Rightarrow> nat \<Rightarrow> nat option" where
  "gpt2_at gc s pos c =
     (let quoted = (if c = 39 then contraction s pos False else None);
          body = (if c = 32 then pos + 1 else pos);
          blank =
            (if is_space c then
               (case whitespace_run s pos of (finish, last_start, _) \<Rightarrow>
                  if finish = length s then Some finish
                  else if last_start > pos then Some last_start else None)
             else None)
      in case quoted of
           Some e \<Rightarrow> Some e
         | None \<Rightarrow>
             (case char_at s body of
                Some d \<Rightarrow>
                  if is_letter gc d then Some (run_end s body (is_letter gc))
                  else if is_number gc d then Some (run_end s body (is_number gc))
                  else if \<not> is_space d then
                    Some (run_end s body (\<lambda>x. \<not> is_space x \<and> \<not> is_letter gc x \<and> \<not> is_number gc x))
                  else blank
              | None \<Rightarrow> blank))"

definition is_word_prefix :: "categories \<Rightarrow> nat \<Rightarrow> bool" where
  "is_word_prefix gc c \<longleftrightarrow> c \<noteq> 13 \<and> c \<noteq> 10 \<and> \<not> is_letter gc c \<and> \<not> is_number gc c"

definition rule_letter :: "categories \<Rightarrow> word_rule \<Rightarrow> nat \<Rightarrow> bool" where
  "rule_letter gc rule x \<longleftrightarrow> is_letter gc x \<or> marks_are_letters rule \<and> is_mark gc x"

definition letter_word :: "categories \<Rightarrow> word_rule \<Rightarrow> utext \<Rightarrow> nat \<Rightarrow> nat \<Rightarrow> nat option" where
  "letter_word gc rule s pos c =
     (if is_word_prefix gc c \<and> at_is s (pos + 1) (rule_letter gc rule)
      then Some (run_end s (pos + 1) (rule_letter gc rule))
      else if rule_letter gc rule c then Some (run_end s pos (rule_letter gc rule)) else None)"

fun upper_scan ::
  "categories \<Rightarrow> utext \<Rightarrow> nat \<Rightarrow> (nat \<times> nat) option \<Rightarrow> nat \<times> (nat \<times> nat) option" where
  "upper_scan gc [] upper_end last_neutral = (upper_end, last_neutral)"
| "upper_scan gc (c # cs) upper_end last_neutral =
     (if \<not> is_upper_class gc c then (upper_end, last_neutral)
      else upper_scan gc cs (upper_end + 1)
             (if is_lower_class gc c then Some (upper_end, upper_end + 1) else last_neutral))"

definition case_body :: "categories \<Rightarrow> utext \<Rightarrow> nat \<Rightarrow> bool \<Rightarrow> nat option" where
  "case_body gc s start lower_tail =
     (if start > length s then None
      else
        (case upper_scan gc (drop start s) start None of (upper_end, last_neutral) \<Rightarrow>
           let finish =
             (if lower_tail then
                (if at_is s upper_end (is_lower_class gc) then Some (run_end s upper_end (is_lower_class gc))
                 else map_option snd last_neutral)
              else if upper_end = start then None
              else Some (run_end s upper_end (is_lower_class gc)))
           in map_option (\<lambda>e. case contraction s e True of Some e' \<Rightarrow> e' | None \<Rightarrow> e) finish))"

fun case_split_loop :: "categories \<Rightarrow> utext \<Rightarrow> nat \<Rightarrow> nat \<Rightarrow> bool list \<Rightarrow> nat option" where
  "case_split_loop gc s pos c [] = None"
| "case_split_loop gc s pos c (lower_tail # rest) =
     (case (if is_word_prefix gc c then case_body gc s (pos + 1) lower_tail else None) of
        Some e \<Rightarrow> Some e
      | None \<Rightarrow>
          (case case_body gc s pos lower_tail of
             Some e \<Rightarrow> Some e
           | None \<Rightarrow> case_split_loop gc s pos c rest))"

definition case_split_word :: "categories \<Rightarrow> utext \<Rightarrow> nat \<Rightarrow> nat \<Rightarrow> nat option" where
  "case_split_word gc s pos c = case_split_loop gc s pos c [True, False]"

definition rule_punct :: "categories \<Rightarrow> word_rule \<Rightarrow> nat \<Rightarrow> bool" where
  "rule_punct gc rule x \<longleftrightarrow>
     \<not> is_space x \<and> \<not> is_letter gc x \<and> \<not> is_number gc x \<and> \<not> (marks_are_letters rule \<and> is_mark gc x)"

definition rule_tail :: "word_rule \<Rightarrow> nat \<Rightarrow> bool" where
  "rule_tail rule x \<longleftrightarrow> x = 13 \<or> x = 10 \<or> case_split rule \<and> x = 47"

definition digit_group :: "categories \<Rightarrow> word_rule \<Rightarrow> utext \<Rightarrow> nat \<Rightarrow> nat" where
  "digit_group gc rule s pos = pos + length (takeWhile (is_number gc) (take (max_digits rule) (drop pos s)))"

definition word_at :: "categories \<Rightarrow> word_rule \<Rightarrow> utext \<Rightarrow> nat \<Rightarrow> nat \<Rightarrow> nat option" where
  "word_at gc rule s pos c =
     (case (if standalone_contractions rule \<and> c = 39 then contraction s pos True else None) of
        Some e \<Rightarrow> Some e
      | None \<Rightarrow>
          (case (if case_split rule then case_split_word gc s pos c else letter_word gc rule s pos c) of
             Some e \<Rightarrow> Some e
           | None \<Rightarrow>
               if is_number gc c then Some (digit_group gc rule s pos)
               else
                 let body = (if c = 32 then pos + 1 else pos) in
                 if at_is s body (rule_punct gc rule) then
                   Some (run_end s (run_end s body (rule_punct gc rule)) (rule_tail rule))
                 else if \<not> is_space c then None
                 else
                   (case whitespace_run s pos of (finish, last_start, last_newline_end) \<Rightarrow>
                      (case last_newline_end of
                         Some e \<Rightarrow> Some e
                       | None \<Rightarrow>
                           if finish = length s \<or> last_start = pos then Some finish
                           else Some last_start))))"

definition match_at :: "categories \<Rightarrow> stage \<Rightarrow> utext \<Rightarrow> nat \<Rightarrow> nat option" where
  "match_at gc stage s pos =
     (case char_at s pos of
        None \<Rightarrow> None
      | Some c \<Rightarrow>
          (case stage of
             DigitStage \<Rightarrow> if is_number gc c then Some (pos + 1) else None
           | DigitRun \<Rightarrow> if is_number gc c then Some (run_end s pos (is_number gc)) else None
           | ThreeAsciiDigits \<Rightarrow>
               if pos + 3 \<le> length s \<and> list_all is_ascii_digit (take 3 (drop pos s)) then Some (pos + 3)
               else None
           | PunctRun \<Rightarrow>
               if is_punct_run_char gc c then Some (run_end s pos (is_punct_run_char gc)) else None
           | Gpt2 \<Rightarrow> gpt2_at gc s pos c
           | WordStage rule \<Rightarrow> word_at gc rule s pos c))"

section \<open>Splitting\<close>

text \<open>
  One fragment: matches and the gaps between them, as ranges of the whole text. A match of no
  characters counts as none, so the position always advances.
\<close>

function split_fragment ::
  "categories \<Rightarrow> stage \<Rightarrow> utext \<Rightarrow> nat \<Rightarrow> nat \<Rightarrow> nat option \<Rightarrow> (nat \<times> nat) list" where
  "split_fragment gc stage piece base pos gap_start =
     (if pos < length piece then
        (case match_at gc stage piece pos of
           Some finish \<Rightarrow>
             if finish > pos then
               (case gap_start of Some start \<Rightarrow> [(base + start, base + pos)] | None \<Rightarrow> []) @
               (base + pos, base + finish) # split_fragment gc stage piece base finish None
             else
               split_fragment gc stage piece base (pos + 1)
                 (case gap_start of Some start \<Rightarrow> Some start | None \<Rightarrow> Some pos)
         | None \<Rightarrow>
             split_fragment gc stage piece base (pos + 1)
               (case gap_start of Some start \<Rightarrow> Some start | None \<Rightarrow> Some pos))
      else (case gap_start of Some start \<Rightarrow> [(base + start, base + length piece)] | None \<Rightarrow> []))"
  by pat_completeness auto
termination
  by (relation "measure (\<lambda>(gc, stage, piece, base, pos, gap). length piece - pos)") auto

declare split_fragment.simps [simp del]

definition text_slice :: "utext \<Rightarrow> nat \<times> nat \<Rightarrow> utext" where
  "text_slice s r = drop (fst r) (take (snd r) s)"

definition split_stage :: "categories \<Rightarrow> stage \<Rightarrow> utext \<Rightarrow> (nat \<times> nat) list \<Rightarrow> (nat \<times> nat) list" where
  "split_stage gc stage s input =
     concat (map (\<lambda>r. split_fragment gc stage (text_slice s r) (fst r) 0 None) input)"

definition pretok_split :: "categories \<Rightarrow> pretokenizer \<Rightarrow> utext \<Rightarrow> (nat \<times> nat) list" where
  "pretok_split gc p s =
     (if s = [] then []
      else fold (\<lambda>stage ranges. split_stage gc stage s ranges) (pt_stages p) [(0, length s)])"

section \<open>Regular expressions with backtracking\<close>

text \<open>
  \<open>rx_ends r s pos\<close> lists the ends of the matches of \<open>r\<close> at \<open>pos\<close> in the order a backtracking
  engine tries them: the left alternative first, repetitions and options greedily. Repetition is
  of one character class, which is all the patterns use. The match is the first end.
\<close>

datatype rx =
    RxClass "nat \<Rightarrow> bool"
  | RxStar "nat \<Rightarrow> bool"
  | RxPlus "nat \<Rightarrow> bool"
  | RxUpTo nat "nat \<Rightarrow> bool"
  | RxSeq rx rx
  | RxAlt rx rx
  | RxOpt rx
  | RxNotAhead "nat \<Rightarrow> bool"

definition run_len :: "utext \<Rightarrow> nat \<Rightarrow> (nat \<Rightarrow> bool) \<Rightarrow> nat" where
  "run_len s pos p = length (takeWhile p (drop pos s))"

definition down :: "nat \<Rightarrow> nat \<Rightarrow> nat \<Rightarrow> nat list" where
  "down pos lo hi = map (\<lambda>k. pos + k) (rev [lo..<Suc hi])"

fun rx_ends :: "rx \<Rightarrow> utext \<Rightarrow> nat \<Rightarrow> nat list" where
  "rx_ends (RxClass p) s pos = (if at_is s pos p then [pos + 1] else [])"
| "rx_ends (RxStar p) s pos = down pos 0 (run_len s pos p)"
| "rx_ends (RxPlus p) s pos = down pos 1 (run_len s pos p)"
| "rx_ends (RxUpTo m p) s pos = down pos 1 (min m (run_len s pos p))"
| "rx_ends (RxSeq r q) s pos = concat (map (rx_ends q s) (rx_ends r s pos))"
| "rx_ends (RxAlt r q) s pos = rx_ends r s pos @ rx_ends q s pos"
| "rx_ends (RxOpt r) s pos = rx_ends r s pos @ [pos]"
| "rx_ends (RxNotAhead p) s pos = (if at_is s pos p then [] else [pos])"

definition rx_match :: "rx \<Rightarrow> utext \<Rightarrow> nat \<Rightarrow> nat option" where
  "rx_match r s pos = (case rx_ends r s pos of [] \<Rightarrow> None | e # _ \<Rightarrow> Some e)"

subsection \<open>The patterns\<close>

fun rx_alts :: "rx \<Rightarrow> rx list \<Rightarrow> rx" where
  "rx_alts r [] = r"
| "rx_alts r (q # qs) = RxAlt r (rx_alts q qs)"

definition rx_char :: "bool \<Rightarrow> nat \<Rightarrow> rx" where
  "rx_char ci c = RxClass (\<lambda>x. (if ci then to_ascii_lowercase x else x) = c)"

text \<open>\<open>'s|'t|'re|'ve|'m|'ll|'d\<close>, with \<open>(?i:..)\<close> when \<open>ci\<close>.\<close>

definition rx_contraction :: "bool \<Rightarrow> rx" where
  "rx_contraction ci =
     (let q = rx_char False 39; one = (\<lambda>a. RxSeq q (rx_char ci a));
          two = (\<lambda>a b. RxSeq q (RxSeq (rx_char ci a) (rx_char ci b)))
      in rx_alts (one 115) [one 116, two 114 101, two 118 101, one 109, two 108 108, one 100])"

definition rx_gpt2 :: "categories \<Rightarrow> rx" where
  "rx_gpt2 gc =
     (let sp = RxOpt (rx_char False 32) in
      rx_alts (rx_contraction False)
        [RxSeq sp (RxPlus (is_letter gc)), RxSeq sp (RxPlus (is_number gc)),
         RxSeq sp (RxPlus (\<lambda>x. \<not> is_space x \<and> \<not> is_letter gc x \<and> \<not> is_number gc x)),
         RxSeq (RxPlus is_space) (RxNotAhead (\<lambda>x. \<not> is_space x))])"

definition rx_case_word :: "categories \<Rightarrow> rx" where
  "rx_case_word gc =
     (let pre = RxOpt (RxClass (is_word_prefix gc)); con = RxOpt (rx_contraction True);
          U = is_upper_class gc; L = is_lower_class gc
      in RxAlt (RxSeq pre (RxSeq (RxStar U) (RxSeq (RxPlus L) con)))
               (RxSeq pre (RxSeq (RxPlus U) (RxSeq (RxStar L) con))))"

definition is_newline :: "nat \<Rightarrow> bool" where
  "is_newline c \<longleftrightarrow> c = 13 \<or> c = 10"

definition rx_word :: "categories \<Rightarrow> word_rule \<Rightarrow> rx" where
  "rx_word gc rule =
     (let word = (if case_split rule then rx_case_word gc
                  else RxSeq (RxOpt (RxClass (is_word_prefix gc))) (RxPlus (rule_letter gc rule)));
          rest =
            [RxUpTo (max_digits rule) (is_number gc),
             RxSeq (RxOpt (rx_char False 32)) (RxSeq (RxPlus (rule_punct gc rule)) (RxStar (rule_tail rule))),
             RxSeq (RxStar is_space) (RxPlus is_newline),
             RxSeq (RxPlus is_space) (RxNotAhead (\<lambda>x. \<not> is_space x)),
             RxPlus is_space]
      in if standalone_contractions rule then rx_alts (rx_contraction True) (word # rest)
         else rx_alts word rest)"

fun stage_rx :: "categories \<Rightarrow> stage \<Rightarrow> rx" where
  "stage_rx gc DigitStage = RxClass (is_number gc)"
| "stage_rx gc DigitRun = RxPlus (is_number gc)"
| "stage_rx gc ThreeAsciiDigits =
     RxSeq (RxClass is_ascii_digit) (RxSeq (RxClass is_ascii_digit) (RxClass is_ascii_digit))"
| "stage_rx gc PunctRun = RxPlus (is_punct_run_char gc)"
| "stage_rx gc Gpt2 = rx_gpt2 gc"
| "stage_rx gc (WordStage rule) = rx_word gc rule"

subsection \<open>First matches\<close>

lemma down_Nil [simp]: "down pos lo hi = [] \<longleftrightarrow> hi < lo"
  by (auto simp: down_def)

lemma down_step: "lo \<le> Suc hi \<Longrightarrow> down pos lo (Suc hi) = (pos + Suc hi) # down pos lo hi"
  by (simp add: down_def)

lemma down_less [simp]: "hi < lo \<Longrightarrow> down pos lo hi = []"
  by (simp add: down_def)

lemma down_0: "down pos 0 hi = down pos 1 hi @ [pos]"
proof -
  have "[0..<Suc hi] = 0 # [1..<Suc hi]" by (simp add: upt_conv_Cons del: upt_Suc)
  then show ?thesis by (simp add: down_def del: upt_Suc)
qed

lemma at_is_run: "at_is s pos p \<longleftrightarrow> 0 < run_len s pos p"
proof (cases "pos < length s")
  case True
  then have "drop pos s = s ! pos # drop (Suc pos) s" by (simp add: Cons_nth_drop_Suc)
  then show ?thesis using True by (simp add: at_is_def char_at_def run_len_def)
qed (simp add: at_is_def char_at_def run_len_def)

lemma rx_match_class: "rx_match (RxClass p) s pos = (if at_is s pos p then Some (pos + 1) else None)"
  by (simp add: rx_match_def)

lemma rx_match_plus:
  "rx_match (RxPlus p) s pos = (if at_is s pos p then Some (run_end s pos p) else None)"
  by (cases "run_len s pos p")
    (simp_all add: at_is_run rx_match_def down_step run_end_def run_len_def [symmetric])

lemma rx_match_star: "rx_match (RxStar p) s pos = Some (run_end s pos p)"
  by (cases "run_len s pos p") (simp_all add: rx_match_def down_step run_end_def run_len_def [symmetric] down_def)

lemma rx_match_upto:
  "0 < m \<Longrightarrow> rx_match (RxUpTo m p) s pos = (if at_is s pos p then Some (pos + min m (run_len s pos p)) else None)"
proof -
  assume m: "0 < m"
  note at = at_is_run [of s pos p]
  show ?thesis
  proof (cases "min m (run_len s pos p)")
    case 0
    then show ?thesis using m at by (auto simp: rx_match_def min_def split: if_splits)
  next
    case (Suc n)
    then show ?thesis using m at by (auto simp: rx_match_def down_step min_def split: if_splits)
  qed
qed

lemma rx_match_alt:
  "rx_match (RxAlt r q) s pos = (case rx_match r s pos of Some e \<Rightarrow> Some e | None \<Rightarrow> rx_match q s pos)"
  by (auto simp: rx_match_def split: list.splits)

text \<open>A sequence: the first end of the first part from which the second matches.\<close>

fun first_some :: "('a \<Rightarrow> 'b option) \<Rightarrow> 'a list \<Rightarrow> 'b option" where
  "first_some f [] = None"
| "first_some f (x # xs) = (case f x of Some y \<Rightarrow> Some y | None \<Rightarrow> first_some f xs)"

lemma first_some_append:
  "first_some f (xs @ ys) = (case first_some f xs of Some y \<Rightarrow> Some y | None \<Rightarrow> first_some f ys)"
  by (induction xs) (auto split: option.splits)

lemma rx_match_seq: "rx_match (RxSeq r q) s pos = first_some (rx_match q s) (rx_ends r s pos)"
proof -
  have "(case concat (map (rx_ends q s) xs) of [] \<Rightarrow> None | e # _ \<Rightarrow> Some e) = first_some (rx_match q s) xs" for xs
  proof (induction xs)
    case (Cons a xs)
    then show ?case by (cases "rx_ends q s a") (simp_all add: rx_match_def)
  qed simp
  then show ?thesis by (simp add: rx_match_def)
qed

lemma rx_match_opt:
  "rx_match (RxOpt r) s pos = (case rx_match r s pos of Some e \<Rightarrow> Some e | None \<Rightarrow> Some pos)"
  by (auto simp: rx_match_def split: list.splits)

lemma rx_match_opt_class:
  "rx_match (RxSeq (RxOpt (RxClass p)) q) s pos =
     (case (if at_is s pos p then rx_match q s (pos + 1) else None) of
        Some e \<Rightarrow> Some e | None \<Rightarrow> rx_match q s pos)"
  by (simp add: rx_match_seq first_some_append split: option.splits)

lemma rx_match_class_seq:
  "rx_match (RxSeq (RxClass p) q) s pos = (if at_is s pos p then rx_match q s (pos + 1) else None)"
  by (simp add: rx_match_seq split: option.splits)

lemmas rx_matches = rx_match_class rx_match_plus rx_match_star rx_match_alt rx_match_opt_class
  rx_match_class_seq

text \<open>Ends lie between the start and the end of the text.\<close>

lemma run_len_le: "run_len s pos p \<le> length s - pos"
  unfolding run_len_def using length_takeWhile_le [of p "drop pos s"] by simp

lemma down_bounds: "e \<in> set (down pos lo hi) \<Longrightarrow> pos + lo \<le> e \<and> e \<le> pos + hi"
  by (auto simp: down_def)

lemma rx_ends_bounds: "e \<in> set (rx_ends r s pos) \<Longrightarrow> pos \<le> length s \<Longrightarrow> pos \<le> e \<and> e \<le> length s"
proof (induction r arbitrary: pos e)
  case (RxSeq r q)
  then obtain m where "m \<in> set (rx_ends r s pos)" "e \<in> set (rx_ends q s m)" by auto
  then show ?case using RxSeq.IH(1) [of m pos] RxSeq.IH(2) [of e m] RxSeq.prems(2) by fastforce
next
  case (RxStar p)
  then show ?case using down_bounds [of e pos 0] run_len_le [of s pos p] by fastforce
next
  case (RxPlus p)
  then show ?case using down_bounds [of e pos 1] run_len_le [of s pos p] by fastforce
next
  case (RxUpTo m p)
  then show ?case using down_bounds [of e pos 1] run_len_le [of s pos p] by fastforce
qed (auto simp: at_is_def char_at_def split: if_splits)

lemma rx_match_bounds: "rx_match r s pos = Some e \<Longrightarrow> pos \<le> length s \<Longrightarrow> pos \<le> e \<and> e \<le> length s"
  using rx_ends_bounds [of e r s pos] by (auto simp: rx_match_def split: list.splits)

section \<open>The scanners find the first match\<close>

lemma contraction_rx: "rx_match (rx_contraction ci) s pos = contraction s pos ci"
  unfolding rx_contraction_def rx_char_def contraction_def Let_def
  by (simp add: rx_matches at_is_def split: option.splits)

lemma first_some_map: "first_some f (map g xs) = first_some (f \<circ> g) xs"
  by (induction xs) (auto split: option.splits)

lemma first_some_cong: "(\<And>x. x \<in> set xs \<Longrightarrow> f x = g x) \<Longrightarrow> first_some f xs = first_some g xs"
  by (induction xs) (auto split: option.splits)

lemma first_some_None: "first_some f xs = None \<longleftrightarrow> (\<forall>x \<in> set xs. f x = None)"
  by (induction xs) (auto split: option.splits)

lemma rev_upt_Suc: "rev [0..<Suc n] = map Suc (rev [0..<n]) @ [0]"
proof -
  have "[0..<Suc n] = 0 # map Suc [0..<n]" by (metis map_Suc_upt upt_conv_Cons zero_less_Suc)
  then show ?thesis by (simp add: rev_map del: upt_Suc)
qed

text \<open>The last index, below the run's length, of a character with a property.\<close>

definition last_in_run :: "(nat \<Rightarrow> bool) \<Rightarrow> (nat \<Rightarrow> bool) \<Rightarrow> utext \<Rightarrow> nat option" where
  "last_in_run p q cs =
     first_some (\<lambda>k. if q (cs ! k) then Some k else None) (rev [0..<length (takeWhile p cs)])"

lemma last_in_run_Cons:
  "last_in_run p q (c # cs) =
     (if p c then
        (case last_in_run p q cs of Some k \<Rightarrow> Some (Suc k) | None \<Rightarrow> if q c then Some 0 else None)
      else None)"
proof -
  have "first_some (\<lambda>k. if q (cs ! k) then Some (Suc k) else None) ks =
      map_option Suc (first_some (\<lambda>k. if q (cs ! k) then Some k else None) ks)" for ks
    by (induction ks) auto
  then show ?thesis
    by (auto simp: last_in_run_def rev_upt_Suc first_some_append first_some_map o_def simp del: upt_Suc
        split: option.splits)
qed

lemma last_in_run_Some:
  assumes "last_in_run p q cs = Some k"
  shows "k < length (takeWhile p cs)" "q (cs ! k)" "\<And>i. k < i \<Longrightarrow> i < length (takeWhile p cs) \<Longrightarrow> \<not> q (cs ! i)"
proof -
  have "k < length (takeWhile p cs) \<and> q (cs ! k) \<and> (\<forall>i. k < i \<and> i < length (takeWhile p cs) \<longrightarrow> \<not> q (cs ! i))"
    using assms
  proof (induction cs arbitrary: k)
    case (Cons c cs)
    show ?case
    proof (cases "last_in_run p q cs")
      case None
      then have no: "\<forall>i < length (takeWhile p cs). \<not> q (cs ! i)"
        by (auto simp: last_in_run_def first_some_None split: if_splits)
      from None Cons.prems have "k = 0" "p c" "q c" by (auto simp: last_in_run_Cons split: if_splits)
      with no show ?thesis by (auto simp: nth_Cons' less_Suc_eq_0_disj)
    next
      case (Some j)
      then have "k = Suc j" "p c" using Cons.prems by (auto simp: last_in_run_Cons split: if_splits)
      with Cons.IH [OF Some] show ?thesis by (auto simp: less_Suc_eq_0_disj)
    qed
  qed (simp add: last_in_run_def)
  then show "k < length (takeWhile p cs)" "q (cs ! k)"
    "\<And>i. k < i \<Longrightarrow> i < length (takeWhile p cs) \<Longrightarrow> \<not> q (cs ! i)" by blast+
qed

lemma last_in_run_None: "last_in_run p q cs = None \<longleftrightarrow> (\<forall>i < length (takeWhile p cs). \<not> q (cs ! i))"
  by (auto simp: last_in_run_def first_some_None)

lemma whitespace_scan_eq:
  "whitespace_scan cs f (e, l, n) =
     (let k = length (takeWhile is_space cs) in
      (if k = 0 then e else f + k, if k = 0 then l else f + k - 1,
       case last_in_run is_space is_newline cs of Some i \<Rightarrow> Some (f + i + 1) | None \<Rightarrow> n))"
proof (induction cs arbitrary: f e l n)
  case (Cons c cs)
  then show ?case
    by (auto simp: Let_def last_in_run_Cons is_newline_def split: option.splits)
qed (simp add: last_in_run_def)

lemma whitespace_run_eq:
  "whitespace_run s pos =
     (run_end s pos is_space,
      if at_is s pos is_space then run_end s pos is_space - 1 else pos,
      map_option (\<lambda>i. pos + i + 1) (last_in_run is_space is_newline (drop pos s)))"
  by (auto simp: whitespace_run_def whitespace_scan_eq Let_def run_end_def at_is_run run_len_def
      split: option.splits)

lemma upper_scan_eq:
  "upper_scan gc cs f l =
     (f + length (takeWhile (is_upper_class gc) cs),
      case last_in_run (is_upper_class gc) (is_lower_class gc) cs of
        Some i \<Rightarrow> Some (f + i, f + i + 1) | None \<Rightarrow> l)"
  by (induction cs arbitrary: f l) (auto simp: last_in_run_Cons last_in_run_def [of _ _ "[]"] split: option.splits)

lemma nth_run: "k < run_len s pos p \<Longrightarrow> p (s ! (pos + k)) \<and> pos + k < length s"
proof -
  assume k: "k < run_len s pos p"
  then have len: "pos + k < length s" using run_len_le [of s pos p] by linarith
  have "takeWhile p (drop pos s) ! k = drop pos s ! k" using k by (simp add: run_len_def takeWhile_nth)
  moreover have "takeWhile p (drop pos s) ! k \<in> set (takeWhile p (drop pos s))" using k by (simp add: run_len_def)
  ultimately show ?thesis using len by (auto dest: set_takeWhileD simp: add.commute)
qed

lemma run_stops: "\<not> at_is s (run_end s pos p) p"
proof (cases "run_end s pos p < length s")
  case True
  then have "run_len s pos p < length (drop pos s)" by (simp add: run_end_def run_len_def)
  then have "\<not> p (drop pos s ! run_len s pos p)" unfolding run_len_def by (rule nth_length_takeWhile)
  then show ?thesis using True by (simp add: at_is_def char_at_def run_end_def run_len_def)
qed (simp add: at_is_def char_at_def)

lemma run_end_le: "pos \<le> length s \<Longrightarrow> run_end s pos p \<le> length s"
  using run_len_le [of s pos p] by (simp add: run_end_def run_len_def)

lemma run_one: "at_is s k p \<Longrightarrow> \<not> at_is s (Suc k) p \<Longrightarrow> run_end s k p = Suc k"
proof -
  assume k: "at_is s k p" and no: "\<not> at_is s (Suc k) p"
  from k have "k < length s" "p (s ! k)" by (auto simp: at_is_def char_at_def split: if_splits)
  moreover from this have "drop k s = s ! k # drop (Suc k) s" by (simp add: Cons_nth_drop_Suc)
  ultimately show ?thesis
    using no by (simp add: at_is_run run_end_def run_len_def)
qed

text \<open>
  A greedy class run followed by something that starts with \<open>q\<close>, where \<open>q\<close> fails at the end of the
  run: the last place of the run where \<open>q\<close> holds.
\<close>

lemma first_in_run:
  assumes "\<And>k. at_is s k q \<Longrightarrow> f k \<noteq> None" "\<And>k. \<not> at_is s k q \<Longrightarrow> f k = None"
    and "\<not> at_is s (run_end s pos p) q"
  shows "first_some f (down pos 0 (run_len s pos p)) =
    (case last_in_run p q (drop pos s) of Some k \<Rightarrow> f (pos + k) | None \<Rightarrow> None)"
proof -
  let ?n = "run_len s pos p"
  have "f (pos + ?n) = None" using assms(2,3) by (simp add: run_end_def run_len_def)
  then have "first_some f (down pos 0 ?n) = first_some (\<lambda>k. f (pos + k)) (rev [0..<?n])"
    by (simp add: down_def first_some_map o_def)
  moreover have at: "at_is s (pos + k) q \<longleftrightarrow> q (drop pos s ! k)" if "k < ?n" for k
    using nth_run [OF that] by (simp add: at_is_def char_at_def add.commute)
  have "first_some (\<lambda>k. f (pos + k)) ks =
      (case first_some (\<lambda>k. if q (drop pos s ! k) then Some k else None) ks of
         Some k \<Rightarrow> f (pos + k) | None \<Rightarrow> None)" if "set ks \<subseteq> {..<?n}" for ks
    using that
  proof (induction ks)
    case (Cons k ks)
    then show ?case using at [of k] assms(1,2) [of "pos + k"] by (cases "f (pos + k)") auto
  qed simp
  from this [of "rev [0..<?n]"] have "first_some (\<lambda>k. f (pos + k)) (rev [0..<?n]) =
      (case last_in_run p q (drop pos s) of Some k \<Rightarrow> f (pos + k) | None \<Rightarrow> None)"
    by (simp add: last_in_run_def run_len_def atLeast0LessThan)
  ultimately show ?thesis by simp
qed

lemma not_space_letter [simp]: "\<not> is_letter gc 32" "\<not> is_number gc 32" "is_space 32"
  by (simp_all add: is_letter_def is_number_def is_ascii_def is_ascii_uppercase_def is_ascii_lowercase_def
      is_ascii_digit_def is_space_def is_white_space_def)

text \<open>\<open>\s+(?!\S)\<close>: the whole run at the end of the text, else all but its last character.\<close>

lemma space_run_rx:
  assumes "at_is s pos is_space"
  shows "rx_match (RxSeq (RxPlus is_space) (RxNotAhead (\<lambda>x. \<not> is_space x))) s pos =
    (if run_end s pos is_space = length s then Some (length s)
     else if run_end s pos is_space - 1 > pos then Some (run_end s pos is_space - 1) else None)"
proof -
  let ?n = "run_len s pos is_space" and ?no = "RxNotAhead (\<lambda>x. \<not> is_space x)"
  obtain m where m: "?n = Suc m" using assms at_is_run [of s pos is_space] gr0_implies_Suc by auto
  have fin: "run_end s pos is_space = pos + Suc m" using m by (simp add: run_end_def run_len_def)
  have ends: "rx_ends (RxPlus is_space) s pos = (pos + Suc m) # down pos 1 m"
    using m by (simp add: down_step)
  have at_end: "rx_match ?no s (pos + Suc m) = (if pos + Suc m = length s then Some (pos + Suc m) else None)"
  proof -
    have "pos < length s" using assms by (auto simp: at_is_def char_at_def split: if_splits)
    then have "pos + Suc m \<le> length s" using run_end_le [of pos s is_space] fin by simp
    moreover have "\<not> at_is s (pos + Suc m) is_space" using run_stops [of s pos is_space] fin by simp
    ultimately show ?thesis by (auto simp: rx_match_def at_is_def char_at_def split: if_splits)
  qed
  show ?thesis
  proof (cases m)
    case 0
    then show ?thesis using at_end fin by (simp only: rx_match_seq ends first_some.simps) simp
  next
    case (Suc k)
    have "is_space (s ! (pos + Suc k))" "pos + Suc k < length s" using nth_run [of "Suc k" s pos is_space] m Suc by auto
    then have "rx_match ?no s (pos + Suc k) = Some (pos + Suc k)"
      by (simp add: rx_match_def at_is_def char_at_def)
    then show ?thesis using at_end fin Suc
      by (simp only: rx_match_seq ends first_some.simps down_step) (simp add: down_step)
  qed
qed

lemma at_is_char: "char_at s pos = Some c \<Longrightarrow> at_is s pos p = p c"
  by (simp add: at_is_def)

text \<open>An optional space in front of a class that does not hold spaces.\<close>

lemma opt_space_rx:
  assumes "char_at s pos = Some c" "\<not> p 32"
  shows "rx_match (RxSeq (RxOpt (rx_char False 32)) (RxPlus p)) s pos =
    (let body = (if c = 32 then pos + 1 else pos) in
     if at_is s body p then Some (run_end s body p) else None)"
  using assms by (auto simp: rx_char_def rx_matches at_is_char [OF assms(1)] Let_def split: option.splits)

lemma gpt2_rx:
  assumes c: "char_at s pos = Some c"
  shows "rx_match (rx_gpt2 gc) s pos = gpt2_at gc s pos c"
proof -
  let ?body = "if c = 32 then pos + 1 else pos"
  let ?p = "\<lambda>x. \<not> is_space x \<and> \<not> is_letter gc x \<and> \<not> is_number gc x"
  have quoted: "contraction s pos False = (if c = 39 then contraction s pos False else None)"
    using c by (simp add: contraction_def Let_def)
  have pos: "pos < length s" "s ! pos = c" using c by (auto simp: char_at_def split: if_splits)
  have blank: "rx_match (RxSeq (RxPlus is_space) (RxNotAhead (\<lambda>x. \<not> is_space x))) s pos =
      (if is_space c then
         (case whitespace_run s pos of (finish, last_start, _) \<Rightarrow>
            if finish = length s then Some finish else if last_start > pos then Some last_start else None)
       else None)"
  proof (cases "is_space c")
    case True
    then show ?thesis using space_run_rx [of s pos] c by (simp add: at_is_char whitespace_run_eq)
  next
    case False
    then have "run_len s pos is_space = 0" using at_is_run [of s pos is_space] c by (simp add: at_is_char)
    then show ?thesis using False by (simp add: rx_match_seq)
  qed
  have alts: "rx_match (rx_gpt2 gc) s pos =
      (case contraction s pos False of Some e \<Rightarrow> Some e | None \<Rightarrow>
        (if at_is s ?body (is_letter gc) then Some (run_end s ?body (is_letter gc))
         else if at_is s ?body (is_number gc) then Some (run_end s ?body (is_number gc))
         else if at_is s ?body ?p then Some (run_end s ?body ?p)
         else rx_match (RxSeq (RxPlus is_space) (RxNotAhead (\<lambda>x. \<not> is_space x))) s pos))"
    unfolding rx_gpt2_def Let_def rx_alts.simps rx_match_alt contraction_rx
    using opt_space_rx [OF c, of "is_letter gc"] opt_space_rx [OF c, of "is_number gc"] opt_space_rx [OF c, of ?p]
    by (auto simp: Let_def split: option.splits)
  show ?thesis
    unfolding alts blank gpt2_at_def Let_def
    by (subst quoted) (auto simp: at_is_def split: option.splits)
qed

text \<open>\<open>\s*[\r\n]+\<close>\<close>

lemma newline_rx:
  "rx_match (RxSeq (RxStar is_space) (RxPlus is_newline)) s pos =
     map_option (\<lambda>i. pos + i + 1) (last_in_run is_space is_newline (drop pos s))"
proof -
  have sp: "is_newline c \<Longrightarrow> is_space c" for c
    by (auto simp: is_newline_def is_space_def is_white_space_def)
  have stop: "\<not> at_is s (run_end s pos is_space) is_newline"
    using run_stops [of s pos is_space] sp by (auto simp: at_is_def split: option.splits)
  have "rx_match (RxSeq (RxStar is_space) (RxPlus is_newline)) s pos =
      first_some (rx_match (RxPlus is_newline) s) (down pos 0 (run_len s pos is_space))"
    by (simp add: rx_match_seq)
  also have "\<dots> = (case last_in_run is_space is_newline (drop pos s) of
      Some k \<Rightarrow> rx_match (RxPlus is_newline) s (pos + k) | None \<Rightarrow> None)"
    by (rule first_in_run) (use stop in \<open>auto simp: rx_match_plus\<close>)
  also have "\<dots> = map_option (\<lambda>i. pos + i + 1) (last_in_run is_space is_newline (drop pos s))"
  proof (cases "last_in_run is_space is_newline (drop pos s)")
    case (Some k)
    note k = last_in_run_Some [OF Some, folded run_len_def]
    have at: "at_is s (pos + k) is_newline"
      using k(1,2) nth_run [OF k(1)] by (simp add: at_is_def char_at_def add.commute)
    have "\<not> at_is s (Suc (pos + k)) is_newline"
    proof (cases "Suc k < run_len s pos is_space")
      case True
      then show ?thesis using k(3) [of "Suc k"] nth_run [OF True] by (simp add: at_is_def char_at_def add.commute)
    next
      case False
      then have "Suc (pos + k) = run_end s pos is_space" using k(1) by (simp add: run_end_def run_len_def)
      then show ?thesis using stop by simp
    qed
    then show ?thesis using Some at by (simp add: rx_match_plus run_one)
  qed simp
  finally show ?thesis .
qed

definition with_contraction :: "utext \<Rightarrow> nat \<Rightarrow> nat" where
  "with_contraction s e = (case contraction s e True of Some e' \<Rightarrow> e' | None \<Rightarrow> e)"

lemma opt_contraction_rx: "rx_match (RxOpt (rx_contraction True)) s e = Some (with_contraction s e)"
  by (simp add: rx_match_opt contraction_rx with_contraction_def split: option.splits)

lemma plus_contraction_rx:
  "rx_match (RxSeq (RxPlus p) (RxOpt (rx_contraction True))) s k =
     (if at_is s k p then Some (with_contraction s (run_end s k p)) else None)"
  by (cases "run_len s k p")
    (simp_all add: rx_match_seq at_is_run down_step opt_contraction_rx run_end_def run_len_def [symmetric])

lemma star_contraction_rx:
  "rx_match (RxSeq (RxStar p) (RxOpt (rx_contraction True))) s k = Some (with_contraction s (run_end s k p))"
  by (cases "run_len s k p")
    (simp_all add: rx_match_seq down_step down_def [of _ 0 0] opt_contraction_rx run_end_def run_len_def [symmetric])

lemma upper_at_end: "at_is s (run_end s k p) p = False"
  using run_stops by simp

lemma case_body_lower_rx:
  assumes "start \<le> length s"
  shows "rx_match (RxSeq (RxStar (is_upper_class gc)) (RxSeq (RxPlus (is_lower_class gc)) (RxOpt (rx_contraction True)))) s start =
    case_body gc s start True"
proof -
  let ?U = "is_upper_class gc" and ?L = "is_lower_class gc"
  let ?f = "rx_match (RxSeq (RxPlus ?L) (RxOpt (rx_contraction True))) s"
  let ?n = "run_len s start ?U" and ?e = "run_end s start ?U"
  have e: "start + ?n = ?e" by (simp add: run_end_def run_len_def)
  have body: "case_body gc s start True =
      map_option (with_contraction s)
        (if at_is s ?e ?L then Some (run_end s ?e ?L)
         else map_option (\<lambda>i. start + i + 1) (last_in_run ?U ?L (drop start s)))"
    using assms
    by (auto simp: case_body_def upper_scan_eq run_end_def with_contraction_def Let_def split: option.splits)
  show ?thesis
  proof (cases "at_is s ?e ?L")
    case True
    have "down start 0 ?n = ?e # (case ?n of 0 \<Rightarrow> [] | Suc m \<Rightarrow> down start 0 m)"
      using e by (cases ?n) (simp_all add: down_step down_def [of _ 0 0])
    then show ?thesis unfolding body using True by (simp add: rx_match_seq [of "RxStar _"] plus_contraction_rx)
  next
    case False
    have "rx_match (RxSeq (RxStar ?U) (RxSeq (RxPlus ?L) (RxOpt (rx_contraction True)))) s start =
        first_some ?f (down start 0 ?n)"
      by (simp add: rx_match_seq [of "RxStar _"])
    also have "\<dots> = (case last_in_run ?U ?L (drop start s) of Some k \<Rightarrow> ?f (start + k) | None \<Rightarrow> None)"
      by (rule first_in_run) (use False in \<open>auto simp: plus_contraction_rx\<close>)
    also have "\<dots> = case_body gc s start True"
    proof (cases "last_in_run ?U ?L (drop start s)")
      case (Some k)
      note k = last_in_run_Some [OF Some, folded run_len_def]
      have at: "at_is s (start + k) ?L"
        using k(1,2) nth_run [OF k(1)] by (simp add: at_is_def char_at_def add.commute)
      have "\<not> at_is s (Suc (start + k)) ?L"
      proof (cases "Suc k < ?n")
        case True
        then show ?thesis using k(3) [of "Suc k"] nth_run [OF True] by (simp add: at_is_def char_at_def add.commute)
      next
        case no: False
        then have "Suc (start + k) = ?e" using k(1) by (simp add: run_end_def run_len_def)
        then show ?thesis using False by simp
      qed
      then show ?thesis unfolding body using Some at False by (simp add: plus_contraction_rx run_one)
    qed (use False in \<open>simp add: body\<close>)
    finally show ?thesis .
  qed
qed

lemma case_body_upper_rx:
  assumes "start \<le> length s"
  shows "rx_match (RxSeq (RxPlus (is_upper_class gc)) (RxSeq (RxStar (is_lower_class gc)) (RxOpt (rx_contraction True)))) s start =
    case_body gc s start False"
proof -
  let ?U = "is_upper_class gc" and ?L = "is_lower_class gc"
  let ?n = "run_len s start ?U"
  have "case_body gc s start False =
      (if ?n = 0 then None else Some (with_contraction s (run_end s (start + ?n) ?L)))"
    using assms
    by (auto simp: case_body_def upper_scan_eq run_len_def with_contraction_def Let_def split: option.splits)
  then show ?thesis
    by (cases ?n) (simp_all add: rx_match_seq [of "RxPlus _"] down_step star_contraction_rx)
qed

lemma case_split_rx:
  assumes "char_at s pos = Some c"
  shows "rx_match (rx_case_word gc) s pos = case_split_word gc s pos c"
proof -
  have "pos + 1 \<le> length s" "pos \<le> length s" using assms by (auto simp: char_at_def split: if_splits)
  note body = case_body_lower_rx [OF this(1)] case_body_lower_rx [OF this(2)]
    case_body_upper_rx [OF this(1)] case_body_upper_rx [OF this(2)]
  show ?thesis
    unfolding rx_case_word_def Let_def rx_match_alt rx_match_opt_class
    using body by (auto simp: case_split_word_def at_is_char [OF assms] split: option.splits)
qed

lemma letter_word_rx:
  assumes "char_at s pos = Some c"
  shows "rx_match (RxSeq (RxOpt (RxClass (is_word_prefix gc))) (RxPlus (rule_letter gc rule))) s pos =
    letter_word gc rule s pos c"
  by (auto simp: rx_match_opt_class rx_match_plus letter_word_def at_is_char [OF assms])

lemma takeWhile_take_len: "length (takeWhile p (take m cs)) = min m (length (takeWhile p cs))"
  by (induction cs arbitrary: m) (auto simp: take_Cons')

lemma not_space_punct: "\<not> rule_punct gc rule 32"
  by (simp add: rule_punct_def)

lemma punct_rx:
  assumes c: "char_at s pos = Some c"
  shows "rx_match (RxSeq (RxOpt (rx_char False 32)) (RxSeq (RxPlus (rule_punct gc rule)) (RxStar (rule_tail rule)))) s pos =
    (let body = (if c = 32 then pos + 1 else pos) in
     if at_is s body (rule_punct gc rule)
     then Some (run_end s (run_end s body (rule_punct gc rule)) (rule_tail rule)) else None)"
proof -
  have "rx_match (RxSeq (RxPlus p) (RxStar q)) s k =
      (if at_is s k p then Some (run_end s (run_end s k p) q) else None)" for p q k
    by (cases "run_len s k p")
      (simp_all add: rx_match_seq at_is_run down_step rx_match_star run_end_def run_len_def [symmetric])
  then show ?thesis
    using not_space_punct [of gc rule]
    by (auto simp: rx_char_def rx_match_opt_class at_is_char [OF c] Let_def)
qed

lemma word_rx:
  assumes c: "char_at s pos = Some c" and digits: "0 < max_digits rule"
  shows "rx_match (rx_word gc rule) s pos = word_at gc rule s pos c"
proof -
  let ?body = "if c = 32 then pos + 1 else pos"
  let ?word = "if case_split rule then rx_case_word gc
      else RxSeq (RxOpt (RxClass (is_word_prefix gc))) (RxPlus (rule_letter gc rule))"
  have quoted: "contraction s pos True = (if c = 39 then contraction s pos True else None)"
    using c by (simp add: contraction_def Let_def)
  have word: "rx_match ?word s pos = (if case_split rule then case_split_word gc s pos c else letter_word gc rule s pos c)"
    using case_split_rx [OF c] letter_word_rx [OF c] by simp
  have number: "rx_match (RxUpTo (max_digits rule) (is_number gc)) s pos =
      (if is_number gc c then Some (digit_group gc rule s pos) else None)"
    using digits by (simp add: rx_match_upto at_is_char [OF c] digit_group_def takeWhile_take_len run_len_def)
  have spaces: "(case rx_match (RxSeq (RxStar is_space) (RxPlus is_newline)) s pos of Some e \<Rightarrow> Some e
      | None \<Rightarrow> (case rx_match (RxSeq (RxPlus is_space) (RxNotAhead (\<lambda>x. \<not> is_space x))) s pos of Some e \<Rightarrow> Some e
      | None \<Rightarrow> rx_match (RxPlus is_space) s pos)) =
      (if \<not> is_space c then None
       else (case whitespace_run s pos of (finish, last_start, last_newline_end) \<Rightarrow>
         (case last_newline_end of Some e \<Rightarrow> Some e
          | None \<Rightarrow> if finish = length s \<or> last_start = pos then Some finish else Some last_start)))"
  proof (cases "is_space c")
    case True
    then have "at_is s pos is_space" by (simp add: at_is_char [OF c])
    then have "pos < run_end s pos is_space" by (simp add: at_is_run run_end_def run_len_def)
    then show ?thesis
      using True space_run_rx [OF \<open>at_is s pos is_space\<close>]
      by (auto simp: newline_rx whitespace_run_eq at_is_char [OF c] rx_match_plus split: option.splits)
  next
    case False
    then have "run_len s pos is_space = 0" using at_is_run [of s pos is_space] c by (simp add: at_is_char)
    moreover from this have "rx_match (RxSeq (RxPlus is_space) (RxNotAhead (\<lambda>x. \<not> is_space x))) s pos = None"
      by (simp add: rx_match_seq)
    ultimately show ?thesis using False
      by (simp add: newline_rx rx_match_plus at_is_run last_in_run_def run_len_def)
  qed
  let ?rest = "\<lambda>w. case w of Some e \<Rightarrow> Some e
      | None \<Rightarrow>
          if is_number gc c then Some (digit_group gc rule s pos)
          else if at_is s ?body (rule_punct gc rule)
            then Some (run_end s (run_end s ?body (rule_punct gc rule)) (rule_tail rule))
          else if \<not> is_space c then None
          else (case whitespace_run s pos of (finish, last_start, last_newline_end) \<Rightarrow>
            (case last_newline_end of Some e \<Rightarrow> Some e
             | None \<Rightarrow> if finish = length s \<or> last_start = pos then Some finish else Some last_start))"
  have chain: "(case w of Some e \<Rightarrow> Some e | None \<Rightarrow> (case (if n then Some d else None) of Some e \<Rightarrow> Some e
      | None \<Rightarrow> (case (if p then Some q else None) of Some e \<Rightarrow> Some e | None \<Rightarrow> z))) =
    (case w of Some e \<Rightarrow> Some e | None \<Rightarrow> if n then Some d else if p then Some q else z)"
    for w z :: "nat option" and n p d q
    by (auto split: option.splits)
  have rest: "rx_match (rx_alts ?word
      [RxUpTo (max_digits rule) (is_number gc),
       RxSeq (RxOpt (rx_char False 32)) (RxSeq (RxPlus (rule_punct gc rule)) (RxStar (rule_tail rule))),
       RxSeq (RxStar is_space) (RxPlus is_newline),
       RxSeq (RxPlus is_space) (RxNotAhead (\<lambda>x. \<not> is_space x)), RxPlus is_space]) s pos =
    ?rest (if case_split rule then case_split_word gc s pos c else letter_word gc rule s pos c)"
    unfolding rx_alts.simps rx_match_alt word number punct_rx [OF c] spaces Let_def chain by (rule refl)
  have whole: "word_at gc rule s pos c =
    (case (if standalone_contractions rule \<and> c = 39 then contraction s pos True else None) of
       Some e \<Rightarrow> Some e
     | None \<Rightarrow> ?rest (if case_split rule then case_split_word gc s pos c else letter_word gc rule s pos c))"
    unfolding word_at_def Let_def by (rule refl)
  show ?thesis
  proof (cases "standalone_contractions rule")
    case True
    have "rx_match (rx_word gc rule) s pos =
      (case contraction s pos True of Some e \<Rightarrow> Some e
       | None \<Rightarrow> ?rest (if case_split rule then case_split_word gc s pos c else letter_word gc rule s pos c))"
      unfolding rx_word_def Let_def if_P [OF True] rx_alts.simps(2) [of "rx_contraction True"]
        rx_match_alt [of "rx_contraction True"] rest contraction_rx by (rule refl)
    moreover have "(if standalone_contractions rule \<and> c = 39 then contraction s pos True else None) =
        contraction s pos True"
      using True quoted by simp
    ultimately show ?thesis unfolding whole by (simp only:)
  next
    case False
    then show ?thesis using rest unfolding whole by (simp add: rx_word_def Let_def)
  qed
qed

lemma three_digits_rx:
  assumes c: "char_at s pos = Some c"
  shows "rx_match (stage_rx gc ThreeAsciiDigits) s pos =
    (if pos + 3 \<le> length s \<and> list_all is_ascii_digit (take 3 (drop pos s)) then Some (pos + 3) else None)"
proof -
  have three: "take 3 (drop pos s) = [s ! pos, s ! (pos + 1), s ! (pos + 2)]" if "pos + 3 \<le> length s"
    using that by (intro nth_equalityI) (auto simp: less_Suc_eq numeral_3_eq_3)
  show ?thesis
    by (auto simp: rx_matches at_is_def char_at_def three split: if_splits)
qed

lemma match_at_rx:
  assumes "pos < length s" "\<forall>rule. stage = WordStage rule \<longrightarrow> 0 < max_digits rule"
  shows "match_at gc stage s pos = rx_match (stage_rx gc stage) s pos"
proof -
  obtain c where c: "char_at s pos = Some c" using assms(1) by (simp add: char_at_def)
  show ?thesis
    using assms(2) gpt2_rx [OF c, of gc] word_rx [OF c, of _ gc] three_digits_rx [OF c, of gc]
    by (cases stage) (simp_all add: match_at_def c rx_match_class rx_match_plus at_is_char [OF c])
qed

section \<open>The words tile the text\<close>

fun tiles :: "nat \<Rightarrow> (nat \<times> nat) list \<Rightarrow> nat \<Rightarrow> bool" where
  "tiles a [] b \<longleftrightarrow> a = b"
| "tiles a ((x, y) # rs) b \<longleftrightarrow> x = a \<and> x < y \<and> tiles y rs b"

lemma tiles_append: "tiles a xs b \<Longrightarrow> tiles b ys c \<Longrightarrow> tiles a (xs @ ys) c"
  by (induction a xs b rule: tiles.induct) auto

lemma tiles_le: "tiles a rs b \<Longrightarrow> a \<le> b"
  by (induction a rs b rule: tiles.induct) auto

lemma tiles_text: "tiles a rs b \<Longrightarrow> b \<le> length s \<Longrightarrow> concat (map (text_slice s) rs) = drop a (take b s)"
proof (induction a rs b rule: tiles.induct)
  case (2 a x y rs b)
  then have y: "x = a" "x < y" "y \<le> b" by (auto dest: tiles_le)
  have "take b s = take y s @ drop y (take b s)"
    using append_take_drop_id [of y "take b s"] y(3) by (simp add: min_absorb1)
  then have "drop a (take b s) = drop a (take y s @ drop y (take b s))" by (rule arg_cong)
  also have "\<dots> = drop a (take y s) @ drop y (take b s)" using y "2.prems"(2) by simp
  finally have "drop a (take b s) = drop a (take y s) @ drop y (take b s)" .
  with 2 y show ?case by (simp add: text_slice_def)
qed simp

definition rules_ok :: "stage \<Rightarrow> bool" where
  "rules_ok stage \<longleftrightarrow> (\<forall>rule. stage = WordStage rule \<longrightarrow> 0 < max_digits rule)"

lemma match_at_le: "match_at gc stage s pos = Some e \<Longrightarrow> rules_ok stage \<Longrightarrow> e \<le> length s"
proof (cases "pos < length s")
  case True
  assume "match_at gc stage s pos = Some e" "rules_ok stage"
  then show ?thesis using True match_at_rx [of pos s stage gc] rx_match_bounds [of _ s pos e]
    by (simp add: rules_ok_def)
qed (simp add: match_at_def char_at_def)

lemma split_fragment_tiles:
  assumes "rules_ok stage" "pos \<le> length piece" "case gap of Some g \<Rightarrow> g < pos | None \<Rightarrow> True"
  shows "tiles (base + (case gap of Some g \<Rightarrow> g | None \<Rightarrow> pos))
    (split_fragment gc stage piece base pos gap) (base + length piece)"
  using assms
proof (induction gc stage piece base pos gap rule: split_fragment.induct)
  case (1 gc stage piece base pos gap)
  show ?case
  proof (cases "pos < length piece")
    case False
    then show ?thesis using "1.prems" by (subst split_fragment.simps) (auto split: option.splits)
  next
    case True
    show ?thesis
    proof (cases "\<exists>e. match_at gc stage piece pos = Some e \<and> e > pos")
      case True
      then obtain e where e: "match_at gc stage piece pos = Some e" "e > pos" by blast
      then have "e \<le> length piece" using match_at_le "1.prems"(1) by blast
      with e "1.IH"(2) [OF \<open>pos < length piece\<close> e(1)] "1.prems"
      have "tiles (base + e) (split_fragment gc stage piece base e None) (base + length piece)" by simp
      then show ?thesis using e "1.prems" \<open>pos < length piece\<close>
        by (subst split_fragment.simps) (auto split: option.splits)
    next
      case no: False
      let ?gap = "case gap of Some start \<Rightarrow> Some start | None \<Rightarrow> Some pos"
      have step: "split_fragment gc stage piece base pos gap = split_fragment gc stage piece base (pos + 1) ?gap"
        using True no by (subst split_fragment.simps) (auto split: option.splits)
      have "tiles (base + (case ?gap of Some g \<Rightarrow> g | None \<Rightarrow> pos + 1))
          (split_fragment gc stage piece base (pos + 1) ?gap) (base + length piece)"
      proof (cases "match_at gc stage piece pos")
        case None
        then show ?thesis using "1.IH"(1) [OF True None] "1.prems" True by (auto split: option.splits)
      next
        case (Some e)
        then have "\<not> pos < e" using no by blast
        then show ?thesis using "1.IH"(3) [OF True Some] "1.prems" True by (auto split: option.splits)
      qed
      then show ?thesis by (simp add: step split: option.splits)
    qed
  qed
qed

lemma split_stage_tiles:
  assumes "rules_ok stage" "tiles a rs b" "b \<le> length s"
  shows "tiles a (split_stage gc stage s rs) b"
  using assms(2,3)
proof (induction a rs b rule: tiles.induct)
  case (2 a x y rs b)
  then have y: "x = a" "x < y" "y \<le> b" by (auto dest: tiles_le)
  then have "a + length (text_slice s (a, y)) = y" using "2.prems"(2) by (simp add: text_slice_def)
  then have "tiles a (split_fragment gc stage (text_slice s (a, y)) a 0 None) y"
    using split_fragment_tiles [OF assms(1), of 0 "text_slice s (a, y)" None a gc] by simp
  moreover have "tiles y (split_stage gc stage s rs) b" using 2 y by simp
  ultimately show ?case using y(1) by (simp add: split_stage_def tiles_append)
qed (simp add: split_stage_def)

lemma split_tiles:
  assumes "\<forall>stage \<in> set (pt_stages p). rules_ok stage" "s \<noteq> []"
  shows "tiles 0 (pretok_split gc p s) (length s)"
proof -
  have "tiles 0 rs (length s) \<Longrightarrow> tiles 0 (fold (\<lambda>stage ranges. split_stage gc stage s ranges) stages rs) (length s)"
    if "\<forall>stage \<in> set stages. rules_ok stage" for stages rs
    using that by (induction stages arbitrary: rs) (auto intro: split_stage_tiles)
  moreover have "tiles 0 [(0, length s)] (length s)" using assms(2) by simp
  ultimately show ?thesis using assms by (simp add: pretok_split_def)
qed

lemma named_rules_ok:
  assumes "pre_from_name name = Some (Words p)" "stage \<in> set (pt_stages p)"
  shows "rules_ok stage"
  using assms
  by (auto simp: pre_from_name_def Let_def rules_ok_def LLAMA3_def QWEN2_def QWEN35_def GPT4O_def
      split: if_splits)

lemma tiles_nonempty: "tiles a rs b \<Longrightarrow> b \<le> length s \<Longrightarrow> r \<in> set rs \<Longrightarrow> text_slice s r \<noteq> []"
proof (induction a rs b rule: tiles.induct)
  case (2 a x y rs b)
  then have "y \<le> b" by (auto dest: tiles_le)
  with 2 show ?case by (auto simp: text_slice_def)
qed simp

lemma split_text:
  assumes "pre_from_name name = Some (Words p)"
  shows "concat (map (text_slice s) (pretok_split gc p s)) = s"
    and "\<forall>w \<in> set (map (text_slice s) (pretok_split gc p s)). w \<noteq> []"
proof -
  have "concat (map (text_slice s) (pretok_split gc p s)) = s \<and>
      (\<forall>w \<in> set (map (text_slice s) (pretok_split gc p s)). w \<noteq> [])"
  proof (cases "s = []")
    case False
    then have "tiles 0 (pretok_split gc p s) (length s)"
      using split_tiles named_rules_ok [OF assms] by blast
    then show ?thesis using tiles_text [of 0 _ "length s" s] tiles_nonempty [of 0 _ "length s" s] by auto
  qed (simp add: pretok_split_def)
  then show "concat (map (text_slice s) (pretok_split gc p s)) = s"
    "\<forall>w \<in> set (map (text_slice s) (pretok_split gc p s)). w \<noteq> []" by blast+
qed

section \<open>Properties\<close>

text \<open>
C34: Every hand-written scanner of every named pre-tokenizer returns exactly the first match a
  backtracking engine finds for the pattern its comment states, including the contractions, the
  optional prefixes and spaces, \<open>\s+(?!\S)\<close>, \<open>\s*[\r\n]+\<close> and the overlapping case classes of
  GPT-4o, whatever the Unicode categories are.
\<close>

theorem scanner_is_first_regex_match:
  assumes "pre_from_name name = Some (Words p)" "stage \<in> set (pt_stages p)" "pos < length s"
  shows "match_at gc stage s pos = rx_match (stage_rx gc stage) s pos"
  using match_at_rx [OF assms(3)] named_rules_ok [OF assms(1,2)] by (simp add: rules_ok_def)

theorem scanner_is_first_regex_match_witness:
  "match_at (\<lambda>_. OtherCategory) (WordStage GPT4O) [72, 105, 39, 83] 0 =
     rx_match (stage_rx (\<lambda>_. OtherCategory) (WordStage GPT4O)) [72, 105, 39, 83] 0"
proof -
  have "pre_from_name (Some (ustr ''gpt-4o'')) =
      Some (Words \<lparr>pt_stages = [WordStage GPT4O], pt_ignore_merges = False, pt_add_bos = False\<rparr>)"
    by (simp add: pre_from_name_def named_def ustr_def)
  from scanner_is_first_regex_match [OF this] show ?thesis by simp
qed

text \<open>
C35: The words of every named chain tile the text: joined in order they are the text, and none is
  empty. The stages lose no character, whatever they match.
\<close>

theorem words_tile_the_text:
  assumes "pre_from_name name = Some (Words p)"
  shows "concat (map (text_slice s) (pretok_split gc p s)) = s \<and>
    (\<forall>w \<in> set (map (text_slice s) (pretok_split gc p s)). w \<noteq> [])"
  using split_text [OF assms] by blast

theorem words_tile_the_text_witness:
  "\<exists>p. pre_from_name None = Some (Words p) \<and>
     concat (map (text_slice [72, 32, 49]) (pretok_split (\<lambda>_. OtherCategory) p [72, 32, 49])) = [72, 32, 49]"
proof -
  have "pre_from_name None =
      Some (Words \<lparr>pt_stages = [PunctRun, Gpt2, DigitRun, ThreeAsciiDigits],
                   pt_ignore_merges = False, pt_add_bos = False\<rparr>)"
    by (simp add: pre_from_name_def named_def)
  with words_tile_the_text [OF this, of "[72, 32, 49]"] show ?thesis by blast
qed

end
