(* ===== verification/Tokenizer.thy ===== *)
theory Tokenizer
  imports Spm Pretok
begin

text \<open>
  \<open>src/provider/local/tokenizer/mod.rs\<close>: the tokenizer built from GGUF metadata, the split of
  special tokens out of the text, the encoders and the decoder. A text is its characters; a piece
  of the vocabulary is its bytes and is read as characters where the code does so. The outer
  option of a result is \<open>None\<close> for a panic or a loop that does not end; the theorems show that
  neither happens.
\<close>

section \<open>GGUF metadata\<close>

text \<open>The constructors of the GGUF reader's value type that the code names; the others are one.\<close>

datatype gguf_value =
    GU8 int | GI8 int | GU16 int | GI16 int | GU32 int | GI32 int | GU64 int | GI64 int
  | GF32 "32 word" | GBool bool | GString utext | GArray "gguf_value list" | GOther

type_synonym metadata = "string \<Rightarrow> gguf_value option"

fun value_int :: "gguf_value \<Rightarrow> int option" where
  "value_int (GU8 n) = Some n"
| "value_int (GI8 n) = Some n"
| "value_int (GU16 n) = Some n"
| "value_int (GI16 n) = Some n"
| "value_int (GU32 n) = Some n"
| "value_int (GI32 n) = Some n"
| "value_int (GU64 n) = (if n < 2 ^ 63 then Some n else None)"
| "value_int (GI64 n) = Some n"
| "value_int _ = None"

definition md_string :: "metadata \<Rightarrow> string \<Rightarrow> utext option" where
  "md_string md key = (case md key of Some (GString s) \<Rightarrow> Some s | _ \<Rightarrow> None)"

definition md_boolean :: "metadata \<Rightarrow> string \<Rightarrow> bool option" where
  "md_boolean md key = (case md key of Some (GBool b) \<Rightarrow> Some b | _ \<Rightarrow> None)"

definition md_array :: "metadata \<Rightarrow> string \<Rightarrow> cuca_error + gguf_value list option" where
  "md_array md key =
     (case md key of
        Some (GArray items) \<Rightarrow> Inr (Some items)
      | Some _ \<Rightarrow> Inl (local_err (''GGUF `'' @ key @ ''` is not an array''))
      | None \<Rightarrow> Inr None)"

fun collect :: "('a \<Rightarrow> 'e + 'b) \<Rightarrow> 'a list \<Rightarrow> 'e + 'b list" where
  "collect f [] = Inr []"
| "collect f (x # xs) =
     (case f x of Inl e \<Rightarrow> Inl e | Inr y \<Rightarrow> map_sum id (\<lambda>ys. y # ys) (collect f xs))"

definition md_strings :: "metadata \<Rightarrow> string \<Rightarrow> cuca_error + utext list" where
  "md_strings md key =
     (case md_array md key of
        Inl e \<Rightarrow> Inl e
      | Inr None \<Rightarrow> Inl (local_err (''GGUF lacks `'' @ key @ ''`''))
      | Inr (Some items) \<Rightarrow>
          collect (\<lambda>v. case v of GString s \<Rightarrow> Inr s
            | _ \<Rightarrow> Inl (local_err (''GGUF `'' @ key @ ''` holds a non-string entry''))) items)"

definition md_token_id :: "metadata \<Rightarrow> string \<Rightarrow> nat \<Rightarrow> nat option" where
  "md_token_id md key vocab_size =
     Option.bind (Option.bind (md key) value_int)
       (\<lambda>n. if 0 \<le> n \<and> n < 2 ^ 32 \<and> nat n < vocab_size then Some (nat n) else None)"

text \<open>\<open>str::find\<close> and \<open>str::contains\<close> of a text.\<close>

fun find_sub :: "utext \<Rightarrow> utext \<Rightarrow> nat option" where
  "find_sub p s =
     (if take (length p) s = p then Some 0
      else (case s of [] \<Rightarrow> None | c # cs \<Rightarrow> map_option Suc (find_sub p cs)))"

declare find_sub.simps [simp del]

definition contains :: "utext \<Rightarrow> utext \<Rightarrow> bool" where
  "contains s p \<longleftrightarrow> find_sub p s \<noteq> None"

definition md_is_phi3 :: "metadata \<Rightarrow> utext \<Rightarrow> bool" where
  "md_is_phi3 md model \<longleftrightarrow>
     list_ex (\<lambda>name. let name = map to_ascii_lowercase name in
                contains name (ustr ''phi-3'') \<or> contains name (ustr ''phi3''))
       (List.map_filter (md_string md) [''general.name'', ''general.basename'']) \<or>
     model = ustr ''llama'' \<and> md_string md ''general.architecture'' = Some (ustr ''phi3'')"

text \<open>\<open>i32 as f32\<close>: rounded to 24 significant bits, ties to even.\<close>

definition f32_of_int :: "int \<Rightarrow> 32 word" where
  "f32_of_int i =
     (let n = nat \<bar>i\<bar>; e = bit_length n - 1;
          q = (if e \<le> 23 then n * 2 ^ (23 - e)
               else let d = 2 ^ (e - 23); q = n div d; r = n mod d
                    in if 2 * r > d \<or> 2 * r = d \<and> odd q then q + 1 else q);
          bits = (if n = 0 then 0 else (e + 127) * 2 ^ 23 + q - 2 ^ 23)
      in of_nat ((if i < 0 then 2 ^ 31 else 0) + bits))"

section \<open>The tokenizer\<close>

datatype words = ByteWords pretokenizer | EscapedWords

datatype engine = SpmEngine spm | BpeEngine merges words

record special =
  sp_id :: nat
  sp_lstrip :: bool
  sp_rstrip :: bool

record tk_config =
  cfg_bos :: "nat option"
  cfg_eos :: "nat option"
  cfg_add_bos :: bool
  cfg_add_eos :: bool

record tokenizer =
  tk_vocab :: vocab
  tk_engine :: engine
  tk_specials :: "special list"
  tk_config :: tk_config

definition piece_chars :: "vocab \<Rightarrow> nat \<Rightarrow> utext" where
  "piece_chars v i = (case from_utf8 (vocab_piece v i) of Inr t \<Rightarrow> t | Inl _ \<Rightarrow> [])"

definition special_le :: "vocab \<Rightarrow> special \<Rightarrow> special \<Rightarrow> bool" where
  "special_le v a b \<longleftrightarrow>
     length (vocab_piece v (sp_id b)) < length (vocab_piece v (sp_id a)) \<or>
     length (vocab_piece v (sp_id b)) = length (vocab_piece v (sp_id a)) \<and> sp_id a \<le> sp_id b"

definition is_special_id :: "vocab \<Rightarrow> nat \<Rightarrow> bool" where
  "is_special_id v i \<longleftrightarrow>
     vocab_piece v i \<noteq> [] \<and>
     vocab_token_type v i \<in> {Some TYPE_CONTROL, Some TYPE_USER_DEFINED, Some TYPE_UNKNOWN}"

definition tk_assemble :: "vocab \<Rightarrow> engine \<Rightarrow> tk_config \<Rightarrow> bool \<Rightarrow> tokenizer" where
  "tk_assemble v engine config rstrip_specials =
     \<lparr>tk_vocab = v, tk_engine = engine,
      tk_specials = sort_by (special_le v)
        (map (\<lambda>i. \<lparr>sp_id = i, sp_lstrip = False,
                   sp_rstrip = rstrip_specials \<and>
                     \<not> named (vocab_piece v i) [''<unk>'', ''<s>'', ''<|endoftext|>'']\<rparr>)
             (filter (is_special_id v) [0..<vocab_len v])),
      tk_config = config\<rparr>"

datatype kind = KSpm | KByte pretokenizer | KEscaped

definition gguf_kind :: "metadata \<Rightarrow> utext \<Rightarrow> cuca_error + kind" where
  "gguf_kind md model =
     (if model = ustr ''llama'' then Inr KSpm
      else if model = ustr ''gpt2'' then
        let p = (case md_string md ''tokenizer.ggml.pre'' of
                   Some p \<Rightarrow> if p = [] then None else Some p | None \<Rightarrow> None) in
        (case pre_from_name p of
           Some (Words w) \<Rightarrow> Inr (KByte w)
         | Some Gemma4 \<Rightarrow> Inr KEscaped
         | None \<Rightarrow>
             Inl (local_err (''unsupported pre-tokenizer `'' @
                   shown (utf8_bytes (case p of Some p \<Rightarrow> p | None \<Rightarrow> [])) @ ''`'')))
      else if model = ustr ''gemma4'' then Inr KEscaped
      else Inl (local_err (''unsupported tokenizer model `'' @ shown (utf8_bytes model) @ ''`'')))"

definition gguf_types :: "metadata \<Rightarrow> nat \<Rightarrow> cuca_error + int list" where
  "gguf_types md n =
     (case md_array md ''tokenizer.ggml.token_type'' of
        Inl e \<Rightarrow> Inl e
      | Inr None \<Rightarrow> Inr (replicate n TYPE_NORMAL)
      | Inr (Some items) \<Rightarrow>
          collect (\<lambda>v. case value_int v of
              Some i \<Rightarrow>
                if - (2 ^ 31) \<le> i \<and> i < 2 ^ 31 then Inr i
                else Inl (local_err ''GGUF `tokenizer.ggml.token_type` holds a non-integer entry'')
            | None \<Rightarrow> Inl (local_err ''GGUF `tokenizer.ggml.token_type` holds a non-integer entry'')) items)"

definition gguf_scores :: "metadata \<Rightarrow> nat \<Rightarrow> cuca_error + 32 word list" where
  "gguf_scores md n =
     (case md_array md ''tokenizer.ggml.scores'' of
        Inl e \<Rightarrow> Inl e
      | Inr None \<Rightarrow> Inr (replicate n 0)
      | Inr (Some items) \<Rightarrow>
          if length items < n then
            Inl (local_err (''GGUF `tokenizer.ggml.scores` has '' @ show_nat (length items) @
                            '' entries for '' @ show_nat n @ '' tokens''))
          else
            collect (\<lambda>v. case v of
                GF32 s \<Rightarrow> Inr s
              | GI32 s \<Rightarrow> Inr (f32_of_int s)
              | _ \<Rightarrow> Inl (local_err ''GGUF `tokenizer.ggml.scores` holds a non-f32/i32 entry''))
              (take n items))"

definition gguf_config :: "metadata \<Rightarrow> kind \<Rightarrow> nat \<Rightarrow> tk_config" where
  "gguf_config md kind n =
     (let default_bos = (case kind of KSpm \<Rightarrow> True | KByte p \<Rightarrow> pt_add_bos p | KEscaped \<Rightarrow> True);
          bos = md_token_id md ''tokenizer.ggml.bos_token_id'' n;
          eos = md_token_id md ''tokenizer.ggml.eos_token_id'' n;
          default_id = (\<lambda>i. if i < n then Some i else None);
          config = \<lparr>cfg_bos = bos, cfg_eos = eos,
            cfg_add_bos = (case md_boolean md ''tokenizer.ggml.add_bos_token'' of
                             Some b \<Rightarrow> b | None \<Rightarrow> default_bos),
            cfg_add_eos = (case md_boolean md ''tokenizer.ggml.add_eos_token'' of
                             Some b \<Rightarrow> b | None \<Rightarrow> False)\<rparr>
      in case kind of
           KEscaped \<Rightarrow> config\<lparr>cfg_add_bos := True\<rparr>
         | KSpm \<Rightarrow> config\<lparr>cfg_bos := (case bos of Some b \<Rightarrow> Some b | None \<Rightarrow> default_id 1),
                          cfg_eos := (case eos of Some e \<Rightarrow> Some e | None \<Rightarrow> default_id 2)\<rparr>
         | KByte _ \<Rightarrow> config)"

definition gguf_engine :: "metadata \<Rightarrow> kind \<Rightarrow> vocab \<Rightarrow> nat \<Rightarrow> cuca_error + engine" where
  "gguf_engine md kind v n =
     (case kind of
        KSpm \<Rightarrow>
          map_sum id (\<lambda>scores. SpmEngine (spm_new scores
              (case md_boolean md ''tokenizer.ggml.add_space_prefix'' of Some b \<Rightarrow> b | None \<Rightarrow> True)))
            (gguf_scores md n)
      | KByte p \<Rightarrow>
          (case md_strings md ''tokenizer.ggml.merges'' of
             Inl e \<Rightarrow> Inl e
           | Inr rules \<Rightarrow>
               map_sum id (\<lambda>m. BpeEngine m (ByteWords p)) (merges_new v (map utf8_bytes rules) False))
      | KEscaped \<Rightarrow>
          (case md_strings md ''tokenizer.ggml.merges'' of
             Inl e \<Rightarrow> Inl e
           | Inr rules \<Rightarrow>
               map_sum id (\<lambda>m. BpeEngine m EscapedWords) (merges_new v (map utf8_bytes rules) True)))"

text \<open>\<open>Tokenizer::from_gguf\<close>\<close>

definition tk_from_gguf :: "metadata \<Rightarrow> (cuca_error + tokenizer) option" where
  "tk_from_gguf md =
     (case md_string md ''tokenizer.ggml.model'' of
        None \<Rightarrow> Some (Inl (local_err ''GGUF lacks `tokenizer.ggml.model`''))
      | Some model \<Rightarrow>
          (case gguf_kind md model of
             Inl e \<Rightarrow> Some (Inl e)
           | Inr kind \<Rightarrow>
               (case md_strings md ''tokenizer.ggml.tokens'' of
                  Inl e \<Rightarrow> Some (Inl e)
                | Inr pieces \<Rightarrow>
                    (case gguf_types md (length pieces) of
                       Inl e \<Rightarrow> Some (Inl e)
                     | Inr types \<Rightarrow>
                         (case vocab_new (map utf8_bytes pieces) types of
                            None \<Rightarrow> None
                          | Some (Inl e) \<Rightarrow> Some (Inl e)
                          | Some (Inr v) \<Rightarrow>
                              Some (map_sum id
                                (\<lambda>engine. tk_assemble v engine (gguf_config md kind (length pieces))
                                   (md_is_phi3 md model))
                                (gguf_engine md kind v (length pieces))))))))"

section \<open>Special tokens\<close>

datatype fragment = RawText utext | SpecialToken nat

text \<open>C \<open>isspace\<close>: space, and tab to carriage return.\<close>

definition is_c_space :: "nat \<Rightarrow> bool" where
  "is_c_space c \<longleftrightarrow> c = 32 \<or> 9 \<le> c \<and> c \<le> 13"

lemma find_sub_less: "find_sub p s = Some k \<Longrightarrow> k + length p \<le> length s"
proof (induction s arbitrary: k)
  case (Cons c s)
  show ?case
  proof (cases "take (length p) (c # s) = p")
    case True
    then have "length p \<le> length (c # s)" by (metis length_take min.cobounded1)
    then show ?thesis using Cons.prems True by (subst (asm) find_sub.simps) simp
  next
    case False
    then show ?thesis using Cons by (subst (asm) (2) find_sub.simps) (auto split: if_splits)
  qed
qed (auto simp: find_sub.simps [of p "[]"] split: if_splits)

text \<open>
  The cuts of one special token in one raw fragment. (The code skips a special with no text before
  it searches, so the guard never decides.)
\<close>

definition trim_start :: "(nat \<Rightarrow> bool) \<Rightarrow> utext \<Rightarrow> utext" where
  "trim_start p s = dropWhile p s"

definition trim_end :: "(nat \<Rightarrow> bool) \<Rightarrow> utext \<Rightarrow> utext" where
  "trim_end p s = rev (dropWhile p (rev s))"

function cut_special :: "utext \<Rightarrow> special \<Rightarrow> utext \<Rightarrow> fragment list" where
  "cut_special txt sp rest =
     (case (if txt = [] then None else find_sub txt rest) of
        None \<Rightarrow> (if rest \<noteq> [] then [RawText rest] else [])
      | Some pos \<Rightarrow>
          let left = take pos rest;
              left = (if sp_lstrip sp then trim_end is_c_space left else left);
              rest' = drop (pos + length txt) rest;
              rest' = (if sp_rstrip sp then trim_start is_c_space rest' else rest')
          in (if left \<noteq> [] then [RawText left] else []) @
             SpecialToken (sp_id sp) # cut_special txt sp rest')"
  by pat_completeness auto
termination
proof (relation "measure (\<lambda>(t, sp, rest). length rest)")
  fix t rest :: utext and sp :: special and pos and x xa xb xc
  assume "(if t = [] then None else find_sub t rest) = Some pos"
    and x: "xb = drop (pos + length t) rest"
      "xc = (if sp_rstrip sp then trim_start is_c_space xb else xb)"
  then have "t \<noteq> []" "pos + length t \<le> length rest" by (auto dest: find_sub_less split: if_splits)
  moreover have "length xc \<le> length xb"
    using x(2) length_dropWhile_le [of is_c_space xb] by (simp add: trim_start_def)
  ultimately show "((t, sp, xc), t, sp, rest) \<in> measure (\<lambda>(t, sp, rest). length rest)"
    using x by (cases t) auto
qed auto

declare cut_special.simps [simp del]

fun raw_contains :: "utext \<Rightarrow> fragment \<Rightarrow> bool" where
  "raw_contains txt (RawText raw) = contains raw txt"
| "raw_contains txt (SpecialToken i) = False"

fun cut_fragment :: "utext \<Rightarrow> special \<Rightarrow> fragment \<Rightarrow> fragment list" where
  "cut_fragment txt sp (RawText raw) = cut_special txt sp raw"
| "cut_fragment txt sp (SpecialToken i) = [SpecialToken i]"

text \<open>
  The prefilters are bit sets of the bytes and of the byte pairs of the text; a special whose first
  byte or first two bytes are not in them is skipped.
\<close>

definition byte_pairs :: "bytes \<Rightarrow> (nat \<times> nat) list" where
  "byte_pairs s = zip s (drop 1 s)"

fun cut_specials :: "vocab \<Rightarrow> bytes \<Rightarrow> special list \<Rightarrow> fragment list \<Rightarrow> fragment list" where
  "cut_specials v bytes [] fragments = fragments"
| "cut_specials v bytes (sp # specials) fragments =
     (let sb = vocab_piece v (sp_id sp); txt = piece_chars v (sp_id sp) in
      case sb of
        [] \<Rightarrow> cut_specials v bytes specials fragments
      | lead # others \<Rightarrow>
          if lead \<notin> set bytes then cut_specials v bytes specials fragments
          else if others \<noteq> [] \<and> (lead, hd others) \<notin> set (byte_pairs bytes) then
            cut_specials v bytes specials fragments
          else if \<not> list_ex (raw_contains txt) fragments then cut_specials v bytes specials fragments
          else cut_specials v bytes specials (concat (map (cut_fragment txt sp) fragments)))"

definition partition_specials :: "tokenizer \<Rightarrow> utext \<Rightarrow> fragment list" where
  "partition_specials tk txt =
     (if txt = [] then []
      else if tk_specials tk = [] then [RawText txt]
      else cut_specials (tk_vocab tk) (utf8_bytes txt) (tk_specials tk) [RawText txt])"

section \<open>Encoding\<close>

fun encode_words ::
  "tokenizer \<Rightarrow> merges \<Rightarrow> pretokenizer \<Rightarrow> utext \<Rightarrow> (nat \<times> nat) list \<Rightarrow> nat list \<Rightarrow> nat list option" where
  "encode_words tk m p raw [] out = Some out"
| "encode_words tk m p raw (r # rs) out =
     (let word = map byte_to_char (utf8_bytes (text_slice raw r)) in
      case (if pt_ignore_merges p then vocab_get (tk_vocab tk) (utf8_bytes word) else None) of
        Some i \<Rightarrow> encode_words tk m p raw rs (out @ [i])
      | None \<Rightarrow>
          Option.bind (merge_word m (tk_vocab tk) word DropUnknown out) (encode_words tk m p raw rs))"

function encode_escaped :: "tokenizer \<Rightarrow> merges \<Rightarrow> utext \<Rightarrow> nat list \<Rightarrow> nat list option" where
  "encode_escaped tk m [] out = Some out"
| "encode_escaped tk m (first # rest) out =
     (let newline = (first = 10);
          word = takeWhile (\<lambda>c. (c = 10) = newline) (first # rest);
          tail = dropWhile (\<lambda>c. (c = 10) = newline) (first # rest)
      in case (if newline then vocab_get (tk_vocab tk) (utf8_bytes word) else None) of
           Some i \<Rightarrow> encode_escaped tk m tail (out @ [i])
         | None \<Rightarrow>
             (case merge_word m (tk_vocab tk) word ByteTokens out of
                None \<Rightarrow> None
              | Some out \<Rightarrow> encode_escaped tk m tail out))"
  by pat_completeness auto
termination
  by (relation "measure (\<lambda>(tk, m, s, out). length s)")
    (auto simp: less_Suc_eq_le length_dropWhile_le)

definition encode_raw ::
  "categories \<Rightarrow> tokenizer \<Rightarrow> utext \<Rightarrow> bool \<Rightarrow> nat list \<Rightarrow> nat list option" where
  "encode_raw gc tk raw after_special out =
     (case tk_engine tk of
        SpmEngine spm \<Rightarrow> spm_encode_fragment spm (tk_vocab tk) raw after_special out
      | BpeEngine m (ByteWords p) \<Rightarrow> encode_words tk m p raw (pretok_split gc p raw) out
      | BpeEngine m EscapedWords \<Rightarrow> encode_escaped tk m (map escape_char raw) out)"

fun encode_fragments ::
  "categories \<Rightarrow> tokenizer \<Rightarrow> fragment list \<Rightarrow> bool \<Rightarrow> nat list \<Rightarrow> nat list option" where
  "encode_fragments gc tk [] after_special out = Some out"
| "encode_fragments gc tk (SpecialToken i # fs) after_special out =
     encode_fragments gc tk fs True (out @ [i])"
| "encode_fragments gc tk (RawText raw # fs) after_special out =
     Option.bind (encode_raw gc tk raw after_special out) (encode_fragments gc tk fs False)"

definition tk_encode :: "categories \<Rightarrow> tokenizer \<Rightarrow> utext \<Rightarrow> nat list option" where
  "tk_encode gc tk txt = encode_fragments gc tk (partition_specials tk txt) True []"

definition add_bos_eos :: "tk_config \<Rightarrow> nat list \<Rightarrow> nat list" where
  "add_bos_eos cfg ids =
     (let ids = (case cfg_bos cfg of
            Some bos \<Rightarrow>
              if cfg_add_bos cfg \<and> (ids = [] \<or> hd ids \<noteq> bos) then bos # ids else ids
          | None \<Rightarrow> ids)
      in case cfg_eos cfg of
           Some eos \<Rightarrow>
             if cfg_add_eos cfg \<and> (ids = [] \<or> last ids \<noteq> eos) then ids @ [eos] else ids
         | None \<Rightarrow> ids)"

definition tk_encode_prompt :: "categories \<Rightarrow> tokenizer \<Rightarrow> utext \<Rightarrow> nat list option" where
  "tk_encode_prompt gc tk txt = map_option (add_bos_eos (tk_config tk)) (tk_encode gc tk txt)"

section \<open>Decoding\<close>

definition decode_alphabet :: "nat \<Rightarrow> bytes" where
  "decode_alphabet c = (case char_to_byte c of Some b \<Rightarrow> [b] | None \<Rightarrow> encode_char c)"

definition decode_escaped :: "nat \<Rightarrow> bytes" where
  "decode_escaped c = (if c = SPACE_MARK then [32] else encode_char c)"

definition is_byte_level :: "engine \<Rightarrow> bool" where
  "is_byte_level e \<longleftrightarrow> (case e of BpeEngine _ (ByteWords _) \<Rightarrow> True | _ \<Rightarrow> False)"

text \<open>\<open>Tokenizer::decode_into\<close>: the bytes an id appends.\<close>

definition tk_decode :: "tokenizer \<Rightarrow> nat \<Rightarrow> bytes" where
  "tk_decode tk i =
     (case vocab_token_type (tk_vocab tk) i of
        None \<Rightarrow> []
      | Some ty \<Rightarrow>
          if ty \<in> {TYPE_NORMAL, TYPE_UNUSED, TYPE_UNDEFINED} then
            concat (map (if is_byte_level (tk_engine tk) then decode_alphabet else decode_escaped)
              (piece_chars (tk_vocab tk) i))
          else if ty = TYPE_BYTE then
            (case parse_byte_token (vocab_piece (tk_vocab tk) i) of Some b \<Rightarrow> [b] | None \<Rightarrow> [])
          else if ty = TYPE_USER_DEFINED then vocab_piece (tk_vocab tk) i
          else [])"

section \<open>Accessors\<close>

definition tk_token_id :: "tokenizer \<Rightarrow> utext \<Rightarrow> nat option" where
  "tk_token_id tk txt = vocab_get (tk_vocab tk) (utf8_bytes txt)"

definition tk_token_text :: "tokenizer \<Rightarrow> nat \<Rightarrow> bytes" where
  "tk_token_text tk i = vocab_piece (tk_vocab tk) i"

definition tk_vocab_size :: "tokenizer \<Rightarrow> nat" where
  "tk_vocab_size tk = vocab_len (tk_vocab tk)"

definition tk_is_control :: "tokenizer \<Rightarrow> nat \<Rightarrow> bool" where
  "tk_is_control tk i = vocab_is_control (tk_vocab tk) i"

definition tk_bos_token :: "tokenizer \<Rightarrow> bytes" where
  "tk_bos_token tk = (case cfg_bos (tk_config tk) of Some i \<Rightarrow> vocab_piece (tk_vocab tk) i | None \<Rightarrow> [])"

definition tk_eos_token :: "tokenizer \<Rightarrow> bytes" where
  "tk_eos_token tk = (case cfg_eos (tk_config tk) of Some i \<Rightarrow> vocab_piece (tk_vocab tk) i | None \<Rightarrow> [])"

definition strips_leading_space :: "tokenizer \<Rightarrow> bool" where
  "strips_leading_space tk \<longleftrightarrow>
     (case tk_engine tk of SpmEngine spm \<Rightarrow> spm_add_space_prefix spm | _ \<Rightarrow> False)"

section \<open>Cutting specials out\<close>

lemma find_sub_Some:
  "find_sub p s = Some k \<longleftrightarrow>
     k \<le> length s \<and> take (length p) (drop k s) = p \<and> (\<forall>j < k. take (length p) (drop j s) \<noteq> p)"
proof (induction s arbitrary: k)
  case Nil
  then show ?case by (subst find_sub.simps) auto
next
  case (Cons c s)
  show ?case
  proof (cases "take (length p) (c # s) = p")
    case True
    then show ?thesis by (subst find_sub.simps) (auto intro: gr0I)
  next
    case False
    then have "find_sub p (c # s) = map_option Suc (find_sub p s)" by (subst find_sub.simps) simp
    moreover have "find_sub p (c # s) = Some k \<Longrightarrow> k \<noteq> 0" using calculation by auto
    ultimately show ?thesis using False Cons
      by (cases k) (auto simp: less_Suc_eq_0_disj)
  qed
qed

lemma find_sub_None: "find_sub p s = None \<longleftrightarrow> (\<forall>k \<le> length s. take (length p) (drop k s) \<noteq> p)"
proof
  show "find_sub p s = None \<Longrightarrow> \<forall>k \<le> length s. take (length p) (drop k s) \<noteq> p"
  proof (rule ccontr)
    assume none: "find_sub p s = None" and "\<not> (\<forall>k \<le> length s. take (length p) (drop k s) \<noteq> p)"
    then have ex: "\<exists>k. k \<le> length s \<and> take (length p) (drop k s) = p" by blast
    let ?k = "LEAST k. k \<le> length s \<and> take (length p) (drop k s) = p"
    have "?k \<le> length s \<and> take (length p) (drop ?k s) = p" using LeastI_ex [OF ex] .
    moreover have "take (length p) (drop j s) \<noteq> p" if "j < ?k" for j
      using not_less_Least [OF that] calculation that by auto
    ultimately have "find_sub p s = Some ?k" by (simp add: find_sub_Some)
    with none show False by simp
  qed
next
  assume "\<forall>k \<le> length s. take (length p) (drop k s) \<noteq> p"
  then show "find_sub p s = None" using find_sub_Some [of p s] by (cases "find_sub p s") auto
qed

definition part_of :: "utext \<Rightarrow> utext \<Rightarrow> bool" where
  "part_of r s \<longleftrightarrow> (\<exists>a b. s = a @ r @ b)"

lemma contains_part: "contains s p \<longleftrightarrow> part_of p s"
proof
  assume "contains s p"
  then obtain k where "find_sub p s = Some k" by (auto simp: contains_def)
  then have "take (length p) (drop k s) = p" by (simp add: find_sub_Some)
  then have "s = take k s @ p @ drop (length p) (drop k s)" by (metis append_take_drop_id)
  then show "part_of p s" unfolding part_of_def by blast
next
  assume "part_of p s"
  then obtain a b where "s = a @ p @ b" by (auto simp: part_of_def)
  then have "length a \<le> length s" "take (length p) (drop (length a) s) = p" by simp_all
  then show "contains s p" unfolding contains_def find_sub_None by blast
qed

lemma part_of_trans: "part_of p q \<Longrightarrow> part_of q r \<Longrightarrow> part_of p r"
  unfolding part_of_def by (metis append_assoc)

lemma part_of_refl [simp]: "part_of p p"
  unfolding part_of_def by (intro exI [of _ "[]"]) simp

lemma part_of_take: "part_of (take k s) s"
  unfolding part_of_def by (intro exI [of _ "[]"] exI [of _ "drop k s"]) simp

lemma part_of_drop: "part_of (drop k s) s"
  unfolding part_of_def by (intro exI [of _ "take k s"] exI [of _ "[]"]) simp

lemma part_of_trim: "part_of (trim_start p s) s" "part_of (trim_end p s) s"
proof -
  show "part_of (trim_start p s) s"
    unfolding part_of_def trim_start_def
    by (intro exI [of _ "takeWhile p s"] exI [of _ "[]"]) simp
  have "rev s = takeWhile p (rev s) @ dropWhile p (rev s)" by simp
  then have "s = rev (dropWhile p (rev s)) @ rev (takeWhile p (rev s))" by (metis rev_append rev_rev_ident)
  then show "part_of (trim_end p s) s"
    unfolding part_of_def trim_end_def by (metis append_Nil)
qed

lemma find_sub_left:
  assumes "find_sub p s = Some k" "p \<noteq> []"
  shows "\<not> part_of p (take k s)"
proof
  assume "part_of p (take k s)"
  then obtain a b where ab: "take k s = a @ p @ b" by (auto simp: part_of_def)
  then have "s = a @ p @ b @ drop k s" by (metis append_assoc append_take_drop_id)
  then have "take (length p) (drop (length a) s) = p" by (metis append_eq_conv_conj)
  moreover have "length a < k"
  proof -
    have "length (a @ p @ b) \<le> k" unfolding ab [symmetric] by simp
    moreover have "0 < length p" using assms(2) by simp
    ultimately show ?thesis by (simp only: length_append)
  qed
  ultimately show False using assms(1) by (auto simp: find_sub_Some)
qed

text \<open>The raw fragments a cut leaves are non-empty parts of the text without the special.\<close>

lemma cut_special_raw:
  assumes "t \<noteq> []" "RawText r \<in> set (cut_special t sp rest)"
  shows "r \<noteq> [] \<and> part_of r rest \<and> \<not> part_of t r"
  using assms
proof (induction t sp rest rule: cut_special.induct)
  case (1 t sp rest)
  show ?case
  proof (cases "find_sub t rest")
    case None
    then have "cut_special t sp rest = (if rest \<noteq> [] then [RawText rest] else [])"
      by (subst cut_special.simps) auto
    then have "r = rest" "rest \<noteq> []" using "1.prems"(2) by (auto split: if_splits)
    then show ?thesis using None contains_part [of rest t] by (auto simp: contains_def)
  next
    case (Some k)
    let ?left = "if sp_lstrip sp then trim_end is_c_space (take k rest) else take k rest"
    let ?d = "drop (k + length t) rest"
    let ?rest = "if sp_rstrip sp then trim_start is_c_space ?d else ?d"
    have cut: "cut_special t sp rest =
        (if ?left \<noteq> [] then [RawText ?left] else []) @ SpecialToken (sp_id sp) # cut_special t sp ?rest"
      using Some "1.prems"(1) by (subst cut_special.simps) (simp add: Let_def)
    have rest: "part_of ?rest rest"
      using part_of_trans [OF part_of_trim(1) part_of_drop] part_of_drop by auto
    show ?thesis
    proof (cases "RawText r \<in> set (cut_special t sp ?rest)")
      case True
      have "r \<noteq> [] \<and> part_of r ?rest \<and> \<not> part_of t r"
        using "1.IH" [of k "take k rest" ?left ?d ?rest] Some "1.prems"(1) True by simp
      then show ?thesis using part_of_trans [OF _ rest] by blast
    next
      case False
      then have r: "r = ?left" "?left \<noteq> []" using "1.prems"(2) by (auto simp: cut split: if_splits)
      have left: "part_of ?left (take k rest)" using part_of_trim(2) by auto
      then have "\<not> part_of t ?left" using find_sub_left [OF Some "1.prems"(1)] part_of_trans by blast
      then show ?thesis using r part_of_trans [OF left part_of_take] by simp
    qed
  qed
qed

lemma cut_special_text:
  assumes "t \<noteq> []" "\<not> sp_lstrip sp" "\<not> sp_rstrip sp"
  shows "concat (map (\<lambda>f. case f of RawText r \<Rightarrow> r | SpecialToken i \<Rightarrow> (if i = sp_id sp then t else u i))
      (cut_special t sp rest)) = rest"
  using assms
proof (induction t sp rest rule: cut_special.induct)
  case (1 t sp rest)
  show ?case
  proof (cases "find_sub t rest")
    case None
    then show ?thesis by (subst cut_special.simps) auto
  next
    case (Some k)
    have "take k rest @ t @ drop (k + length t) rest = rest"
    proof -
      have "take (length t) (drop k rest) = t" using Some by (simp add: find_sub_Some)
      then show ?thesis by (metis add.commute append_take_drop_id drop_drop)
    qed
    then show ?thesis
      using "1.IH" [of k "take k rest" "take k rest" "drop (k + length t) rest" "drop (k + length t) rest"]
        Some "1.prems" by (subst cut_special.simps) (auto simp: Let_def)
  qed
qed

text \<open>A vocabulary of real texts: characters are Unicode scalar values.\<close>

definition texts_ok :: "vocab \<Rightarrow> utext list \<Rightarrow> int list \<Rightarrow> bool" where
  "texts_ok v pieces types \<longleftrightarrow>
     vocab_built (map utf8_bytes pieces) types v \<and> (\<forall>t \<in> set pieces. \<forall>c \<in> set t. is_scalar c)"

lemma texts_piece:
  assumes "texts_ok v pieces types" "i < length pieces"
  shows "vocab_piece v i = utf8_bytes (pieces ! i)" "piece_chars v i = pieces ! i"
proof -
  show p: "vocab_piece v i = utf8_bytes (pieces ! i)"
    using assms built_piece [of "map utf8_bytes pieces" types v i] by (simp add: texts_ok_def)
  have "\<forall>c \<in> set (pieces ! i). is_scalar c" using assms by (auto simp: texts_ok_def)
  then show "piece_chars v i = pieces ! i" by (simp add: piece_chars_def p)
qed

lemma part_of_utf8: "part_of t s \<Longrightarrow> \<exists>a b. utf8_bytes s = a @ utf8_bytes t @ b"
  unfolding part_of_def by (metis utf8_bytes_append)

lemma byte_pairs_part: "(x, y) \<in> set (byte_pairs (a @ x # y # b))"
proof (induction a)
  case (Cons c a)
  then show ?case by (cases "a @ x # y # b") (auto simp: byte_pairs_def)
qed (simp add: byte_pairs_def)

lemma prefilter_sound:
  assumes "part_of t s" "utf8_bytes t = lead # others"
  shows "lead \<in> set (utf8_bytes s)" "others \<noteq> [] \<Longrightarrow> (lead, hd others) \<in> set (byte_pairs (utf8_bytes s))"
proof -
  obtain a b where s: "utf8_bytes s = a @ (lead # others) @ b"
    using part_of_utf8 [OF assms(1)] assms(2) by auto
  then show "lead \<in> set (utf8_bytes s)" by simp
  assume "others \<noteq> []"
  then have "utf8_bytes s = a @ lead # hd others # (tl others @ b)" using s by simp
  then show "(lead, hd others) \<in> set (byte_pairs (utf8_bytes s))" using byte_pairs_part by metis
qed

definition raws_of :: "fragment list \<Rightarrow> utext set" where
  "raws_of fs = {r. RawText r \<in> set fs}"

lemma cut_specials_step:
  assumes ok: "texts_ok v pieces types" and i: "sp_id sp < length pieces" "pieces ! sp_id sp \<noteq> []"
    and raws: "\<forall>r \<in> raws_of fs. r \<noteq> [] \<and> part_of r s"
  obtains fs' where "cut_specials v (utf8_bytes s) (sp # sps) fs = cut_specials v (utf8_bytes s) sps fs'"
    "\<forall>r \<in> raws_of fs'. r \<noteq> [] \<and> part_of r s \<and> \<not> part_of (pieces ! sp_id sp) r \<and> (\<exists>r' \<in> raws_of fs. part_of r r')"
    "fs' = fs \<or> fs' = concat (map (cut_fragment (pieces ! sp_id sp) sp) fs)"
proof -
  let ?t = "pieces ! sp_id sp"
  note piece = texts_piece [OF ok i(1)]
  obtain lead others where sb: "utf8_bytes ?t = lead # others"
    using i(2) length_utf8_ge [of ?t] by (cases "utf8_bytes ?t") auto
  show ?thesis
  proof (cases "\<exists>r \<in> raws_of fs. part_of ?t r")
    case False
    then have "\<not> list_ex (raw_contains ?t) fs"
    proof -
      have "\<not> raw_contains ?t f" if "f \<in> set fs" for f
        using False that by (cases f) (auto simp: raws_of_def contains_part)
      then show ?thesis by (auto simp: list_ex_iff)
    qed
    then have "cut_specials v (utf8_bytes s) (sp # sps) fs = cut_specials v (utf8_bytes s) sps fs"
      by (simp add: piece sb Let_def)
    moreover have "\<forall>r \<in> raws_of fs. r \<noteq> [] \<and> part_of r s \<and> \<not> part_of ?t r \<and> (\<exists>r' \<in> raws_of fs. part_of r r')"
      using raws False part_of_refl by blast
    ultimately show ?thesis using that by blast
  next
    case True
    then obtain r where r: "r \<in> raws_of fs" "part_of ?t r" by blast
    then have "part_of ?t s" using raws part_of_trans by blast
    note pre = prefilter_sound [OF this sb]
    have "list_ex (raw_contains ?t) fs"
      unfolding list_ex_iff using r
      by (intro bexI [of _ "RawText r"]) (auto simp: raws_of_def contains_part)
    then have "cut_specials v (utf8_bytes s) (sp # sps) fs =
        cut_specials v (utf8_bytes s) sps (concat (map (cut_fragment ?t sp) fs))"
      using pre by (auto simp: piece sb Let_def)
    moreover have "x \<noteq> [] \<and> part_of x s \<and> \<not> part_of ?t x \<and> (\<exists>r' \<in> raws_of fs. part_of x r')"
      if x: "x \<in> raws_of (concat (map (cut_fragment ?t sp) fs))" for x
    proof -
      obtain f where f: "f \<in> set fs" "RawText x \<in> set (cut_fragment ?t sp f)"
        using x by (auto simp: raws_of_def)
      have "\<exists>y. f = RawText y \<and> RawText x \<in> set (cut_special ?t sp y)"
        using f(2) by (induction f) simp_all
      then obtain y where y: "f = RawText y" "RawText x \<in> set (cut_special ?t sp y)" by blast
      then have "y \<in> raws_of fs" using f by (simp add: raws_of_def)
      with cut_special_raw [OF i(2) y(2)] raws show ?thesis using part_of_trans by blast
    qed
    ultimately show ?thesis using that by blast
  qed
qed

lemma cut_specials_raw:
  assumes "texts_ok v pieces types"
    "\<forall>sp \<in> set sps. sp_id sp < length pieces \<and> pieces ! sp_id sp \<noteq> []"
    "\<forall>r \<in> raws_of fs. r \<noteq> [] \<and> part_of r s"
  shows "\<forall>r \<in> raws_of (cut_specials v (utf8_bytes s) sps fs).
    r \<noteq> [] \<and> part_of r s \<and> (\<forall>sp \<in> set sps. \<not> part_of (pieces ! sp_id sp) r) \<and>
    (\<exists>r' \<in> raws_of fs. part_of r r')"
  using assms(2,3)
proof (induction sps arbitrary: fs)
  case Nil
  then show ?case using part_of_refl by (metis cut_specials.simps(1) empty_iff list.set(1))
next
  case (Cons sp sps)
  have i: "sp_id sp < length pieces" "pieces ! sp_id sp \<noteq> []" using Cons.prems(1) by auto
  obtain fs' where fs': "cut_specials v (utf8_bytes s) (sp # sps) fs = cut_specials v (utf8_bytes s) sps fs'"
    "\<forall>r \<in> raws_of fs'. r \<noteq> [] \<and> part_of r s \<and> \<not> part_of (pieces ! sp_id sp) r \<and> (\<exists>r' \<in> raws_of fs. part_of r r')"
    by (rule cut_specials_step [OF assms(1) i Cons.prems(2), of sps])
  have all: "\<forall>r \<in> raws_of (cut_specials v (utf8_bytes s) sps fs').
    r \<noteq> [] \<and> part_of r s \<and> (\<forall>sp \<in> set sps. \<not> part_of (pieces ! sp_id sp) r) \<and>
    (\<exists>r' \<in> raws_of fs'. part_of r r')"
    using Cons.prems(1) fs'(2) by (intro Cons.IH) auto
  show ?case unfolding fs'(1)
  proof
    fix r assume "r \<in> raws_of (cut_specials v (utf8_bytes s) sps fs')"
    with all obtain r' where r: "r \<noteq> []" "part_of r s" "\<forall>sp \<in> set sps. \<not> part_of (pieces ! sp_id sp) r"
      "r' \<in> raws_of fs'" "part_of r r'" by blast
    moreover from fs'(2) r(4) obtain r'' where "\<not> part_of (pieces ! sp_id sp) r'" "r'' \<in> raws_of fs" "part_of r' r''"
      by blast
    ultimately show "r \<noteq> [] \<and> part_of r s \<and> (\<forall>sp' \<in> set (sp # sps). \<not> part_of (pieces ! sp_id sp') r) \<and>
        (\<exists>r' \<in> raws_of fs. part_of r r')"
      using part_of_trans [of _ r r'] part_of_trans [of r r' r''] by auto
  qed
qed

text \<open>Without stripping, the fragments are the text.\<close>

definition fragment_text :: "vocab \<Rightarrow> fragment \<Rightarrow> utext" where
  "fragment_text v f = (case f of RawText r \<Rightarrow> r | SpecialToken i \<Rightarrow> piece_chars v i)"

lemma cut_fragment_text:
  assumes "t = piece_chars v (sp_id sp)" "t \<noteq> []" "\<not> sp_lstrip sp" "\<not> sp_rstrip sp"
  shows "concat (map (fragment_text v) (cut_fragment t sp f)) = fragment_text v f"
proof (cases f)
  case (RawText r)
  have eq: "(\<lambda>f. case f of RawText r \<Rightarrow> r | SpecialToken i \<Rightarrow> (if i = sp_id sp then t else piece_chars v i)) =
      fragment_text v"
    using assms(1) by (auto simp: fragment_text_def fun_eq_iff split: fragment.split)
  have "concat (map (fragment_text v) (cut_special t sp r)) = r"
    unfolding eq [symmetric] by (rule cut_special_text [OF assms(2-4)])
  then show ?thesis by (simp add: RawText fragment_text_def)
qed (simp add: fragment_text_def)

lemma cut_specials_text:
  assumes "texts_ok v pieces types"
    "\<forall>sp \<in> set sps. sp_id sp < length pieces \<and> pieces ! sp_id sp \<noteq> [] \<and> \<not> sp_lstrip sp \<and> \<not> sp_rstrip sp"
    "\<forall>r \<in> raws_of fs. r \<noteq> [] \<and> part_of r s"
  shows "concat (map (fragment_text v) (cut_specials v (utf8_bytes s) sps fs)) = concat (map (fragment_text v) fs)"
  using assms(2,3)
proof (induction sps arbitrary: fs)
  case (Cons sp sps)
  have i: "sp_id sp < length pieces" "pieces ! sp_id sp \<noteq> []" using Cons.prems(1) by auto
  obtain fs' where fs': "cut_specials v (utf8_bytes s) (sp # sps) fs = cut_specials v (utf8_bytes s) sps fs'"
    "\<forall>r \<in> raws_of fs'. r \<noteq> [] \<and> part_of r s \<and> \<not> part_of (pieces ! sp_id sp) r \<and> (\<exists>r' \<in> raws_of fs. part_of r r')"
    "fs' = fs \<or> fs' = concat (map (cut_fragment (pieces ! sp_id sp) sp) fs)"
    by (rule cut_specials_step [OF assms(1) i Cons.prems(2), of sps])
  have "concat (map (fragment_text v) (concat (map (cut_fragment (pieces ! sp_id sp) sp) fs))) =
      concat (map (fragment_text v) fs)"
    using cut_fragment_text [of "pieces ! sp_id sp" v sp] texts_piece(2) [OF assms(1) i(1)] i(2) Cons.prems(1)
    by (induction fs) auto
  then have "concat (map (fragment_text v) fs') = concat (map (fragment_text v) fs)" using fs'(3) by auto
  moreover have "concat (map (fragment_text v) (cut_specials v (utf8_bytes s) sps fs')) = concat (map (fragment_text v) fs')"
    using Cons.prems(1) fs'(2) by (intro Cons.IH) auto
  ultimately show ?case by (simp only: fs'(1))
qed simp

end
