(* ===== verification/Chat_Format.thy ===== *)
theory Chat_Format
  imports Tokenizer
begin

text \<open>
  \<open>src/provider/local/chat/format.rs\<close>: what the output side of a chat model looks like, read off its
  metadata, its vocabulary and the source of its chat template: the ids that end a generation, the
  reasoning markers and the tool-call syntax.
\<close>

section \<open>The conventions\<close>

definition EOG_TEXTS :: "utext list" where
  "EOG_TEXTS =
     [ustr ''<|eot_id|>'', ustr ''<|eom_id|>'', ustr ''<|im_end|>'', ustr ''<|end|>'',
      ustr ''<end_of_turn>'', ustr ''<turn|>'', ustr ''<|tool_response>'', ustr ''<|endoftext|>'',
      ustr ''<|end_of_text|>'', ustr ''<EOT>'', ustr ''_<EOT>'', ustr ''[EOT]'',
      [60, 65372, 101, 110, 100, 9601, 111, 102, 9601, 115, 101, 110, 116, 101, 110, 99, 101, 65372, 62],
      ustr ''<end_of_utterance>'']"

record reasoning =
  rs_open :: utext
  rs_close :: utext
  rs_header :: "utext option"

datatype tool_syntax =
    PlainTools
  | Gemma4Tools utext utext
  | TaggedJson utext "utext option" "utext option"
  | TaggedXml utext utext
  | LlamaJson "utext option"

record chat_format =
  cf_eog :: "nat list"
  cf_reasoning :: "reasoning option"
  cf_tools :: tool_syntax
  cf_marker_ids :: "nat list"
  cf_strip_leading_space :: bool

section \<open>Detection\<close>

definition md_id :: "metadata \<Rightarrow> string \<Rightarrow> nat option" where
  "md_id md key =
     (case md key of
        Some (GU32 n) \<Rightarrow> Some (nat n)
      | Some (GI32 n) \<Rightarrow> if 0 \<le> n then Some (nat n) else None
      | Some (GU64 n) \<Rightarrow> if n < 2 ^ 32 then Some (nat n) else None
      | Some (GI64 n) \<Rightarrow> if 0 \<le> n \<and> n < 2 ^ 32 then Some (nat n) else None
      | Some (GU16 n) \<Rightarrow> Some (nat n)
      | Some (GU8 n) \<Rightarrow> Some (nat n)
      | _ \<Rightarrow> None)"

definition detect_reasoning :: "tokenizer \<Rightarrow> utext \<Rightarrow> reasoning option" where
  "detect_reasoning tk template =
     (let both = (\<lambda>o' c'. tk_token_id tk o' \<noteq> None \<and> tk_token_id tk c' \<noteq> None) in
      if contains template (ustr ''<|channel>'') \<and> both (ustr ''<|channel>'') (ustr ''<channel|>'') then
        Some \<lparr>rs_open = ustr ''<|channel>'', rs_close = ustr ''<channel|>'', rs_header = Some (ustr ''thought'')\<rparr>
      else if contains template (ustr ''<think>'') \<or> contains template (ustr ''</think>'') then
        Some \<lparr>rs_open = ustr ''<think>'', rs_close = ustr ''</think>'', rs_header = None\<rparr>
      else None)"

definition detect_tools :: "tokenizer \<Rightarrow> utext \<Rightarrow> tool_syntax" where
  "detect_tools tk template =
     (if contains template (ustr ''<|tool_call>'') \<and> tk_token_id tk (ustr ''<|tool_call>'') \<noteq> None \<and>
         tk_token_id tk (ustr ''<tool_call|>'') \<noteq> None then
        Gemma4Tools (ustr ''<|tool_call>'') (ustr ''<tool_call|>'')
      else if contains template (ustr ''<tool_call>'') \<and> contains template (ustr ''</tool_call>'') \<and>
         contains template (ustr ''<function='') \<and> contains template (ustr ''<parameter='') then
        TaggedXml (ustr ''<tool_call>'') (ustr ''</tool_call>'')
      else if contains template (ustr ''<tool_call>'') then
        TaggedJson (ustr ''<tool_call>'') None
          (if contains template (ustr ''</tool_call>'') then Some (ustr ''</tool_call>'') else None)
      else if contains template (ustr ''<|tool_call|>'') then
        TaggedJson (ustr ''<|tool_call|>'') (Some (ustr ''<tool_call>''))
          (if contains template (ustr ''<|/tool_call|>'') then Some (ustr ''<|/tool_call|>'') else None)
      else if contains template (ustr ''tool_calls'') \<and> contains template (ustr ''\"parameters\"'') then
        LlamaJson (map_option (\<lambda>_. ustr ''<|python_tag|>'') (tk_token_id tk (ustr ''<|python_tag|>'')))
      else PlainTools)"

text \<open>The texts whose ids the format notes, in the order it notes them.\<close>

fun reasoning_texts :: "reasoning option \<Rightarrow> utext list" where
  "reasoning_texts None = []"
| "reasoning_texts (Some r) = [rs_open r, rs_close r]"

fun tool_texts :: "tool_syntax \<Rightarrow> utext list" where
  "tool_texts PlainTools = []"
| "tool_texts (Gemma4Tools opener closer) = [opener, closer]"
| "tool_texts (TaggedXml opener closer) = [opener, closer]"
| "tool_texts (TaggedJson opener alt_open closer) =
     opener # (case alt_open of Some alt \<Rightarrow> [alt] | None \<Rightarrow> []) @ (case closer of Some c \<Rightarrow> [c] | None \<Rightarrow> [])"
| "tool_texts (LlamaJson python_tag) = (case python_tag of Some tag \<Rightarrow> [tag] | None \<Rightarrow> [])"

text \<open>\<open>ChatFormat::detect\<close>\<close>

definition chat_detect :: "metadata \<Rightarrow> tokenizer \<Rightarrow> utext \<Rightarrow> cuca_error + chat_format" where
  "chat_detect md tk template =
     (let from_md = filter (\<lambda>i. i < tk_vocab_size tk) (List.map_filter (md_id md)
            [''tokenizer.ggml.eos_token_id'', ''tokenizer.ggml.eot_token_id'', ''tokenizer.ggml.eom_token_id'']);
          eog = remdups_adj (sort (from_md @ List.map_filter (tk_token_id tk) EOG_TEXTS)) in
      if eog = [] then
        Inl (local_err (''cannot determine the end-of-generation token: the GGUF names no EOS/EOT/EOM id '' @
                        ''and the vocabulary has no known turn terminator''))
      else
        let reasoning = detect_reasoning tk template;
            tools = detect_tools tk template in
        Inr \<lparr>cf_eog = eog, cf_reasoning = reasoning, cf_tools = tools,
             cf_marker_ids = remdups_adj (sort (List.map_filter (tk_token_id tk)
               (reasoning_texts reasoning @ tool_texts tools))),
             cf_strip_leading_space = strips_leading_space tk\<rparr>)"

text \<open>Both id lists are sorted, so their binary search is membership.\<close>

definition cf_is_eog :: "chat_format \<Rightarrow> nat \<Rightarrow> bool" where
  "cf_is_eog f i \<longleftrightarrow> i \<in> set (cf_eog f)"

definition cf_is_marker :: "chat_format \<Rightarrow> nat \<Rightarrow> bool" where
  "cf_is_marker f i \<longleftrightarrow> i \<in> set (cf_marker_ids f)"

definition rfind_sub :: "utext \<Rightarrow> utext \<Rightarrow> nat option" where
  "rfind_sub p s = List.find (\<lambda>k. take (length p) (drop k s) = p) (rev [0..<Suc (length s)])"

text \<open>\<open>ChatFormat::starts_in_thinking\<close>: whether a rendered prompt ends inside an open block.\<close>

definition starts_in_thinking :: "chat_format \<Rightarrow> utext \<Rightarrow> bool" where
  "starts_in_thinking f rendered =
     (case cf_reasoning f of
        None \<Rightarrow> False
      | Some r \<Rightarrow>
          (case rfind_sub (rs_open r) rendered of
             None \<Rightarrow> False
           | Some open_at \<Rightarrow>
               let after = drop (open_at + length (rs_open r)) rendered in
               if contains after (rs_close r) then False
               else let tail = trim after in tail = [] \<or> rs_header r = Some tail))"

end
