(* ===== verification/Tool_Calls.thy ===== *)
theory Tool_Calls
  imports Tokenizer Canonical
begin

text \<open>
  \<open>src/provider/local/output/calls.rs\<close>: the parsers of the tool-call bodies a model writes. A parser
  position is the unread rest of the source; the byte offsets of the messages are computed from its
  length. \<open>serde_json::from_str\<close>, for values and for numbers, is a parameter.
\<close>

section \<open>Texts\<close>

definition STRING_QUOTE :: utext where "STRING_QUOTE = ustr ''<|\"|>''"

definition MAX_DEPTH :: nat where "MAX_DEPTH = 64"

definition FUNCTION_OPEN :: utext where "FUNCTION_OPEN = ustr ''<function=''"
definition FUNCTION_CLOSE :: utext where "FUNCTION_CLOSE = ustr ''</function>''"
definition PARAMETER_OPEN :: utext where "PARAMETER_OPEN = ustr ''<parameter=''"
definition PARAMETER_CLOSE :: utext where "PARAMETER_CLOSE = ustr ''</parameter>''"

definition text_string :: "utext \<Rightarrow> string" where
  "text_string t = shown (utf8_bytes t)"

definition skip_ws :: "utext \<Rightarrow> utext" where
  "skip_ws s = trim_start is_white_space s"

text \<open>\<open>str::split_once\<close>\<close>

definition split_once :: "utext \<Rightarrow> utext \<Rightarrow> (utext \<times> utext) option" where
  "split_once p s = map_option (\<lambda>k. (take k s, drop (k + length p) s)) (find_sub p s)"

text \<open>
  \<open>Map::insert\<close>: a map is a list of entries without a repeated key, whose order has no meaning
  (\<open>serde_json\<close> sorts it unless its feature \<open>preserve_order\<close> is on).
\<close>

fun map_insert :: "utext \<Rightarrow> 'n json \<Rightarrow> (utext \<times> 'n json) list \<Rightarrow> (utext \<times> 'n json) list" where
  "map_insert k v [] = [(k, v)]"
| "map_insert k v (e # m) = (if fst e = k then (k, v) # m else e # map_insert k v m)"

definition map_get :: "(utext \<times> 'n json) list \<Rightarrow> string \<Rightarrow> 'n json option" where
  "map_get m k = map_of m (ustr k)"

text \<open>The byte offset of the rest of a source of \<open>n\<close> bytes.\<close>

definition at_byte :: "nat \<Rightarrow> utext \<Rightarrow> string" where
  "at_byte n rest = show_nat (n - length (utf8_bytes rest))"

section \<open>The value grammar\<close>

type_synonym 'a scan = "string + 'a \<times> utext"

definition expect_char :: "nat \<Rightarrow> nat \<Rightarrow> utext \<Rightarrow> string + utext" where
  "expect_char n c rest =
     (case rest of
        d # rest' \<Rightarrow> if d = c then Inr rest' else Inl (''expected `'' @ text_string [c] @ ''` at byte '' @ at_byte n rest)
      | [] \<Rightarrow> Inl (''expected `'' @ text_string [c] @ ''` at byte '' @ at_byte n rest))"

text \<open>
  One member of a dict and the loop over them. A value parser never gives back more than it was given
  (\<open>vp_value_shorter\<close>), so the guard on the length is never false; it makes the loop total for any
  value parser.
\<close>

definition dict_key :: "nat \<Rightarrow> utext \<Rightarrow> utext scan" where
  "dict_key n rest =
     (case find_sub [58] rest of
        None \<Rightarrow> Inl (''missing `:` after a key at byte '' @ at_byte n rest)
      | Some colon \<Rightarrow>
          let raw_key = trim (take colon rest);
              key = (case Option.bind (strip_prefix STRING_QUOTE raw_key) (strip_suffix STRING_QUOTE) of
                       Some k \<Rightarrow> k | None \<Rightarrow> raw_key) in
          if key = [] \<or> list_ex (\<lambda>c. c = 123 \<or> c = 125) key
          then Inl (''invalid key `'' @ text_string raw_key @ ''`'')
          else Inr (key, skip_ws (drop (colon + 1) rest)))"

lemma find_sub_char_less: "find_sub [c] s = Some k \<Longrightarrow> k < length s"
  using find_sub_less [of "[c]" s k] by simp

lemma length_skip_ws: "length (skip_ws s) \<le> length s"
  by (simp add: skip_ws_def trim_start_def length_dropWhile_le)

lemma dict_key_shorter: "dict_key n rest = Inr (k, rest') \<Longrightarrow> length rest' < length rest"
  using length_skip_ws
  by (fastforce simp: dict_key_def Let_def dest: find_sub_char_less intro: le_less_trans
      split: option.splits if_splits)

function dict_loop ::
  "(utext \<Rightarrow> 'n json scan) \<Rightarrow> nat \<Rightarrow> (utext \<times> 'n json) list \<Rightarrow> utext \<Rightarrow> 'n json scan" where
  "dict_loop vp n m rest =
     (case dict_key n rest of
        Inl e \<Rightarrow> Inl e
      | Inr (key, rest1) \<Rightarrow>
          (case vp rest1 of
             Inl e \<Rightarrow> Inl e
           | Inr (v, rest2) \<Rightarrow>
               let m = map_insert key v m; rest3 = skip_ws rest2 in
               if rest3 \<noteq> [] \<and> hd rest3 = 44 \<and> length rest2 \<le> length rest1
               then dict_loop vp n m (skip_ws (tl rest3))
               else if rest3 \<noteq> [] \<and> hd rest3 = 125 then Inr (JObject m, tl rest3)
               else Inl (''expected `,` or `}` at byte '' @ at_byte n rest3)))"
  by pat_completeness auto
termination
proof (relation "measure (\<lambda>(v, n, m, rest). length rest)")
  fix vp :: "utext \<Rightarrow> 'n json scan" and n m rest p key rest1 q v rest2 m' rest3
  assume key: "dict_key n rest = Inr p" "(key, rest1) = p"
    and rest3: "rest3 = skip_ws rest2" "rest3 \<noteq> [] \<and> hd rest3 = 44 \<and> length rest2 \<le> length rest1"
  have "length (skip_ws (tl rest3)) \<le> length rest3" using length_skip_ws [of "tl rest3"] by simp
  also have "\<dots> \<le> length rest1" using rest3 length_skip_ws [of rest2] by simp
  also have "\<dots> < length rest" using key dict_key_shorter by blast
  finally show "((vp, n, m', skip_ws (tl rest3)), vp, n, m, rest) \<in> measure (\<lambda>(v, n, m, rest). length rest)"
    by simp
qed simp

definition vp_dict :: "(utext \<Rightarrow> 'n json scan) \<Rightarrow> nat \<Rightarrow> utext \<Rightarrow> 'n json scan" where
  "vp_dict vp n rest =
     (case expect_char n 123 rest of
        Inl e \<Rightarrow> Inl e
      | Inr rest \<Rightarrow>
          let rest = skip_ws rest in
          if rest \<noteq> [] \<and> hd rest = 125 then Inr (JObject [], tl rest)
          else dict_loop vp n [] rest)"

function array_loop ::
  "(utext \<Rightarrow> 'n json scan) \<Rightarrow> nat \<Rightarrow> 'n json list \<Rightarrow> utext \<Rightarrow> 'n json scan" where
  "array_loop vp n items rest =
     (case vp rest of
        Inl e \<Rightarrow> Inl e
      | Inr (v, rest1) \<Rightarrow>
          let items = items @ [v]; rest2 = skip_ws rest1 in
          if rest2 \<noteq> [] \<and> hd rest2 = 44 \<and> length rest1 \<le> length rest
          then array_loop vp n items (skip_ws (tl rest2))
          else if rest2 \<noteq> [] \<and> hd rest2 = 93 then Inr (JArray items, tl rest2)
          else Inl (''expected `,` or `]` at byte '' @ at_byte n rest2))"
  by pat_completeness auto
termination
proof (relation "measure (\<lambda>(v, n, m, rest). length rest)")
  fix vp :: "utext \<Rightarrow> 'n json scan" and n items p v items' and rest rest1 rest2 :: utext
  assume rest2: "rest2 = skip_ws rest1" "rest2 \<noteq> [] \<and> hd rest2 = 44 \<and> length rest1 \<le> length rest"
  have "length (skip_ws (tl rest2)) \<le> length (tl rest2)" by (rule length_skip_ws)
  also have "\<dots> < length rest2" using rest2 by simp
  also have "\<dots> \<le> length rest" using rest2 length_skip_ws [of rest1] by simp
  finally show "((vp, n, items', skip_ws (tl rest2)), vp, n, items, rest) \<in> measure (\<lambda>(v, n, m, rest). length rest)"
    by simp
qed simp

declare dict_loop.simps [simp del] array_loop.simps [simp del]

definition vp_array :: "(utext \<Rightarrow> 'n json scan) \<Rightarrow> nat \<Rightarrow> utext \<Rightarrow> 'n json scan" where
  "vp_array vp n rest =
     (case expect_char n 91 rest of
        Inl e \<Rightarrow> Inl e
      | Inr rest \<Rightarrow>
          let rest = skip_ws rest in
          if rest \<noteq> [] \<and> hd rest = 93 then Inr (JArray [], tl rest)
          else array_loop vp n [] rest)"

text \<open>\<open>-?(0|[1-9][0-9]*)(\.[0-9]+)?([eE][+-]?[0-9]+)?\<close>, by the unread rest of the word.\<close>

definition is_digit_char :: "nat \<Rightarrow> bool" where
  "is_digit_char c \<longleftrightarrow> 48 \<le> c \<and> c \<le> 57"

definition skip_digits :: "utext \<Rightarrow> utext \<times> bool" where
  "skip_digits s = (dropWhile is_digit_char s, s \<noteq> [] \<and> is_digit_char (hd s))"

definition number_fraction :: "utext \<Rightarrow> utext option" where
  "number_fraction s =
     (if s \<noteq> [] \<and> hd s = 46 then
        (let (next, any) = skip_digits (tl s) in if any then Some next else None)
      else Some s)"

definition number_exponent :: "utext \<Rightarrow> utext option" where
  "number_exponent s =
     (if s \<noteq> [] \<and> hd s \<in> {101, 69} then
        (let s = tl s; s = (if s \<noteq> [] \<and> hd s \<in> {43, 45} then tl s else s); (next, any) = skip_digits s
         in if any then Some next else None)
      else Some s)"

definition is_json_number :: "utext \<Rightarrow> bool" where
  "is_json_number word =
     (let s = (if word \<noteq> [] \<and> hd word = 45 then tl word else word) in
      if s = [] then False
      else if hd s = 48 then Option.bind (number_fraction (tl s)) number_exponent = Some []
      else if 49 \<le> hd s \<and> hd s \<le> 57 then
        Option.bind (number_fraction (fst (skip_digits s))) number_exponent = Some []
      else False)"

definition is_word_end :: "nat \<Rightarrow> bool" where
  "is_word_end c \<longleftrightarrow> c = 44 \<or> c = 125 \<or> c = 93"

text \<open>
  \<open>ValueParser::value\<close>: \<open>dict\<close> and \<open>array\<close> are the parsers one level deeper, the first argument the
  levels left, \<open>MAX_DEPTH - depth\<close>.
\<close>

definition scan_word :: "(utext \<Rightarrow> 'n option) \<Rightarrow> nat \<Rightarrow> utext \<Rightarrow> 'n json scan" where
  "scan_word number n rest =
     (let raw = takeWhile (\<lambda>c. \<not> is_word_end c) rest;
          word = trim_end is_white_space raw; rest' = dropWhile (\<lambda>c. \<not> is_word_end c) rest in
      if word = [] then Inl (''empty value at byte '' @ at_byte n rest)
      else
        (case (if is_json_number word then number word else None) of
           Some x \<Rightarrow> Inr (JNumber x, rest')
         | None \<Rightarrow>
             Inr (if word = ustr ''true'' then JBool True
                  else if word = ustr ''false'' then JBool False
                  else if word = ustr ''null'' then JNull
                  else JString word, rest')))"

definition scan_value ::
  "(utext \<Rightarrow> 'n json scan) \<Rightarrow> (utext \<Rightarrow> 'n json scan) \<Rightarrow> (utext \<Rightarrow> 'n option) \<Rightarrow> nat \<Rightarrow> utext \<Rightarrow> 'n json scan" where
  "scan_value dict array number n rest =
     (case strip_prefix STRING_QUOTE rest of
        Some body \<Rightarrow>
          (case split_once STRING_QUOTE body of
             None \<Rightarrow> Inl (''unterminated string at byte '' @ at_byte n rest)
           | Some (s, rest') \<Rightarrow> Inr (JString s, rest'))
      | None \<Rightarrow>
          if rest \<noteq> [] \<and> hd rest = 123 then dict rest
          else if rest \<noteq> [] \<and> hd rest = 91 then array rest
          else scan_word number n rest)"

fun vp_value :: "(utext \<Rightarrow> 'n option) \<Rightarrow> nat \<Rightarrow> nat \<Rightarrow> utext \<Rightarrow> 'n json scan" where
  "vp_value number n 0 =
     scan_value (\<lambda>_. Inl ''nesting too deep'') (\<lambda>_. Inl ''nesting too deep'') number n"
| "vp_value number n (Suc levels) =
     scan_value (vp_dict (vp_value number n levels) n) (vp_array (vp_value number n levels) n) number n"

text \<open>The guards of the two loops are never false.\<close>

definition shrinks :: "(utext \<Rightarrow> 'n json scan) \<Rightarrow> bool" where
  "shrinks vp \<longleftrightarrow> (\<forall>r v r'. vp r = Inr (v, r') \<longrightarrow> length r' \<le> length r)"

lemma shrinksD: "shrinks vp \<Longrightarrow> vp r = Inr (v, r') \<Longrightarrow> length r' \<le> length r"
  by (auto simp: shrinks_def)

lemma skip_ws_tl: "skip_ws s \<noteq> [] \<Longrightarrow> length (skip_ws (tl (skip_ws s))) < length s \<and> length (tl (skip_ws s)) < length s"
  using length_skip_ws [of s] length_skip_ws [of "tl (skip_ws s)"] by (cases "skip_ws s") auto

lemma dict_loop_shorter:
  "shrinks vp \<Longrightarrow> dict_loop vp n m rest = Inr (v, rest') \<Longrightarrow> length rest' \<le> length rest"
proof (induction vp n m rest rule: dict_loop.induct)
  case (1 vp n m rest)
  from 1(3) obtain key rest1 v1 rest2 where key: "dict_key n rest = Inr (key, rest1)" and vp: "vp rest1 = Inr (v1, rest2)"
    by (subst (asm) dict_loop.simps) (auto split: sum.splits)
  let ?r3 = "skip_ws rest2"
  note less = dict_key_shorter [OF key] shrinksD [OF 1(2) vp]
  show ?case
  proof (cases "?r3 \<noteq> [] \<and> hd ?r3 = 44")
    case True
    have "dict_loop vp n (map_insert key v1 m) (skip_ws (tl ?r3)) = Inr (v, rest')"
      using 1(3) True less by (subst (asm) dict_loop.simps) (simp add: key vp Let_def)
    then have "length rest' \<le> length (skip_ws (tl ?r3))"
      by (intro "1.IH" [OF key refl vp refl refl refl _ 1(2)]) (use True less in simp)
    then show ?thesis using skip_ws_tl [of rest2] True less by linarith
  next
    case False
    then have "?r3 \<noteq> []" "rest' = tl ?r3" using 1(3)
      by (subst (asm) dict_loop.simps; auto simp: key vp Let_def split: if_splits)+
    then show ?thesis using skip_ws_tl [of rest2] less by simp
  qed
qed

lemma array_loop_shorter:
  "shrinks vp \<Longrightarrow> array_loop vp n items rest = Inr (v, rest') \<Longrightarrow> length rest' \<le> length rest"
proof (induction vp n items rest rule: array_loop.induct)
  case (1 vp n items rest)
  from 1(3) obtain v1 rest1 where vp: "vp rest = Inr (v1, rest1)"
    by (subst (asm) array_loop.simps) (auto split: sum.splits)
  let ?r2 = "skip_ws rest1"
  note less = shrinksD [OF 1(2) vp]
  show ?case
  proof (cases "?r2 \<noteq> [] \<and> hd ?r2 = 44")
    case True
    have "array_loop vp n (items @ [v1]) (skip_ws (tl ?r2)) = Inr (v, rest')"
      using 1(3) True less by (subst (asm) array_loop.simps) (simp add: vp Let_def)
    then have "length rest' \<le> length (skip_ws (tl ?r2))"
      by (intro "1.IH" [OF vp refl refl refl _ 1(2)]) (use True less in simp)
    then show ?thesis using skip_ws_tl [of rest1] True less by linarith
  next
    case False
    then have "?r2 \<noteq> []" "rest' = tl ?r2" using 1(3)
      by (subst (asm) array_loop.simps; auto simp: vp Let_def split: if_splits)+
    then show ?thesis using skip_ws_tl [of rest1] less by simp
  qed
qed

lemma vp_dict_shrinks: "shrinks vp \<Longrightarrow> shrinks (vp_dict vp n)"
  unfolding shrinks_def [of "vp_dict vp n"]
proof (intro allI impI)
  fix r v r' assume vp: "shrinks vp" and d: "vp_dict vp n r = Inr (v, r')"
  then obtain r1 where r1: "expect_char n 123 r = Inr r1" by (auto simp: vp_dict_def split: sum.splits)
  then have "length (skip_ws r1) \<le> length r"
    using length_skip_ws [of r1] by (auto simp: expect_char_def split: list.splits if_splits)
  then show "length r' \<le> length r"
    using d dict_loop_shorter [OF vp, of n "[]" "skip_ws r1" v r'] by (auto simp: vp_dict_def r1 Let_def split: if_splits)
qed

lemma vp_array_shrinks: "shrinks vp \<Longrightarrow> shrinks (vp_array vp n)"
  unfolding shrinks_def [of "vp_array vp n"]
proof (intro allI impI)
  fix r v r' assume vp: "shrinks vp" and d: "vp_array vp n r = Inr (v, r')"
  then obtain r1 where r1: "expect_char n 91 r = Inr r1" by (auto simp: vp_array_def split: sum.splits)
  then have "length (skip_ws r1) \<le> length r"
    using length_skip_ws [of r1] by (auto simp: expect_char_def split: list.splits if_splits)
  then show "length r' \<le> length r"
    using d array_loop_shorter [OF vp, of n "[]" "skip_ws r1" v r'] by (auto simp: vp_array_def r1 Let_def split: if_splits)
qed

lemma scan_value_shrinks:
  assumes "shrinks dict" "shrinks array"
  shows "shrinks (scan_value dict array number n)"
  unfolding shrinks_def
proof (intro allI impI)
  fix r v r' assume s: "scan_value dict array number n r = Inr (v, r')"
  show "length r' \<le> length r"
  proof (cases "strip_prefix STRING_QUOTE r")
    case (Some body)
    then have "length body \<le> length r" by (auto simp: strip_prefix_def split: if_splits)
    then show ?thesis using s Some by (auto simp: scan_value_def split_once_def split: option.splits)
  next
    case None
    then show ?thesis
      using s shrinksD [OF assms(1)] shrinksD [OF assms(2)] length_dropWhile_le [of "\<lambda>c. \<not> is_word_end c" r]
      by (auto simp: scan_value_def scan_word_def Let_def split: if_splits option.splits)
  qed
qed

lemma vp_value_shorter: "shrinks (vp_value number n levels)"
proof (induction levels)
  case 0
  show ?case unfolding vp_value.simps by (rule scan_value_shrinks) (simp_all add: shrinks_def)
next
  case (Suc levels)
  then show ?case unfolding vp_value.simps by (intro scan_value_shrinks vp_dict_shrinks vp_array_shrinks)
qed

lemma dict_loop_unguarded:
  assumes "vp = vp_value number n levels"
  shows "dict_loop vp n m rest =
     (case dict_key n rest of
        Inl e \<Rightarrow> Inl e
      | Inr (key, rest1) \<Rightarrow>
          (case vp rest1 of
             Inl e \<Rightarrow> Inl e
           | Inr (v, rest2) \<Rightarrow>
               let m = map_insert key v m; rest3 = skip_ws rest2 in
               if rest3 \<noteq> [] \<and> hd rest3 = 44 then dict_loop vp n m (skip_ws (tl rest3))
               else if rest3 \<noteq> [] \<and> hd rest3 = 125 then Inr (JObject m, tl rest3)
               else Inl (''expected `,` or `}` at byte '' @ at_byte n rest3)))"
  using shrinksD [OF vp_value_shorter [of number n levels]] unfolding assms [symmetric]
  by (subst dict_loop.simps) (auto simp: Let_def split: sum.split)

lemma array_loop_unguarded:
  assumes "vp = vp_value number n levels"
  shows "array_loop vp n items rest =
     (case vp rest of
        Inl e \<Rightarrow> Inl e
      | Inr (v, rest1) \<Rightarrow>
          let items = items @ [v]; rest2 = skip_ws rest1 in
          if rest2 \<noteq> [] \<and> hd rest2 = 44 then array_loop vp n items (skip_ws (tl rest2))
          else if rest2 \<noteq> [] \<and> hd rest2 = 93 then Inr (JArray items, tl rest2)
          else Inl (''expected `,` or `]` at byte '' @ at_byte n rest2))"
  using shrinksD [OF vp_value_shorter [of number n levels]] unfolding assms [symmetric]
  by (subst array_loop.simps) (auto simp: Let_def split: sum.split)

text \<open>\<open>parse_tool_call\<close>\<close>

definition parse_tool_call :: "(utext \<Rightarrow> 'n option) \<Rightarrow> utext \<Rightarrow> string + utext \<times> 'n json" where
  "parse_tool_call number txt =
     (case strip_prefix (ustr ''call:'') (trim_start is_white_space txt) of
        None \<Rightarrow> Inl ''missing `call:` prefix''
      | Some rest \<Rightarrow>
          (case find_sub [123] rest of
             None \<Rightarrow> Inl ''missing `{` after the tool name''
           | Some brace \<Rightarrow>
               let name = trim (take brace rest); n = length (utf8_bytes rest) in
               if name = [] then Inl ''empty tool name''
               else
                 (case vp_dict (vp_value number n MAX_DEPTH) n (drop brace rest) of
                    Inl e \<Rightarrow> Inl e
                  | Inr (arguments, tail) \<Rightarrow>
                      if skip_ws tail \<noteq> [] then
                        Inl (''unexpected text after the call at byte '' @ at_byte n (skip_ws tail))
                      else Inr (name, arguments))))"

section \<open>Tagged XML\<close>

lemma strip_prefix_Some: "strip_prefix p s = Some r \<Longrightarrow> s = p @ r"
  by (auto simp: strip_prefix_def split: if_splits) (metis append_take_drop_id)

lemma split_once_shorter: "split_once p s = Some (a, b) \<Longrightarrow> length b \<le> length s"
  by (auto simp: split_once_def)

function xml_loop ::
  "(utext \<Rightarrow> string + 'n json) \<Rightarrow> utext \<Rightarrow> (utext \<times> 'n json) list \<Rightarrow> utext \<Rightarrow> string + utext \<times> 'n json" where
  "xml_loop from_str name arguments rest =
     (let rest = trim_start is_white_space rest in
      case strip_prefix FUNCTION_CLOSE rest of
        Some after \<Rightarrow>
          if trim after \<noteq> [] then Inl ''unexpected text after `</function>`''
          else Inr (name, JObject arguments)
      | None \<Rightarrow>
          (case strip_prefix PARAMETER_OPEN rest of
             None \<Rightarrow> Inl ''expected `<parameter=` or `</function>`''
           | Some after \<Rightarrow>
               (case split_once [62] after of
                  None \<Rightarrow> Inl ''missing `>` after a parameter name''
                | Some (key, after) \<Rightarrow>
                    let key = trim key in
                    if key = [] then Inl ''empty parameter name''
                    else
                      (case split_once PARAMETER_CLOSE after of
                         None \<Rightarrow> Inl (''parameter `'' @ text_string key @ ''` is not closed'')
                       | Some (val, after) \<Rightarrow>
                           let val = (case strip_prefix [10] val of Some w \<Rightarrow> w | None \<Rightarrow> val);
                               val = (case strip_suffix [10] val of Some w \<Rightarrow> w | None \<Rightarrow> val);
                               v = (case from_str val of Inr j \<Rightarrow> j | Inl _ \<Rightarrow> JString val)
                           in xml_loop from_str name (map_insert key v arguments) after))))"
  by pat_completeness auto
termination
proof (relation "measure (\<lambda>(f, name, args, rest). length rest)")
  fix from_str :: "utext \<Rightarrow> string + 'n json" and name args rest s after p key after1 key' q val after2 args'
  assume s: "s = trim_start is_white_space rest"
    and a: "strip_prefix PARAMETER_OPEN s = Some after" "split_once [62] after = Some p" "(key, after1) = p"
      "split_once PARAMETER_CLOSE after1 = Some q" "(val, after2) = q"
  have "length after2 \<le> length after1" "length after1 \<le> length after"
    using a by (auto dest!: split_once_shorter)
  moreover have "length after < length s"
    using strip_prefix_Some [OF a(1)] by (simp add: PARAMETER_OPEN_def ustr_def)
  moreover have "length s \<le> length rest" using s by (simp add: trim_start_def length_dropWhile_le)
  ultimately show "((from_str, name, args', after2), from_str, name, args, rest)
      \<in> measure (\<lambda>(f, name, args, rest). length rest)" by simp
qed simp

declare xml_loop.simps [simp del]

definition parse_xml_call ::
  "(utext \<Rightarrow> string + 'n json) \<Rightarrow> utext \<Rightarrow> string + utext \<times> 'n json" where
  "parse_xml_call from_str txt =
     (case strip_prefix FUNCTION_OPEN (trim txt) of
        None \<Rightarrow> Inl ''missing `<function=` prefix''
      | Some rest \<Rightarrow>
          (case split_once [62] rest of
             None \<Rightarrow> Inl ''missing `>` after the function name''
           | Some (name, rest) \<Rightarrow>
               let name = trim name in
               if name = [] then Inl ''empty tool name'' else xml_loop from_str name [] rest))"

section \<open>JSON\<close>

fun as_object :: "'n json \<Rightarrow> (utext \<times> 'n json) list option" where
  "as_object (JObject m) = Some m"
| "as_object _ = None"

fun as_str :: "'n json \<Rightarrow> utext option" where
  "as_str (JString s) = Some s"
| "as_str _ = None"

definition or_opt :: "'a option \<Rightarrow> 'a option \<Rightarrow> 'a option" where
  "or_opt x y = (case x of Some _ \<Rightarrow> x | None \<Rightarrow> y)"

definition call_arguments :: "(utext \<times> 'n json) list \<Rightarrow> 'n json option" where
  "call_arguments m = or_opt (map_get m ''arguments'') (map_get m ''parameters'')"

definition json_call ::
  "(utext \<Rightarrow> string + 'n json) \<Rightarrow> 'n json \<Rightarrow> bool \<Rightarrow> string + utext \<times> 'n json" where
  "json_call from_str v require_arguments =
     (case as_object v of
        None \<Rightarrow> Inl ''tool call is not a JSON object''
      | Some outer \<Rightarrow>
          let nested = Option.bind (map_get outer ''function'') as_object;
              inner = (case nested of Some m \<Rightarrow> m | None \<Rightarrow> outer);
              name = Option.bind
                (or_opt (map_get inner ''name'')
                  (or_opt (map_get outer ''name'')
                    (case map_get outer ''function'' of
                       Some (JString f) \<Rightarrow> Some (JString f) | _ \<Rightarrow> None))) as_str in
          (case name of
             None \<Rightarrow> Inl ''missing tool name''
           | Some name \<Rightarrow>
               if name = [] then Inl ''missing tool name''
               else
                 (case or_opt (call_arguments inner) (call_arguments outer) of
                    None \<Rightarrow>
                      if require_arguments then Inl ''missing arguments'' else Inr (name, JObject [])
                  | Some JNull \<Rightarrow> Inr (name, JObject [])
                  | Some (JObject m) \<Rightarrow> Inr (name, JObject m)
                  | Some (JString t) \<Rightarrow>
                      (case from_str t of
                         Inr (JObject m) \<Rightarrow> Inr (name, JObject m)
                       | _ \<Rightarrow> Inl ''arguments string is not a JSON object'')
                  | Some _ \<Rightarrow> Inl ''arguments are not a JSON object'')))"

definition parse_json_calls ::
  "(utext \<Rightarrow> string + 'n json) \<Rightarrow> utext \<Rightarrow> bool \<Rightarrow> string + (utext \<times> 'n json) list" where
  "parse_json_calls from_str body require_arguments =
     (case from_str (trim body) of
        Inl e \<Rightarrow> Inl e
      | Inr (JArray items) \<Rightarrow>
          if items = [] then Inl ''empty tool-call list''
          else collect (\<lambda>item. json_call from_str item require_arguments) items
      | Inr other \<Rightarrow> map_sum id (\<lambda>call. [call]) (json_call from_str other require_arguments))"

end
