(* ===== verification/Output.thy ===== *)
theory Output
  imports Chat_Format Tool_Calls
begin

text \<open>
  \<open>src/provider/local/output/mod.rs\<close>: the streaming parser from generated token ids to content blocks.
  A text is its characters, so an offset is a number of characters. The list the code appends blocks
  to and the number of call ids drawn so far are fields of the run beside those of the parser.
\<close>

section \<open>State\<close>

datatype action = OpenReasoning | CloseReasoning | StrayClose | OpenTool | CloseTool | OpenPython

record marker =
  mk_text :: utext
  mk_action :: action

record marker_table =
  mt_content :: "marker list"
  mt_thinking :: "marker list"
  mt_tool :: "marker list"

record json_capture =
  jc_text :: utext
  jc_depth :: nat
  jc_in_string :: bool
  jc_escaped :: bool

datatype out_state =
    Content | Header utext | Thinking | ToolBody utext | PythonTag utext | JsonCall json_capture

record output_parser =
  op_format :: chat_format
  op_markers :: marker_table
  op_header_word :: utext
  op_state :: out_state
  op_pending :: bytes
  op_hold :: utext
  op_reasoning_tokens :: nat
  op_trim_leading_ws :: bool
  op_strip_one_space :: bool
  op_json_call_window :: bool

record 'n output_run = output_parser +
  or_out :: "(cuca_error + 'n json content_block) list"
  or_calls :: nat

text \<open>What the parser is given: \<open>serde_json::from_str\<close> and the source of call ids.\<close>

record 'n output_env =
  ev_from_str :: "utext \<Rightarrow> string + 'n json"
  ev_number :: "utext \<Rightarrow> 'n option"
  ev_call_id :: "nat \<Rightarrow> string"

definition open_tool :: "utext \<Rightarrow> marker" where
  "open_tool t = \<lparr>mk_text = t, mk_action = OpenTool\<rparr>"

definition close_tool :: "utext \<Rightarrow> marker" where
  "close_tool t = \<lparr>mk_text = t, mk_action = CloseTool\<rparr>"

definition opt_list :: "'a option \<Rightarrow> 'a list" where
  "opt_list x = (case x of Some y \<Rightarrow> [y] | None \<Rightarrow> [])"

fun reasoning_markers :: "reasoning option \<Rightarrow> marker_table" where
  "reasoning_markers None = \<lparr>mt_content = [], mt_thinking = [], mt_tool = []\<rparr>"
| "reasoning_markers (Some r) =
     \<lparr>mt_content = [\<lparr>mk_text = rs_open r, mk_action = OpenReasoning\<rparr>,
                    \<lparr>mk_text = rs_close r, mk_action = StrayClose\<rparr>],
      mt_thinking = [\<lparr>mk_text = rs_close r, mk_action = CloseReasoning\<rparr>], mt_tool = []\<rparr>"

fun tool_markers :: "tool_syntax \<Rightarrow> marker_table" where
  "tool_markers PlainTools = \<lparr>mt_content = [], mt_thinking = [], mt_tool = []\<rparr>"
| "tool_markers (Gemma4Tools opener closer) =
     \<lparr>mt_content = [open_tool opener], mt_thinking = [open_tool opener], mt_tool = [close_tool closer]\<rparr>"
| "tool_markers (TaggedXml opener closer) =
     \<lparr>mt_content = [open_tool opener], mt_thinking = [open_tool opener], mt_tool = [close_tool closer]\<rparr>"
| "tool_markers (TaggedJson opener alt_open closer) =
     \<lparr>mt_content = map open_tool (opener # opt_list alt_open),
      mt_thinking = map open_tool (opener # opt_list alt_open), mt_tool = map close_tool (opt_list closer)\<rparr>"
| "tool_markers (LlamaJson python_tag) =
     \<lparr>mt_content = map (\<lambda>t. \<lparr>mk_text = t, mk_action = OpenPython\<rparr>) (opt_list python_tag),
      mt_thinking = [], mt_tool = []\<rparr>"

definition markers_of :: "chat_format \<Rightarrow> marker_table" where
  "markers_of f =
     (let r = reasoning_markers (cf_reasoning f); t = tool_markers (cf_tools f) in
      \<lparr>mt_content = mt_content r @ mt_content t, mt_thinking = mt_thinking r @ mt_thinking t,
       mt_tool = mt_tool r @ mt_tool t\<rparr>)"

fun is_llama :: "tool_syntax \<Rightarrow> bool" where
  "is_llama (LlamaJson _) = True"
| "is_llama _ = False"

text \<open>\<open>OutputParser::new\<close>\<close>

definition output_new :: "chat_format \<Rightarrow> bool \<Rightarrow> 'n output_run" where
  "output_new f start_in_thinking =
     (let thinking = start_in_thinking \<and> cf_reasoning f \<noteq> None in
      \<lparr>op_format = f, op_markers = markers_of f,
       op_header_word = (case Option.bind (cf_reasoning f) rs_header of Some h \<Rightarrow> h | None \<Rightarrow> []),
       op_state = (if thinking then Thinking else Content), op_pending = [], op_hold = [],
       op_reasoning_tokens = 0, op_trim_leading_ws = thinking,
       op_strip_one_space = cf_strip_leading_space f,
       op_json_call_window = (is_llama (cf_tools f) \<and> \<not> thinking), or_out = [], or_calls = 0\<rparr>)"

definition in_reasoning :: "'n output_run \<Rightarrow> bool" where
  "in_reasoning r \<longleftrightarrow> (case op_state r of Header _ \<Rightarrow> True | Thinking \<Rightarrow> True | _ \<Rightarrow> False)"

section \<open>Emitting\<close>

definition step_capture :: "json_capture \<Rightarrow> nat \<Rightarrow> json_capture \<times> bool" where
  "step_capture c x =
     (let c = c\<lparr>jc_text := jc_text c @ [x]\<rparr> in
      if jc_in_string c then
        ((if jc_escaped c then c\<lparr>jc_escaped := False\<rparr>
          else if x = 92 then c\<lparr>jc_escaped := True\<rparr>
          else if x = 34 then c\<lparr>jc_in_string := False\<rparr> else c), False)
      else if x = 34 then (c\<lparr>jc_in_string := True\<rparr>, False)
      else if x = 123 then (c\<lparr>jc_depth := jc_depth c + 1\<rparr>, False)
      else if x = 125 then (c\<lparr>jc_depth := jc_depth c - 1\<rparr>, jc_depth c - 1 = 0)
      else (c, False))"

fun capture_advance :: "json_capture \<Rightarrow> utext \<Rightarrow> json_capture \<times> nat \<times> bool" where
  "capture_advance c [] = (c, 0, False)"
| "capture_advance c (x # xs) =
     (let (c, closed) = step_capture c x in
      if closed then (c, 1, True)
      else let (c, consumed, complete) = capture_advance c xs in (c, consumed + 1, complete))"

definition emit_text_block :: "utext \<Rightarrow> 'n output_run \<Rightarrow> 'n output_run" where
  "emit_text_block t r = (if t \<noteq> [] then r\<lparr>or_out := or_out r @ [Inr (TextBlock t)]\<rparr> else r)"

definition trim_prefix :: "utext \<Rightarrow> 'n output_run \<Rightarrow> utext option \<times> 'n output_run" where
  "trim_prefix t r =
     (if t = [] then (None, r)
      else
        let t = (if op_strip_one_space r \<and> hd t = 32 then tl t else t);
            r = r\<lparr>op_strip_one_space := False\<rparr> in
        if op_trim_leading_ws r then
          let trimmed = trim_start is_white_space t in
          if trimmed = [] then (None, r) else (Some trimmed, r\<lparr>op_trim_leading_ws := False\<rparr>)
        else (if t \<noteq> [] then Some t else None, r))"

definition emit_thinking :: "utext \<Rightarrow> 'n output_run \<Rightarrow> 'n output_run" where
  "emit_thinking t r =
     (case trim_prefix t r of
        (Some t, r) \<Rightarrow> r\<lparr>or_out := or_out r @ [Inr (ThinkingBlock t None)]\<rparr>
      | (None, r) \<Rightarrow> r)"

fun push_calls :: "'n output_env \<Rightarrow> (utext \<times> 'n json) list \<Rightarrow> 'n output_run \<Rightarrow> 'n output_run" where
  "push_calls ev [] r = r"
| "push_calls ev ((name, arguments) # calls) r =
     push_calls ev calls (r\<lparr>
       or_out := or_out r @ [Inr (ToolCallBlock (ev_call_id ev (or_calls r)) (text_string name) arguments)],
       or_calls := or_calls r + 1\<rparr>)"

definition complete_json :: "'n output_env \<Rightarrow> utext \<Rightarrow> 'n output_run \<Rightarrow> 'n output_run" where
  "complete_json ev t r =
     (case parse_json_calls (ev_from_str ev) t True of
        Inr calls \<Rightarrow> (push_calls ev calls r)\<lparr>op_trim_leading_ws := True\<rparr>
      | Inl _ \<Rightarrow> emit_text_block t r)"

lemma capture_advance_bounds:
  "capture_advance c t = (c', n, ended) \<Longrightarrow> n \<le> length t \<and> (t \<noteq> [] \<longrightarrow> 0 < n)"
  by (induction c t arbitrary: c' n ended rule: capture_advance.induct)
    (auto simp: Let_def split: prod.splits if_splits)

lemma trim_prefix_shorter: "trim_prefix t r = (Some t', r') \<Longrightarrow> length t' \<le> length t"
  using length_dropWhile_le [of is_white_space t] length_dropWhile_le [of is_white_space "tl t"]
  by (cases t) (auto simp: trim_prefix_def trim_start_def Let_def split: if_splits)

definition capture_new :: json_capture where
  "capture_new = \<lparr>jc_text = [], jc_depth = 0, jc_in_string = False, jc_escaped = False\<rparr>"

function emit_content :: "'n output_env \<Rightarrow> utext \<Rightarrow> 'n output_run \<Rightarrow> 'n output_run" where
  "emit_content ev t r =
     (case trim_prefix t r of
        (None, r) \<Rightarrow> r
      | (Some t, r) \<Rightarrow>
          if op_json_call_window r then
            let trimmed = trim_start is_white_space t in
            if trimmed = [] then r
            else
              let r = r\<lparr>op_json_call_window := False\<rparr> in
              if hd trimmed = 123 then
                let (capture, consumed, complete) = capture_advance capture_new trimmed in
                if complete then emit_content ev (drop consumed trimmed) (complete_json ev (jc_text capture) r)
                else r\<lparr>op_state := JsonCall capture\<rparr>
              else emit_text_block t r
          else emit_text_block t r)"
  by pat_completeness auto
termination
proof (relation "measure (\<lambda>(ev, t, r). length t)")
  fix ev :: "'n output_env" and r r1 r2 :: "'n output_run" and t o1 t1 trimmed q capture q' consumed complete
  assume "(o1, r1) = trim_prefix t r" "o1 = Some t1" "trimmed = trim_start is_white_space t1" "trimmed \<noteq> []"
    "q = capture_advance capture_new trimmed" "(capture, q') = q" "(consumed, complete) = q'"
  then have "length t1 \<le> length t" "length trimmed \<le> length t1" "0 < consumed" "trimmed \<noteq> []"
    using trim_prefix_shorter [of t r t1 r1] capture_advance_bounds [of capture_new trimmed capture consumed complete]
      length_dropWhile_le [of is_white_space t1] by (auto simp: trim_start_def)
  then show "((ev, drop consumed trimmed, complete_json ev (jc_text capture) r2), ev, t, r)
      \<in> measure (\<lambda>(ev, t, r). length t)" by (cases trimmed) auto
qed simp

declare emit_content.simps [simp del]


text \<open>The parts of the state emitting does not touch.\<close>

lemma emit_text_block_fields [simp]:
  "op_hold (emit_text_block t r) = op_hold r" "op_pending (emit_text_block t r) = op_pending r"
  by (simp_all add: emit_text_block_def)

lemma trim_prefix_fields:
  "op_hold (snd (trim_prefix t r)) = op_hold r" "op_pending (snd (trim_prefix t r)) = op_pending r"
  by (auto simp: trim_prefix_def Let_def)

lemma emit_thinking_fields [simp]:
  "op_hold (emit_thinking t r) = op_hold r" "op_pending (emit_thinking t r) = op_pending r"
  using trim_prefix_fields [of t r] by (auto simp: emit_thinking_def split: prod.splits option.splits)

lemma push_calls_fields [simp]:
  "op_hold (push_calls ev calls r) = op_hold r" "op_pending (push_calls ev calls r) = op_pending r"
  by (induction ev calls r rule: push_calls.induct) auto

lemma complete_json_fields [simp]:
  "op_hold (complete_json ev t r) = op_hold r" "op_pending (complete_json ev t r) = op_pending r"
  by (auto simp: complete_json_def split: sum.splits)

lemma emit_content_fields [simp]:
  "op_hold (emit_content ev t r) = op_hold r" "op_pending (emit_content ev t r) = op_pending r"
proof (induction ev t r rule: emit_content.induct)
  case (1 ev t r)
  {
    case 1
    show ?case
      by (subst emit_content.simps)
        (use "1.IH"(1) trim_prefix_fields [of t r] in \<open>auto simp: Let_def split: prod.splits option.splits\<close>)
  next
    case 2
    show ?case
      by (subst emit_content.simps)
        (use "1.IH"(2) trim_prefix_fields [of t r] in \<open>auto simp: Let_def split: prod.splits option.splits\<close>)
  }
qed

section \<open>Routing\<close>

definition resolve_header :: "bool \<Rightarrow> 'n output_run \<Rightarrow> 'n output_run" where
  "resolve_header force r =
     (case op_state r of
        Header header \<Rightarrow>
          let word = op_header_word r in
          (case strip_prefix word header of
             Some rest \<Rightarrow>
               let trimmed = trim_start (\<lambda>c. c \<in> {32, 9, 10}) rest in
               if trimmed = [] \<and> \<not> force then r
               else emit_thinking trimmed (r\<lparr>op_state := Thinking\<rparr>)
           | None \<Rightarrow>
               if \<not> force \<and> take (length header) word = header then r
               else emit_thinking header (r\<lparr>op_state := Thinking\<rparr>))
      | _ \<Rightarrow> r)"

definition parse_body :: "'n output_env \<Rightarrow> tool_syntax \<Rightarrow> utext \<Rightarrow> string + (utext \<times> 'n json) list" where
  "parse_body ev tools body =
     (case tools of
        Gemma4Tools _ _ \<Rightarrow> map_sum id (\<lambda>call. [call]) (parse_tool_call (ev_number ev) body)
      | TaggedXml _ _ \<Rightarrow> map_sum id (\<lambda>call. [call]) (parse_xml_call (ev_from_str ev) body)
      | _ \<Rightarrow> parse_json_calls (ev_from_str ev) body False)"

definition finish_tool_call :: "'n output_env \<Rightarrow> utext \<Rightarrow> 'n output_run \<Rightarrow> 'n output_run" where
  "finish_tool_call ev body r =
     (let r = r\<lparr>op_trim_leading_ws := True\<rparr> in
      case parse_body ev (cf_tools (op_format r)) body of
        Inr calls \<Rightarrow> push_calls ev calls r
      | Inl _ \<Rightarrow> r\<lparr>or_out := or_out r @ [Inl (local_err (''malformed tool call: '' @ text_string body))]\<rparr>)"

definition finish_python :: "'n output_env \<Rightarrow> utext \<Rightarrow> 'n output_run \<Rightarrow> 'n output_run" where
  "finish_python ev body r =
     (if trim body = [] then r
      else
        push_calls ev
          (case parse_json_calls (ev_from_str ev) body True of
             Inr calls \<Rightarrow> calls
           | Inl _ \<Rightarrow> [(ustr ''python'', JObject [(ustr ''code'', JString (trim body))])]) r)"

definition route :: "'n output_env \<Rightarrow> utext \<Rightarrow> 'n output_run \<Rightarrow> 'n output_run" where
  "route ev t r =
     (if t = [] then r
      else
        (case op_state r of
           Content \<Rightarrow> emit_content ev t r
         | Thinking \<Rightarrow> emit_thinking t r
         | Header header \<Rightarrow> resolve_header False (r\<lparr>op_state := Header (header @ t)\<rparr>)
         | ToolBody body \<Rightarrow> r\<lparr>op_state := ToolBody (body @ t)\<rparr>
         | PythonTag body \<Rightarrow> r\<lparr>op_state := PythonTag (body @ t)\<rparr>
         | JsonCall c \<Rightarrow> r\<lparr>op_state := JsonCall (c\<lparr>jc_text := jc_text c @ t\<rparr>)\<rparr>))"

text \<open>\<open>route_hold\<close>: the first \<open>n\<close> characters of the hold buffer.\<close>

definition route_hold :: "'n output_env \<Rightarrow> nat \<Rightarrow> 'n output_run \<Rightarrow> 'n output_run" where
  "route_hold ev n r =
     (let t = take n (op_hold r); r = r\<lparr>op_hold := drop n (op_hold r)\<rparr> in
      case op_state r of
        ToolBody body \<Rightarrow> r\<lparr>op_state := ToolBody (body @ t)\<rparr>
      | PythonTag body \<Rightarrow> r\<lparr>op_state := PythonTag (body @ t)\<rparr>
      | JsonCall c \<Rightarrow> r\<lparr>op_state := JsonCall (c\<lparr>jc_text := jc_text c @ t\<rparr>)\<rparr>
      | _ \<Rightarrow> route ev t r)"

definition apply_action :: "'n output_env \<Rightarrow> action \<Rightarrow> 'n output_run \<Rightarrow> 'n output_run" where
  "apply_action ev act r =
     (let r = (case op_state r of
                 JsonCall c \<Rightarrow> emit_text_block (jc_text c) (r\<lparr>op_state := Content\<rparr>)
               | _ \<Rightarrow> r) in
      case act of
        OpenReasoning \<Rightarrow>
          r\<lparr>op_trim_leading_ws := True,
            op_state := (if op_header_word r = [] then Thinking else Header [])\<rparr>
      | CloseReasoning \<Rightarrow>
          (resolve_header True r)\<lparr>op_state := Content, op_trim_leading_ws := True,
            op_json_call_window := is_llama (cf_tools (op_format r))\<rparr>
      | StrayClose \<Rightarrow> r
      | OpenTool \<Rightarrow> (resolve_header True r)\<lparr>op_state := ToolBody []\<rparr>
      | CloseTool \<Rightarrow>
          (case op_state r of
             ToolBody body \<Rightarrow> finish_tool_call ev body (r\<lparr>op_state := Content\<rparr>)
           | _ \<Rightarrow> r\<lparr>op_state := Content\<rparr>)
      | OpenPython \<Rightarrow> r\<lparr>op_state := PythonTag []\<rparr>)"

lemma resolve_header_fields [simp]:
  "op_hold (resolve_header f r) = op_hold r" "op_pending (resolve_header f r) = op_pending r"
  by (auto simp: resolve_header_def Let_def split: out_state.splits option.splits)

lemma finish_tool_call_fields [simp]:
  "op_hold (finish_tool_call ev b r) = op_hold r" "op_pending (finish_tool_call ev b r) = op_pending r"
  by (auto simp: finish_tool_call_def Let_def split: sum.splits)

lemma route_fields [simp]:
  "op_hold (route ev t r) = op_hold r" "op_pending (route ev t r) = op_pending r"
  by (auto simp: route_def split: out_state.splits)

lemma apply_action_fields [simp]:
  "op_hold (apply_action ev a r) = op_hold r" "op_pending (apply_action ev a r) = op_pending r"
  by (auto simp: apply_action_def Let_def split: out_state.splits action.splits)

section \<open>Markers\<close>

definition active_markers :: "'n output_run \<Rightarrow> marker list" where
  "active_markers r =
     (case op_state r of
        Content \<Rightarrow> mt_content (op_markers r)
      | Header _ \<Rightarrow> mt_thinking (op_markers r)
      | Thinking \<Rightarrow> mt_thinking (op_markers r)
      | ToolBody _ \<Rightarrow> mt_tool (op_markers r)
      | _ \<Rightarrow> [])"

text \<open>The leftmost, then longest marker.\<close>

definition earliest_marker :: "utext \<Rightarrow> marker list \<Rightarrow> (nat \<times> nat \<times> action) option" where
  "earliest_marker hold markers =
     map_option (\<lambda>(pos, m). (pos, length (mk_text m), mk_action m))
       (min_by_key (\<lambda>(pos, m). (pos, - int (length (utf8_bytes (mk_text m)))))
         (List.map_filter (\<lambda>m. map_option (\<lambda>pos. (pos, m)) (find_sub (mk_text m) hold)) markers))"

definition ends_with :: "utext \<Rightarrow> utext \<Rightarrow> bool" where
  "ends_with s p \<longleftrightarrow> length p \<le> length s \<and> drop (length s - length p) s = p"

definition grow_partial :: "utext \<Rightarrow> nat \<Rightarrow> marker \<Rightarrow> nat" where
  "grow_partial hold best m =
     (let longest = min (length (mk_text m) - 1) (length hold) in
      case List.find (\<lambda>k. ends_with hold (take k (mk_text m))) (rev [best + 1..<longest + 1]) of
        Some k \<Rightarrow> k
      | None \<Rightarrow> best)"

definition partial_marker_suffix :: "utext \<Rightarrow> marker list \<Rightarrow> nat" where
  "partial_marker_suffix hold markers = foldl (grow_partial hold) 0 markers"

section \<open>The hold buffer\<close>

definition scan_json :: "'n output_env \<Rightarrow> json_capture \<Rightarrow> 'n output_run \<Rightarrow> bool \<times> 'n output_run" where
  "scan_json ev c r =
     (let (c, consumed, complete) = capture_advance c (op_hold r);
          r = r\<lparr>op_hold := drop consumed (op_hold r)\<rparr> in
      if \<not> complete then (False, r\<lparr>op_state := JsonCall c\<rparr>)
      else
        let r = complete_json ev (jc_text c) (r\<lparr>op_state := Content\<rparr>) in (op_hold r \<noteq> [], r))"

lemma scan_json_shorter: "scan_json ev c r = (True, r') \<Longrightarrow> length (op_hold r') < length (op_hold r)"
  using capture_advance_bounds [of c "op_hold r"]
  by (cases "op_hold r") (auto simp: scan_json_def Let_def split: prod.splits if_splits)

text \<open>
  \<open>process_hold\<close>. No format has an empty marker, with which the code would find it over and over;
  the guard on its length makes the function total for any table.
\<close>

function process_hold :: "'n output_env \<Rightarrow> 'n output_run \<Rightarrow> 'n output_run" where
  "process_hold ev r =
     (case op_state r of
        JsonCall c \<Rightarrow> let (go_on, r) = scan_json ev c r in if go_on then process_hold ev r else r
      | _ \<Rightarrow>
          (case earliest_marker (op_hold r) (active_markers r) of
             Some (pos, len, act) \<Rightarrow>
               if len = 0 \<or> length (op_hold r) < pos + len then r
               else
                 let before = take pos (op_hold r); r = r\<lparr>op_hold := drop (pos + len) (op_hold r)\<rparr>
                 in process_hold ev (apply_action ev act (route ev before r))
           | None \<Rightarrow>
               let ready = length (op_hold r) - partial_marker_suffix (op_hold r) (active_markers r)
               in if 0 < ready then route_hold ev ready r else r))"
  by pat_completeness auto
termination
  by (relation "measure (\<lambda>(ev, r). length (op_hold r))") (auto dest: scan_json_shorter [OF sym])

declare process_hold.simps [simp del]

definition feed_text :: "'n output_env \<Rightarrow> utext \<Rightarrow> 'n output_run \<Rightarrow> 'n output_run" where
  "feed_text ev t r = process_hold ev (r\<lparr>op_hold := op_hold r @ t\<rparr>)"


lemma route_hold_pending [simp]: "op_pending (route_hold ev n r) = op_pending r"
  by (auto simp: route_hold_def Let_def split: out_state.splits)

lemma scan_json_pending: "op_pending (snd (scan_json ev c r)) = op_pending r"
  by (auto simp: scan_json_def Let_def split: prod.splits)

definition in_json :: "'n output_run \<Rightarrow> bool" where
  "in_json r \<longleftrightarrow> (\<exists>c. op_state r = JsonCall c)"

lemma process_hold_json:
  assumes "op_state r = JsonCall c"
  shows "process_hold ev r = (if fst (scan_json ev c r) then process_hold ev (snd (scan_json ev c r)) else snd (scan_json ev c r))"
  by (subst process_hold.simps) (simp add: assms split: prod.splits)

lemma process_hold_other:
  assumes "\<not> in_json r"
  shows "process_hold ev r =
    (case earliest_marker (op_hold r) (active_markers r) of
       Some (pos, len, act) \<Rightarrow>
         if len = 0 \<or> length (op_hold r) < pos + len then r
         else process_hold ev (apply_action ev act
           (route ev (take pos (op_hold r)) (r\<lparr>op_hold := drop (pos + len) (op_hold r)\<rparr>)))
     | None \<Rightarrow>
         let ready = length (op_hold r) - partial_marker_suffix (op_hold r) (active_markers r)
         in if 0 < ready then route_hold ev ready r else r)"
  using assms
  by (cases "op_state r"; cases "earliest_marker (op_hold r) (active_markers r)"; subst process_hold.simps)
    (simp_all add: in_json_def Let_def split: prod.splits)

lemma process_hold_keeps:
  assumes "\<And>r h. P r \<Longrightarrow> P (r\<lparr>op_hold := h\<rparr>)" "\<And>t r. P r \<Longrightarrow> P (route ev t r)"
    "\<And>a r. P r \<Longrightarrow> P (apply_action ev a r)" "\<And>n r. P r \<Longrightarrow> P (route_hold ev n r)"
    "\<And>c r. op_state r = JsonCall c \<Longrightarrow> P r \<Longrightarrow> P (snd (scan_json ev c r))"
  shows "P r \<Longrightarrow> P (process_hold ev r)"
proof (induction "length (op_hold r)" arbitrary: r rule: less_induct)
  case less
  show ?case
  proof (cases "op_state r")
    case (JsonCall c)
    have "P (snd (scan_json ev c r))" using assms(5) JsonCall less.prems .
    moreover have "fst (scan_json ev c r) \<Longrightarrow> length (op_hold (snd (scan_json ev c r))) < length (op_hold r)"
      using scan_json_shorter [of ev c r] by (cases "scan_json ev c r") auto
    ultimately show ?thesis using less.hyps by (simp add: process_hold_json [OF JsonCall])
  qed (use less assms in \<open>auto simp: process_hold_other in_json_def Let_def split: option.splits\<close>)
qed

lemma process_hold_pending [simp]: "op_pending (process_hold ev r) = op_pending r"
  by (rule process_hold_keeps [where P = "\<lambda>s. op_pending s = op_pending r"]) (simp_all add: scan_json_pending)

lemma feed_text_pending [simp]: "op_pending (feed_text ev t r) = op_pending r"
  by (simp add: feed_text_def)

section \<open>Bytes\<close>

lemma utf8_error_step: "utf8_from i s = Inl (k, Some n) \<Longrightarrow> 0 < n \<and> i \<le> k \<and> k < i + length s"
proof (induction "length s" arbitrary: i s rule: less_induct)
  case less
  show ?case
  proof (cases s)
    case (Cons b rest)
    from less.prems show ?thesis
      unfolding Cons by (subst (asm) utf8_from.simps)
        (auto simp: Cons map_sum_def dest!: less.hyps [rotated] split: if_splits list.splits sum.splits)
  qed (use less.prems in simp)
qed


text \<open>The text of the valid prefix of some bytes.\<close>

definition valid_prefix :: "bytes \<Rightarrow> nat \<Rightarrow> utext" where
  "valid_prefix s k = (case from_utf8 (take k s) of Inr t \<Rightarrow> t | Inl _ \<Rightarrow> [])"

function drain_pending :: "'n output_env \<Rightarrow> 'n output_run \<Rightarrow> 'n output_run" where
  "drain_pending ev r =
     (if op_pending r = [] then r
      else
        let (valid, invalid) =
              (case from_utf8 (op_pending r) of
                 Inr _ \<Rightarrow> (length (op_pending r), None)
               | Inl (valid_up_to, error_len) \<Rightarrow> (valid_up_to, Some error_len));
            r' = (if 0 < valid then
                    process_hold ev (r\<lparr>op_hold := op_hold r @ valid_prefix (op_pending r) valid,
                                       op_pending := drop valid (op_pending r)\<rparr>)
                  else r) in
        case invalid of
          Some (Some n) \<Rightarrow> drain_pending ev (feed_text ev [65533] (r'\<lparr>op_pending := drop n (op_pending r')\<rparr>))
        | _ \<Rightarrow> r')"
  by pat_completeness auto
termination
proof (relation "measure (\<lambda>(ev, r). length (op_pending r))")
  fix ev :: "'n output_env" and r r' :: "'n output_run" and p valid invalid error_len n
  assume a: "op_pending r \<noteq> []"
    "p = (case from_utf8 (op_pending r) of
            Inr _ \<Rightarrow> (length (op_pending r), None)
          | Inl (valid_up_to, error_len) \<Rightarrow> (valid_up_to, Some error_len))"
    "(valid, invalid) = p"
    "r' = (if 0 < valid then
             process_hold ev (r\<lparr>op_hold := op_hold r @ valid_prefix (op_pending r) valid,
                                op_pending := drop valid (op_pending r)\<rparr>)
           else r)"
    "invalid = Some error_len" "error_len = Some n"
  then have "from_utf8 (op_pending r) = Inl (valid, Some n)" by (auto split: sum.splits)
  then have "0 < n \<and> valid < length (op_pending r)"
    using utf8_error_step [of 0 "op_pending r" valid n] by (simp add: from_utf8_def)
  moreover have "op_pending r' = drop valid (op_pending r)" using a(4) by simp
  ultimately show "((ev, feed_text ev [65533] (r'\<lparr>op_pending := drop n (op_pending r')\<rparr>)), ev, r)
      \<in> measure (\<lambda>(ev, r). length (op_pending r))" by auto
qed simp

declare drain_pending.simps [simp del]

text \<open>\<open>String::from_utf8_lossy\<close>\<close>

function utf8_lossy :: "bytes \<Rightarrow> utext" where
  "utf8_lossy s =
     (case from_utf8 s of
        Inr t \<Rightarrow> t
      | Inl (k, None) \<Rightarrow> valid_prefix s k @ [65533]
      | Inl (k, Some n) \<Rightarrow> valid_prefix s k @ 65533 # utf8_lossy (drop (k + n) s))"
  by pat_completeness auto
termination
  by (relation "measure length") (auto simp: from_utf8_def dest!: utf8_error_step)

declare utf8_lossy.simps [simp del]

definition flush_pending :: "'n output_env \<Rightarrow> 'n output_run \<Rightarrow> 'n output_run" where
  "flush_pending ev r =
     (let r = drain_pending ev r in
      if op_pending r \<noteq> [] then
        process_hold ev (r\<lparr>op_hold := op_hold r @ utf8_lossy (op_pending r), op_pending := []\<rparr>)
      else r)"

section \<open>The parser\<close>

fun is_tool_body :: "out_state \<Rightarrow> bool" where
  "is_tool_body (ToolBody _) = True"
| "is_tool_body _ = False"

text \<open>\<open>OutputParser::push\<close> and \<open>finish\<close>\<close>

definition output_push :: "'n output_env \<Rightarrow> tokenizer \<Rightarrow> nat \<Rightarrow> 'n output_run \<Rightarrow> 'n output_run" where
  "output_push ev tk i r =
     (let was_reasoning = in_reasoning r;
          r' = (if cf_is_marker (op_format r) i then
                  feed_text ev (piece_chars (tk_vocab tk) i) (flush_pending ev r)
                else
                  let decoded = tk_decode tk i;
                      raw = (if decoded = [] \<and> tk_is_control tk i \<and> is_tool_body (op_state r)
                             then tk_token_text tk i else []) in
                  drain_pending ev (r\<lparr>op_pending := op_pending r @ decoded @ raw\<rparr>)) in
      if was_reasoning \<or> in_reasoning r' then
        r'\<lparr>op_reasoning_tokens := min u32_max (op_reasoning_tokens r' + 1)\<rparr>
      else r')"

definition output_finish :: "'n output_env \<Rightarrow> 'n output_run \<Rightarrow> 'n output_run" where
  "output_finish ev r =
     (let r = flush_pending ev r; held = op_hold r; st = op_state r;
          r = r\<lparr>op_hold := [], op_state := Content\<rparr> in
      case st of
        Content \<Rightarrow> emit_content ev held r
      | Thinking \<Rightarrow> emit_thinking held (r\<lparr>op_state := Thinking\<rparr>)
      | Header header \<Rightarrow> resolve_header True (r\<lparr>op_state := Header (header @ held)\<rparr>)
      | ToolBody body \<Rightarrow> finish_tool_call ev (body @ held) r
      | PythonTag body \<Rightarrow> finish_python ev (body @ held) r
      | JsonCall c \<Rightarrow> emit_text_block (jc_text c @ held) r)"

end
