(* ===== verification/Output_Chunks.thy ===== *)
theory Output_Chunks
  imports Output
begin

text \<open>
  How a reply is cut into tokens does not matter to the parser: feeding a text in pieces and feeding
  it at once lead to the same state and the same output, blocks of adjacent text or reasoning joined.
  This holds for every tool syntax but the bare JSON one, and for markers none of which occurs in
  another; those of every detected format are such. For bare JSON it fails, and the theorem
  \<open>bare_json_depends_on_chunks\<close> shows how.
\<close>

section \<open>What an observer of the blocks sees\<close>

datatype 'n out_item = TextChar nat | ThinkingChar nat | WholeItem "cuca_error + 'n json content_block"

fun items_of :: "cuca_error + 'n json content_block \<Rightarrow> 'n out_item list" where
  "items_of (Inr (TextBlock t)) = map TextChar t"
| "items_of (Inr (ThinkingBlock t None)) = map ThinkingChar t"
| "items_of b = [WholeItem b]"

definition out_items :: "'n output_run \<Rightarrow> 'n out_item list" where
  "out_items r = concat (map items_of (or_out r))"

definition observed :: "'n output_run \<Rightarrow> 'n output_run \<times> 'n out_item list" where
  "observed r = (r\<lparr>or_out := []\<rparr>, out_items r)"

lemma observed_fields:
  assumes "observed r = observed s"
  shows "op_format r = op_format s" "op_markers r = op_markers s" "op_header_word r = op_header_word s"
    "op_state r = op_state s" "op_pending r = op_pending s" "op_hold r = op_hold s"
    "op_reasoning_tokens r = op_reasoning_tokens s" "op_trim_leading_ws r = op_trim_leading_ws s"
    "op_strip_one_space r = op_strip_one_space s" "op_json_call_window r = op_json_call_window s"
    "or_calls r = or_calls s" "out_items r = out_items s"
proof -
  have "r\<lparr>or_out := []\<rparr> = s\<lparr>or_out := []\<rparr>" "out_items r = out_items s" using assms by (auto simp: observed_def)
  then show "op_format r = op_format s" "op_markers r = op_markers s" "op_header_word r = op_header_word s"
    "op_state r = op_state s" "op_pending r = op_pending s" "op_hold r = op_hold s"
    "op_reasoning_tokens r = op_reasoning_tokens s" "op_trim_leading_ws r = op_trim_leading_ws s"
    "op_strip_one_space r = op_strip_one_space s" "op_json_call_window r = op_json_call_window s"
    "or_calls r = or_calls s" "out_items r = out_items s"
    by (cases r; cases s; simp)+
qed

lemma observed_iff:
  "observed r = observed s \<longleftrightarrow> (\<exists>ys. s = r\<lparr>or_out := ys\<rparr> \<and> concat (map items_of ys) = out_items r)"
proof
  assume a: "observed r = observed s"
  then have "s = r\<lparr>or_out := or_out s\<rparr>" by (cases r; cases s) (auto simp: observed_def)
  with a show "\<exists>ys. s = r\<lparr>or_out := ys\<rparr> \<and> concat (map items_of ys) = out_items r"
    by (intro exI [of _ "or_out s"]) (auto simp: observed_def out_items_def)
next
  assume "\<exists>ys. s = r\<lparr>or_out := ys\<rparr> \<and> concat (map items_of ys) = out_items r"
  then show "observed r = observed s" by (auto simp: observed_def out_items_def)
qed

section \<open>Emitting and routing respect it\<close>

named_theorems obs_cong

lemma obs_update [obs_cong]:
  assumes "observed r = observed s"
  shows "observed (r\<lparr>op_state := x\<rparr>) = observed (s\<lparr>op_state := x\<rparr>)"
    "observed (r\<lparr>op_hold := h\<rparr>) = observed (s\<lparr>op_hold := h\<rparr>)"
    "observed (r\<lparr>op_pending := p\<rparr>) = observed (s\<lparr>op_pending := p\<rparr>)"
    "observed (r\<lparr>op_trim_leading_ws := b\<rparr>) = observed (s\<lparr>op_trim_leading_ws := b\<rparr>)"
    "observed (r\<lparr>op_strip_one_space := b\<rparr>) = observed (s\<lparr>op_strip_one_space := b\<rparr>)"
    "observed (r\<lparr>op_json_call_window := b\<rparr>) = observed (s\<lparr>op_json_call_window := b\<rparr>)"
    "observed (r\<lparr>or_calls := n\<rparr>) = observed (s\<lparr>or_calls := n\<rparr>)"
  using assms by (cases r; cases s; simp add: observed_def out_items_def)+

lemma obs_push:
  assumes "observed r = observed s" "items_of x = items_of y"
  shows "observed (r\<lparr>or_out := or_out r @ [x]\<rparr>) = observed (s\<lparr>or_out := or_out s @ [y]\<rparr>)"
  using assms by (auto simp: observed_def out_items_def)

lemma obs_emit_text_block [obs_cong]:
  "observed r = observed s \<Longrightarrow> observed (emit_text_block t r) = observed (emit_text_block t s)"
  by (auto simp: emit_text_block_def intro: obs_push)

lemma obs_trim_prefix:
  assumes "observed r = observed s"
  shows "fst (trim_prefix t r) = fst (trim_prefix t s)"
    "observed (snd (trim_prefix t r)) = observed (snd (trim_prefix t s))"
  using assms observed_fields [OF assms] by (auto simp: trim_prefix_def Let_def intro!: obs_cong)

lemma obs_emit_thinking [obs_cong]:
  assumes "observed r = observed s"
  shows "observed (emit_thinking t r) = observed (emit_thinking t s)"
  using obs_trim_prefix [OF assms, of t]
  by (cases "trim_prefix t r"; cases "trim_prefix t s") (auto simp: emit_thinking_def intro!: obs_push split: option.splits)

lemma obs_push_calls [obs_cong]:
  "observed r = observed s \<Longrightarrow> observed (push_calls ev calls r) = observed (push_calls ev calls s)"
proof (induction calls arbitrary: r s)
  case (Cons c calls)
  obtain name args where c: "c = (name, args)" by (cases c)
  have "observed (r\<lparr>or_out := or_out r @ [x], or_calls := or_calls r + 1\<rparr>) =
      observed (s\<lparr>or_out := or_out s @ [x], or_calls := or_calls r + 1\<rparr>)" for x
    by (rule obs_update(7), rule obs_push [OF Cons.prems refl])
  then show ?case unfolding c push_calls.simps observed_fields(11) [OF Cons.prems] by (rule Cons.IH)
qed simp

lemma obs_complete_json [obs_cong]:
  "observed r = observed s \<Longrightarrow> observed (complete_json ev t r) = observed (complete_json ev t s)"
  by (auto simp: complete_json_def intro: obs_cong split: sum.split)

lemma obs_emit_content [obs_cong]:
  "observed r = observed s \<Longrightarrow> observed (emit_content ev t r) = observed (emit_content ev t s)"
proof (induction "length t" arbitrary: t r s rule: less_induct)
  case less
  obtain o1 r1 where r1: "trim_prefix t r = (o1, r1)" by (cases "trim_prefix t r")
  obtain s1 where s1: "trim_prefix t s = (o1, s1)"
    using obs_trim_prefix(1) [OF less.prems, of t] r1 by (cases "trim_prefix t s") simp
  have obs1: "observed r1 = observed s1" using obs_trim_prefix(2) [OF less.prems, of t] r1 s1 by simp
  show ?case
  proof (cases o1)
    case None
    then show ?thesis using obs1 by (simp add: emit_content.simps [of ev t] r1 s1)
  next
    case (Some t1)
    let ?t = "trim_start is_white_space t1"
    obtain c n d where adv: "capture_advance capture_new ?t = (c, n, d)" by (cases "capture_advance capture_new ?t") auto
    have w: "observed (r1\<lparr>op_json_call_window := False\<rparr>) = observed (s1\<lparr>op_json_call_window := False\<rparr>)"
      by (rule obs_update(6) [OF obs1])
    have shorter: "length (drop n ?t) < length t" if "?t \<noteq> []"
      using trim_prefix_shorter [of t r t1 r1] r1 Some capture_advance_bounds [OF adv] that
        length_dropWhile_le [of is_white_space t1] by (cases ?t) (auto simp: trim_start_def)
    have "observed (emit_content ev (drop n ?t) (complete_json ev (jc_text c) (r1\<lparr>op_json_call_window := False\<rparr>))) =
        observed (emit_content ev (drop n ?t) (complete_json ev (jc_text c) (s1\<lparr>op_json_call_window := False\<rparr>)))"
      if "?t \<noteq> []"
      using less.hyps [OF shorter [OF that]] obs_complete_json [OF w] by blast
    then show ?thesis
      using obs1 w observed_fields(10) [OF obs1]
      by (simp add: emit_content.simps [of ev t] r1 s1 Some Let_def adv
          obs_emit_text_block [OF obs1] obs_emit_text_block [OF w] obs_update(1) [OF w])
  qed
qed

lemma obs_resolve_header [obs_cong]:
  assumes "observed r = observed s"
  shows "observed (resolve_header f r) = observed (resolve_header f s)"
proof (cases "op_state s")
  case (Header h)
  have "observed (emit_thinking t (r\<lparr>op_state := Thinking\<rparr>)) = observed (emit_thinking t (s\<lparr>op_state := Thinking\<rparr>))" for t
    by (intro obs_emit_thinking obs_update(1) assms)
  then show ?thesis using assms observed_fields(3,4) [OF assms]
    by (simp add: resolve_header_def Header Let_def split: option.split)
qed (use assms observed_fields(4) [OF assms] in \<open>simp_all add: resolve_header_def\<close>)

lemma obs_finish_tool_call [obs_cong]:
  assumes "observed r = observed s"
  shows "observed (finish_tool_call ev b r) = observed (finish_tool_call ev b s)"
proof -
  have t: "observed (r\<lparr>op_trim_leading_ws := True\<rparr>) = observed (s\<lparr>op_trim_leading_ws := True\<rparr>)"
    by (rule obs_update(4) [OF assms])
  show ?thesis
    using obs_push_calls [OF t, of ev] obs_push [OF t refl] observed_fields(1) [OF assms]
    by (simp add: finish_tool_call_def Let_def split: sum.split)
qed

lemma obs_finish_python [obs_cong]:
  "observed r = observed s \<Longrightarrow> observed (finish_python ev b r) = observed (finish_python ev b s)"
  by (simp add: finish_python_def obs_push_calls [of r s])

lemma obs_route [obs_cong]:
  assumes "observed r = observed s"
  shows "observed (route ev t r) = observed (route ev t s)"
  using assms obs_emit_content [OF assms] obs_emit_thinking [OF assms] obs_update(1) [OF assms]
    obs_resolve_header [OF obs_update(1) [OF assms]] observed_fields(4) [OF assms]
  by (simp add: route_def split: out_state.split)

lemma obs_apply_action [obs_cong]:
  assumes "observed r = observed s"
  shows "observed (apply_action ev a r) = observed (apply_action ev a s)"
proof -
  let ?f = "\<lambda>r :: 'a output_run. case op_state r of
    JsonCall c \<Rightarrow> emit_text_block (jc_text c) (r\<lparr>op_state := Content\<rparr>) | _ \<Rightarrow> r"
  have o: "observed (?f r) = observed (?f s)"
    using assms observed_fields(4) [OF assms] obs_emit_text_block [OF obs_update(1) [OF assms]]
    by (simp split: out_state.split)
  note fields = observed_fields [OF o]
  have "observed ((?f r)\<lparr>op_trim_leading_ws := True, op_state := x\<rparr>) =
      observed ((?f s)\<lparr>op_trim_leading_ws := True, op_state := x\<rparr>)" for x
    by (intro obs_update o)
  moreover have "observed ((resolve_header True (?f r))\<lparr>op_state := Content, op_trim_leading_ws := True, op_json_call_window := b\<rparr>) =
      observed ((resolve_header True (?f s))\<lparr>op_state := Content, op_trim_leading_ws := True, op_json_call_window := b\<rparr>)" for b
    by (intro obs_update obs_resolve_header o)
  moreover have "observed ((resolve_header True (?f r))\<lparr>op_state := x\<rparr>) = observed ((resolve_header True (?f s))\<lparr>op_state := x\<rparr>)" for x
    by (intro obs_update obs_resolve_header o)
  ultimately show ?thesis
    using o obs_finish_tool_call [OF obs_update(1) [OF o]] obs_update(1) [OF o] fields
    unfolding apply_action_def Let_def by (cases a) (simp_all split: out_state.split)
qed


section \<open>Markers\<close>

definition occurs :: "utext \<Rightarrow> utext \<Rightarrow> nat \<Rightarrow> bool" where
  "occurs t h k \<longleftrightarrow> k + length t \<le> length h \<and> take (length t) (drop k h) = t"

text \<open>No marker of a table is empty or occurs in another.\<close>

definition good_markers :: "marker list \<Rightarrow> bool" where
  "good_markers ms \<longleftrightarrow>
     (\<forall>m \<in> set ms. mk_text m \<noteq> []) \<and>
     (\<forall>m \<in> set ms. \<forall>m' \<in> set ms. contains (mk_text m') (mk_text m) \<longrightarrow> m = m')"

lemma find_sub_occurs: "find_sub t h = Some k \<longleftrightarrow> occurs t h k \<and> (\<forall>j < k. \<not> occurs t h j)"
proof -
  have "take (length t) (drop j h) = t \<and> j \<le> length h \<longleftrightarrow> occurs t h j" for j
    by (auto simp: occurs_def) (metis diff_diff_cancel diff_le_self length_drop length_take min.cobounded2 min_def add.commute le_diff_conv2 nat_le_linear)
  then show ?thesis unfolding find_sub_Some by (metis less_le_not_le order.trans)
qed

lemma find_sub_no_occurs: "find_sub t h = None \<longleftrightarrow> (\<forall>k. \<not> occurs t h k)"
proof
  assume none: "find_sub t h = None"
  show "\<forall>k. \<not> occurs t h k" using none by (auto simp: occurs_def find_sub_None)
next
  assume "\<forall>k. \<not> occurs t h k"
  then show "find_sub t h = None" using find_sub_occurs [of t h] by (cases "find_sub t h") auto
qed

lemma occurs_at_both:
  assumes "occurs t h k" "occurs u h k" "length t \<le> length u"
  shows "contains u t"
proof -
  have "take (length t) u = t" using assms by (metis min.absorb1 occurs_def take_take)
  then have "u = [] @ t @ drop (length t) u" by (metis append_Nil append_take_drop_id)
  then show ?thesis unfolding contains_part part_of_def by blast
qed

lemma earliest_None: "earliest_marker h ms = None \<longleftrightarrow> (\<forall>m \<in> set ms. \<forall>k. \<not> occurs (mk_text m) h k)"
proof -
  have "earliest_marker h ms = None \<longleftrightarrow> List.map_filter (\<lambda>m. map_option (\<lambda>pos. (pos, m)) (find_sub (mk_text m) h)) ms = []"
    by (simp add: earliest_marker_def)
  also have "\<dots> \<longleftrightarrow> (\<forall>m \<in> set ms. find_sub (mk_text m) h = None)"
    by (auto simp: List.map_filter_def filter_empty_conv)
  finally show ?thesis by (simp add: find_sub_no_occurs)
qed

lemma earliest_Some_D:
  assumes "earliest_marker h ms = Some (pos, len, act)"
  obtains m where "m \<in> set ms" "len = length (mk_text m)" "act = mk_action m" "occurs (mk_text m) h pos"
    "\<forall>m' \<in> set ms. \<forall>k < pos. \<not> occurs (mk_text m') h k"
proof -
  let ?found = "List.map_filter (\<lambda>m. map_option (\<lambda>pos. (pos, m)) (find_sub (mk_text m) h)) ms"
  let ?key = "\<lambda>(pos, m). (pos, - int (length (utf8_bytes (mk_text m))))"
  obtain m where m: "min_by_key ?key ?found = Some (pos, m)" "len = length (mk_text m)" "act = mk_action m"
    using assms by (auto simp: earliest_marker_def)
  have in_found: "(k, m') \<in> set ?found \<longleftrightarrow> m' \<in> set ms \<and> find_sub (mk_text m') h = Some k" for k m'
    by (force simp: List.map_filter_def image_iff)
  have m_in: "m \<in> set ms" "find_sub (mk_text m) h = Some pos"
    using min_by_key_in [OF m(1)] in_found by auto
  have "\<not> occurs (mk_text m') h k" if m': "m' \<in> set ms" "k < pos" for m' k
  proof
    assume "occurs (mk_text m') h k"
    then obtain j where j: "find_sub (mk_text m') h = Some j" "j \<le> k"
      using find_sub_no_occurs find_sub_occurs by (metis not_None_eq not_le)
    then have "?key (pos, m) \<le> ?key (j, m')" using in_found m'(1) by (intro min_by_key_le [OF m(1)]) auto
    then have "pos \<le> j" by (auto simp: less_eq_prod_def)
    then show False using j(2) m'(2) by simp
  qed
  then show ?thesis using that m_in m(2,3) find_sub_occurs by blast
qed

lemma earliest_SomeI:
  assumes good: "good_markers ms" and m: "m \<in> set ms" "occurs (mk_text m) h pos"
    and first: "\<forall>m' \<in> set ms. \<forall>k < pos. \<not> occurs (mk_text m') h k"
  shows "earliest_marker h ms = Some (pos, length (mk_text m), mk_action m)"
proof -
  obtain pos' len act where e: "earliest_marker h ms = Some (pos', len, act)"
    using m earliest_None by (metis prod_cases3 not_None_eq)
  from e obtain m' where m': "m' \<in> set ms" "len = length (mk_text m')" "act = mk_action m'" "occurs (mk_text m') h pos'"
    "\<forall>m \<in> set ms. \<forall>k < pos'. \<not> occurs (mk_text m) h k" by (rule earliest_Some_D)
  have "pos' = pos" using m m' first by (metis linorder_neqE_nat)
  moreover have "m' = m"
    using occurs_at_both m m' good calculation unfolding good_markers_def by (metis nat_le_linear)
  ultimately show ?thesis using e m' by simp
qed


text \<open>What is kept: the longest end of the buffer that a marker could still grow from.\<close>

definition could_grow :: "marker list \<Rightarrow> utext \<Rightarrow> nat \<Rightarrow> bool" where
  "could_grow ms h k \<longleftrightarrow> (\<exists>m \<in> set ms. k < length (mk_text m) \<and> k \<le> length h \<and> drop (length h - k) h = take k (mk_text m))"

lemma ends_with_take:
  "k < length t \<Longrightarrow> ends_with h (take k t) \<longleftrightarrow> k \<le> length h \<and> drop (length h - k) h = take k t"
  by (simp add: ends_with_def min_def)

lemma nth_rev_upt: "x < b - a \<Longrightarrow> rev [a..<b] ! x = b - 1 - x"
  by (simp add: rev_nth)

lemma grow_partial_spec:
  assumes "mk_text m \<noteq> []"
  shows "grow_partial h best m = best \<or> could_grow [m] h (grow_partial h best m)" (is ?A)
    and "best \<le> grow_partial h best m" (is ?B)
    and "could_grow [m] h k \<Longrightarrow> k \<le> grow_partial h best m" (is "_ \<Longrightarrow> ?C")
proof -
  let ?longest = "min (length (mk_text m) - 1) (length h)"
  let ?ks = "rev [best + 1..<?longest + 1]"
  let ?P = "\<lambda>k. ends_with h (take k (mk_text m))"
  have less: "k < length (mk_text m)" if "k \<le> ?longest" for k using that assms by (cases "mk_text m") auto
  have grow: "could_grow [m] h k \<longleftrightarrow> k \<le> ?longest \<and> ?P k" for k
    using less [of k] ends_with_take [of k "mk_text m" h] assms
    by (auto simp: could_grow_def min_def split: if_splits)
  have ks: "k \<in> set ?ks \<longleftrightarrow> best < k \<and> k \<le> ?longest" for k by (simp only: set_rev set_upt) auto
  show ?A ?B "could_grow [m] h k \<Longrightarrow> ?C"
  proof -
    have *: "(grow_partial h best m = best \<or> could_grow [m] h (grow_partial h best m)) \<and> best \<le> grow_partial h best m \<and>
        (\<forall>k. could_grow [m] h k \<longrightarrow> k \<le> grow_partial h best m)"
    proof (cases "List.find ?P ?ks")
      case None
      have "\<not> ?P k" if "best < k" "k \<le> ?longest" for k using None ks that unfolding find_None_iff by blast
      then have "\<forall>k. could_grow [m] h k \<longrightarrow> k \<le> best" unfolding grow by (metis not_le)
      then show ?thesis using None by (simp add: grow_partial_def Let_def)
    next
      case (Some k0)
      then obtain i where i: "i < length ?ks" "?ks ! i = k0" "?P k0" "\<forall>j < i. \<not> ?P (?ks ! j)"
        by (auto simp: find_Some_iff)
      have k0: "best < k0" "k0 \<le> ?longest" using nth_mem [OF i(1)] unfolding i(2) ks by blast+
      have "k \<le> k0" if "could_grow [m] h k" for k
      proof (rule ccontr)
        assume "\<not> k \<le> k0"
        then have "k \<in> set ?ks" using that k0 unfolding grow ks by linarith
        then obtain j where j: "j < length ?ks" "?ks ! j = k" unfolding in_set_conv_nth by blast
        have nth: "?ks ! x = ?longest - x" if "x < length ?ks" for x
          using nth_rev_upt [of x "?longest + 1" "best + 1"] that unfolding length_rev length_upt by simp
        have "k = ?longest - j" "k0 = ?longest - i" using nth [OF j(1)] nth [OF i(1)] unfolding j(2) i(2) by blast+
        then have "j < i" using \<open>\<not> k \<le> k0\<close> by linarith
        then show False using i(4) j(2) that unfolding grow by auto
      qed
      moreover have "grow_partial h best m = k0" using Some by (simp add: grow_partial_def Let_def)
      ultimately show ?thesis using k0 i(3) by (auto simp: grow)
    qed
    show ?A ?B "could_grow [m] h k \<Longrightarrow> ?C" using * by blast+
  qed
qed

lemma partial_suffix_spec:
  assumes "\<forall>m \<in> set ms. mk_text m \<noteq> []"
  shows "partial_marker_suffix h ms = 0 \<or> could_grow ms h (partial_marker_suffix h ms)"
    and "could_grow ms h k \<Longrightarrow> k \<le> partial_marker_suffix h ms"
proof -
  have "(foldl (grow_partial h) best ms = best \<or> could_grow ms h (foldl (grow_partial h) best ms)) \<and>
      best \<le> foldl (grow_partial h) best ms \<and> (\<forall>k. could_grow ms h k \<longrightarrow> k \<le> foldl (grow_partial h) best ms)" for best
    using assms
  proof (induction ms arbitrary: best)
    case (Cons m ms)
    note step = grow_partial_spec [where m = m and h = h and best = best] and IH = Cons.IH [of "grow_partial h best m"]
    show ?case using step IH Cons.prems unfolding could_grow_def by (auto; fastforce)
  qed (simp add: could_grow_def)
  from this [of 0] show "partial_marker_suffix h ms = 0 \<or> could_grow ms h (partial_marker_suffix h ms)"
    "could_grow ms h k \<Longrightarrow> k \<le> partial_marker_suffix h ms"
    by (auto simp: partial_marker_suffix_def)
qed

lemma partial_suffix_le: "\<forall>m \<in> set ms. mk_text m \<noteq> [] \<Longrightarrow> partial_marker_suffix h ms \<le> length h"
  using partial_suffix_spec(1) [of ms h] by (auto simp: could_grow_def)


lemma occurs_append: "k + length t \<le> length h \<Longrightarrow> occurs t (h @ u) k \<longleftrightarrow> occurs t h k"
  by (auto simp: occurs_def)

lemma occurs_shift: "occurs t (r @ w) (length r + j) \<longleftrightarrow> occurs t w j"
  by (simp add: occurs_def)

lemma good_nonempty: "good_markers ms \<Longrightarrow> \<forall>m \<in> set ms. mk_text m \<noteq> []"
  by (simp add: good_markers_def)

text \<open>A marker found in the buffer is found whatever follows.\<close>

lemma earliest_append:
  assumes good: "good_markers ms" and e: "earliest_marker h ms = Some (pos, len, act)"
  shows "earliest_marker (h @ u) ms = Some (pos, len, act)" "0 < len" "pos + len \<le> length h"
proof -
  from e obtain m where m: "m \<in> set ms" "len = length (mk_text m)" "act = mk_action m" "occurs (mk_text m) h pos"
    "\<forall>m' \<in> set ms. \<forall>k < pos. \<not> occurs (mk_text m') h k" by (rule earliest_Some_D)
  show "0 < len" using good_nonempty [OF good] m by simp
  show fits: "pos + len \<le> length h" using m by (simp add: occurs_def)
  have "\<not> occurs (mk_text m') (h @ u) k" if m': "m' \<in> set ms" "k < pos" for m' k
  proof
    assume o: "occurs (mk_text m') (h @ u) k"
    have beyond: "length h < k + length (mk_text m')"
      using m(5) m' o occurs_append [of k "mk_text m'" h u] by fastforce
    let ?t = "mk_text m'"
    have "take (length ?t) (drop k (h @ u)) = ?t" using o by (simp add: occurs_def)
    moreover have "take len (drop pos (h @ u)) = mk_text m" using m fits by (simp add: occurs_def)
    moreover have "take len (drop (pos - k) (take (length ?t) (drop k (h @ u)))) = take len (drop pos (h @ u))"
    proof -
      have "drop (pos - k) (drop k (h @ u)) = drop pos (h @ u)" unfolding drop_drop using m'(2) by simp
      moreover have "len \<le> length ?t - (pos - k)" using beyond fits m'(2) by linarith
      ultimately show ?thesis by (simp only: drop_take take_take min_absorb1)
    qed
    ultimately have "take len (drop (pos - k) ?t) = mk_text m" by simp
    then have "?t = take (pos - k) ?t @ mk_text m @ drop len (drop (pos - k) ?t)" by (metis append_take_drop_id)
    then have "contains ?t (mk_text m)" unfolding contains_part part_of_def by blast
    then have "m = m'" using good m(1) m'(1) by (simp add: good_markers_def)
    then show False using beyond fits m(2) m'(2) by simp
  qed
  then show "earliest_marker (h @ u) ms = Some (pos, len, act)"
    unfolding m(2,3) using m occurs_append [of pos "mk_text m" h u] fits
    by (intro earliest_SomeI [OF good]) auto
qed

text \<open>What is let go can be part of no marker, whatever follows.\<close>

lemma released_part:
  assumes good: "good_markers ms" and none: "earliest_marker h ms = None"
    and k: "k = length h - partial_marker_suffix h ms"
  shows "earliest_marker (h @ u) ms =
      map_option (\<lambda>(p, l, a). (k + p, l, a)) (earliest_marker (drop k h @ u) ms)"
    and "earliest_marker (h @ u) ms = None \<Longrightarrow>
      partial_marker_suffix (h @ u) ms = partial_marker_suffix (drop k h @ u) ms"
proof -
  note ne = good_nonempty [OF good]
  have kl: "k \<le> length h" using k by simp
  have split: "h @ u = take k h @ (drop k h @ u)" "length (take k h) = k" using kl by simp_all
  have shift: "occurs t (h @ u) (k + j) \<longleftrightarrow> occurs t (drop k h @ u) j" for t j
    using occurs_shift [of t "take k h" "drop k h @ u" j] unfolding split(2) split(1) [symmetric] .
  have held: "length h - j \<le> partial_marker_suffix h ms"
    if m: "m \<in> set ms" "j < length h" "length h - j < length (mk_text m)" "drop j h = take (length h - j) (mk_text m)" for m j
    using m by (intro partial_suffix_spec(2) [OF ne]) (auto simp: could_grow_def intro!: bexI [of _ m])
  have start: "\<not> occurs (mk_text m) (h @ u) j" if m: "m \<in> set ms" "j < k" for m j
  proof
    assume o: "occurs (mk_text m) (h @ u) j"
    have beyond: "length h < j + length (mk_text m)"
      using none m(1) o occurs_append [of j "mk_text m" h u] unfolding earliest_None by fastforce
    have "take (length h - j) (take (length (mk_text m)) (drop j (h @ u))) = drop j h"
      using beyond m(2) kl by (simp add: min_def)
    moreover have "take (length (mk_text m)) (drop j (h @ u)) = mk_text m" using o by (simp add: occurs_def)
    ultimately have "drop j h = take (length h - j) (mk_text m)" by metis
    then have "length h - j \<le> partial_marker_suffix h ms" using held [OF m(1), of j] beyond m(2) kl by linarith
    then show False using m(2) kl k by linarith
  qed
  show first: "earliest_marker (h @ u) ms = map_option (\<lambda>(p, l, a). (k + p, l, a)) (earliest_marker (drop k h @ u) ms)"
  proof (cases "earliest_marker (drop k h @ u) ms")
    case None
    have "\<not> occurs (mk_text m) (h @ u) j" if m: "m \<in> set ms" for m j
    proof (cases "j < k")
      case False
      then show ?thesis using None m shift [of "mk_text m" "j - k"] unfolding earliest_None by simp
    qed (use start m in blast)
    then have "earliest_marker (h @ u) ms = None" by (simp add: earliest_None)
    then show ?thesis using None by simp
  next
    case (Some x)
    then obtain p l a where x: "earliest_marker (drop k h @ u) ms = Some (p, l, a)" by (cases x) auto
    then obtain m where m: "m \<in> set ms" "l = length (mk_text m)" "a = mk_action m" "occurs (mk_text m) (drop k h @ u) p"
      "\<forall>m' \<in> set ms. \<forall>j < p. \<not> occurs (mk_text m') (drop k h @ u) j" by (rule earliest_Some_D)
    have "\<not> occurs (mk_text m') (h @ u) j" if m': "m' \<in> set ms" "j < k + p" for m' j
      using start [OF m'(1)] m' m(5) shift [of "mk_text m'" "j - k"] by (cases "j < k") auto
    then show ?thesis using earliest_SomeI [OF good m(1), of "h @ u" "k + p"] m shift x by simp
  qed
  show "partial_marker_suffix (h @ u) ms = partial_marker_suffix (drop k h @ u) ms"
  proof (rule antisym)
    let ?w = "drop k h @ u"
    have grow: "could_grow ms (h @ u) j \<longleftrightarrow> could_grow ms ?w j" if "j \<le> length ?w" for j
    proof -
      have "drop (length (h @ u) - j) (h @ u) = drop (length ?w - j) ?w"
      proof -
        have "length (h @ u) - j = k + (length ?w - j)" using that kl by simp
        then show ?thesis using split by (metis drop_drop add.commute append_eq_conv_conj)
      qed
      then show ?thesis using that kl by (auto simp: could_grow_def)
    qed
    have "j \<le> length ?w" if g: "could_grow ms (h @ u) j" for j
    proof (rule ccontr)
      assume long: "\<not> j \<le> length ?w"
      obtain m where m: "m \<in> set ms" "j < length (mk_text m)" "j \<le> length (h @ u)"
        "drop (length (h @ u) - j) (h @ u) = take j (mk_text m)" using g by (auto simp: could_grow_def)
      let ?i = "length (h @ u) - j"
      have i: "?i < k" using long m(3) kl by simp
      have "take (length h - ?i) (drop ?i (h @ u)) = drop ?i h" using i kl by simp
      moreover have "length h - ?i \<le> j" using m(3) unfolding length_append by linarith
      ultimately have "drop ?i h = take (length h - ?i) (mk_text m)" using m(4) by (metis min.absorb1 take_take)
      moreover have "length h - ?i < length (mk_text m)" using m(2,3) by simp
      ultimately have "length h - ?i \<le> partial_marker_suffix h ms" using held [OF m(1), of ?i] i kl by linarith
      then show False using i kl k by linarith
    qed
    then show "partial_marker_suffix (h @ u) ms \<le> partial_marker_suffix ?w ms"
      using partial_suffix_spec(1) [OF ne, of "h @ u"] partial_suffix_spec(2) [OF ne, of ?w] grow by (metis le0)
    show "partial_marker_suffix ?w ms \<le> partial_marker_suffix (h @ u) ms"
      using partial_suffix_spec(1) [OF ne, of ?w] partial_suffix_spec(2) [OF ne, of "h @ u"] grow
        partial_suffix_le [OF ne, of ?w] by (metis le0)
  qed
qed


section \<open>Routing a text in pieces\<close>

text \<open>A run whose format does not read bare JSON; none of its states is a JSON candidate.\<close>

definition tagged :: "'n output_run \<Rightarrow> bool" where
  "tagged r \<longleftrightarrow> \<not> in_json r \<and> \<not> op_json_call_window r \<and> \<not> is_llama (cf_tools (op_format r))"

definition same_setup :: "'n output_run \<Rightarrow> 'n output_run \<Rightarrow> bool" where
  "same_setup r s \<longleftrightarrow> op_format s = op_format r \<and> op_markers s = op_markers r \<and> op_header_word s = op_header_word r"

lemma same_setup_trans: "same_setup r s \<Longrightarrow> same_setup s t \<Longrightarrow> same_setup r t"
  by (simp add: same_setup_def)

lemma trim_prefix_setup:
  assumes "trim_prefix t r = (o1, s)"
  shows "op_state s = op_state r" "op_json_call_window s = op_json_call_window r" "same_setup r s"
  using assms by (auto simp: trim_prefix_def Let_def same_setup_def split: if_splits)

lemma emit_thinking_setup:
  "op_state (emit_thinking t r) = op_state r \<and> op_json_call_window (emit_thinking t r) = op_json_call_window r \<and>
   same_setup r (emit_thinking t r)"
proof -
  obtain o1 s where s: "trim_prefix t r = (o1, s)" by (cases "trim_prefix t r")
  show ?thesis using trim_prefix_setup [OF s] by (cases o1) (simp_all add: emit_thinking_def s same_setup_def)
qed

lemma push_calls_setup:
  "op_state (push_calls ev calls r) = op_state r \<and> op_json_call_window (push_calls ev calls r) = op_json_call_window r \<and>
   same_setup r (push_calls ev calls r)"
  by (induction ev calls r rule: push_calls.induct) (auto simp: same_setup_def)

lemma emit_content_plain:
  "\<not> op_json_call_window r \<Longrightarrow> emit_content ev t r =
     (case trim_prefix t r of (None, r) \<Rightarrow> r | (Some t, r) \<Rightarrow> emit_text_block t r)"
proof -
  assume w: "\<not> op_json_call_window r"
  obtain o1 s where s: "trim_prefix t r = (o1, s)" by (cases "trim_prefix t r")
  show ?thesis using trim_prefix_setup(2) [OF s] w by (cases o1) (simp_all add: emit_content.simps [of ev t] s)
qed

lemma emit_content_setup:
  assumes "\<not> op_json_call_window r"
  shows "op_state (emit_content ev t r) = op_state r \<and> op_json_call_window (emit_content ev t r) = op_json_call_window r \<and>
    same_setup r (emit_content ev t r)"
proof -
  obtain o1 s where s: "trim_prefix t r = (o1, s)" by (cases "trim_prefix t r")
  show ?thesis using trim_prefix_setup [OF s] assms
    by (cases o1) (simp_all add: emit_content_plain emit_text_block_def s same_setup_def)
qed

lemma resolve_header_setup:
  "(op_state (resolve_header f r) = op_state r \<or> (\<exists>h. op_state r = Header h) \<and> op_state (resolve_header f r) = Thinking) \<and>
   op_json_call_window (resolve_header f r) = op_json_call_window r \<and> same_setup r (resolve_header f r)"
  using emit_thinking_setup [of _ "r\<lparr>op_state := Thinking\<rparr>"]
  by (auto simp: resolve_header_def Let_def same_setup_def split: out_state.splits option.splits)

lemma route_setup:
  assumes "tagged r"
  shows "tagged (route ev t r)" "same_setup r (route ev t r)" "active_markers (route ev t r) = active_markers r"
proof -
  have "tagged (route ev t r) \<and> same_setup r (route ev t r) \<and> active_markers (route ev t r) = active_markers r"
  proof (cases "op_state r")
    case (Header h)
    let ?s = "resolve_header False (r\<lparr>op_state := Header (h @ t)\<rparr>)"
    have s: "op_state ?s = Header (h @ t) \<or> op_state ?s = Thinking" "op_json_call_window ?s = op_json_call_window r"
      "same_setup r ?s"
      using resolve_header_setup [of False "r\<lparr>op_state := Header (h @ t)\<rparr>"] by (auto simp: same_setup_def)
    then have "tagged ?s \<and> same_setup r ?s \<and> active_markers ?s = active_markers r"
      using assms Header by (auto simp: tagged_def in_json_def same_setup_def active_markers_def)
    then show ?thesis using assms Header by (auto simp: route_def same_setup_def)
  qed (use assms emit_content_setup [of r ev t] emit_thinking_setup [of t r] in
      \<open>auto simp: route_def tagged_def in_json_def same_setup_def active_markers_def\<close>)
  then show "tagged (route ev t r)" "same_setup r (route ev t r)" "active_markers (route ev t r) = active_markers r"
    by blast+
qed

lemma apply_action_setup:
  assumes "tagged r"
  shows "tagged (apply_action ev a r)" "same_setup r (apply_action ev a r)"
proof -
  have f: "finish_tool_call ev b s = s' \<Longrightarrow> op_state s' = op_state s \<and> op_json_call_window s' = op_json_call_window s \<and> same_setup s s'"
    for b s s'
    using push_calls_setup [of ev _ "s\<lparr>op_trim_leading_ws := True\<rparr>"]
    by (auto simp: finish_tool_call_def same_setup_def Let_def split: sum.splits)
  have "(case op_state r of JsonCall c \<Rightarrow> emit_text_block (jc_text c) (r\<lparr>op_state := Content\<rparr>) | _ \<Rightarrow> r) = r"
    using assms by (auto simp: tagged_def in_json_def split: out_state.split)
  then show "tagged (apply_action ev a r)" "same_setup r (apply_action ev a r)"
    using assms resolve_header_setup [of True r] f [of _ "r\<lparr>op_state := Content\<rparr>", OF refl]
    unfolding apply_action_def Let_def
    by (cases a; auto simp: tagged_def in_json_def same_setup_def split: out_state.splits)+
qed


text \<open>Text and reasoning are emitted alike: trimmed, and as one block if anything is left.\<close>

definition emit_with ::
  "(utext \<Rightarrow> cuca_error + 'n json content_block) \<Rightarrow> utext \<Rightarrow> 'n output_run \<Rightarrow> 'n output_run" where
  "emit_with f t r =
     (case trim_prefix t r of (None, r) \<Rightarrow> r | (Some t, r) \<Rightarrow> r\<lparr>or_out := or_out r @ [f t]\<rparr>)"

lemma trim_prefix_nonempty: "trim_prefix t r = (Some t', s) \<Longrightarrow> t' \<noteq> []"
  by (auto simp: trim_prefix_def Let_def split: if_splits)

lemma emit_thinking_with: "emit_thinking t r = emit_with (\<lambda>t. Inr (ThinkingBlock t None)) t r"
  by (simp add: emit_thinking_def emit_with_def split: prod.split option.split)

lemma emit_content_with:
  assumes "\<not> op_json_call_window r"
  shows "emit_content ev t r = emit_with (\<lambda>t. Inr (TextBlock t)) t r"
proof -
  obtain o1 s where s: "trim_prefix t r = (o1, s)" by (cases "trim_prefix t r")
  show ?thesis using trim_prefix_nonempty [of t r _ s] s
    by (cases o1) (simp_all add: emit_content_plain [OF assms] emit_with_def emit_text_block_def)
qed

lemma dropWhile_append_all: "dropWhile p (a @ b) = (if dropWhile p a = [] then dropWhile p b else dropWhile p a @ b)"
  by (induction a) auto

lemma emit_with_strip:
  assumes "t \<noteq> []"
  shows "emit_with f t r = emit_with f (if op_strip_one_space r \<and> hd t = 32 then tl t else t) (r\<lparr>op_strip_one_space := False\<rparr>)"
  using assms by (simp add: emit_with_def trim_prefix_def trim_start_def Let_def)

lemma emit_with_plain:
  assumes "\<not> op_strip_one_space s"
  shows "emit_with f t s =
      (if t = [] then s
       else if op_trim_leading_ws s then
         (let u = dropWhile is_white_space t in
          if u = [] then s else s\<lparr>op_trim_leading_ws := False, or_out := or_out s @ [f u]\<rparr>)
       else s\<lparr>or_out := or_out s @ [f t]\<rparr>)"
proof -
  have "s\<lparr>op_strip_one_space := False\<rparr> = s" using assms by (cases s) simp
  then show ?thesis using assms by (simp add: emit_with_def trim_prefix_def trim_start_def Let_def)
qed

lemma emit_with_append:
  assumes ab: "a \<noteq> []" "b \<noteq> []" and f: "\<And>x y. items_of (f (x @ y)) = items_of (f x) @ items_of (f y)"
  shows "observed (emit_with f b (emit_with f a r)) = observed (emit_with f (a @ b) r)"
proof -
  let ?a = "if op_strip_one_space r \<and> hd a = 32 then tl a else a"
  let ?r = "r\<lparr>op_strip_one_space := False\<rparr>"
  have whole: "emit_with f (a @ b) r = emit_with f (?a @ b) ?r"
    using emit_with_strip [of "a @ b" f r] ab(1) by (auto simp: hd_append)
  have first: "emit_with f a r = emit_with f ?a ?r" by (rule emit_with_strip [OF ab(1)])
  have "observed (emit_with f b (emit_with f ?a ?r)) = observed (emit_with f (?a @ b) ?r)"
    using ab(2)
    by (cases "op_trim_leading_ws r"; cases "?a = []"; cases "dropWhile is_white_space ?a = []")
      (simp_all add: emit_with_plain Let_def dropWhile_append_all observed_def out_items_def f del: dropWhile_eq_Nil_conv)
  then show ?thesis by (simp only: whole first)
qed

lemma items_text: "items_of (Inr (TextBlock (x @ y))) = items_of (Inr (TextBlock x)) @ items_of (Inr (TextBlock y))"
  "items_of (Inr (ThinkingBlock (x @ y) None)) = items_of (Inr (ThinkingBlock x None)) @ items_of (Inr (ThinkingBlock y None))"
  by simp_all

lemma emit_thinking_Nil [simp]: "emit_thinking [] s = s"
  by (simp add: emit_thinking_def trim_prefix_def)

lemma emit_thinking_append:
  "observed (emit_thinking b (emit_thinking a r)) = observed (emit_thinking (a @ b) r)"
proof (cases "a = [] \<or> b = []")
  case True
  then show ?thesis by auto
next
  case False
  then show ?thesis unfolding emit_thinking_with
    using emit_with_append [of a b "\<lambda>t. Inr (ThinkingBlock t None)" r] by simp
qed


lemma strip_prefix_eq: "strip_prefix p s = Some t \<longleftrightarrow> s = p @ t"
  by (auto simp: strip_prefix_def) (metis append_take_drop_id)

lemma resolve_header_append:
  fixes r :: "'n output_run" and a b h :: utext
  assumes st: "op_state r = Header h" and b: "b \<noteq> []"
  defines "s \<equiv> resolve_header False (r\<lparr>op_state := Header (h @ a)\<rparr>)"
  shows "observed (route ev b s) = observed (resolve_header False (r\<lparr>op_state := Header (h @ a @ b)\<rparr>))"
proof -
  let ?w = "op_header_word r" and ?r = "r\<lparr>op_state := Thinking\<rparr>"
  let ?ws = "\<lambda>c :: nat. c \<in> {32, 9, 10}"
  have think: "observed (route ev b (emit_thinking x ?r)) = observed (emit_thinking (x @ b) ?r)" for x
    using emit_thinking_append [of b x ?r] b emit_thinking_setup [of x ?r] by (simp add: route_def)
  have wait: "route ev b (r\<lparr>op_state := Header (h @ a)\<rparr>) = resolve_header False (r\<lparr>op_state := Header (h @ a @ b)\<rparr>)"
    using b by (simp add: route_def)
  show ?thesis
  proof (cases "strip_prefix ?w (h @ a)")
    case (Some rest)
    then have eq: "h @ a = ?w @ rest" by (simp add: strip_prefix_eq)
    then have "h @ a @ b = ?w @ rest @ b" by simp
    then have more: "strip_prefix ?w (h @ a @ b) = Some (rest @ b)" by (simp add: strip_prefix_eq)
    show ?thesis
    proof (cases "trim_start ?ws rest = []")
      case True
      then have "s = r\<lparr>op_state := Header (h @ a)\<rparr>" by (simp add: s_def resolve_header_def Some)
      then show ?thesis by (simp only: wait)
    next
      case False
      then have "trim_start ?ws (rest @ b) = trim_start ?ws rest @ b" unfolding trim_start_def
        by (simp only: dropWhile_append_all if_False)
      then have "resolve_header False (r\<lparr>op_state := Header (h @ a @ b)\<rparr>) = emit_thinking (trim_start ?ws rest @ b) ?r"
        using False by (simp add: resolve_header_def more Let_def)
      moreover have "s = emit_thinking (trim_start ?ws rest) ?r"
        using False by (simp add: s_def resolve_header_def Some Let_def)
      ultimately show ?thesis by (simp only: think)
    qed
  next
    case None
    show ?thesis
    proof (cases "take (length (h @ a)) ?w = h @ a")
      case True
      then have "s = r\<lparr>op_state := Header (h @ a)\<rparr>" using None by (simp add: s_def resolve_header_def)
      then show ?thesis by (simp only: wait)
    next
      case False
      have none: "strip_prefix ?w (h @ a @ b) = None"
      proof (rule ccontr)
        assume "strip_prefix ?w (h @ a @ b) \<noteq> None"
        then obtain t where "(h @ a) @ b = ?w @ t" by (auto simp: strip_prefix_eq)
        then obtain u where "h @ a = ?w @ u \<or> ?w = (h @ a) @ u" unfolding append_eq_append_conv2 by metis
        then consider "h @ a = ?w @ u" | "?w = (h @ a) @ u" by blast
        then show False
        proof cases
          case 1
          then show False using None strip_prefix_eq by (metis option.distinct(1))
        next
          case 2
          then show False using False by simp
        qed
      qed
      have "take (length (h @ a @ b)) ?w \<noteq> h @ a @ b"
      proof
        assume "take (length (h @ a @ b)) ?w = h @ a @ b"
        then have "take (length (h @ a)) (take (length (h @ a @ b)) ?w) = h @ a" by simp
        then show False using False by (simp add: min_def)
      qed
      then have "resolve_header False (r\<lparr>op_state := Header (h @ a @ b)\<rparr>) = emit_thinking ((h @ a) @ b) ?r"
        using none by (simp add: resolve_header_def)
      moreover have "s = emit_thinking (h @ a) ?r"
        using False None by (simp add: s_def resolve_header_def)
      ultimately show ?thesis by (simp only: think)
    qed
  qed
qed

lemma route_append:
  assumes t: "tagged r"
  shows "observed (route ev b (route ev a r)) = observed (route ev (a @ b) r)"
proof (cases "a = [] \<or> b = []")
  case True
  have "route ev [] s = s" for s by (simp add: route_def)
  then show ?thesis using True by auto
next
  case False
  then have ab: "a \<noteq> []" "b \<noteq> []" by simp_all
  have w: "\<not> op_json_call_window r" using t by (simp add: tagged_def)
  show ?thesis
  proof (cases "op_state r")
    case Content
    have "op_state (emit_content ev a r) = Content" "\<not> op_json_call_window (emit_content ev a r)"
      using emit_content_setup [OF w] Content w by auto
    then show ?thesis
      using emit_with_append [of a b "\<lambda>t. Inr (TextBlock t)" r] ab Content
      by (simp add: route_def emit_content_with w)
  next
    case (Header h)
    then show ?thesis using resolve_header_append [OF Header ab(2), of ev a] ab by (simp add: route_def [of ev a] route_def [of ev "a @ b"])
  next
    case Thinking
    then show ?thesis using ab emit_thinking_append [of b a r] emit_thinking_setup [of a r] by (simp add: route_def)
  next
    case (JsonCall c)
    then show ?thesis using t by (auto simp: tagged_def in_json_def)
  qed (use ab in \<open>simp_all add: route_def\<close>)
qed


section \<open>The hold buffer in pieces\<close>

lemma hold_swap:
  fixes r :: "'n output_run"
  shows "r\<lparr>op_hold := x, op_state := a\<rparr> = r\<lparr>op_state := a, op_hold := x\<rparr>"
    "r\<lparr>op_hold := x, op_trim_leading_ws := b\<rparr> = r\<lparr>op_trim_leading_ws := b, op_hold := x\<rparr>"
    "r\<lparr>op_hold := x, op_strip_one_space := b\<rparr> = r\<lparr>op_strip_one_space := b, op_hold := x\<rparr>"
    "r\<lparr>op_hold := x, op_json_call_window := b\<rparr> = r\<lparr>op_json_call_window := b, op_hold := x\<rparr>"
    "r\<lparr>op_hold := x, or_out := y\<rparr> = r\<lparr>or_out := y, op_hold := x\<rparr>"
    "r\<lparr>op_hold := x, or_calls := n\<rparr> = r\<lparr>or_calls := n, op_hold := x\<rparr>"
  by (cases r; simp)+

lemma emit_text_block_hold: "emit_text_block t (r\<lparr>op_hold := x\<rparr>) = (emit_text_block t r)\<lparr>op_hold := x\<rparr>"
  by (simp add: emit_text_block_def)

lemma emit_with_hold: "emit_with f t (r\<lparr>op_hold := x\<rparr>) = (emit_with f t r)\<lparr>op_hold := x\<rparr>"
  by (simp add: emit_with_def trim_prefix_def Let_def hold_swap)

lemma resolve_header_hold: "resolve_header f (r\<lparr>op_hold := x\<rparr>) = (resolve_header f r)\<lparr>op_hold := x\<rparr>"
  using emit_with_hold [where r = "r\<lparr>op_state := Thinking\<rparr>" and x = x]
  by (simp add: resolve_header_def Let_def emit_thinking_with hold_swap split: out_state.split option.split)

lemma push_calls_hold: "push_calls ev calls (r\<lparr>op_hold := x\<rparr>) = (push_calls ev calls r)\<lparr>op_hold := x\<rparr>"
proof (induction calls arbitrary: r)
  case (Cons c calls)
  obtain name args where c: "c = (name, args)" by (cases c)
  show ?case using Cons.IH by (simp add: c hold_swap)
qed simp

lemma finish_tool_call_hold:
  "finish_tool_call ev b (r\<lparr>op_hold := x\<rparr>) = (finish_tool_call ev b r)\<lparr>op_hold := x\<rparr>"
  using push_calls_hold [where r = "r\<lparr>op_trim_leading_ws := True\<rparr>" and x = x and ev = ev]
  by (simp add: finish_tool_call_def Let_def hold_swap split: sum.split)

lemma route_hold_update:
  assumes "tagged r"
  shows "route ev t (r\<lparr>op_hold := x\<rparr>) = (route ev t r)\<lparr>op_hold := x\<rparr>"
proof -
  have "\<not> op_json_call_window r" "\<not> op_json_call_window (r\<lparr>op_hold := x\<rparr>)" using assms by (auto simp: tagged_def)
  then show ?thesis
    using resolve_header_hold [where r = "r\<lparr>op_state := Header (h @ t)\<rparr>" and x = x for h]
    by (simp add: route_def emit_content_with emit_thinking_with emit_with_hold hold_swap split: out_state.split)
qed

lemma apply_action_tagged:
  assumes "tagged r"
  shows "apply_action ev act r =
    (case act of
        OpenReasoning \<Rightarrow>
          r\<lparr>op_trim_leading_ws := True,
            op_state := (if op_header_word r = [] then Thinking else Header [])\<rparr>
      | CloseReasoning \<Rightarrow>
          (resolve_header True r)\<lparr>op_state := Content, op_trim_leading_ws := True,
            op_json_call_window := is_llama (cf_tools (op_format r))\<rparr>
      | StrayClose \<Rightarrow> r
      | OpenTool \<Rightarrow> (resolve_header True r)\<lparr>op_state := ToolBody []\<rparr>
      | CloseTool \<Rightarrow>
          (case op_state r of
             ToolBody body \<Rightarrow> finish_tool_call ev body (r\<lparr>op_state := Content\<rparr>)
           | _ \<Rightarrow> r\<lparr>op_state := Content\<rparr>)
      | OpenPython \<Rightarrow> r\<lparr>op_state := PythonTag []\<rparr>)"
proof -
  have "(case op_state r of JsonCall c \<Rightarrow> emit_text_block (jc_text c) (r\<lparr>op_state := Content\<rparr>) | _ \<Rightarrow> r) = r"
    using assms by (cases "op_state r") (auto simp: tagged_def in_json_def)
  then show ?thesis unfolding apply_action_def Let_def by (simp only:)
qed

lemma tagged_hold [simp]: "tagged (r\<lparr>op_hold := x\<rparr>) = tagged r"
  by (simp add: tagged_def in_json_def)

lemma apply_action_hold:
  assumes "tagged r"
  shows "apply_action ev a (r\<lparr>op_hold := x\<rparr>) = (apply_action ev a r)\<lparr>op_hold := x\<rparr>"
  using assms finish_tool_call_hold [where r = "r\<lparr>op_state := Content\<rparr>" and x = x and ev = ev]
  by (cases a) (simp_all add: apply_action_tagged resolve_header_hold hold_swap split: out_state.split)

lemma route_hold_route:
  "0 < n \<Longrightarrow> op_hold r \<noteq> [] \<Longrightarrow> route_hold ev n r = route ev (take n (op_hold r)) (r\<lparr>op_hold := drop n (op_hold r)\<rparr>)"
  by (simp add: route_hold_def route_def Let_def split: out_state.split)

lemma obs_scan_json:
  assumes "observed r = observed s"
  shows "fst (scan_json ev c r) = fst (scan_json ev c s)"
    "observed (snd (scan_json ev c r)) = observed (snd (scan_json ev c s))"
proof -
  obtain c' n d where a: "capture_advance c (op_hold s) = (c', n, d)" by (cases "capture_advance c (op_hold s)") auto
  let ?f = "\<lambda>r :: 'a output_run. r\<lparr>op_hold := drop n (op_hold s)\<rparr>"
  have h: "op_hold r = op_hold s" by (rule observed_fields(6) [OF assms])
  have o: "observed (?f r) = observed (?f s)" by (rule obs_update(2) [OF assms])
  have "observed ((?f r)\<lparr>op_state := Content\<rparr>) = observed ((?f s)\<lparr>op_state := Content\<rparr>)" by (rule obs_update(1) [OF o])
  note completed = obs_complete_json [OF this, of ev "jc_text c'"]
  show "fst (scan_json ev c r) = fst (scan_json ev c s)"
    by (simp add: scan_json_def Let_def h a)
  show "observed (snd (scan_json ev c r)) = observed (snd (scan_json ev c s))"
    using obs_update(1) [OF o] completed by (simp add: scan_json_def Let_def h a)
qed


lemma obs_process_hold [obs_cong]:
  "observed r = observed s \<Longrightarrow> observed (process_hold ev r) = observed (process_hold ev s)"
proof (induction "length (op_hold s)" arbitrary: r s rule: less_induct)
  case less
  note fields = observed_fields [OF less.prems]
  show ?case
  proof (cases "in_json s")
    case True
    then obtain c where c: "op_state s = JsonCall c" "op_state r = JsonCall c"
      using fields(4) by (auto simp: in_json_def)
    have "fst (scan_json ev c s) \<Longrightarrow> length (op_hold (snd (scan_json ev c s))) < length (op_hold s)"
      using scan_json_shorter [of ev c s] by (cases "scan_json ev c s") auto
    then show ?thesis
      using less.hyps [OF _ obs_scan_json(2) [OF less.prems, of ev c]] obs_scan_json [OF less.prems, of ev c]
      by (simp add: process_hold_json [OF c(1)] process_hold_json [OF c(2)])
  next
    case False
    then have "\<not> in_json r" using fields(4) by (simp add: in_json_def)
    moreover have m: "active_markers r = active_markers s"
      using fields(2,4) by (cases "op_state s") (simp_all add: active_markers_def)
    moreover have "observed (route_hold ev n r) = observed (route_hold ev n s)" for n
      using obs_update(1) [OF obs_update(2) [OF less.prems]] obs_route [OF obs_update(2) [OF less.prems]] fields(4,6)
      by (simp add: route_hold_def Let_def split: out_state.split)
    moreover have "observed (process_hold ev (apply_action ev a (route ev t (r\<lparr>op_hold := drop (p + l) (op_hold s)\<rparr>)))) =
        observed (process_hold ev (apply_action ev a (route ev t (s\<lparr>op_hold := drop (p + l) (op_hold s)\<rparr>))))"
      if "0 < l" "\<not> length (op_hold s) < p + l" for a t p l
      using that by (intro less.hyps obs_apply_action obs_route obs_update(2) less.prems) simp
    ultimately show ?thesis using False less.prems fields(6)
      by (simp add: process_hold_other Let_def split: option.split)
  qed
qed

definition good_table :: "marker_table \<Rightarrow> bool" where
  "good_table t \<longleftrightarrow> good_markers (mt_content t) \<and> good_markers (mt_thinking t) \<and> good_markers (mt_tool t)"

lemma good_active: "good_table (op_markers r) \<Longrightarrow> good_markers (active_markers r)"
  by (simp add: good_table_def active_markers_def good_markers_def split: out_state.split)

lemma process_hold_quiet:
  assumes "\<not> in_json r" "earliest_marker (op_hold r) (active_markers r) = None"
    and n: "n = length (op_hold r) - partial_marker_suffix (op_hold r) (active_markers r)"
  shows "process_hold ev r = route ev (take n (op_hold r)) (r\<lparr>op_hold := drop n (op_hold r)\<rparr>)"
proof (cases "n = 0")
  case True
  have "r\<lparr>op_hold := op_hold r\<rparr> = r" by (cases r) simp
  then show ?thesis using True assms by (simp add: process_hold_other route_def)
next
  case False
  then have "op_hold r \<noteq> []" using n by auto
  then show ?thesis using False route_hold_route [of n r ev] assms(1,2)
    by (simp add: process_hold_other n [symmetric] Let_def)
qed

lemma process_hold_split:
  assumes "tagged r" "good_table (op_markers r)"
  shows "observed (process_hold ev (r\<lparr>op_hold := op_hold r @ u\<rparr>)) =
    observed (process_hold ev ((process_hold ev r)\<lparr>op_hold := op_hold (process_hold ev r) @ u\<rparr>))"
  using assms
proof (induction "length (op_hold r)" arbitrary: r rule: less_induct)
  case less
  let ?h = "op_hold r" and ?ms = "active_markers r"
  note good = good_active [OF less.prems(2)]
  have nj: "\<not> in_json r" "\<And>x. \<not> in_json (r\<lparr>op_hold := x\<rparr>)" using less.prems(1) by (auto simp: tagged_def in_json_def)
  have act: "\<And>x. active_markers (r\<lparr>op_hold := x\<rparr>) = ?ms" by (cases "op_state r") (simp_all add: active_markers_def)
  show ?case
  proof (cases "earliest_marker ?h ?ms")
    case (Some e)
    then obtain pos len a where e: "earliest_marker ?h ?ms = Some (pos, len, a)" by (cases e) auto
    note more = earliest_append [OF good e]
    define d where "d = drop (pos + len) ?h"
    define r1 where "r1 = apply_action ev a (route ev (take pos ?h) (r\<lparr>op_hold := d\<rparr>))"
    have t1: "tagged (r\<lparr>op_hold := d\<rparr>)" using less.prems(1) by simp
    note t2 = route_setup [OF t1, of ev "take pos ?h"]
    note t3 = apply_action_setup [OF t2(1), of ev a]
    have r1: "op_hold r1 = d" "tagged r1" "good_table (op_markers r1)"
      using t2 t3 less.prems(2) by (simp_all add: r1_def same_setup_def)
    have once: "process_hold ev r = process_hold ev r1"
      using more(2,3) by (simp add: process_hold_other [OF nj(1)] e r1_def d_def)
    have "r1\<lparr>op_hold := d @ u\<rparr> = apply_action ev a (route ev (take pos ?h) (r\<lparr>op_hold := d @ u\<rparr>))"
      using route_hold_update [OF t1, of ev "take pos ?h" "d @ u"] apply_action_hold [OF t2(1), of ev a "d @ u"]
      by (simp add: r1_def)
    then have "process_hold ev (r\<lparr>op_hold := ?h @ u\<rparr>) = process_hold ev (r1\<lparr>op_hold := d @ u\<rparr>)"
      using more by (simp add: process_hold_other [OF nj(2)] act d_def)
    then show ?thesis
      using less.hyps [of r1] r1 more(2,3) by (simp add: once d_def)
  next
    case None
    define k where "k = length ?h - partial_marker_suffix ?h ?ms"
    define w where "w = drop k ?h @ u"
    have kl: "k \<le> length ?h" by (simp add: k_def)
    define q where "q = route ev (take k ?h) (r\<lparr>op_hold := drop k ?h\<rparr>)"
    have q: "process_hold ev r = q" unfolding q_def by (rule process_hold_quiet [OF nj(1) None k_def])
    have rt: "tagged (r\<lparr>op_hold := x\<rparr>)" for x using less.prems(1) by simp
    have qw: "q\<lparr>op_hold := x\<rparr> = route ev (take k ?h) (r\<lparr>op_hold := x\<rparr>)" for x
      using route_hold_update [OF rt, of ev "take k ?h" "drop k ?h" x] by (simp add: q_def)
    have q_setup: "tagged q" "active_markers (q\<lparr>op_hold := x\<rparr>) = ?ms" for x
      using route_setup(1) [OF rt] route_setup(3) [OF rt, of ev "take k ?h" x] act qw by (simp_all add: q_def)
    then have qj: "\<not> in_json (q\<lparr>op_hold := x\<rparr>)" for x by (auto simp: tagged_def in_json_def)
    note rel = released_part [OF good None k_def, of u, folded w_def]
    have hu: "?h @ u = take k ?h @ w" by (simp add: w_def)
    have pieces: "take (k + n) (?h @ u) = take k ?h @ take n w" "drop (k + n) (?h @ u) = drop n w" for n
      using kl by (simp_all add: hu)
    have joined: "observed (route ev (take n w) (q\<lparr>op_hold := x\<rparr>)) =
        observed (route ev (take (k + n) (?h @ u)) (r\<lparr>op_hold := x\<rparr>))" for n x
      unfolding qw pieces by (rule route_append [OF rt])
    have qh: "op_hold q = drop k ?h" by (simp add: q_def)
    have "observed (process_hold ev (r\<lparr>op_hold := ?h @ u\<rparr>)) = observed (process_hold ev (q\<lparr>op_hold := w\<rparr>))"
    proof (cases "earliest_marker w ?ms")
      case None
      then have e: "earliest_marker (?h @ u) ?ms = None" using rel(1) by simp
      let ?n = "length w - partial_marker_suffix w ?ms"
      have len: "length (?h @ u) = k + length w" using kl by (simp add: w_def)
      have "partial_marker_suffix w ?ms \<le> length w" by (rule partial_suffix_le [OF good_nonempty [OF good]])
      then have n: "k + ?n = length (?h @ u) - partial_marker_suffix (?h @ u) ?ms" unfolding rel(2) [OF e] len by simp
      have "process_hold ev (r\<lparr>op_hold := ?h @ u\<rparr>) =
          route ev (take (k + ?n) (?h @ u)) (r\<lparr>op_hold := drop (k + ?n) (?h @ u)\<rparr>)"
        using process_hold_quiet [OF nj(2) _ refl, of "?h @ u" ev]
        by (simp add: act e n del: take_append drop_append length_append)
      moreover have "process_hold ev (q\<lparr>op_hold := w\<rparr>) = route ev (take ?n w) (q\<lparr>op_hold := drop ?n w\<rparr>)"
        using process_hold_quiet [OF qj, of w ?n ev] None by (simp add: q_setup(2))
      ultimately show ?thesis using joined [of ?n "drop ?n w"] unfolding pieces(2) by metis
    next
      case (Some e)
      then obtain p l a where e: "earliest_marker w ?ms = Some (p, l, a)" by (cases e) auto
      then have eh: "earliest_marker (?h @ u) ?ms = Some (k + p, l, a)" using rel(1) by simp
      note fits = earliest_append(2,3) [OF good e] earliest_append(3) [OF good eh]
      let ?d = "drop (p + l) w"
      have "process_hold ev (r\<lparr>op_hold := ?h @ u\<rparr>) =
          process_hold ev (apply_action ev a (route ev (take (k + p) (?h @ u)) (r\<lparr>op_hold := ?d\<rparr>)))"
        using fits eh pieces(2) [of "p + l"] by (simp add: process_hold_other [OF nj(2)] act add.assoc)
      moreover have "process_hold ev (q\<lparr>op_hold := w\<rparr>) =
          process_hold ev (apply_action ev a (route ev (take p w) (q\<lparr>op_hold := ?d\<rparr>)))"
        using fits e by (simp add: process_hold_other [OF qj] q_setup(2))
      ultimately show ?thesis
        using obs_process_hold [OF obs_apply_action [OF joined [of p ?d, symmetric]]] by simp
    qed
    then show ?thesis by (simp add: q qh w_def)
  qed
qed


lemma feed_append:
  assumes "tagged r" "good_table (op_markers r)"
  shows "observed (feed_text ev u (feed_text ev t r)) = observed (feed_text ev (t @ u) r)"
  using process_hold_split [where r = "r\<lparr>op_hold := op_hold r @ t\<rparr>" and u = u and ev = ev] assms by (simp add: feed_text_def)

lemma route_hold_setup:
  assumes "tagged r"
  shows "tagged (route_hold ev n r)" "same_setup r (route_hold ev n r)"
  using route_setup [of "r\<lparr>op_hold := drop n (op_hold r)\<rparr>" ev "take n (op_hold r)"] assms
  by (auto simp: route_hold_def Let_def tagged_def in_json_def same_setup_def split: out_state.splits)

lemma feed_text_setup:
  assumes "tagged r"
  shows "tagged (feed_text ev t r)" "same_setup r (feed_text ev t r)"
proof -
  let ?P = "\<lambda>s. tagged s \<and> same_setup r s"
  have "?P (feed_text ev t r)" unfolding feed_text_def
  proof (rule process_hold_keeps [where P = ?P])
    show "?P (snd (scan_json ev c s))" if "op_state s = JsonCall c" "?P s" for c s
      using that by (auto simp: tagged_def in_json_def)
    show "?P (s\<lparr>op_hold := h\<rparr>)" if "?P s" for s h using that by (simp add: same_setup_def)
    show "?P (r\<lparr>op_hold := op_hold r @ t\<rparr>)" using assms by (simp add: same_setup_def)
    show "?P (route ev t s)" if "?P s" for s t
      using that route_setup(1,2) [of s ev t] same_setup_trans by blast
    show "?P (apply_action ev a s)" if "?P s" for s a
      using that apply_action_setup [of s ev a] same_setup_trans by blast
    show "?P (route_hold ev n s)" if "?P s" for s n
      using that route_hold_setup [of s ev n] same_setup_trans by blast
  qed
  then show "tagged (feed_text ev t r)" "same_setup r (feed_text ev t r)" by blast+
qed

section \<open>Detected formats\<close>

text \<open>The marker tables of every format \<open>ChatFormat::detect\<close> returns are good.\<close>

lemma detect_reasoning_cases:
  "detect_reasoning tk template \<in>
     {None, Some \<lparr>rs_open = ustr ''<|channel>'', rs_close = ustr ''<channel|>'', rs_header = Some (ustr ''thought'')\<rparr>,
      Some \<lparr>rs_open = ustr ''<think>'', rs_close = ustr ''</think>'', rs_header = None\<rparr>}"
  by (simp add: detect_reasoning_def)

lemma detect_tools_cases:
  "detect_tools tk template \<in>
     {PlainTools, Gemma4Tools (ustr ''<|tool_call>'') (ustr ''<tool_call|>''),
      TaggedXml (ustr ''<tool_call>'') (ustr ''</tool_call>''),
      TaggedJson (ustr ''<tool_call>'') None None,
      TaggedJson (ustr ''<tool_call>'') None (Some (ustr ''</tool_call>'')),
      TaggedJson (ustr ''<|tool_call|>'') (Some (ustr ''<tool_call>'')) None,
      TaggedJson (ustr ''<|tool_call|>'') (Some (ustr ''<tool_call>'')) (Some (ustr ''<|/tool_call|>''))} \<union>
     range LlamaJson"
  by (simp add: detect_tools_def)

lemma detected_good:
  assumes f: "chat_detect md tk template = Inr f" and l: "\<not> is_llama (cf_tools f)"
  shows "good_table (markers_of f)"
proof -
  have parts: "cf_reasoning f = detect_reasoning tk template" "cf_tools f = detect_tools tk template"
    using f by (auto simp: chat_detect_def Let_def split: if_splits)
  have "cf_tools f \<notin> range LlamaJson" using l by auto
  then show ?thesis
    using detect_reasoning_cases [of tk template] detect_tools_cases [of tk template]
    unfolding parts [symmetric] Un_iff insert_iff empty_iff
    by (elim disjE; simp add: good_table_def good_markers_def markers_of_def open_tool_def close_tool_def
        opt_list_def contains_def ustr_def find_sub.simps)
qed

text \<open>So the guard of \<open>process_hold\<close> is never taken, whatever the tool syntax.\<close>

lemma marker_guard_never_taken:
  assumes "\<forall>m \<in> set ms. mk_text m \<noteq> []" "earliest_marker h ms = Some (pos, len, act)"
  shows "\<not> (len = 0 \<or> length h < pos + len)"
  using assms(1) by (rule_tac earliest_Some_D [OF assms(2)]) (auto simp: occurs_def)

lemma detected_nonempty:
  assumes "chat_detect md tk template = Inr f"
  shows "\<forall>m \<in> set (mt_content (markers_of f) @ mt_thinking (markers_of f) @ mt_tool (markers_of f)). mk_text m \<noteq> []"
proof -
  have parts: "cf_reasoning f = detect_reasoning tk template" "cf_tools f = detect_tools tk template"
    using assms by (auto simp: chat_detect_def Let_def split: if_splits)
  have tag: "detect_tools tk template = LlamaJson t \<Longrightarrow> t \<in> {None, Some (ustr ''<|python_tag|>'')}" for t
    by (cases "tk_token_id tk (ustr ''<|python_tag|>'')") (auto simp: detect_tools_def split: if_splits)
  consider t where "cf_tools f = LlamaJson t" "t \<in> {None, Some (ustr ''<|python_tag|>'')}" | "cf_tools f \<notin> range LlamaJson"
    using tag parts(2) by auto
  then show ?thesis
    using detect_reasoning_cases [of tk template] detect_tools_cases [of tk template]
    unfolding parts [symmetric] Un_iff insert_iff empty_iff
    by cases (elim disjE; simp add: markers_of_def open_tool_def close_tool_def opt_list_def ustr_def)+
qed

lemma new_tagged:
  assumes "\<not> is_llama (cf_tools f)"
  shows "tagged (output_new f b)" "op_markers (output_new f b) = markers_of f" "op_hold (output_new f b) = []"
    "op_pending (output_new f b) = []"
  using assms by (simp_all add: output_new_def tagged_def in_json_def Let_def)

end
