(* ===== verification/Utf8_Stream.thy ===== *)
theory Utf8_Stream
  imports Vocab
begin

text \<open>
  Decoding UTF-8 piece by piece: \<open>str::from_utf8\<close> (\<open>Sse\<close>) on a valid prefix and what follows it, its errors
  under extension, and the character boundaries of a valid text. Shared by the output parser and the
  redaction plugin.
\<close>

section \<open>Decoding a stream of bytes\<close>

text \<open>Some bytes start with a whole character, with an error, or are the start of a character.\<close>

definition starts_char :: "bytes \<Rightarrow> nat \<Rightarrow> nat \<Rightarrow> bool" where
  "starts_char s c n \<longleftrightarrow> 0 < n \<and> n \<le> length s \<and>
     (\<forall>i q. utf8_from i (take n s @ q) = map_sum id (\<lambda>t. c # t) (utf8_from (i + n) q))"

lemma utf8_step:
  assumes "s \<noteq> []"
  obtains (char) c n where "starts_char s c n"
  | (invalid) n where "0 < n" "n \<le> length s" "\<And>i q. utf8_from i (s @ q) = Inl (i, Some n)"
  | (incomplete) "\<And>i. utf8_from i s = Inl (i, None)"
proof -
  obtain a s1 where s: "s = a # s1" using assms by (cases s) auto
  have "(\<exists>c n. starts_char s c n) \<or> (\<exists>n. 0 < n \<and> n \<le> length s \<and> (\<forall>i q. utf8_from i (s @ q) = Inl (i, Some n))) \<or>
      (\<forall>i. utf8_from i s = Inl (i, None))"
  proof (cases "a < 128")
    case True
    then have "starts_char s a 1" by (simp add: s starts_char_def)
    then show ?thesis by blast
  next
    case ge: False
    consider "194 \<le> a" "a < 224" | "224 \<le> a" "a < 240" | "240 \<le> a" "a < 245"
      | "\<not> (194 \<le> a \<and> a < 245)" by linarith
    then show ?thesis
    proof cases
      case 1
      show ?thesis
      proof (cases s1)
        case (Cons b s2)
        show ?thesis
        proof (cases "is_cont b")
          case True
          then have "starts_char s ((a - 192) * 64 + (b - 128)) 2" using 1 by (simp add: s Cons starts_char_def)
          then show ?thesis by blast
        next
          case False
          then show ?thesis using 1 by (auto simp: s Cons intro!: exI [of _ 1])
        qed
      qed (use 1 in \<open>simp add: s\<close>)
    next
      case 2
      show ?thesis
      proof (cases s1)
        case (Cons b s2)
        show ?thesis
        proof (cases "second_of_three a b")
          case two: True
          show ?thesis
          proof (cases s2)
            case Cons2: (Cons c s3)
            show ?thesis
            proof (cases "is_cont c")
              case True
              then have "starts_char s ((a - 224) * 4096 + (b - 128) * 64 + (c - 128)) 3"
                using 2 two by (simp add: s Cons Cons2 starts_char_def)
              then show ?thesis by blast
            next
              case False
              then show ?thesis using 2 two by (auto simp: s Cons Cons2 intro!: exI [of _ 2])
            qed
          qed (use 2 two in \<open>simp add: s Cons\<close>)
        next
          case False
          then show ?thesis using 2 by (auto simp: s Cons intro!: exI [of _ 1])
        qed
      qed (use 2 in \<open>simp add: s\<close>)
    next
      case 3
      show ?thesis
      proof (cases s1)
        case (Cons b s2)
        show ?thesis
        proof (cases "second_of_four a b")
          case two: True
          show ?thesis
          proof (cases s2)
            case Cons2: (Cons c s3)
            show ?thesis
            proof (cases "is_cont c")
              case three: True
              show ?thesis
              proof (cases s3)
                case Cons3: (Cons d s4)
                show ?thesis
                proof (cases "is_cont d")
                  case True
                  then have "starts_char s ((a - 240) * 262144 + (b - 128) * 4096 + (c - 128) * 64 + (d - 128)) 4"
                    using 3 two three by (simp add: s Cons Cons2 Cons3 starts_char_def)
                  then show ?thesis by blast
                next
                  case False
                  then show ?thesis using 3 two three by (auto simp: s Cons Cons2 Cons3 intro!: exI [of _ 3])
                qed
              qed (use 3 two three in \<open>simp add: s Cons Cons2\<close>)
            next
              case False
              then show ?thesis using 3 two by (auto simp: s Cons Cons2 intro!: exI [of _ 2])
            qed
          qed (use 3 two in \<open>simp add: s Cons\<close>)
        next
          case False
          then show ?thesis using 3 by (auto simp: s Cons intro!: exI [of _ 1])
        qed
      qed (use 3 in \<open>simp add: s\<close>)
    next
      case 4
      then have "\<forall>i q. utf8_from i (s @ q) = Inl (i, Some 1)" using ge by (auto simp: s)
      then show ?thesis by (intro disjI2 disjI1 exI [of _ 1]) (simp add: s)
    qed
  qed
  then show ?thesis using that by blast
qed

lemma utf8_append_valid:
  "utf8_from i p = Inr t \<Longrightarrow> utf8_from i (p @ q) = map_sum id (\<lambda>u. t @ u) (utf8_from (i + length p) q)"
proof (induction "length p" arbitrary: p i t rule: less_induct)
  case less
  show ?case
  proof (cases "p = []")
    case True
    then show ?thesis using less.prems by (cases "utf8_from i q") simp_all
  next
    case False
    then show ?thesis
    proof (cases rule: utf8_step)
      case (char c n)
      then have n: "0 < n" "n \<le> length p"
        and step: "\<And>i q. utf8_from i (take n p @ q) = map_sum id (\<lambda>t. c # t) (utf8_from (i + n) q)"
        by (auto simp: starts_char_def)
      obtain u where u: "utf8_from (i + n) (drop n p) = Inr u" "t = c # u"
        using step [of i "drop n p"] less.prems by (cases "utf8_from (i + n) (drop n p)") auto
      have "utf8_from i (take n p @ (drop n p @ q)) = map_sum id (\<lambda>t. c # t) (utf8_from (i + n) (drop n p @ q))" by (rule step)
      also have "utf8_from (i + n) (drop n p @ q) = map_sum id (\<lambda>t. u @ t) (utf8_from (i + n + length (drop n p)) q)"
        using less.hyps [OF _ u(1)] n by simp
      finally have "utf8_from i (take n p @ drop n p @ q) =
          map_sum id (\<lambda>t. c # t) (map_sum id (\<lambda>t. u @ t) (utf8_from (i + n + length (drop n p)) q))" .
      moreover have "take n p @ drop n p @ q = p @ q" "i + n + length (drop n p) = i + length p" using n by simp_all
      ultimately show ?thesis by (cases "utf8_from (i + length p) q") (simp_all add: u(2))
    next
      case (invalid n)
      then show ?thesis using less.prems invalid(3) [of i "[]"] by simp
    next
      case incomplete
      then show ?thesis using less.prems by simp
    qed
  qed
qed

text \<open>An error stands after a valid prefix; one with a length stays whatever follows.\<close>

lemma utf8_error:
  assumes "utf8_from i p = Inl (k, e)"
  obtains t m where "k = i + m" "m \<le> length p" "utf8_from i (take m p) = Inr t"
    "\<And>q j. e = Some n \<Longrightarrow> utf8_from j (drop m p @ q) = Inl (j, e)" "e = Some n \<Longrightarrow> m + n \<le> length p \<and> 0 < n"
    "e = None \<Longrightarrow> drop m p \<noteq> []"
proof -
  have "\<exists>t m. k = i + m \<and> m \<le> length p \<and> utf8_from i (take m p) = Inr t \<and>
      (e = Some n \<longrightarrow> (\<forall>q j. utf8_from j (drop m p @ q) = Inl (j, e)) \<and> m + n \<le> length p \<and> 0 < n) \<and>
      (e = None \<longrightarrow> drop m p \<noteq> [])"
    using assms
  proof (induction "length p" arbitrary: p i rule: less_induct)
    case less
    then have "p \<noteq> []" by auto
    then show ?case
    proof (cases rule: utf8_step)
      case (char c l)
      then have l: "0 < l" "l \<le> length p"
        and step: "\<And>i q. utf8_from i (take l p @ q) = map_sum id (\<lambda>t. c # t) (utf8_from (i + l) q)"
        by (auto simp: starts_char_def)
      have rest: "utf8_from (i + l) (drop l p) = Inl (k, e)"
        using step [of i "drop l p"] less.prems by (cases "utf8_from (i + l) (drop l p)") auto
      have shorter: "length (drop l p) < length p" using l by simp
      obtain t m where m: "k = i + l + m" "m \<le> length (drop l p)" "utf8_from (i + l) (take m (drop l p)) = Inr t"
        "e = Some n \<longrightarrow> (\<forall>q j. utf8_from j (drop m (drop l p) @ q) = Inl (j, e)) \<and> m + n \<le> length (drop l p) \<and> 0 < n"
        "e = None \<longrightarrow> drop m (drop l p) \<noteq> []"
        using less.hyps [OF shorter rest] by blast
      have "utf8_from i (take (l + m) p) = Inr (c # t)"
        using step [of i "take m (drop l p)"] m(3) by (simp add: take_add)
      then show ?thesis using m(1,2,4,5) l
        by (intro exI [of _ "c # t"] exI [of _ "l + m"]) (auto simp: add.commute)
    next
      case (invalid l)
      then show ?thesis using less.prems invalid(3) [of i "[]"] by (intro exI [of _ "[]"] exI [of _ 0]) auto
    next
      case incomplete
      then show ?thesis using less.prems \<open>p \<noteq> []\<close> by (intro exI [of _ "[]"] exI [of _ 0]) auto
    qed
  qed
  then show ?thesis using that by blast
qed


lemma utf8_from_shift: "utf8_from (i + j) s = map_sum (\<lambda>(k, e). (i + k, e)) id (utf8_from j s)"
proof (induction "length s" arbitrary: s j rule: less_induct)
  case less
  show ?case
  proof (cases "s = []")
    case False
    then show ?thesis
    proof (cases rule: utf8_step)
      case (char c n)
      then have n: "length (drop n s) < length s"
        and step: "\<And>i q. utf8_from i (take n s @ q) = map_sum id (\<lambda>t. c # t) (utf8_from (i + n) q)"
        by (auto simp: starts_char_def)
      show ?thesis using step [of "i + j" "drop n s"] step [of j "drop n s"] less.hyps [OF n, of "j + n"]
        by (cases "utf8_from (j + n) (drop n s)") (simp_all add: add.assoc)
    next
      case (invalid n)
      show ?thesis using invalid(3) [of _ "[]"] by simp
    next
      case incomplete
      then show ?thesis by simp
    qed
  qed simp
qed

text \<open>What follows a valid prefix is decoded as if it stood alone.\<close>

lemma from_utf8_append:
  "from_utf8 p = Inr t \<Longrightarrow> from_utf8 (p @ q) = map_sum (\<lambda>(k, e). (length p + k, e)) (\<lambda>u. t @ u) (from_utf8 q)"
  using utf8_append_valid [of 0 p t q] utf8_from_shift [of "length p" 0 q]
  by (cases "utf8_from 0 q") (simp_all add: from_utf8_def)

lemma from_utf8_error:
  assumes "from_utf8 p = Inl (k, e)"
  obtains t where "k \<le> length p" "from_utf8 (take k p) = Inr t"
    "\<And>n q. e = Some n \<Longrightarrow> from_utf8 (drop k p @ q) = Inl (0, e)" "\<And>n. e = Some n \<Longrightarrow> k + n \<le> length p \<and> 0 < n"
proof -
  obtain t m where "k = 0 + m" "m \<le> length p" "utf8_from 0 (take m p) = Inr t"
    "\<And>q j. e = Some (the e) \<Longrightarrow> utf8_from j (drop m p @ q) = Inl (j, e)"
    "e = Some (the e) \<Longrightarrow> m + the e \<le> length p \<and> 0 < the e"
    using utf8_error [OF assms [unfolded from_utf8_def], of "the e"] by blast
  then show ?thesis by (intro that [of t]) (auto simp: from_utf8_def)
qed

lemma from_utf8_nothing: "from_utf8 s = Inr [] \<Longrightarrow> s = []"
proof (rule ccontr)
  assume a: "from_utf8 s = Inr []" "s \<noteq> []"
  from a(2) show False
  proof (cases rule: utf8_step)
    case (char c n)
    then have "utf8_from 0 (take n s @ drop n s) = map_sum id (\<lambda>t. c # t) (utf8_from (0 + n) (drop n s))"
      unfolding starts_char_def by blast
    then show False using a by (cases "utf8_from (0 + n) (drop n s)") (simp_all add: from_utf8_def)
  next
    case (invalid n)
    then show False using a invalid(3) [of 0 "[]"] by (simp add: from_utf8_def)
  next
    case incomplete
    then show False using a by (simp add: from_utf8_def)
  qed
qed

section \<open>Character boundaries\<close>

lemma encode_char_tail: "is_scalar c \<Longrightarrow> \<forall>b \<in> set (tl (encode_char c)). is_cont b"
  by (auto simp: encode_char_def is_cont_def)

lemma utf8_bytes_eq_Nil [simp]: "utf8_bytes t = [] \<longleftrightarrow> t = []"
  using encode_char_start(1) by (cases t) (auto simp: utf8_bytes_def)

lemma boundary_split:
  assumes "\<forall>c \<in> set t. is_scalar c" "is_char_boundary (utf8_bytes t) i"
  obtains a b where "t = a @ b" "i = length (utf8_bytes a)"
proof -
  have "\<exists>a b. t = a @ b \<and> i = length (utf8_bytes a)" using assms
  proof (induction t arbitrary: i)
    case Nil
    then show ?case by (auto simp: is_char_boundary_def utf8_bytes_def)
  next
    case (Cons c t)
    let ?e = "encode_char c"
    have split: "utf8_bytes (c # t) = ?e @ utf8_bytes t" by (simp add: utf8_bytes_def)
    show ?case
    proof (cases "i = 0")
      case True
      then show ?thesis by (intro exI [of _ "[]"] exI [of _ "c # t"]) (simp add: utf8_bytes_def)
    next
      case False
      have "length ?e \<le> i"
      proof (rule ccontr)
        assume "\<not> length ?e \<le> i"
        then have "?e ! i \<in> set (tl ?e)" using False by (cases ?e; cases i) auto
        then show False
          using Cons.prems encode_char_tail [of c] \<open>\<not> length ?e \<le> i\<close> by (auto simp: split is_char_boundary_def nth_append)
      qed
      then have "is_char_boundary (utf8_bytes t) (i - length ?e)"
        using Cons.prems(2) by (auto simp: split is_char_boundary_def nth_append)
      then obtain a b where "t = a @ b" "i - length ?e = length (utf8_bytes a)"
        using Cons.IH [of "i - length ?e"] Cons.prems(1) by fastforce
      then show ?thesis using \<open>length ?e \<le> i\<close>
        by (intro exI [of _ "c # a"] exI [of _ b]) (simp add: utf8_bytes_def)
    qed
  qed
  then show ?thesis using that by blast
qed

lemma utf8_prefix:
  assumes "\<forall>c \<in> set v. is_scalar c" "\<forall>c \<in> set u. is_scalar c" "utf8_bytes u = utf8_bytes v @ r"
  obtains w where "u = v @ w"
proof -
  have "from_utf8 (utf8_bytes v @ r) = map_sum (\<lambda>(k, e). (length (utf8_bytes v) + k, e)) (\<lambda>w. v @ w) (from_utf8 r)"
    by (rule from_utf8_append) (use assms(1) in simp)
  moreover have "from_utf8 (utf8_bytes v @ r) = Inr u" using assms(2) by (simp add: assms(3) [symmetric])
  ultimately show ?thesis using that by (cases "from_utf8 r") auto
qed

lemma utf8_append: "utf8_bytes (s @ t) = utf8_bytes s @ utf8_bytes t"
  by (simp add: utf8_bytes_def)

lemma split_boundary: "is_char_boundary (utf8_bytes (a @ b)) (length (utf8_bytes a))"
proof (cases b)
  case (Cons c b')
  then show ?thesis using encode_char_start [of c]
    by (auto simp: is_char_boundary_def utf8_append nth_append hd_conv_nth utf8_bytes_def)
qed (simp add: is_char_boundary_def utf8_append)

text \<open>Around a byte below 128 a valid text has boundaries.\<close>

lemma ascii_boundaries:
  assumes "\<forall>c \<in> set t. is_scalar c" "i < length (utf8_bytes t)" "utf8_bytes t ! i < 128"
  shows "is_char_boundary (utf8_bytes t) i" "is_char_boundary (utf8_bytes t) (Suc i)"
proof -
  show b: "is_char_boundary (utf8_bytes t) i" using assms(2,3) by (simp add: is_char_boundary_def is_cont_def)
  obtain a u where u: "t = a @ u" "i = length (utf8_bytes a)" using boundary_split [OF assms(1) b] by blast
  obtain c w where w: "u = c # w" using assms(2) u by (cases u) (auto simp: utf8_bytes_def)
  have "hd (encode_char c) < 128" using assms(3) encode_char_start(1) [of c]
    by (simp add: u w utf8_append nth_append utf8_bytes_def hd_conv_nth)
  then have "length (encode_char c) = 1" by (auto simp: encode_char_def split: if_splits)
  then have "Suc i = length (utf8_bytes (a @ [c]))" by (simp add: u utf8_append utf8_bytes_def)
  then show "is_char_boundary (utf8_bytes t) (Suc i)" using split_boundary [of "a @ [c]" w] by (simp add: u w)
qed

text \<open>Where the bytes of a text stand in another, they start and end at boundaries.\<close>

lemma part_boundaries:
  assumes t: "\<forall>c \<in> set t. is_scalar c" and v: "\<forall>c \<in> set v. is_scalar c" "v \<noteq> []"
    and at: "take (length (utf8_bytes v)) (drop i (utf8_bytes t)) = utf8_bytes v"
  shows "is_char_boundary (utf8_bytes t) i" "is_char_boundary (utf8_bytes t) (i + length (utf8_bytes v))"
proof -
  have ne: "utf8_bytes v \<noteq> []" using v(2) by simp
  then have "i < length (utf8_bytes t)" using at by (metis drop_all not_le take_Nil)
  moreover have "utf8_bytes t ! i = hd (utf8_bytes v)"
    using at ne calculation by (metis hd_drop_conv_nth hd_take length_greater_0_conv)
  moreover have "\<not> is_cont (hd (utf8_bytes v))"
    using v(2) encode_char_start by (cases v) (auto simp: utf8_bytes_def)
  ultimately show b: "is_char_boundary (utf8_bytes t) i" by (simp add: is_char_boundary_def)
  obtain a u where u: "t = a @ u" "i = length (utf8_bytes a)" using boundary_split [OF t b] by blast
  have "utf8_bytes u = utf8_bytes v @ drop (length (utf8_bytes v)) (utf8_bytes u)"
    using at append_take_drop_id [of "length (utf8_bytes v)" "utf8_bytes u"] by (simp add: u utf8_append)
  then obtain w where "u = v @ w" using utf8_prefix [OF v(1) _ ] t u(1) by (metis Un_iff set_append)
  then show "is_char_boundary (utf8_bytes t) (i + length (utf8_bytes v))"
    using split_boundary [of "a @ v" w] by (simp add: u utf8_append add.commute)
qed

end
