(* ===== verification/Encoding.thy ===== *)
theory Encoding
  imports Tokenizer
begin

text \<open>
  What the local tokenizer of \<open>Tokenizer\<close> guarantees: the split of special tokens does not depend on
  its prefilters, construction and encoding end, and byte-level BPE decodes to the text it was given.
  The slices of the code are byte offsets that lie at character boundaries; here a text is a list of
  characters and the offsets count them, so that a slice off a boundary cannot be expressed. The sample tokenizer of the witnesses has the GPT-2 alphabet and one control token.
\<close>

section \<open>Tokenizers from metadata\<close>

lemma from_gguf_tokenizer:
  assumes "tk_from_gguf md = Some (Inr tk)" "md_strings md ''tokenizer.ggml.tokens'' = Inr pieces"
  obtains types engine config rs kind where
    "vocab_built (map utf8_bytes pieces) types (tk_vocab tk)" "vocab_len (tk_vocab tk) = length pieces"
    "tk = tk_assemble (tk_vocab tk) engine config rs"
    "gguf_engine md kind (tk_vocab tk) (length pieces) = Inr engine"
    "\<forall>p. kind = KByte p \<longrightarrow> (\<exists>name. pre_from_name name = Some (Words p))"
proof -
  obtain model where model: "md_string md ''tokenizer.ggml.model'' = Some model"
    using assms(1) by (auto simp: tk_from_gguf_def split: option.splits)
  obtain kind where kind: "gguf_kind md model = Inr kind"
    using assms(1) model by (auto simp: tk_from_gguf_def split: sum.splits)
  obtain types where types: "gguf_types md (length pieces) = Inr types"
    using assms model kind by (auto simp: tk_from_gguf_def split: sum.splits)
  obtain v where v: "vocab_new (map utf8_bytes pieces) types = Some (Inr v)"
    using assms model kind types by (auto simp: tk_from_gguf_def split: sum.splits option.splits)
  obtain engine where e: "gguf_engine md kind v (length pieces) = Inr engine"
    and tk: "tk = tk_assemble v engine (gguf_config md kind (length pieces)) (md_is_phi3 md model)"
    using assms model kind types v
    by (cases "gguf_engine md kind v (length pieces)") (auto simp: tk_from_gguf_def)
  have "vocab_built (map utf8_bytes pieces) types v"
    using vocab_new_Inr [OF v] by (auto simp: str_start_utf8)
  moreover from this have "vocab_len v = length pieces"
    using vocab_new_Inr(2) [OF v] by (auto simp: str_start_utf8 vocab_built_def filling_def vocab_len_def)
  moreover have "tk_vocab tk = v" using tk by (simp add: tk_assemble_def)
  moreover have "\<exists>name. pre_from_name name = Some (Words p)" if "kind = KByte p" for p
    using kind that by (auto simp: gguf_kind_def Let_def split: if_splits option.splits pre.splits)
  ultimately show ?thesis using that e tk by blast
qed

lemma assemble_specials:
  "sp \<in> set (tk_specials (tk_assemble v e c rs)) \<Longrightarrow>
     is_special_id v (sp_id sp) \<and> sp_id sp < vocab_len v \<and> \<not> sp_lstrip sp"
  "is_special_id v i \<Longrightarrow> i < vocab_len v \<Longrightarrow> \<exists>sp \<in> set (tk_specials (tk_assemble v e c rs)). sp_id sp = i"
  by (auto simp: tk_assemble_def image_iff)

text \<open>Cutting without the prefilters.\<close>

definition cut_all :: "vocab \<Rightarrow> special list \<Rightarrow> fragment list \<Rightarrow> fragment list" where
  "cut_all v sps fs =
     foldl (\<lambda>fs sp. concat (map (cut_fragment (piece_chars v (sp_id sp)) sp) fs)) fs sps"

lemma cut_fragment_absent:
  assumes "\<forall>r \<in> raws_of fs. r \<noteq> [] \<and> \<not> part_of t r"
  shows "concat (map (cut_fragment t sp) fs) = fs"
  using assms
proof (induction fs)
  case (Cons f fs)
  have "cut_fragment t sp f = [f]"
  proof (cases f)
    case (RawText r)
    then have "r \<noteq> []" "find_sub t r = None"
      using Cons.prems contains_part [of r t] by (auto simp: raws_of_def contains_def)
    then show ?thesis by (simp add: RawText cut_special.simps)
  qed simp
  moreover have "concat (map (cut_fragment t sp) fs) = fs" using Cons by (auto simp: raws_of_def)
  ultimately show ?case by simp
qed simp


lemma cut_specials_all:
  assumes "texts_ok v pieces types"
    "\<forall>sp \<in> set sps. sp_id sp < length pieces \<and> pieces ! sp_id sp \<noteq> []"
    "\<forall>r \<in> raws_of fs. r \<noteq> [] \<and> part_of r s"
  shows "cut_specials v (utf8_bytes s) sps fs = cut_all v sps fs"
  using assms(2,3)
proof (induction sps arbitrary: fs)
  case (Cons sp sps)
  have i: "sp_id sp < length pieces" "pieces ! sp_id sp \<noteq> []" using Cons.prems(1) by auto
  note piece = texts_piece(2) [OF assms(1) i(1)]
  obtain fs' where fs': "cut_specials v (utf8_bytes s) (sp # sps) fs = cut_specials v (utf8_bytes s) sps fs'"
    "\<forall>r \<in> raws_of fs'. r \<noteq> [] \<and> part_of r s \<and> \<not> part_of (pieces ! sp_id sp) r \<and> (\<exists>r' \<in> raws_of fs. part_of r r')"
    "fs' = fs \<or> fs' = concat (map (cut_fragment (pieces ! sp_id sp) sp) fs)"
    by (rule cut_specials_step [OF assms(1) i Cons.prems(2), of sps])
  have "fs' = concat (map (cut_fragment (pieces ! sp_id sp) sp) fs)"
    using fs'(2,3) cut_fragment_absent [of fs] by auto
  moreover have "cut_specials v (utf8_bytes s) sps fs' = cut_all v sps fs'"
    using Cons.prems(1) fs'(2) by (intro Cons.IH) auto
  ultimately show ?case unfolding fs'(1) by (simp add: cut_all_def piece)
qed (simp add: cut_all_def)

lemma partition_specials_cuts:
  assumes "tk_from_gguf md = Some (Inr tk)" "md_strings md ''tokenizer.ggml.tokens'' = Inr pieces"
    "\<forall>t \<in> set pieces. \<forall>c \<in> set t. is_scalar c"
  shows "partition_specials tk s = (if s = [] then [] else cut_all (tk_vocab tk) (tk_specials tk) [RawText s])"
    and "RawText r \<in> set (partition_specials tk s) \<Longrightarrow>
      r \<noteq> [] \<and> part_of r s \<and>
      (\<forall>i. is_special_id (tk_vocab tk) i \<longrightarrow> \<not> part_of (piece_chars (tk_vocab tk) i) r)"
    and "\<forall>sp \<in> set (tk_specials tk). \<not> sp_rstrip sp \<Longrightarrow>
      concat (map (fragment_text (tk_vocab tk)) (partition_specials tk s)) = s"
proof -
  let ?v = "tk_vocab tk"
  obtain types engine config rs where b: "vocab_built (map utf8_bytes pieces) types ?v"
    and len: "vocab_len ?v = length pieces" and tk: "tk = tk_assemble ?v engine config rs"
    by (rule from_gguf_tokenizer [OF assms(1,2)])
  have ok: "texts_ok ?v pieces types" using b assms(3) by (simp add: texts_ok_def)
  have sps: "is_special_id ?v (sp_id sp) \<and> sp_id sp < length pieces \<and> \<not> sp_lstrip sp"
    if "sp \<in> set (tk_specials tk)" for sp
    using that len by (subst (asm) tk) (auto dest: assemble_specials(1))
  have nonempty: "is_special_id ?v i \<Longrightarrow> i < length pieces \<Longrightarrow> pieces ! i \<noteq> []" for i
    using texts_piece(1) [OF ok, of i] by (auto simp: is_special_id_def)
  have sps': "\<forall>sp \<in> set (tk_specials tk). sp_id sp < length pieces \<and> pieces ! sp_id sp \<noteq> []"
    using sps nonempty by blast
  have raws: "\<forall>r \<in> raws_of [RawText s]. r \<noteq> [] \<and> part_of r s" if "s \<noteq> []"
    using that by (auto simp: raws_of_def)
  have part: "partition_specials tk s =
      (if s = [] then [] else cut_specials ?v (utf8_bytes s) (tk_specials tk) [RawText s])"
    by (simp add: partition_specials_def)
  show "partition_specials tk s = (if s = [] then [] else cut_all ?v (tk_specials tk) [RawText s])"
    using cut_specials_all [OF ok sps' raws] by (simp add: part)
  show "r \<noteq> [] \<and> part_of r s \<and> (\<forall>i. is_special_id ?v i \<longrightarrow> \<not> part_of (piece_chars ?v i) r)"
    if "RawText r \<in> set (partition_specials tk s)"
  proof -
    have s: "s \<noteq> []" using that by (auto simp: partition_specials_def)
    have r: "r \<in> raws_of (cut_specials ?v (utf8_bytes s) (tk_specials tk) [RawText s])"
      using that s by (simp add: part raws_of_def)
    have "\<not> part_of (piece_chars ?v i) r" if i: "is_special_id ?v i" for i
    proof -
      have "i < length pieces" using i built_piece [OF b, of i] by (auto simp: is_special_id_def split: if_splits)
      then obtain sp where "sp \<in> set (tk_specials tk)" "sp_id sp = i"
        using assemble_specials(2) [OF i, of engine config rs] len tk by metis
      then show ?thesis using cut_specials_raw [OF ok sps' raws [OF s]] r texts_piece(2) [OF ok \<open>i < _\<close>] by auto
    qed
    then show ?thesis using cut_specials_raw [OF ok sps' raws [OF s]] r by blast
  qed
  show "concat (map (fragment_text ?v) (partition_specials tk s)) = s"
    if "\<forall>sp \<in> set (tk_specials tk). \<not> sp_rstrip sp"
  proof (cases "s = []")
    case False
    have "\<forall>sp \<in> set (tk_specials tk). sp_id sp < length pieces \<and> pieces ! sp_id sp \<noteq> [] \<and> \<not> sp_lstrip sp \<and> \<not> sp_rstrip sp"
      using sps sps' that by blast
    from cut_specials_text [OF ok this raws [OF False]] False
    show ?thesis by (simp add: part fragment_text_def)
  qed (simp add: partition_specials_def)
qed


text \<open>Encoding a raw fragment ends: the mergers are total and a fragment is no longer than the text.\<close>

lemma part_of_length: "part_of r s \<Longrightarrow> length r \<le> length s"
  by (auto simp: part_of_def)

lemma length_encode_char_le: "length (encode_char c) \<le> 4"
  by (simp add: encode_char_def)

lemma length_utf8_le: "length (utf8_bytes t) \<le> 4 * length t"
  by (induction t) (auto simp: utf8_bytes_Cons intro: order_trans [OF add_mono [OF length_encode_char_le]])

lemma utf8_part_length: "part_of r s \<Longrightarrow> length (utf8_bytes r) \<le> length (utf8_bytes s)"
  using part_of_utf8 [of r s] by (metis le_add1 le_add2 le_trans length_append)

lemma part_of_text_slice: "part_of (text_slice s r) s"
  unfolding text_slice_def using part_of_trans [OF part_of_drop part_of_take] by blast

lemma encode_words_total:
  assumes "length (utf8_bytes raw) < USIZE_NONE"
  shows "encode_words tk m p raw rs out \<noteq> None"
proof (induction rs arbitrary: out)
  case (Cons r rs)
  have "length (map byte_to_char (utf8_bytes (text_slice raw r))) < USIZE_NONE"
    using utf8_part_length [OF part_of_text_slice, of raw r] assms by simp
  from merge_word_reference [OF this] show ?case
    using Cons by (auto simp: Let_def split: option.splits)
qed simp

lemma encode_escaped_step:
  fixes first :: nat and rest :: utext
  defines "p \<equiv> \<lambda>c. (c = 10) = (first = 10)"
  assumes "length (first # rest) < USIZE_NONE"
  shows "\<exists>ids. encode_escaped tk m (first # rest) out =
    encode_escaped tk m (dropWhile p (first # rest)) (out @ ids)"
proof -
  have w: "length (takeWhile p (first # rest)) < USIZE_NONE"
    using length_takeWhile_le [of p "first # rest"] assms(2) by linarith
  show ?thesis
  proof (cases "if first = 10 then vocab_get (tk_vocab tk) (utf8_bytes (takeWhile p (first # rest))) else None")
    case None
    then show ?thesis using merge_word_reference [OF w]
      by (subst encode_escaped.simps) (auto simp: p_def Let_def simp del: takeWhile.simps dropWhile.simps)
  next
    case (Some i)
    then show ?thesis
      by (subst encode_escaped.simps) (auto simp: p_def Let_def simp del: takeWhile.simps dropWhile.simps)
  qed
qed

lemma encode_escaped_total:
  "length s < USIZE_NONE \<Longrightarrow> encode_escaped tk m s out \<noteq> None"
proof (induction "length s" arbitrary: s out rule: less_induct)
  case less
  show ?case
  proof (cases s)
    case (Cons first rest)
    let ?p = "\<lambda>c. (c = 10) = (first = 10)"
    obtain ids where ids: "encode_escaped tk m s out = encode_escaped tk m (dropWhile ?p s) (out @ ids)"
      using encode_escaped_step less.prems unfolding Cons by metis
    have "length (dropWhile ?p s) < length s"
      unfolding Cons by (simp add: less_Suc_eq_le length_dropWhile_le)
    then show ?thesis using less unfolding ids by auto
  qed simp
qed

lemma encode_raw_total:
  assumes "Suc (length (utf8_bytes raw)) < USIZE_NONE"
  shows "encode_raw gc tk raw b out \<noteq> None"
proof (cases "tk_engine tk")
  case (SpmEngine spm)
  have "Suc (length raw) < USIZE_NONE" using assms length_utf8_ge [of raw] by linarith
  then show ?thesis by (simp add: encode_raw_def SpmEngine spm_encode_reference)
next
  case (BpeEngine m w)
  have "length (map escape_char raw) < USIZE_NONE" using assms length_utf8_ge [of raw] by simp
  then show ?thesis
    using encode_words_total [of raw] encode_escaped_total assms
    by (cases w) (auto simp: encode_raw_def BpeEngine)
qed

lemma encode_fragments_total:
  assumes "\<And>r. RawText r \<in> set fs \<Longrightarrow> Suc (length (utf8_bytes r)) < USIZE_NONE"
  shows "encode_fragments gc tk fs b out \<noteq> None"
  using assms
proof (induction fs arbitrary: b out)
  case (Cons f fs)
  show ?case
  proof (cases f)
    case (RawText r)
    then obtain ids where "encode_raw gc tk r b out = Some ids"
      using encode_raw_total [of r gc tk b out] Cons.prems [of r] by auto
    then show ?thesis using Cons.IH Cons.prems by (simp add: RawText)
  qed (use Cons in simp)
qed simp


section \<open>Decoding what was encoded\<close>

lemma encode_char_ascii: "x \<in> set (encode_char c) \<Longrightarrow> x < 128 \<Longrightarrow> c < 128 \<and> encode_char c = [c]"
  by (auto simp: encode_char_def split: if_splits)

lemma ascii_bytes: "\<forall>c \<in> set t. c < 128 \<Longrightarrow> utf8_bytes t = t"
  by (induction t) (auto simp: utf8_bytes_Cons encode_char_def)

lemma bytes_ascii: "\<forall>x \<in> set (utf8_bytes t). x < 128 \<Longrightarrow> utf8_bytes t = t"
proof (induction t)
  case (Cons c t)
  obtain x xs where "encode_char c = x # xs" using length_encode_char [of c] by (cases "encode_char c") auto
  then have "encode_char c = [c]"
    using encode_char_ascii [of x c] Cons.prems by (auto simp: utf8_bytes_Cons)
  then show ?case using Cons by (simp add: utf8_bytes_Cons)
qed simp

lemma bytes_less: "\<forall>c \<in> set t. is_scalar c \<Longrightarrow> \<forall>x \<in> set (utf8_bytes t). x < 256"
  by (induction t) (auto simp: utf8_bytes_Cons encode_char_def is_scalar_def split: if_splits)

lemma ascii_prefix: "utf8_bytes s = t @ b \<Longrightarrow> \<forall>c \<in> set t. c < 128 \<Longrightarrow> \<exists>d. s = t @ d"
proof (induction t arbitrary: s)
  case (Cons x t)
  then obtain c s' where s: "s = c # s'" by (cases s) auto
  have "x \<in> set (encode_char c)"
    using Cons.prems(1) length_encode_char [of c] by (cases "encode_char c") (auto simp: s utf8_bytes_Cons)
  then have "c < 128 \<and> encode_char c = [c]" using Cons.prems(2) encode_char_ascii by auto
  then show ?case using Cons.prems Cons.IH [of s'] by (auto simp: s utf8_bytes_Cons)
qed simp

lemma ascii_part:
  "utf8_bytes s = a @ t @ b \<Longrightarrow> \<forall>c \<in> set t. c < 128 \<Longrightarrow> part_of t s"
proof (induction s arbitrary: a)
  case (Cons c s)
  show ?case
  proof (cases "length (encode_char c) \<le> length a")
    case True
    then have "utf8_bytes s = drop (length (encode_char c)) a @ t @ b"
      using arg_cong [OF Cons.prems(1), of "drop (length (encode_char c))"] by (simp add: utf8_bytes_Cons)
    then show ?thesis
      using Cons.IH Cons.prems(2) part_of_trans [OF _ part_of_drop [of 1 "c # s"]] by simp
  next
    case False
    show ?thesis
    proof (cases t)
      case (Cons x xs)
      have "(encode_char c @ utf8_bytes s) ! length a = x"
        using Cons.prems(1) Cons by (simp add: utf8_bytes_Cons)
      then have x: "encode_char c ! length a = x" using False by (simp add: nth_append)
      then have "x \<in> set (encode_char c)" using False by auto
      then have "encode_char c = [c]" using encode_char_ascii Cons.prems(2) Cons by auto
      then have "a = []" using False by (cases a) auto
      then obtain d where "c # s = t @ d" using ascii_prefix Cons.prems by fastforce
      then show ?thesis unfolding part_of_def by (metis append_Nil)
    next
      case Nil
      then show ?thesis unfolding part_of_def by (metis append_Nil)
    qed
  qed
qed (simp add: part_of_def)


abbreviation alphabet :: "bytes \<Rightarrow> bytes" where
  "alphabet bs \<equiv> utf8_bytes (map byte_to_char bs)"

definition alphabet_complete :: "vocab \<Rightarrow> bool" where
  "alphabet_complete v \<longleftrightarrow> (\<forall>b < 256. vocab_get v (encode_char (byte_to_char b)) \<noteq> None)"

lemma alphabet_scalar: "\<forall>b \<in> set bs. b < 256 \<Longrightarrow> \<forall>c \<in> set (map byte_to_char bs). is_scalar c"
  using remapped_below_less by (fastforce simp: byte_to_char_remapped is_scalar_def)

lemma byte_to_char_inj: "inj_on byte_to_char {..<256}"
  by (rule inj_onI) (metis char_of_byte lessThan_iff option.inject)

lemma alphabet_inj:
  assumes "alphabet xs = alphabet ys" "\<forall>b \<in> set xs. b < 256" "\<forall>b \<in> set ys. b < 256"
  shows "xs = ys"
proof -
  have "map byte_to_char xs = map byte_to_char ys"
    using assms from_utf8_bytes [OF alphabet_scalar] by (metis sum.inject(2))
  moreover have "inj_on byte_to_char (set xs \<union> set ys)"
    using assms(2,3) by (intro inj_on_subset [OF byte_to_char_inj]) auto
  ultimately show ?thesis by (rule map_inj_on)
qed

lemma alphabet_concat: "concat (map alphabet bss) = alphabet (concat bss)"
  by (induction bss) (auto simp: utf8_bytes_append)

definition alphabet_sym :: "vocab \<Rightarrow> piece_sym \<Rightarrow> bytes \<Rightarrow> bool" where
  "alphabet_sym v x bs \<longleftrightarrow>
     (\<exists>i. x = (Some i, alphabet bs) \<and> vocab_piece v i = alphabet bs \<and> i < 2 ^ 32) \<and>
     (\<forall>b \<in> set bs. b < 256)"

lemma alphabet_merge:
  assumes built: "vocab_built ps types v" and rules: "merges_new v rules strict = Inr m"
    and complete: "alphabet_complete v" and bs: "\<forall>b \<in> set bs. b < 256"
  obtains bss where "map (vocab_piece v) (bpe_reference m v (map byte_to_char bs) DropUnknown) = map alphabet bss"
    "concat bss = bs"
proof -
  let ?syms = "merge_all (bpe_cand m) (char_syms v (map byte_to_char bs))"
  have first: "\<exists>d. alphabet_sym v x d" if x: "x \<in> set (char_syms v (map byte_to_char bs))" for x
  proof -
    obtain b where b: "b \<in> set bs" "x = (vocab_get v (encode_char (byte_to_char b)), encode_char (byte_to_char b))"
      using x by (auto simp: char_syms_def)
    then obtain i where i: "vocab_get v (encode_char (byte_to_char b)) = Some i"
      using complete bs by (auto simp: alphabet_complete_def)
    have "vocab_piece v i = encode_char (byte_to_char b) \<and> i < 2 ^ 32"
      using get_Some_piece [OF built i] built_small [OF built] by auto
    then have "alphabet_sym v x [b]" using b bs i by (simp add: alphabet_sym_def utf8_bytes_Cons)
    then show ?thesis ..
  qed
  have step: "\<exists>d. alphabet_sym v z d"
    if xy: "\<exists>d. alphabet_sym v x d" "\<exists>d. alphabet_sym v y d" "bpe_cand m x y = Some (k, z)" for x y k z
  proof -
    obtain a b d e where x: "x = (Some a, alphabet d)" "vocab_piece v a = alphabet d" "a < 2 ^ 32" "\<forall>b \<in> set d. b < 256"
      and y: "y = (Some b, alphabet e)" "vocab_piece v b = alphabet e" "b < 2 ^ 32" "\<forall>b \<in> set e. b < 256"
      using xy(1,2) by (auto simp: alphabet_sym_def)
    then obtain c where c: "merges_get m a b = Some (k, c)" "z = (Some c, alphabet d @ alphabet e)"
      using xy(3) by (auto simp: bpe_cand_def)
    then have "alphabet_sym v z (d @ e)"
      using merges_text [OF built rules x(3) y(3) c(1)] x y by (auto simp: alphabet_sym_def utf8_bytes_append)
    then show ?thesis ..
  qed
  have "\<forall>x \<in> set ?syms. \<exists>d. alphabet_sym v x d"
    by (rule merge_all_set [where P = "\<lambda>x. \<exists>d. alphabet_sym v x d"]) (use first step in blast)+
  then obtain f where f: "\<forall>x \<in> set ?syms. alphabet_sym v x (f x)" by metis
  have pieces: "map (vocab_piece v) (concat (map (emit_sym v DropUnknown) xs)) = map alphabet (map f xs)"
    "map snd xs = map alphabet (map f xs)" if "set xs \<subseteq> set ?syms" for xs
    using that by (induction xs) (auto simp: alphabet_sym_def dest!: f [THEN bspec])
  have "concat (map snd ?syms) = concat (map snd (char_syms v (map byte_to_char bs)))"
    by (rule merge_all_concat) (auto simp: bpe_cand_def split: option.splits)
  moreover have "concat (map snd (char_syms v cs)) = utf8_bytes cs" for cs
    by (simp add: char_syms_def comp_def utf8_bytes_def)
  ultimately have "alphabet (concat (map f ?syms)) = alphabet bs"
    unfolding alphabet_concat [symmetric] pieces(2) [OF subset_refl] by simp
  moreover have "\<forall>b \<in> set (concat (map f ?syms)). b < 256" using f by (auto simp: alphabet_sym_def)
  ultimately have "concat (map f ?syms) = bs" using alphabet_inj bs by blast
  with pieces(1) [OF subset_refl] show ?thesis by (intro that [of "map f ?syms"]) (auto simp: bpe_reference_def)
qed


definition spells :: "vocab \<Rightarrow> nat list \<Rightarrow> bytes list \<Rightarrow> bool" where
  "spells v ids bss \<longleftrightarrow> map (vocab_piece v) ids = map alphabet bss \<and> (\<forall>b \<in> set (concat bss). b < 256)"

lemma word_spelled:
  assumes "vocab_built ps types v" "merges_new v rules strict = Inr m" "alphabet_complete v"
    and bs: "\<forall>b \<in> set bs. b < 256"
  shows "\<exists>bss. spells v (bpe_reference m v (map byte_to_char bs) DropUnknown) bss \<and> concat bss = bs"
  using alphabet_merge [OF assms] bs by (metis spells_def)

lemma encode_words_spells:
  assumes built: "vocab_built ps types (tk_vocab tk)" and rules: "merges_new (tk_vocab tk) rules strict = Inr m"
    and complete: "alphabet_complete (tk_vocab tk)"
    and raw: "\<forall>b \<in> set (utf8_bytes raw). b < 256" "length (utf8_bytes raw) < USIZE_NONE"
  shows "\<exists>ids bss. encode_words tk m p raw rs out = Some (out @ ids) \<and> spells (tk_vocab tk) ids bss \<and>
    concat bss = concat (map (\<lambda>r. utf8_bytes (text_slice raw r)) rs)"
proof (induction rs arbitrary: out)
  case Nil
  show ?case by (auto simp: spells_def intro!: exI [of _ "[]"])
next
  case (Cons r rs)
  let ?bs = "utf8_bytes (text_slice raw r)" and ?v = "tk_vocab tk"
  obtain a b where "utf8_bytes raw = a @ ?bs @ b" using part_of_utf8 [OF part_of_text_slice] by blast
  then have bs: "\<forall>b \<in> set ?bs. b < 256" "length (map byte_to_char ?bs) < USIZE_NONE" using raw by auto
  have "\<exists>ids bss. encode_words tk m p raw (r # rs) out = encode_words tk m p raw rs (out @ ids) \<and>
      spells ?v ids bss \<and> concat bss = ?bs"
  proof (cases "if pt_ignore_merges p then vocab_get ?v (alphabet ?bs) else None")
    case None
    then show ?thesis
      using merge_word_reference [OF bs(2)] word_spelled [OF built rules complete bs(1)] by (auto simp: Let_def)
  next
    case (Some i)
    then have "vocab_piece ?v i = alphabet ?bs"
      using get_Some_piece [OF built, of "alphabet ?bs" i] by (auto split: if_splits)
    then have "spells ?v [i] [?bs]" using bs(1) by (simp add: spells_def)
    moreover have "encode_words tk m p raw (r # rs) out = encode_words tk m p raw rs (out @ [i])"
      using Some by (simp add: Let_def)
    ultimately show ?thesis by (metis append_Nil2 concat.simps)
  qed
  then obtain ids bss where one: "encode_words tk m p raw (r # rs) out = encode_words tk m p raw rs (out @ ids)"
    "spells ?v ids bss" "concat bss = ?bs" by blast
  obtain ids' bss' where rest: "encode_words tk m p raw rs (out @ ids) = Some ((out @ ids) @ ids')"
    "spells ?v ids' bss'" "concat bss' = concat (map (\<lambda>r. utf8_bytes (text_slice raw r)) rs)"
    using Cons.IH by blast
  have "spells ?v (ids @ ids') (bss @ bss')" using one(2) rest(2) by (auto simp: spells_def)
  then show ?case using one rest by (intro exI [of _ "ids @ ids'"] exI [of _ "bss @ bss'"]) simp
qed


text \<open>
  Every token renders the text it was made of: it is a plain token, or a special one whose text
  is printable ASCII, so that the split has cut it out of the text before the words are made.
\<close>

definition plain_or_special :: "vocab \<Rightarrow> bool" where
  "plain_or_special v \<longleftrightarrow>
     (\<forall>i < vocab_len v. vocab_token_type v i \<in> {Some TYPE_NORMAL, Some TYPE_UNUSED, Some TYPE_UNDEFINED} \<or>
        is_special_id v i \<and> (\<forall>b \<in> set (vocab_piece v i). 33 \<le> b \<and> b \<le> 126))"

definition decoded :: "tokenizer \<Rightarrow> nat list \<Rightarrow> bytes" where
  "decoded tk ids = concat (map (tk_decode tk) ids)"

definition fragment_bytes :: "tokenizer \<Rightarrow> fragment \<Rightarrow> bytes" where
  "fragment_bytes tk f = (case f of RawText r \<Rightarrow> utf8_bytes r | SpecialToken i \<Rightarrow> tk_decode tk i)"

lemma decode_alphabet_bytes:
  "\<forall>b \<in> set bs. b < 256 \<Longrightarrow> concat (map decode_alphabet (map byte_to_char bs)) = bs"
  by (induction bs) (auto simp: decode_alphabet_def char_of_byte)

lemma decode_plain:
  assumes "vocab_piece (tk_vocab tk) i = alphabet bs" "\<forall>b \<in> set bs. b < 256" "is_byte_level (tk_engine tk)"
    "vocab_token_type (tk_vocab tk) i \<in> {Some TYPE_NORMAL, Some TYPE_UNUSED, Some TYPE_UNDEFINED}"
  shows "tk_decode tk i = bs"
proof -
  have "piece_chars (tk_vocab tk) i = map byte_to_char bs"
    using from_utf8_bytes [OF alphabet_scalar [OF assms(2)]] assms(1) by (simp add: piece_chars_def)
  then show ?thesis using assms(3,4) decode_alphabet_bytes [OF assms(2)] by (auto simp: tk_decode_def)
qed

lemma tk_decode_Nil: "vocab_piece (tk_vocab tk) i = [] \<Longrightarrow> tk_decode tk i = []"
  by (auto simp: tk_decode_def piece_chars_def parse_byte_token_def strip_prefix_def from_utf8_def split: option.splits)

lemma decode_raw_token:
  assumes built: "vocab_built ps types (tk_vocab tk)" "vocab_len (tk_vocab tk) = length ps"
    and types: "plain_or_special (tk_vocab tk)" "is_byte_level (tk_engine tk)"
    and piece: "vocab_piece (tk_vocab tk) i = alphabet bs" "\<forall>b \<in> set bs. b < 256"
    and raw: "utf8_bytes raw = a @ bs @ b"
    and absent: "\<forall>i. is_special_id (tk_vocab tk) i \<longrightarrow> \<not> part_of (piece_chars (tk_vocab tk) i) raw"
  shows "tk_decode tk i = bs"
proof (cases "bs = []")
  case False
  let ?v = "tk_vocab tk"
  have "vocab_piece ?v i \<noteq> []"
  proof -
    have "map byte_to_char bs \<noteq> []" using False by simp
    then show ?thesis unfolding piece(1) using length_utf8_ge [of "map byte_to_char bs"] by auto
  qed
  then have i: "i < vocab_len ?v" using built_piece [OF built(1), of i] built(2) by (auto split: if_splits)
  have "\<not> (is_special_id ?v i \<and> (\<forall>b \<in> set (vocab_piece ?v i). 33 \<le> b \<and> b \<le> 126))"
  proof
    assume s: "is_special_id ?v i \<and> (\<forall>b \<in> set (vocab_piece ?v i). 33 \<le> b \<and> b \<le> 126)"
    let ?cs = "map byte_to_char bs"
    have "\<forall>x \<in> set (alphabet bs). x < 128" using s piece(1) by auto
    then have cs: "alphabet bs = ?cs" by (rule bytes_ascii)
    then have chars: "\<forall>x \<in> set ?cs. 33 \<le> x \<and> x \<le> 126" using s piece(1) by metis
    have "byte_to_char b = b" if "b \<in> set bs" for b
    proof -
      have "b < 256" "byte_to_char b < 256" using chars piece(2) that by fastforce+
      then show ?thesis by (simp add: byte_to_char_remapped split: if_splits)
    qed
    then have "?cs = bs" by (simp add: map_idI)
    then have bs: "vocab_piece ?v i = bs" "\<forall>c \<in> set bs. c < 128" using cs piece(1) chars by fastforce+
    then have "\<forall>c \<in> set bs. is_scalar c" by (auto simp: is_scalar_def)
    then have "piece_chars ?v i = bs"
      using from_utf8_bytes [of bs] ascii_bytes [of bs] bs by (simp add: piece_chars_def)
    then show False using absent s ascii_part [OF raw bs(2)] by metis
  qed
  then show ?thesis using types i decode_plain [OF piece types(2)] by (auto simp: plain_or_special_def)
qed (use piece tk_decode_Nil in simp)


lemma decode_spelled:
  assumes built: "vocab_built ps types (tk_vocab tk)" "vocab_len (tk_vocab tk) = length ps"
    and types: "plain_or_special (tk_vocab tk)" "is_byte_level (tk_engine tk)"
    and absent: "\<forall>i. is_special_id (tk_vocab tk) i \<longrightarrow> \<not> part_of (piece_chars (tk_vocab tk) i) raw"
  shows "spells (tk_vocab tk) ids bss \<Longrightarrow> utf8_bytes raw = a @ concat bss \<Longrightarrow> decoded tk ids = concat bss"
proof (induction ids arbitrary: bss a)
  case (Cons i ids)
  then obtain bs bss' where bss: "bss = bs # bss'" by (cases bss) (auto simp: spells_def)
  then have "tk_decode tk i = bs"
    using Cons.prems by (intro decode_raw_token [OF built types _ _ _ absent, of i bs a "concat bss'"]) (auto simp: spells_def)
  moreover have "decoded tk ids = concat bss'"
    using Cons.prems bss by (intro Cons.IH [of bss' "a @ bs"]) (auto simp: spells_def)
  ultimately show ?case by (simp add: decoded_def bss)
qed (simp add: spells_def decoded_def)

lemma concat_utf8: "concat (map (\<lambda>w. utf8_bytes w) ws) = utf8_bytes (concat ws)"
  by (induction ws) (auto simp: utf8_bytes_append)

lemma encode_fragments_decoded:
  assumes "\<And>r b out. RawText r \<in> set fs \<Longrightarrow>
    \<exists>ids. encode_raw gc tk r b out = Some (out @ ids) \<and> decoded tk ids = utf8_bytes r"
  shows "\<exists>ids. encode_fragments gc tk fs b out = Some (out @ ids) \<and>
    decoded tk ids = concat (map (fragment_bytes tk) fs)"
  using assms
proof (induction fs arbitrary: b out)
  case Nil
  show ?case by (simp add: decoded_def)
next
  case (Cons f fs)
  obtain ids b' where one: "encode_fragments gc tk (f # fs) b out = encode_fragments gc tk fs b' (out @ ids)"
    "decoded tk ids = fragment_bytes tk f"
  proof (cases f)
    case (RawText r)
    then have "RawText r \<in> set (f # fs)" by simp
    from Cons.prems [OF this, of b out] obtain ids
      where "encode_raw gc tk r b out = Some (out @ ids)" "decoded tk ids = utf8_bytes r" by blast
    then show ?thesis by (intro that [of False ids]) (simp_all add: RawText fragment_bytes_def)
  next
    case (SpecialToken i)
    then show ?thesis by (intro that [of True "[i]"]) (simp_all add: fragment_bytes_def decoded_def)
  qed
  obtain ids' where "encode_fragments gc tk fs b' (out @ ids) = Some ((out @ ids) @ ids')"
    "decoded tk ids' = concat (map (fragment_bytes tk) fs)"
    using Cons.IH [OF Cons.prems, of b' "out @ ids"] by (auto simp del: append_assoc)
  then show ?case using one by (intro exI [of _ "ids @ ids'"]) (simp add: decoded_def)
qed

lemma byte_level_engine:
  assumes "gguf_engine md kind v n = Inr e" "is_byte_level e"
  obtains p m rules where "kind = KByte p" "e = BpeEngine m (ByteWords p)" "merges_new v rules False = Inr m"
proof (cases kind)
  case (KByte p)
  then obtain rules where "md_strings md ''tokenizer.ggml.merges'' = Inr rules"
    using assms(1) by (auto simp: gguf_engine_def split: sum.splits)
  moreover then obtain m where "merges_new v (map utf8_bytes rules) False = Inr m"
    using assms(1) KByte by (cases "merges_new v (map utf8_bytes rules) False") (auto simp: gguf_engine_def)
  ultimately show ?thesis using assms(1) KByte that by (auto simp: gguf_engine_def)
next
  case KSpm
  then show ?thesis using assms
    by (cases "gguf_scores md n") (auto simp: gguf_engine_def is_byte_level_def)
next
  case KEscaped
  then show ?thesis using assms
    by (auto simp: gguf_engine_def is_byte_level_def map_sum_def split: sum.splits)
qed

lemma byte_level_round_trip:
  assumes "tk_from_gguf md = Some (Inr tk)" "md_strings md ''tokenizer.ggml.tokens'' = Inr pieces"
    "\<forall>t \<in> set pieces. \<forall>c \<in> set t. is_scalar c" "\<forall>c \<in> set s. is_scalar c"
    "length (utf8_bytes s) < USIZE_NONE" "is_byte_level (tk_engine tk)"
    "alphabet_complete (tk_vocab tk)" "plain_or_special (tk_vocab tk)"
  shows "\<exists>ids. tk_encode gc tk s = Some ids \<and>
    decoded tk ids = concat (map (fragment_bytes tk) (partition_specials tk s))"
proof -
  obtain types engine config rs kind where b: "vocab_built (map utf8_bytes pieces) types (tk_vocab tk)"
    and len: "vocab_len (tk_vocab tk) = length pieces" and tk: "tk = tk_assemble (tk_vocab tk) engine config rs"
    and e: "gguf_engine md kind (tk_vocab tk) (length pieces) = Inr engine"
    and name: "\<forall>p. kind = KByte p \<longrightarrow> (\<exists>name. pre_from_name name = Some (Words p))"
    by (rule from_gguf_tokenizer [OF assms(1,2)])
  have eng: "tk_engine tk = engine" by (subst tk) (simp add: tk_assemble_def)
  obtain p m rules where m: "kind = KByte p" "engine = BpeEngine m (ByteWords p)"
    "merges_new (tk_vocab tk) rules False = Inr m"
    using byte_level_engine [OF e] assms(6) eng by metis
  obtain name where name: "pre_from_name name = Some (Words p)" using name m(1) by blast
  have "\<exists>ids. encode_raw gc tk r b out = Some (out @ ids) \<and> decoded tk ids = utf8_bytes r"
    if r: "RawText r \<in> set (partition_specials tk s)" for r b out
  proof -
    note raw = partition_specials_cuts(2) [OF assms(1-3) r]
    then have len_r: "length (utf8_bytes r) < USIZE_NONE" using assms(5) utf8_part_length [of r s] by linarith
    have "\<forall>c \<in> set r. is_scalar c" using raw assms(4) by (auto simp: part_of_def)
    then have "\<forall>b \<in> set (utf8_bytes r). b < 256" by (rule bytes_less)
    from encode_words_spells [OF b m(3) assms(7) this len_r, of p "pretok_split gc p r" out]
    obtain ids bss where ids: "encode_words tk m p r (pretok_split gc p r) out = Some (out @ ids)"
      "spells (tk_vocab tk) ids bss" "concat bss = concat (map (\<lambda>x. utf8_bytes (text_slice r x)) (pretok_split gc p r))"
      by blast
    have "concat bss = utf8_bytes r"
      using ids(3) concat_utf8 [of "map (text_slice r) (pretok_split gc p r)"] split_text(1) [OF name]
      by (simp add: comp_def)
    moreover have "decoded tk ids = concat bss"
      using b len raw by (intro decode_spelled [OF b _ assms(8,6) _ ids(2), of r "[]"]) (auto simp: calculation)
    ultimately show ?thesis using ids(1) by (simp add: encode_raw_def eng m(2))
  qed
  from encode_fragments_decoded [of "partition_specials tk s" gc tk True "[]", OF this]
  show ?thesis by (simp add: tk_encode_def)
qed


section \<open>A sample tokenizer\<close>

definition sample_pieces :: "utext list" where
  "sample_pieces = map (\<lambda>b. [byte_to_char b]) [0..<256] @ [ustr ''<s>'']"

definition sample_types :: "int list" where
  "sample_types = replicate 256 TYPE_NORMAL @ [TYPE_CONTROL]"

definition sample_md :: metadata where
  "sample_md = [''tokenizer.ggml.model'' \<mapsto> GString (ustr ''gpt2''),
     ''tokenizer.ggml.tokens'' \<mapsto> GArray (map GString sample_pieces),
     ''tokenizer.ggml.token_type'' \<mapsto> GArray (map GI32 sample_types),
     ''tokenizer.ggml.merges'' \<mapsto> GArray []]"

lemma collect_map: "(\<And>x. x \<in> set xs \<Longrightarrow> f (g x) = Inr x) \<Longrightarrow> collect f (map g xs) = Inr xs"
  by (induction xs) auto

lemma sample_length [simp]: "length sample_pieces = 257" "length sample_types = 257"
  by (simp_all add: sample_pieces_def sample_types_def)

lemma sample_tokens: "md_strings sample_md ''tokenizer.ggml.tokens'' = Inr sample_pieces"
  by (simp add: md_strings_def md_array_def sample_md_def collect_map)

lemma sample_token_types: "gguf_types sample_md 257 = Inr sample_types"
proof -
  have "\<forall>i \<in> set sample_types. - (2 ^ 31) \<le> i \<and> i < 2 ^ 31"
    by (simp add: sample_types_def TYPE_NORMAL_def TYPE_CONTROL_def)
  then show ?thesis by (simp add: gguf_types_def md_array_def sample_md_def collect_map)
qed

lemma sample_scalar: "\<forall>t \<in> set sample_pieces. \<forall>c \<in> set t. is_scalar c"
proof -
  have "is_scalar (byte_to_char b)" if "b < 256" for b using alphabet_scalar [of "[b]"] that by simp
  then show ?thesis by (auto simp: sample_pieces_def ustr_def is_scalar_def)
qed

lemma sample_vocab_ok:
  obtains v where "vocab_new (map utf8_bytes sample_pieces) sample_types = Some (Inr v)"
    "vocab_built (map utf8_bytes sample_pieces) sample_types v"
proof -
  have "sum_list (map length (map utf8_bytes sample_pieces)) \<le> sum_list (map (\<lambda>t. 4 * length t) sample_pieces)"
    by (simp add: comp_def sum_list_mono length_utf8_le)
  also have "\<dots> \<le> u32_max"
    by (simp add: sample_pieces_def comp_def ustr_def u32_max_def sum_list_triv)
  finally show ?thesis
    using vocab_new_builds [of "map utf8_bytes sample_pieces" sample_types] that
    by (auto simp: str_start_utf8 EMPTY_SLOT_def u32_max_def)
qed

lemma sample_tokenizer:
  obtains tk where "tk_from_gguf sample_md = Some (Inr tk)"
    "vocab_built (map utf8_bytes sample_pieces) sample_types (tk_vocab tk)"
    "is_byte_level (tk_engine tk)" "tk_specials tk = [\<lparr>sp_id = 256, sp_lstrip = False, sp_rstrip = False\<rparr>]"
    "tk_config tk = \<lparr>cfg_bos = None, cfg_eos = None, cfg_add_bos = False, cfg_add_eos = False\<rparr>"
proof -
  obtain v where v: "vocab_new (map utf8_bytes sample_pieces) sample_types = Some (Inr v)"
    "vocab_built (map utf8_bytes sample_pieces) sample_types v" by (rule sample_vocab_ok)
  obtain p where p: "pre_from_name None = Some (Words p)" "\<not> pt_add_bos p"
    by (simp add: pre_from_name_def named_def)
  have model: "md_string sample_md ''tokenizer.ggml.model'' = Some (ustr ''gpt2'')"
    "md_string sample_md ''tokenizer.ggml.pre'' = None"
    by (simp_all add: md_string_def sample_md_def)
  have kind: "gguf_kind sample_md (ustr ''gpt2'') = Inr (KByte p)"
    using p by (simp add: gguf_kind_def model) (simp add: ustr_def)
  have rules: "md_strings sample_md ''tokenizer.ggml.merges'' = Inr []"
    by (simp add: md_strings_def md_array_def sample_md_def)
  have engine: "gguf_engine sample_md (KByte p) v n = Inr (BpeEngine \<lparr>merge_table = Map.empty\<rparr> (ByteWords p))" for n
    by (simp add: gguf_engine_def rules merges_new_def)
  have phi: "\<not> md_is_phi3 sample_md (ustr ''gpt2'')"
    by (simp add: md_is_phi3_def md_string_def sample_md_def List.map_filter_def)
  have config: "gguf_config sample_md (KByte p) n =
      \<lparr>cfg_bos = None, cfg_eos = None, cfg_add_bos = False, cfg_add_eos = False\<rparr>" for n
    using p(2) by (simp add: gguf_config_def md_token_id_def md_boolean_def sample_md_def)
  define tk where "tk = tk_assemble v (BpeEngine \<lparr>merge_table = Map.empty\<rparr> (ByteWords p))
    \<lparr>cfg_bos = None, cfg_eos = None, cfg_add_bos = False, cfg_add_eos = False\<rparr> False"
  have gguf: "tk_from_gguf sample_md = Some (Inr tk)"
    by (simp add: tk_from_gguf_def model kind sample_tokens sample_token_types v(1) engine config phi tk_def)
  have types: "vocab_token_type v i = (if i < 257 then Some (sample_types ! i) else None)" "vocab_len v = 257" for i
    using v(2) by (simp_all add: vocab_built_def filling_def vocab_token_type_def vocab_len_def)
  have "is_special_id v i \<longleftrightarrow> i = 256" if "i < 257" for i
    using that types(1) [of i] built_piece [OF v(2), of i]
    by (auto simp: is_special_id_def sample_types_def nth_append sample_pieces_def TYPE_NORMAL_def
        TYPE_CONTROL_def TYPE_USER_DEFINED_def TYPE_UNKNOWN_def ustr_def utf8_bytes_Cons encode_char_def
        split: if_splits)
  then have "filter (is_special_id v) [0..<256] = []" "is_special_id v 256" by (auto simp: filter_empty_conv)
  moreover have "[0..<257] = [0..<256] @ [256 :: nat]"
    using upt_Suc [of 0 256] by (simp del: upt_Suc)
  ultimately have "filter (is_special_id v) [0..<257] = [256]" by (simp del: upt_Suc)
  then have "tk_specials tk = [\<lparr>sp_id = 256, sp_lstrip = False, sp_rstrip = False\<rparr>]"
    by (simp add: tk_def tk_assemble_def types(2) sort_by_def)
  with gguf show ?thesis
    by (intro that [of tk]) (simp_all add: tk_def tk_assemble_def v(2) is_byte_level_def)
qed


lemma sample_complete:
  assumes "vocab_built (map utf8_bytes sample_pieces) sample_types v"
  shows "alphabet_complete v"
  unfolding alphabet_complete_def
proof (intro allI impI)
  fix b :: nat assume "b < 256"
  then have "encode_char (byte_to_char b) \<in> set (map utf8_bytes sample_pieces)"
    by (auto simp: sample_pieces_def utf8_bytes_Cons image_image)
  moreover have "encode_char (byte_to_char b) \<noteq> []" using length_encode_char [of "byte_to_char b"] by auto
  ultimately show "vocab_get v (encode_char (byte_to_char b)) \<noteq> None"
    unfolding built_get [OF assms] first_id_None by blast
qed

lemma sample_special:
  assumes "vocab_built (map utf8_bytes sample_pieces) sample_types v"
  shows "is_special_id v 256" "vocab_piece v 256 = [60, 115, 62]" "piece_chars v 256 = [60, 115, 62]"
proof -
  have "vocab_token_type v 256 = Some TYPE_CONTROL"
    using assms by (simp add: vocab_built_def filling_def vocab_token_type_def sample_types_def nth_append)
  moreover show piece: "vocab_piece v 256 = [60, 115, 62]"
    using built_piece [OF assms, of 256]
    by (simp add: sample_pieces_def nth_append ustr_def utf8_bytes_Cons encode_char_def)
  ultimately show "is_special_id v 256" by (simp add: is_special_id_def)
  have "utf8_bytes [60, 115, 62] = [60, 115, 62]" by (simp add: ascii_bytes)
  moreover have "\<forall>c \<in> set [60, 115, 62]. is_scalar c" by (simp add: is_scalar_def)
  ultimately have "from_utf8 [60, 115, 62] = Inr [60, 115, 62]" using from_utf8_bytes by metis
  then show "piece_chars v 256 = [60, 115, 62]" by (simp add: piece_chars_def piece)
qed

lemma sample_plain:
  assumes "vocab_built (map utf8_bytes sample_pieces) sample_types v"
  shows "plain_or_special v"
proof -
  have types: "vocab_token_type v i = (if i < 257 then Some (sample_types ! i) else None)" "vocab_len v = 257" for i
    using assms by (simp_all add: vocab_built_def filling_def vocab_token_type_def vocab_len_def)
  have "vocab_token_type v i = Some TYPE_NORMAL" if "i < 256" for i
    using that by (simp add: types sample_types_def nth_append)
  moreover have "is_special_id v 256 \<and> (\<forall>b \<in> set (vocab_piece v 256). 33 \<le> b \<and> b \<le> 126)"
    using sample_special [OF assms] by simp
  moreover have "i < 256 \<or> i = 256" if "i < 257" for i :: nat using that by linarith
  ultimately show ?thesis unfolding plain_or_special_def types(2) by blast
qed

section \<open>Construction and encoding are total\<close>

lemma encode_never_panics:
  assumes "tk_from_gguf md = Some (Inr tk)" "md_strings md ''tokenizer.ggml.tokens'' = Inr pieces"
    "\<forall>t \<in> set pieces. \<forall>c \<in> set t. is_scalar c" "Suc (length (utf8_bytes s)) < USIZE_NONE"
  shows "tk_encode gc tk s \<noteq> None"
  unfolding tk_encode_def
proof (rule encode_fragments_total)
  fix r assume "RawText r \<in> set (partition_specials tk s)"
  then have "part_of r s" using partition_specials_cuts(2) [OF assms(1-3)] by blast
  then show "Suc (length (utf8_bytes r)) < USIZE_NONE" using utf8_part_length [of r s] assms(4) by linarith
qed

lemma from_gguf_never_panics: "tk_from_gguf md \<noteq> None"
proof -
  have "vocab_new (map utf8_bytes pieces) types \<noteq> None" for pieces types
    using vocab_new_builds [of "map utf8_bytes pieces" types]
    by (cases "length (map utf8_bytes pieces) = length types \<and>
        sum_list (map length (map utf8_bytes pieces)) \<le> u32_max \<and> length (map utf8_bytes pieces) < EMPTY_SLOT")
      (auto simp: str_start_utf8 vocab_new_def Let_def)
  then have never: "vocab_new (map utf8_bytes pieces) types = None \<Longrightarrow> False" for pieces types by blast
  show ?thesis by (auto simp: tk_from_gguf_def dest: never split: option.splits sum.splits)
qed

text \<open>
  The fragments spell a text when their texts in order are the text, except for white space right
  after a special token that strips it.
\<close>

inductive fragments_spell :: "vocab \<Rightarrow> special list \<Rightarrow> fragment list \<Rightarrow> utext \<Rightarrow> bool"
  for v :: vocab and sps :: "special list" where
  spell_nil: "fragments_spell v sps [] []"
| spell_raw: "fragments_spell v sps fs s \<Longrightarrow> fragments_spell v sps (RawText r # fs) (r @ s)"
| spell_special: "fragments_spell v sps fs s \<Longrightarrow> \<forall>c \<in> set w. is_c_space c \<Longrightarrow>
    w = [] \<or> (\<exists>sp \<in> set sps. sp_id sp = i \<and> sp_rstrip sp) \<Longrightarrow>
    fragments_spell v sps (SpecialToken i # fs) (piece_chars v i @ w @ s)"

inductive_cases spell_rawE: "fragments_spell v sps (RawText r # fs) s"
inductive_cases spell_specialE: "fragments_spell v sps (SpecialToken i # fs) s"
inductive_cases spell_nilE: "fragments_spell v sps [] s"

lemma spell_append:
  "fragments_spell v sps fs a \<Longrightarrow> fragments_spell v sps gs b \<Longrightarrow> fragments_spell v sps (fs @ gs) (a @ b)"
  by (induction rule: fragments_spell.induct) (auto intro: fragments_spell.intros)

lemma spell_raws: "fragments_spell v sps (if r \<noteq> [] then [RawText r] else []) r"
  using spell_raw [OF spell_nil, of v sps r] by (auto intro: spell_nil)

lemma cut_special_spells:
  assumes "sp \<in> set sps" "\<not> sp_lstrip sp" "t = piece_chars v (sp_id sp)"
  shows "fragments_spell v sps (cut_special t sp rest) rest"
  using assms
proof (induction t sp rest rule: cut_special.induct)
  case (1 t sp rest)
  show ?case
  proof (cases "if t = [] then None else find_sub t rest")
    case None
    have "cut_special t sp rest = (if rest \<noteq> [] then [RawText rest] else [])"
      by (subst cut_special.simps) (simp only: None option.case)
    then show ?thesis using spell_raws by metis
  next
    case (Some pos)
    let ?after = "drop (pos + length t) rest"
    let ?rest = "if sp_rstrip sp then trim_start is_c_space ?after else ?after"
    let ?w = "if sp_rstrip sp then takeWhile is_c_space ?after else []"
    have cut: "cut_special t sp rest = (if take pos rest \<noteq> [] then [RawText (take pos rest)] else []) @
        SpecialToken (sp_id sp) # cut_special t sp ?rest"
      by (subst cut_special.simps) (simp only: Some option.case Let_def "1.prems"(2) if_False)
    have "find_sub t rest = Some pos" using Some by (simp split: if_splits)
    then have "rest = take pos rest @ t @ ?after"
      unfolding find_sub_Some by (metis add.commute append_take_drop_id drop_drop)
    moreover have "?after = ?w @ ?rest"
      by (cases "sp_rstrip sp") (simp_all add: trim_start_def)
    ultimately have split: "rest = take pos rest @ piece_chars v (sp_id sp) @ ?w @ ?rest"
      using "1.prems"(3) by metis
    have "fragments_spell v sps (cut_special t sp ?rest) ?rest"
      by (rule "1.IH" [OF Some refl refl refl refl "1.prems"])
    then have "fragments_spell v sps (SpecialToken (sp_id sp) # cut_special t sp ?rest)
        (piece_chars v (sp_id sp) @ ?w @ ?rest)"
      using "1.prems"(1) by (intro spell_special) (auto dest: set_takeWhileD)
    from spell_append [OF spell_raws this] show ?thesis unfolding cut using split by metis
  qed
qed

lemma cut_fragment_spells:
  assumes "sp \<in> set sps" "\<not> sp_lstrip sp" "fragments_spell v sps fs s"
  shows "fragments_spell v sps (concat (map (cut_fragment (piece_chars v (sp_id sp)) sp) fs)) s"
  using assms(3)
proof (induction rule: fragments_spell.induct)
  case (spell_raw fs s r)
  from spell_append [OF cut_special_spells [OF assms(1,2) refl] spell_raw.IH] show ?case by simp
qed (auto intro: fragments_spell.intros)

lemma cut_all_spells:
  assumes "set sps' \<subseteq> set sps" "\<forall>sp \<in> set sps. \<not> sp_lstrip sp" "fragments_spell v sps fs s"
  shows "fragments_spell v sps (cut_all v sps' fs) s"
  using assms
proof (induction sps' arbitrary: fs)
  case (Cons sp sps')
  then have "fragments_spell v sps (concat (map (cut_fragment (piece_chars v (sp_id sp)) sp) fs)) s"
    by (intro cut_fragment_spells) auto
  with Cons show ?case by (simp add: cut_all_def)
qed (simp add: cut_all_def)

lemma partition_specials_spells:
  assumes "tk_from_gguf md = Some (Inr tk)" "md_strings md ''tokenizer.ggml.tokens'' = Inr pieces"
    "\<forall>t \<in> set pieces. \<forall>c \<in> set t. is_scalar c"
  shows "fragments_spell (tk_vocab tk) (tk_specials tk) (partition_specials tk s) s"
proof -
  obtain types engine config rs where tk: "tk = tk_assemble (tk_vocab tk) engine config rs"
    by (rule from_gguf_tokenizer [OF assms(1,2)])
  have "\<not> sp_lstrip sp" if "sp \<in> set (tk_specials tk)" for sp
    using that by (subst (asm) tk) (auto dest: assemble_specials(1))
  then have "fragments_spell (tk_vocab tk) (tk_specials tk)
      (cut_all (tk_vocab tk) (tk_specials tk) [RawText s]) s"
    using spell_raw [OF spell_nil, of _ _ s] by (intro cut_all_spells) auto
  then show ?thesis using partition_specials_cuts(1) [OF assms, of s] by (simp add: spell_nil)
qed

text \<open>A text with no special token in it is one raw fragment.\<close>

lemma partition_specials_none:
  assumes "\<forall>sp \<in> set (tk_specials tk). \<not> contains s (piece_chars (tk_vocab tk) (sp_id sp))"
  shows "partition_specials tk s = (if s = [] then [] else [RawText s])"
proof -
  have "cut_specials v b sps [RawText s] = [RawText s]"
    if "\<forall>sp \<in> set sps. \<not> contains s (piece_chars v (sp_id sp))" for v b sps
    using that by (induction sps) (auto simp: Let_def split: list.splits)
  with assms show ?thesis by (simp add: partition_specials_def)
qed

text \<open>
C36: The split of special tokens with its two prefilters cuts exactly what cutting every special
  token in turn would cut; no raw fragment is empty or contains the text of a special token; and
  the fragments in order spell the text, except for white space right after a special token that
  strips the white space to its right (the specials of Phi-3 do). If no special strips, they spell
  the text.
\<close>

theorem special_split_needs_no_prefilter:
  assumes "tk_from_gguf md = Some (Inr tk)" "md_strings md ''tokenizer.ggml.tokens'' = Inr pieces"
    "\<forall>t \<in> set pieces. \<forall>c \<in> set t. is_scalar c"
  shows "partition_specials tk s = (if s = [] then [] else cut_all (tk_vocab tk) (tk_specials tk) [RawText s]) \<and>
    (\<forall>r. RawText r \<in> set (partition_specials tk s) \<longrightarrow>
       r \<noteq> [] \<and> (\<forall>i. is_special_id (tk_vocab tk) i \<longrightarrow> \<not> contains r (piece_chars (tk_vocab tk) i))) \<and>
    fragments_spell (tk_vocab tk) (tk_specials tk) (partition_specials tk s) s \<and>
    ((\<forall>sp \<in> set (tk_specials tk). \<not> sp_rstrip sp) \<longrightarrow>
       concat (map (fragment_text (tk_vocab tk)) (partition_specials tk s)) = s)"
proof (intro conjI allI impI)
  show "partition_specials tk s = (if s = [] then [] else cut_all (tk_vocab tk) (tk_specials tk) [RawText s])"
    by (rule partition_specials_cuts(1) [OF assms])
next
  fix r assume r: "RawText r \<in> set (partition_specials tk s)"
  note raw = partition_specials_cuts(2) [OF assms this]
  then show "r \<noteq> []" by blast
  show "\<not> contains r (piece_chars (tk_vocab tk) i)" if "is_special_id (tk_vocab tk) i" for i
    using raw that unfolding contains_part by blast
next
  show "fragments_spell (tk_vocab tk) (tk_specials tk) (partition_specials tk s) s"
    by (rule partition_specials_spells [OF assms])
next
  assume "\<forall>sp \<in> set (tk_specials tk). \<not> sp_rstrip sp"
  then show "concat (map (fragment_text (tk_vocab tk)) (partition_specials tk s)) = s"
    by (rule partition_specials_cuts(3) [OF assms])
qed

theorem special_split_needs_no_prefilter_witness:
  "\<exists>tk. tk_from_gguf sample_md = Some (Inr tk) \<and>
     concat (map (fragment_text (tk_vocab tk)) (partition_specials tk [97, 60, 115, 62, 98])) = [97, 60, 115, 62, 98] \<and>
     \<not> RawText [97, 60, 115, 62] \<in> set (partition_specials tk [97, 60, 115, 62, 98])"
proof -
  obtain tk where tk: "tk_from_gguf sample_md = Some (Inr tk)"
    "vocab_built (map utf8_bytes sample_pieces) sample_types (tk_vocab tk)"
    "tk_specials tk = [\<lparr>sp_id = 256, sp_lstrip = False, sp_rstrip = False\<rparr>]"
    by (rule sample_tokenizer)
  note split = special_split_needs_no_prefilter [OF tk(1) sample_tokens sample_scalar, of "[97, 60, 115, 62, 98]"]
  have "is_special_id (tk_vocab tk) 256" "piece_chars (tk_vocab tk) 256 = [60, 115, 62]"
    using sample_special [OF tk(2)] by simp_all
  moreover have "part_of [60, 115, 62] [97, 60, 115, 62]"
    unfolding part_of_def by (intro exI [of _ "[97]"] exI [of _ "[]"]) simp
  ultimately have "\<not> RawText [97, 60, 115, 62] \<in> set (partition_specials tk [97, 60, 115, 62, 98])"
    using split unfolding contains_part by metis
  moreover have "\<forall>sp \<in> set (tk_specials tk). \<not> sp_rstrip sp" by (simp add: tk(3))
  ultimately show ?thesis using split tk(1) by blast
qed

text \<open>
C37: Byte-level BPE loses no raw text. With the whole GPT-2 alphabet in the vocabulary, and every
  token either plain or a special one of printable ASCII, encoding a text ends, and decoding its
  ids gives, fragment by fragment of the split of special tokens, the bytes of a raw fragment and
  what the special token itself decodes to (nothing, for a control token) for a special one. So a
  text with no special token in it decodes to exactly its bytes.
\<close>

theorem byte_level_text_round_trips:
  assumes "tk_from_gguf md = Some (Inr tk)" "md_strings md ''tokenizer.ggml.tokens'' = Inr pieces"
    "\<forall>t \<in> set pieces. \<forall>c \<in> set t. is_scalar c" "\<forall>c \<in> set s. is_scalar c"
    "length (utf8_bytes s) < USIZE_NONE" "is_byte_level (tk_engine tk)"
    "alphabet_complete (tk_vocab tk)" "plain_or_special (tk_vocab tk)"
  shows "\<exists>ids. tk_encode gc tk s = Some ids \<and>
    concat (map (tk_decode tk) ids) =
      concat (map (\<lambda>f. case f of RawText r \<Rightarrow> utf8_bytes r | SpecialToken i \<Rightarrow> tk_decode tk i)
        (partition_specials tk s)) \<and>
    ((\<forall>sp \<in> set (tk_specials tk). \<not> contains s (piece_chars (tk_vocab tk) (sp_id sp))) \<longrightarrow>
      concat (map (tk_decode tk) ids) = utf8_bytes s)"
proof -
  obtain ids where ids: "tk_encode gc tk s = Some ids"
    "concat (map (tk_decode tk) ids) =
      concat (map (\<lambda>f. case f of RawText r \<Rightarrow> utf8_bytes r | SpecialToken i \<Rightarrow> tk_decode tk i)
        (partition_specials tk s))"
    using byte_level_round_trip [OF assms] by (auto simp: decoded_def fragment_bytes_def [abs_def])
  moreover have "concat (map (tk_decode tk) ids) = utf8_bytes s"
    if "\<forall>sp \<in> set (tk_specials tk). \<not> contains s (piece_chars (tk_vocab tk) (sp_id sp))"
    using ids(2) by (simp add: partition_specials_none [OF that] utf8_bytes_def)
  ultimately show ?thesis by blast
qed

theorem byte_level_text_round_trips_witness:
  "\<exists>tk ids. tk_from_gguf sample_md = Some (Inr tk) \<and>
     tk_encode (\<lambda>_. OtherCategory) tk [104, 32, 233] = Some ids \<and>
     concat (map (tk_decode tk) ids) = [104, 32, 195, 169]"
proof -
  obtain tk where tk: "tk_from_gguf sample_md = Some (Inr tk)"
    "vocab_built (map utf8_bytes sample_pieces) sample_types (tk_vocab tk)" "is_byte_level (tk_engine tk)"
    "tk_specials tk = [\<lparr>sp_id = 256, sp_lstrip = False, sp_rstrip = False\<rparr>]"
    by (rule sample_tokenizer)
  have bytes: "utf8_bytes [104, 32, 233] = [104, 32, 195, 169]" by (simp add: utf8_bytes_def encode_char_def)
  have "\<forall>sp \<in> set (tk_specials tk). \<not> contains [104, 32, 233] (piece_chars (tk_vocab tk) (sp_id sp))"
    using sample_special [OF tk(2)] by (auto simp: tk(4) contains_def find_sub.simps)
  then show ?thesis
    using byte_level_text_round_trips [OF tk(1) sample_tokens sample_scalar _ _ tk(3)
        sample_complete [OF tk(2)] sample_plain [OF tk(2)], of "[104, 32, 233]" "\<lambda>_. OtherCategory"] tk(1)
    by (auto simp: bytes is_scalar_def USIZE_NONE_def u64_max_def)
qed

end
