(* ===== verification/Output_Bytes.thy ===== *)
theory Output_Bytes
  imports Output_Chunks Utf8_Stream Encoding
begin

text \<open>
  How a reply is cut into tokens does not matter to the parser, even where a cut splits a character:
  pushing tokens one by one and reading all their bytes at once lead to the same state and output.
\<close>

section \<open>Fields the text does not touch\<close>

text \<open>The bytes not yet decoded and the count of reasoning tokens.\<close>

definition rig :: "bytes \<Rightarrow> nat \<Rightarrow> 'n output_run \<Rightarrow> 'n output_run" where
  "rig p n r = r\<lparr>op_pending := p, op_reasoning_tokens := n\<rparr>"

lemma rig_fields [simp]:
  "op_format (rig p n r) = op_format r" "op_markers (rig p n r) = op_markers r"
  "op_header_word (rig p n r) = op_header_word r" "op_state (rig p n r) = op_state r"
  "op_pending (rig p n r) = p" "op_hold (rig p n r) = op_hold r" "op_reasoning_tokens (rig p n r) = n"
  "op_trim_leading_ws (rig p n r) = op_trim_leading_ws r" "op_strip_one_space (rig p n r) = op_strip_one_space r"
  "op_json_call_window (rig p n r) = op_json_call_window r" "or_out (rig p n r) = or_out r"
  "or_calls (rig p n r) = or_calls r" "rig p n (rig p' n' r) = rig p n r"
  "active_markers (rig p n r) = active_markers r" "in_json (rig p n r) = in_json r" "tagged (rig p n r) = tagged r"
  by (cases "op_state r"; auto simp: rig_def active_markers_def in_json_def tagged_def)+

lemma rig_swap:
  "(rig p n r)\<lparr>op_state := a\<rparr> = rig p n (r\<lparr>op_state := a\<rparr>)"
  "(rig p n r)\<lparr>op_hold := h\<rparr> = rig p n (r\<lparr>op_hold := h\<rparr>)"
  "(rig p n r)\<lparr>op_trim_leading_ws := b\<rparr> = rig p n (r\<lparr>op_trim_leading_ws := b\<rparr>)"
  "(rig p n r)\<lparr>op_strip_one_space := b\<rparr> = rig p n (r\<lparr>op_strip_one_space := b\<rparr>)"
  "(rig p n r)\<lparr>op_json_call_window := b\<rparr> = rig p n (r\<lparr>op_json_call_window := b\<rparr>)"
  "(rig p n r)\<lparr>or_out := y\<rparr> = rig p n (r\<lparr>or_out := y\<rparr>)"
  "(rig p n r)\<lparr>or_calls := c\<rparr> = rig p n (r\<lparr>or_calls := c\<rparr>)"
  "(rig p n r)\<lparr>op_pending := p'\<rparr> = rig p' n r" "(rig p n r)\<lparr>op_reasoning_tokens := n'\<rparr> = rig p n' r"
  by (cases r; simp add: rig_def)+

lemma obs_rig: "observed r = observed s \<Longrightarrow> observed (rig p n r) = observed (rig p n s)"
  by (cases r; cases s) (simp add: rig_def observed_def out_items_def)

lemma emit_with_rig: "emit_with f t (rig p n r) = rig p n (emit_with f t r)"
  by (simp add: emit_with_def trim_prefix_def Let_def rig_swap)

lemma resolve_header_rig: "resolve_header f (rig p n r) = rig p n (resolve_header f r)"
  using emit_with_rig [where r = "r\<lparr>op_state := Thinking\<rparr>" and p = p and n = n]
  by (simp add: resolve_header_def Let_def emit_thinking_with rig_swap split: out_state.split option.split)

lemma push_calls_rig: "push_calls ev calls (rig p n r) = rig p n (push_calls ev calls r)"
proof (induction calls arbitrary: r)
  case (Cons c calls)
  obtain name args where c: "c = (name, args)" by (cases c)
  show ?case using Cons.IH by (simp add: c rig_swap)
qed simp

lemma finish_tool_call_rig: "finish_tool_call ev b (rig p n r) = rig p n (finish_tool_call ev b r)"
  using push_calls_rig [where r = "r\<lparr>op_trim_leading_ws := True\<rparr>" and p = p and n = n and ev = ev]
  by (simp add: finish_tool_call_def Let_def rig_swap split: sum.split)

lemma route_rig:
  assumes "tagged r"
  shows "route ev t (rig p n r) = rig p n (route ev t r)"
proof -
  have "\<not> op_json_call_window r" "\<not> op_json_call_window (rig p n r)" using assms by (auto simp: tagged_def)
  then show ?thesis
    using resolve_header_rig [where r = "r\<lparr>op_state := Header (h @ t)\<rparr>" and p = p and n = n for h]
    by (simp add: route_def emit_content_with emit_thinking_with emit_with_rig rig_swap split: out_state.split)
qed

lemma apply_action_rig:
  assumes "tagged r"
  shows "apply_action ev a (rig p n r) = rig p n (apply_action ev a r)"
  using assms finish_tool_call_rig [where r = "r\<lparr>op_state := Content\<rparr>" and p = p and n = n and ev = ev]
  by (cases a) (simp_all add: apply_action_tagged resolve_header_rig rig_swap split: out_state.split)

lemma process_hold_rig:
  assumes "tagged r" "good_table (op_markers r)"
  shows "process_hold ev (rig p n r) = rig p n (process_hold ev r)"
  using assms
proof (induction "length (op_hold r)" arbitrary: r rule: less_induct)
  case less
  note good = good_active [OF less.prems(2)]
  have nj: "\<not> in_json r" using less.prems(1) by (simp add: tagged_def)
  then have njr: "\<not> in_json (rig p n r)" by simp
  show ?case
  proof (cases "earliest_marker (op_hold r) (active_markers r)")
    case None
    let ?k = "length (op_hold r) - partial_marker_suffix (op_hold r) (active_markers r)"
    have "tagged (r\<lparr>op_hold := drop ?k (op_hold r)\<rparr>)" using less.prems(1) by simp
    then show ?thesis
      using process_hold_quiet [OF nj None refl, of ev] process_hold_quiet [OF njr _ refl, of ev] None
      by (simp add: rig_swap route_rig)
  next
    case (Some e)
    then obtain pos len a where e: "earliest_marker (op_hold r) (active_markers r) = Some (pos, len, a)" by (cases e) auto
    note fits = earliest_append(2,3) [OF good e]
    let ?r = "r\<lparr>op_hold := drop (pos + len) (op_hold r)\<rparr>"
    have t1: "tagged ?r" using less.prems(1) by simp
    note t2 = route_setup [OF t1, of ev "take pos (op_hold r)"]
    note t3 = apply_action_setup [OF t2(1), of ev a]
    have "process_hold ev (rig p n (apply_action ev a (route ev (take pos (op_hold r)) ?r))) =
        rig p n (process_hold ev (apply_action ev a (route ev (take pos (op_hold r)) ?r)))"
      using fits t2 t3 less.prems(2) by (intro less.hyps) (auto simp: same_setup_def)
    then show ?thesis
      using fits e by (simp add: process_hold_other [OF nj] process_hold_other [OF njr] rig_swap
          route_rig [OF t1] apply_action_rig [OF t2(1)])
  qed
qed

lemma feed_text_rig:
  "tagged r \<Longrightarrow> good_table (op_markers r) \<Longrightarrow> feed_text ev t (rig p n r) = rig p n (feed_text ev t r)"
  using process_hold_rig [of "r\<lparr>op_hold := op_hold r @ t\<rparr>" ev p n] by (simp add: feed_text_def rig_swap)


section \<open>Bytes in pieces\<close>

text \<open>\<open>drain_pending\<close>, in terms of what the bytes decode to.\<close>

definition feed_some :: "'n output_env \<Rightarrow> utext \<Rightarrow> 'n output_run \<Rightarrow> 'n output_run" where
  "feed_some ev t r = (if t = [] then r else feed_text ev t r)"

lemma feed_some_pending [simp]: "op_pending (feed_some ev t r) = op_pending r"
  by (simp add: feed_some_def)

lemma hold_pending: "r\<lparr>op_hold := h, op_pending := p\<rparr> = r\<lparr>op_pending := p, op_hold := h\<rparr>" for r :: "'n output_run"
  by (cases r) simp

lemma drain_valid:
  assumes "from_utf8 (op_pending r) = Inr t"
  shows "drain_pending ev r = feed_some ev t (r\<lparr>op_pending := []\<rparr>)"
proof (cases "op_pending r = []")
  case True
  then have "r\<lparr>op_pending := []\<rparr> = r" by (cases r) simp
  then show ?thesis using True assms by (simp add: drain_pending.simps [of ev r] feed_some_def from_utf8_def)
next
  case False
  then have "t \<noteq> []" using assms from_utf8_nothing by blast
  then show ?thesis
    using False assms by (simp add: drain_pending.simps [of ev r] feed_some_def feed_text_def valid_prefix_def hold_pending)
qed

lemma drain_error:
  fixes ev :: "'n output_env" and r :: "'n output_run"
  assumes e: "from_utf8 (op_pending r) = Inl (k, e)" and t: "from_utf8 (take k (op_pending r)) = Inr t"
  defines "s \<equiv> feed_some ev t (r\<lparr>op_pending := drop k (op_pending r)\<rparr>)"
  shows "e = None \<Longrightarrow> drain_pending ev r = s"
    "e = Some n \<Longrightarrow> drain_pending ev r = drain_pending ev (feed_text ev [65533] (s\<lparr>op_pending := drop (k + n) (op_pending r)\<rparr>))"
proof -
  have ne: "op_pending r \<noteq> []" using e by (auto simp: from_utf8_def)
  obtain "k \<le> length (op_pending r)" using from_utf8_error [OF e] by metis
  have s: "s = (if 0 < k then process_hold ev (r\<lparr>op_hold := op_hold r @ valid_prefix (op_pending r) k,
                                       op_pending := drop k (op_pending r)\<rparr>) else r)"
  proof (cases "k = 0")
    case True
    then have "t = []" "r\<lparr>op_pending := drop k (op_pending r)\<rparr> = r" using t by (auto simp: from_utf8_def)
    then show ?thesis using True by (simp add: s_def feed_some_def)
  next
    case False
    then have "t \<noteq> []" using t from_utf8_nothing ne by fastforce
    then show ?thesis using False t by (simp add: s_def feed_some_def feed_text_def valid_prefix_def hold_pending)
  qed
  have p: "op_pending s = drop k (op_pending r)" by (simp add: s_def)
  show "e = None \<Longrightarrow> drain_pending ev r = s"
    using ne e by (simp add: drain_pending.simps [of ev r] s)
  show "e = Some n \<Longrightarrow> drain_pending ev r = drain_pending ev (feed_text ev [65533] (s\<lparr>op_pending := drop (k + n) (op_pending r)\<rparr>))"
    using ne e p unfolding drain_pending.simps [of ev r] by (simp add: s [symmetric] add.commute)
qed

lemma obs_feed_text [obs_cong]:
  assumes "observed r = observed s"
  shows "observed (feed_text ev t r) = observed (feed_text ev t s)"
  unfolding feed_text_def observed_fields(6) [OF assms] by (intro obs_process_hold obs_update(2) assms)

lemma obs_feed_some: "observed r = observed s \<Longrightarrow> observed (feed_some ev t r) = observed (feed_some ev t s)"
  using obs_feed_text [of r s ev t] by (cases "t = []") (simp_all add: feed_some_def)

lemma obs_drain_pending [obs_cong]:
  "observed r = observed s \<Longrightarrow> observed (drain_pending ev r) = observed (drain_pending ev s)"
proof (induction "length (op_pending s)" arbitrary: r s rule: less_induct)
  case less
  note p = observed_fields(5) [OF less.prems]
  have some: "observed (feed_some ev t (r\<lparr>op_pending := x\<rparr>)) = observed (feed_some ev t (s\<lparr>op_pending := x\<rparr>))" for t x
    by (intro obs_feed_some obs_update less.prems)
  show ?case
  proof (cases "from_utf8 (op_pending s)")
    case (Inr t)
    then show ?thesis using drain_valid [of s t ev] drain_valid [of r t ev] p some by simp
  next
    case (Inl x)
    then obtain k e where e: "from_utf8 (op_pending s) = Inl (k, e)" by (cases x) auto
    then have er: "from_utf8 (op_pending r) = Inl (k, e)" by (simp add: p)
    obtain t where t: "from_utf8 (take k (op_pending s)) = Inr t" "\<And>n. e = Some n \<Longrightarrow> k + n \<le> length (op_pending s) \<and> 0 < n"
      using from_utf8_error [OF e] by metis
    have tr: "from_utf8 (take k (op_pending r)) = Inr t" using t(1) by (simp add: p)
    show ?thesis
    proof (cases e)
      case None
      then show ?thesis using drain_error(1) [OF e t(1)] drain_error(1) [OF er tr] p some by simp
    next
      case (Some n)
      show ?thesis
        unfolding drain_error(2) [OF e t(1) Some] drain_error(2) [OF er tr Some] p
        using t(2) [OF Some] by (intro less.hyps obs_feed_text obs_update(3) some) auto
    qed
  qed
qed


lemma rig_self [simp]: "rig (op_pending r) (op_reasoning_tokens r) r = r"
  by (cases r) (simp add: rig_def)

lemma feed_text_count:
  assumes "tagged r" "good_table (op_markers r)"
  shows "op_reasoning_tokens (feed_text ev t r) = op_reasoning_tokens r"
  using feed_text_rig [OF assms, of ev t "op_pending r" "op_reasoning_tokens r"] by (metis rig_fields(7) rig_self)

lemma rig_pending: "r\<lparr>op_pending := p\<rparr> = rig p (op_reasoning_tokens r) r"
  by (cases r) (simp add: rig_def)

lemma feed_text_update:
  assumes "tagged r" "good_table (op_markers r)"
  shows "feed_text ev t (r\<lparr>op_pending := p\<rparr>) = (feed_text ev t r)\<lparr>op_pending := p\<rparr>"
  using feed_text_rig [OF assms] feed_text_count [OF assms] by (simp add: rig_pending)

lemma feed_some_setup:
  assumes "tagged r"
  shows "tagged (feed_some ev t r)" "op_markers (feed_some ev t r) = op_markers r" "op_format (feed_some ev t r) = op_format r"
  using feed_text_setup [OF assms, of ev t] assms by (auto simp: feed_some_def same_setup_def)

lemma tagged_pending [simp]: "tagged (r\<lparr>op_pending := p\<rparr>) = tagged r"
  by (simp add: rig_pending)

lemma feed_some_append:
  assumes "tagged r" "good_table (op_markers r)"
  shows "observed (feed_some ev (t @ u) (r\<lparr>op_pending := p\<rparr>)) =
    observed (feed_some ev u ((feed_some ev t r)\<lparr>op_pending := p\<rparr>))"
proof -
  have "tagged (r\<lparr>op_pending := p\<rparr>)" "good_table (op_markers (r\<lparr>op_pending := p\<rparr>))" using assms by simp_all
  then show ?thesis
    using feed_append [of "r\<lparr>op_pending := p\<rparr>" ev u t] feed_text_update [OF assms, of ev t p]
    by (simp add: feed_some_def)
qed

lemma drain_after_valid:
  assumes r: "tagged r" "good_table (op_markers r)" and t: "from_utf8 a = Inr t"
  shows "observed (drain_pending ev (r\<lparr>op_pending := a @ q\<rparr>)) =
    observed (drain_pending ev ((feed_some ev t r)\<lparr>op_pending := q\<rparr>))"
proof -
  let ?r = "r\<lparr>op_pending := a @ q\<rparr>" and ?s = "(feed_some ev t r)\<lparr>op_pending := q\<rparr>"
  have p: "op_pending ?r = a @ q" "op_pending ?s = q" "?r\<lparr>op_pending := x\<rparr> = r\<lparr>op_pending := x\<rparr>"
    "?s\<lparr>op_pending := x\<rparr> = (feed_some ev t r)\<lparr>op_pending := x\<rparr>" for x by simp_all
  show ?thesis
  proof (cases "from_utf8 q")
    case (Inr u)
    have "from_utf8 (a @ q) = Inr (t @ u)" using from_utf8_append [OF t, of q] Inr by simp
    then show ?thesis
      using drain_valid [of ?r "t @ u" ev] drain_valid [of ?s u ev] Inr feed_some_append [OF r, of ev t u "[]"] by simp
  next
    case (Inl x)
    then obtain k e where e: "from_utf8 q = Inl (k, e)" by (cases x) auto
    obtain u where u: "from_utf8 (take k q) = Inr u" using from_utf8_error [OF e] by metis
    have er: "from_utf8 (op_pending ?r) = Inl (length a + k, e)" "from_utf8 (take (length a + k) (op_pending ?r)) = Inr (t @ u)"
      using from_utf8_append [OF t, of q] from_utf8_append [OF t, of "take k q"] e u by simp_all
    have es: "from_utf8 (op_pending ?s) = Inl (k, e)" "from_utf8 (take k (op_pending ?s)) = Inr u" using e u by simp_all
    have d: "drop (length a + k) (a @ q) = drop k q" "drop (length a + k + n) (a @ q) = drop (k + n) q" for n by simp_all
    note both = feed_some_append [OF r, of ev t u "drop k q"]
    show ?thesis
    proof (cases e)
      case None
      then show ?thesis using drain_error(1) [OF er] drain_error(1) [OF es] both by simp
    next
      case (Some n)
      show ?thesis unfolding drain_error(2) [OF er Some] drain_error(2) [OF es Some] p d
        by (intro obs_drain_pending obs_feed_text obs_update(3) both)
    qed
  qed
qed

text \<open>Bytes appended later are decoded as if they had been there.\<close>

lemma drain_append:
  assumes "tagged r" "good_table (op_markers r)"
  shows "observed (drain_pending ev (r\<lparr>op_pending := op_pending r @ q\<rparr>)) =
    observed (drain_pending ev ((drain_pending ev r)\<lparr>op_pending := op_pending (drain_pending ev r) @ q\<rparr>))"
  using assms
proof (induction "length (op_pending r)" arbitrary: r rule: less_induct)
  case less
  let ?p = "op_pending r"
  have up: "(feed_some ev t (r\<lparr>op_pending := x\<rparr>))\<lparr>op_pending := y\<rparr> = (feed_some ev t r)\<lparr>op_pending := y\<rparr>" for t x y
    using feed_text_update [OF less.prems, of ev t x] by (simp add: feed_some_def)
  show ?case
  proof (cases "from_utf8 ?p")
    case (Inr t)
    then show ?thesis using drain_after_valid [OF less.prems Inr, of ev q] drain_valid [OF Inr, of ev] up by simp
  next
    case (Inl x)
    then obtain k e where e: "from_utf8 ?p = Inl (k, e)" by (cases x) auto
    obtain t where t: "k \<le> length ?p" "from_utf8 (take k ?p) = Inr t"
      "\<And>n q. e = Some n \<Longrightarrow> from_utf8 (drop k ?p @ q) = Inl (0, e)" "\<And>n. e = Some n \<Longrightarrow> k + n \<le> length ?p \<and> 0 < n"
      using from_utf8_error [OF e] by metis
    show ?thesis
    proof (cases e)
      case None
      then show ?thesis
        using drain_after_valid [OF less.prems t(2), of ev "drop k ?p @ q"] drain_error(1) [OF e t(2) None, of ev] up
        by (simp add: append_assoc [symmetric] del: append_assoc)
    next
      case (Some n)
      let ?s = "feed_text ev [65533] ((feed_some ev t r)\<lparr>op_pending := drop (k + n) ?p\<rparr>)"
      let ?r = "r\<lparr>op_pending := ?p @ q\<rparr>"
      have once: "drain_pending ev r = drain_pending ev ?s" using drain_error(2) [OF e t(2) Some, of ev] up by simp
      have pq: "?p @ q = take k ?p @ (drop k ?p @ q)" by (metis append_assoc append_take_drop_id)
      have len: "length (take k ?p) = k" "take k (?p @ q) = take k ?p" using t(1) by simp_all
      have "from_utf8 (take k ?p @ (drop k ?p @ q)) = Inl (k, e)"
        unfolding from_utf8_append [OF t(2)] t(3) [OF Some] len by simp
      then have "from_utf8 (?p @ q) = Inl (k, e)" by (subst pq)
      moreover have "from_utf8 (take k (?p @ q)) = Inr t" unfolding len(2) by (rule t(2))
      ultimately have er: "from_utf8 (op_pending ?r) = Inl (k, e)" "from_utf8 (take k (op_pending ?r)) = Inr t"
        by (simp_all del: take_append)
      have s: "tagged (feed_some ev t r)" "good_table (op_markers (feed_some ev t r))"
        using feed_some_setup [OF less.prems(1)] less.prems(2) by simp_all
      have pr: "op_pending ?r = ?p @ q" "?r\<lparr>op_pending := x\<rparr> = r\<lparr>op_pending := x\<rparr>" for x by simp_all
      have up2: "feed_text ev [65533] ((feed_some ev t r)\<lparr>op_pending := y\<rparr>) = ?s\<lparr>op_pending := y\<rparr>" for y
        using feed_text_update [OF s] by simp
      have "drain_pending ev ?r = drain_pending ev (?s\<lparr>op_pending := drop (k + n) (?p @ q)\<rparr>)"
        unfolding drain_error(2) [OF er Some, of ev] pr up up2 [of "drop (k + n) (?p @ q)"] by (rule refl)
      moreover have "drop (k + n) (?p @ q) = op_pending ?s @ q" using t(4) [OF Some] by simp
      moreover have "observed (drain_pending ev (?s\<lparr>op_pending := op_pending ?s @ q\<rparr>)) =
          observed (drain_pending ev ((drain_pending ev ?s)\<lparr>op_pending := op_pending (drain_pending ev ?s) @ q\<rparr>))"
        using t(4) [OF Some] feed_text_setup [of "(feed_some ev t r)\<lparr>op_pending := drop (k + n) ?p\<rparr>" ev "[65533]"] s
        by (intro less.hyps) (auto simp: same_setup_def)
      ultimately show ?thesis by (simp only: once)
    qed
  qed
qed


section \<open>Tokens\<close>

lemma drain_setup:
  "tagged r \<Longrightarrow> tagged (drain_pending ev r) \<and> op_markers (drain_pending ev r) = op_markers r \<and>
     op_format (drain_pending ev r) = op_format r"
proof (induction "length (op_pending r)" arbitrary: r rule: less_induct)
  case less
  have some: "tagged ((feed_some ev t (r\<lparr>op_pending := x\<rparr>))\<lparr>op_pending := y\<rparr>)"
    "op_markers ((feed_some ev t (r\<lparr>op_pending := x\<rparr>))\<lparr>op_pending := y\<rparr>) = op_markers r"
    "op_format ((feed_some ev t (r\<lparr>op_pending := x\<rparr>))\<lparr>op_pending := y\<rparr>) = op_format r"
    "tagged (feed_some ev t (r\<lparr>op_pending := x\<rparr>))" "op_markers (feed_some ev t (r\<lparr>op_pending := x\<rparr>)) = op_markers r"
    "op_format (feed_some ev t (r\<lparr>op_pending := x\<rparr>)) = op_format r" for t x y
    using feed_some_setup [of "r\<lparr>op_pending := x\<rparr>" ev t] less.prems by simp_all
  show ?case
  proof (cases "from_utf8 (op_pending r)")
    case (Inr t)
    then show ?thesis using drain_valid [OF Inr, of ev] some by simp
  next
    case (Inl x)
    then obtain k e where e: "from_utf8 (op_pending r) = Inl (k, e)" by (cases x) auto
    obtain t where t: "from_utf8 (take k (op_pending r)) = Inr t" "\<And>n. e = Some n \<Longrightarrow> k + n \<le> length (op_pending r) \<and> 0 < n"
      using from_utf8_error [OF e] by metis
    show ?thesis
    proof (cases e)
      case None
      then show ?thesis using drain_error(1) [OF e t(1) None, of ev] some by simp
    next
      case (Some n)
      let ?s = "feed_text ev [65533]
        ((feed_some ev t (r\<lparr>op_pending := drop k (op_pending r)\<rparr>))\<lparr>op_pending := drop (k + n) (op_pending r)\<rparr>)"
      have s: "tagged ?s" "op_markers ?s = op_markers r" "op_format ?s = op_format r"
        using feed_text_setup [OF some(1)] some(2,3) by (auto simp: same_setup_def)
      have "length (op_pending ?s) < length (op_pending r)" using t(2) [OF Some] by (simp; linarith)
      then show ?thesis using less.hyps [OF _ s(1)] s(2,3) drain_error(2) [OF e t(1) Some, of ev] by simp
    qed
  qed
qed

definition with_count :: "nat \<Rightarrow> 'n output_run \<Rightarrow> 'n output_run" where
  "with_count n r = r\<lparr>op_reasoning_tokens := n\<rparr>"

lemma count_rig: "with_count n r = rig (op_pending r) n r"
  by (cases r) (simp add: with_count_def rig_def)

lemma count_pending: "(with_count n r)\<lparr>op_pending := p\<rparr> = with_count n (r\<lparr>op_pending := p\<rparr>)"
  by (cases r) (simp add: with_count_def)

lemma count_fields [simp]:
  "op_pending (with_count n r) = op_pending r" "op_markers (with_count n r) = op_markers r" "tagged (with_count n r) = tagged r"
  "with_count n (with_count m r) = with_count n r"
  by (simp_all add: count_rig) (simp add: rig_def)?

lemma feed_some_count:
  "tagged r \<Longrightarrow> good_table (op_markers r) \<Longrightarrow> feed_some ev t (with_count n r) = with_count n (feed_some ev t r)"
  by (simp add: feed_some_def count_rig feed_text_rig) (simp add: feed_text_def)?

lemma drain_count:
  "tagged r \<Longrightarrow> good_table (op_markers r) \<Longrightarrow> drain_pending ev (with_count n r) = with_count n (drain_pending ev r)"
proof (induction "length (op_pending r)" arbitrary: r rule: less_induct)
  case less
  have up: "feed_some ev t (with_count n (r\<lparr>op_pending := x\<rparr>)) = with_count n (feed_some ev t (r\<lparr>op_pending := x\<rparr>))" for t x
    using less.prems by (intro feed_some_count) simp_all
  show ?case
  proof (cases "from_utf8 (op_pending r)")
    case (Inr t)
    then show ?thesis using drain_valid [of r t ev] drain_valid [of "with_count n r" t ev] up by (simp add: count_pending)
  next
    case (Inl x)
    then obtain k e where e: "from_utf8 (op_pending r) = Inl (k, e)" by (cases x) auto
    obtain t where t: "from_utf8 (take k (op_pending r)) = Inr t" "\<And>n. e = Some n \<Longrightarrow> k + n \<le> length (op_pending r) \<and> 0 < n"
      using from_utf8_error [OF e] by metis
    have c: "from_utf8 (op_pending (with_count n r)) = Inl (k, e)" "from_utf8 (take k (op_pending (with_count n r))) = Inr t"
      using e t by simp_all
    show ?thesis
    proof (cases e)
      case None
      then show ?thesis using drain_error(1) [OF e t(1) None, of ev] drain_error(1) [OF c None, of ev] up
        by (simp add: count_pending)
    next
      case (Some m)
      let ?q = "(feed_some ev t (r\<lparr>op_pending := drop k (op_pending r)\<rparr>))\<lparr>op_pending := drop (k + m) (op_pending r)\<rparr>"
      have q: "tagged ?q" "good_table (op_markers ?q)"
        using feed_some_setup [of "r\<lparr>op_pending := drop k (op_pending r)\<rparr>" ev t] less.prems by simp_all
      have s: "tagged (feed_text ev [65533] ?q)" "good_table (op_markers (feed_text ev [65533] ?q))"
        using feed_text_setup [OF q(1), of ev "[65533]"] q(2) by (auto simp: same_setup_def)
      have "drain_pending ev (with_count n r) = drain_pending ev (feed_text ev [65533] (with_count n ?q))"
        unfolding drain_error(2) [OF c Some, of ev] by (simp add: count_pending up)
      also have "feed_text ev [65533] (with_count n ?q) = with_count n (feed_text ev [65533] ?q)"
        using feed_some_count [OF q, of ev "[65533]" n] by (simp add: feed_some_def)
      also have "drain_pending ev \<dots> = with_count n (drain_pending ev (feed_text ev [65533] ?q))"
        using t(2) [OF Some] s by (intro less.hyps) (simp; linarith)+
      finally show ?thesis unfolding drain_error(2) [OF e t(1) Some, of ev] .
    qed
  qed
qed

text \<open>A token that is no marker, and whose text is not the fallback for a control token in a body.\<close>

definition plain_token :: "chat_format \<Rightarrow> tokenizer \<Rightarrow> nat \<Rightarrow> bool" where
  "plain_token f tk i \<longleftrightarrow> \<not> cf_is_marker f i \<and> (tk_decode tk i \<noteq> [] \<or> \<not> tk_is_control tk i)"

text \<open>What is observed, the count of reasoning tokens aside.\<close>

definition uncounted :: "'n output_run \<Rightarrow> 'n output_run \<times> 'n out_item list" where
  "uncounted r = observed (with_count 0 r)"

lemma obs_uncounted:
  assumes "observed r = observed s"
  shows "uncounted r = uncounted s"
  using obs_rig [OF assms] observed_fields(5) [OF assms] by (simp add: uncounted_def count_rig)

lemma push_plain:
  assumes "plain_token (op_format r) tk i"
  shows "uncounted (output_push ev tk i r) = uncounted (drain_pending ev (r\<lparr>op_pending := op_pending r @ tk_decode tk i\<rparr>))"
  using assms by (auto simp: output_push_def plain_token_def uncounted_def with_count_def Let_def)

lemma uncounted_drain:
  assumes "uncounted r = uncounted s" "tagged s" "good_table (op_markers s)"
  shows "uncounted (drain_pending ev (r\<lparr>op_pending := op_pending r @ p\<rparr>)) =
    uncounted (drain_pending ev (s\<lparr>op_pending := op_pending s @ p\<rparr>))"
proof -
  have o: "observed (with_count 0 r) = observed (with_count 0 s)" using assms(1) by (simp add: uncounted_def)
  note f = observed_fields [OF o]
  have "tagged (with_count 0 s)" using assms(2) by simp
  then have "tagged (with_count 0 r)" using f unfolding tagged_def in_json_def by simp
  then have r: "tagged r" "good_table (op_markers r)" "op_pending r = op_pending s" using f assms(3) by simp_all
  have "observed (drain_pending ev ((with_count 0 r)\<lparr>op_pending := op_pending s @ p\<rparr>)) =
      observed (drain_pending ev ((with_count 0 s)\<lparr>op_pending := op_pending s @ p\<rparr>))"
    by (intro obs_drain_pending obs_update(3) o)
  then show ?thesis using r assms(2,3) by (simp add: uncounted_def count_pending drain_count)
qed

lemma push_all:
  assumes f: "tagged r" "good_table (op_markers r)" "op_pending r = []"
    and ids: "\<forall>i \<in> set ids. plain_token (op_format r) tk i"
  shows "uncounted (fold (output_push ev tk) ids r) =
    uncounted (drain_pending ev (r\<lparr>op_pending := concat (map (tk_decode tk) ids)\<rparr>))"
  using ids
proof (induction ids rule: rev_induct)
  case Nil
  have "r\<lparr>op_pending := []\<rparr> = r" using f(3) by (cases r) simp
  moreover have "drain_pending ev r = r" using f(3) drain_pending.simps [of ev r] by simp
  ultimately show ?case by simp
next
  case (snoc i ids)
  let ?x = "fold (output_push ev tk) ids r" and ?b = "concat (map (tk_decode tk) ids)"
  let ?r = "r\<lparr>op_pending := ?b\<rparr>"
  let ?y = "drain_pending ev ?r"
  have IH: "uncounted ?x = uncounted ?y" using snoc by simp
  have y: "tagged ?y" "good_table (op_markers ?y)" using drain_setup [of ?r ev] f by simp_all
  have "op_format ?x = op_format ?y" using observed_fields(1) [OF IH [unfolded uncounted_def]] by (simp add: with_count_def)
  then have "op_format ?x = op_format r" using drain_setup [of ?r ev] f by simp
  then have "uncounted (output_push ev tk i ?x) = uncounted (drain_pending ev (?x\<lparr>op_pending := op_pending ?x @ tk_decode tk i\<rparr>))"
    using snoc.prems by (intro push_plain) simp
  also have "\<dots> = uncounted (drain_pending ev (?y\<lparr>op_pending := op_pending ?y @ tk_decode tk i\<rparr>))"
    by (rule uncounted_drain [OF IH y])
  also have "\<dots> = uncounted (drain_pending ev (?r\<lparr>op_pending := op_pending ?r @ tk_decode tk i\<rparr>))"
    using drain_append [of ?r ev "tk_decode tk i"] f by (intro obs_uncounted) simp
  finally show ?case by simp
qed


text \<open>
C38: Cutting a reply into other tokens does not change what is read, for every detected format but
  that of bare JSON tool calls (whose first chunk decides). Take tokens that are no markers of the
  format and, if they are control tokens, have a text of their own, so that all they bring is their
  bytes. Pushing them one by one, even where one splits a character, gives the parser state and the
  output that decoding all their bytes at once gives, when adjacent text is joined and the count of
  reasoning tokens left aside.
\<close>

theorem tokens_do_not_matter:
  fixes ev :: "'n output_env"
  assumes "chat_detect md tk template = Inr f" "\<not> is_llama (cf_tools f)" "\<forall>i \<in> set ids. plain_token f tk i"
  shows "uncounted (fold (output_push ev tk) ids (output_new f b)) =
    uncounted (drain_pending ev ((output_new f b)\<lparr>op_pending := concat (map (tk_decode tk) ids)\<rparr>))"
proof (rule push_all)
  show "op_pending (output_new f b) = []" by (rule new_tagged(4) [OF assms(2)])
  show "good_table (op_markers (output_new f b))" using detected_good [OF assms(1,2)] by (simp only: new_tagged(2) [OF assms(2)])
  show "\<forall>i \<in> set ids. plain_token (op_format (output_new f b :: 'n output_run)) tk i"
    using assms(3) by (simp add: output_new_def Let_def)
qed (rule new_tagged(1) [OF assms(2)])


text \<open>A sample format: the byte-level tokenizer of \<open>Encoding\<close> with a template that writes tagged JSON.\<close>

definition sample_template :: utext where
  "sample_template = ustr ''<tool_call></tool_call>''"

definition sample_format :: chat_format where
  "sample_format = \<lparr>cf_eog = [256], cf_reasoning = None,
     cf_tools = TaggedJson (ustr ''<tool_call>'') None (Some (ustr ''</tool_call>'')), cf_marker_ids = [],
     cf_strip_leading_space = False\<rparr>"

lemma sample_lacks:
  assumes "vocab_built (map utf8_bytes sample_pieces) sample_types v" "4 < length t"
  shows "vocab_get v (utf8_bytes t) = None"
proof -
  have "length u \<le> 3" if "u \<in> set sample_pieces" for u
    using that by (auto simp: sample_pieces_def ustr_def)
  moreover have "length (utf8_bytes u) \<le> 4" if "u \<in> set sample_pieces" for u
    using that length_encode_char by (auto simp: sample_pieces_def ustr_def utf8_bytes_Cons encode_char_def)
  ultimately have "utf8_bytes t \<notin> set (map utf8_bytes sample_pieces)" using length_utf8_ge [of t] assms(2) by force
  then show ?thesis unfolding built_get [OF assms(1)] first_id_None by simp
qed

lemma sample_detected:
  obtains tk where "chat_detect (sample_md(''tokenizer.ggml.eos_token_id'' \<mapsto> GU32 256)) tk sample_template = Inr sample_format"
    "vocab_built (map utf8_bytes sample_pieces) sample_types (tk_vocab tk)"
proof -
  obtain tk where "tk_from_gguf sample_md = Some (Inr tk)"
    and tk: "vocab_built (map utf8_bytes sample_pieces) sample_types (tk_vocab tk)" "is_byte_level (tk_engine tk)"
    by (rule sample_tokenizer)
  have size: "tk_vocab_size tk = 257"
    using tk(1) by (simp add: vocab_built_def filling_def tk_vocab_size_def vocab_len_def)
  have lacks: "tk_token_id tk t = None" if "4 < length t" for t
    using sample_lacks [OF tk(1) that] by (simp add: tk_token_id_def)
  have "List.map_filter (tk_token_id tk) EOG_TEXTS = []"
    by (simp add: EOG_TEXTS_def List.map_filter_def lacks ustr_def)
  moreover have "detect_reasoning tk sample_template = None"
    by (simp add: detect_reasoning_def sample_template_def contains_def ustr_def find_sub.simps)
  moreover have "detect_tools tk sample_template = TaggedJson (ustr ''<tool_call>'') None (Some (ustr ''</tool_call>''))"
    by (simp add: detect_tools_def sample_template_def contains_def ustr_def find_sub.simps)
  moreover have "\<not> strips_leading_space tk" using tk(2) by (auto simp: strips_leading_space_def is_byte_level_def split: engine.splits)
  ultimately have "chat_detect (sample_md(''tokenizer.ggml.eos_token_id'' \<mapsto> GU32 256)) tk sample_template = Inr sample_format"
    by (simp add: chat_detect_def md_id_def List.map_filter_def sample_md_def size Let_def sample_format_def lacks ustr_def)
  then show ?thesis using that tk(1) by blast
qed

definition sample_env :: "(utext \<Rightarrow> string + int json) \<Rightarrow> int output_env" where
  "sample_env from_str = \<lparr>ev_from_str = from_str, ev_number = \<lambda>_. None, ev_call_id = \<lambda>_. ''id''\<rparr>"

theorem tokens_do_not_matter_witness:
  "\<exists>tk. uncounted (fold (output_push (sample_env (\<lambda>_. Inl [])) tk) [195, 169] (output_new sample_format False)) =
     uncounted (drain_pending (sample_env (\<lambda>_. Inl []))
       ((output_new sample_format False)\<lparr>op_pending := tk_decode tk 195 @ tk_decode tk 169\<rparr>))"
proof -
  obtain tk where tk: "chat_detect (sample_md(''tokenizer.ggml.eos_token_id'' \<mapsto> GU32 256)) tk sample_template = Inr sample_format"
    "vocab_built (map utf8_bytes sample_pieces) sample_types (tk_vocab tk)" by (rule sample_detected)
  have "vocab_token_type (tk_vocab tk) i = Some TYPE_NORMAL" if "i < 256" for i
    using tk(2) that by (simp add: vocab_built_def filling_def vocab_token_type_def sample_types_def nth_append)
  then have "plain_token sample_format tk i" if "i < 256" for i
    using that by (simp add: plain_token_def cf_is_marker_def sample_format_def tk_is_control_def vocab_is_control_def
        TYPE_NORMAL_def TYPE_CONTROL_def TYPE_UNKNOWN_def)
  then have "\<forall>i \<in> set [195, 169]. plain_token sample_format tk i" by simp
  moreover have "\<not> is_llama (cf_tools sample_format)" by (simp add: sample_format_def)
  ultimately have "uncounted (fold (output_push (sample_env (\<lambda>_. Inl [])) tk) [195, 169] (output_new sample_format False)) =
      uncounted (drain_pending (sample_env (\<lambda>_. Inl []))
        ((output_new sample_format False)\<lparr>op_pending := concat (map (tk_decode tk) [195, 169])\<rparr>))"
    using tokens_do_not_matter [OF tk(1)] by blast
  then show ?thesis by auto
qed

end
