(* ===== verification/Output_Replies.thy ===== *)
theory Output_Replies
  imports Output_Bytes
begin

text \<open>
  What the parser makes of a reply: plain text, a tool call between its markers, and where the bare
  JSON syntax depends on how the reply was cut.
\<close>

section \<open>Tool calls\<close>

text \<open>The text a fresh parser emits: SentencePiece models may have a space before it.\<close>

definition shown_text :: "chat_format \<Rightarrow> utext \<Rightarrow> utext" where
  "shown_text f t = (if cf_strip_leading_space f \<and> t \<noteq> [] \<and> hd t = 32 then tl t else t)"

fun call_items :: "'n output_env \<Rightarrow> nat \<Rightarrow> (utext \<times> 'n json) list \<Rightarrow> 'n out_item list" where
  "call_items ev k [] = []"
| "call_items ev k ((name, arguments) # calls) =
     WholeItem (Inr (ToolCallBlock (ev_call_id ev k) (text_string name) arguments)) # call_items ev (Suc k) calls"

lemma push_calls_items:
  "out_items (push_calls ev calls r) = out_items r @ call_items ev (or_calls r) calls"
  by (induction ev calls r rule: push_calls.induct) (simp_all add: out_items_def)

text \<open>The markers that open and close a tool call.\<close>

fun tool_brackets :: "tool_syntax \<Rightarrow> (utext \<times> utext) list" where
  "tool_brackets (Gemma4Tools opener closer) = [(opener, closer)]"
| "tool_brackets (TaggedXml opener closer) = [(opener, closer)]"
| "tool_brackets (TaggedJson opener alt_open closer) =
     concat (map (\<lambda>o'. map (\<lambda>c. (o', c)) (opt_list closer)) (opener # opt_list alt_open))"
| "tool_brackets _ = []"

text \<open>The first marker of a table in a text is the one that ends it.\<close>

definition first_at_end :: "marker list \<Rightarrow> utext \<Rightarrow> utext \<Rightarrow> bool" where
  "first_at_end ms t m \<longleftrightarrow> (\<forall>m' \<in> set ms. \<forall>k < length t. \<not> occurs (mk_text m') (t @ m) k)"

lemma occurs_end: "occurs m (t @ m) (length t)"
  by (simp add: occurs_def)

lemma emit_content_new:
  assumes "\<not> is_llama (cf_tools f)"
  shows "out_items (route ev t (output_new f False)) = map TextChar (shown_text f t)"
    "or_calls (route ev t (output_new f False)) = 0" "op_state (route ev t (output_new f False)) = Content"
    "op_format (route ev t (output_new f False)) = f"
  using assms
  by (simp_all add: route_def output_new_def Let_def emit_content_with emit_with_def trim_prefix_def
      shown_text_def out_items_def)

lemma apply_open_tool:
  "op_state r = Content \<Longrightarrow> apply_action ev OpenTool r = r\<lparr>op_state := ToolBody []\<rparr>"
  by (simp add: apply_action_def resolve_header_def)

lemma process_marker:
  assumes "tagged r" "good_table (op_markers r)" "m \<in> set (active_markers r)"
    "op_hold r = t @ mk_text m @ rest" "first_at_end (active_markers r) t (mk_text m)"
  shows "process_hold ev r = process_hold ev (apply_action ev (mk_action m) (route ev t (r\<lparr>op_hold := rest\<rparr>)))"
proof -
  note good = good_active [OF assms(2)]
  have "earliest_marker (t @ mk_text m) (active_markers r) = Some (length t, length (mk_text m), mk_action m)"
    using assms(3,5) occurs_end [of "mk_text m" t] by (intro earliest_SomeI [OF good]) (auto simp: first_at_end_def)
  note e = earliest_append(1) [OF good this, of rest] earliest_append(2,3) [OF good this]
  have "\<not> in_json r" using assms(1) by (simp add: tagged_def)
  then show ?thesis using e by (simp add: process_hold_other assms(4))
qed

text \<open>
C39: A tool call between its markers is read: the text before it is emitted, its body is parsed in
  the syntax of the format and becomes its calls in order, under the ids drawn for them, and a body
  that does not parse becomes an error; the parser is back in the content with nothing held.
\<close>

theorem tool_call_is_read:
  fixes ev :: "'n output_env"
  assumes "chat_detect md tk template = Inr f" "(opener, closer) \<in> set (tool_brackets (cf_tools f))"
    "first_at_end (mt_content (markers_of f)) t opener" "first_at_end (mt_tool (markers_of f)) body closer"
  shows "let r = feed_text ev (t @ opener @ body @ closer) (output_new f False) in
    op_state r = Content \<and> op_hold r = [] \<and>
    out_items r = map TextChar (shown_text f t) @
      (case parse_body ev (cf_tools f) body of
         Inr calls \<Rightarrow> call_items ev 0 calls
       | Inl _ \<Rightarrow> [WholeItem (Inl (local_err (''malformed tool call: '' @ text_string body)))])"
proof -
  let ?new = "output_new f False :: 'n output_run"
  have l: "\<not> is_llama (cf_tools f)" using assms(2) by (cases "cf_tools f") auto
  have good: "good_table (markers_of f)" by (rule detected_good [OF assms(1) l])
  have m: "open_tool opener \<in> set (mt_content (markers_of f))" "close_tool closer \<in> set (mt_tool (markers_of f))"
    using assms(2) by (cases "cf_tools f"; auto simp: markers_of_def Let_def)+
  let ?s = "route ev t ?new" and ?r0 = "?new\<lparr>op_hold := t @ opener @ body @ closer\<rparr>"
  let ?s1 = "?s\<lparr>op_hold := body @ closer, op_state := ToolBody []\<rparr>"
  let ?s2 = "?s\<lparr>op_hold := [], op_state := Content\<rparr>"
  have new: "tagged ?new" "op_markers ?new = markers_of f" "op_hold ?new = []" by (rule new_tagged [OF l])+
  note s = route_setup [OF new(1), of ev t] and fresh = emit_content_new [OF l, of ev t]
  have "process_hold ev ?r0 = process_hold ev ?s1"
  proof -
    have "op_state ?r0 = Content" by (simp add: output_new_def)
    then have "active_markers ?r0 = mt_content (markers_of f)" by (simp add: active_markers_def new)
    then have "process_hold ev ?r0 =
        process_hold ev (apply_action ev OpenTool (route ev t (?r0\<lparr>op_hold := body @ closer\<rparr>)))"
      using process_marker [of ?r0 "open_tool opener" t "body @ closer" ev] new good m(1) assms(3)
      by (simp add: open_tool_def)
    then show ?thesis using route_hold_update [OF new(1), of ev t "body @ closer"] fresh(3)
      by (simp add: apply_open_tool)
  qed
  also have "process_hold ev ?s1 = process_hold ev (finish_tool_call ev body ?s2)"
  proof -
    have t1: "tagged ?s1" using s(1) by (simp add: tagged_def in_json_def)
    have ms: "op_markers ?s1 = markers_of f" using s(2) new(2) by (simp add: same_setup_def)
    then have "active_markers ?s1 = mt_tool (markers_of f)" by (simp add: active_markers_def)
    then have "process_hold ev ?s1 = process_hold ev (apply_action ev CloseTool (route ev body (?s1\<lparr>op_hold := []\<rparr>)))"
      using process_marker [OF t1, of "close_tool closer" body "[]" ev] ms good m(2) assms(4)
      by (simp add: close_tool_def)
    moreover have "route ev body (?s1\<lparr>op_hold := []\<rparr>) = ?s\<lparr>op_hold := [], op_state := ToolBody body\<rparr>"
      by (cases ?s) (simp add: route_def)
    ultimately show ?thesis by (simp add: apply_action_def)
  qed
  also have "process_hold ev (finish_tool_call ev body ?s2) = finish_tool_call ev body ?s2"
  proof -
    let ?r = "finish_tool_call ev body ?s2"
    have r: "op_state ?r = Content" "op_hold ?r = []" "op_markers ?r = markers_of f"
      using push_calls_setup [of ev _ "?s2\<lparr>op_trim_leading_ws := True\<rparr>"] s(2) new(2)
      by (auto simp: finish_tool_call_def Let_def same_setup_def split: sum.split)
    then have "good_markers (active_markers ?r)" using good by (intro good_active) simp
    then have "earliest_marker [] (active_markers ?r) = None"
      by (auto simp: earliest_None occurs_def dest: good_nonempty)
    then show ?thesis using r by (simp add: process_hold_other in_json_def)
  qed
  finally have result: "feed_text ev (t @ opener @ body @ closer) ?new = finish_tool_call ev body ?s2"
    by (simp add: feed_text_def new)
  have items: "out_items (?s2\<lparr>op_trim_leading_ws := True\<rparr>) = map TextChar (shown_text f t)"
    "or_calls (?s2\<lparr>op_trim_leading_ws := True\<rparr>) = 0" "op_format (?s2\<lparr>op_trim_leading_ws := True\<rparr>) = f"
    using fresh(1,2,4) by (simp_all add: out_items_def)
  show ?thesis
    using items push_calls_setup [of ev _ "?s2\<lparr>op_trim_leading_ws := True\<rparr>"]
    unfolding result by (simp add: Let_def finish_tool_call_def push_calls_items split: sum.split) (simp add: out_items_def)
qed


theorem tool_call_is_read_witness:
  "out_items (feed_text (sample_env (\<lambda>_. Inr (JObject [(ustr ''name'', JString (ustr ''f''))])))
      (ustr ''ok<tool_call>{}</tool_call>'') (output_new sample_format False)) =
    [TextChar 111, TextChar 107, WholeItem (Inr (ToolCallBlock ''id'' ''f'' (JObject [])))]"
proof -
  let ?ev = "sample_env (\<lambda>_. Inr (JObject [(ustr ''name'', JString (ustr ''f''))]))"
  obtain tk where tk: "chat_detect (sample_md(''tokenizer.ggml.eos_token_id'' \<mapsto> GU32 256)) tk sample_template = Inr sample_format"
    by (rule sample_detected)
  have calls: "parse_body ?ev (cf_tools sample_format) (ustr ''{}'') = Inr [(ustr ''f'', JObject [])]"
    by (simp add: parse_body_def sample_format_def parse_json_calls_def sample_env_def json_call_def map_get_def
        ustr_def or_opt_def call_arguments_def)
  have at: "k < Suc n \<longleftrightarrow> k = n \<or> k < n" for k n :: nat by auto
  have "first_at_end (mt_content (markers_of sample_format)) (ustr ''ok'') (ustr ''<tool_call>'')"
    "first_at_end (mt_tool (markers_of sample_format)) (ustr ''{}'') (ustr ''</tool_call>'')"
    by (auto simp: first_at_end_def markers_of_def sample_format_def open_tool_def close_tool_def opt_list_def
        occurs_def ustr_def Let_def at numeral_eq_Suc)
  moreover have "(ustr ''<tool_call>'', ustr ''</tool_call>'') \<in> set (tool_brackets (cf_tools sample_format))"
    by (simp add: sample_format_def opt_list_def)
  ultimately have "out_items (feed_text ?ev (ustr ''ok'' @ ustr ''<tool_call>'' @ ustr ''{}'' @ ustr ''</tool_call>'') (output_new sample_format False)) =
      map TextChar (shown_text sample_format (ustr ''ok'')) @ call_items ?ev 0 [(ustr ''f'', JObject [])]"
    using tool_call_is_read [OF tk, of "ustr ''<tool_call>''" "ustr ''</tool_call>''" "ustr ''ok''" "ustr ''{}''" ?ev]
    by (simp add: Let_def calls)
  moreover have "ustr ''ok'' @ ustr ''<tool_call>'' @ ustr ''{}'' @ ustr ''</tool_call>'' = ustr ''ok<tool_call>{}</tool_call>''"
    by (simp add: ustr_def)
  moreover have "text_string (ustr ''f'') = ''f''" by code_simp
  ultimately show ?thesis by (simp add: shown_text_def sample_format_def sample_env_def) (simp add: ustr_def)
qed

section \<open>Bare JSON\<close>

text \<open>
  With the bare JSON syntax, white space at the start of a reply is kept if text follows it in the
  same token, and dropped if it is a token of its own.
\<close>

definition bare_format :: chat_format where
  "bare_format = \<lparr>cf_eog = [0], cf_reasoning = None, cf_tools = LlamaJson None, cf_marker_ids = [],
     cf_strip_leading_space = False\<rparr>"

lemma feed_unmarked:
  assumes "\<not> in_json r" "active_markers r = []" "op_hold r = []"
  shows "feed_text ev t r = route ev t r"
proof -
  have r: "r\<lparr>op_hold := []\<rparr> = r" using assms(3) by (cases r) simp
  have "\<not> in_json (r\<lparr>op_hold := t\<rparr>)" "active_markers (r\<lparr>op_hold := t\<rparr>) = []"
    using assms by (cases "op_state r"; simp add: in_json_def active_markers_def)+
  then have "feed_text ev t r = route ev t (r\<lparr>op_hold := []\<rparr>)"
    using process_hold_quiet [of "r\<lparr>op_hold := t\<rparr>" "length t" ev] assms(3)
    by (simp add: feed_text_def earliest_None partial_marker_suffix_def)
  then show ?thesis unfolding r .
qed

theorem bare_json_depends_on_chunks:
  "out_items (feed_text ev (ustr ''  hi'') (output_new bare_format False)) = map TextChar (ustr ''  hi'') \<and>
   out_items (feed_text ev (ustr ''hi'') (feed_text ev (ustr ''  '') (output_new bare_format False))) =
     map TextChar (ustr ''hi'')"
proof -
  have new: "\<not> in_json (output_new bare_format False)" "active_markers (output_new bare_format False) = []"
    "op_hold (output_new bare_format False) = []"
    by (simp_all add: output_new_def bare_format_def in_json_def active_markers_def markers_of_def opt_list_def Let_def)
  have ws: "is_white_space 32" "\<not> is_white_space 104" by (simp_all add: is_white_space_def)
  have spaces: "feed_text ev (ustr ''  '') (output_new bare_format False) = output_new bare_format False"
    unfolding feed_unmarked [OF new]
    by (simp add: route_def output_new_def bare_format_def emit_content.simps trim_prefix_def
        trim_start_def ws ustr_def Let_def)
  show ?thesis unfolding spaces unfolding feed_unmarked [OF new]
    by (simp add: route_def output_new_def bare_format_def emit_content.simps trim_prefix_def trim_start_def ws
        ustr_def Let_def emit_text_block_def out_items_def)
qed

end
