(* ===== verification/Spec2Isabelle.thy ===== *)
theory Spec2Isabelle
  imports Prelude Dispatcher Rate_Limit Sse Client Memory_Graph Output_Replies
begin

text \<open>
  A verification library for the \<open>cuca\<close> crate, a client for language-model providers with a plugin
  pipeline, a call scheduler, and supporting services.

  \<^bold>\<open>The parts and how they interact.\<close> A request enters \<open>src/client.rs\<close>: plugins see it, a response cache
  may answer it, otherwise a provider adapter does and its stream of content blocks passes the
  plugins on its way out. In front of several backends sits the dispatcher of
  \<open>src/services/scheduler\<close>, which places calls by load, fails over, and keeps one scheduler per
  backend; a scheduler is a queue of waiting and running calls whose level a tuner moves. A rate
  limiter throttles calls on the client's side. The memory plugin keeps a graph. The local provider
  tokenizes a prompt, and reads the tokens its model generates back into content blocks: its output
  parser looks for the reasoning and tool-call markers the model's chat format names.

  \<^bold>\<open>Which theory models what\<close> (all paths under \<open>src/src\<close>):
  \<^item> \<open>Prelude\<close>: results, lists, association lists, saturating and wrapping 64-bit naturals, decimal text,
    and the locale \<open>stepper\<close> of an operation that keeps an invariant, whose lemma lifts it to runs.
  \<^item> \<open>Merge_Queue\<close>: what the two mergers of a tokenizer share: a binary heap's order, linked symbols, and
    the reference that merges the best adjacent pair until there is none.
  \<^item> \<open>Float64\<close>: IEEE double arithmetic as exact rationals rounded to 53 bits.
  \<^item> \<open>Call_Queue\<close>: \<open>services/scheduler/queue.rs\<close>, \<open>Queue\<close>: priorities, lanes, aging, buckets.
  \<^item> \<open>Tuner\<close>: \<open>services/scheduler/tuner.rs\<close>: trials of a level, their measurement and verdict.
  \<^item> \<open>Scheduler\<close>: \<open>queue.rs\<close>, \<open>State\<close>, \<open>Scheduler\<close>, \<open>Load\<close>, \<open>Pace\<close>: one critical section is one step.
  \<^item> \<open>Sched_Pool\<close>: \<open>queue.rs\<close>, \<open>SchedulerPool\<close>, the futures \<open>await_placement\<close> and \<open>CallSlot\<close>, moves. A
    poll and a drop look for their call one member after the other, as the code locks them; what other
    tasks do before each lock is an argument. The accounts of calls and the bounds of a scheduler are
    stated here, over runs in which rebalances bring and take calls.
  \<^item> \<open>Dispatcher\<close>: \<open>services/scheduler/dispatch.rs\<close>: breakers, registry, \<open>pick\<close>, attempts, \<open>call\<close> as a
    state machine over its await points, \<open>rebalance\<close>.
  \<^item> \<open>Rate_Limit\<close>: \<open>services/rate_limit.rs\<close>: the bucket and the callers of the limiter.
  \<^item> \<open>Wire_Types\<close>, \<open>Request\<close>: \<open>types.rs\<close>, \<open>error.rs\<close>, \<open>request.rs\<close>.
  \<^item> \<open>Sse\<close>: \<open>sse.rs\<close>: the incremental frame parser, with \<open>str::from_utf8\<close> written out.
  \<^item> \<open>Canonical\<close>: \<open>canonical.rs\<close>: JSON with sorted keys.
  \<^item> \<open>Prompt_Cache\<close>: \<open>services/prompt_cache.rs\<close>: digest, expiry, recency, snapshots.
  \<^item> \<open>Client\<close>: \<open>plugin.rs\<close> and \<open>client.rs\<close>: hooks, builder, pipeline, instrumented and replayed streams.
  \<^item> \<open>Memory_Graph\<close>: \<open>plugins/memory/graph.rs\<close>: the store, its indexes, searches, merge and snapshots.
  \<^item> \<open>Vocab\<close>, \<open>Bpe\<close>, \<open>Spm\<close>, \<open>Pretok\<close>, \<open>Tokenizer\<close>: the files of \<open>provider/local/tokenizer\<close>: the vocabulary
    and its hash table, the two mergers, the hand-written pre-tokenizers, \<open>Tokenizer\<close> itself from GGUF
    metadata to ids and back. \<open>Encoding\<close>: the theorems that span them.
  \<^item> \<open>Chat_Format\<close>: \<open>provider/local/chat/format.rs\<close>: end-of-generation ids, markers, tool syntax.
  \<^item> \<open>Tool_Calls\<close>: \<open>provider/local/output/calls.rs\<close>: the three grammars of a tool-call body.
  \<^item> \<open>Output\<close>: \<open>provider/local/output/mod.rs\<close>: the streaming parser from tokens to content blocks.
    \<open>Output_Chunks\<close>, \<open>Output_Bytes\<close>: cutting a reply elsewhere changes nothing; \<open>Output_Replies\<close>: what
    becomes of a tool call, and the syntax for which the cut does matter.

  \<^bold>\<open>What the lemmas show.\<close> Each component has an invariant that all its operations keep, and its
  properties are read off reachable states: no call is lost or duplicated, and an aged one is not
  overtaken within its lane;
  a tuner keeps a level only for a measured gain; a limiter grants no more than its quota and what
  late clock readings and the rounding of its refills add, and strands no slot; chunk boundaries do not change what an SSE stream says; the cache refines a list
  in recency order; a stream runs its terminal hooks once and is cached only if clean, and its replay
  is the original; the graph's indexes mirror its store and its searches are the graph-theoretic
  ones. A vocabulary finds the first id of a text; both mergers give what merging the best pair over and
  over gives; a pre-tokenizer finds the first match of its documented pattern and its words tile the
  text; the prefilters of the special-token split lose nothing; a byte-level encoding decodes to its
  raw text. The output parser reads a reply alike however its text is cut into tokens, unless the format
  is bare JSON, and a tool call becomes its calls or an error that quotes it. The findings of the
  modelling are theorems too, each next to the operation it is about.

  \<^bold>\<open>Abstractions and bounds.\<close> Machine integers are naturals with their wrap-around or saturation written
  out (\<open>u64_add\<close>, \<open>u64_sat_add\<close>) or words. Instants are nanoseconds; clock readings are inputs, so a
  delayed caller may bring an old one. A hash map is an association list in arbitrary order, a B-tree
  map the list of its entries in key order. A semaphore is its count of free permits, a weak pointer an
  absent member, a mutex the atomicity of a step. Async functions are steps between await points.
  Texts of the tokenizers and the output parser are lists of Unicode scalar values and pieces lists of
  bytes, so a position in a text counts characters where the code's counts bytes, and a slice off a
  character boundary cannot be expressed; the Unicode general category of a character is a
  parameter \<open>gc\<close>, a 32-bit float its bits, \<open>usize::MAX\<close> as a link is \<open>USIZE_NONE\<close>. The results of
  \<open>serde_json::from_str\<close> and the values of a GGUF file are parameters. Loops are total functions, their
  measures stated with them, but for two kinds: the probe of the hash table is a partial function, proved
  to end for every vocabulary that \<open>new\<close> accepts, and the walks along the linked symbols take the number
  of symbols as fuel, enough because no symbol is visited twice. Where a guard was added to make a
  recursion total (the length of a marker, the progress of a value parser) a lemma shows that it is
  never taken on the code's own arguments.

  \<^bold>\<open>Not modelled.\<close> The tensor programs of \<open>provider/local/model\<close> run on the candle and burn libraries,
  which are not in the repository; chat templates are rendered by minijinja. Provider adapters, the
  local engine, the other plugins (redaction, cost, session log, approval, guardrails, skills, subagents, sandbox,
  MCP, web search, telemetry), the vector store, orchestrator, replay, entity extraction and export are
  not modelled yet. Mutex poisoning (but for the rate limiter's), reserved capacities and serde attributes are
  left out.
\<close>

end
